(* ===== verification/CPrelude.thy ===== *)
theory CPrelude
  imports "HOL-Library.Word"
begin

text \<open>
  Shared vocabulary of the development: the machine integer types of the TRV32P3 target,
  the fact collections the component theories add to, and the generic lemmas about words,
  lists and bytes they share.  Widths follow \<^verbatim>\<open>lib/trv32p3_chess.h\<close>: \<open>int\<close>, \<open>long\<close>,
  \<open>size_t\<close> and pointers have 32 bits, \<open>long long\<close> 64, \<open>char\<close> is signed with 8.
\<close>

unbundle bit_operations_syntax

type_synonym u8 = "8 word"
type_synonym u16 = "16 word"
type_synonym u32 = "32 word"
type_synonym u64 = "64 word"

named_theorems code_defs \<open>definitions of the small code fragments, unfolded together\<close>

section \<open>Bits and words\<close>

lemma two_power_len: "(2::'b::comm_semiring_1) ^ LENGTH('a::len) = 2 * 2 ^ (LENGTH('a) - 1)"
  by (metis Suc_diff_1 len_gt_0 power_Suc)
lemma unat_drop_bit_div:
  fixes x :: "'a::len word"
  shows "unat (drop_bit n x) = unat x div 2 ^ n"
  by (metis drop_bit_eq_div unat_drop_bit_eq)

lemma unat_push_bit_mod:
  fixes x :: "'a::len word"
  shows "unat (push_bit n x) = unat x * 2 ^ n mod 2 ^ LENGTH('a)"
  using unsigned_push_bit_eq[of n x, where 'a=nat] by (metis push_bit_eq_mult take_bit_eq_mod)

lemma unat_sint: "int (unat (x::'a::len word)) = sint x mod 2 ^ LENGTH('a)"
  using uint_word_of_int[of "sint x", where 'a='a] by simp

lemma sint_eq_cases:
  fixes x :: "'a::len word"
  shows "sint x = (if unat x < 2 ^ (LENGTH('a) - 1) then int (unat x)
                   else int (unat x) - 2 ^ LENGTH('a))"
proof -
  have lo: "- (2 ^ (LENGTH('a) - 1)) \<le> sint x" and hi: "sint x < 2 ^ (LENGTH('a) - 1)"
    using sint_ge[of x] sint_lt[of x] by auto
  note u = unat_sint[of x] and w = two_power_len[where 'a='a and 'b=int]
  show ?thesis
  proof (cases "0 \<le> sint x")
    case True
    have "sint x < 2 ^ LENGTH('a)" unfolding w using hi True by simp
    then have "int (unat x) = sint x" using True u by simp
    then show ?thesis using hi
      by (metis of_nat_less_iff of_nat_numeral of_nat_power)
  next
    case False
    have "(sint x + 2 ^ LENGTH('a)) mod 2 ^ LENGTH('a) = sint x + 2 ^ LENGTH('a)"
      using False lo w by (intro mod_pos_pos_trivial) auto
    then have e: "int (unat x) = sint x + 2 ^ LENGTH('a)" using u by simp
    have "2 ^ (LENGTH('a) - 1) \<le> int (unat x)" unfolding e w using lo by simp
    then have "\<not> unat x < 2 ^ (LENGTH('a) - 1)"
      by (metis of_nat_less_iff of_nat_numeral of_nat_power not_less)
    then show ?thesis using e by simp
  qed
qed

lemma sint_neg_iff: "sint (x :: 'a::len word) < 0 \<longleftrightarrow> 2 ^ (LENGTH('a) - 1) \<le> unat x"
proof -
  have "int (unat x) < 2 ^ LENGTH('a)"
    by (metis of_nat_less_iff of_nat_numeral of_nat_power unsigned_less)
  then show ?thesis unfolding sint_eq_cases[of x] by auto
qed

lemma unat_shl1:
  fixes x :: "'a::len word"
  shows "unat (push_bit 1 x) = 2 * (unat x mod 2 ^ (LENGTH('a) - 1))"
proof -
  have "unat (push_bit 1 x) = (2 * unat x) mod (2 * 2 ^ (LENGTH('a) - 1))"
    by (metis unat_push_bit_mod two_power_len power_one_right mult.commute)
  then show ?thesis by (simp only: mult_mod_right)
qed

lemma unat_shl1_or:
  fixes x b :: "'a::len word"
  assumes "unat b < 2"
  shows "unat (push_bit 1 x OR b) = 2 * (unat x mod 2 ^ (LENGTH('a) - 1)) + unat b"
proof -
  consider "b = 0" | "b = 1"
    using assms by (metis less_2_cases One_nat_def unat_1 unat_eq_zero word_unat_eq_iff)
  then show ?thesis
  proof cases
    case 1 then show ?thesis using unat_shl1[of x] by simp
  next
    case 2
    have e: "even (push_bit 1 x)" by simp
    have "unat x mod 2 ^ (LENGTH('a) - 1) < 2 ^ (LENGTH('a) - 1)" by simp
    then have "2 * (unat x mod 2 ^ (LENGTH('a) - 1)) + 1 < 2 ^ LENGTH('a)"
      unfolding two_power_len[where 'a='a and 'b=nat] by linarith
    then have lt: "unat (push_bit 1 x) + unat (1::'a word) < 2 ^ LENGTH('a)"
      unfolding unat_shl1 by simp
    have "push_bit 1 x OR 1 = push_bit 1 x + 1" using e by (simp only: or_one_eq of_bool_eq)
    then show ?thesis using 2 lt unat_shl1[of x] unat_add_lem[of "push_bit 1 x" 1] by simp
  qed
qed

lemma unat_top_bit:
  fixes x :: "'a::len word"
  shows "unat (drop_bit (LENGTH('a) - 1) x) < 2"
proof -
  have "unat x < 2 * 2 ^ (LENGTH('a) - 1)"
    unfolding two_power_len[where 'a='a and 'b=nat, symmetric] by (rule unsigned_less)
  then show ?thesis by (simp only: unat_drop_bit_div less_mult_imp_div_less)
qed

lemma unat_pred_less:
  fixes x :: "'a::len word"
  assumes "x \<noteq> 0"
  shows "unat (x - 1) < unat x"
proof -
  have "1 \<le> unat x" using assms by (metis less_one not_less unat_eq_zero)
  moreover have "unat (x - 1) = unat x - 1"
    using \<open>1 \<le> unat x\<close> by (simp add: unat_sub_if')
  ultimately show ?thesis by simp
qed

text \<open>The \<open>n\<close> low bytes of a word, most significant first.\<close>

definition bytes_be :: "nat \<Rightarrow> 'a::len word \<Rightarrow> u8 list" where
  "bytes_be n w = map (\<lambda>i. ucast (drop_bit (8 * (n - 1 - i)) w)) [0..<n]"

lemma length_bytes_be [simp]: "length (bytes_be n w) = n"
  by (simp add: bytes_be_def)

lemma nth_bytes_be: "i < n \<Longrightarrow> bytes_be n w ! i = ucast (drop_bit (8 * (n - 1 - i)) w)"
  by (simp add: bytes_be_def)

lemma sint_word_of_int_eq:
  assumes "- (2 ^ (LENGTH('a) - 1)) \<le> d" "d < 2 ^ (LENGTH('a) - 1)"
  shows "sint (word_of_int d :: 'a::len word) = d"
  unfolding sint_sbintrunc' using assms by (rule signed_take_bit_int_eq_self)

lemma sint32_of_int: "- 2147483648 \<le> d \<Longrightarrow> d < 2147483648 \<Longrightarrow> sint (word_of_int d :: u32) = d"
  by (rule sint_word_of_int_eq) simp_all

lemma uint32_of_int: "0 \<le> d \<Longrightarrow> d < 4294967296 \<Longrightarrow> uint (word_of_int d :: u32) = d"
  by (simp add: uint_word_of_int)

lemma low_byte: "(ucast (ucast (x :: u8) :: u32) :: u8) = x" "(ucast (scast x :: u32) :: u8) = x"
  by (rule bit_word_eqI; simp add: bit_simps)+

lemma even_unat: "even (x :: 'a::len word) \<longleftrightarrow> even (unat x)"
  by transfer (simp add: even_nat_iff)

lemma unat_and_low: "unat (a AND mask k) = unat (a :: 'a::len word) mod 2 ^ k"
  unfolding take_bit_eq_mask[symmetric] unsigned_take_bit_eq by (rule take_bit_eq_mod)

lemma unat_of_nat_lt: "i < 2 ^ LENGTH('a) \<Longrightarrow> unat (of_nat i :: 'a::len word) = i"
  by (simp add: unat_of_nat)

lemma unat_of_nat32: "i < 4294967296 \<Longrightarrow> unat (of_nat i :: u32) = i"
  by (simp add: unat_of_nat)

lemma unat_clear_bit0:
  "unat (w AND NOT (of_bool b)) = (if b then unat w - unat w mod 2 else unat (w :: 'a::len word))"
proof (cases b)
  case True
  have eq: "w AND NOT 1 = push_bit 1 (drop_bit 1 w)"
    by (rule bit_word_eqI)
      (unfold bit_and_iff bit_not_iff bit_push_bit_iff bit_drop_bit_eq bit_1_iff, auto simp: comp_def)
  have "unat w div 2 * 2 < 2 ^ LENGTH('a)"
    using unsigned_less[of w, where 'a = nat] by (metis div_times_less_eq_dividend order_le_less_trans)
  then have "unat (w AND NOT 1) = unat w div 2 * 2"
    unfolding eq by (simp only: unat_push_bit_mod unat_drop_bit_div power_one_right mod_less)
  then show ?thesis using True by (simp only: of_bool_eq if_True minus_mod_eq_div_mult)
qed simp

lemma xor_zero_iff: "a XOR b = 0 \<longleftrightarrow> a = (b :: 'a::len word)"
  by (metis xor.assoc xor.left_neutral xor.right_neutral xor_self_eq)

lemma unat32_of_int: "0 \<le> d \<Longrightarrow> d < 4294967296 \<Longrightarrow> unat (word_of_int d :: u32) = nat d"
  by (simp only: unat_eq_nat_uint uint32_of_int)

lemma bit_less_unat: "unat (x :: 'a::len word) < 2 ^ k \<Longrightarrow> bit x n \<Longrightarrow> n < k"
proof -
  assume "unat x < 2 ^ k" "bit x n"
  then have "bit (unat x) n" "take_bit k (unat x) = unat x"
    by (simp_all add: bit_unsigned_iff take_bit_nat_eq_self bit_imp_le_length)
  then show "n < k" by (metis bit_take_bit_iff)
qed

lemma unat_or_push1:
  assumes "unat (x :: 'a::len word) < 2 ^ k" "k < LENGTH('a)"
  shows "unat (x OR push_bit k 1) = unat x + 2 ^ k"
proof -
  have "x OR push_bit k 1 = x + push_bit k 1"
  proof (rule disjunctive_add_eq_or[symmetric])
    show "x AND push_bit k 1 = 0"
      by (rule bit_word_eqI)
        (use bit_less_unat[OF assms(1)] in \<open>auto simp: bit_and_iff bit_push_bit_iff bit_1_iff simp del: push_bit_of_1\<close>)
  qed
  moreover have "unat (push_bit k 1 :: 'a word) = 2 ^ k"
    using assms(2) by (simp add: unat_push_bit_mod del: push_bit_of_1)
  moreover have "(2 :: nat) ^ Suc k \<le> 2 ^ LENGTH('a)" using assms(2) by (intro power_increasing) simp_all
  ultimately show ?thesis using assms(1) by (simp add: unat_plus_if' del: push_bit_of_1)
qed

end
