(* ===== verification/Primitives.thy ===== *)
theory Primitives
  imports CPrelude
begin

text \<open>
  The primitive functions of the core, \<^verbatim>\<open>lib/trv32p3.p\<close>, the set-compare intrinsics and
  compiler rewrite rules built on them (\<^verbatim>\<open>lib/trv32p3_setcmp.h\<close>, \<^verbatim>\<open>lib/trv32p3_rewrite.h\<close>)
  and the software bit fields of \<^verbatim>\<open>lib/trv32p3_bitfield.h\<close>.  The signed 32-bit class \<open>w32\<close>
  is \<open>u32\<close> read with \<open>sint\<close>; a \<open>bool\<close> converted to \<open>w32\<close> is \<open>of_bool\<close>.
\<close>

section \<open>Primitives\<close>

definition prim_add :: "u32 \<Rightarrow> u32 \<Rightarrow> u32" where [code_defs]: "prim_add a b = a + b"
definition prim_sub :: "u32 \<Rightarrow> u32 \<Rightarrow> u32" where [code_defs]: "prim_sub a b = a - b"

definition slt :: "u32 \<Rightarrow> u32 \<Rightarrow> u32" where [code_defs]: "slt a b = of_bool (sint a < sint b)"
definition sltu :: "u32 \<Rightarrow> u32 \<Rightarrow> u32" where [code_defs]: "sltu a b = of_bool (a < b)"
definition seq0 :: "u32 \<Rightarrow> u32" where [code_defs]: "seq0 a = of_bool (a = 0)"
definition sne0 :: "u32 \<Rightarrow> u32" where [code_defs]: "sne0 a = of_bool (a \<noteq> 0)"

definition prim_eq :: "u32 \<Rightarrow> u32 \<Rightarrow> bool" where [code_defs]: "prim_eq a b = (a = b)"
definition prim_ne :: "u32 \<Rightarrow> u32 \<Rightarrow> bool" where [code_defs]: "prim_ne a b = (a \<noteq> b)"
definition prim_lt :: "u32 \<Rightarrow> u32 \<Rightarrow> bool" where [code_defs]: "prim_lt a b = (sint a < sint b)"
definition prim_ge :: "u32 \<Rightarrow> u32 \<Rightarrow> bool" where [code_defs]: "prim_ge a b = (sint a \<ge> sint b)"
definition prim_ltu :: "u32 \<Rightarrow> u32 \<Rightarrow> bool" where [code_defs]: "prim_ltu a b = (a < b)"
definition prim_geu :: "u32 \<Rightarrow> u32 \<Rightarrow> bool" where [code_defs]: "prim_geu a b = (a \<ge> b)"

text \<open>The shifters use the low five bits \<open>b[4:0]\<close> of the count.\<close>

definition sra :: "u32 \<Rightarrow> u32 \<Rightarrow> u32" where "sra a b = signed_drop_bit (unat (take_bit 5 b)) a"
definition sll :: "u32 \<Rightarrow> u32 \<Rightarrow> u32" where "sll a b = push_bit (unat (take_bit 5 b)) a"
definition srl :: "u32 \<Rightarrow> u32 \<Rightarrow> u32" where "srl a b = drop_bit (unat (take_bit 5 b)) a"

section \<open>Set-compare intrinsics and rewrite rules\<close>

definition sge :: "u32 \<Rightarrow> u32 \<Rightarrow> u32" where [code_defs]: "sge a b = seq0 (slt a b)"
definition sle :: "u32 \<Rightarrow> u32 \<Rightarrow> u32" where [code_defs]: "sle a b = seq0 (slt b a)"
definition sgeu :: "u32 \<Rightarrow> u32 \<Rightarrow> u32" where [code_defs]: "sgeu a b = seq0 (sltu a b)"
definition sleu :: "u32 \<Rightarrow> u32 \<Rightarrow> u32" where [code_defs]: "sleu a b = seq0 (sltu b a)"
definition sgt :: "u32 \<Rightarrow> u32 \<Rightarrow> u32" where [code_defs]: "sgt a b = slt b a"
definition sgtu :: "u32 \<Rightarrow> u32 \<Rightarrow> u32" where [code_defs]: "sgtu a b = sltu b a"
definition sne :: "u32 \<Rightarrow> u32 \<Rightarrow> u32" where [code_defs]: "sne a b = sne0 (a - b)"
definition seq :: "u32 \<Rightarrow> u32 \<Rightarrow> u32" where [code_defs]: "seq a b = seq0 (a - b)"

text \<open>A rewrite rule replaces its first expression by its second.\<close>

type_synonym rewrite_rule = "(u32 \<Rightarrow> u32 \<Rightarrow> u32) \<times> (u32 \<Rightarrow> u32 \<Rightarrow> u32)"

definition sss_rules :: "rewrite_rule list" where
  "sss_rules =
    [(\<lambda>a b. if sint a < sint b then 1 else 0, slt),
     (\<lambda>a b. if sint a > sint b then 1 else 0, sgt),
     (\<lambda>a b. if sint a \<le> sint b then 1 else 0, sle),
     (\<lambda>a b. if sint a \<ge> sint b then 1 else 0, sge),
     (\<lambda>a b. if a = b then 1 else 0, seq),
     (\<lambda>a b. if a \<noteq> b then 1 else 0, sne),
     (\<lambda>a b. if sint a < sint b then 0 else 1, sge),
     (\<lambda>a b. if sint a > sint b then 0 else 1, sle),
     (\<lambda>a b. if sint a \<le> sint b then 0 else 1, sgt),
     (\<lambda>a b. if sint a \<ge> sint b then 0 else 1, slt),
     (\<lambda>a b. if a = b then 0 else 1, sne),
     (\<lambda>a b. if a \<noteq> b then 0 else 1, seq)]"

definition suu_rules :: "rewrite_rule list" where
  "suu_rules =
    [(\<lambda>a b. if a < b then 1 else 0, sltu),
     (\<lambda>a b. if a > b then 1 else 0, sgtu),
     (\<lambda>a b. if a \<le> b then 1 else 0, sleu),
     (\<lambda>a b. if a \<ge> b then 1 else 0, sgeu),
     (\<lambda>a b. if a = b then 1 else 0, seq),
     (\<lambda>a b. if a \<noteq> b then 1 else 0, sne),
     (\<lambda>a b. if a < b then 0 else 1, sgeu),
     (\<lambda>a b. if a > b then 0 else 1, sleu),
     (\<lambda>a b. if a \<le> b then 0 else 1, sgtu),
     (\<lambda>a b. if a \<ge> b then 0 else 1, sltu),
     (\<lambda>a b. if a = b then 0 else 1, sne),
     (\<lambda>a b. if a \<noteq> b then 0 else 1, seq)]"

text \<open>The last two rules apply where the second operand is the constant zero.\<close>

definition zero_rules :: "rewrite_rule list" where
  "zero_rules = [(\<lambda>a b. seq a b, \<lambda>a b. seq0 a), (\<lambda>a b. sne a b, \<lambda>a b. sne0 a)]"

section \<open>Software bit fields\<close>

definition chess_bitfield_extract_signed :: "u32 \<Rightarrow> u32 \<Rightarrow> u32 \<Rightarrow> u32" where
  "chess_bitfield_extract_signed W width lsb =
     (let V = sll W (32 - (width + lsb)) in sra V (32 - width))"

definition chess_bitfield_extract_unsigned :: "u32 \<Rightarrow> u32 \<Rightarrow> u32 \<Rightarrow> u32" where
  "chess_bitfield_extract_unsigned W width lsb =
     (let V = sll W (32 - (width + lsb)) in srl V (32 - width))"

definition chess_bitfield_update :: "u32 \<Rightarrow> u32 \<Rightarrow> u32 \<Rightarrow> u32 \<Rightarrow> u32" where
  "chess_bitfield_update W f width lsb =
     (let ones = - 1;
          mask1 = sll ones (width + lsb) OR NOT (sll ones lsb);
          mask2 = NOT (sll ones width)
      in W AND mask1 OR sll (f AND mask2) lsb)"

section \<open>Facts\<close>

lemma count_low: "unat (f :: u32) < 32 \<Longrightarrow> unat (take_bit 5 f) = unat f"
  by (simp add: unsigned_take_bit_eq take_bit_nat_eq_self)

lemma count_mod: "unat (take_bit 5 (f::u32)) = unat f mod 32"
  by (subst unsigned_take_bit_eq) (simp add: take_bit_eq_mod)

lemma rewrite_rules_sound:
  "(l, r) \<in> set (sss_rules @ suu_rules) \<Longrightarrow> l a b = r a b"
  by (auto simp: sss_rules_def suu_rules_def code_defs)

text \<open>Every set-compare rewrite rule of the compiler replaces an expression by one of the
  same value: the signed rules, the unsigned rules, and the two rules for a zero operand.\<close>

lemma setcmp_rewrites_preserve_value:
  "map (\<lambda>(l, r). l a b) sss_rules = map (\<lambda>(l, r). r a b) sss_rules
   \<and> map (\<lambda>(l, r). l a b) suu_rules = map (\<lambda>(l, r). r a b) suu_rules
   \<and> map (\<lambda>(l, r). l a 0) zero_rules = map (\<lambda>(l, r). r a 0) zero_rules"
  by (auto simp: sss_rules_def suu_rules_def zero_rules_def code_defs)

lemma field_counts:
  fixes width lsb :: u32
  assumes "0 < unat width" "unat width + unat lsb \<le> 32"
  shows "unat (take_bit 5 (32 - (width + lsb))) = 32 - (unat width + unat lsb)"
    and "unat (take_bit 5 (32 - width)) = 32 - unat width"
    and "unat (take_bit 5 lsb) = unat lsb"
proof -
  have s: "unat (width + lsb) = unat width + unat lsb"
    using assms by (simp add: unat_plus_if')
  then have "unat (32 - (width + lsb)) = 32 - (unat width + unat lsb)"
    using assms by (simp add: unat_sub word_le_nat_alt)
  then show "unat (take_bit 5 (32 - (width + lsb))) = 32 - (unat width + unat lsb)"
    using assms by (simp add: count_mod)
  have "unat (32 - width) = 32 - unat width"
    using assms by (simp add: unat_sub word_le_nat_alt)
  then show "unat (take_bit 5 (32 - width)) = 32 - unat width"
    using assms by (simp add: count_mod)
  show "unat (take_bit 5 lsb) = unat lsb" using assms by (simp add: count_mod)
qed

text \<open>For a field that lies inside the word, extraction returns exactly its bits, zero-extended
  or sign-extended from the top bit of the field.\<close>

lemma extract_field:
  assumes "0 < unat width" "unat width + unat lsb \<le> 32"
  shows "chess_bitfield_extract_unsigned W width lsb = take_bit (unat width) (drop_bit (unat lsb) W)
       \<and> chess_bitfield_extract_signed W width lsb
           = signed_take_bit (unat width - 1) (drop_bit (unat lsb) W)"
proof -
  note c = field_counts[OF assms]
  have "chess_bitfield_extract_unsigned W width lsb = take_bit (unat width) (drop_bit (unat lsb) W)"
    unfolding chess_bitfield_extract_unsigned_def Let_def sll_def srl_def c
    using assms
    by (intro bit_word_eqI) (auto simp: bit_simps add.commute)
  moreover have "chess_bitfield_extract_signed W width lsb
           = signed_take_bit (unat width - 1) (drop_bit (unat lsb) W)"
    unfolding chess_bitfield_extract_signed_def Let_def sll_def sra_def c
  proof (rule bit_word_eqI)
    fix n assume "n < LENGTH(32)"
    then consider "n < unat width - 1" | "unat width - 1 \<le> n" "n < 32" by fastforce
    then show "bit (signed_drop_bit (32 - unat width) (push_bit (32 - (unat width + unat lsb)) W)) n
        = bit (signed_take_bit (unat width - 1) (drop_bit (unat lsb) W)) n"
    proof cases
      case 1
      then show ?thesis using assms by (auto simp: bit_simps min_def add.commute)
    next
      case 2
      then have "bit (signed_drop_bit (32 - unat width) (push_bit (32 - (unat width + unat lsb)) W)) n
          = bit W (unat lsb + (unat width - 1))"
        using assms by (cases "n = unat width - 1") (auto simp: bit_simps add.commute)
      then show ?thesis using 2 assms by (auto simp: bit_simps min_def)
    qed
  qed
  ultimately show ?thesis by blast
qed

text \<open>Updating a field that ends below the top bit writes the low bits of the new value into
  the field and leaves every other bit of the word alone.\<close>

lemma update_field:
  assumes "0 < unat width" "unat width + unat lsb < 32" "n < 32"
  shows "bit (chess_bitfield_update W f width lsb) n
       = (if unat lsb \<le> n \<and> n < unat lsb + unat width then bit f (n - unat lsb) else bit W n)"
proof -
  have s: "unat (width + lsb) = unat width + unat lsb"
    using assms by (simp add: unat_plus_if')
  have c: "unat (take_bit 5 (width + lsb)) = unat width + unat lsb"
    "unat (take_bit 5 lsb) = unat lsb" "unat (take_bit 5 width) = unat width"
    using assms s by (simp_all add: count_low)
  show ?thesis
    unfolding chess_bitfield_update_def Let_def sll_def c
    using assms by (auto simp: bit_simps)
qed

text \<open>When the field reaches the top bit, the shift by 32 in the mask is a shift by 0 on this
  core, the mask keeps every bit, and the update ors the new value over the old field instead of
  replacing it.\<close>

lemma update_field_top:
  assumes "0 < unat width" "unat width < 32" "unat width + unat lsb = 32"
  shows "chess_bitfield_update W f width lsb = W OR push_bit (unat lsb) f"
proof -
  have s: "unat (width + lsb) = 32"
    using assms by (simp add: unat_plus_if')
  have c: "unat (take_bit 5 (width + lsb)) = 0"
    "unat (take_bit 5 lsb) = unat lsb" "unat (take_bit 5 width) = unat width"
    using assms s by (simp_all add: count_low count_mod)
  show ?thesis
    unfolding chess_bitfield_update_def Let_def sll_def c
    using assms by (intro bit_word_eqI) (auto simp: bit_simps)
qed



end
