(* ===== verification/IntEmul.thy ===== *)
theory IntEmul
  imports CPrelude "HOL-Library.Signed_Division"
begin

text \<open>
  The integer emulation routines the compiler calls where the core has no instruction:
  \<^verbatim>\<open>lib/trv32p3_div.c\<close> (restoring division, 32 and 64 bits, unsigned and signed) and
  \<^verbatim>\<open>lib/trv32p3_mul.c\<close> (shift-and-add multiplication).  The C++ overloads of
  \<open>div_pos\<close>, \<open>div_called\<close> and \<open>mul_called\<close> carry a suffix for their type here.  An output
  parameter \<open>r\<close> is the second component of the result.  The loop bodies are the same text
  at both widths, so they are one definition over the word length.
\<close>

section \<open>Division\<close>

text \<open>The \<open>for\<close> loop of \<open>div_pos\<close>, with \<open>n\<close> iterations to go, on the variables \<open>x\<close> and \<open>r\<close>.\<close>

fun div_loop :: "nat \<Rightarrow> 'a::len word \<Rightarrow> 'a word \<Rightarrow> 'a word \<Rightarrow> 'a word \<times> 'a word" where
  "div_loop 0 x d r = (x, r)"
| "div_loop (Suc n) x d r =
     (let r1 = push_bit 1 r OR drop_bit (LENGTH('a) - 1) x;
          x1 = push_bit 1 x
      in if d \<le> r1 then div_loop n (x1 OR 1) d (r1 - d) else div_loop n x1 d r1)"

definition div_pos_u32 :: "u32 \<Rightarrow> u32 \<Rightarrow> u32 \<times> u32" where
  "div_pos_u32 x d =
     (if sint d < 0 then (if d \<le> x then (1, x - d) else (0, x))
      else div_loop 32 x d 0)"

definition div_called_u32 :: "u32 \<Rightarrow> u32 \<Rightarrow> u32 \<times> u32" where
  "div_called_u32 x d = div_pos_u32 x d"

definition div_called_i32 :: "u32 \<Rightarrow> u32 \<Rightarrow> u32 \<times> u32" where
  "div_called_i32 x d =
     (let xu = (if sint x < 0 then - x else x);
          du = (if sint d < 0 then - d else d);
          (qu, ru) = div_pos_u32 xu du;
          r = (if sint x < 0 then - ru else ru)
      in (if sint (x XOR d) < 0 then - qu else qu, r))"

definition div_pos_u64 :: "u64 \<Rightarrow> u64 \<Rightarrow> u64 \<times> u64" where
  "div_pos_u64 x d =
     (if sint d < 0 then (if d \<le> x then (1, x - d) else (0, x))
      else div_loop 64 x d 0)"

definition div_called_u64 :: "u64 \<Rightarrow> u64 \<Rightarrow> u64 \<times> u64" where
  "div_called_u64 x d = div_pos_u64 x d"

definition div_called_i64 :: "u64 \<Rightarrow> u64 \<Rightarrow> u64 \<times> u64" where
  "div_called_i64 x d =
     (let xu = (if sint x < 0 then - x else x);
          du = (if sint d < 0 then - d else d);
          (qu, ru) = div_pos_u64 xu du;
          r = (if sint x < 0 then - ru else ru)
      in (if sint (x XOR d) < 0 then - qu else qu, r))"

section \<open>Multiplication\<close>

text \<open>The \<open>do \<dots> while (b != 0)\<close> loop of \<open>mul_called\<close>.\<close>

function mul_loop :: "'a::len word \<Rightarrow> 'a word \<Rightarrow> 'a word \<Rightarrow> 'a word" where
  "mul_loop p a b =
     (let p1 = (if b AND 1 \<noteq> 0 then p + a else p);
          a1 = push_bit 1 a;
          b1 = drop_bit 1 b
      in if b1 \<noteq> 0 then mul_loop p1 a1 b1 else p1)"
  by pat_completeness auto
termination
proof (relation "measure (\<lambda>(p, a, b). unat b)")
  fix p a b p1 a1 b1 :: "'a word"
  assume "b1 = drop_bit 1 b" and nz: "b1 \<noteq> 0"
  then have u: "unat b1 = unat b div 2" by (simp only: unat_drop_bit_div power_one_right)
  have "unat b1 \<noteq> 0" using nz by (simp add: unsigned_eq_0_iff)
  then have "unat b1 < unat b" unfolding u by (intro div_less_dividend) auto
  then show "((p1, a1, b1), p, a, b) \<in> measure (\<lambda>(p, a, b). unat b)" by simp
qed simp

declare mul_loop.simps [simp del]

definition mul_called_i32 :: "u32 \<Rightarrow> u32 \<Rightarrow> u32" where
  "mul_called_i32 a b = mul_loop 0 a b"

definition mul_called_i64 :: "u64 \<Rightarrow> u64 \<Rightarrow> u64" where
  "mul_called_i64 a b = mul_loop 0 a b"

section \<open>Restoring division computes quotient and remainder\<close>

lemma bit_split_step:
  fixes x a q n w :: nat
  assumes "Suc n \<le> w" "x = a * 2 ^ (w - Suc n) + q" "a < 2 ^ Suc n" "q < 2 ^ (w - Suc n)"
  shows "x div 2 ^ (w - 1) = a div 2 ^ n"
    and "2 * (x mod 2 ^ (w - 1)) = a mod 2 ^ n * 2 ^ (w - n) + 2 * q"
    and "2 * q + 1 < 2 ^ (w - n)"
proof -
  have p: "(2::nat) ^ (w - 1) = 2 ^ n * 2 ^ (w - Suc n)"
    using assms(1) by (simp flip: power_add)
  have p2: "(2::nat) ^ (w - n) = 2 * 2 ^ (w - Suc n)"
    using assms(1) by (metis Suc_diff_le diff_Suc_Suc power_Suc)
  have "a mod 2 ^ n + 1 \<le> 2 ^ n"
    by (simp add: Suc_leI)
  then have "(a mod 2 ^ n + 1) * 2 ^ (w - Suc n) \<le> 2 ^ (w - 1)"
    unfolding p by (rule mult_right_mono) simp
  then have lt: "a mod 2 ^ n * 2 ^ (w - Suc n) + q < 2 ^ (w - 1)"
    using assms(4) by (simp add: algebra_simps)
  have x: "x = (a div 2 ^ n) * 2 ^ (w - 1) + (a mod 2 ^ n * 2 ^ (w - Suc n) + q)"
  proof -
    have "a * 2 ^ (w - Suc n) = (a div 2 ^ n * 2 ^ n + a mod 2 ^ n) * 2 ^ (w - Suc n)"
      by (simp only: div_mult_mod_eq)
    then show ?thesis unfolding assms(2) p by (simp only: algebra_simps)
  qed
  show "x div 2 ^ (w - 1) = a div 2 ^ n" unfolding x using lt by simp
  have "x mod 2 ^ (w - 1) = a mod 2 ^ n * 2 ^ (w - Suc n) + q" unfolding x using lt by simp
  then show "2 * (x mod 2 ^ (w - 1)) = a mod 2 ^ n * 2 ^ (w - n) + 2 * q"
    unfolding p2 by (simp add: algebra_simps)
  show "2 * q + 1 < 2 ^ (w - n)" unfolding p2 using assms(4) by linarith
qed

lemma div_split_step:
  fixes r a d t b m k :: nat
  assumes "0 < d" "2 * r + a div 2 ^ n = m + b * d"
  shows "(r * 2 ^ Suc n + a) mod d = (m * 2 ^ n + a mod 2 ^ n) mod d"
    and "(r * 2 ^ Suc n + a) div d = b * 2 ^ n + (m * 2 ^ n + a mod 2 ^ n) div d"
proof -
  have "r * 2 ^ Suc n + a = (2 * r + a div 2 ^ n) * 2 ^ n + a mod 2 ^ n"
  proof -
    have "r * 2 ^ Suc n + (a div 2 ^ n * 2 ^ n + a mod 2 ^ n)
        = (2 * r + a div 2 ^ n) * 2 ^ n + a mod 2 ^ n"
      by (simp only: power_Suc algebra_simps)
    then show ?thesis by (simp only: div_mult_mod_eq)
  qed
  then have e: "r * 2 ^ Suc n + a = (m * 2 ^ n + a mod 2 ^ n) + (b * 2 ^ n) * d"
    unfolding assms(2) by (simp add: algebra_simps)
  show "(r * 2 ^ Suc n + a) mod d = (m * 2 ^ n + a mod 2 ^ n) mod d" unfolding e by simp
  show "(r * 2 ^ Suc n + a) div d = b * 2 ^ n + (m * 2 ^ n + a mod 2 ^ n) div d"
    unfolding e using assms(1) by simp
qed

lemma div_loop_correct:
  fixes x d r :: "'a::len word"
  assumes "0 < unat d" "unat r < 2 ^ (LENGTH('a) - n)" "unat r < unat d" "n \<le> LENGTH('a)"
    and "unat x = a * 2 ^ (LENGTH('a) - n) + q" "a < 2 ^ n" "q < 2 ^ (LENGTH('a) - n)"
    and "div_loop n x d r = (x', r')"
  shows "unat x' = q * 2 ^ n + (unat r * 2 ^ n + a) div unat d
       \<and> unat r' = (unat r * 2 ^ n + a) mod unat d"
  using assms
proof (induction n arbitrary: x r a q)
  case 0
  then show ?case by simp
next
  case (Suc n)
  define r1 where "r1 = push_bit 1 r OR drop_bit (LENGTH('a) - 1) x"
  note b = bit_split_step[OF Suc.prems(4,5,6,7)]
  have w: "(2::nat) ^ LENGTH('a) = 2 * 2 ^ (LENGTH('a) - 1)" by (rule two_power_len)
  have tb: "unat (drop_bit (LENGTH('a) - 1) x) = a div 2 ^ n"
    by (simp only: unat_drop_bit_div b(1))
  have p2: "(2::nat) ^ (LENGTH('a) - n) = 2 * 2 ^ (LENGTH('a) - Suc n)"
    using Suc.prems(4) by (metis Suc_diff_le diff_Suc_Suc power_Suc)
  have "(2::nat) ^ (LENGTH('a) - Suc n) \<le> 2 ^ (LENGTH('a) - 1)" by (rule power_increasing) auto
  then have "unat r mod 2 ^ (LENGTH('a) - 1) = unat r"
    using Suc.prems(2) by (intro mod_less) linarith
  then have r1: "unat r1 = 2 * unat r + a div 2 ^ n"
    unfolding r1_def unat_shl1_or[OF unat_top_bit] tb by simp
  have a': "a mod 2 ^ n < 2 ^ n" by simp
  have t2: "a div 2 ^ n < 2" using Suc.prems(6) by (simp add: less_mult_imp_div_less mult.commute)
  have r1b: "unat r1 < 2 ^ (LENGTH('a) - n)" unfolding r1 p2 using t2 Suc.prems(2) by linarith
  have n: "n \<le> LENGTH('a)" using Suc.prems(4) by simp
  show ?case
  proof (cases "d \<le> r1")
    case True
    have r2: "unat (r1 - d) = unat r1 - unat d" using True by (simp add: unat_sub)
    have le: "unat d \<le> unat r1" using True by (simp add: word_le_nat_alt)
    have lt: "unat (r1 - d) < unat d" unfolding r2 r1 using Suc.prems(3) t2 by linarith
    have x1: "unat (push_bit 1 x OR 1) = a mod 2 ^ n * 2 ^ (LENGTH('a) - n) + (2 * q + 1)"
      using unat_shl1_or[of 1 x] b(2) by simp
    have run: "div_loop n (push_bit 1 x OR 1) d (r1 - d) = (x', r')"
      using Suc.prems(8) True by (simp add: r1_def Let_def)
    have s: "2 * unat r + a div 2 ^ n = unat (r1 - d) + 1 * unat d"
      unfolding r2 using le r1 by simp
    have rb: "unat (r1 - d) < 2 ^ (LENGTH('a) - n)" unfolding r2 using r1b by linarith
    show ?thesis
      using Suc.IH[OF Suc.prems(1) rb lt n x1 a' b(3) run]
      unfolding div_split_step[OF Suc.prems(1) s] by (simp add: algebra_simps)
  next
    case False
    have lt: "unat r1 < unat d" using False by (simp add: word_le_nat_alt)
    have x1: "unat (push_bit 1 x) = a mod 2 ^ n * 2 ^ (LENGTH('a) - n) + 2 * q"
      using unat_shl1[of x] b(2) by simp
    have q: "2 * q < 2 ^ (LENGTH('a) - n)" using b(3) by simp
    have run: "div_loop n (push_bit 1 x) d r1 = (x', r')"
      using Suc.prems(8) False by (simp add: r1_def Let_def)
    have s: "2 * unat r + a div 2 ^ n = unat r1 + 0 * unat d" using r1 by simp
    show ?thesis
      using Suc.IH[OF Suc.prems(1) r1b lt n x1 a' q run]
      unfolding div_split_step[OF Suc.prems(1) s] by (simp add: algebra_simps)
  qed
qed

lemma div_loop_zero:
  fixes x r :: "'a::len word"
  assumes "n \<le> LENGTH('a)" "unat r < 2 ^ (LENGTH('a) - n)"
    and "unat x = a * 2 ^ (LENGTH('a) - n) + q" "a < 2 ^ n" "q < 2 ^ (LENGTH('a) - n)"
    and "div_loop n x 0 r = (x', r')"
  shows "unat x' = q * 2 ^ n + (2 ^ n - 1) \<and> unat r' = unat r * 2 ^ n + a"
  using assms
proof (induction n arbitrary: x r a q)
  case 0
  then show ?case by simp
next
  case (Suc n)
  define r1 where "r1 = push_bit 1 r OR drop_bit (LENGTH('a) - 1) x"
  note b = bit_split_step[OF Suc.prems(1,3,4,5)]
  have tb: "unat (drop_bit (LENGTH('a) - 1) x) = a div 2 ^ n"
    by (simp only: unat_drop_bit_div b(1))
  have t2: "a div 2 ^ n < 2" using Suc.prems(4) by (simp add: less_mult_imp_div_less mult.commute)
  have "(2::nat) ^ (LENGTH('a) - Suc n) \<le> 2 ^ (LENGTH('a) - 1)" by (rule power_increasing) auto
  then have "unat r mod 2 ^ (LENGTH('a) - 1) = unat r" 
    using Suc.prems(2) by (intro mod_less) linarith
  then have r1: "unat r1 = 2 * unat r + a div 2 ^ n"
    unfolding r1_def unat_shl1_or[OF unat_top_bit] tb by simp
  have p2: "(2::nat) ^ (LENGTH('a) - n) = 2 * 2 ^ (LENGTH('a) - Suc n)"
    using Suc.prems(1) by (metis Suc_diff_le diff_Suc_Suc power_Suc)
  have lt: "unat r1 < 2 ^ (LENGTH('a) - n)" unfolding r1 p2 using t2 Suc.prems(2) by linarith
  have x1: "unat (push_bit 1 x OR 1) = a mod 2 ^ n * 2 ^ (LENGTH('a) - n) + (2 * q + 1)"
    using unat_shl1_or[of 1 x] b(2) by simp
  have run: "div_loop n (push_bit 1 x OR 1) 0 r1 = (x', r')"
    using Suc.prems(6) by (simp add: r1_def Let_def)
  have n: "n \<le> LENGTH('a)" and a': "a mod 2 ^ n < 2 ^ n" using Suc.prems(1) by simp_all
  have "(2 * q + 1) * 2 ^ n + (2 ^ n - 1) = q * 2 ^ Suc n + (2 ^ Suc n - 1)"
    by (simp add: algebra_simps)
  moreover have "unat r1 * 2 ^ n + a mod 2 ^ n = unat r * 2 ^ Suc n + a"
  proof -
    have "(2 * unat r + a div 2 ^ n) * 2 ^ n + a mod 2 ^ n
        = unat r * 2 ^ Suc n + (a div 2 ^ n * 2 ^ n + a mod 2 ^ n)"
      by (simp only: power_Suc algebra_simps)
    then show ?thesis unfolding r1 by (simp only: div_mult_mod_eq)
  qed
  ultimately show ?case using Suc.IH[OF n lt x1 a' b(3) run] by simp
qed

text \<open>The loop at full width divides any two words; by zero it yields all ones and the dividend.\<close>

lemma div_loop_value:
  fixes x d :: "'a::len word"
  shows "div_loop LENGTH('a) x d 0 = (if d = 0 then (- 1, x) else (x div d, x mod d))"
proof -
  obtain x' r' where run: "div_loop LENGTH('a) x d 0 = (x', r')" by fastforce
  have lt: "unat x < 2 ^ LENGTH('a)" by simp
  show ?thesis
  proof (cases "d = 0")
    case True
    have "unat x' = 0 * 2 ^ LENGTH('a) + (2 ^ LENGTH('a) - 1)
        \<and> unat r' = unat (0::'a word) * 2 ^ LENGTH('a) + unat x"
      by (rule div_loop_zero[of "LENGTH('a)" 0 x "unat x" 0]) (use run True lt in simp_all)
    then have "x' = - 1" "r' = x"
      by (simp_all add: word_unat_eq_iff unsigned_minus_1_eq_mask mask_eq_exp_minus_1)
    then show ?thesis using True run by simp
  next
    case False
    then have dz: "0 < unat d" by (simp add: unat_gt_0)
    have "unat x' = 0 * 2 ^ LENGTH('a) + (unat (0::'a word) * 2 ^ LENGTH('a) + unat x) div unat d
        \<and> unat r' = (unat (0::'a word) * 2 ^ LENGTH('a) + unat x) mod unat d"
      by (rule div_loop_correct[OF dz, of 0 "LENGTH('a)" x "unat x" 0]) (use run dz lt in simp_all)
    then have "x' = x div d" "r' = x mod d"
      by (simp_all add: word_unat_eq_iff unat_div_distrib unat_mod_distrib)
    then show ?thesis using False run by simp
  qed
qed

text \<open>\<open>div_pos\<close> at any width: the branch for a divisor with its top bit set agrees with the loop.\<close>

lemma div_pos_value:
  fixes x d :: "'a::len word"
  shows "(if sint d < 0 then (if d \<le> x then (1, x - d) else (0, x)) else div_loop LENGTH('a) x d 0)
       = (if d = 0 then (- 1, x) else (x div d, x mod d))"
proof (cases "sint d < 0")
  case True
  then have big: "2 ^ (LENGTH('a) - 1) \<le> unat d" by (simp add: sint_neg_iff)
  then have nz: "d \<noteq> 0" by auto
  have "unat x < 2 ^ LENGTH('a)" by simp
  then have half: "unat x < 2 * unat d"
    using big two_power_len[where 'a='a and 'b=nat] by linarith
  show ?thesis
  proof (cases "d \<le> x")
    case le: True
    then have len: "unat d \<le> unat x" by (simp add: word_le_nat_alt)
    have one: "unat x div unat d = 1" using len half by (intro div_nat_eqI) simp_all
    then have "x div d = 1" by (simp add: word_unat_eq_iff unat_div_distrib)
    moreover have "x mod d = x - d"
      using one len by (simp add: word_unat_eq_iff unat_mod_distrib unat_sub[OF le] modulo_nat_def)
    ultimately show ?thesis using True nz le by simp
  next
    case False
    then have "x < d" by simp
    then show ?thesis using True nz False by (simp add: div_word_less mod_word_less)
  qed
next
  case False
  then show ?thesis by (simp add: div_loop_value)
qed

lemma div_pos_u32_value: "div_pos_u32 x d = (if d = 0 then (- 1, x) else (x div d, x mod d))"
proof -
  have "LENGTH(32) = 32" by simp
  then show ?thesis using div_pos_value[of d x] by (simp only: div_pos_u32_def)
qed

lemma div_pos_u64_value: "div_pos_u64 x d = (if d = 0 then (- 1, x) else (x div d, x mod d))"
proof -
  have "LENGTH(64) = 64" by simp
  then show ?thesis using div_pos_value[of d x] by (simp only: div_pos_u64_def)
qed

lemma mul_loop_value: "mul_loop p a b = p + a * b"
proof (induction p a b rule: mul_loop.induct)
  case (1 p a b)
  let ?p1 = "if b AND 1 \<noteq> 0 then p + a else p"
  have b: "b = 2 * drop_bit 1 b + (b AND 1)"
    by (simp only: drop_bit_eq_div power_one_right and_one_eq mult_div_mod_eq)
  have "b AND 1 \<noteq> 0 \<longleftrightarrow> b AND 1 = 1" by (simp add: and_one_eq mod_2_eq_odd)
  then have "?p1 = p + a * (b AND 1)" by auto
  then have "p + a * b = ?p1 + push_bit 1 a * drop_bit 1 b"
    by (subst b) (simp only: push_bit_eq_mult power_one_right algebra_simps)
  then show ?case
    using 1 by (subst mul_loop.simps) (simp add: Let_def)
qed

section \<open>Signed division truncates towards zero\<close>

text \<open>The magnitude the signed routines compute: \<open>-x\<close> for a negative \<open>x\<close>, also at the minimum.\<close>

lemma uint_abs_word:
  fixes x :: "'a::len word"
  shows "uint (if sint x < 0 then - x else x) = \<bar>sint x\<bar>"
proof (cases "sint x < 0")
  case True
  have "- (2 ^ (LENGTH('a) - 1)) \<le> sint x" using sint_ge[of x] by simp
  then have "- sint x < 2 ^ LENGTH('a)"
    using two_power_len[where 'a='a and 'b=int] zero_less_power[of "2::int" "LENGTH('a) - 1"]
    by linarith
  then have m: "(- sint x) mod 2 ^ LENGTH('a) = - sint x" using True by simp
  have "uint (- x) = uint (word_of_int (- sint x) :: 'a word)" by simp
  also have "\<dots> = - sint x" by (simp only: uint_word_of_int m)
  finally show ?thesis using True by simp
next
  case False
  then have "unat x < 2 ^ (LENGTH('a) - 1)" by (simp add: sint_neg_iff)
  then have "sint x = int (unat x)" using sint_eq_cases[of x] by simp
  then show ?thesis using False by simp
qed

lemma word_div_of_uint: "(x::'a::len word) div y = word_of_int (uint x div uint y)"
  by (simp add: word_div_def)

lemma word_mod_of_uint: "(x::'a::len word) mod y = word_of_int (uint x mod uint y)"
  by (simp add: word_mod_def)

lemma sint_xor_neg: "sint ((x::'a::len word) XOR y) < 0 \<longleftrightarrow> (sint x < 0) \<noteq> (sint y < 0)"
  by (simp add: bit_xor_iff flip: bit_last_iff)

lemma signed_quotient:
  fixes x d :: "'a::len word"
  assumes "d \<noteq> 0"
  defines "q \<equiv> (if sint x < 0 then - x else x) div (if sint d < 0 then - d else d)"
  shows "(if sint (x XOR d) < 0 then - q else q) = word_of_int (sint x sdiv sint d)"
proof -
  have q: "q = word_of_int (\<bar>sint x\<bar> div \<bar>sint d\<bar>)"
    unfolding q_def word_div_of_uint uint_abs_word ..
  have "sint d \<noteq> 0" using assms by (simp add: signed_eq_0_iff)
  then have "sint x sdiv sint d = (if sint (x XOR d) < 0 then - (\<bar>sint x\<bar> div \<bar>sint d\<bar>) else \<bar>sint x\<bar> div \<bar>sint d\<bar>)"
    unfolding sint_xor_neg signed_divide_int_def by (auto simp: sgn_if)
  then show ?thesis unfolding q by simp
qed

lemma signed_remainder:
  fixes x d :: "'a::len word"
  defines "r \<equiv> (if sint x < 0 then - x else x) mod (if sint d < 0 then - d else d)"
  shows "(if sint x < 0 then - r else r) = word_of_int (sint x smod sint d)"
proof -
  have r: "r = word_of_int (\<bar>sint x\<bar> mod \<bar>sint d\<bar>)"
    unfolding r_def word_mod_of_uint uint_abs_word ..
  have "sint x smod sint d = (if sint x < 0 then - (\<bar>sint x\<bar> mod \<bar>sint d\<bar>) else \<bar>sint x\<bar> mod \<bar>sint d\<bar>)"
    unfolding signed_modulo_int_def by (auto simp: sgn_if)
  then show ?thesis unfolding r by simp
qed

section \<open>The routines meet the operators of the language\<close>

lemma abs_zero_iff: "(if sint d < 0 then - d else d) = 0 \<longleftrightarrow> d = 0" for d :: "'a::len word"
  by simp

lemma div_called_u32_value: "div_called_u32 x d = (if d = 0 then (- 1, x) else (x div d, x mod d))"
  by (simp only: div_called_u32_def div_pos_u32_value)

lemma div_called_i32_value:
  "div_called_i32 x d =
     (if d = 0 then (if sint x < 0 then 1 else - 1, x)
      else (word_of_int (sint x sdiv sint d), word_of_int (sint x smod sint d)))"
  unfolding div_called_i32_def div_pos_u32_value Let_def abs_zero_iff
  by (simp add: signed_quotient[symmetric] signed_remainder[symmetric])

text \<open>C34: Unsigned 32- and 64-bit division by restoring steps returns the quotient and the remainder of the operands
  for every non-zero divisor, and the all-ones word and the dividend for a zero divisor.  Signed division rounds towards
  zero and the remainder takes the sign of the dividend, wrapping at the one overflowing quotient; a zero divisor yields
  1 or -1 by the sign of the dividend, and the dividend as remainder.  Shift-and-add multiplication terminates and
  returns the product modulo the word size.\<close>

theorem int_emulation_correct:
  "div_called_u32 x d = (if d = 0 then (- 1, x) else (x div d, x mod d)) \<and>
   div_called_u64 y e = (if e = 0 then (- 1, y) else (y div e, y mod e)) \<and>
   div_called_i32 x d =
     (if d = 0 then (if sint x < 0 then 1 else - 1, x)
      else (word_of_int (sint x sdiv sint d), word_of_int (sint x smod sint d))) \<and>
   div_called_i64 y e =
     (if e = 0 then (if sint y < 0 then 1 else - 1, y)
      else (word_of_int (sint y sdiv sint e), word_of_int (sint y smod sint e))) \<and>
   mul_called_i32 x d = x * d \<and> mul_called_i64 y e = y * e"
  unfolding div_called_i32_value div_called_i64_def div_called_u32_value div_called_u64_def div_pos_u64_value Let_def abs_zero_iff
  by (simp add: signed_quotient[symmetric] signed_remainder[symmetric] mul_called_i32_def mul_called_i64_def mul_loop_value)

end
