(* ===== verification/LongLong.thy ===== *)
theory LongLong
  imports Primitives IntEmul
begin

text \<open>
  \<^verbatim>\<open>lib/trv32p3_longlong.h\<close>: \<open>long long\<close> on a 32-bit core.  A 64-bit integer is the pair
  \<open>dint\<close> of unsigned words, least significant first (the struct of \<^verbatim>\<open>lib/trv32p3_chess.h\<close>),
  and each operator is a function on pairs.  \<open>chess_manifest(c)\<close> asks the compiler whether it
  knows \<open>c\<close> to hold; it is a parameter here, and what the code relies on is that it answers
  yes only when the condition is true.  The theory relates every operation to the 64-bit
  word \<open>join64\<close> the pair stands for.
\<close>

section \<open>The pair of words and its operations\<close>

record dint =
  low :: u32
  high :: u32

abbreviation mk_dint :: "u32 \<Rightarrow> u32 \<Rightarrow> dint" where
  "mk_dint l h \<equiv> \<lparr>low = l, high = h\<rparr>"

definition to_dint_se :: "u32 \<Rightarrow> dint" where "to_dint_se i = mk_dint i (sra i 31)"
definition to_dint_ze :: "u32 \<Rightarrow> dint" where "to_dint_ze i = mk_dint i 0"
definition to_int :: "dint \<Rightarrow> u32" where "to_int w = low w"

definition l_add :: "(bool \<Rightarrow> bool) \<Rightarrow> dint \<Rightarrow> dint \<Rightarrow> dint" where
  "l_add chess_manifest a b =
     (if chess_manifest (low a = 0) then mk_dint (low b) (high a + high b)
      else if chess_manifest (low b = 0) then mk_dint (low a) (high a + high b)
      else (let rl = prim_add (low a) (low b);
                rh = prim_add (high a) (high b)
            in mk_dint rl (rh + of_bool (rl < low a))))"

definition l_sub :: "(bool \<Rightarrow> bool) \<Rightarrow> dint \<Rightarrow> dint \<Rightarrow> dint" where
  "l_sub chess_manifest a b =
     (if chess_manifest (low b = 0) then mk_dint (low a) (high a - high b)
      else (let rl = prim_sub (low a) (low b);
                rh = prim_sub (high a) (high b)
            in mk_dint rl (rh - of_bool (low a < low b))))"

definition l_and :: "dint \<Rightarrow> dint \<Rightarrow> dint" where
  "l_and a b = mk_dint (low a AND low b) (high a AND high b)"
definition l_or :: "dint \<Rightarrow> dint \<Rightarrow> dint" where
  "l_or a b = mk_dint (low a OR low b) (high a OR high b)"
definition l_xor :: "dint \<Rightarrow> dint \<Rightarrow> dint" where
  "l_xor a b = mk_dint (low a XOR low b) (high a XOR high b)"
definition l_complement :: "dint \<Rightarrow> dint" where
  "l_complement a = mk_dint (NOT (low a)) (NOT (high a))"

definition l_lts :: "dint \<Rightarrow> dint \<Rightarrow> bool" where
  "l_lts a b = (if sint (high a) < sint (high b) then True
                else if high a = high b then low a < low b else False)"
definition l_les :: "dint \<Rightarrow> dint \<Rightarrow> bool" where
  "l_les a b = (if sint (high a) < sint (high b) then True
                else if high a = high b then low a \<le> low b else False)"
definition l_ltu :: "dint \<Rightarrow> dint \<Rightarrow> bool" where
  "l_ltu a b = (if high a < high b then True
                else if high a = high b then low a < low b else False)"
definition l_leu :: "dint \<Rightarrow> dint \<Rightarrow> bool" where
  "l_leu a b = (if high a < high b then True
                else if high a = high b then low a \<le> low b else False)"
definition l_eq :: "dint \<Rightarrow> dint \<Rightarrow> bool" where
  "l_eq a b = (high a = high b \<and> low a = low b)"
definition l_ne :: "dint \<Rightarrow> dint \<Rightarrow> bool" where
  "l_ne a b = (high a \<noteq> high b \<or> low a \<noteq> low b)"

definition l_lsl :: "dint \<Rightarrow> u32 \<Rightarrow> dint" where
  "l_lsl a f =
     (if f = 0 then a
      else if sint f < 32 then
        (let carries = srl (low a) (32 - f)
         in mk_dint (sll (low a) f) (sll (high a) f OR carries))
      else (let carries = sll (low a) (f - 32) in mk_dint 0 carries))"

definition l_asr :: "dint \<Rightarrow> u32 \<Rightarrow> dint" where
  "l_asr a f =
     (if f = 0 then a
      else if sint f < 32 then
        (let carries = sll (high a) (32 - f)
         in mk_dint (srl (low a) f OR carries) (sra (high a) f))
      else (let carries = sra (high a) (f - 32) in mk_dint carries (sra carries 31)))"

definition l_lsr :: "dint \<Rightarrow> u32 \<Rightarrow> dint" where
  "l_lsr a f =
     (if f = 0 then a
      else if sint f < 32 then
        (let carries = sll (high a) (32 - f)
         in mk_dint (srl (low a) f OR carries) (srl (high a) f))
      else (let carries = srl (high a) (f - 32) in mk_dint carries 0))"

section \<open>The 64-bit word of a pair\<close>

definition join64 :: "dint \<Rightarrow> u64" where
  "join64 a = word_cat (high a) (low a)"

lemma bit_join64: "bit (join64 a) n \<longleftrightarrow> (if n < 32 then bit (low a) n else n < 64 \<and> bit (high a) (n - 32))"
  by (auto simp: join64_def bit_word_cat_iff)

lemma unat_join64: "unat (join64 a) = unat (high a) * 2 ^ 32 + unat (low a)"
proof -
  have h: "unat (high a) < 2 ^ 32" and l: "unat (low a) < 2 ^ 32"
    using unsigned_less[of "high a", where 'a=nat] unsigned_less[of "low a", where 'a=nat] by simp_all
  have u: "unat (ucast x :: u64) = unat x" for x :: u32
    by (simp add: unsigned_ucast_eq take_bit_nat_eq_self order_less_trans[OF unsigned_less])
  have j: "join64 a = (ucast (high a) :: u64) * 2 ^ 32 + ucast (low a)"
    by (simp add: join64_def word_cat_eq push_bit_eq_mult)
  have m: "unat ((ucast (high a) :: u64) * 2 ^ 32) = unat (high a) * 2 ^ 32"
    using h unat_mult_lem[of "ucast (high a) :: u64" "2 ^ 32"] by (simp add: u)
  have b: "unat (high a) * 2 ^ 32 + unat (low a) < 2 ^ 64" using h l by simp
  show ?thesis unfolding j
    using unat_add_lem[of "(ucast (high a) :: u64) * 2 ^ 32" "ucast (low a)"] b m u by simp
qed

lemma u32_bound: "unat (x :: u32) < 4294967296"
  using unsigned_less[of x, where 'a=nat] by simp

lemma sint_join64: "sint (join64 a) = sint (high a) * 2 ^ 32 + int (unat (low a))"
  using u32_bound[of "low a"] u32_bound[of "high a"]
  by (simp add: sint_eq_cases unat_join64)

lemma join64_low: "unat (low a) = unat (join64 a) mod 2 ^ 32"
  using u32_bound[of "low a"] by (simp add: unat_join64)

lemma join64_high: "unat (high a) = unat (join64 a) div 2 ^ 32"
  using u32_bound[of "low a"] by (simp add: unat_join64)

lemma join64_inject: "join64 a = join64 b \<longleftrightarrow> a = b"
proof
  assume e: "join64 a = join64 b"
  then have "unat (low a) = unat (low b)" by (simp only: join64_low e)
  moreover have "unat (high a) = unat (high b)" by (simp only: join64_high e)
  ultimately have "low a = low b" "high a = high b" by (simp_all only: word_unat_eq_iff)
  then show "a = b" by simp
qed simp

lemma join_mod:
  fixes h l b :: nat
  assumes "l < b"
  shows "(h * b + l) mod (b * b) = h mod b * b + l"
  using assms by (simp add: mod_mult2_eq mult.commute)

lemma join64_add:
  "join64 (mk_dint (l + l') (h + h' + of_bool (l + l' < l))) = join64 (mk_dint l h) + join64 (mk_dint l' h')"
proof -
  let ?B = "4294967296::nat"
  let ?H = "unat h + unat h'"
  have sum: "unat (join64 (mk_dint l h) + join64 (mk_dint l' h'))
      = (?H * ?B + (unat l + unat l')) mod (?B * ?B)"
  proof -
    have "unat (join64 (mk_dint l h) + join64 (mk_dint l' h'))
        = (unat (join64 (mk_dint l h)) + unat (join64 (mk_dint l' h'))) mod 2 ^ 64"
      by (simp add: unat_word_ariths)
    also have "unat (join64 (mk_dint l h)) + unat (join64 (mk_dint l' h')) = ?H * ?B + (unat l + unat l')"
      by (simp add: unat_join64)
    also have "(2::nat) ^ 64 = ?B * ?B" by simp
    finally show ?thesis .
  qed
  show ?thesis
  proof (cases "unat l + unat l' < ?B")
    case True
    then have "\<not> l + l' < l" "unat (l + l') = unat l + unat l'"
      by (simp_all add: word_less_nat_alt unat_plus_if')
    then have "unat (join64 (mk_dint (l + l') (h + h' + of_bool (l + l' < l)))) = ?H mod ?B * ?B + (unat l + unat l')"
      by (simp add: unat_join64 unat_word_ariths)
    also have "\<dots> = unat (join64 (mk_dint l h) + join64 (mk_dint l' h'))"
      unfolding sum join_mod[OF True] ..
    finally show ?thesis by (simp add: word_unat_eq_iff)
  next
    case False
    define r where "r = unat l + unat l' - ?B"
    have r: "unat l + unat l' = ?B + r" "r < ?B" "r < unat l"
      using False u32_bound[of l] u32_bound[of l'] by (auto simp: r_def)
    then have c: "l + l' < l" and lo: "unat (l + l') = r"
      by (simp_all add: word_less_nat_alt unat_plus_if')
    have "unat (h + h' + 1) = Suc ?H mod ?B"
      by (simp add: unat_word_ariths mod_Suc_eq)
    then have "unat (join64 (mk_dint (l + l') (h + h' + of_bool (l + l' < l)))) = Suc ?H mod ?B * ?B + r"
      using c lo by (simp add: unat_join64)
    also have "\<dots> = (Suc ?H * ?B + r) mod (?B * ?B)" by (rule join_mod[OF r(2), symmetric])
    also have "Suc ?H * ?B + r = ?H * ?B + (unat l + unat l')" using r(1) by simp
    finally show ?thesis by (simp only: word_unat_eq_iff sum)
  qed
qed

lemma join64_sub:
  "join64 (mk_dint (l - l') (h - h' - of_bool (l < l'))) = join64 (mk_dint l h) - join64 (mk_dint l' h')"
proof -
  have "(l - l' + l' < l - l') = (l < l')"
    using u32_bound[of l] u32_bound[of l']
    by (auto simp: word_less_nat_alt unat_sub_if')
  then have "join64 (mk_dint l h) = join64 (mk_dint (l - l') (h - h' - of_bool (l < l'))) + join64 (mk_dint l' h')"
    using join64_add[of "l - l'" l' "h - h' - of_bool (l < l')" h'] by simp
  then show ?thesis by simp
qed


lemma sint_u32_lt32: "sint (f::u32) < 32 \<longleftrightarrow> unat f < 32 \<or> 2 ^ 31 \<le> unat f"
  using u32_bound[of f] by (auto simp: sint_eq_cases simp del: of_nat_unat)

lemma shift_counts:
  fixes f :: u32
  assumes "unat f < 64"
  shows "unat f < 32 \<Longrightarrow> unat (take_bit 5 f) = unat f"
    and "f \<noteq> 0 \<Longrightarrow> unat f < 32 \<Longrightarrow> unat (take_bit 5 (32 - f)) = 32 - unat f"
    and "32 \<le> unat f \<Longrightarrow> unat (take_bit 5 (f - 32)) = unat f - 32"
  using assms by (auto simp: count_mod unat_sub_if' unsigned_eq_0_iff)
    (metis diff_less mod_less unat_gt_0 word_neq_0_conv zero_less_numeral)

lemma bit_asr:
  fixes w :: "'a::len word"
  assumes "m < LENGTH('a)"
  shows "bit (signed_drop_bit m w) n
    \<longleftrightarrow> n < LENGTH('a) \<and> bit w (if n + m < LENGTH('a) then n + m else LENGTH('a) - 1)"
  using assms by (auto simp: bit_signed_drop_bit_iff add.commute dest: bit_imp_le_length)

lemma bit_sra: "bit (sra a f) n
    \<longleftrightarrow> n < 32 \<and> bit a (if n + unat (take_bit 5 f) < 32 then n + unat (take_bit 5 f) else 31)"
proof -
  have "unat (take_bit 5 f) < LENGTH(32)" by (simp add: count_mod)
  from bit_asr[OF this, of a n] show ?thesis by (simp add: sra_def)
qed

lemma bit_sra_31: "bit (sra a 31) n \<longleftrightarrow> n < 32 \<and> bit a 31"
proof -
  have "unat (take_bit 5 (31::u32)) = 31" by simp
  then show ?thesis by (auto simp: bit_sra)
qed

lemma join64_shifts:
  assumes "unat f < 64"
  shows "join64 (l_lsl a f) = push_bit (unat f) (join64 a)"
    and "join64 (l_lsr a f) = drop_bit (unat f) (join64 a)"
    and "join64 (l_asr a f) = signed_drop_bit (unat f) (join64 a)"
proof -
  note c = shift_counts[OF assms]
  consider "f = 0" | "f \<noteq> 0" "unat f < 32" "sint f < 32" | "32 \<le> unat f" "\<not> sint f < 32" "f \<noteq> 0"
    using assms by (fastforce simp: sint_u32_lt32)
  note cs = this
  show "join64 (l_lsl a f) = push_bit (unat f) (join64 a)"
    by (cases rule: cs; rule bit_word_eqI)
      (auto simp: l_lsl_def Let_def sll_def srl_def c bit_join64 bit_simps add.commute
        dest: bit_imp_le_length)
  show "join64 (l_lsr a f) = drop_bit (unat f) (join64 a)"
    by (cases rule: cs; rule bit_word_eqI)
      (auto simp: l_lsr_def Let_def sll_def srl_def c bit_join64 bit_simps add.commute dest: bit_imp_le_length)
  show "join64 (l_asr a f) = signed_drop_bit (unat f) (join64 a)"
  proof (rule bit_word_eqI)
    fix n assume "n < LENGTH(64)"
    then have n: "n < 64" by simp
    have "bit (signed_drop_bit (unat f) (join64 a)) n
        = bit (join64 a) (if n + unat f < 64 then n + unat f else 63)"
      using n assms by (simp add: bit_asr)
    moreover have "bit (join64 (l_asr a f)) n = bit (join64 a) (if n + unat f < 64 then n + unat f else 63)"
    proof (cases rule: cs)
      case 1
      then show ?thesis using n by (simp add: l_asr_def)
    next
      case 2
      then have "bit (join64 (l_asr a f)) n
          = (if n < 32 then bit (srl (low a) f OR sll (high a) (32 - f)) n else bit (sra (high a) f) (n - 32))"
        using n by (simp add: l_asr_def Let_def bit_join64)
      then show ?thesis using n 2 c
        by (auto simp: sll_def srl_def bit_sra bit_join64 bit_simps add.commute dest: bit_imp_le_length)
    next
      case 3
      then have "bit (join64 (l_asr a f)) n
          = (if n < 32 then bit (sra (high a) (f - 32)) n else bit (sra (high a) (f - 32)) 31)"
        using n by (auto simp: l_asr_def Let_def bit_join64 bit_sra_31)
      then show ?thesis using n 3 c by (auto simp: bit_sra bit_join64)
    qed
    ultimately show "bit (join64 (l_asr a f)) n = bit (signed_drop_bit (unat f) (join64 a)) n" by simp
  qed
qed

lemma join64_conversions:
  "join64 (to_dint_se i) = scast i" "join64 (to_dint_ze i) = ucast i" "to_int w = ucast (join64 w)"
proof -
  have c: "unat (take_bit 5 (31::u32)) = 31" by simp
  show "join64 (to_dint_se i) = scast i"
  proof (rule bit_word_eqI)
    fix n assume "n < LENGTH(64)"
    then consider "n < 31" | "n = 31" | "n = 32" | "32 < n" "n < 64" by fastforce
    then show "bit (join64 (to_dint_se i)) n = bit (scast i :: u64) n"
      by cases (auto simp: bit_join64 to_dint_se_def sra_def c bit_simps min_def)
  qed
  show "join64 (to_dint_ze i) = ucast i"
    by (rule bit_word_eqI) (auto simp: bit_join64 to_dint_ze_def bit_simps dest: bit_imp_le_length)
  show "to_int w = ucast (join64 w)"
    by (rule bit_word_eqI) (auto simp: bit_join64 to_int_def bit_simps)
qed


lemma join64_bitwise:
  "join64 (l_and a b) = join64 a AND join64 b"
  "join64 (l_or a b) = join64 a OR join64 b"
  "join64 (l_xor a b) = join64 a XOR join64 b"
  "join64 (l_complement a) = NOT (join64 a)"
  by (rule bit_word_eqI; auto simp: bit_join64 l_and_def l_or_def l_xor_def l_complement_def bit_simps)+

lemma join64_compare_unsigned:
  "l_ltu a b \<longleftrightarrow> join64 a < join64 b"
  "l_leu a b \<longleftrightarrow> join64 a \<le> join64 b"
  using u32_bound[of "low a"] u32_bound[of "low b"] u32_bound[of "high a"] u32_bound[of "high b"]
  by (auto simp: l_ltu_def l_leu_def word_less_nat_alt word_le_nat_alt unat_join64 word_unat_eq_iff)

lemma join64_compare_signed:
  "l_lts a b \<longleftrightarrow> sint (join64 a) < sint (join64 b)"
  "l_les a b \<longleftrightarrow> sint (join64 a) \<le> sint (join64 b)"
proof -
  consider "sint (high a) < sint (high b)" | "high a = high b" | "sint (high b) < sint (high a)" "high a \<noteq> high b"
    by (metis linorder_less_linear signed_word_eqI)
  then have "(l_lts a b \<longleftrightarrow> sint (join64 a) < sint (join64 b)) \<and> (l_les a b \<longleftrightarrow> sint (join64 a) \<le> sint (join64 b))"
    using u32_bound[of "low a"] u32_bound[of "low b"]
    by cases (auto simp: l_lts_def l_les_def word_less_nat_alt word_le_nat_alt sint_join64 simp del: of_nat_unat)
  then show "l_lts a b \<longleftrightarrow> sint (join64 a) < sint (join64 b)"
    "l_les a b \<longleftrightarrow> sint (join64 a) \<le> sint (join64 b)" by blast+
qed

lemma join64_compare_eq: "l_eq a b \<longleftrightarrow> join64 a = join64 b" "l_ne a b \<longleftrightarrow> join64 a \<noteq> join64 b"
  by (auto simp: l_eq_def l_ne_def join64_inject)

lemma dint_eta: "mk_dint (low a) (high a) = a"
  by simp

lemma l_add_join64:
  assumes "\<And>c. chess_manifest c \<Longrightarrow> c"
  shows "join64 (l_add chess_manifest a b) = join64 a + join64 b"
proof -
  have m: "chess_manifest (low a = 0) \<Longrightarrow> low a = 0" "chess_manifest (low b = 0) \<Longrightarrow> low b = 0"
    by (erule assms)+
  have sum: "join64 a + join64 b
      = join64 (mk_dint (low a + low b) (high a + high b + of_bool (low a + low b < low a)))"
    using join64_add[of "low a" "low b" "high a" "high b"] by (simp only: dint_eta)
  consider "chess_manifest (low a = 0)" | "\<not> chess_manifest (low a = 0)" "chess_manifest (low b = 0)"
    | "\<not> chess_manifest (low a = 0)" "\<not> chess_manifest (low b = 0)" by blast
  then show ?thesis
  proof cases
    case 1
    then have "l_add chess_manifest a b = mk_dint (low b) (high a + high b)" by (simp add: l_add_def)
    then show ?thesis unfolding sum using m(1)[OF 1] by simp
  next
    case 2
    then have "l_add chess_manifest a b = mk_dint (low a) (high a + high b)" by (simp add: l_add_def)
    then show ?thesis unfolding sum using m(2)[OF 2(2)] by simp
  next
    case 3 then show ?thesis unfolding sum l_add_def by (simp add: Let_def prim_add_def)
  qed
qed

lemma l_sub_join64:
  assumes "\<And>c. chess_manifest c \<Longrightarrow> c"
  shows "join64 (l_sub chess_manifest a b) = join64 a - join64 b"
proof -
  have m: "chess_manifest (low b = 0) \<Longrightarrow> low b = 0" by (rule assms)
  have diff: "join64 a - join64 b
      = join64 (mk_dint (low a - low b) (high a - high b - of_bool (low a < low b)))"
    using join64_sub[of "low a" "low b" "high a" "high b"] by (simp only: dint_eta)
  show ?thesis
  proof (cases "chess_manifest (low b = 0)")
    case True
    then have "l_sub chess_manifest a b = mk_dint (low a) (high a - high b)" by (simp add: l_sub_def)
    then show ?thesis unfolding diff using m[OF True] by simp
  next
    case False then show ?thesis unfolding diff l_sub_def by (simp add: Let_def prim_sub_def)
  qed
qed

section \<open>What a client of the 64-bit operators may rely on\<close>

text \<open>
  Code that computes with \<open>long long\<close> uses the operators through the value they represent.
  The interface names the value function and the operators; its laws make the carrier a
  commutative group with an order, whatever the representation.
\<close>

locale wide_integer =
  fixes val :: "'d \<Rightarrow> 'w::len word"
    and add sub :: "'d \<Rightarrow> 'd \<Rightarrow> 'd"
    and less less_eq equal :: "'d \<Rightarrow> 'd \<Rightarrow> bool"
  assumes val_inject: "val a = val b \<longleftrightarrow> a = b"
    and val_add: "val (add a b) = val a + val b"
    and val_sub: "val (sub a b) = val a - val b"
    and val_less: "less a b \<longleftrightarrow> val a < val b"
    and val_less_eq: "less_eq a b \<longleftrightarrow> val a \<le> val b"
    and val_equal: "equal a b \<longleftrightarrow> val a = val b"
begin

lemma eq_by_val: "val a = val b \<Longrightarrow> a = b"
  by (simp add: val_inject)

lemma add_commute: "add a b = add b a"
  by (rule eq_by_val) (simp add: val_add add.commute)

lemma add_assoc: "add (add a b) c = add a (add b c)"
  by (rule eq_by_val) (simp add: val_add add.assoc)

lemma sub_add: "sub (add a b) b = a" and add_sub: "add (sub a b) b = a"
  by (rule eq_by_val, simp add: val_add val_sub)+

lemma sub_self_add: "add c (sub a a) = c"
  by (rule eq_by_val) (simp add: val_add val_sub)

lemma less_linear: "less a b \<or> equal a b \<or> less b a"
  by (auto simp: val_less val_equal)

lemma not_less_iff: "\<not> less a b \<longleftrightarrow> less_eq b a"
  by (auto simp: val_less val_less_eq)

end

interpretation ull: wide_integer join64 "l_add (\<lambda>_. False)" "l_sub (\<lambda>_. False)" l_ltu l_leu l_eq
  by unfold_locales
    (auto simp: join64_inject join64_compare_unsigned join64_compare_eq l_add_join64 l_sub_join64)

section \<open>The operators compute on the represented integer\<close>

text \<open>C35: On register pairs, addition and subtraction, with the carry or borrow recovered by comparison and with the
  shortcuts for operands known to have a zero low word, the six comparisons, the four bitwise operators, the conversions
  from and to 32-bit integers and, for every count from 0 to 63, the three shifts agree with those of the 64-bit integer the
  pair represents.  Signed comparisons read the high word as signed and low words as unsigned; the core's 32-bit shifters
  only look at five bits of their count.\<close>

theorem longlong_operators:
  assumes "\<And>c. chess_manifest c \<Longrightarrow> c" "unat f < 64"
  shows "join64 (l_add chess_manifest a b) = join64 a + join64 b \<and> join64 (l_sub chess_manifest a b) = join64 a - join64 b
   \<and> (l_lts a b \<longleftrightarrow> sint (join64 a) < sint (join64 b)) \<and> (l_les a b \<longleftrightarrow> sint (join64 a) \<le> sint (join64 b))
   \<and> (l_ltu a b \<longleftrightarrow> join64 a < join64 b) \<and> (l_leu a b \<longleftrightarrow> join64 a \<le> join64 b)
   \<and> (l_eq a b \<longleftrightarrow> join64 a = join64 b) \<and> (l_ne a b \<longleftrightarrow> join64 a \<noteq> join64 b)
   \<and> join64 (l_and a b) = join64 a AND join64 b \<and> join64 (l_or a b) = join64 a OR join64 b
   \<and> join64 (l_xor a b) = join64 a XOR join64 b \<and> join64 (l_complement a) = NOT (join64 a)
   \<and> join64 (to_dint_se i) = scast i \<and> join64 (to_dint_ze i) = ucast i \<and> to_int a = ucast (join64 a)
   \<and> join64 (l_lsl a f) = push_bit (unat f) (join64 a)
   \<and> join64 (l_lsr a f) = drop_bit (unat f) (join64 a)
   \<and> join64 (l_asr a f) = signed_drop_bit (unat f) (join64 a)"
  using join64_shifts[OF assms(2)] l_add_join64[OF assms(1)] l_sub_join64[OF assms(1)]
  by (simp add: join64_compare_signed join64_compare_unsigned join64_compare_eq join64_bitwise join64_conversions)

theorem longlong_operators_witness:
  "join64 (l_add (\<lambda>c. c) (mk_dint 0 7) (mk_dint 5 1)) = join64 (mk_dint 0 7) + join64 (mk_dint 5 1)
   \<and> join64 (l_lsl (mk_dint 5 1) 40) = push_bit 40 (join64 (mk_dint 5 1))
   \<and> join64 (l_lsr (mk_dint 5 1) 4) = drop_bit 4 (join64 (mk_dint 5 1))
   \<and> join64 (l_asr (mk_dint 5 1) 40) = signed_drop_bit 40 (join64 (mk_dint 5 1))"
  using longlong_operators[of "\<lambda>c. c" 40 "mk_dint 5 1"] longlong_operators[of "\<lambda>c. c" 4 "mk_dint 5 1"]
    longlong_operators[of "\<lambda>c. c" 4 "mk_dint 0 7" "mk_dint 5 1"] by simp

end
