(* ===== verification/Divider.thy ===== *)
theory Divider
  imports LongLong
begin

text \<open>
  The multi-cycle divide unit of the core, \<^verbatim>\<open>lib/div.p\<close>: its registers, the clocked process
  \<open>main\<close> and the process \<open>state_to_core\<close>.  One step of the model is one clock cycle.  The
  functional meaning the unit has to deliver is the one the same file gives the simulator
  (\<open>divs\<close>, \<open>rems\<close>, \<open>divu\<close>, \<open>remu\<close> with the RISC-V rule for a zero divisor).
\<close>

section \<open>The functional meaning of the four instructions\<close>

definition divs :: "u32 \<Rightarrow> u32 \<Rightarrow> u32" where
  "divs a b = (if b = 0 then - 1 else word_of_int (sint a sdiv sint b))"
definition rems :: "u32 \<Rightarrow> u32 \<Rightarrow> u32" where
  "rems a b = (if b = 0 then a else word_of_int (sint a smod sint b))"
definition divu :: "u32 \<Rightarrow> u32 \<Rightarrow> u32" where
  "divu a b = (if b = 0 then - 1 else a div b)"
definition remu :: "u32 \<Rightarrow> u32 \<Rightarrow> u32" where
  "remu a b = (if b = 0 then a else a mod b)"

section \<open>The unit\<close>

definition div_step :: "u64 \<Rightarrow> u32 \<Rightarrow> u64" where
  "div_step pa b =
     (let new_pa = push_bit 1 pa;
          diff = (ucast (drop_bit 32 new_pa) :: 33 word) - ucast b
      in if \<not> bit diff 32 then word_cat (ucast diff :: u32) (ucast new_pa OR 1 :: u32) else new_pa)"

record div_unit =
  cnt :: "6 word"
  PA :: u64
  B :: u32
  Q_addr_reg :: "5 word"
  is_div :: bool
  is_neg :: bool

text \<open>The signals of a cycle: which of the four instructions the issue stage presents (the four
  \<open>_sig\<close> inputs), the operands and the destination register.\<close>

record div_ports =
  is_divs :: bool
  is_divu :: bool
  is_rems :: bool
  is_remu :: bool
  divA :: u32
  divB :: u32
  div_wad :: "5 word"

text \<open>A cycle yields the new registers and, on the last one, a write \<open>X[addr] = value\<close>.\<close>

definition div_main :: "div_unit \<Rightarrow> div_ports \<Rightarrow> div_unit \<times> (5 word \<times> u32) option" where
  "div_main s p =
     (let div_start = (cnt s = 0 \<and> (is_divs p \<or> is_divu p \<or> is_rems p \<or> is_remu p) \<and> div_wad p \<noteq> 0)
      in if div_start then
           (let sgd = (is_divs p \<or> is_rems p);
                divA_loc = (if sgd then (if bit (divA p) 31 then - divA p else divA p) else divA p);
                divB_loc = (if sgd then (if bit (divB p) 31 then - divB p else divB p) else divB p);
                neg = (if sgd then bit (divA p) 31 \<noteq> (bit (divB p) 31 \<and> is_divs p) else False)
            in (s\<lparr>PA := ucast divA_loc, B := divB_loc, Q_addr_reg := div_wad p,
                  is_div := (is_divs p \<or> is_divu p), is_neg := neg, cnt := 33\<rparr>, None))
         else if 1 < cnt s then
           (s\<lparr>PA := div_step (PA s) (B s), cnt := cnt s - 1\<rparr>, None)
         else if cnt s = 1 then
           (let res = (if is_div s then ucast (PA s) else ucast (drop_bit 32 (PA s)));
                res = (if is_neg s then - res else res);
                res = (if B s = 0 \<and> is_div s then - 1 else res)
            in (s\<lparr>cnt := cnt s - 1\<rparr>, Some (Q_addr_reg s, res)))
         else (s, None))"

definition state_to_core :: "div_unit \<Rightarrow> bool \<times> 5 word \<times> bool" where
  "state_to_core s = (cnt s \<noteq> 0, Q_addr_reg s, cnt s = 2)"

text \<open>The unit over a sequence of cycles: the registers at the end and the writes, one entry
  per cycle.\<close>

fun div_run :: "div_unit \<Rightarrow> div_ports list \<Rightarrow> div_unit \<times> (5 word \<times> u32) option list" where
  "div_run s [] = (s, [])"
| "div_run s (p # ps) =
     (let (s1, w) = div_main s p; (s2, ws) = div_run s1 ps in (s2, w # ws))"

section \<open>A division step on the register pair\<close>

lemma join64_shl:
  assumes "0 < k" "k < 32"
  shows "push_bit k (join64 (mk_dint x r)) = join64 (mk_dint (push_bit k x) (push_bit k r OR drop_bit (32 - k) x))"
  using assms by (intro bit_word_eqI) (auto simp: bit_join64 bit_simps add.commute dest: bit_imp_le_length)

lemma join64_shl1: "push_bit 1 (join64 (mk_dint x r)) = join64 (mk_dint (push_bit 1 x) (push_bit 1 r OR drop_bit 31 x))"
  using join64_shl[of 1 x r] by (simp only:) simp

lemma join64_or1: "word_cat (h::u32) (l::u32) = join64 (mk_dint l h)"
  by (simp add: join64_def)

lemma join64_parts: "ucast (join64 a) = low a" "ucast (drop_bit 32 (join64 a)) = high a"
  by (rule bit_word_eqI; auto simp: bit_join64 bit_simps dest: bit_imp_le_length)+

lemma ucast33_high: "(ucast (drop_bit 32 (join64 a)) :: 33 word) = ucast (high a)"
  by (rule bit_word_eqI) (auto simp: bit_join64 bit_simps dest: bit_imp_le_length)

lemma unat_ucast33: "unat (ucast (h::u32) :: 33 word) = unat h"
  using u32_bound[of h] by (simp add: unsigned_ucast_eq take_bit_nat_eq_self)

lemma bit32_33: "bit (w :: 33 word) 32 \<longleftrightarrow> 4294967296 \<le> unat w"
  using bit_last_iff[of w] sint_neg_iff[of w] by simp

lemma bit33: "\<not> bit ((ucast (h::u32) :: 33 word) - ucast (b::u32)) 32 \<longleftrightarrow> b \<le> h"
  using u32_bound[of h] u32_bound[of b]
  by (auto simp: bit32_33 unat_sub_if' unat_ucast33 word_le_nat_alt)

lemma sub33:
  assumes "b \<le> h"
  shows "ucast ((ucast (h::u32) :: 33 word) - ucast (b::u32)) = h - b"
proof -
  have "unat ((ucast h :: 33 word) - ucast b) = unat h - unat b"
    using assms by (simp add: unat_sub_if' unat_ucast33 word_le_nat_alt)
  moreover have "unat (h - b) = unat h - unat b" using assms by (rule unat_sub)
  ultimately show ?thesis
    using u32_bound[of h] by (simp add: word_unat_eq_iff unsigned_ucast_eq take_bit_nat_eq_self)
qed

lemma div_step_pair:
  "div_step (join64 (mk_dint x r)) d =
     (let r1 = push_bit 1 r OR drop_bit 31 x; x1 = push_bit 1 x
      in if d \<le> r1 then join64 (mk_dint (x1 OR 1) (r1 - d)) else join64 (mk_dint x1 r1))"
  unfolding div_step_def join64_shl1 Let_def ucast33_high bit33 dint.select_convs
  by (simp add: sub33 join64_parts(1) join64_or1)

lemma div_steps_loop:
  "((\<lambda>pa. div_step pa d) ^^ n) (join64 (mk_dint x r))
     = (let (x', r') = div_loop n x d r in join64 (mk_dint x' r'))"
proof (induction n arbitrary: x r)
  case (Suc n)
  have "LENGTH(32) - 1 = 31" by simp
  then show ?case
    by (simp add: funpow_Suc_right Suc.IH div_step_pair Let_def del: funpow.simps)
qed simp

lemma div_run_append: "div_run s (ps @ qs) =
   (let (s1, ws) = div_run s ps; (s2, vs) = div_run s1 qs in (s2, ws @ vs))"
  by (induction ps arbitrary: s) (auto simp: Let_def split: prod.splits)

lemma div_run_busy:
  assumes "n < unat (cnt s)" "length ps = n"
  shows "div_run s ps = (s\<lparr>PA := ((\<lambda>pa. div_step pa (B s)) ^^ n) (PA s), cnt := cnt s - of_nat n\<rparr>, replicate n None)"
  using assms
proof (induction n arbitrary: s ps)
  case 0
  then show ?case by simp
next
  case (Suc n)
  then obtain p qs where ps: "ps = p # qs" "length qs = n" by (cases ps) auto
  let ?s1 = "s\<lparr>PA := div_step (PA s) (B s), cnt := cnt s - 1\<rparr>"
  have c: "1 < unat (cnt s)" using Suc.prems(1) by simp
  then have "cnt s \<noteq> 0" "1 < cnt s" by (auto simp: word_less_nat_alt)
  then have step: "div_main s p = (?s1, None)" by (simp add: div_main_def)
  have "unat (cnt s - 1) = unat (cnt s) - 1" using c by (simp add: unat_sub_if')
  then have n: "n < unat (cnt ?s1)" using Suc.prems(1) by simp
  show ?case
    unfolding ps(1) div_run.simps step Let_def prod.case Suc.IH[OF n ps(2)]
    by (simp add: funpow_Suc_right algebra_simps del: funpow.simps)
qed

section \<open>The unit delivers the instruction's result\<close>

definition start_ports :: "div_ports \<Rightarrow> bool" where
  "start_ports p \<longleftrightarrow> length (filter id [is_divs p, is_divu p, is_rems p, is_remu p]) = 1 \<and> div_wad p \<noteq> 0"

definition ports_result :: "div_ports \<Rightarrow> u32" where
  "ports_result p = (if is_divs p then divs (divA p) (divB p) else if is_divu p then divu (divA p) (divB p)
     else if is_rems p then rems (divA p) (divB p) else remu (divA p) (divB p))"

lemma PA_after_32:
  "((\<lambda>pa. div_step pa d) ^^ 32) (ucast x)
     = (if d = 0 then join64 (mk_dint (- 1) x) else join64 (mk_dint (x div d) (x mod d)))"
proof -
  have "(ucast x :: u64) = join64 (mk_dint x 0)"
    using join64_conversions(2)[of x] by (simp add: to_dint_ze_def)
  then show ?thesis
    using div_loop_value[of x d] by (simp add: div_steps_loop split: prod.splits)
qed

lemma bit31_sint: "bit (a::u32) 31 \<longleftrightarrow> sint a < 0"
  using bit_last_iff[of a] by simp

lemma sgn_mag: "(if bit (a::u32) 31 then - a else a) = (if sint a < 0 then - a else a)"
  by (simp add: bit31_sint)

text \<open>The value the last cycle selects, complements and writes, from the operands.\<close>

lemma divider_value_signed:
  fixes a b :: u32
  defines "A \<equiv> (if bit a 31 then - a else a)" and "D \<equiv> (if bit b 31 then - b else b)"
  shows "(if D = 0 then - 1 else if bit a 31 \<noteq> bit b 31 then - (A div D) else A div D) = divs a b"
    and "(if bit a 31 then - (if D = 0 then A else A mod D) else (if D = 0 then A else A mod D)) = rems a b"
proof -
  have z: "D = 0 \<longleftrightarrow> b = 0" by (simp add: D_def)
  have x: "bit a 31 \<noteq> bit b 31 \<longleftrightarrow> sint (a XOR b) < 0" by (simp add: sint_xor_neg bit31_sint)
  show "(if D = 0 then - 1 else if bit a 31 \<noteq> bit b 31 then - (A div D) else A div D) = divs a b"
    unfolding z x unfolding A_def D_def sgn_mag divs_def by (simp add: signed_quotient[symmetric])
  show "(if bit a 31 then - (if D = 0 then A else A mod D) else (if D = 0 then A else A mod D)) = rems a b"
    unfolding z unfolding A_def D_def sgn_mag rems_def
    by (simp add: signed_remainder[symmetric] bit31_sint)
qed

lemma div_run_started:
  assumes "cnt s = 0" "start_ports p" "length ps \<le> 32"
  defines "s0 \<equiv> fst (div_main s p)"
  shows "div_run s (p # ps) = (s0\<lparr>PA := ((\<lambda>pa. div_step pa (B s0)) ^^ length ps) (PA s0),
      cnt := 33 - of_nat (length ps)\<rparr>, replicate (Suc (length ps)) None)"
proof -
  have go: "is_divs p \<or> is_divu p \<or> is_rems p \<or> is_remu p" "div_wad p \<noteq> 0"
    using assms(2) by (auto simp: start_ports_def split: if_splits)
  then have step: "div_main s p = (s0, None)" and c: "cnt s0 = 33"
    using assms(1) by (auto simp: s0_def div_main_def Let_def)
  have "length ps < unat (cnt s0)" using assms(3) c by simp
  from div_run_busy[OF this refl] show ?thesis by (simp add: step c)
qed

lemma div_last_cycle:
  assumes "cnt s = 0" "start_ports p" "length ps = 32"
  shows "div_main (fst (div_run s (p # ps))) q
    = ((fst (div_run s (p # ps)))\<lparr>cnt := 0\<rparr>, Some (div_wad p, ports_result p))"
proof -
  define sgd where "sgd = (is_divs p \<or> is_rems p)"
  define A where "A = (if sgd \<and> bit (divA p) 31 then - divA p else divA p)"
  define D where "D = (if sgd \<and> bit (divB p) 31 then - divB p else divB p)"
  define s0 where "s0 = fst (div_main s p)"
  define s1 where "s1 = fst (div_run s (p # ps))"
  have go: "is_divs p \<or> is_divu p \<or> is_rems p \<or> is_remu p" "div_wad p \<noteq> 0"
    using assms(2) by (auto simp: start_ports_def split: if_splits)
  then have s0: "s0 = s\<lparr>PA := ucast A, B := D, Q_addr_reg := div_wad p, is_div := (is_divs p \<or> is_divu p),
      is_neg := (sgd \<and> bit (divA p) 31 \<noteq> (bit (divB p) 31 \<and> is_divs p)), cnt := 33\<rparr>"
    using assms(1) by (simp add: s0_def div_main_def Let_def A_def D_def sgd_def)
  have s1: "s1 = s0\<lparr>PA := (if D = 0 then join64 (mk_dint (- 1) A) else join64 (mk_dint (A div D) (A mod D))), cnt := 1\<rparr>"
    using div_run_started[OF assms(1,2), of ps] assms(3) PA_after_32[of D A]
    unfolding s0_def[symmetric] s1_def by (simp add: s0 del: div_run.simps)
  have one: "is_divs p \<and> \<not> is_divu p \<and> \<not> is_rems p \<and> \<not> is_remu p
      \<or> \<not> is_divs p \<and> is_divu p \<and> \<not> is_rems p \<and> \<not> is_remu p
      \<or> \<not> is_divs p \<and> \<not> is_divu p \<and> is_rems p \<and> \<not> is_remu p
      \<or> \<not> is_divs p \<and> \<not> is_divu p \<and> \<not> is_rems p \<and> is_remu p"
    using assms(2) by (auto simp: start_ports_def split: if_splits)
  have main: "div_main s1 q = (s1\<lparr>cnt := 0\<rparr>, Some (div_wad p,
      (let res = (if is_div s1 then ucast (PA s1) else ucast (drop_bit 32 (PA s1)));
           res = (if is_neg s1 then - res else res)
       in if D = 0 \<and> is_div s1 then - 1 else res)))"
  proof -
    have f: "cnt s1 = 1" "B s1 = D" "Q_addr_reg s1 = div_wad p" by (simp_all add: s1 s0)
    show ?thesis unfolding div_main_def Let_def f by simp
  qed
  have "(let res = (if is_div s1 then ucast (PA s1) else ucast (drop_bit 32 (PA s1)));
           res = (if is_neg s1 then - res else res)
       in if D = 0 \<and> is_div s1 then - 1 else res) = ports_result p" (is "?r = _")
    using one
  proof (elim disjE conjE)
    assume op: "is_divs p" "\<not> is_divu p" "\<not> is_rems p" "\<not> is_remu p"
    then have AD: "A = (if bit (divA p) 31 then - divA p else divA p)"
      "D = (if bit (divB p) 31 then - divB p else divB p)" by (simp_all add: A_def D_def sgd_def)
    have "?r = (if D = 0 then - 1 else if bit (divA p) 31 \<noteq> bit (divB p) 31 then - (A div D) else A div D)"
      using op by (simp add: s1 s0 join64_parts sgd_def Let_def)
    then show ?thesis
      unfolding AD divider_value_signed(1) using op by (simp add: ports_result_def)
  next
    assume op: "\<not> is_divs p" "\<not> is_divu p" "is_rems p" "\<not> is_remu p"
    then have AD: "A = (if bit (divA p) 31 then - divA p else divA p)"
      "D = (if bit (divB p) 31 then - divB p else divB p)" by (simp_all add: A_def D_def sgd_def)
    have "?r = (if bit (divA p) 31 then - (if D = 0 then A else A mod D) else (if D = 0 then A else A mod D))"
      using op by (simp add: s1 s0 join64_parts sgd_def Let_def)
    then show ?thesis
      unfolding AD divider_value_signed(2) using op by (simp add: ports_result_def)
  qed (simp_all add: s1 s0 join64_parts ports_result_def divu_def remu_def sgd_def A_def D_def Let_def)
  with main show ?thesis by (simp add: s1_def)
qed

lemma div_run_result:
  assumes "cnt s = 0" "start_ports p" "length ps = 32"
  shows "cnt (fst (div_run s (p # ps @ [q]))) = 0"
    "snd (div_run s (p # ps @ [q])) = replicate 33 None @ [Some (div_wad p, ports_result p)]"
proof -
  have run: "div_run s (p # ps @ [q]) =
      (fst (div_main (fst (div_run s (p # ps))) q),
       snd (div_run s (p # ps)) @ [snd (div_main (fst (div_run s (p # ps))) q)])"
    using div_run_append[of s "p # ps" "[q]"] by (simp add: Let_def split: prod.splits)
  have "snd (div_run s (p # ps)) = replicate 33 None"
    using div_run_started[OF assms(1,2), of ps] assms(3)
    by (simp del: div_run.simps replicate_Suc)
  then show "cnt (fst (div_run s (p # ps @ [q]))) = 0"
    "snd (div_run s (p # ps @ [q])) = replicate 33 None @ [Some (div_wad p, ports_result p)]"
    unfolding run div_last_cycle[OF assms] by simp_all
qed

text \<open>C27: Started on one of the four instructions with a destination other than \<open>x0\<close>, the divide
  unit ignores its ports for 33 cycles, is busy all that time, announces its write one cycle
  ahead, and in the 34th cycle writes exactly once, to the destination captured at the start,
  the value of the instruction (RISC-V results for a zero divisor included); it is then idle.\<close>

theorem divider_delivers_result:
  assumes "cnt s = 0" "start_ports p" "length ps = 32"
  shows "cnt (fst (div_run s (p # ps @ [q]))) = 0
    \<and> snd (div_run s (p # ps @ [q])) = replicate 33 None @ [Some (div_wad p, ports_result p)]
    \<and> (\<forall>k\<le>32. state_to_core (fst (div_run s (p # take k ps))) = (True, div_wad p, k = 31))"
proof -
  have "state_to_core (fst (div_run s (p # take k ps))) = (True, div_wad p, k = 31)" if "k \<le> 32" for k
  proof -
    have l: "length (take k ps) = k" "length (take k ps) \<le> 32" using that assms(3) by simp_all
    have q: "Q_addr_reg (fst (div_main s p)) = div_wad p"
      using assms(1,2) by (auto simp: div_main_def start_ports_def Let_def split: if_splits)
    have "(33 - of_nat k :: 6 word) = of_nat (33 - k)" using that by (simp add: of_nat_diff)
    moreover define c where "c = (of_nat (33 - k) :: 6 word)"
    have u: "unat c = 33 - k" unfolding c_def unat_of_nat by (intro mod_less) simp
    then have "c \<noteq> 0" using that by auto
    moreover have "c = 2 \<longleftrightarrow> k = 31" unfolding word_unat_eq_iff[of c 2] u using that by auto
    ultimately show ?thesis
      using div_run_started[OF assms(1,2) l(2)] l(1) q
      by (simp add: state_to_core_def c_def del: div_run.simps)
  qed
  then show ?thesis using div_run_result[OF assms] by blast
qed


definition example_unit :: div_unit where
  "example_unit = \<lparr>cnt = 0, PA = 0, B = 0, Q_addr_reg = 0, is_div = False, is_neg = False\<rparr>"

definition example_ports :: div_ports where
  "example_ports = \<lparr>is_divs = True, is_divu = False, is_rems = False, is_remu = False,
                    divA = - 7, divB = 2, div_wad = 5\<rparr>"

theorem divider_delivers_result_witness:
  "snd (div_run example_unit (example_ports # replicate 32 example_ports @ [example_ports]))
     = replicate 33 None @ [Some (5, - 3)]"
proof -
  have "cnt example_unit = 0" "start_ports example_ports"
    by (simp_all add: example_unit_def example_ports_def start_ports_def)
  moreover have "ports_result example_ports = - 3" "div_wad example_ports = 5"
    by (simp_all add: ports_result_def example_ports_def divs_def)
  ultimately show ?thesis
    using divider_delivers_result[of example_unit example_ports "replicate 32 example_ports" example_ports]
    by (simp only: length_replicate)
qed

end
