(* ===== verification/CMemory.thy ===== *)
theory CMemory
  imports CPrelude
begin

text \<open>
  The byte memory of the target: a total function from 32-bit addresses to bytes, with
  address arithmetic that wraps.  Regions are a start address and a length; \<open>rd\<close> and \<open>wr\<close>
  are the bulk read and write the specifications of the memory functions are stated with.
\<close>

type_synonym mem = "u32 \<Rightarrow> u8"

definition rd :: "mem \<Rightarrow> u32 \<Rightarrow> nat \<Rightarrow> u8 list" where
  "rd m p n = map (\<lambda>i. m (p + of_nat i)) [0..<n]"

text \<open>Memory holding the bytes \<open>bs\<close> from address \<open>p\<close> on, over \<open>m\<close>.\<close>

definition wr :: "mem \<Rightarrow> u32 \<Rightarrow> u8 list \<Rightarrow> mem" where
  "wr m p bs = (\<lambda>a. if unat (a - p) < length bs then bs ! unat (a - p) else m a)"

definition in_region :: "u32 \<Rightarrow> u32 \<Rightarrow> nat \<Rightarrow> bool" where
  "in_region a p n \<longleftrightarrow> unat (a - p) < n"

lemma length_rd [simp]: "length (rd m p n) = n"
  by (simp add: rd_def)

lemma nth_rd [simp]: "i < n \<Longrightarrow> rd m p n ! i = m (p + of_nat i)"
  by (simp add: rd_def)

lemma rd_0 [simp]: "rd m p 0 = []"
  by (simp add: rd_def)

lemma rd_Suc: "rd m p (Suc n) = m p # rd m (p + 1) n"
  by (rule nth_equalityI) (auto simp: nth_Cons' algebra_simps of_nat_diff)

lemma rd_add: "rd m p (a + b) = rd m p a @ rd m (p + of_nat a) b"
  by (rule nth_equalityI) (auto simp: nth_append algebra_simps of_nat_diff)

lemma rd_cong: "(\<And>i. i < n \<Longrightarrow> m (p + of_nat i) = m' (p + of_nat i)) \<Longrightarrow> rd m p n = rd m' p n"
  by (simp add: rd_def)

lemma rd_wr_disjoint:
  assumes "\<And>i. i < n \<Longrightarrow> length bs \<le> unat (a + of_nat i - p)"
  shows "rd (wr m p bs) a n = rd m a n"
  by (rule rd_cong) (use assms in \<open>simp add: wr_def not_less[symmetric]\<close>)

lemma word_minus_of_nat:
  assumes "unat (x :: 'a::len word) = a + b"
  shows "x - of_nat a = of_nat b"
proof -
  have "x = of_nat (a + b)" by (simp flip: assms)
  then show ?thesis by simp
qed

section \<open>Single writes and regions\<close>

lemma of_nat_eq_iff32:
  assumes "i < 4294967296" "j < 4294967296"
  shows "(of_nat i :: u32) = of_nat j \<longleftrightarrow> i = j"
  by (metis assms unat_of_nat32)

lemma wr_Nil [simp]: "wr m p [] = m"
  by (simp add: wr_def)

lemma wr_Cons:
  assumes "length xs < 4294967295"
  shows "wr m p (x # xs) = wr (m(p := x)) (p + 1) xs"
proof
  fix a
  show "wr m p (x # xs) a = wr (m(p := x)) (p + 1) xs a"
  proof (cases "a = p")
    case True
    have "a - (p + 1) = - 1" unfolding True by simp
    moreover have "unat (- 1 :: u32) = 4294967295" by (simp add: unsigned_minus_1_eq_mask mask_eq_exp_minus_1)
    ultimately have "unat (a - (p + 1)) = 4294967295" by metis
    then show ?thesis using assms True by (simp add: wr_def)
  next
    case False
    then have nz: "a - p \<noteq> 0" by simp
    then have "1 \<le> unat (a - p)" by (metis less_one not_less unat_eq_zero)
    then obtain k where k: "unat (a - p) = Suc k" by (cases "unat (a - p)") auto
    have "a - (p + 1) = (a - p) - 1" by simp
    then have "unat (a - (p + 1)) = k" using k by (simp only: unat_sub_if') simp
    then show ?thesis using False k by (simp add: wr_def)
  qed
qed

lemma wr_snoc:
  assumes "length xs < 4294967296"
  shows "wr m p (xs @ [x]) = wr (m(p + of_nat (length xs) := x)) p xs"
proof
  fix a
  have "a = p + of_nat (length xs) \<longleftrightarrow> unat (a - p) = length xs"
  proof
    assume "a = p + of_nat (length xs)"
    then show "unat (a - p) = length xs" using assms by (simp add: unat_of_nat32)
  next
    assume "unat (a - p) = length xs"
    then have "of_nat (length xs) = a - p" by (simp flip: \<open>unat (a - p) = length xs\<close>)
    then show "a = p + of_nat (length xs)" by simp
  qed
  then show "wr m p (xs @ [x]) a = wr (m(p + of_nat (length xs) := x)) p xs a"
    by (auto simp: wr_def nth_append)
qed

text \<open>Two regions of lengths \<open>a\<close> and \<open>b\<close> without a common address.\<close>

definition apart :: "u32 \<Rightarrow> nat \<Rightarrow> u32 \<Rightarrow> nat \<Rightarrow> bool" where
  "apart p a q b \<longleftrightarrow> (\<forall>i < a. \<forall>j < b. p + of_nat i \<noteq> q + of_nat j)"

lemma apart_Suc: "apart p (Suc a) q (Suc b) \<Longrightarrow> apart (p + 1) a (q + 1) b"
  unfolding apart_def
proof (intro allI impI)
  fix i j assume h: "\<forall>i < Suc a. \<forall>j < Suc b. p + of_nat i \<noteq> q + of_nat j" "i < a" "j < b"
  then have "p + of_nat (Suc i) \<noteq> q + of_nat (Suc j)" by blast
  then show "p + 1 + of_nat i \<noteq> q + 1 + of_nat j" by (simp add: add.assoc)
qed

lemma apart_mono: "apart p a q b \<Longrightarrow> a' \<le> a \<Longrightarrow> b' \<le> b \<Longrightarrow> apart p a' q b'"
  by (auto simp: apart_def)

lemma apart_sym: "apart p a q b \<Longrightarrow> apart q b p a"
  unfolding apart_def by metis

lemma rd_upd_other: "(\<And>i. i < n \<Longrightarrow> a \<noteq> p + of_nat i) \<Longrightarrow> rd (m(a := x)) p n = rd m p n"
  by (intro rd_cong) (auto simp: fun_upd_def)

lemma wr_outside: "length xs \<le> unat (a - p) \<Longrightarrow> wr m p xs a = m a"
  by (simp add: wr_def)

lemma wr_inside: "i < length xs \<Longrightarrow> i < 4294967296 \<Longrightarrow> wr m p xs (p + of_nat i) = xs ! i"
  by (simp add: wr_def unat_of_nat32)

lemma rd_wr: "length xs \<le> 4294967296 \<Longrightarrow> rd (wr m p xs) p (length xs) = xs"
  by (rule nth_equalityI) (simp_all add: wr_inside)

lemma wr_apart:
  assumes "apart p (length xs) q n" "i < n" "length xs \<le> 4294967296"
  shows "wr m p xs (q + of_nat i) = m (q + of_nat i)"
proof (rule wr_outside, rule ccontr)
  assume h: "\<not> length xs \<le> unat (q + of_nat i - p)"
  let ?j = "unat (q + of_nat i - p)"
  have "p + of_nat ?j = q + of_nat i" by simp
  then show False using assms(1,2) h unfolding apart_def by (metis not_le)
qed


section \<open>Words in memory\<close>

text \<open>Four bytes, least significant first (\<open>__LITTLE_ENDIAN\<close> of \<^verbatim>\<open>lib/runtime/include/limits.h\<close>).\<close>

definition store32 :: "mem \<Rightarrow> u32 \<Rightarrow> u32 \<Rightarrow> mem" where
  "store32 m p v = wr m p [ucast v, ucast (drop_bit 8 v), ucast (drop_bit 16 v), ucast (drop_bit 24 v)]"

definition load32 :: "mem \<Rightarrow> u32 \<Rightarrow> u32" where
  "load32 m p = ucast (m p) OR push_bit 8 (ucast (m (p + 1))) OR push_bit 16 (ucast (m (p + 2)))
     OR push_bit 24 (ucast (m (p + 3)))"

lemma load32_store32: "load32 (store32 m p v) p = v"
proof -
  have "load32 (store32 m p v) p = ucast (ucast v :: u8) OR push_bit 8 (ucast (ucast (drop_bit 8 v) :: u8))
      OR push_bit 16 (ucast (ucast (drop_bit 16 v) :: u8)) OR push_bit 24 (ucast (ucast (drop_bit 24 v) :: u8))"
    by (simp add: load32_def store32_def wr_def)
  also have "\<dots> = v"
  proof (rule bit_word_eqI)
    fix n assume "n < LENGTH(32)"
    then consider "n < 8" | "8 \<le> n" "n < 16" | "16 \<le> n" "n < 24" | "24 \<le> n" "n < 32" by fastforce
    then show "bit (ucast (ucast v :: u8) OR push_bit 8 (ucast (ucast (drop_bit 8 v) :: u8))
        OR push_bit 16 (ucast (ucast (drop_bit 16 v) :: u8))
        OR push_bit 24 (ucast (ucast (drop_bit 24 v) :: u8)) :: u32) n = bit v n"
      by cases (auto simp: bit_simps)
  qed
  finally show ?thesis .
qed

lemma store32_other: "4 \<le> unat (a - p) \<Longrightarrow> store32 m p v a = m a"
  by (simp add: store32_def wr_outside)

end
