(* ===== verification/Sha256.thy ===== *)
theory Sha256
  imports CMemory "HOL-Library.Signed_Division"
begin

text \<open>
  \<^verbatim>\<open>applications/sha-256/sha-256.c\<close>: the SHA-256 hash.  Messages are in data memory, the local
  buffer \<open>buf\<close> and the output array \<open>hash\<close> are lists updated by index; both have arbitrary
  contents on entry.  The round constants are those the simulator loads from
  \<^verbatim>\<open>sha-256-k.dat\<close>.  The progress \<open>printf\<close> of the block loop is left out.
\<close>

section \<open>Macros and constants\<close>

definition ROTRIGHT :: "u32 \<Rightarrow> nat \<Rightarrow> u32" where
  "ROTRIGHT a b = drop_bit b a OR push_bit (32 - b) a"
definition CH :: "u32 \<Rightarrow> u32 \<Rightarrow> u32 \<Rightarrow> u32" where
  "CH x y z = (x AND y) XOR (NOT x AND z)"
definition MAJ :: "u32 \<Rightarrow> u32 \<Rightarrow> u32 \<Rightarrow> u32" where
  "MAJ x y z = (x AND y) XOR (x AND z) XOR (y AND z)"
definition EP0 :: "u32 \<Rightarrow> u32" where
  "EP0 x = ROTRIGHT x 2 XOR ROTRIGHT x 13 XOR ROTRIGHT x 22"
definition EP1 :: "u32 \<Rightarrow> u32" where
  "EP1 x = ROTRIGHT x 6 XOR ROTRIGHT x 11 XOR ROTRIGHT x 25"
definition SIG0 :: "u32 \<Rightarrow> u32" where
  "SIG0 x = ROTRIGHT x 7 XOR ROTRIGHT x 18 XOR drop_bit 3 x"
definition SIG1 :: "u32 \<Rightarrow> u32" where
  "SIG1 x = ROTRIGHT x 17 XOR ROTRIGHT x 19 XOR drop_bit 10 x"

text \<open>The 64 words of \<^verbatim>\<open>sha-256-k.dat\<close>, in decimal.\<close>

definition sha_k :: "u32 list" where
  "sha_k =
    [1116352408, 1899447441, 3049323471, 3921009573, 961987163, 1508970993,
     2453635748, 2870763221, 3624381080, 310598401, 607225278, 1426881987,
     1925078388, 2162078206, 2614888103, 3248222580, 3835390401, 4022224774,
     264347078, 604807628, 770255983, 1249150122, 1555081692, 1996064986,
     2554220882, 2821834349, 2952996808, 3210313671, 3336571891, 3584528711,
     113926993, 338241895, 666307205, 773529912, 1294757372, 1396182291,
     1695183700, 1986661051, 2177026350, 2456956037, 2730485921, 2820302411,
     3259730800, 3345764771, 3516065817, 3600352804, 4094571909, 275423344,
     430227734, 506948616, 659060556, 883997877, 958139571, 1322822218,
     1537002063, 1747873779, 1955562222, 2024104815, 2227730452, 2361852424,
     2428436474, 2756734187, 3204031479, 3329325298]"

section \<open>The block transformation\<close>

text \<open>The eight chaining variables \<open>a\<close> to \<open>h\<close>.\<close>

type_synonym sha_regs = "u32 \<times> u32 \<times> u32 \<times> u32 \<times> u32 \<times> u32 \<times> u32 \<times> u32"

text \<open>The array \<open>m\<close> is filled from index 0 up: the list of the entries written so far.\<close>

fun load_words :: "nat \<Rightarrow> u8 list \<Rightarrow> nat \<Rightarrow> u32 list \<Rightarrow> u32 list" where
  "load_words 0 data j m = m"
| "load_words (Suc n) data j m =
     load_words n data (j + 4)
       (m @ [push_bit 24 (ucast (data ! j)) OR push_bit 16 (ucast (data ! (j + 1)))
             OR push_bit 8 (ucast (data ! (j + 2))) OR ucast (data ! (j + 3))])"

fun expand_words :: "nat \<Rightarrow> u32 list \<Rightarrow> u32 list" where
  "expand_words 0 m = m"
| "expand_words (Suc n) m =
     (let i = length m
      in expand_words n (m @ [SIG1 (m ! (i - 2)) + m ! (i - 7) + SIG0 (m ! (i - 15)) + m ! (i - 16)]))"

fun sha_round :: "u32 list \<Rightarrow> nat \<Rightarrow> sha_regs \<Rightarrow> sha_regs" where
  "sha_round m i (a, b, c, d, e, f, g, h) =
     (let t1 = h + EP1 e + CH e f g + sha_k ! i + m ! i;
          t2 = EP0 a + MAJ a b c;
          h = g; g = f; f = e; e = d + t1; d = c; c = b; b = a; a = t1 + t2
      in (a, b, c, d, e, f, g, h))"

fun sha256_transform :: "u8 list \<Rightarrow> sha_regs \<Rightarrow> sha_regs" where
  "sha256_transform data (h0, h1, h2, h3, h4, h5, h6, h7) =
     (let m = expand_words 48 (load_words 16 data 0 []);
          (a, b, c, d, e, f, g, h) = fold (sha_round m) [0..<64] (h0, h1, h2, h3, h4, h5, h6, h7)
      in (h0 + a, h1 + b, h2 + c, h3 + d, h4 + e, h5 + f, h6 + g, h7 + h))"

section \<open>The hash\<close>

definition sha_init :: sha_regs where
  "sha_init = (0x6a09e667, 0xbb67ae85, 0x3c6ef372, 0xa54ff53a, 0x510e527f, 0x9b05688c, 0x1f83d9ab, 0x5be0cd19)"

text \<open>\<open>n\<close> times \<open>buf[i++] = *pdata++\<close>.\<close>

fun copy_in :: "nat \<Rightarrow> mem \<Rightarrow> u32 \<Rightarrow> nat \<Rightarrow> u8 list \<Rightarrow> u8 list" where
  "copy_in 0 mem pdata i buf = buf"
| "copy_in (Suc n) mem pdata i buf = copy_in n mem (pdata + 1) (i + 1) (buf[i := mem pdata])"

text \<open>\<open>n\<close> times \<open>buf[i++] = 0x00\<close>.\<close>

fun zero_fill :: "nat \<Rightarrow> nat \<Rightarrow> u8 list \<Rightarrow> u8 list" where
  "zero_fill 0 i buf = buf"
| "zero_fill (Suc n) i buf = zero_fill n (i + 1) (buf[i := 0])"

text \<open>The loop over full blocks; \<open>len - block_offset\<close> is unsigned.  It leaves the buffer, the
  registers, \<open>pdata\<close> and \<open>block_offset\<close>.\<close>

function block_loop :: "mem \<Rightarrow> u32 \<Rightarrow> u32 \<Rightarrow> u32 \<Rightarrow> u8 list \<Rightarrow> sha_regs \<Rightarrow> u8 list \<times> sha_regs \<times> u32 \<times> u32" where
  "block_loop mem len pdata block_offset buf regs =
     (if 64 \<le> len - block_offset then
        (let buf = copy_in 64 mem pdata 0 buf
         in block_loop mem len (pdata + 64) (block_offset + 64) buf (sha256_transform buf regs))
      else (buf, regs, pdata, block_offset))"
  by pat_completeness auto
termination
proof (relation "measure (\<lambda>(mem, len, pdata, block_offset, buf, regs). unat (len - block_offset))")
  fix mem :: mem and len pdata block_offset :: u32 and buf x :: "u8 list" and regs :: sha_regs
  assume le: "64 \<le> len - block_offset"
  have "unat (len - block_offset - 64) = unat (len - block_offset) - unat (64 :: u32)"
    by (rule unat_sub) (rule le)
  moreover have "64 \<le> unat (len - block_offset)" using le by (simp add: word_le_nat_alt)
  ultimately have "unat (len - (block_offset + 64)) < unat (len - block_offset)"
    by (simp add: diff_diff_eq)
  then show "((mem, len, pdata + 64, block_offset + 64, x, sha256_transform x regs), mem, len, pdata, block_offset, buf, regs)
      \<in> measure (\<lambda>(mem, len, pdata, block_offset, buf, regs). unat (len - block_offset))" by simp
qed simp

declare block_loop.simps [simp del]

definition put_bitlen :: "u64 \<Rightarrow> u8 list \<Rightarrow> u8 list" where
  "put_bitlen bitlen buf =
     buf[63 := ucast bitlen, 62 := ucast (drop_bit 8 bitlen), 61 := ucast (drop_bit 16 bitlen),
         60 := ucast (drop_bit 24 bitlen), 59 := ucast (drop_bit 32 bitlen), 58 := ucast (drop_bit 40 bitlen),
         57 := ucast (drop_bit 48 bitlen), 56 := ucast (drop_bit 56 bitlen)]"

text \<open>One iteration of the output loop: byte \<open>i\<close> of each of the eight words.\<close>

fun put_hash :: "sha_regs \<Rightarrow> nat \<Rightarrow> u8 list \<Rightarrow> u8 list" where
  "put_hash (a, b, c, d, e, f, g, h) i hash =
     (let byte = (\<lambda>w :: u32. ucast (drop_bit (24 - i * 8) w AND 0x000000ff) :: u8)
      in hash[i := byte a, i + 4 := byte b, i + 8 := byte c, i + 12 := byte d,
              i + 16 := byte e, i + 20 := byte f, i + 24 := byte g, i + 28 := byte h])"

definition sha256 :: "mem \<Rightarrow> u32 \<Rightarrow> u32 \<Rightarrow> u8 list \<Rightarrow> u8 list \<Rightarrow> u8 list" where
  "sha256 mem data len buf hash =
     (let (buf, regs, pdata, block_offset) = block_loop mem len data 0 buf sha_init;
          pdata = pdata + block_offset;
          datalen = len - block_offset;
          i = unat datalen;
          buf = copy_in i mem pdata 0 buf;
          (buf, regs) =
            (if datalen < 56 then (zero_fill (56 - (i + 1)) (i + 1) (buf[i := 0x80]), regs)
             else (let buf = zero_fill (64 - (i + 1)) (i + 1) (buf[i := 0x80]);
                       regs = sha256_transform buf regs
                   in (zero_fill 56 0 buf, regs)));
          bitlen = ucast (push_bit 3 len);
          buf = put_bitlen bitlen buf;
          regs = sha256_transform buf regs
      in fold (put_hash regs) [0..<4] hash)"

fun cmp_hash :: "u8 list \<Rightarrow> u8 list \<Rightarrow> nat \<Rightarrow> nat" where
  "cmp_hash a b 0 = 0"
| "cmp_hash a b (Suc n) = cmp_hash a b n + (if (a ! n AND 0xff) \<noteq> (b ! n AND 0xff) then 1 else 0)"

section \<open>The test driver\<close>

text \<open>\<open>main\<close> hashes the messages one after the other, each at the next multiple of four bytes;
  \<open>stack\<close> holds the contents \<open>buf\<close> and \<open>hash\<close> have at each call.  It then counts the hashes equal
  to the expected ones.  The simulator loads \<^verbatim>\<open>sha-256-input.dat\<close> and \<^verbatim>\<open>sha-256-input-lengths.dat\<close> into the
  memory before it starts.\<close>

definition sha_input :: "u8 list" where
  "sha_input =
    [0x61, 0x00, 0x00, 0x00, 0x61, 0x62, 0x63, 0x00, 0x6d, 0x65, 0x73, 0x73, 0x61, 0x67, 0x65, 0x20,
     0x64, 0x69, 0x67, 0x65, 0x73, 0x74, 0x00, 0x00, 0x61, 0x62, 0x63, 0x64, 0x65, 0x66, 0x67, 0x68,
     0x69, 0x6a, 0x6b, 0x6c, 0x6d, 0x6e, 0x6f, 0x70, 0x71, 0x72, 0x73, 0x74, 0x75, 0x76, 0x77, 0x78,
     0x79, 0x7a, 0x00, 0x00, 0x61, 0x62, 0x63, 0x64, 0x62, 0x63, 0x64, 0x65, 0x63, 0x64, 0x65, 0x66,
     0x64, 0x65, 0x66, 0x67, 0x65, 0x66, 0x67, 0x68, 0x66, 0x67, 0x68, 0x69, 0x67, 0x68, 0x69, 0x6a,
     0x68, 0x69, 0x6a, 0x6b, 0x69, 0x6a, 0x6b, 0x6c, 0x6a, 0x6b, 0x6c, 0x6d, 0x6b, 0x6c, 0x6d, 0x6e,
     0x6c, 0x6d, 0x6e, 0x6f, 0x6d, 0x6e, 0x6f, 0x70, 0x6e, 0x6f, 0x70, 0x71, 0x61, 0x62, 0x63, 0x64,
     0x62, 0x63, 0x64, 0x65, 0x63, 0x64, 0x65, 0x66, 0x64, 0x65, 0x66, 0x67, 0x65, 0x66, 0x67, 0x68,
     0x66, 0x67, 0x68, 0x69, 0x67, 0x68, 0x69, 0x6a, 0x68, 0x69, 0x6a, 0x6b, 0x69, 0x6a, 0x6b, 0x6c,
     0x6a, 0x6b, 0x6c, 0x6d, 0x6b, 0x6c, 0x6d, 0x6e, 0x6c, 0x6d, 0x6e, 0x6f, 0x6d, 0x6e, 0x6f, 0x70,
     0x6e, 0x6f, 0x70, 0x71, 0x61, 0x62, 0x63, 0x64, 0x61, 0x62, 0x63, 0x64]"

definition sha_input_lengths :: "u32 list" where
  "sha_input_lengths = [0x0, 0x1, 0x3, 0xe, 0x1a, 0x38, 0x40]"

definition rounded_up :: "u32 \<Rightarrow> u32" where
  "rounded_up len = word_of_int (sint (len + 3) sdiv 4) * 4"

fun main_hashes :: "mem \<Rightarrow> u32 \<Rightarrow> u32 list \<Rightarrow> (u8 list \<times> u8 list) list \<Rightarrow> u8 list list" where
  "main_hashes mem start (len # lens) ((buf, hash) # stack) =
     sha256 mem start len buf hash # main_hashes mem (start + rounded_up len) lens stack"
| "main_hashes mem start _ _ = []"

fun count_correct :: "u8 list list \<Rightarrow> u8 list list \<Rightarrow> nat \<Rightarrow> nat" where
  "count_correct (h # hs) (e # es) n = count_correct hs es (if cmp_hash h e 32 = 0 then n + 1 else n)"
| "count_correct _ _ n = n"

section \<open>The standard\<close>

text \<open>FIPS 180-4, sections 4.1.2, 5.1.1, 5.3.3 and 6.2, over bytes.\<close>

definition fips_Ch :: "u32 \<Rightarrow> u32 \<Rightarrow> u32 \<Rightarrow> u32" where
  "fips_Ch x y z = (x AND y) XOR (NOT x AND z)"
definition fips_Maj :: "u32 \<Rightarrow> u32 \<Rightarrow> u32 \<Rightarrow> u32" where
  "fips_Maj x y z = (x AND y) XOR (x AND z) XOR (y AND z)"
definition fips_Sigma0 :: "u32 \<Rightarrow> u32" where
  "fips_Sigma0 x = word_rotr 2 x XOR word_rotr 13 x XOR word_rotr 22 x"
definition fips_Sigma1 :: "u32 \<Rightarrow> u32" where
  "fips_Sigma1 x = word_rotr 6 x XOR word_rotr 11 x XOR word_rotr 25 x"
definition fips_sigma0 :: "u32 \<Rightarrow> u32" where
  "fips_sigma0 x = word_rotr 7 x XOR word_rotr 18 x XOR drop_bit 3 x"
definition fips_sigma1 :: "u32 \<Rightarrow> u32" where
  "fips_sigma1 x = word_rotr 17 x XOR word_rotr 19 x XOR drop_bit 10 x"

text \<open>Big-endian words of a byte string.\<close>

definition be32 :: "u8 list \<Rightarrow> u32" where
  "be32 bs = fold (\<lambda>b w. w * 256 + ucast b) bs 0"

text \<open>The message schedule \<open>W\<^sub>t\<close> of a 64-byte block.\<close>

fun fips_W :: "u8 list \<Rightarrow> nat \<Rightarrow> u32" where
  "fips_W M t = (if t < 16 then be32 (take 4 (drop (4 * t) M))
     else fips_sigma1 (fips_W M (t - 2)) + fips_W M (t - 7) + fips_sigma0 (fips_W M (t - 15)) + fips_W M (t - 16))"

declare fips_W.simps [simp del]

fun fips_round :: "(nat \<Rightarrow> u32) \<Rightarrow> nat \<Rightarrow> sha_regs \<Rightarrow> sha_regs" where
  "fips_round W t (a, b, c, d, e, f, g, h) =
     (let T1 = h + fips_Sigma1 e + fips_Ch e f g + sha_k ! t + W t;
          T2 = fips_Sigma0 a + fips_Maj a b c
      in (T1 + T2, a, b, c, d + T1, e, f, g))"

fun regs_add :: "sha_regs \<Rightarrow> sha_regs \<Rightarrow> sha_regs" where
  "regs_add (a, b, c, d, e, f, g, h) (a', b', c', d', e', f', g', h') =
     (a + a', b + b', c + c', d + d', e + e', f + f', g + g', h + h')"

definition fips_compress :: "u8 list \<Rightarrow> sha_regs \<Rightarrow> sha_regs" where
  "fips_compress M H = regs_add H (fold (fips_round (fips_W M)) [0..<64] H)"

fun fips_blocks :: "u8 list \<Rightarrow> u8 list list" where
  "fips_blocks bs = (if bs = [] then [] else take 64 bs # fips_blocks (drop 64 bs))"

declare fips_blocks.simps [simp del]

text \<open>The padding: the byte 0x80, the least number of zero bytes that leaves room for the
  64-bit length at the end of a block, and the length in bits.\<close>

definition fips_pad :: "u8 list \<Rightarrow> u64 \<Rightarrow> u8 list" where
  "fips_pad msg bitlen =
     msg @ [0x80] @ replicate (nat ((55 - int (length msg)) mod 64)) 0 @ bytes_be 8 bitlen"

fun regs_bytes :: "sha_regs \<Rightarrow> u8 list" where
  "regs_bytes (a, b, c, d, e, f, g, h) = concat (map (bytes_be 4) [a, b, c, d, e, f, g, h])"

definition fips_digest :: "u8 list \<Rightarrow> u8 list" where
  "fips_digest padded = regs_bytes (fold fips_compress (fips_blocks padded) sha_init)"

text \<open>The constants of section 4.2.2 and 5.3.3: the first 32 bits of the fractional parts of the
  cube roots of the first 64 primes, and of the square roots of the first eight.\<close>

definition first_primes :: "int list" where
  "first_primes = filter (\<lambda>p. list_all (\<lambda>d. d = p \<or> p mod d \<noteq> 0) [2, 3, 5, 7, 11, 13, 17]) [2..311]"

text \<open>\<open>k\<close> is the fractional part of the \<open>n\<close>-th root of \<open>p\<close>, cut to 32 bits.\<close>

definition root_fraction :: "nat \<Rightarrow> int \<Rightarrow> u32 \<Rightarrow> bool" where
  "root_fraction n p k = list_ex (\<lambda>a. (a * 2 ^ 32 + uint k) ^ n \<le> p * 2 ^ (32 * n)
      \<and> p * 2 ^ (32 * n) < (a * 2 ^ 32 + uint k + 1) ^ n) [1..6]"

definition fips_sha256 :: "u8 list \<Rightarrow> u8 list" where
  "fips_sha256 msg = fips_digest (fips_pad msg (of_nat (8 * length msg)))"

section \<open>The transformation is the compression function\<close>

lemma ROTRIGHT_rotr:
  assumes "0 < b" "b < 32"
  shows "ROTRIGHT a b = word_rotr b a"
proof (rule bit_word_eqI)
  fix n assume "n < LENGTH(32)"
  then have n: "n < 32" by simp
  show "bit (ROTRIGHT a b) n = bit (word_rotr b a) n"
  proof (cases "n + b < 32")
    case True
    then have "bit (word_rotr b a) n = bit a (n + b)" using n by (simp add: bit_word_rotr_iff)
    moreover have "\<not> 32 - b \<le> n" using True by simp
    ultimately show ?thesis using n by (simp add: ROTRIGHT_def bit_simps add.commute)
  next
    case False
    then have "(n + b) mod 32 = n - (32 - b)" using n assms
      by (simp add: mod_if) 
    then have "bit (word_rotr b a) n = bit a (n - (32 - b))" using n by (simp add: bit_word_rotr_iff)
    moreover have "\<not> bit a (b + n)" using False bit_imp_le_length[of a "b + n"] by auto
    ultimately show ?thesis using n False by (auto simp: ROTRIGHT_def bit_simps)
  qed
qed

lemma macros_fips: "EP0 = fips_Sigma0" "EP1 = fips_Sigma1" "SIG0 = fips_sigma0" "SIG1 = fips_sigma1"
  "CH = fips_Ch" "MAJ = fips_Maj"
  by (simp_all add: fun_eq_iff EP0_def EP1_def SIG0_def SIG1_def CH_def MAJ_def fips_Sigma0_def fips_Sigma1_def
      fips_sigma0_def fips_sigma1_def fips_Ch_def fips_Maj_def ROTRIGHT_rotr)

lemma or_bytes_be32:
  fixes a b c d :: u8
  shows "push_bit 24 (ucast a) OR push_bit 16 (ucast b) OR push_bit 8 (ucast c) OR ucast d = be32 [a, b, c, d]"
proof -
  have shift: "w * 256 + ucast x = push_bit 8 w OR ucast x" for w :: u32 and x :: u8
  proof -
    have "push_bit 8 w + ucast x = push_bit 8 w OR (ucast x :: u32)"
      by (rule disjunctive_add) (auto simp: bit_simps dest: bit_imp_le_length)
    then show ?thesis by (simp add: push_bit_eq_mult)
  qed
  show ?thesis unfolding be32_def
    by (simp add: shift push_bit_or or.assoc)
qed

lemma load_words_append:
  "load_words n data j m = m @ map (\<lambda>i. be32 [data ! (j + 4 * i), data ! (j + 4 * i + 1), data ! (j + 4 * i + 2), data ! (j + 4 * i + 3)]) [0..<n]"
proof (induction n arbitrary: j m)
  case (Suc n)
  show ?case unfolding load_words.simps or_bytes_be32 Suc.IH upt_conv_Cons[OF zero_less_Suc] map_Suc_upt[symmetric]
    by (simp add: algebra_simps)
qed simp

lemma load_words_fips:
  assumes "64 \<le> length data"
  shows "load_words 16 data 0 [] = map (fips_W data) [0..<16]"
proof -
  have "be32 [data ! (4 * i), data ! (4 * i + 1), data ! (4 * i + 2), data ! (4 * i + 3)] = fips_W data i"
    if "i < 16" for i
  proof -
    have "4 * i < length data" "4 * i + 1 < length data" "4 * i + 2 < length data" "4 * i + 3 < length data"
      using that assms by simp_all
    then have "take 4 (drop (4 * i) data) = [data ! (4 * i), data ! (4 * i + 1), data ! (4 * i + 2), data ! (4 * i + 3)]"
      by (simp add: Cons_nth_drop_Suc[symmetric] eval_nat_numeral)
    then show ?thesis using that by (simp add: fips_W.simps[of data i])
  qed
  then show ?thesis unfolding load_words_append by simp
qed

lemma expand_words_fips:
  assumes "16 \<le> k"
  shows "expand_words n (map (fips_W M) [0..<k]) = map (fips_W M) [0..<k + n]"
  using assms
proof (induction n arbitrary: k)
  case (Suc n)
  let ?m = "map (fips_W M) [0..<k]"
  have "SIG1 (?m ! (k - 2)) + ?m ! (k - 7) + SIG0 (?m ! (k - 15)) + ?m ! (k - 16) = fips_W M k"
    using Suc.prems by (simp add: fips_W.simps[of M k] macros_fips)
  then have "expand_words (Suc n) ?m = expand_words n (map (fips_W M) [0..<Suc k])"
    by (simp add: Let_def)
  with Suc.IH[of "Suc k"] Suc.prems show ?case by simp
qed simp

lemma sha_regs_cases:
  obtains a b c d e f g h where "(r :: sha_regs) = (a, b, c, d, e, f, g, h)"
  by (cases r) auto

lemma sha_round_fips:
  assumes "i < 64"
  shows "sha_round (map (fips_W M) [0..<64]) i r = fips_round (fips_W M) i r"
  using assms by (cases r rule: sha_regs_cases) (simp add: macros_fips Let_def del: upt_rec_numeral)

lemma transform_fips:
  assumes "64 \<le> length data"
  shows "sha256_transform data r = fips_compress data r"
proof -
  have m: "expand_words 48 (load_words 16 data 0 []) = map (fips_W data) [0..<64]"
    using assms by (simp add: load_words_fips expand_words_fips del: upt_rec_numeral)
  have "fold (sha_round (map (fips_W data) [0..<64])) [0..<64] r = fold (fips_round (fips_W data)) [0..<64] r"
    by (rule fold_cong) (simp_all add: sha_round_fips fun_eq_iff del: upt_rec_numeral sha_round.simps fips_round.simps)
  then show ?thesis
    by (cases r rule: sha_regs_cases) (auto simp: m fips_compress_def Let_def simp del: upt_rec_numeral fold.simps split: prod.splits)
qed

lemma fips_W_cong:
  assumes "take 64 M = take 64 N"
  shows "fips_W M t = fips_W N t"
proof (induction t rule: less_induct)
  case (less t)
  show ?case
  proof (cases "t < 16")
    case True
    have "take 4 (drop (4 * t) X) = take 4 (drop (4 * t) (take 64 X))" for X :: "u8 list"
      using True by (simp add: drop_take min_def)
    then have "take 4 (drop (4 * t) M) = take 4 (drop (4 * t) N)" using assms by metis
    then show ?thesis using True by (simp add: fips_W.simps)
  next
    case False
    then show ?thesis using less by (simp add: fips_W.simps[of _ t])
  qed
qed

lemma compress_take: "fips_compress (take 64 M) = fips_compress M"
proof -
  have "fips_W (take 64 M) = fips_W M" by (rule ext, rule fips_W_cong) simp
  then show ?thesis by (intro ext) (simp only: fips_compress_def)
qed

section \<open>Filling the buffer\<close>

lemma copy_in_value:
  "i + n \<le> length buf \<Longrightarrow> copy_in n mem p i buf = take i buf @ rd mem p n @ drop (i + n) buf"
proof (induction n arbitrary: i p buf)
  case (Suc n)
  then show ?case
    by (simp add: rd_Suc take_Suc_conv_app_nth upd_conv_take_nth_drop add.commute)
qed simp

lemma zero_fill_value:
  "i + n \<le> length buf \<Longrightarrow> zero_fill n i buf = take i buf @ replicate n 0 @ drop (i + n) buf"
proof (induction n arbitrary: i buf)
  case (Suc n)
  then show ?case
    by (simp add: take_Suc_conv_app_nth upd_conv_take_nth_drop add.commute)
qed simp

lemma put_bitlen_value:
  assumes "64 \<le> length buf"
  shows "put_bitlen bitlen buf = take 56 buf @ bytes_be 8 bitlen @ drop 64 buf"
proof (rule nth_equalityI)
  show "length (put_bitlen bitlen buf) = length (take 56 buf @ bytes_be 8 bitlen @ drop 64 buf)"
    using assms by (simp add: put_bitlen_def bytes_be_def)
  fix i assume i: "i < length (put_bitlen bitlen buf)"
  consider "i < 56" | "i = 56" | "i = 57" | "i = 58" | "i = 59" | "i = 60" | "i = 61" | "i = 62" | "i = 63" | "64 \<le> i"
    by linarith
  then show "put_bitlen bitlen buf ! i = (take 56 buf @ bytes_be 8 bitlen @ drop 64 buf) ! i"
    using assms i by cases (auto simp: put_bitlen_def bytes_be_def nth_append nth_list_update)
qed

lemma put_bitlen_append:
  "length x = 56 \<Longrightarrow> 8 \<le> length y \<Longrightarrow> put_bitlen bitlen (x @ y) = x @ bytes_be 8 bitlen @ drop 8 y"
  using put_bitlen_value[of "x @ y"] by simp

lemma byte_mask: "ucast (w AND 0x000000ff :: u32) = (ucast w :: u8)"
proof (rule bit_word_eqI)
  fix n assume "n < LENGTH(8)"
  then have "n < 8" by simp
  then have "bit (mask 8 :: u32) n" by (simp add: bit_mask_iff)
  then show "bit (ucast (w AND 0x000000ff) :: u8) n = bit (ucast w :: u8) n"
    by (simp add: bit_simps mask_numeral)
qed

lemma put_hash_value:
  assumes "32 \<le> length hash"
  shows "fold (put_hash r) [0..<4] hash = regs_bytes r @ drop 32 hash"
proof -
  obtain a b c d e f g h where r: "r = (a, b, c, d, e, f, g, h)" by (rule sha_regs_cases)
  define H where "H = (\<lambda>i. take 32 hash ! i)"
  have "take 32 hash = map H [0..<32]"
    by (rule nth_equalityI) (use assms in \<open>simp_all add: H_def\<close>)
  then have hash: "hash = map H [0..<32] @ drop 32 hash" by (metis append_take_drop_id)
  have idx: "[0..<32] = [0, 1, 2, 3, 4, 5, 6, 7, 8, 9, 10, 11, 12, 13, 14, 15, 16, 17, 18, 19, 20, 21, 22, 23, 24, 25, 26, 27, 28, 29, 30, 31 :: nat]"
    by code_simp
  have four: "[0..<4] = [0, 1, 2, 3 :: nat]" by (simp add: upt_rec)
  show ?thesis
    by (subst hash) (simp add: four r byte_mask bytes_be_def idx)
qed

section \<open>Blocks\<close>

lemma fips_blocks_Nil [simp]: "fips_blocks [] = []"
  by (simp add: fips_blocks.simps)

lemma fips_blocks_append: "length x = 64 \<Longrightarrow> fips_blocks (x @ y) = x # fips_blocks y"
  by (subst fips_blocks.simps) auto

lemma fips_blocks_single: "length x = 64 \<Longrightarrow> fips_blocks x = [x]"
  using fips_blocks_append[of x "[]"] by simp

lemma fips_blocks_rd: "fips_blocks (rd mem p (64 * q) @ y) = fips_blocks (rd mem p (64 * q)) @ fips_blocks y"
proof (induction q arbitrary: p)
  case (Suc q)
  have "rd mem p (64 * Suc q) = rd mem p 64 @ rd mem (p + 64) (64 * q)"
    using rd_add[of mem p 64 "64 * q"] by simp
  then show ?case by (simp add: fips_blocks_append Suc.IH)
qed simp

lemma block_loop_value:
  assumes "64 \<le> length buf" "q = unat (len - off) div 64"
  shows "\<exists>buf'. length buf' = length buf \<and> block_loop mem len p off buf r =
    (buf', fold fips_compress (fips_blocks (rd mem p (64 * q))) r, p + of_nat (64 * q), off + of_nat (64 * q))"
  using assms
proof (induction mem len p off buf r arbitrary: q rule: block_loop.induct)
  case (1 mem len p off buf r)
  show ?case
  proof (cases "64 \<le> len - off")
    case True
    have "unat (len - (off + 64)) = unat (len - off) - 64"
      using True by (simp add: diff_diff_eq[symmetric] unat_sub)
    moreover have "64 \<le> unat (len - off)" using True by (simp add: word_le_nat_alt)
    ultimately have q': "q = Suc (unat (len - (off + 64)) div 64)"
      using "1.prems"(2) le_div_geq[of 64 "unat (len - off)"] by simp
    then obtain k where q: "q = Suc k" "k = unat (len - (off + 64)) div 64" by blast
    let ?b = "copy_in 64 mem p 0 buf"
    have b: "?b = rd mem p 64 @ drop 64 buf" using copy_in_value[of 0 64 buf mem p] "1.prems"(1) by simp
    then have l: "length ?b = length buf" "64 \<le> length ?b" using "1.prems"(1) by simp_all
    have tr: "sha256_transform ?b r = fips_compress (rd mem p 64) r"
      using transform_fips[OF l(2)] compress_take[of ?b] by (simp add: b)
    have rds: "rd mem p (64 * Suc k) = rd mem p 64 @ rd mem (p + 64) (64 * k)"
      using rd_add[of mem p 64 "64 * k"] by simp
    obtain buf' where "length buf' = length ?b" "block_loop mem len (p + 64) (off + 64) ?b (sha256_transform ?b r) =
        (buf', fold fips_compress (fips_blocks (rd mem (p + 64) (64 * k))) (sha256_transform ?b r),
         p + 64 + of_nat (64 * k), off + 64 + of_nat (64 * k))"
      using "1.IH"[OF True refl l(2) q(2)] by blast
    then show ?thesis
      by (subst block_loop.simps)
        (simp add: True q(1) rds fips_blocks_append tr l add.assoc del: mult_Suc_right)
  next
    case False
    then have "unat (len - off) < 64" by (simp add: word_le_nat_alt)
    then have "q = 0" using "1.prems"(2) by simp
    then show ?thesis using False by (subst block_loop.simps) simp
  qed
qed

section \<open>The hash\<close>

lemma hash_tail:
  assumes "length buf = 256" "r < 64" "length m = r" "length L = 8"
  shows "fold fips_compress (fips_blocks (m @ [0x80] @ replicate (nat ((55 - int (64 * q + r)) mod 64)) 0 @ L)) R =
    (if r < 56 then fips_compress (m @ [0x80] @ replicate (55 - r) 0 @ L) R
     else fips_compress (replicate 56 0 @ L) (fips_compress (m @ [0x80] @ replicate (63 - r) 0) R))"
proof -
  have z: "nat ((55 - int (64 * q + r)) mod 64) = (if r < 56 then 55 - r else 56 + (63 - r))"
  proof -
    have "(55 - int (64 * q + r)) mod 64 = (55 - int r + (- int q) * 64) mod 64" by (simp add: algebra_simps)
    also have "\<dots> = (55 - int r) mod 64" by (rule mod_mult_self1)
    also have "\<dots> = (if r < 56 then 55 - int r else 119 - int r)"
    proof (cases "r < 56")
      case False
      have e: "119 - int r = 55 - int r + 64" by simp
      have "(55 - int r) mod 64 = (119 - int r) mod 64" unfolding e mod_add_self2 ..
      also have "\<dots> = 119 - int r" using False assms(2) by (simp add: mod_pos_pos_trivial)
      finally show ?thesis using False by simp
    qed (simp add: mod_pos_pos_trivial)
    finally show ?thesis using assms(2) by auto
  qed
  show ?thesis
  proof (cases "r < 56")
    case True
    then have "length (m @ [0x80] @ replicate (55 - r) 0 @ L) = 64" using assms by simp
    then show ?thesis unfolding z using True by (simp add: fips_blocks_single)
  next
    case False
    let ?x = "m @ [0x80] @ replicate (63 - r) 0"
    have e: "m @ [0x80] @ replicate (56 + (63 - r)) 0 @ L = ?x @ replicate 56 0 @ L"
      by (simp add: replicate_add[symmetric] add.commute)
    have "length ?x = 64" "length (replicate 56 0 @ L) = 64" using assms False by simp_all
    then show ?thesis unfolding z using False
      by (simp only: e if_False fips_blocks_append fips_blocks_single fold.simps o_apply id_apply)
  qed
qed

lemma sha256_value:
  assumes "length buf = 256" "32 \<le> length hash"
    and q: "q = unat len div 64" and r: "r = unat len mod 64"
  shows "sha256 mem data len buf hash =
    fips_digest (fips_pad (rd mem data (64 * q) @ rd mem (data + of_nat (128 * q)) r) (ucast (push_bit 3 len)))
    @ drop 32 hash"
proof -
  let ?L = "bytes_be 8 (ucast (push_bit 3 len) :: u64)"
  let ?m = "rd mem (data + of_nat (128 * q)) r"
  let ?z = "replicate (nat ((55 - int (64 * q + r)) mod 64)) 0 :: u8 list"
  define R where "R = fold fips_compress (fips_blocks (rd mem data (64 * q))) sha_init"
  obtain b where b: "length b = 256" "block_loop mem len data 0 buf sha_init =
      (b, R, data + of_nat (64 * q), of_nat (64 * q))"
    using block_loop_value[of buf q len 0 mem data sha_init] q assms(1) by (auto simp: R_def)
  have pd: "data + of_nat (64 * q) + of_nat (64 * q) = data + of_nat (128 * q)"
    by simp
  have r64: "r < 64" by (simp add: r)
  have "unat len = 64 * q + r" using q r by simp
  then have len: "len - of_nat (64 * q) = of_nat r"
    using word_minus_of_nat[of len "64 * q" r] by simp
  have ur: "unat (of_nat r :: u32) = r" using r64 by (simp add: unat_of_nat32)
  then have lt: "(of_nat r :: u32) < 56 \<longleftrightarrow> r < 56" by (simp add: word_less_nat_alt)
  define c where "c = copy_in r mem (data + of_nat (128 * q)) 0 b"
  have c: "c = ?m @ drop r b" "length c = 256"
    using copy_in_value[of 0 r b mem "data + of_nat (128 * q)"] b(1) r64 by (simp_all add: c_def)
  have cr: "c[r := 0x80] = ?m @ 0x80 # drop (Suc r) b" if "r < 256"
    using that b(1) by (simp add: c(1) list_update_append Cons_nth_drop_Suc[symmetric])
  have L: "length ?L = 8" by (simp add: bytes_be_def)
  have comp: "sha256_transform (x @ y) S = fips_compress x S" if "length x = 64" for x y S
    using that transform_fips[of "x @ y" S] compress_take[of "x @ y"] by simp
  have "sha256 mem data len buf hash =
      fold (put_hash (if r < 56 then fips_compress (?m @ [0x80] @ replicate (55 - r) 0 @ ?L) R
     else fips_compress (replicate 56 0 @ ?L) (fips_compress (?m @ [0x80] @ replicate (63 - r) 0) R))) [0..<4] hash"
  proof (cases "r < 56")
    case True
    have "zero_fill (56 - (r + 1)) (r + 1) (c[r := 0x80]) = (?m @ [0x80] @ replicate (55 - r) 0) @ drop 56 b"
      using zero_fill_value[of "r + 1" "56 - (r + 1)" "c[r := 0x80]"] True c(2) cr b(1)
      by (simp add: drop_Cons')
    then have p: "put_bitlen (ucast (push_bit 3 len)) (zero_fill (56 - (r + 1)) (r + 1) (c[r := 0x80])) =
        (?m @ [0x80] @ replicate (55 - r) 0 @ ?L) @ drop 64 b"
      using put_bitlen_append[of "?m @ [0x80] @ replicate (55 - r) 0" "drop 56 b"] True b(1) by simp
    have l: "length (?m @ [0x80] @ replicate (55 - r) 0 @ ?L) = 64" using True L by simp
    show ?thesis
      unfolding sha256_def b(2) Let_def prod.case pd len ur lt c_def[symmetric] p comp[OF l] using True
      by (simp only: if_True prod.case p comp[OF l])
  next
    case False
    have z: "zero_fill (64 - (r + 1)) (r + 1) (c[r := 0x80]) = (?m @ [0x80] @ replicate (63 - r) 0) @ drop 64 b"
      using zero_fill_value[of "r + 1" "64 - (r + 1)" "c[r := 0x80]"] False r64 c(2) cr b(1)
      by (simp add: drop_Cons')
    have l: "length (?m @ [0x80] @ replicate (63 - r) 0) = 64" "length (replicate 56 0 @ ?L) = 64"
      using False r64 L by simp_all
    have p: "put_bitlen (ucast (push_bit 3 len)) (zero_fill 56 0 (X @ drop 64 b)) = (replicate 56 0 @ ?L) @ drop 64 b"
      if X: "length X = 64" for X
    proof -
      have "zero_fill 56 0 (X @ drop 64 b) = replicate 56 0 @ (drop 56 X @ drop 64 b)"
        using zero_fill_value[of 0 56 "X @ drop 64 b"] X b(1) by simp
      then show ?thesis
        using put_bitlen_append[of "replicate 56 0" "drop 56 X @ drop 64 b" "ucast (push_bit 3 len)"] X b(1) by simp
    qed
    show ?thesis
      unfolding sha256_def b(2) Let_def prod.case pd len ur lt c_def[symmetric] using False
      by (simp only: if_False prod.case z p[OF l(1)] comp[OF l(1)] comp[OF l(2)])
  qed
  also have "\<dots> = regs_bytes (fold fips_compress (fips_blocks (?m @ [0x80] @ ?z @ ?L)) R) @ drop 32 hash"
    unfolding put_hash_value[OF assms(2)] hash_tail[OF b(1) r64 length_rd L] ..
  also have "\<dots> = fips_digest (fips_pad (rd mem data (64 * q) @ ?m) (ucast (push_bit 3 len))) @ drop 32 hash"
    by (simp add: fips_digest_def fips_pad_def fips_blocks_rd R_def)
  finally show ?thesis .
qed

text \<open>The messages the driver hashes.\<close>

fun main_messages :: "mem \<Rightarrow> u32 \<Rightarrow> u32 list \<Rightarrow> u8 list list" where
  "main_messages mem start (len # lens) =
     rd mem start (unat len) # main_messages mem (start + rounded_up len) lens"
| "main_messages mem start [] = []"

lemma sha256_whole:
  assumes "length buf = 256" "32 \<le> length hash" "unat len < 64 \<or> 64 dvd unat len" "unat len < 2 ^ 29"
  shows "sha256 mem data len buf hash = fips_sha256 (rd mem data (unat len)) @ drop 32 hash"
proof -
  let ?q = "unat len div 64" and ?r = "unat len mod 64"
  have m: "rd mem data (64 * ?q) @ rd mem (data + of_nat (128 * ?q)) ?r = rd mem data (unat len)"
    using assms(3)
  proof
    assume "unat len < 64"
    then show ?thesis by simp
  next
    assume "64 dvd unat len"
    then show ?thesis by auto
  qed
  have "unat (push_bit 3 len) = 8 * unat len"
    using assms(4) by (simp add: unat_push_bit_mod)
  then have "unat (ucast (push_bit 3 len) :: u64) = 8 * unat len"
    using assms(4) by (simp add: unsigned_ucast_eq take_bit_nat_eq_self)
  moreover have "unat (of_nat (8 * unat len) :: u64) = 8 * unat len"
    by (rule unat_of_nat_lt) (use assms(4) in simp)
  ultimately have "(ucast (push_bit 3 len) :: u64) = of_nat (8 * unat len)"
    by (simp only: word_unat_eq_iff)
  then show ?thesis
    unfolding sha256_value[OF assms(1,2) refl refl] m fips_sha256_def by simp
qed

lemma cmp_hash_zero:
  "n \<le> length a \<Longrightarrow> n \<le> length b \<Longrightarrow> cmp_hash a b n = 0 \<longleftrightarrow> take n a = take n b"
proof (induction n)
  case (Suc n)
  have "x AND 0xff = x" for x :: u8 
  proof -
    have "(0xff :: u8) = - 1" by simp
    then show ?thesis by (simp only: and.right_neutral)
  qed
  then show ?case using Suc by (simp add: take_Suc_conv_app_nth)
qed simp

lemma first_primes_value:
  "first_primes =
    [2, 3, 5, 7, 11, 13, 17, 19, 23, 29, 31, 37, 41, 43, 47, 53, 59, 61, 67, 71, 73, 79, 83, 89,
     97, 101, 103, 107, 109, 113, 127, 131, 137, 139, 149, 151, 157, 163, 167, 173, 179, 181, 191,
     193, 197, 199, 211, 223, 227, 229, 233, 239, 241, 251, 257, 263, 269, 271, 277, 281, 283, 293,
     307, 311]"
  by code_simp

fun regs_list :: "sha_regs \<Rightarrow> u32 list" where
  "regs_list (a, b, c, d, e, f, g, h) = [a, b, c, d, e, f, g, h]"

section \<open>Properties\<close>

text \<open>C5: For every message of less than 64 bytes, and for every longer one whose length is a
  multiple of 64 and below \<open>2\<^sup>2\<^sup>9\<close>, \<open>sha256\<close> stores the digest of FIPS 180-4 in the first 32 bytes
  of the output and leaves the rest of the output alone, whatever the local buffer held.\<close>

theorem sha256_standard:
  assumes "length buf = 256" "32 \<le> length hash" "unat len < 64 \<or> 64 dvd unat len" "unat len < 2 ^ 29"
  shows "sha256 mem data len buf hash = fips_sha256 (rd mem data (unat len)) @ drop 32 hash"
  by (rule sha256_whole[OF assms])

theorem sha256_standard_witness:
  "sha256 (\<lambda>_. 0x61) 1000 3 (replicate 256 0) (replicate 32 0) = fips_sha256 [0x61, 0x61, 0x61]"
proof -
  have "rd (\<lambda>_. 0x61) 1000 (unat (3 :: u32)) = [0x61, 0x61, 0x61]"
    by (simp add: rd_def upt_rec)
  then show ?thesis
    using sha256_standard[of "replicate 256 0" "replicate 32 0" 3 "\<lambda>_. 0x61" 1000] by simp
qed

text \<open>C6: What \<open>sha256\<close> hashes in general: the full blocks of the message, then as many bytes as
  remain, but read from twice the offset of the last block (\<open>pdata += block_offset\<close> moves a pointer
  the copy loop has moved already), and the length field holds the bit count modulo \<open>2\<^sup>3\<^sup>2\<close>
  (\<open>len << 3\<close> is computed in 32 bits).\<close>

theorem sha256_hashed_message:
  assumes "length buf = 256" "32 \<le> length hash"
  shows "sha256 mem data len buf hash =
    fips_digest (fips_pad
        (rd mem data (64 * (unat len div 64)) @ rd mem (data + of_nat (128 * (unat len div 64))) (unat len mod 64))
        (of_nat (8 * unat len mod 2 ^ 32)))
    @ drop 32 hash"
proof -
  have "unat (push_bit 3 len) = 8 * unat len mod 2 ^ 32"
    using unat_push_bit_mod[of 3 len] by (simp add: mult.commute)
  then have "unat (ucast (push_bit 3 len) :: u64) = unat (of_nat (8 * unat len mod 2 ^ 32) :: u64)"
    by (subst unat_of_nat_lt) (simp_all add: unsigned_ucast_eq take_bit_nat_eq_self)
  then have l: "(ucast (push_bit 3 len) :: u64) = of_nat (8 * unat len mod 2 ^ 32)"
    by (simp only: word_unat_eq_iff)
  show ?thesis unfolding sha256_value[OF assms refl refl] l ..
qed

theorem sha256_hashed_message_witness:
  "sha256 (\<lambda>a. ucast a) 0 65 (replicate 256 0) (replicate 32 0) =
     fips_digest (fips_pad (rd (\<lambda>a. ucast a) 0 64 @ [128]) 520)"
proof -
  have "rd (\<lambda>a. ucast a) 128 (Suc 0) = [128 :: u8]" by (simp add: rd_def)
  then show ?thesis
    using sha256_hashed_message[of "replicate 256 0" "replicate 32 0" "\<lambda>a. ucast a" 0 65] by simp
qed

text \<open>Two messages of the same length of more than one block that differ only after their last
  full block get the same hash: the code does not read those bytes at all.\<close>

lemma sha256_tail_unread:
  assumes "length buf = 256" "32 \<le> length hash" "64 \<le> unat len" "unat len < 2 ^ 31"
    and "length tail = unat len mod 64"
  shows "sha256 (wr mem (data + of_nat (64 * (unat len div 64))) tail) data len buf hash
       = sha256 mem data len buf hash"
proof -
  let ?q = "unat len div 64" and ?r = "unat len mod 64"
  let ?w = "wr mem (data + of_nat (64 * ?q)) tail"
  have q: "1 \<le> ?q" "64 * ?q + ?r < 2 ^ 31" "?r < 64" using assms(3,4) by simp_all
  have "?r \<le> unat (data + of_nat i - (data + of_nat (64 * ?q)))" if i: "i < 64 * ?q" for i
  proof -
    have "unat (of_nat (2 ^ 32 - 64 * ?q + i) :: u32) = 2 ^ 32 - 64 * ?q + i"
      by (rule unat_of_nat_lt) (use q(1,2) i in simp)
    moreover have "(of_nat (2 ^ 32 - 64 * ?q + i) :: u32) = of_nat i - of_nat (64 * ?q)"
      using q(2) by (simp add: of_nat_diff)
    ultimately have "unat (of_nat i - of_nat (64 * ?q) :: u32) = 2 ^ 32 - 64 * ?q + i"
      by (simp only:)
    then show ?thesis using q by simp
  qed
  then have 1: "rd ?w data (64 * ?q) = rd mem data (64 * ?q)"
    by (intro rd_wr_disjoint) (simp add: assms(5))
  have "?r \<le> unat (data + of_nat (128 * ?q) + of_nat i - (data + of_nat (64 * ?q)))" if i: "i < ?r" for i
  proof -
    have "unat (of_nat (64 * ?q + i) :: u32) = 64 * ?q + i"
      by (rule unat_of_nat_lt) (use q(1,2) i in simp)
    moreover have "(of_nat (64 * ?q + i) :: u32) = data + of_nat (128 * ?q) + of_nat i - (data + of_nat (64 * ?q))"
      by simp
    ultimately have "unat (data + of_nat (128 * ?q) + of_nat i - (data + of_nat (64 * ?q)) :: u32) = 64 * ?q + i"
      by (simp only:)
    then show ?thesis using q by simp
  qed
  then have 2: "rd ?w (data + of_nat (128 * ?q)) ?r = rd mem (data + of_nat (128 * ?q)) ?r"
    by (intro rd_wr_disjoint) (simp add: assms(5))
  show ?thesis unfolding sha256_value[OF assms(1,2) refl refl] 1 2 ..
qed

text \<open>The round constants the simulator loads and the initial chaining values of the code are
  the root fractions the standard defines.\<close>

lemma sha_constants_standard:
  "list_all2 (root_fraction 3) first_primes sha_k
   \<and> list_all2 (root_fraction 2) (take 8 first_primes) (regs_list sha_init)"
proof
  show "list_all2 (root_fraction 3) first_primes sha_k"
    unfolding first_primes_value by code_simp
  show "list_all2 (root_fraction 2) (take 8 first_primes) (regs_list sha_init)"
    unfolding first_primes_value by code_simp
qed

lemma count_correct_filter:
  "length hs = length es \<Longrightarrow>
     count_correct hs es n = n + length (filter (\<lambda>(h, e). cmp_hash h e 32 = 0) (zip hs es))"
  by (induction hs es arbitrary: n rule: list_induct2) simp_all

lemma main_hashes_messages:
  assumes "\<forall>(buf, hash) \<in> set stack. length buf = 256 \<and> length hash = 32" "length stack = length lens"
    "\<forall>len \<in> set lens. (unat len < 64 \<or> 64 dvd unat len) \<and> unat len < 2 ^ 29"
  shows "main_hashes mem start lens stack = map fips_sha256 (main_messages mem start lens)"
  using assms
proof (induction mem start lens stack rule: main_hashes.induct)
  case (1 mem start len lens buf hash stack)
  then show ?case using sha256_whole[of buf hash len mem start] by simp
qed simp_all

lemma length_main_messages [simp]: "length (main_messages mem start lens) = length lens"
  by (induction mem start lens rule: main_messages.induct) simp_all

lemma length_regs_bytes [simp]: "length (regs_bytes r) = 32"
  by (cases r rule: sha_regs_cases) (simp add: bytes_be_def)

lemma length_fips_sha256 [simp]: "length (fips_sha256 m) = 32"
  by (simp add: fips_sha256_def fips_digest_def)

text \<open>What the comments in \<open>main\<close> say the messages are.\<close>

definition sha_texts :: "string list" where
  "sha_texts =
    ['''', ''a'', ''abc'', ''message digest'', ''abcdefghijklmnopqrstuvwxyz'',
     ''abcdbcdecdefdefgefghfghighijhijkijkljklmklmnlmnomnopnopq'',
     ''abcdbcdecdefdefgefghfghighijhijkijkljklmklmnlmnomnopnopqabcdabcd'']"

definition text_digest :: "string \<Rightarrow> u8 list" where
  "text_digest t = fips_sha256 (map of_char t)"

lemma rd_slice:
  assumes "k + n \<le> m"
  shows "rd mem (start + of_nat k) n = take n (drop k (rd mem start m))"
  by (rule nth_equalityI) (use assms in \<open>simp_all add: add.assoc\<close>)

text \<open>The messages the driver reads are these texts.\<close>

lemma main_messages_texts:
  assumes "rd mem start 172 = sha_input"
  shows "main_messages mem start sha_input_lengths = map (map of_char) sha_texts"
proof -
  have r: "rounded_up 0x0 = 0" "rounded_up 0x1 = 4" "rounded_up 0x3 = 4" "rounded_up 0xe = 16" "rounded_up 0x1a = 28"
    "rounded_up 0x38 = 56"
    by (simp_all add: rounded_up_def signed_divide_int_def)
  have m: "rd mem (start + of_nat k) n = take n (drop k sha_input)" if "k + n \<le> 172" for k n
    using rd_slice[OF that, of mem start] assms by simp
  have "main_messages mem start sha_input_lengths =
      [rd mem (start + of_nat 0) 0, rd mem (start + of_nat 0) 1, rd mem (start + of_nat 4) 3, rd mem (start + of_nat 8) 14,
       rd mem (start + of_nat 24) 26, rd mem (start + of_nat 52) 56, rd mem (start + of_nat 108) 64]"
    by (simp add: sha_input_lengths_def r add.assoc)
  also have "\<dots> = [take 0 (drop 0 sha_input), take 1 (drop 0 sha_input), take 3 (drop 4 sha_input), take 14 (drop 8 sha_input),
       take 26 (drop 24 sha_input), take 56 (drop 52 sha_input), take 64 (drop 108 sha_input)]"
    by (subst m, simp)+ (rule refl)
  also have "\<dots> = map (map of_char) sha_texts"
    by (simp add: sha_input_def sha_texts_def)
  finally show ?thesis .
qed

text \<open>C31: With the input file in memory, the driver hashes exactly the seven texts its comments name, and counts as correct
  those whose expected hash is the digest of FIPS 180-4 of the text.\<close>

theorem driver_counts_standard_digests:
  assumes "\<forall>(buf, hash) \<in> set stack. length buf = 256 \<and> length hash = 32" "length stack = 7"
    and "length expected = 7" "\<forall>e \<in> set expected. length e = 32" "rd mem start 172 = sha_input"
  shows "main_hashes mem start sha_input_lengths stack = map text_digest sha_texts \<and>
    count_correct (main_hashes mem start sha_input_lengths stack) expected 0
     = length (filter (\<lambda>(t, e). text_digest t = e) (zip sha_texts expected))"
proof -
  have l: "length sha_input_lengths = 7" "length sha_texts = 7" by (simp_all add: sha_input_lengths_def sha_texts_def)
  have "main_hashes mem start sha_input_lengths stack = map fips_sha256 (main_messages mem start sha_input_lengths)"
    by (rule main_hashes_messages) (use assms l in \<open>simp_all add: sha_input_lengths_def\<close>)
  then have h: "main_hashes mem start sha_input_lengths stack = map text_digest sha_texts"
    unfolding main_messages_texts[OF assms(5)] by (simp add: text_digest_def comp_def)
  moreover have "length (filter (\<lambda>(h, e). cmp_hash h e 32 = 0) (zip (map text_digest ts) es))
      = length (filter (\<lambda>(t, e). text_digest t = e) (zip ts es))"
    if "\<forall>e \<in> set es. length e = 32" "length ts = length es" for ts es
    using that(2,1)
    by (induction ts es rule: list_induct2) (simp_all add: cmp_hash_zero text_digest_def)
  ultimately show ?thesis using assms l by (simp add: count_correct_filter)
qed

theorem driver_counts_standard_digests_witness:
  "count_correct (main_hashes (wr (\<lambda>_. 0) 1000 sha_input) 1000 sha_input_lengths (replicate 7 (replicate 256 0, replicate 32 0)))
      [text_digest '''', text_digest ''a'', text_digest ''abc'', text_digest ''message digest'',
       text_digest ''abcdefghijklmnopqrstuvwxyz'', text_digest ''abcdbcdecdefdefgefghfghighijhijkijkljklmklmnlmnomnopnopq'',
       text_digest ''abcdbcdecdefdefgefghfghighijhijkijkljklmklmnlmnomnopnopqabcdabcd''] 0 = 7"
proof -
  have "length sha_input = 172" by (simp add: sha_input_def)
  then have "rd (wr (\<lambda>_. 0) 1000 sha_input) 1000 172 = sha_input" using rd_wr[of sha_input "\<lambda>_. 0" 1000] by simp
  moreover have "length (text_digest t) = 32" for t by (simp add: text_digest_def)
  moreover have l: "length sha_texts = 7" by (simp add: sha_texts_def)
  ultimately have "count_correct (main_hashes (wr (\<lambda>_. 0) 1000 sha_input) 1000 sha_input_lengths
        (replicate 7 (replicate 256 0, replicate 32 0))) (map text_digest sha_texts) 0
      = length (filter (\<lambda>(t, e). text_digest t = e) (zip sha_texts (map text_digest sha_texts)))"
    by (intro driver_counts_standard_digests[THEN conjunct2]) simp_all
  also have "\<dots> = 7"
  proof -
    have "length (filter (\<lambda>(t, e). text_digest t = e) (zip ts (map text_digest ts))) = length ts" for ts
      by (induction ts) simp_all
    then show ?thesis by (simp only: l)
  qed
  finally show ?thesis unfolding sha_texts_def list.map .
qed

end
