(* ===== verification/AesTable.thy ===== *)
theory AesTable
  imports CPrelude
begin

text \<open>
  The lookup table \<open>Te0\<close> of \<^verbatim>\<open>applications/aes-256-gcm/aes-internal-enc.c\<close> and what its entries
  are: the S-box value of the index, multiplied by 2, 1, 1 and 3 in the field of FIPS 197.  The
  S-box is the table of that standard, and is checked to be the affine map of the field inverse.
\<close>

definition Te0 :: "u32 list" where
  "Te0 =
    [0xc66363a5, 0xf87c7c84, 0xee777799, 0xf67b7b8d, 0xfff2f20d, 0xd66b6bbd,
     0xde6f6fb1, 0x91c5c554, 0x60303050, 0x02010103, 0xce6767a9, 0x562b2b7d,
     0xe7fefe19, 0xb5d7d762, 0x4dababe6, 0xec76769a, 0x8fcaca45, 0x1f82829d,
     0x89c9c940, 0xfa7d7d87, 0xeffafa15, 0xb25959eb, 0x8e4747c9, 0xfbf0f00b,
     0x41adadec, 0xb3d4d467, 0x5fa2a2fd, 0x45afafea, 0x239c9cbf, 0x53a4a4f7,
     0xe4727296, 0x9bc0c05b, 0x75b7b7c2, 0xe1fdfd1c, 0x3d9393ae, 0x4c26266a,
     0x6c36365a, 0x7e3f3f41, 0xf5f7f702, 0x83cccc4f, 0x6834345c, 0x51a5a5f4,
     0xd1e5e534, 0xf9f1f108, 0xe2717193, 0xabd8d873, 0x62313153, 0x2a15153f,
     0x0804040c, 0x95c7c752, 0x46232365, 0x9dc3c35e, 0x30181828, 0x379696a1,
     0x0a05050f, 0x2f9a9ab5, 0x0e070709, 0x24121236, 0x1b80809b, 0xdfe2e23d,
     0xcdebeb26, 0x4e272769, 0x7fb2b2cd, 0xea75759f, 0x1209091b, 0x1d83839e,
     0x582c2c74, 0x341a1a2e, 0x361b1b2d, 0xdc6e6eb2, 0xb45a5aee, 0x5ba0a0fb,
     0xa45252f6, 0x763b3b4d, 0xb7d6d661, 0x7db3b3ce, 0x5229297b, 0xdde3e33e,
     0x5e2f2f71, 0x13848497, 0xa65353f5, 0xb9d1d168, 0x00000000, 0xc1eded2c,
     0x40202060, 0xe3fcfc1f, 0x79b1b1c8, 0xb65b5bed, 0xd46a6abe, 0x8dcbcb46,
     0x67bebed9, 0x7239394b, 0x944a4ade, 0x984c4cd4, 0xb05858e8, 0x85cfcf4a,
     0xbbd0d06b, 0xc5efef2a, 0x4faaaae5, 0xedfbfb16, 0x864343c5, 0x9a4d4dd7,
     0x66333355, 0x11858594, 0x8a4545cf, 0xe9f9f910, 0x04020206, 0xfe7f7f81,
     0xa05050f0, 0x783c3c44, 0x259f9fba, 0x4ba8a8e3, 0xa25151f3, 0x5da3a3fe,
     0x804040c0, 0x058f8f8a, 0x3f9292ad, 0x219d9dbc, 0x70383848, 0xf1f5f504,
     0x63bcbcdf, 0x77b6b6c1, 0xafdada75, 0x42212163, 0x20101030, 0xe5ffff1a,
     0xfdf3f30e, 0xbfd2d26d, 0x81cdcd4c, 0x180c0c14, 0x26131335, 0xc3ecec2f,
     0xbe5f5fe1, 0x359797a2, 0x884444cc, 0x2e171739, 0x93c4c457, 0x55a7a7f2,
     0xfc7e7e82, 0x7a3d3d47, 0xc86464ac, 0xba5d5de7, 0x3219192b, 0xe6737395,
     0xc06060a0, 0x19818198, 0x9e4f4fd1, 0xa3dcdc7f, 0x44222266, 0x542a2a7e,
     0x3b9090ab, 0x0b888883, 0x8c4646ca, 0xc7eeee29, 0x6bb8b8d3, 0x2814143c,
     0xa7dede79, 0xbc5e5ee2, 0x160b0b1d, 0xaddbdb76, 0xdbe0e03b, 0x64323256,
     0x743a3a4e, 0x140a0a1e, 0x924949db, 0x0c06060a, 0x4824246c, 0xb85c5ce4,
     0x9fc2c25d, 0xbdd3d36e, 0x43acacef, 0xc46262a6, 0x399191a8, 0x319595a4,
     0xd3e4e437, 0xf279798b, 0xd5e7e732, 0x8bc8c843, 0x6e373759, 0xda6d6db7,
     0x018d8d8c, 0xb1d5d564, 0x9c4e4ed2, 0x49a9a9e0, 0xd86c6cb4, 0xac5656fa,
     0xf3f4f407, 0xcfeaea25, 0xca6565af, 0xf47a7a8e, 0x47aeaee9, 0x10080818,
     0x6fbabad5, 0xf0787888, 0x4a25256f, 0x5c2e2e72, 0x381c1c24, 0x57a6a6f1,
     0x73b4b4c7, 0x97c6c651, 0xcbe8e823, 0xa1dddd7c, 0xe874749c, 0x3e1f1f21,
     0x964b4bdd, 0x61bdbddc, 0x0d8b8b86, 0x0f8a8a85, 0xe0707090, 0x7c3e3e42,
     0x71b5b5c4, 0xcc6666aa, 0x904848d8, 0x06030305, 0xf7f6f601, 0x1c0e0e12,
     0xc26161a3, 0x6a35355f, 0xae5757f9, 0x69b9b9d0, 0x17868691, 0x99c1c158,
     0x3a1d1d27, 0x279e9eb9, 0xd9e1e138, 0xebf8f813, 0x2b9898b3, 0x22111133,
     0xd26969bb, 0xa9d9d970, 0x078e8e89, 0x339494a7, 0x2d9b9bb6, 0x3c1e1e22,
     0x15878792, 0xc9e9e920, 0x87cece49, 0xaa5555ff, 0x50282878, 0xa5dfdf7a,
     0x038c8c8f, 0x59a1a1f8, 0x09898980, 0x1a0d0d17, 0x65bfbfda, 0xd7e6e631,
     0x844242c6, 0xd06868b8, 0x824141c3, 0x299999b0, 0x5a2d2d77, 0x1e0f0f11,
     0x7bb0b0cb, 0xa85454fc, 0x6dbbbbd6, 0x2c16163a]"

text \<open>The S-box of FIPS 197, figure 7.\<close>

definition sbox :: "u8 list" where
  "sbox =
    [99, 124, 119, 123, 242, 107, 111, 197, 48, 1, 103, 43, 254, 215, 171, 118,
     202, 130, 201, 125, 250, 89, 71, 240, 173, 212, 162, 175, 156, 164, 114, 192,
     183, 253, 147, 38, 54, 63, 247, 204, 52, 165, 229, 241, 113, 216, 49, 21,
     4, 199, 35, 195, 24, 150, 5, 154, 7, 18, 128, 226, 235, 39, 178, 117,
     9, 131, 44, 26, 27, 110, 90, 160, 82, 59, 214, 179, 41, 227, 47, 132,
     83, 209, 0, 237, 32, 252, 177, 91, 106, 203, 190, 57, 74, 76, 88, 207,
     208, 239, 170, 251, 67, 77, 51, 133, 69, 249, 2, 127, 80, 60, 159, 168,
     81, 163, 64, 143, 146, 157, 56, 245, 188, 182, 218, 33, 16, 255, 243, 210,
     205, 12, 19, 236, 95, 151, 68, 23, 196, 167, 126, 61, 100, 93, 25, 115,
     96, 129, 79, 220, 34, 42, 144, 136, 70, 238, 184, 20, 222, 94, 11, 219,
     224, 50, 58, 10, 73, 6, 36, 92, 194, 211, 172, 98, 145, 149, 228, 121,
     231, 200, 55, 109, 141, 213, 78, 169, 108, 86, 244, 234, 101, 122, 174, 8,
     186, 120, 37, 46, 28, 166, 180, 198, 232, 221, 116, 31, 75, 189, 139, 138,
     112, 62, 181, 102, 72, 3, 246, 14, 97, 53, 87, 185, 134, 193, 29, 158,
     225, 248, 152, 17, 105, 217, 142, 148, 155, 30, 135, 233, 206, 85, 40, 223,
     140, 161, 137, 13, 191, 230, 66, 104, 65, 153, 45, 15, 176, 84, 187, 22]"

section \<open>Words of four bytes\<close>

definition be4 :: "u8 \<Rightarrow> u8 \<Rightarrow> u8 \<Rightarrow> u8 \<Rightarrow> u32" where
  "be4 a b c d = push_bit 24 (ucast a) XOR push_bit 16 (ucast b) XOR push_bit 8 (ucast c) XOR ucast d"

lemma bit_be4:
  "bit (be4 a b c d) n \<longleftrightarrow>
     (if n < 8 then bit d n else if n < 16 then bit c (n - 8)
      else if n < 24 then bit b (n - 16) else n < 32 \<and> bit a (n - 24))"
  by (auto simp: be4_def bit_simps dest: bit_imp_le_length)

text \<open>Multiplication by \<open>x\<close> in the field.\<close>

definition xtime :: "u8 \<Rightarrow> u8" where
  "xtime b = push_bit 1 b XOR (if bit b 7 then 0x1b else 0)"

definition te0_entry :: "u8 \<Rightarrow> u32" where
  "te0_entry s = be4 (xtime s) s s (xtime s XOR s)"

section \<open>The table and the S-box\<close>

lemma Te0_entries: "Te0 = map te0_entry sbox"
  by (simp add: sbox_def Te0_def te0_entry_def be4_def xtime_def)

lemma length_sbox: "length sbox = 256"
  by (simp add: sbox_def)

lemma Te0_nth: "Te0 ! unat (x :: u8) = te0_entry (sbox ! unat x)"
  using unsigned_less[of x, where 'a=nat] by (simp add: Te0_entries length_sbox)

text \<open>Products in the field, and the affine map of section 5.1.1.\<close>

fun gf8_sum :: "nat \<Rightarrow> u8 \<Rightarrow> u8 \<Rightarrow> u8" where
  "gf8_sum 0 a b = 0"
| "gf8_sum (Suc n) a b = (if bit a 0 then b else 0) XOR gf8_sum n (drop_bit 1 a) (xtime b)"

definition gf8_mult :: "u8 \<Rightarrow> u8 \<Rightarrow> u8" where
  "gf8_mult a b = gf8_sum 8 a b"

definition affine8 :: "u8 \<Rightarrow> u8" where
  "affine8 b = b XOR (push_bit 1 b OR drop_bit 7 b) XOR (push_bit 2 b OR drop_bit 6 b)
     XOR (push_bit 3 b OR drop_bit 5 b) XOR (push_bit 4 b OR drop_bit 4 b) XOR 0x63"

definition field_inverse :: "u8 list" where
  "field_inverse =
    [0, 1, 141, 246, 203, 82, 123, 209, 232, 79, 41, 192, 176, 225, 229, 199,
     116, 180, 170, 75, 153, 43, 96, 95, 88, 63, 253, 204, 255, 64, 238, 178,
     58, 110, 90, 241, 85, 77, 168, 201, 193, 10, 152, 21, 48, 68, 162, 194,
     44, 69, 146, 108, 243, 57, 102, 66, 242, 53, 32, 111, 119, 187, 89, 25,
     29, 254, 55, 103, 45, 49, 245, 105, 167, 100, 171, 19, 84, 37, 233, 9,
     237, 92, 5, 202, 76, 36, 135, 191, 24, 62, 34, 240, 81, 236, 97, 23,
     22, 94, 175, 211, 73, 166, 54, 67, 244, 71, 145, 223, 51, 147, 33, 59,
     121, 183, 151, 133, 16, 181, 186, 60, 182, 112, 208, 6, 161, 250, 129, 130,
     131, 126, 127, 128, 150, 115, 190, 86, 155, 158, 149, 217, 247, 2, 185, 164,
     222, 106, 50, 109, 216, 138, 132, 114, 42, 20, 159, 136, 249, 220, 137, 154,
     251, 124, 46, 195, 143, 184, 101, 72, 38, 200, 18, 74, 206, 231, 210, 98,
     12, 224, 31, 239, 17, 117, 120, 113, 165, 142, 118, 61, 189, 188, 134, 87,
     11, 40, 47, 163, 218, 212, 228, 15, 169, 39, 83, 4, 27, 252, 172, 230,
     122, 7, 174, 99, 197, 219, 226, 234, 148, 139, 196, 213, 157, 248, 144, 107,
     177, 13, 214, 235, 198, 14, 207, 173, 8, 78, 215, 227, 93, 80, 30, 179,
     91, 35, 56, 52, 104, 70, 3, 140, 221, 156, 125, 160, 205, 26, 65, 28]"

lemma gf8_mult_unfold:
  "gf8_mult a b =
    (let b1 = xtime b; b2 = xtime b1; b3 = xtime b2; b4 = xtime b3; b5 = xtime b4; b6 = xtime b5; b7 = xtime b6
     in (if bit a 0 then b else 0) XOR (if bit a 1 then b1 else 0) XOR (if bit a 2 then b2 else 0)
        XOR (if bit a 3 then b3 else 0) XOR (if bit a 4 then b4 else 0) XOR (if bit a 5 then b5 else 0)
        XOR (if bit a 6 then b6 else 0) XOR (if bit a 7 then b7 else 0))"
  by (simp add: gf8_mult_def eval_nat_numeral bit_simps Let_def)

lemma field_inverse_sbox: "sbox = map affine8 field_inverse"
  by (simp add: sbox_def field_inverse_def affine8_def)

text \<open>\<open>ys\<close> holds the inverses of \<open>x\<close>, \<open>x + 1\<close>, and so on.\<close>

fun inverses_from :: "u8 \<Rightarrow> u8 list \<Rightarrow> bool" where
  "inverses_from x [] = True"
| "inverses_from x (y # ys) \<longleftrightarrow> (if x = 0 then y = 0 else gf8_mult x y = 1) \<and> inverses_from (x + 1) ys"

lemma inverses_from_nth:
  "inverses_from x ys \<Longrightarrow> i < length ys \<Longrightarrow>
     (if x + of_nat i = 0 then ys ! i = 0 else gf8_mult (x + of_nat i) (ys ! i) = 1)"
proof (induction ys arbitrary: x i)
  case (Cons y ys)
  show ?case
  proof (cases i)
    case (Suc j)
    have "x + 1 + of_nat j = x + of_nat (Suc j)" by simp
    then show ?thesis using Cons.IH[of "x + 1" j] Cons.prems Suc by (simp only: length_Cons nth_Cons_Suc) simp
  qed (use Cons.prems in simp)
qed simp

lemma field_inverse_product: "inverses_from 0 field_inverse"
  unfolding field_inverse_def
  by (simp add: gf8_mult_unfold Let_def xtime_def)

text \<open>Every entry of the S-box behind \<open>Te0\<close> is the affine image of the inverse of its index
  in the field with 256 elements (of 0 at index 0), and the entry of \<open>Te0\<close> holds its products by
  2, 1, 1 and 3.\<close>

lemma Te0_affine_inverse:
  "\<exists>y s. (if x = 0 then y = 0 else gf8_mult x y = 1) \<and> s = affine8 y
     \<and> Te0 ! unat x = be4 (gf8_mult 2 s) s s (gf8_mult 3 s)"
proof -
  have l: "length field_inverse = 256" by (simp add: field_inverse_def)
  then have "unat x < length field_inverse" using unsigned_less[of x, where 'a=nat] by simp
  then have inv: "if x = 0 then field_inverse ! unat x = 0 else gf8_mult x (field_inverse ! unat x) = 1"
    and s: "sbox ! unat x = affine8 (field_inverse ! unat x)"
    using inverses_from_nth[OF field_inverse_product, of "unat x"]
    by (simp_all add: field_inverse_sbox split: if_splits)
  have "gf8_mult 2 s = xtime s" "gf8_mult 3 s = xtime s XOR s" for s
    by (simp_all add: gf8_mult_unfold Let_def xor.commute)
  then have "Te0 ! unat x = be4 (gf8_mult 2 (sbox ! unat x)) (sbox ! unat x) (sbox ! unat x)
      (gf8_mult 3 (sbox ! unat x))"
    by (simp only: Te0_nth te0_entry_def)
  with inv s show ?thesis by blast
qed
end
