(* ===== verification/Aes.thy ===== *)
theory Aes
  imports AesTable
begin

text \<open>
  The AES-256 block cipher of \<^verbatim>\<open>applications/aes-256-gcm/aes-internal-enc.c\<close> with the macros of
  \<^verbatim>\<open>aes.h\<close>: key expansion, encryption of a block with lookup tables, and the context that
  \<open>aes_encrypt_init\<close> allocates.  Byte blocks are lists; the schedule is filled from index 0 up and
  is the list of the words written so far.  The reference is the cipher of FIPS 197 over bytes.
\<close>

section \<open>Macros\<close>

definition rotr :: "u32 \<Rightarrow> nat \<Rightarrow> u32" where
  "rotr val bits = drop_bit bits val OR push_bit (32 - bits) val"

definition te :: "u32 \<Rightarrow> u32" where "te i = Te0 ! unat (i AND 0xff)"

definition TE0 :: "u32 \<Rightarrow> u32" where "TE0 i = te (drop_bit 24 i)"
definition TE1 :: "u32 \<Rightarrow> u32" where "TE1 i = rotr (te (drop_bit 16 i)) 8"
definition TE2 :: "u32 \<Rightarrow> u32" where "TE2 i = rotr (te (drop_bit 8 i)) 16"
definition TE3 :: "u32 \<Rightarrow> u32" where "TE3 i = rotr (te i) 24"
definition TE41 :: "u32 \<Rightarrow> u32" where "TE41 i = push_bit 8 (te (drop_bit 24 i)) AND 0xff000000"
definition TE42 :: "u32 \<Rightarrow> u32" where "TE42 i = te (drop_bit 16 i) AND 0x00ff0000"
definition TE43 :: "u32 \<Rightarrow> u32" where "TE43 i = te (drop_bit 8 i) AND 0x0000ff00"
definition TE44 :: "u32 \<Rightarrow> u32" where "TE44 i = drop_bit 8 (te i) AND 0x000000ff"
definition TE421 :: "u32 \<Rightarrow> u32" where "TE421 i = push_bit 8 (te (drop_bit 16 i)) AND 0xff000000"
definition TE432 :: "u32 \<Rightarrow> u32" where "TE432 i = te (drop_bit 8 i) AND 0x00ff0000"
definition TE443 :: "u32 \<Rightarrow> u32" where "TE443 i = te i AND 0x0000ff00"
definition TE414 :: "u32 \<Rightarrow> u32" where "TE414 i = drop_bit 8 (te (drop_bit 24 i)) AND 0x000000ff"
definition TE411 :: "u32 \<Rightarrow> u32" where "TE411 i = push_bit 8 (te (drop_bit 24 i)) AND 0xff000000"
definition TE422 :: "u32 \<Rightarrow> u32" where "TE422 i = te (drop_bit 16 i) AND 0x00ff0000"
definition TE433 :: "u32 \<Rightarrow> u32" where "TE433 i = te (drop_bit 8 i) AND 0x0000ff00"
definition TE444 :: "u32 \<Rightarrow> u32" where "TE444 i = drop_bit 8 (te i) AND 0x000000ff"

text \<open>\<open>GETU32(pt + n)\<close> and \<open>PUTU32(ct + n, st)\<close>.\<close>

definition GETU32 :: "u8 list \<Rightarrow> nat \<Rightarrow> u32" where
  "GETU32 pt n = push_bit 24 (ucast (pt ! n)) XOR push_bit 16 (ucast (pt ! (n + 1)))
     XOR push_bit 8 (ucast (pt ! (n + 2))) XOR ucast (pt ! (n + 3))"
definition PUTU32 :: "u8 list \<Rightarrow> nat \<Rightarrow> u32 \<Rightarrow> u8 list" where
  "PUTU32 ct n st = ct[n := ucast (drop_bit 24 st), n + 1 := ucast (drop_bit 16 st),
     n + 2 := ucast (drop_bit 8 st), n + 3 := ucast st]"

definition rcons :: "u8 list" where
  "rcons = [0x01, 0x02, 0x04, 0x08, 0x10, 0x20, 0x40, 0x80]"
definition RCON :: "nat \<Rightarrow> u32" where
  "RCON i = push_bit 24 (ucast (rcons ! i))"

section \<open>Key expansion\<close>

text \<open>The two halves of an iteration of \<open>rijndaelKeySetupEnc\<close>; \<open>b\<close> is the index \<open>rk\<close> points to.\<close>

definition key_first :: "nat \<Rightarrow> nat \<Rightarrow> u32 list \<Rightarrow> u32 list" where
  "key_first i b rk =
     (let temp = rk ! (b + 7);
          rk8 = rk ! b XOR TE421 temp XOR TE432 temp XOR TE443 temp XOR TE414 temp XOR RCON i;
          rk9 = rk ! (b + 1) XOR rk8;
          rk10 = rk ! (b + 2) XOR rk9;
          rk11 = rk ! (b + 3) XOR rk10
      in rk @ [rk8, rk9, rk10, rk11])"

definition key_second :: "nat \<Rightarrow> u32 list \<Rightarrow> u32 list" where
  "key_second b rk =
     (let temp = rk ! (b + 11);
          rk12 = rk ! (b + 4) XOR TE411 temp XOR TE422 temp XOR TE433 temp XOR TE444 temp;
          rk13 = rk ! (b + 5) XOR rk12;
          rk14 = rk ! (b + 6) XOR rk13;
          rk15 = rk ! (b + 7) XOR rk14
      in rk @ [rk12, rk13, rk14, rk15])"

text \<open>The loop from iteration \<open>i\<close> on, \<open>n\<close> of them left.\<close>

fun key_loop :: "nat \<Rightarrow> nat \<Rightarrow> nat \<Rightarrow> u32 list \<Rightarrow> u32 list \<times> int" where
  "key_loop 0 i b rk = (rk, - 1)"
| "key_loop (Suc n) i b rk =
     (let rk = key_first i b rk
      in if i = 6 then (rk, 14) else key_loop n (i + 1) (b + 8) (key_second b rk))"

definition rijndaelKeySetupEnc :: "u8 list \<Rightarrow> u32 list \<times> int" where
  "rijndaelKeySetupEnc cipherKey =
     key_loop 7 0 0 [GETU32 cipherKey 0, GETU32 cipherKey 4, GETU32 cipherKey 8, GETU32 cipherKey 12,
       GETU32 cipherKey 16, GETU32 cipherKey 20, GETU32 cipherKey 24, GETU32 cipherKey 28]"

section \<open>Encryption of a block\<close>

type_synonym aes_cols = "u32 \<times> u32 \<times> u32 \<times> u32"

text \<open>\<open>ROUND(i, d, s)\<close> with the schedule starting at index \<open>k\<close>.\<close>

fun ROUND :: "u32 list \<Rightarrow> nat \<Rightarrow> nat \<Rightarrow> aes_cols \<Rightarrow> aes_cols" where
  "ROUND rk k i (s0, s1, s2, s3) =
     (TE0 s0 XOR TE1 s1 XOR TE2 s2 XOR TE3 s3 XOR rk ! (k + 4 * i),
      TE0 s1 XOR TE1 s2 XOR TE2 s3 XOR TE3 s0 XOR rk ! (k + 4 * i + 1),
      TE0 s2 XOR TE1 s3 XOR TE2 s0 XOR TE3 s1 XOR rk ! (k + 4 * i + 2),
      TE0 s3 XOR TE1 s0 XOR TE2 s1 XOR TE3 s2 XOR rk ! (k + 4 * i + 3))"

text \<open>The loop \<open>for (;;)\<close>: \<open>r\<close> double rounds, the second half of the last one skipped.  It leaves
  \<open>t0\<close> to \<open>t3\<close> and the index \<open>rk\<close> has moved to.\<close>

lemma unat_pred_pred: "r \<noteq> 1 \<Longrightarrow> unat (r - 2) < unat (r - 1)" for r :: u32
  using unat_pred_less[of "r - 1"] by simp

function round_loop :: "u32 \<Rightarrow> u32 list \<Rightarrow> nat \<Rightarrow> aes_cols \<Rightarrow> aes_cols \<times> nat" where
  "round_loop r rk k s =
     (let t = ROUND rk k 1 s;
          k = k + 8;
          r = r - 1
      in if r = 0 then (t, k) else round_loop r rk k (ROUND rk k 0 t))"
  by pat_completeness auto
termination
  by (relation "measure (\<lambda>(r, rk, k, s). unat (r - 1))") (use unat_pred_pred in auto)

declare round_loop.simps [simp del]

definition rijndaelEncrypt :: "u32 list \<Rightarrow> u32 \<Rightarrow> u8 list \<Rightarrow> u8 list \<Rightarrow> u8 list" where
  "rijndaelEncrypt rk Nr pt ct =
     (let s = (GETU32 pt 0 XOR rk ! 0, GETU32 pt 4 XOR rk ! 1, GETU32 pt 8 XOR rk ! 2, GETU32 pt 12 XOR rk ! 3);
          ((t0, t1, t2, t3), k) = round_loop (signed_drop_bit 1 Nr) rk 0 s;
          s0 = TE41 t0 XOR TE42 t1 XOR TE43 t2 XOR TE44 t3 XOR rk ! k;
          ct = PUTU32 ct 0 s0;
          s1 = TE41 t1 XOR TE42 t2 XOR TE43 t3 XOR TE44 t0 XOR rk ! (k + 1);
          ct = PUTU32 ct 4 s1;
          s2 = TE41 t2 XOR TE42 t3 XOR TE43 t0 XOR TE44 t1 XOR rk ! (k + 2);
          ct = PUTU32 ct 8 s2;
          s3 = TE41 t3 XOR TE42 t0 XOR TE43 t1 XOR TE44 t2 XOR rk ! (k + 3)
      in PUTU32 ct 12 s3)"

text \<open>The context: 61 words, the schedule and the number of rounds at \<open>AES_PRIV_NR_POS\<close>.  Whether
  \<open>malloc\<close> finds room is an argument.\<close>

definition aes_encrypt_init :: "bool \<Rightarrow> u8 list \<Rightarrow> u32 list option" where
  "aes_encrypt_init malloc_ok key =
     (if \<not> malloc_ok then None
      else (let (rk, res) = rijndaelKeySetupEnc key
            in if res < 0 then None else Some (rk @ [word_of_int res])))"

definition aes_encrypt :: "u32 list \<Rightarrow> u8 list \<Rightarrow> u8 list \<Rightarrow> u8 list" where
  "aes_encrypt ctx plain crypt = rijndaelEncrypt ctx (ctx ! 60) plain crypt"

text \<open>The context is wiped before it is freed.\<close>

definition aes_encrypt_deinit :: "u32 list \<Rightarrow> u32 list" where
  "aes_encrypt_deinit ctx = replicate 61 0 @ drop 61 ctx"

section \<open>The standard\<close>

text \<open>FIPS 197 over blocks of 16 bytes, column by column: byte \<open>4 c + r\<close> is row \<open>r\<close> of column \<open>c\<close>.\<close>

definition SubBytes :: "u8 list \<Rightarrow> u8 list" where
  "SubBytes s = map (\<lambda>b. sbox ! unat b) s"

definition ShiftRows :: "u8 list \<Rightarrow> u8 list" where
  "ShiftRows s = map (\<lambda>i. s ! ((4 * (i mod 4) + i) mod 16)) [0..<16]"

fun mix_column :: "u8 list \<Rightarrow> u8 list" where
  "mix_column [a, b, c, d] =
     [gf8_mult 2 a XOR gf8_mult 3 b XOR c XOR d, a XOR gf8_mult 2 b XOR gf8_mult 3 c XOR d,
      a XOR b XOR gf8_mult 2 c XOR gf8_mult 3 d, gf8_mult 3 a XOR b XOR c XOR gf8_mult 2 d]"
| "mix_column s = s"

definition MixColumns :: "u8 list \<Rightarrow> u8 list" where
  "MixColumns s = concat (map (\<lambda>c. mix_column (take 4 (drop (4 * c) s))) [0..<4])"

definition word_bytes :: "u32 \<Rightarrow> u8 list" where
  "word_bytes w = [ucast (drop_bit 24 w), ucast (drop_bit 16 w), ucast (drop_bit 8 w), ucast w]"

definition AddRoundKey :: "(nat \<Rightarrow> u32) \<Rightarrow> nat \<Rightarrow> u8 list \<Rightarrow> u8 list" where
  "AddRoundKey w r s = map2 (XOR) s (concat (map (\<lambda>c. word_bytes (w (4 * r + c))) [0..<4]))"

definition fips_round :: "(nat \<Rightarrow> u32) \<Rightarrow> nat \<Rightarrow> u8 list \<Rightarrow> u8 list" where
  "fips_round w r s = AddRoundKey w r (MixColumns (ShiftRows (SubBytes s)))"

definition fips_cipher :: "nat \<Rightarrow> (nat \<Rightarrow> u32) \<Rightarrow> u8 list \<Rightarrow> u8 list" where
  "fips_cipher Nr w pt =
     (let s = fold (fips_round w) [1..<Nr] (AddRoundKey w 0 pt)
      in AddRoundKey w Nr (ShiftRows (SubBytes s)))"

text \<open>Key expansion for keys of eight words.\<close>

definition SubWord :: "u32 \<Rightarrow> u32" where
  "SubWord w = (case map (\<lambda>b. sbox ! unat b) (word_bytes w) of [a, b, c, d] \<Rightarrow> be4 a b c d | _ \<Rightarrow> 0)"

definition RotWord :: "u32 \<Rightarrow> u32" where "RotWord w = word_rotl 8 w"

fun Rcon :: "nat \<Rightarrow> u32" where
  "Rcon i = push_bit 24 (ucast ((xtime ^^ (i - 1)) 1))"

fun fips_w :: "u8 list \<Rightarrow> nat \<Rightarrow> u32" where
  "fips_w key i =
     (if i < 8 then be4 (key ! (4 * i)) (key ! (4 * i + 1)) (key ! (4 * i + 2)) (key ! (4 * i + 3))
      else fips_w key (i - 8) XOR
        (if i mod 8 = 0 then SubWord (RotWord (fips_w key (i - 1))) XOR Rcon (i div 8)
         else if i mod 8 = 4 then SubWord (fips_w key (i - 1))
         else fips_w key (i - 1)))"

declare fips_w.simps [simp del]

definition fips_aes256 :: "u8 list \<Rightarrow> u8 list \<Rightarrow> u8 list" where
  "fips_aes256 key pt = fips_cipher 14 (fips_w key) pt"

section \<open>Words as four bytes\<close>

lemma be4_cases:
  obtains a b c d where "w = be4 a b c d"
proof
  show "w = be4 (ucast (drop_bit 24 w)) (ucast (drop_bit 16 w)) (ucast (drop_bit 8 w)) (ucast w)"
    by (rule bit_word_eqI) (auto simp: bit_be4 bit_simps)
qed

lemma be4_xor: "be4 a b c d XOR be4 a' b' c' d' = be4 (a XOR a') (b XOR b') (c XOR c') (d XOR d')"
  by (rule bit_word_eqI) (auto simp: bit_be4 bit_simps)

lemma GETU32_be4: "GETU32 pt n = be4 (pt ! n) (pt ! (n + 1)) (pt ! (n + 2)) (pt ! (n + 3))"
  by (simp add: GETU32_def be4_def)

lemma be4_bytes [simp]:
  "(ucast (drop_bit 24 (be4 a b c d)) :: u8) = a" "(ucast (drop_bit 16 (be4 a b c d)) :: u8) = b"
  "(ucast (drop_bit 8 (be4 a b c d)) :: u8) = c" "(ucast (be4 a b c d) :: u8) = d"
  by (rule bit_word_eqI, simp add: bit_be4 bit_simps)+

lemma word_bytes_be4 [simp]: "word_bytes (be4 a b c d) = [a, b, c, d]"
  by (simp add: word_bytes_def)

lemma byte_mask32: "w AND 0xff = take_bit 8 w" for w :: u32
proof -
  have "(0xff :: u32) = mask 8" by (simp add: mask_eq_exp_minus_1)
  then show ?thesis by (simp only: take_bit_eq_mask)
qed

lemma te_be4:
  "te w = (let s = sbox ! unat (ucast w :: u8) in be4 (xtime s) s s (xtime s XOR s))"
proof -
  have "unat (w AND 0xff) = unat (ucast w :: u8)"
    unfolding byte_mask32 by (simp add: unsigned_take_bit_eq unsigned_ucast_eq)
  then show ?thesis unfolding te_def using Te0_nth[of "ucast w"]
    by (simp only: te0_entry_def Let_def)
qed

lemma rotr_be4:
  "rotr (be4 a b c d) 8 = be4 d a b c" "rotr (be4 a b c d) 16 = be4 c d a b" "rotr (be4 a b c d) 24 = be4 b c d a"
  by (rule bit_word_eqI, auto simp: rotr_def bit_be4 bit_simps)+

lemma masks_be4:
  "push_bit 8 (be4 a b c d) AND 0xff000000 = be4 b 0 0 0"
  "be4 a b c d AND 0x00ff0000 = be4 0 b 0 0"
  "be4 a b c d AND 0x0000ff00 = be4 0 0 c 0"
  "drop_bit 8 (be4 a b c d) AND 0x000000ff = be4 0 0 0 c"
proof -
  have ff: "(0xff :: u8) = - 1" by simp
  have m: "(0xff000000 :: u32) = be4 (- 1) 0 0 0" "(0x00ff0000 :: u32) = be4 0 (- 1) 0 0"
    "(0x0000ff00 :: u32) = be4 0 0 (- 1) 0" "(0x000000ff :: u32) = be4 0 0 0 (- 1)"
    unfolding ff[symmetric] by (simp_all add: be4_def)
  have "push_bit 8 (be4 a b c d) AND be4 (- 1) 0 0 0 = be4 b 0 0 0"
    by (rule bit_word_eqI) (auto simp: bit_be4 bit_simps)
  then show "push_bit 8 (be4 a b c d) AND 0xff000000 = be4 b 0 0 0" by (simp only: m)
  have "be4 a b c d AND be4 0 (- 1) 0 0 = be4 0 b 0 0"
    by (rule bit_word_eqI) (auto simp: bit_be4 bit_simps)
  then show "be4 a b c d AND 0x00ff0000 = be4 0 b 0 0" by (simp only: m)
  have "be4 a b c d AND be4 0 0 (- 1) 0 = be4 0 0 c 0"
    by (rule bit_word_eqI) (auto simp: bit_be4 bit_simps)
  then show "be4 a b c d AND 0x0000ff00 = be4 0 0 c 0" by (simp only: m)
  have "drop_bit 8 (be4 a b c d) AND be4 0 0 0 (- 1) = be4 0 0 0 c"
    by (rule bit_word_eqI) (auto simp: bit_be4 bit_simps)
  then show "drop_bit 8 (be4 a b c d) AND 0x000000ff = be4 0 0 0 c" by (simp only: m)
qed

lemmas te_defs = TE0_def TE1_def TE2_def TE3_def TE41_def TE42_def TE43_def TE44_def
  TE421_def TE432_def TE443_def TE414_def TE411_def TE422_def TE433_def TE444_def

lemma gf8_small: "gf8_mult 2 s = xtime s" "gf8_mult 3 s = xtime s XOR s"
  by (simp_all add: gf8_mult_unfold Let_def xor.commute)

text \<open>The columns of a block.\<close>

definition cols :: "u8 list \<Rightarrow> aes_cols" where
  "cols s = (GETU32 s 0, GETU32 s 4, GETU32 s 8, GETU32 s 12)"

lemma block_cases:
  assumes "length s = 16"
  obtains a0 a1 a2 a3 b0 b1 b2 b3 c0 c1 c2 c3 d0 d1 d2 d3
  where "s = [a0, a1, a2, a3, b0, b1, b2, b3, c0, c1, c2, c3, d0, d1, d2, d3]"
  using assms by (auto simp: eval_nat_numeral length_Suc_conv)

lemma upt4: "[0..<4] = [0, Suc 0, 2, 3]"
  by (simp add: upt_rec)

lemma upt16: "[0..<16] = [0, 1, 2, 3, 4, 5, 6, 7, 8, 9, 10, 11, 12, 13, 14, 15 :: nat]"
  by (simp add: upt_rec)

lemma ShiftRows_block:
  "ShiftRows [a0, a1, a2, a3, b0, b1, b2, b3, c0, c1, c2, c3, d0, d1, d2, d3]
     = [a0, b1, c2, d3, b0, c1, d2, a3, c0, d1, a2, b3, d0, a1, b2, c3]"
  by (simp add: ShiftRows_def upt16)

lemma add_round_key_cols:
  assumes "length s = 16"
  shows "cols (AddRoundKey w r s) = (case cols s of (s0, s1, s2, s3) \<Rightarrow>
    (s0 XOR w (4 * r), s1 XOR w (4 * r + 1), s2 XOR w (4 * r + 2), s3 XOR w (4 * r + 3)))"
proof -
  obtain x0 x1 x2 x3 where w0: "w (4 * r) = be4 x0 x1 x2 x3" by (rule be4_cases)
  obtain y0 y1 y2 y3 where w1: "w (4 * r + 1) = be4 y0 y1 y2 y3" by (rule be4_cases)
  obtain z0 z1 z2 z3 where w2: "w (4 * r + 2) = be4 z0 z1 z2 z3" by (rule be4_cases)
  obtain u0 u1 u2 u3 where w3: "w (4 * r + 3) = be4 u0 u1 u2 u3" by (rule be4_cases)
  show ?thesis using assms
    by (rule block_cases) (use w0 w1 w2 w3 in \<open>simp add: AddRoundKey_def upt4 cols_def GETU32_be4 be4_xor\<close>)
qed

lemma round_cols:
  assumes "length s = 16"
  shows "ROUND rk k i (cols s) = cols (AddRoundKey (\<lambda>n. rk ! (k + n)) i (MixColumns (ShiftRows (SubBytes s))))"
proof -
  obtain a0 a1 a2 a3 b0 b1 b2 b3 c0 c1 c2 c3 d0 d1 d2 d3
    where s: "s = [a0, a1, a2, a3, b0, b1, b2, b3, c0, c1, c2, c3, d0, d1, d2, d3]"
    using assms by (rule block_cases)
  let ?m = "MixColumns (ShiftRows (SubBytes s))"
  have m: "length ?m = 16" by (simp add: s SubBytes_def ShiftRows_block MixColumns_def upt4)
  show ?thesis
    unfolding add_round_key_cols[OF m]
    by (simp add: s SubBytes_def ShiftRows_block MixColumns_def upt4 cols_def GETU32_be4 te_defs te_be4
        rotr_be4 be4_xor gf8_small Let_def xor.assoc[symmetric] add.assoc[symmetric])
qed

lemma length_steps [simp]:
  "length (SubBytes s) = length s" "length (ShiftRows s) = 16"
  by (simp_all add: SubBytes_def ShiftRows_def)

lemma length_MixColumns [simp]: "length s = 16 \<Longrightarrow> length (MixColumns s) = 16"
  by (erule block_cases) (simp add: MixColumns_def upt4)

lemma length_AddRoundKey [simp]: "length s = 16 \<Longrightarrow> length (AddRoundKey w r s) = 16"
  by (erule block_cases) (simp add: AddRoundKey_def upt4 word_bytes_def)

lemma length_fips_round [simp]: "length s = 16 \<Longrightarrow> length (fips_round w r s) = 16"
  by (simp add: fips_round_def)

lemma round_cols':
  "length s = 16 \<Longrightarrow> k + 4 * i = 4 * r \<Longrightarrow> ROUND rk k i (cols s) = cols (fips_round ((!) rk) r s)"
  unfolding round_cols fips_round_def
  by (simp add: add_round_key_cols add.assoc[symmetric] del: ROUND.simps split: prod.splits)

lemma round_loop_cols:
  assumes "length s = 16" "unat r = Suc n"
  shows "round_loop r rk (8 * m) (cols s)
       = (cols (fold (fips_round ((!) rk)) [2 * m + 1..<2 * (m + n) + 2] s), 8 * (m + n + 1))"
  using assms
proof (induction n arbitrary: r s m)
  case 0
  then have "r = 1" by (simp add: word_unat_eq_iff)
  then show ?case using round_cols'[OF 0(1), of "8 * m" 1 "2 * m + 1" rk]
    by (subst round_loop.simps) (simp add: Let_def del: ROUND.simps)
next
  case (Suc n)
  let ?t = "fips_round ((!) rk) (2 * m + 1) s"
  let ?u = "fips_round ((!) rk) (2 * m + 2) ?t"
  have l: "length ?t = 16" "length ?u = 16" by (simp_all only: length_fips_round Suc.prems(1))
  have r1: "unat (r - 1) = Suc n" using Suc.prems(2) by (simp add: unat_sub_if')
  then have nz: "r - 1 \<noteq> 0" by (metis Zero_not_Suc unat_0)
  have 1: "ROUND rk (8 * m) 1 (cols s) = cols ?t"
    by (rule round_cols') (simp_all add: Suc.prems)
  have 2: "ROUND rk (8 * m + 8) 0 (cols ?t) = cols ?u"
    by (rule round_cols') (simp_all add: Suc.prems(1))
  have u: "[2 * m + 1..<2 * (m + Suc n) + 2] = (2 * m + 1) # (2 * m + 2) # [2 * Suc m + 1..<2 * (Suc m + n) + 2]"
    by (simp add: upt_conv_Cons)
  have "round_loop r rk (8 * m) (cols s) = round_loop (r - 1) rk (8 * Suc m) (cols ?u)"
    by (subst round_loop.simps) (simp only: Let_def 1 2 nz if_False mult_Suc_right add.commute[of 8])
  also have "\<dots> = (cols (fold (fips_round ((!) rk)) [2 * Suc m + 1..<2 * (Suc m + n) + 2] ?u), 8 * (Suc m + n + 1))"
    by (rule Suc.IH[OF l(2) r1])
  finally show ?case unfolding u by simp
qed

lemma PUTU32_four:
  assumes "16 \<le> length ct"
  shows "PUTU32 (PUTU32 (PUTU32 (PUTU32 ct 0 s0) 4 s1) 8 s2) 12 s3
     = word_bytes s0 @ word_bytes s1 @ word_bytes s2 @ word_bytes s3 @ drop 16 ct"
proof -
  obtain x y where "ct = x @ y" "length x = 16" using assms
    by (metis append_take_drop_id length_take min.absorb2)
  then show ?thesis
    by (elim block_cases) (simp add: PUTU32_def word_bytes_def)
qed

lemma last_round:
  assumes "length s = 16" "cols s = (t0, t1, t2, t3)"
  shows "word_bytes (TE41 t0 XOR TE42 t1 XOR TE43 t2 XOR TE44 t3 XOR w (4 * r))
     @ word_bytes (TE41 t1 XOR TE42 t2 XOR TE43 t3 XOR TE44 t0 XOR w (4 * r + 1))
     @ word_bytes (TE41 t2 XOR TE42 t3 XOR TE43 t0 XOR TE44 t1 XOR w (4 * r + 2))
     @ word_bytes (TE41 t3 XOR TE42 t0 XOR TE43 t1 XOR TE44 t2 XOR w (4 * r + 3))
     = AddRoundKey w r (ShiftRows (SubBytes s))"
proof -
  obtain x0 x1 x2 x3 where w0: "w (4 * r) = be4 x0 x1 x2 x3" by (rule be4_cases)
  obtain y0 y1 y2 y3 where w1: "w (4 * r + 1) = be4 y0 y1 y2 y3" by (rule be4_cases)
  obtain z0 z1 z2 z3 where w2: "w (4 * r + 2) = be4 z0 z1 z2 z3" by (rule be4_cases)
  obtain u0 u1 u2 u3 where w3: "w (4 * r + 3) = be4 u0 u1 u2 u3" by (rule be4_cases)
  show ?thesis using assms
    by (elim block_cases) (use w0 w1 w2 w3 in
      \<open>auto simp: AddRoundKey_def upt4 cols_def GETU32_be4 be4_xor te_defs te_be4 masks_be4
        SubBytes_def ShiftRows_block Let_def\<close>)
qed

lemma rijndaelEncrypt_cipher:
  assumes "length pt = 16" "16 \<le> length ct"
  shows "rijndaelEncrypt rk 14 pt ct = fips_cipher 14 ((!) rk) pt @ drop 16 ct"
proof -
  let ?w = "(!) rk"
  let ?init = "AddRoundKey ?w 0 pt"
  let ?fin = "fold (fips_round ?w) [1..<14] ?init"
  have l0: "length ?init = 16" using assms by simp
  have "length (fold (fips_round ?w) xs s) = 16" if "length s = 16" for xs s
    using that by (induction xs arbitrary: s) (simp_all del: length_0_conv)
  from this[OF l0] have l: "length ?fin = 16" .
  have init: "(GETU32 pt 0 XOR rk ! 0, GETU32 pt 4 XOR rk ! 1, GETU32 pt 8 XOR rk ! 2, GETU32 pt 12 XOR rk ! 3)
      = cols ?init"
    unfolding add_round_key_cols[OF assms(1)] by (simp add: cols_def numeral_2_eq_2)
  have "signed_drop_bit 1 14 = (7 :: u32)" by code_simp
  then have loop: "round_loop (signed_drop_bit 1 14) rk 0 (cols ?init) = (cols ?fin, 56)"
    using round_loop_cols[OF l0, of 7 6 rk 0] by simp
  obtain t0 t1 t2 t3 where t: "cols ?fin = (t0, t1, t2, t3)" by (cases "cols ?fin")
  show ?thesis
    unfolding rijndaelEncrypt_def init loop t Let_def prod.case
    using last_round[OF l t, of ?w 14] PUTU32_four[OF assms(2)]
    by (simp add: fips_cipher_def)
qed

section \<open>Key expansion\<close>

lemma RotWord_be4: "RotWord (be4 a b c d) = be4 b c d a"
proof (rule bit_word_eqI)
  fix n assume "n < LENGTH(32)"
  then have n: "n < 32" by simp
  show "bit (RotWord (be4 a b c d)) n = bit (be4 b c d a) n"
  proof (cases "n < 8")
    case True
    then have "(n + 24) mod 32 = n + 24" by simp
    then show ?thesis using True n by (simp add: RotWord_def bit_word_rotl_iff bit_be4)
  next
    case False
    then have "(n + 24) mod 32 = n - 8" using n by (simp add: mod_if)
    then show ?thesis using False n by (auto simp: RotWord_def bit_word_rotl_iff bit_be4)
  qed
qed

lemma sub_rot_word:
  "TE421 temp XOR TE432 temp XOR TE443 temp XOR TE414 temp = SubWord (RotWord temp)"
  by (rule be4_cases[of temp])
    (simp add: te_defs te_be4 masks_be4 be4_xor SubWord_def RotWord_be4 Let_def)

lemma sub_word: "TE411 temp XOR TE422 temp XOR TE433 temp XOR TE444 temp = SubWord temp"
  by (rule be4_cases[of temp])
    (simp add: te_defs te_be4 masks_be4 be4_xor SubWord_def Let_def)

lemma RCON_Rcon: "i < 7 \<Longrightarrow> RCON i = Rcon (Suc i)"
  by (auto simp: less_Suc_eq eval_nat_numeral RCON_def rcons_def xtime_def)

lemma fips_w_step:
  assumes "m = Suc n" "m = k + 8" "m mod 8 \<noteq> 0" "m mod 8 \<noteq> 4"
  shows "fips_w key m = fips_w key k XOR fips_w key n"
proof -
  have "m - 1 = n" "m - 8 = k" "\<not> m < 8" using assms by simp_all
  then show ?thesis using assms(3,4) by (subst fips_w.simps) (simp only: if_False)
qed

lemma upt_split: "i \<le> j \<Longrightarrow> j \<le> k \<Longrightarrow> [i..<k] = [i..<j] @ [j..<k]"
  using upt_add_eq_append[of i j "k - j"] by simp

lemma key_first_value:
  assumes "i < 7"
  shows "key_first i (8 * i) (map (fips_w key) [0..<8 * i + 8]) = map (fips_w key) [0..<8 * i + 12]"
proof -
  let ?w = "fips_w key"
  have w: "map ?w [0..<8 * i + 8] ! (8 * i + j) = ?w (8 * i + j)" if "j < 8" for j
    using that by simp
  have 8: "?w (8 * i + 8) = ?w (8 * i) XOR TE421 (?w (8 * i + 7)) XOR TE432 (?w (8 * i + 7))
      XOR TE443 (?w (8 * i + 7)) XOR TE414 (?w (8 * i + 7)) XOR RCON i"
  proof -
    have "?w (8 * i + 8) = ?w (8 * i) XOR (SubWord (RotWord (?w (8 * i + 7))) XOR Rcon (Suc i))"
      by (subst fips_w.simps) (simp add: add.commute del: Rcon.simps)
    then show ?thesis
      by (simp only: sub_rot_word[symmetric] RCON_Rcon[OF assms] xor.assoc)
  qed
  have n: "?w (8 * i + 9) = ?w (8 * i + 1) XOR ?w (8 * i + 8)"
    "?w (8 * i + 10) = ?w (8 * i + 2) XOR ?w (8 * i + 9)"
    "?w (8 * i + 11) = ?w (8 * i + 3) XOR ?w (8 * i + 10)"
    by (rule fips_w_step; simp)+
  have "[0..<8 * i + 12] = [0..<8 * i + 8] @ [8 * i + 8..<8 * i + 12]"
    by (rule upt_split) simp_all
  then have "map ?w [0..<8 * i + 12] = map ?w [0..<8 * i + 8] @ map ?w [8 * i + 8..<8 * i + 12]"
    by (simp only: map_append)
  moreover have "[8 * i + 8..<8 * i + 12] = [8 * i + 8, 8 * i + 9, 8 * i + 10, 8 * i + 11]"
    by (simp add: upt_conv_Cons)
  ultimately show ?thesis
    using w[of 0] w[of 1] w[of 2] w[of 3] w[of 7]
    by (simp add: key_first_def Let_def 8 n)
qed

lemma key_second_value:
  "key_second (8 * i) (map (fips_w key) [0..<8 * i + 12]) = map (fips_w key) [0..<8 * Suc i + 8]"
proof -
  let ?w = "fips_w key"
  have w: "map ?w [0..<8 * i + 12] ! (8 * i + j) = ?w (8 * i + j)" if "j < 12" for j
    using that by simp
  have 12: "?w (8 * i + 12) = ?w (8 * i + 4) XOR TE411 (?w (8 * i + 11)) XOR TE422 (?w (8 * i + 11))
      XOR TE433 (?w (8 * i + 11)) XOR TE444 (?w (8 * i + 11))"
  proof -
    have "?w (8 * i + 12) = ?w (8 * i + 4) XOR SubWord (?w (8 * i + 11))"
      by (subst fips_w.simps) (simp add: add.commute)
    then show ?thesis by (simp only: sub_word[symmetric] xor.assoc)
  qed
  have n: "?w (8 * i + 13) = ?w (8 * i + 5) XOR ?w (8 * i + 12)"
    "?w (8 * i + 14) = ?w (8 * i + 6) XOR ?w (8 * i + 13)"
    "?w (8 * i + 15) = ?w (8 * i + 7) XOR ?w (8 * i + 14)"
    by (rule fips_w_step; simp)+
  have "[0..<8 * i + 16] = [0..<8 * i + 12] @ [8 * i + 12..<8 * i + 16]"
    by (rule upt_split) simp_all
  then have "map ?w [0..<8 * i + 16] = map ?w [0..<8 * i + 12] @ map ?w [8 * i + 12..<8 * i + 16]"
    by (simp only: map_append)
  moreover have "[8 * i + 12..<8 * i + 16] = [8 * i + 12, 8 * i + 13, 8 * i + 14, 8 * i + 15]"
    by (simp add: upt_conv_Cons)
  moreover have e: "8 * Suc i + 8 = 8 * i + 16" by simp
  ultimately show ?thesis unfolding e
    using w[of 4] w[of 5] w[of 6] w[of 7] w[of 11]
    by (simp add: key_second_def Let_def 12 n)
qed

lemma key_loop_value:
  "i + n = 7 \<Longrightarrow> 0 < n \<Longrightarrow>
     key_loop n i (8 * i) (map (fips_w key) [0..<8 * i + 8]) = (map (fips_w key) [0..<60], 14)"
proof (induction n arbitrary: i)
  case (Suc n)
  have f: "key_first i (8 * i) (map (fips_w key) [0..<8 * i + 8]) = map (fips_w key) [0..<8 * i + 12]"
    by (rule key_first_value) (use Suc.prems in simp)
  show ?case
  proof (cases "i = 6")
    case True
    then show ?thesis using f by (simp add: Let_def)
  next
    case False
    then have n: "Suc i + n = 7" "0 < n" using Suc.prems by simp_all
    have "key_loop (Suc n) i (8 * i) (map (fips_w key) [0..<8 * i + 8])
        = key_loop n (Suc i) (8 * Suc i) (map (fips_w key) [0..<8 * Suc i + 8])"
      unfolding key_loop.simps(2) Let_def f key_second_value using False by (simp add: add.commute)
    then show ?thesis using Suc.IH[OF n] by simp
  qed
qed simp

lemma upt8: "[0..<8] = [0, 1, 2, 3, 4, 5, 6, 7 :: nat]"
  by (simp add: upt_rec)

lemma fips_w_key:
  "i < 8 \<Longrightarrow> fips_w key i = be4 (key ! (4 * i)) (key ! (4 * i + 1)) (key ! (4 * i + 2)) (key ! (4 * i + 3))"
  by (subst fips_w.simps) simp

lemma rijndaelKeySetupEnc_value: "rijndaelKeySetupEnc key = (map (fips_w key) [0..<60], 14)"
proof -
  have "[GETU32 key 0, GETU32 key 4, GETU32 key 8, GETU32 key 12,
       GETU32 key 16, GETU32 key 20, GETU32 key 24, GETU32 key 28] = map (fips_w key) [0..<8]"
    by (simp add: upt8 GETU32_be4 fips_w_key)
  then show ?thesis
    using key_loop_value[of 0 7 key] by (simp add: rijndaelKeySetupEnc_def)
qed

lemma aes_encrypt_init_value:
  "aes_encrypt_init ok key = (if ok then Some (map (fips_w key) [0..<60] @ [14]) else None)"
  by (simp add: aes_encrypt_init_def rijndaelKeySetupEnc_value del: upt_rec_numeral)

lemma fips_cipher_cong:
  assumes "\<And>n. n < 4 * Nr + 4 \<Longrightarrow> w n = w' n" "0 < Nr"
  shows "fips_cipher Nr w pt = fips_cipher Nr w' pt"
proof -
  have k: "AddRoundKey w r s = AddRoundKey w' r s" if "r \<le> Nr" for r s
    using that assms(1) by (simp add: AddRoundKey_def upt4)
  have "fold (fips_round w) [1..<Nr] s = fold (fips_round w') [1..<Nr] s" for s
    by (rule fold_cong) (simp_all add: fips_round_def fun_eq_iff k)
  then show ?thesis using k by (simp add: fips_cipher_def)
qed

lemma aes_encrypt_value:
  assumes "aes_encrypt_init ok key = Some ctx" "length pt = 16" "16 \<le> length ct"
  shows "aes_encrypt ctx pt ct = fips_aes256 key pt @ drop 16 ct"
proof -
  have ctx: "ctx = map (fips_w key) [0..<60] @ [14]"
    using assms(1) by (simp add: aes_encrypt_init_value split: if_splits)
  have "ctx ! 60 = 14" by (simp add: ctx nth_append del: upt_rec_numeral)
  moreover have "fips_cipher 14 ((!) ctx) pt = fips_cipher 14 (fips_w key) pt"
    by (rule fips_cipher_cong) (simp_all add: ctx nth_append del: upt_rec_numeral)
  ultimately show ?thesis
    by (simp only: aes_encrypt_def rijndaelEncrypt_cipher[OF assms(2,3)] fips_aes256_def)
qed

section \<open>Properties\<close>

text \<open>C21: The unrolled key setup always succeeds with 14 rounds and writes exactly the 60 words of the
  key expansion of FIPS 197.\<close>

theorem key_setup_is_key_expansion:
  "rijndaelKeySetupEnc key = (map (fips_w key) [0..<60], 14)"
  by (rule rijndaelKeySetupEnc_value)

text \<open>C2: With the context \<open>aes_encrypt_init\<close> builds for a key, table-driven encryption of a block
  writes the AES-256 ciphertext of FIPS 197 to the output block and nothing behind it.\<close>

theorem aes_encrypt_is_fips:
  assumes "aes_encrypt_init malloc_ok key = Some ctx" "length pt = 16" "16 \<le> length ct"
  shows "aes_encrypt ctx pt ct = fips_aes256 key pt @ drop 16 ct"
  by (rule aes_encrypt_value[OF assms])

theorem aes_encrypt_is_fips_witness:
  "aes_encrypt (the (aes_encrypt_init True (replicate 32 0))) (replicate 16 1) (replicate 20 7)
     = fips_aes256 (replicate 32 0) (replicate 16 1) @ [7, 7, 7, 7]"
  using aes_encrypt_is_fips[of True "replicate 32 0" _ "replicate 16 1" "replicate 20 7"]
  by (simp add: aes_encrypt_init_value eval_nat_numeral del: upt_rec_numeral upt_Suc)

end
