(* ===== verification/AesGcm.thy ===== *)
theory AesGcm
  imports Aes CMemory
begin

text \<open>
  Galois/counter mode over the AES-256 cipher, \<^verbatim>\<open>applications/aes-256-gcm/aes-gcm.c\<close>.  A pointer
  with its length is a list; blocks are lists of 16 bytes, and local buffers are arguments where
  their contents on entry could matter.  The reference is NIST SP 800-38D: the hash over 128-bit
  words with the product of the field with \<open>2\<^sup>1\<^sup>2\<^sup>8\<close> elements, and counter mode over any block cipher.
\<close>

section \<open>Operations on blocks\<close>

definition inc32 :: "u8 list \<Rightarrow> u8 list" where
  "inc32 block = PUTU32 block 12 (GETU32 block 12 + 1)"

text \<open>The accesses through \<open>u32 *\<close> of \<open>xor_block\<close>: the core is little endian.\<close>

definition ld32 :: "u8 list \<Rightarrow> nat \<Rightarrow> u32" where
  "ld32 b n = be4 (b ! (n + 3)) (b ! (n + 2)) (b ! (n + 1)) (b ! n)"
definition st32 :: "u8 list \<Rightarrow> nat \<Rightarrow> u32 \<Rightarrow> u8 list" where
  "st32 b n w = b[n := ucast w, n + 1 := ucast (drop_bit 8 w), n + 2 := ucast (drop_bit 16 w),
     n + 3 := ucast (drop_bit 24 w)]"

definition xor_block :: "u8 list \<Rightarrow> u8 list \<Rightarrow> u8 list" where
  "xor_block dst src =
     (let d = st32 dst 0 (ld32 dst 0 XOR ld32 src 0);
          d = st32 d 4 (ld32 d 4 XOR ld32 src 4);
          d = st32 d 8 (ld32 d 8 XOR ld32 src 8)
      in st32 d 12 (ld32 d 12 XOR ld32 src 12))"

definition shift_right_block :: "u8 list \<Rightarrow> u8 list" where
  "shift_right_block v =
     (let val = drop_bit 1 (GETU32 v 12);
          val = (if v ! 11 AND 0x01 \<noteq> 0 then val OR 0x80000000 else val);
          v = PUTU32 v 12 val;
          val = drop_bit 1 (GETU32 v 8);
          val = (if v ! 7 AND 0x01 \<noteq> 0 then val OR 0x80000000 else val);
          v = PUTU32 v 8 val;
          val = drop_bit 1 (GETU32 v 4);
          val = (if v ! 3 AND 0x01 \<noteq> 0 then val OR 0x80000000 else val);
          v = PUTU32 v 4 val;
          val = drop_bit 1 (GETU32 v 0)
      in PUTU32 v 0 val)"

text \<open>The body of the two loops of \<open>gf_mult\<close>.\<close>

definition gf_step :: "u8 list \<Rightarrow> nat \<Rightarrow> nat \<Rightarrow> u8 list \<times> u8 list \<Rightarrow> u8 list \<times> u8 list" where
  "gf_step x i j zv =
     (let (z, v) = zv;
          z = (if x ! i AND push_bit (7 - j) 1 \<noteq> 0 then xor_block z v else z);
          v = (if v ! 15 AND 0x01 \<noteq> 0
               then (let v = shift_right_block v in v[0 := v ! 0 XOR 0xe1])
               else shift_right_block v)
      in (z, v))"

definition gf_mult :: "u8 list \<Rightarrow> u8 list \<Rightarrow> u8 list" where
  "gf_mult x y = fst (fold (\<lambda>i. fold (gf_step x i) [0..<8]) [0..<16] (replicate 16 0, take 16 y))"

section \<open>The hash\<close>

definition ghash_start :: "u8 list" where
  "ghash_start = replicate 16 0"

definition ghash :: "u8 list \<Rightarrow> u8 list \<Rightarrow> u8 list \<Rightarrow> u8 list" where
  "ghash h x y =
     (let m = length x div 16;
          y = fold (\<lambda>i y. gf_mult (xor_block y (drop (16 * i) x)) h) [0..<m] y
      in if 16 * m < length x then
           (let last = length x - 16 * m;
                tmp = take last (drop (16 * m) x) @ replicate (16 - last) 0
            in gf_mult (xor_block y tmp) h)
         else y)"

section \<open>Counter mode\<close>

text \<open>The loop over full blocks; \<open>k\<close> is the offset of \<open>xpos\<close> and \<open>ypos\<close>.\<close>

fun gctr_blocks :: "nat \<Rightarrow> u32 list \<Rightarrow> nat \<Rightarrow> u8 list \<Rightarrow> u8 list \<Rightarrow> u8 list \<Rightarrow> u8 list \<times> u8 list" where
  "gctr_blocks 0 aes k cb x y = (cb, y)"
| "gctr_blocks (Suc n) aes k cb x y =
     (let y = take k y @ aes_encrypt aes cb (drop k y);
          y = take k y @ xor_block (drop k y) (drop k x)
      in gctr_blocks n aes (k + 16) (inc32 cb) x y)"

definition aes_gctr :: "u32 list \<Rightarrow> u8 list \<Rightarrow> u8 list \<Rightarrow> u8 list \<Rightarrow> u8 list \<Rightarrow> u8 list" where
  "aes_gctr aes icb x y tmp =
     (if length x = 0 then y
      else
        (let n = length x div 16;
             cb = take 16 icb;
             (cb, y) = gctr_blocks n aes 0 cb x y;
             last = length x - 16 * n
         in if last \<noteq> 0 then
              (let tmp = aes_encrypt aes cb tmp
               in fold (\<lambda>i y. y[16 * n + i := x ! (16 * n + i) XOR tmp ! i]) [0..<last] y)
            else y))"

section \<open>Authenticated encryption\<close>

text \<open>\<open>PUTU64(buf + n, st)\<close>; the argument is computed in 32 bits before the conversion.\<close>

definition PUTU64 :: "u8 list \<Rightarrow> nat \<Rightarrow> u64 \<Rightarrow> u8 list" where
  "PUTU64 ct n st = ct[n := ucast (drop_bit 56 st), n + 1 := ucast (drop_bit 48 st),
     n + 2 := ucast (drop_bit 40 st), n + 3 := ucast (drop_bit 32 st), n + 4 := ucast (drop_bit 24 st),
     n + 5 := ucast (drop_bit 16 st), n + 6 := ucast (drop_bit 8 st), n + 7 := ucast (st AND 0xff)]"

definition aes_gcm_init_hash_subkey :: "bool \<Rightarrow> u8 list \<Rightarrow> (u32 list \<times> u8 list) option" where
  "aes_gcm_init_hash_subkey malloc_ok key =
     (case aes_encrypt_init malloc_ok key of
        None \<Rightarrow> None
      | Some aes \<Rightarrow> (let H = replicate 16 0 in Some (aes, aes_encrypt aes H H)))"

definition aes_gcm_prepare_j0 :: "u8 list \<Rightarrow> u8 list \<Rightarrow> u8 list \<Rightarrow> u8 list" where
  "aes_gcm_prepare_j0 iv H len_buf =
     (if length iv = 12 then (iv @ replicate (16 - length iv) 0)[15 := 0x01]
      else
        (let J0 = ghash H iv ghash_start;
             len_buf = PUTU64 len_buf 0 0;
             len_buf = PUTU64 len_buf 8 (ucast (of_nat (length iv) * 8 :: u32))
         in ghash H len_buf J0))"

definition aes_gcm_gctr :: "u32 list \<Rightarrow> u8 list \<Rightarrow> u8 list \<Rightarrow> u8 list \<Rightarrow> u8 list \<Rightarrow> u8 list" where
  "aes_gcm_gctr aes J0 plain crypt tmp =
     (if length plain = 0 then crypt
      else aes_gctr aes (inc32 (take 16 J0)) plain crypt tmp)"

definition aes_gcm_ghash :: "u8 list \<Rightarrow> u8 list \<Rightarrow> u8 list \<Rightarrow> u8 list \<Rightarrow> u8 list" where
  "aes_gcm_ghash H aad crypt len_buf =
     (let S = ghash H aad ghash_start;
          S = ghash H crypt S;
          len_buf = PUTU64 len_buf 0 (ucast (of_nat (length aad) * 8 :: u32));
          len_buf = PUTU64 len_buf 8 (ucast (of_nat (length crypt) * 8 :: u32))
      in ghash H len_buf S)"

text \<open>\<open>crypt\<close> and \<open>tag\<close> are the output buffers, \<open>buf\<close> what the local buffers hold on entry.  \<open>None\<close> is the
  result -1.  The last call of the code, \<open>aes_encrypt_deinit\<close>, wipes the key schedule and frees its memory; nothing the
  function returns depends on it, and its wiping is the definition of that name in \<open>Aes\<close>.\<close>

definition aes_gcm_ae :: "bool \<Rightarrow> u8 list \<Rightarrow> u8 list \<Rightarrow> u8 list \<Rightarrow> u8 list \<Rightarrow> u8 list \<Rightarrow> u8 list \<Rightarrow> u8 list
    \<Rightarrow> (u8 list \<times> u8 list) option" where
  "aes_gcm_ae malloc_ok key iv plain aad crypt tag buf =
     (case aes_gcm_init_hash_subkey malloc_ok key of
        None \<Rightarrow> None
      | Some (aes, H) \<Rightarrow>
          (let J0 = aes_gcm_prepare_j0 iv H buf;
               crypt = aes_gcm_gctr aes J0 plain crypt buf;
               S = aes_gcm_ghash H aad (take (length plain) crypt) buf;
               tag = aes_gctr aes J0 S tag buf
           in Some (crypt, tag)))"

section \<open>The standard\<close>

type_synonym u128 = "128 word"

text \<open>Multiplication of a block by \<open>x\<close>: bit 127 of the word is the coefficient of \<open>x\<^sup>0\<close>, and \<open>x\<^sup>1\<^sup>2\<^sup>8\<close> is
  \<open>1 + x + x\<^sup>2 + x\<^sup>7\<close>.\<close>

definition mulx :: "u128 \<Rightarrow> u128" where
  "mulx V = drop_bit 1 V XOR (if bit V 0 then push_bit 120 0xe1 else 0)"

primrec gf_sum :: "nat \<Rightarrow> u128 \<Rightarrow> u128 \<Rightarrow> u128" where
  "gf_sum 0 X Y = 0"
| "gf_sum (Suc n) X Y = gf_sum n X Y XOR (if bit X (127 - n) then (mulx ^^ n) Y else 0)"

definition gf128_mult :: "u128 \<Rightarrow> u128 \<Rightarrow> u128" where
  "gf128_mult X Y = gf_sum 128 X Y"

definition block_word :: "u8 list \<Rightarrow> u128" where
  "block_word bs = fold (\<lambda>b w. push_bit 8 w OR ucast b) bs 0"

fun blocks16 :: "u8 list \<Rightarrow> u8 list list" where
  "blocks16 bs = (if bs = [] then [] else take 16 bs # blocks16 (drop 16 bs))"

declare blocks16.simps [simp del]

definition pad16 :: "u8 list \<Rightarrow> u8 list" where
  "pad16 bs = bs @ replicate ((16 - length bs mod 16) mod 16) 0"

definition ghash_spec :: "u128 \<Rightarrow> u8 list \<Rightarrow> u128" where
  "ghash_spec H bs = fold (\<lambda>b Y. gf128_mult (Y XOR block_word b) H) (blocks16 bs) 0"

definition inc32_spec :: "u8 list \<Rightarrow> u8 list" where
  "inc32_spec cb = take 12 cb @ word_bytes (be4 (cb ! 12) (cb ! 13) (cb ! 14) (cb ! 15) + 1)"

fun gctr_spec :: "(u8 list \<Rightarrow> u8 list) \<Rightarrow> u8 list \<Rightarrow> u8 list \<Rightarrow> u8 list" where
  "gctr_spec E cb x =
     (if x = [] then [] else map2 (XOR) (take 16 x) (E cb) @ gctr_spec E (inc32_spec cb) (drop 16 x))"

declare gctr_spec.simps [simp del]

lemma gctr_spec_Nil [simp]: "gctr_spec E cb [] = []"
  by (simp add: gctr_spec.simps)

definition gcm_j0 :: "u128 \<Rightarrow> u8 list \<Rightarrow> u8 list" where
  "gcm_j0 H iv =
     (if length iv = 12 then iv @ [0, 0, 0, 1]
      else bytes_be 16 (ghash_spec H (pad16 iv @ replicate 8 0 @ bytes_be 8 (of_nat (8 * length iv) :: u64))))"

definition gcm_ae :: "(u8 list \<Rightarrow> u8 list) \<Rightarrow> u8 list \<Rightarrow> u8 list \<Rightarrow> u8 list \<Rightarrow> u8 list \<times> u8 list" where
  "gcm_ae E iv plain aad =
     (let H = block_word (E (replicate 16 0));
          J0 = gcm_j0 H iv;
          C = gctr_spec E (inc32_spec J0) plain;
          S = ghash_spec H (pad16 aad @ pad16 C @ bytes_be 8 (of_nat (8 * length aad) :: u64)
                @ bytes_be 8 (of_nat (8 * length C) :: u64))
      in (C, gctr_spec E J0 (bytes_be 16 S)))"

section \<open>Blocks as 128-bit words\<close>

lemma block_word_snoc: "block_word (bs @ [b]) = push_bit 8 (block_word bs) OR ucast b"
  by (simp add: block_word_def)

lemma bit_block_word:
  "bit (block_word bs) n \<longleftrightarrow> n < 128 \<and> n div 8 < length bs \<and> bit (bs ! (length bs - 1 - n div 8)) (n mod 8)"
proof (induction bs arbitrary: n rule: rev_induct)
  case Nil
  then show ?case by (simp add: block_word_def)
next
  case (snoc b bs)
  show ?case
  proof (cases "n < 8")
    case True
    then show ?thesis by (simp add: block_word_snoc bit_simps nth_append)
  next
    case False
    then have d: "n div 8 = Suc ((n - 8) div 8)" "n mod 8 = (n - 8) mod 8"
      by (simp_all add: le_div_geq le_mod_geq not_less)
    have b: "\<not> bit b n" using False bit_imp_le_length[of b n] by auto
    show ?thesis using False
      by (auto simp: block_word_snoc bit_simps snoc.IH d nth_append b)
  qed
qed

lemma block_word_xor:
  assumes "length a = 16" "length b = 16"
  shows "block_word (map2 (XOR) a b) = block_word a XOR block_word b"
  by (rule bit_word_eqI) (use assms in \<open>auto simp: bit_block_word bit_simps\<close>)

lemma bytes_be_block_word:
  assumes "length bs = 16"
  shows "bytes_be 16 (block_word bs) = bs"
proof (rule nth_equalityI)
  fix i assume "i < length (bytes_be 16 (block_word bs))"
  then have i: "i < 16" by simp
  show "bytes_be 16 (block_word bs) ! i = bs ! i"
  proof (rule bit_word_eqI)
    fix j assume "j < LENGTH(8)"
    then have j: "j < 8" by simp
    have "(8 * (15 - i) + j) div 8 = 15 - i" "(8 * (15 - i) + j) mod 8 = j"
      "8 * (15 - i) + j < 128" "15 - i < 16" using i j by simp_all
    then show "bit (bytes_be 16 (block_word bs) ! i) j = bit (bs ! i) j"
      using i j assms by (simp add: bytes_be_def bit_simps bit_block_word)
  qed
qed (simp add: assms)

lemma block_word_bytes_be: "block_word (bytes_be 16 w) = w"
proof (rule bit_word_eqI)
  fix n assume "n < LENGTH(128)"
  then have n: "n < 128" by simp
  define k where "k = n div 8"
  have k: "k < 16" using n unfolding k_def by linarith
  have e: "8 * k + n mod 8 = n" unfolding k_def by simp
  have "bytes_be 16 w ! (15 - k) = ucast (drop_bit (8 * k) w)"
    using k nth_bytes_be[of "15 - k" 16 w] by simp
  then have "bit (bytes_be 16 w ! (15 - k)) (n mod 8) = bit w n"
    using n by (simp add: bit_simps e)
  then show "bit (block_word (bytes_be 16 w)) n = bit w n"
    using n k by (simp add: bit_block_word k_def[symmetric])
qed

lemma xor_block_value:
  assumes "16 \<le> length d" "16 \<le> length s"
  shows "xor_block d s = map2 (XOR) (take 16 d) (take 16 s) @ drop 16 d"
proof -
  obtain x y where d: "d = x @ y" "length x = 16" using assms(1)
    by (metis append_take_drop_id length_take min.absorb2)
  obtain x' y' where s: "s = x' @ y'" "length x' = 16" using assms(2)
    by (metis append_take_drop_id length_take min.absorb2)
  show ?thesis
    using d(2) s(2) unfolding d(1) s(1)
    by (elim block_cases) (simp add: xor_block_def ld32_def st32_def Let_def be4_xor)
qed

lemma length_xor_block [simp]: "length (xor_block d s) = length d"
  by (simp add: xor_block_def st32_def Let_def)

lemma length_shift_right_block [simp]: "length (shift_right_block v) = length v"
  by (simp add: shift_right_block_def PUTU32_def Let_def)

lemma bit_top: "bit (0x80000000 :: u32) n \<longleftrightarrow> n = 31"
proof -
  have "(0x80000000 :: u32) = push_bit 31 1" by simp
  then show ?thesis by (simp only: bit_push_bit_iff) (auto simp: bit_simps)
qed

lemma block_word_word_bytes: "block_word (xs @ word_bytes w) = push_bit 32 (block_word xs) OR ucast w"
proof -
  have "xs @ word_bytes w = (((xs @ [ucast (drop_bit 24 w)]) @ [ucast (drop_bit 16 w)])
      @ [ucast (drop_bit 8 w)]) @ [ucast w]"
    by (simp add: word_bytes_def)
  then have "block_word (xs @ word_bytes w) = push_bit 8 (push_bit 8 (push_bit 8 (push_bit 8 (block_word xs)
      OR ucast (ucast (drop_bit 24 w) :: u8)) OR ucast (ucast (drop_bit 16 w) :: u8))
      OR ucast (ucast (drop_bit 8 w) :: u8)) OR ucast (ucast w :: u8)"
    by (simp only: block_word_snoc)
  also have "\<dots> = push_bit 32 (block_word xs) OR ucast w"
  proof (rule bit_word_eqI)
    fix n assume "n < LENGTH(128)"
    consider "n < 8" | "8 \<le> n" "n < 16" | "16 \<le> n" "n < 24" | "24 \<le> n" "n < 32" | "32 \<le> n" by linarith
    then show "bit (push_bit 8 (push_bit 8 (push_bit 8 (push_bit 8 (block_word xs)
      OR ucast (ucast (drop_bit 24 w) :: u8)) OR ucast (ucast (drop_bit 16 w) :: u8))
      OR ucast (ucast (drop_bit 8 w) :: u8)) OR ucast (ucast w :: u8)) n
      = bit (push_bit 32 (block_word xs) OR ucast w) n"
      by cases (auto simp: bit_simps dest: bit_imp_le_length)
  qed
  finally show ?thesis .
qed

definition quad :: "u32 \<Rightarrow> u32 \<Rightarrow> u32 \<Rightarrow> u32 \<Rightarrow> u8 list" where
  "quad w0 w1 w2 w3 = word_bytes w0 @ word_bytes w1 @ word_bytes w2 @ word_bytes w3"

lemma bit_quad:
  "bit (block_word (quad w0 w1 w2 w3)) n \<longleftrightarrow>
     (if n < 32 then bit w3 n else if n < 64 then bit w2 (n - 32)
      else if n < 96 then bit w1 (n - 64) else n < 128 \<and> bit w0 (n - 96))"
proof -
  have "quad w0 w1 w2 w3 = (((([] @ word_bytes w0) @ word_bytes w1) @ word_bytes w2) @ word_bytes w3)"
    by (simp add: quad_def)
  then have e: "block_word (quad w0 w1 w2 w3) = push_bit 32 (push_bit 32 (push_bit 32 (ucast w0)
      OR ucast w1) OR ucast w2) OR ucast w3"
    by (simp only: block_word_word_bytes) (simp add: block_word_def)
  consider "n < 32" | "32 \<le> n" "n < 64" | "64 \<le> n" "n < 96" | "96 \<le> n" by linarith
  then show ?thesis unfolding e
    by cases (auto simp: bit_simps dest: bit_imp_le_length)
qed

lemma quad_cases:
  assumes "length v = 16"
  obtains w0 w1 w2 w3 where "v = quad w0 w1 w2 w3"
proof -
  obtain a0 a1 a2 a3 b0 b1 b2 b3 c0 c1 c2 c3 d0 d1 d2 d3
    where "v = [a0, a1, a2, a3, b0, b1, b2, b3, c0, c1, c2, c3, d0, d1, d2, d3]"
    using assms by (rule block_cases)
  then have "v = quad (be4 a0 a1 a2 a3) (be4 b0 b1 b2 b3) (be4 c0 c1 c2 c3) (be4 d0 d1 d2 d3)"
    by (simp add: quad_def)
  then show ?thesis by (rule that)
qed

lemma be4_word: "be4 (ucast (drop_bit 24 w)) (ucast (drop_bit 16 w)) (ucast (drop_bit 8 w)) (ucast w) = w"
  by (rule be4_cases[of w]) simp

lemma GETU32_quad:
  "GETU32 (quad w0 w1 w2 w3) 0 = w0" "GETU32 (quad w0 w1 w2 w3) 4 = w1"
  "GETU32 (quad w0 w1 w2 w3) 8 = w2" "GETU32 (quad w0 w1 w2 w3) 12 = w3"
  by (simp_all add: GETU32_be4 quad_def word_bytes_def be4_word)

lemma PUTU32_quad:
  "PUTU32 (quad w0 w1 w2 w3) 0 w = quad w w1 w2 w3" "PUTU32 (quad w0 w1 w2 w3) 4 w = quad w0 w w2 w3"
  "PUTU32 (quad w0 w1 w2 w3) 8 w = quad w0 w1 w w3" "PUTU32 (quad w0 w1 w2 w3) 12 w = quad w0 w1 w2 w"
  by (simp_all add: PUTU32_def quad_def word_bytes_def)

lemma nth_quad:
  "quad w0 w1 w2 w3 ! 3 = ucast w0" "quad w0 w1 w2 w3 ! 7 = ucast w1" "quad w0 w1 w2 w3 ! 11 = ucast w2"
  "quad w0 w1 w2 w3 ! 15 = ucast w3"
  by (simp_all add: quad_def word_bytes_def)

lemma low_bit_test: "w AND 1 \<noteq> 0 \<longleftrightarrow> bit w 0" for w :: u8
  by (simp add: bit_0 and_one_eq odd_iff_mod_2_eq_one flip: take_bit_eq_mod)

definition carry :: "u32 \<Rightarrow> u32 \<Rightarrow> u32" where
  "carry w w' = (if bit w 0 then drop_bit 1 w' OR 0x80000000 else drop_bit 1 w')"

lemma bit_carry: "bit (carry w w') n \<longleftrightarrow> (if n = 31 then bit w 0 else bit w' (Suc n))"
proof -
  have "bit (drop_bit 1 w' OR 0x80000000) n \<longleftrightarrow> bit w' (Suc n) \<or> n = 31"
    by (simp only: bit_or_iff bit_top bit_drop_bit_eq o_apply plus_1_eq_Suc)
  then show ?thesis using bit_imp_le_length[of w' "Suc n"]
    by (auto simp: carry_def bit_drop_bit_eq)
qed

lemma shift_right_block_value:
  assumes "length v = 16"
  shows "block_word (shift_right_block v) = drop_bit 1 (block_word v)"
proof -
  obtain w0 w1 w2 w3 where v: "v = quad w0 w1 w2 w3" using assms by (rule quad_cases)
  have s: "shift_right_block v = quad (drop_bit 1 w0) (carry w0 w1) (carry w1 w2) (carry w2 w3)"
    by (simp add: shift_right_block_def Let_def v GETU32_quad PUTU32_quad nth_quad low_bit_test bit_simps carry_def)
  show ?thesis
  proof (rule bit_word_eqI)
    fix n assume "n < LENGTH(128)"
    have e: "Suc (n - 32) = n - 31" if "32 \<le> n" using that by simp
    have e2: "Suc (n - 64) = n - 63" if "64 \<le> n" using that by simp
    have e3: "Suc (n - 96) = n - 95" if "96 \<le> n" using that by simp
    consider "n < 31" | "n = 31" | "32 \<le> n" "n < 63" | "n = 63" | "64 \<le> n" "n < 95" | "n = 95" | "96 \<le> n"
      by linarith
    then show "bit (block_word (shift_right_block v)) n = bit (drop_bit 1 (block_word v)) n"
      unfolding s unfolding v
      by cases (auto simp: bit_drop_bit_eq bit_carry bit_quad e e2 e3 dest: bit_imp_le_length)
  qed
qed

section \<open>The product\<close>

lemma length_gf_step:
  assumes "gf_step x i j (z, v) = (z', v')" "length z = 16" "length v = 16"
  shows "length z' = 16" "length v' = 16"
  using assms by (auto simp: gf_step_def Let_def split: if_splits)

lemma block_word_update0:
  assumes "length v = 16"
  shows "block_word (v[0 := v ! 0 XOR e]) = block_word v XOR push_bit 120 (ucast e)"
proof (rule bit_word_eqI)
  fix n assume "n < LENGTH(128)"
  then have n: "n < 128" by simp
  show "bit (block_word (v[0 := v ! 0 XOR e])) n = bit (block_word v XOR push_bit 120 (ucast e)) n"
  proof (cases "n < 120")
    case True
    then have "15 - n div 8 \<noteq> 0" by linarith
    then show ?thesis using n assms True by (simp add: bit_block_word bit_simps)
  next
    case False
    then have "n div 8 = 15" "n mod 8 = n - 120" "n - 120 < 128" using n by (simp_all add: div_nat_eqI mod_if)
    then show ?thesis using n assms False by (simp add: bit_block_word bit_simps)
  qed
qed

lemma gf_step_word:
  assumes "gf_step x i j (z, v) = (z', v')" "length z = 16" "length v = 16" "length x = 16" "i < 16" "j < 8"
  shows "block_word z' = block_word z XOR (if bit (block_word x) (127 - (8 * i + j)) then block_word v else 0)"
    and "block_word v' = mulx (block_word v)"
proof -
  have "(127 - (8 * i + j)) div 8 = 15 - i" "(127 - (8 * i + j)) mod 8 = 7 - j"
    "127 - (8 * i + j) < 128" "15 - (15 - i) = i"
  proof -
    have e: "127 - (8 * i + j) = 8 * (15 - i) + (7 - j)" using assms(5,6) by simp
    show "(127 - (8 * i + j)) div 8 = 15 - i" "(127 - (8 * i + j)) mod 8 = 7 - j"
      unfolding e by simp_all
  qed (use assms(5,6) in simp_all)
  then have bx: "x ! i AND push_bit (7 - j) 1 \<noteq> 0 \<longleftrightarrow> bit (block_word x) (127 - (8 * i + j))"
    using assms(4,5,6) unfolding bit_iff_and_push_bit_not_eq_0[symmetric]
    by (simp add: bit_block_word less_imp_diff_less)
  have b15: "v ! 15 AND 1 \<noteq> 0 \<longleftrightarrow> bit (block_word v) 0"
    using assms(3) by (simp add: low_bit_test bit_block_word)
  show "block_word z' = block_word z XOR (if bit (block_word x) (127 - (8 * i + j)) then block_word v else 0)"
    using assms(1-3) bx block_word_xor[of z v]
    by (auto simp: gf_step_def Let_def xor_block_value)
  show "block_word v' = mulx (block_word v)"
    using assms(1-3) b15
    by (auto simp: gf_step_def Let_def mulx_def block_word_update0 shift_right_block_value)
qed

lemma fold_nested: "fold (\<lambda>i. fold (g i) [0..<8]) [0..<n] s = fold (\<lambda>k. g (k div 8) (k mod 8)) [0..<8 * n] s"
proof (induction n)
  case (Suc n)
  have "fold (\<lambda>k. g (k div 8) (k mod 8)) [8 * n..<8 * n + 8] s = fold (g n) [0..<8] s" for s
  proof -
    have "[8 * n..<8 * n + 8] = map (\<lambda>j. 8 * n + j) [0..<8]" by (simp add: map_add_upt add.commute)
    then have "fold (\<lambda>k. g (k div 8) (k mod 8)) [8 * n..<8 * n + 8] s
        = fold (\<lambda>j. g ((8 * n + j) div 8) ((8 * n + j) mod 8)) [0..<8] s"
      by (simp only: fold_map o_def)
    also have "\<dots> = fold (g n) [0..<8] s"
      by (rule fold_cong) simp_all
    finally show ?thesis .
  qed
  moreover have "[0..<8 * Suc n] = [0..<8 * n] @ [8 * n..<8 * n + 8]"
    using upt_split[of 0 "8 * n" "8 * n + 8"] by (simp add: add.commute)
  ultimately show ?case using Suc by (simp del: upt_Suc add: upt_Suc_append)
qed simp

lemma gf_mult_value:
  assumes "length x = 16" "length y = 16"
  shows "length (gf_mult x y) = 16 \<and> block_word (gf_mult x y) = gf128_mult (block_word x) (block_word y)"
proof -
  let ?f = "\<lambda>k. gf_step x (k div 8) (k mod 8)"
  have "\<exists>z v. fold ?f [0..<k] (replicate 16 0, y) = (z, v) \<and> length z = 16 \<and> length v = 16
      \<and> block_word z = gf_sum k (block_word x) (block_word y) \<and> block_word v = (mulx ^^ k) (block_word y)"
    if "k \<le> 128" for k
    using that
  proof (induction k)
    case 0
    then show ?case using assms by (auto intro!: bit_word_eqI simp: bit_block_word)
  next
    case (Suc k)
    then obtain z v where s: "fold ?f [0..<k] (replicate 16 0, y) = (z, v)" "length z = 16" "length v = 16"
      "block_word z = gf_sum k (block_word x) (block_word y)" "block_word v = (mulx ^^ k) (block_word y)"
      by auto
    obtain z' v' where st: "?f k (z, v) = (z', v')" by fastforce
    have "k div 8 < 16" "k mod 8 < 8" "8 * (k div 8) + k mod 8 = k" using Suc.prems by simp_all
    then have "block_word z' = block_word z XOR (if bit (block_word x) (127 - k) then block_word v else 0)"
      "block_word v' = mulx (block_word v)"
      using gf_step_word[OF st s(2,3) assms(1)] by simp_all
    then show ?case
      using s st length_gf_step[OF st s(2,3)] by (simp add: upt_Suc_append)
  qed
  from this[of 128] show ?thesis
    using assms(2) by (auto simp: gf_mult_def fold_nested gf128_mult_def simp del: upt_rec_numeral)
qed

section \<open>The field\<close>

text \<open>\<open>gf128_mult\<close> is the product of a commutative ring over the words with exclusive or as addition.\<close>

lemma mulx_xor: "mulx (A XOR B) = mulx A XOR mulx B"
  by (rule bit_word_eqI) (auto simp: mulx_def bit_xor_iff bit_drop_bit_eq)

lemma mulx_0 [simp]: "mulx 0 = 0"
  by (simp add: mulx_def)

lemma mulx_pow_xor: "(mulx ^^ n) (A XOR B) = (mulx ^^ n) A XOR (mulx ^^ n) B"
  by (induction n) (simp_all add: mulx_xor)

lemma mulx_pow_0 [simp]: "(mulx ^^ n) 0 = 0"
  by (induction n) simp_all

lemma xor_swap: "(a XOR b) XOR (c XOR d) = (a XOR c) XOR (b XOR d)" for a b c d :: u128
  by (simp only: xor.assoc xor.left_commute)

lemma gf_sum_xor: "gf_sum n X (A XOR B) = gf_sum n X A XOR gf_sum n X B"
  by (induction n) (auto simp: mulx_pow_xor xor_swap)

lemma gf_sum_xor_left: "gf_sum n (X XOR X') Y = gf_sum n X Y XOR gf_sum n X' Y"
  by (induction n) (auto simp: bit_xor_iff xor.assoc xor.left_commute xor.commute)

lemma gf_sum_mulx_pow: "gf_sum n X ((mulx ^^ k) Y) = (mulx ^^ k) (gf_sum n X Y)"
  by (induction n) (auto simp: mulx_pow_xor funpow_add[symmetric] add.commute simp flip: comp_apply[of "mulx ^^ _" "mulx ^^ _"])

lemma gf_sum_0 [simp]: "gf_sum n X 0 = 0"
  by (induction n) simp_all

lemma gf_sum_swap: "gf_sum n X (gf_sum m Y Z) = gf_sum m Y (gf_sum n X Z)"
  by (induction n) (auto simp: gf_sum_xor gf_sum_mulx_pow)

definition gf_one :: u128 where "gf_one = push_bit 127 1"

lemma mulx_pow_one: "n < 128 \<Longrightarrow> (mulx ^^ n) gf_one = push_bit (127 - n) 1"
proof (induction n)
  case (Suc n)
  then have "127 - n = Suc (127 - Suc n)" by simp
  then show ?case using Suc by (auto simp: mulx_def bit_simps intro!: bit_word_eqI)
qed (simp add: gf_one_def)

lemma gf_sum_one: "n \<le> 128 \<Longrightarrow> bit (gf_sum n X gf_one) k \<longleftrightarrow> 128 - n \<le> k \<and> bit X k"
proof (induction n)
  case (Suc n)
  then have IH: "bit (gf_sum n X gf_one) k \<longleftrightarrow> 128 - n \<le> k \<and> bit X k"
    and m: "(mulx ^^ n) gf_one = push_bit (127 - n) 1" by (simp_all add: mulx_pow_one)
  have "bit (push_bit (127 - n) (1 :: u128)) k \<longleftrightarrow> k = 127 - n"
    using Suc.prems by (auto simp: bit_simps)
  moreover have "128 - Suc n \<le> k \<longleftrightarrow> k = 127 - n \<or> 128 - n \<le> k" "\<not> 128 - n \<le> 127 - n"
    using Suc.prems by auto
  ultimately show ?case by (auto simp: IH m bit_xor_iff)
next
  case 0
  then show ?case using bit_imp_le_length[of X k] by auto
qed

lemma gf128_one: "gf128_mult X gf_one = X"
  by (rule bit_word_eqI) (simp add: gf128_mult_def gf_sum_one)

lemma gf128_comm: "gf128_mult X Y = gf128_mult Y X"
proof -
  have "gf128_mult X Y = gf128_mult X (gf128_mult Y gf_one)" by (simp only: gf128_one)
  also have "\<dots> = gf128_mult Y (gf128_mult X gf_one)" unfolding gf128_mult_def by (rule gf_sum_swap)
  finally show ?thesis by (simp only: gf128_one)
qed

lemma gf128_assoc: "gf128_mult (gf128_mult X Y) Z = gf128_mult X (gf128_mult Y Z)"
proof -
  have "gf128_mult (gf128_mult X Y) Z = gf128_mult Z (gf128_mult X Y)" by (rule gf128_comm)
  also have "\<dots> = gf128_mult X (gf128_mult Z Y)" unfolding gf128_mult_def by (rule gf_sum_swap)
  finally show ?thesis by (simp only: gf128_comm[of Z Y])
qed

lemma mulx_pow_128: "(mulx ^^ 128) gf_one = push_bit 120 0xe1"
proof -
  have "(128 :: nat) = Suc 127" by simp
  then have "(mulx ^^ 128) gf_one = mulx ((mulx ^^ 127) gf_one)"
    by (simp only: funpow.simps o_apply)
  also have "\<dots> = push_bit 120 0xe1"
    by (simp add: mulx_pow_one) (simp add: mulx_def)
  finally show ?thesis .
qed

lemma block_word_lead: "block_word (b # replicate 15 0) = push_bit 120 (ucast b)"
proof (rule bit_word_eqI)
  fix n assume "n < LENGTH(128)"
  then have n: "n < 128" by simp
  show "bit (block_word (b # replicate 15 0)) n = bit (push_bit 120 (ucast b) :: u128) n"
  proof (cases "n < 120")
    case True
    then have "n div 8 < 15" by linarith
    then have "15 - n div 8 = Suc (14 - n div 8)" "14 - n div 8 < 15" by linarith+
    then show ?thesis using n True by (simp add: bit_block_word bit_simps)
  next
    case False
    then have "n div 8 = 15" "n mod 8 = n - 120" "n - 120 < 128" using n by (simp_all add: div_nat_eqI mod_if)
    then show ?thesis using n False by (simp add: bit_block_word bit_simps)
  qed
qed

section \<open>The hash\<close>

lemma blocks16_Nil [simp]: "blocks16 [] = []"
  by (simp add: blocks16.simps)

lemma blocks16_Cons: "length x = 16 \<Longrightarrow> blocks16 (x @ y) = x # blocks16 y"
  by (subst blocks16.simps) auto

lemma blocks16_append: "16 dvd length x \<Longrightarrow> blocks16 (x @ y) = blocks16 x @ blocks16 y"
proof (induction x rule: blocks16.induct)
  case (1 x)
  show ?case
  proof (cases "x = []")
    case False
    then have l: "16 \<le> length x" using 1(2) by (simp add: dvd_imp_le)
    then have d: "16 dvd length (drop 16 x)" using 1(2) by (simp add: dvd_diff_nat)
    have e: "x = take 16 x @ drop 16 x" and k: "length (take 16 x) = 16" using l by simp_all
    have "blocks16 (x @ y) = take 16 x # blocks16 (drop 16 x @ y)"
      by (metis append.assoc blocks16_Cons e k)
    also have "\<dots> = take 16 x # (blocks16 (drop 16 x) @ blocks16 y)" using 1(1)[OF False d] by simp
    also have "\<dots> = blocks16 x @ blocks16 y" using False by (simp add: blocks16.simps[of x])
    finally show ?thesis .
  qed simp
qed

definition ghash_step :: "u128 \<Rightarrow> u8 list \<Rightarrow> u128 \<Rightarrow> u128" where
  "ghash_step H b Y = gf128_mult (Y XOR block_word b) H"

lemma gf_mult_xor_block:
  assumes "length y = 16" "length h = 16" "16 \<le> length b"
  shows "length (gf_mult (xor_block y b) h) = 16"
    "block_word (gf_mult (xor_block y b) h) = ghash_step (block_word h) (take 16 b) (block_word y)"
  using gf_mult_value[of "xor_block y b" h] assms
  by (simp_all add: xor_block_value block_word_xor ghash_step_def)

lemma ghash_blocks:
  assumes "length y = 16" "length h = 16" "16 * m \<le> length x"
  shows "length (fold (\<lambda>i y. gf_mult (xor_block y (drop (16 * i) x)) h) [0..<m] y) = 16 \<and>
    block_word (fold (\<lambda>i y. gf_mult (xor_block y (drop (16 * i) x)) h) [0..<m] y)
      = fold (ghash_step (block_word h)) (blocks16 (take (16 * m) x)) (block_word y)"
  using assms(3)
proof (induction m)
  case (Suc m)
  let ?y = "fold (\<lambda>i y. gf_mult (xor_block y (drop (16 * i) x)) h) [0..<m] y"
  have IH: "length ?y = 16" "block_word ?y = fold (ghash_step (block_word h)) (blocks16 (take (16 * m) x)) (block_word y)"
    using Suc by simp_all
  have "16 * Suc m = 16 * m + 16" by simp
  then have "take (16 * Suc m) x = take (16 * m) x @ take 16 (drop (16 * m) x)"
    by (simp only: take_add)
  moreover have "16 dvd length (take (16 * m) x)" using Suc.prems by simp
  moreover have "blocks16 (take 16 (drop (16 * m) x)) = [take 16 (drop (16 * m) x)]"
    using blocks16_Cons[of "take 16 (drop (16 * m) x)" "[]"] Suc.prems by simp
  ultimately have b: "blocks16 (take (16 * Suc m) x) = blocks16 (take (16 * m) x) @ [take 16 (drop (16 * m) x)]"
    by (simp only: blocks16_append)
  have "16 \<le> length (drop (16 * m) x)" using Suc.prems by simp
  from gf_mult_xor_block[OF IH(1) assms(2) this] show ?case
    unfolding b by (simp add: IH(2))
qed (simp add: assms(1))

lemma ghash_value:
  assumes "length y = 16" "length h = 16"
  shows "length (ghash h x y) = 16"
    "block_word (ghash h x y) = fold (ghash_step (block_word h)) (blocks16 (pad16 x)) (block_word y)"
proof -
  let ?m = "length x div 16" and ?r = "length x mod 16"
  let ?y = "fold (\<lambda>i y. gf_mult (xor_block y (drop (16 * i) x)) h) [0..<?m] y"
  have m: "16 * ?m \<le> length x" by simp
  note y = ghash_blocks[OF assms m]
  have "length (ghash h x y) = 16 \<and>
    block_word (ghash h x y) = fold (ghash_step (block_word h)) (blocks16 (pad16 x)) (block_word y)"
  proof (cases "?r = 0")
    case True
    then have "16 * ?m = length x" by (simp add: minus_mod_eq_mult_div[symmetric])
    then show ?thesis using y True by (simp add: ghash_def Let_def pad16_def)
  next
    case False
    have l: "length x - 16 * ?m = ?r" by (simp add: minus_mult_div_eq_mod)
    have lt: "16 * ?m < length x" using False l by linarith
    let ?t = "take ?r (drop (16 * ?m) x) @ replicate (16 - ?r) 0"
    have r: "?r < 16" by simp
    have d: "length (drop (16 * ?m) x) = ?r" using l by simp
    then have td: "take ?r (drop (16 * ?m) x) = drop (16 * ?m) x" by simp
    have t: "length ?t = 16" unfolding td using d r by simp
    have "(16 - ?r) mod 16 = 16 - ?r" using False r by simp
    then have p: "pad16 x = take (16 * ?m) x @ ?t"
      by (simp only: pad16_def td append.assoc[symmetric] append_take_drop_id)
    have "blocks16 (pad16 x) = blocks16 (take (16 * ?m) x) @ [?t]"
      unfolding p using blocks16_Cons[OF t, of "[]"] m by (subst blocks16_append) simp_all
    moreover have "ghash h x y = gf_mult (xor_block ?y ?t) h"
      using lt l by (simp add: ghash_def Let_def)
    moreover have "16 \<le> length ?t" "take 16 ?t = ?t" unfolding t by (simp_all only: le_refl t take_all)
    ultimately show ?thesis
      using gf_mult_xor_block[of ?y h ?t] y assms(2)
      by (simp only: fold_append o_apply fold.simps id_apply simp_thms)
  qed
  then show "length (ghash h x y) = 16"
    "block_word (ghash h x y) = fold (ghash_step (block_word h)) (blocks16 (pad16 x)) (block_word y)" by blast+
qed

section \<open>Counter mode\<close>

text \<open>What counter mode needs of the cipher it runs.\<close>

locale block_cipher =
  fixes E :: "u8 list \<Rightarrow> u8 list"
  assumes length_E: "length b = 16 \<Longrightarrow> length (E b) = 16"
begin

lemma length_gctr: "length cb = 16 \<Longrightarrow> length (gctr_spec E cb x) = length x"
proof (induction x arbitrary: cb rule: measure_induct_rule[where f = length])
  case (less x)
  show ?case
  proof (cases "x = []")
    case False
    have "length (inc32_spec cb) = 16" using less.prems by (simp add: inc32_spec_def word_bytes_def)
    then have "length (gctr_spec E (inc32_spec cb) (drop 16 x)) = length (drop 16 x)"
      using False by (intro less.IH) simp_all
    then show ?thesis using False length_E[OF less.prems] by (subst gctr_spec.simps) simp
  qed (simp add: gctr_spec.simps)
qed

text \<open>Counter mode is its own inverse.\<close>

lemma gctr_involution: "length cb = 16 \<Longrightarrow> gctr_spec E cb (gctr_spec E cb x) = x"
proof (induction x arbitrary: cb rule: measure_induct_rule[where f = length])
  case (less x)
  show ?case
  proof (cases "x = []")
    case False
    let ?a = "map2 (XOR) (take 16 x) (E cb)"
    let ?b = "gctr_spec E (inc32_spec cb) (drop 16 x)"
    have e: "gctr_spec E cb x = ?a @ ?b" using False by (subst gctr_spec.simps) simp
    have l: "length (inc32_spec cb) = 16" using less.prems by (simp add: inc32_spec_def word_bytes_def)
    have la: "length ?a = min (length x) 16" using length_E[OF less.prems] by simp
    have "length x < 16 \<Longrightarrow> ?b = []" by (simp add: gctr_spec.simps)
    then have "take 16 (?a @ ?b) = ?a" "drop 16 (?a @ ?b) = ?b"
      using la by (cases "length x < 16"; simp)+
    moreover have "0 < length ?a" using False unfolding la by simp
    then have "?a @ ?b \<noteq> []" by auto
    moreover have "map2 (XOR) ?a (E cb) = take 16 x"
      using length_E[OF less.prems] by (intro nth_equalityI) (auto simp: xor.assoc)
    ultimately have "gctr_spec E cb (?a @ ?b) = take 16 x @ gctr_spec E (inc32_spec cb) ?b"
      by (subst gctr_spec.simps) (simp only: if_False)
    moreover have "gctr_spec E (inc32_spec cb) ?b = drop 16 x"
      using False l by (intro less.IH) simp_all
    ultimately show ?thesis unfolding e by simp
  qed (simp add: gctr_spec.simps)
qed

lemma length_gcm_j0: "length (gcm_j0 H iv) = 16"
  by (simp add: gcm_j0_def)

lemma gcm_ciphertext_decrypts:
  "gctr_spec E (inc32_spec (gcm_j0 (block_word (E (replicate 16 0))) iv)) (fst (gcm_ae E iv plain aad)) = plain"
  by (simp add: gcm_ae_def Let_def gctr_involution inc32_spec_def word_bytes_def length_gcm_j0)

end

lemma length_fips_aes256: "length b = 16 \<Longrightarrow> length (fips_aes256 key b) = 16"
  by (simp add: fips_aes256_def fips_cipher_def Let_def)

interpretation aes256: block_cipher "fips_aes256 key"
  by unfold_locales (rule length_fips_aes256)

lemma inc32_value: "length cb = 16 \<Longrightarrow> inc32 cb = inc32_spec cb"
  by (erule block_cases) (simp add: inc32_def inc32_spec_def PUTU32_def GETU32_be4 word_bytes_def)

lemma length_inc32_spec: "length cb = 16 \<Longrightarrow> length (inc32_spec cb) = 16"
  by (simp add: inc32_spec_def word_bytes_def)

lemma gctr_spec_app:
  assumes "length x = 16"
  shows "gctr_spec E cb (x @ y) = map2 (XOR) x (E cb) @ gctr_spec E (inc32_spec cb) y"
  using assms by (subst gctr_spec.simps) auto

lemma gctr_blocks_value:
  assumes "aes_encrypt_init ok key = Some aes" "length cb = 16" "k + 16 * n \<le> length x" "length x \<le> length y"
  shows "gctr_blocks n aes k cb x y = ((inc32_spec ^^ n) cb,
     take k y @ gctr_spec (fips_aes256 key) cb (take (16 * n) (drop k x)) @ drop (k + 16 * n) y)"
  using assms(2-4)
proof (induction n arbitrary: k cb y)
  case 0
  then show ?case by (simp add: gctr_spec.simps)
next
  case (Suc n)
  let ?E = "fips_aes256 key"
  let ?c = "map2 (XOR) (?E cb) (take 16 (drop k x))"
  have l: "16 \<le> length (drop k y)" "16 \<le> length (drop k x)" using Suc.prems by simp_all
  have lE: "length (?E cb) = 16" by (rule length_fips_aes256) (rule Suc.prems)
  have 1: "take k y @ aes_encrypt aes cb (drop k y) = take k y @ ?E cb @ drop (k + 16) y"
    using aes_encrypt_value[OF assms(1) Suc.prems(1) l(1)] by (simp add: add.commute)
  have 2: "take k (take k y @ ?E cb @ drop (k + 16) y) @
      xor_block (drop k (take k y @ ?E cb @ drop (k + 16) y)) (drop k x) = take k y @ ?c @ drop (k + 16) y"
    using xor_block_value[of "?E cb @ drop (k + 16) y" "drop k x"] l lE Suc.prems by simp
  let ?y = "take k y @ ?c @ drop (k + 16) y"
  have lc: "length ?c = 16" using lE l by simp
  have p: "length x \<le> length ?y" "k + 16 + 16 * n \<le> length x" "length (inc32_spec cb) = 16"
    using Suc.prems lc by (simp_all add: length_inc32_spec)
  have step: "gctr_blocks (Suc n) aes k cb x y = gctr_blocks n aes (k + 16) (inc32_spec cb) x ?y"
    by (simp only: gctr_blocks.simps Let_def 1 2 inc32_value[OF Suc.prems(1)])
  have t: "take (16 * Suc n) (drop k x) = take 16 (drop k x) @ take (16 * n) (drop (k + 16) x)"
    using take_add[of 16 "16 * n" "drop k x"] by (simp add: add.commute)
  have c: "?c = map2 (XOR) (take 16 (drop k x)) (?E cb)"
    by (rule nth_equalityI) (simp_all add: xor.commute)
  have y: "take (k + 16) ?y = take k y @ ?c" "drop (k + 16 + 16 * n) ?y = drop (k + 16 * Suc n) y"
    using Suc.prems lc by (simp_all add: add_ac)
  show ?case
    unfolding step Suc.IH[OF p(3,2,1)] t y
    using gctr_spec_app[of "take 16 (drop k x)"] l by (simp add: c funpow_swap1)
qed

lemma xor_tail:
  assumes "length y = b + n + m" "b + n \<le> length x" "n \<le> length tmp"
  shows "fold (\<lambda>i y. y[b + i := x ! (b + i) XOR tmp ! i]) [0..<n] y
    = take b y @ map2 (XOR) (take n (drop b x)) (take n tmp) @ drop (b + n) y"
  using assms
proof (induction n arbitrary: m)
  case (Suc n)
  then have l: "length y = b + n + Suc m" "b + n \<le> length x" "n \<le> length tmp" by simp_all
  have y: "drop (b + n) y = y ! (b + n) # drop (Suc (b + n)) y"
    using Suc.prems by (simp add: Cons_nth_drop_Suc)
  have x: "take (Suc n) (drop b x) = take n (drop b x) @ [x ! (b + n)]"
    "take (Suc n) tmp = take n tmp @ [tmp ! n]"
    using Suc.prems by (simp_all add: take_Suc_conv_app_nth)
  have "length (take n (drop b x)) = n" "length (take n tmp) = n" using Suc.prems by simp_all
  then show ?case
    unfolding upt_Suc_append[OF le0] fold_append o_apply Suc.IH[OF l] x
    using Suc.prems by (simp add: y list_update_append)
qed simp

lemma aes_gctr_value:
  assumes "aes_encrypt_init ok key = Some aes" "length icb = 16" "length x \<le> length y" "length tmp = 16"
  shows "aes_gctr aes icb x y tmp = gctr_spec (fips_aes256 key) icb x @ drop (length x) y"
proof (cases "x = []")
  case True
  then show ?thesis using assms by (simp add: aes_gctr_def gctr_spec.simps)
next
  case False
  let ?E = "fips_aes256 key" and ?n = "length x div 16" and ?r = "length x - 16 * (length x div 16)"
  let ?cb = "(inc32_spec ^^ ?n) icb"
  have n: "16 * ?n \<le> length x" by simp
  have lcb: "length ((inc32_spec ^^ k) icb) = 16" for k
    by (induction k) (simp_all add: assms length_inc32_spec)
  have b: "gctr_blocks ?n aes 0 (take 16 icb) x y
      = (?cb, gctr_spec ?E icb (take (16 * ?n) x) @ drop (16 * ?n) y)"
    using gctr_blocks_value[OF assms(1), of icb 0 ?n x y] assms(2,3) n by simp
  have app: "gctr_spec ?E cb (u @ v) = gctr_spec ?E cb u @ gctr_spec ?E ((inc32_spec ^^ k) cb) v"
    if "length u = 16 * k" for cb u v k
    using that
  proof (induction k arbitrary: cb u)
    case (Suc k)
    have "u = take 16 u @ drop 16 u" "length (take 16 u) = 16" "length (drop 16 u) = 16 * k"
      using Suc.prems by simp_all
    then show ?case
      using gctr_spec_app[of "take 16 u" ?E cb "drop 16 u @ v"] gctr_spec_app[of "take 16 u" ?E cb "drop 16 u"]
        Suc.IH[of "drop 16 u" "inc32_spec cb"]
      by (simp add: funpow_swap1 flip: append_assoc)
  qed (simp add: gctr_spec.simps)
  let ?g = "gctr_spec ?E icb (take (16 * ?n) x)"
  have lg: "length ?g = 16 * ?n" using aes256.length_gctr[OF assms(2), of key "take (16 * ?n) x"] n by simp
  have x: "gctr_spec ?E icb x = ?g @ gctr_spec ?E ?cb (drop (16 * ?n) x)"
    using app[of "take (16 * ?n) x" ?n icb "drop (16 * ?n) x"] n by simp
  show ?thesis
  proof (cases "?r = 0")
    case True
    then have d: "drop (16 * ?n) x = []" and e: "16 * ?n = length x" using n by simp_all
    have "aes_gctr aes icb x y tmp = ?g @ drop (16 * ?n) y"
      using False True b by (simp only: aes_gctr_def Let_def prod.case length_0_conv if_False simp_thms)
    then show ?thesis unfolding x d by (simp only: gctr_spec_Nil append_Nil2 e)
  next
    case r: False
    have "?r = length x mod 16" by (simp add: minus_mult_div_eq_mod)
    then have r16: "?r < 16" by simp
    have lE: "length (?E ?cb) = 16" by (rule length_fips_aes256) (rule lcb)
    have t: "aes_encrypt aes ?cb tmp = ?E ?cb"
      using aes_encrypt_value[OF assms(1) lcb, of tmp] assms(4) by simp
    have d: "take ?r (drop (16 * ?n) x) = drop (16 * ?n) x" by simp
    have "gctr_spec ?E ?cb (drop (16 * ?n) x) = map2 (XOR) (drop (16 * ?n) x) (take ?r (?E ?cb))"
    proof -
      have "take 16 (drop (16 * ?n) x) = drop (16 * ?n) x" "drop 16 (drop (16 * ?n) x) = []" "drop (16 * ?n) x \<noteq> []"
        using r16 r by simp_all
      then have "gctr_spec ?E ?cb (drop (16 * ?n) x) = map2 (XOR) (drop (16 * ?n) x) (?E ?cb)"
        by (subst gctr_spec.simps) (simp only: if_False gctr_spec_Nil append_Nil2)
      also have "\<dots> = map2 (XOR) (drop (16 * ?n) x) (take ?r (?E ?cb))"
        using lE r16 by (intro nth_equalityI) simp_all
      finally show ?thesis .
    qed
    moreover have "aes_gctr aes icb x y tmp
        = fold (\<lambda>i y. y[16 * ?n + i := x ! (16 * ?n + i) XOR ?E ?cb ! i]) [0..<?r] (?g @ drop (16 * ?n) y)"
      using False r b t by (simp add: aes_gctr_def Let_def)
    moreover have "\<dots> = ?g @ map2 (XOR) (drop (16 * ?n) x) (take ?r (?E ?cb)) @ drop (length x) y"
      using xor_tail[of "?g @ drop (16 * ?n) y" "16 * ?n" ?r "length y - length x" x "?E ?cb"] lg lE assms(3) r16 n d
      by simp
    ultimately show ?thesis unfolding x by simp
  qed
qed

section \<open>Authenticated encryption\<close>

lemma PUTU64_value:
  assumes "length ct = 16"
  shows "PUTU64 ct 0 a = bytes_be 8 a @ drop 8 ct" "PUTU64 ct 8 a = take 8 ct @ bytes_be 8 a"
proof -
  have b: "bytes_be 8 a = [ucast (drop_bit 56 a), ucast (drop_bit 48 a), ucast (drop_bit 40 a),
      ucast (drop_bit 32 a), ucast (drop_bit 24 a), ucast (drop_bit 16 a), ucast (drop_bit 8 a), ucast a]"
    by (simp add: bytes_be_def upt8)
  have m: "(ucast (a AND 0xff) :: u8) = ucast a"
  proof -
    have "(0xff :: u64) = mask 8" by (simp add: mask_eq_exp_minus_1)
    then have "a AND 0xff = take_bit 8 a" by (simp only: take_bit_eq_mask)
    then show ?thesis by (auto intro!: bit_word_eqI simp: bit_simps)
  qed
  show "PUTU64 ct 0 a = bytes_be 8 a @ drop 8 ct" "PUTU64 ct 8 a = take 8 ct @ bytes_be 8 a"
    unfolding PUTU64_def m b using assms by (elim block_cases; simp)+
qed

lemma ghash_spec_fold: "ghash_spec H bs = fold (ghash_step H) (blocks16 bs) 0"
proof -
  have "ghash_step H = (\<lambda>b Y. gf128_mult (Y XOR block_word b) H)" by (simp add: fun_eq_iff ghash_step_def)
  then show ?thesis by (simp only: ghash_spec_def)
qed

lemma pad16_dvd: "16 dvd length (pad16 bs)"
proof -
  define q r where "q = length bs div 16" and "r = length bs mod 16"
  have l: "length bs = 16 * q + r" "r < 16" by (simp_all add: q_def r_def)
  show ?thesis
  proof (cases "r = 0")
    case False
    then have "length (pad16 bs) = 16 * Suc q"
      using l by (simp add: pad16_def r_def[symmetric])
    then show ?thesis by (metis dvd_triv_left)
  qed (use l in \<open>simp add: pad16_def r_def[symmetric]\<close>)
qed

lemma pad16_block: "length bs = 16 \<Longrightarrow> pad16 bs = bs"
  by (simp add: pad16_def)

lemma ghash_start_word: "length ghash_start = 16" "block_word ghash_start = 0"
  by (auto intro!: bit_word_eqI simp: ghash_start_def bit_block_word)

lemma len64: "n < 2 ^ 29 \<Longrightarrow> (ucast (of_nat n * 8 :: u32) :: u64) = of_nat (8 * n)"
proof -
  assume n: "n < 2 ^ 29"
  have "unat (of_nat (8 * n) :: u32) = 8 * n" using n by (intro unat_of_nat32) simp
  then have "unat (of_nat n * 8 :: u32) = 8 * n" by (simp add: mult.commute)
  moreover have "unat (of_nat (8 * n) :: u64) = 8 * n" using n by (intro unat_of_nat_lt) simp
  moreover have "take_bit 64 (8 * n) = 8 * n" using n by (intro take_bit_nat_eq_self) simp
  ultimately show ?thesis by (simp add: word_unat_eq_iff unsigned_ucast_eq)
qed

lemma prepare_j0_value:
  assumes "length H = 16" "length buf = 16" "length iv < 2 ^ 29"
  shows "length (aes_gcm_prepare_j0 iv H buf) = 16"
    "aes_gcm_prepare_j0 iv H buf = gcm_j0 (block_word H) iv"
proof -
  have "length (aes_gcm_prepare_j0 iv H buf) = 16 \<and> aes_gcm_prepare_j0 iv H buf = gcm_j0 (block_word H) iv"
  proof (cases "length iv = 12")
    case True
    then have "(iv @ replicate 4 0)[15 := 1] = iv @ [0, 0, 0, 1]"
      by (simp add: list_update_append eval_nat_numeral)
    then show ?thesis using True by (simp add: aes_gcm_prepare_j0_def gcm_j0_def)
  next
    case False
    let ?L = "replicate 8 0 @ bytes_be 8 (of_nat (8 * length iv) :: u64)"
    let ?g = "ghash H iv ghash_start"
    have g: "length ?g = 16" "block_word ?g = fold (ghash_step (block_word H)) (blocks16 (pad16 iv)) 0"
      using ghash_value[OF ghash_start_word(1) assms(1), of iv] by (simp_all add: ghash_start_word)
    have z: "bytes_be 8 (0 :: u64) = replicate 8 0" by (simp add: bytes_be_def upt8 eval_nat_numeral)
    have l: "length ?L = 16" by simp
    have buf: "PUTU64 (PUTU64 buf 0 0) 8 (ucast (of_nat (length iv) * 8 :: u32)) = ?L"
      using assms(2) by (simp add: PUTU64_value len64[OF assms(3)] z)
    have "ghash_spec (block_word H) (pad16 iv @ ?L) = fold (ghash_step (block_word H)) (blocks16 ?L) (block_word ?g)"
      unfolding ghash_spec_fold blocks16_append[OF pad16_dvd] g(2) by simp
    then have "block_word (ghash H ?L ?g) = ghash_spec (block_word H) (pad16 iv @ ?L)"
      using ghash_value(2)[OF g(1) assms(1), of ?L] by (simp only: pad16_block[OF l])
    moreover have lg: "length (ghash H ?L ?g) = 16" by (rule ghash_value(1)[OF g(1) assms(1)])
    ultimately have "ghash H ?L ?g = bytes_be 16 (ghash_spec (block_word H) (pad16 iv @ ?L))"
      using bytes_be_block_word[OF lg] by simp
    then show ?thesis
      using False lg unfolding aes_gcm_prepare_j0_def Let_def buf gcm_j0_def by (simp only: if_False simp_thms)
  qed
  then show "length (aes_gcm_prepare_j0 iv H buf) = 16"
    "aes_gcm_prepare_j0 iv H buf = gcm_j0 (block_word H) iv" by blast+
qed

lemma gcm_ghash_value:
  assumes "length H = 16" "length buf = 16" "length aad < 2 ^ 29" "length c < 2 ^ 29"
  shows "aes_gcm_ghash H aad c buf = bytes_be 16 (ghash_spec (block_word H)
    (pad16 aad @ pad16 c @ bytes_be 8 (of_nat (8 * length aad) :: u64) @ bytes_be 8 (of_nat (8 * length c) :: u64)))"
proof -
  let ?L = "bytes_be 8 (of_nat (8 * length aad) :: u64) @ bytes_be 8 (of_nat (8 * length c) :: u64)"
  let ?a = "ghash H aad ghash_start"
  let ?c = "ghash H c ?a"
  have a: "length ?a = 16" "block_word ?a = fold (ghash_step (block_word H)) (blocks16 (pad16 aad)) 0"
    using ghash_value[OF ghash_start_word(1) assms(1), of aad] by (simp_all add: ghash_start_word)
  note c = ghash_value[OF a(1) assms(1), of c]
  have l: "length ?L = 16" by simp
  have buf: "PUTU64 (PUTU64 buf 0 (ucast (of_nat (length aad) * 8 :: u32))) 8 (ucast (of_nat (length c) * 8 :: u32)) = ?L"
    using assms(2) by (simp add: PUTU64_value len64[OF assms(3)] len64[OF assms(4)])
  have "ghash_spec (block_word H) (pad16 aad @ pad16 c @ ?L)
      = fold (ghash_step (block_word H)) (blocks16 ?L) (block_word ?c)"
    unfolding ghash_spec_fold blocks16_append[OF pad16_dvd] c(2) a(2) by simp
  then have "block_word (ghash H ?L ?c) = ghash_spec (block_word H) (pad16 aad @ pad16 c @ ?L)"
    using ghash_value(2)[OF c(1) assms(1), of ?L] by (simp only: pad16_block[OF l])
  then have "ghash H ?L ?c = bytes_be 16 (ghash_spec (block_word H) (pad16 aad @ pad16 c @ ?L))"
    using bytes_be_block_word[OF ghash_value(1)[OF c(1) assms(1)]] by metis
  then show ?thesis by (simp only: aes_gcm_ghash_def Let_def buf)
qed

lemma gctr_value':
  assumes "aes_encrypt_init ok key = Some aes" "length J0 = 16" "length x \<le> length y" "length tmp = 16"
  shows "aes_gcm_gctr aes J0 x y tmp = gctr_spec (fips_aes256 key) (inc32_spec J0) x @ drop (length x) y"
  using aes_gctr_value[OF assms(1) length_inc32_spec[OF assms(2)] assms(3,4)] inc32_value[OF assms(2)] assms(2)
  by (auto simp: aes_gcm_gctr_def)

lemma aes_gcm_ae_value:
  assumes "length plain \<le> length crypt" "16 \<le> length tag" "length buf = 16"
    and "length iv < 2 ^ 29" "length aad < 2 ^ 29" "length plain < 2 ^ 29"
  shows "aes_gcm_ae malloc_ok key iv plain aad crypt tag buf
    = (if malloc_ok
       then (case gcm_ae (fips_aes256 key) iv plain aad of
               (C, T) \<Rightarrow> Some (C @ drop (length plain) crypt, T @ drop 16 tag))
       else None)"
proof (cases malloc_ok)
  case False
  then show ?thesis by (simp add: aes_gcm_ae_def aes_gcm_init_hash_subkey_def aes_encrypt_init_def)
next
  case True
  let ?E = "fips_aes256 key"
  obtain aes where aes: "aes_encrypt_init malloc_ok key = Some aes"
    using True by (simp add: aes_encrypt_init_value)
  let ?H = "?E (replicate 16 0)"
  have H: "aes_encrypt aes (replicate 16 0) (replicate 16 0) = ?H" "length ?H = 16"
    using aes_encrypt_value[OF aes, of "replicate 16 0" "replicate 16 0"] by (simp_all add: length_fips_aes256)
  note j = prepare_j0_value[OF H(2) assms(3,4)]
  let ?J = "gcm_j0 (block_word ?H) iv"
  have lJ: "length ?J = 16" by (rule aes256.length_gcm_j0)
  let ?C = "gctr_spec ?E (inc32_spec ?J) plain"
  note C = gctr_value'[OF aes lJ assms(1,3)]
  have lC: "length ?C = length plain" by (rule aes256.length_gctr[OF length_inc32_spec[OF lJ]])
  then have lC29: "length ?C < 2 ^ 29" using assms(6) by simp
  let ?S = "aes_gcm_ghash ?H aad ?C buf"
  have S: "?S = bytes_be 16 (ghash_spec (block_word ?H) (pad16 aad @ pad16 ?C
      @ bytes_be 8 (of_nat (8 * length aad) :: u64) @ bytes_be 8 (of_nat (8 * length ?C) :: u64)))"
    by (rule gcm_ghash_value[OF H(2) assms(3,5) lC29])
  then have lS: "length ?S = 16" by (simp only: length_bytes_be)
  then have T: "aes_gctr aes ?J ?S tag buf = gctr_spec ?E ?J ?S @ drop 16 tag"
    using aes_gctr_value[OF aes lJ _ assms(3), of ?S tag] assms(2) by simp
  have sub: "aes_gcm_init_hash_subkey malloc_ok key = Some (aes, ?H)"
    by (simp only: aes_gcm_init_hash_subkey_def aes option.case Let_def H(1))
  have tk: "take (length plain) (?C @ drop (length plain) crypt) = ?C" using lC by simp
  show ?thesis
    using True unfolding aes_gcm_ae_def sub option.case prod.case Let_def j(2) C tk T gcm_ae_def S[symmetric]
    by simp
qed

lemma block_word_inject:
  assumes "length a = 16" "length b = 16" "block_word a = block_word b"
  shows "a = b"
  using assms bytes_be_block_word by metis

section \<open>Properties\<close>

text \<open>C4: The bit-by-bit product \<open>gf_mult\<close> is the multiplication of a commutative ring on blocks with
  \<open>xor_block\<close> as addition and the block 80 00 .. 00 as one; that the ring is the polynomials modulo
  \<open>x\<^sup>1\<^sup>2\<^sup>8 + x\<^sup>7 + x\<^sup>2 + x + 1\<close> shows in the 128th power of the block 40 00 .. 00 of \<open>x\<close>, which is the block
  of \<open>x\<^sup>7 + x\<^sup>2 + x + 1\<close>.\<close>

theorem gf_mult_ring:
  assumes "length a = 16" "length b = 16" "length c = 16"
  shows "gf_mult a b = gf_mult b a
    \<and> gf_mult (gf_mult a b) c = gf_mult a (gf_mult b c)
    \<and> gf_mult a (xor_block b c) = xor_block (gf_mult a b) (gf_mult a c)
    \<and> gf_mult a (0x80 # replicate 15 0) = a
    \<and> ((\<lambda>p. gf_mult p (0x40 # replicate 15 0)) ^^ 128) (0x80 # replicate 15 0) = 0xe1 # replicate 15 0"
proof -
  let ?x = "0x40 # replicate 15 0 :: u8 list" and ?one = "0x80 # replicate 15 0 :: u8 list"
  have l: "length (gf_mult u v) = 16" "length (xor_block u v) = 16" if "length u = 16" "length v = 16" for u v
    using gf_mult_value[OF that] that by simp_all
  have w: "block_word (gf_mult u v) = gf128_mult (block_word u) (block_word v)"
    "block_word (xor_block u v) = block_word u XOR block_word v" if "length u = 16" "length v = 16" for u v
    using gf_mult_value[OF that] that by (simp_all add: xor_block_value block_word_xor)
  have c: "block_word ?x = mulx gf_one" "block_word ?one = gf_one" "block_word (0xe1 # replicate 15 0) = (mulx ^^ 128) gf_one"
    using mulx_pow_one[of 1] by (simp_all only: block_word_lead mulx_pow_128) (simp_all add: gf_one_def)
  have "gf_mult a b = gf_mult b a"
    by (rule block_word_inject) (use assms in \<open>simp_all add: l w gf128_comm\<close>)
  moreover have "gf_mult (gf_mult a b) c = gf_mult a (gf_mult b c)"
    by (rule block_word_inject) (use assms in \<open>simp_all add: l w gf128_assoc\<close>)
  moreover have "gf_mult a (xor_block b c) = xor_block (gf_mult a b) (gf_mult a c)"
    by (rule block_word_inject) (use assms in \<open>simp_all add: l w gf128_mult_def gf_sum_xor\<close>)
  moreover have "gf_mult a ?one = a"
    by (rule block_word_inject) (use assms in \<open>simp_all add: l w c gf128_one\<close>)
  moreover have "length (((\<lambda>p. gf_mult p ?x) ^^ n) ?one) = 16
      \<and> block_word (((\<lambda>p. gf_mult p ?x) ^^ n) ?one) = (mulx ^^ n) gf_one" for n
  proof (induction n)
    case (Suc n)
    have m: "gf128_mult P (mulx gf_one) = mulx P" for P
      using gf_sum_mulx_pow[of 128 P 1 gf_one] gf128_one[of P] by (simp add: gf128_mult_def)
    have "length ?x = 16" by simp
    then show ?case using Suc by (simp add: l w c m)
  qed (simp add: c)
  then have "((\<lambda>p. gf_mult p ?x) ^^ 128) ?one = 0xe1 # replicate 15 0"
    by (intro block_word_inject) (simp_all add: c)
  ultimately show ?thesis by blast
qed

theorem gf_mult_ring_witness:
  "gf_mult (replicate 16 7) (replicate 16 3) = gf_mult (replicate 16 3) (replicate 16 7)"
  using gf_mult_ring[of "replicate 16 7" "replicate 16 3" "replicate 16 3"] by simp

text \<open>C1: Unless \<open>malloc\<close> fails, \<open>aes_gcm_ae\<close> writes the ciphertext and the tag of GCM (SP 800-38D)
  over AES-256 (FIPS 197) to the starts of its output buffers and nothing behind them, for initial
  vectors of every length, whole and partial last blocks and whatever the local buffers held; when
  \<open>malloc\<close> fails it reports the failure.\<close>

theorem aes_gcm_ae_is_gcm:
  assumes "length plain \<le> length crypt" "16 \<le> length tag" "length buf = 16"
    and "length iv < 2 ^ 29" "length aad < 2 ^ 29" "length plain < 2 ^ 29"
  shows "aes_gcm_ae malloc_ok key iv plain aad crypt tag buf
    = (if malloc_ok
       then (case gcm_ae (fips_aes256 key) iv plain aad of
               (C, T) \<Rightarrow> Some (C @ drop (length plain) crypt, T @ drop 16 tag))
       else None)"
  by (rule aes_gcm_ae_value[OF assms])

theorem aes_gcm_ae_is_gcm_witness:
  "aes_gcm_ae True (replicate 32 0) (replicate 12 0) [] [] [] (replicate 16 0) (replicate 16 0)
     = (case gcm_ae (fips_aes256 (replicate 32 0)) (replicate 12 0) [] [] of (C, T) \<Rightarrow> Some (C, T))"
  using aes_gcm_ae_is_gcm[of "[]" "[]" "replicate 16 0" "replicate 16 0" "replicate 12 0" "[]" True "replicate 32 0"]
  by simp

text \<open>C3: Running the counter mode of the code with the same key and \<open>J0\<close> over what \<open>aes_gcm_ae\<close> wrote
  gives the plaintext back: the ciphertext determines the message.\<close>

theorem aes_gcm_decrypts:
  assumes "aes_gcm_ae malloc_ok key iv plain aad crypt tag buf = Some (crypt', tag')"
    and "aes_gcm_init_hash_subkey malloc_ok key = Some (aes, H)"
    and "length crypt = length plain" "length tag = 16" "length buf = 16" "length out = length plain"
    and "length iv < 2 ^ 29" "length aad < 2 ^ 29" "length plain < 2 ^ 29"
  shows "aes_gcm_gctr aes (aes_gcm_prepare_j0 iv H buf) crypt' out buf = plain"
proof -
  let ?E = "fips_aes256 key"
  have ok: "malloc_ok" and aes: "aes_encrypt_init malloc_ok key = Some aes"
    and H: "H = aes_encrypt aes (replicate 16 0) (replicate 16 0)"
    using assms(2) by (auto simp: aes_gcm_init_hash_subkey_def aes_encrypt_init_value Let_def split: if_splits)
  have H': "H = ?E (replicate 16 0)"
    using aes_encrypt_value[OF aes, of "replicate 16 0" "replicate 16 0"] H by simp
  have lH: "length H = 16" unfolding H' by (rule length_fips_aes256) simp
  let ?J = "gcm_j0 (block_word H) iv"
  have lJ: "length ?J = 16" by (rule aes256.length_gcm_j0)
  have "crypt' = fst (gcm_ae ?E iv plain aad)"
    using assms(1) ok aes_gcm_ae_value[of plain crypt tag buf iv aad malloc_ok key] assms(3-9)
    by (cases "gcm_ae ?E iv plain aad") simp
  then have c: "crypt' = gctr_spec ?E (inc32_spec ?J) plain" by (simp add: gcm_ae_def Let_def H')
  then have lc: "length crypt' = length plain"
    using aes256.length_gctr[OF length_inc32_spec[OF lJ]] by simp
  have "aes_gcm_gctr aes ?J crypt' out buf = gctr_spec ?E (inc32_spec ?J) crypt'"
    using gctr_value'[OF aes lJ, of crypt' out buf] lc assms(5,6) by simp
  also have "\<dots> = plain" unfolding c by (rule aes256.gctr_involution[OF length_inc32_spec[OF lJ]])
  finally show ?thesis using prepare_j0_value(2)[OF lH assms(5,7)] by simp
qed

theorem aes_gcm_decrypts_witness:
  "\<exists>crypt' tag' aes H. aes_gcm_ae True (replicate 32 0) (replicate 12 0) [1, 2, 3] [] (replicate 3 0)
        (replicate 16 0) (replicate 16 0) = Some (crypt', tag')
     \<and> aes_gcm_gctr aes (aes_gcm_prepare_j0 (replicate 12 0) H (replicate 16 0)) crypt' (replicate 3 0)
         (replicate 16 0) = [1, 2, 3]"
proof -
  obtain crypt' tag' where r: "aes_gcm_ae True (replicate 32 0) (replicate 12 0) [1, 2, 3] [] (replicate 3 0)
        (replicate 16 0) (replicate 16 0) = Some (crypt', tag')"
    using aes_gcm_ae_value[of "[1, 2, 3]" "replicate 3 0" "replicate 16 0" "replicate 16 0" "replicate 12 0" "[]" True
      "replicate 32 0"] by (cases "gcm_ae (fips_aes256 (replicate 32 0)) (replicate 12 0) [1, 2, 3] []") simp
  obtain aes H where h: "aes_gcm_init_hash_subkey True (replicate 32 0) = Some (aes, H)"
    by (simp add: aes_gcm_init_hash_subkey_def aes_encrypt_init_value Let_def del: upt_rec_numeral)
  have "aes_gcm_gctr aes (aes_gcm_prepare_j0 (replicate 12 0) H (replicate 16 0)) crypt' (replicate 3 0)
         (replicate 16 0) = [1, 2, 3]"
    by (rule aes_gcm_decrypts[OF r h]) simp_all
  with r show ?thesis by blast
qed

end
