(* ===== verification/AesMain.thy ===== *)
theory AesMain
  imports AesGcm
begin

text \<open>
  The test program of \<^verbatim>\<open>applications/aes-256-gcm/main.c\<close>: hexadecimal parsing, the test vectors
  and the driver.  A string is the list of its characters before the terminating NUL; \<open>char\<close> is
  signed.  An access outside an array, where the C program has no defined behaviour, is the result \<open>None\<close>.  Output and
  cycle counts are left out.
\<close>

section \<open>Hexadecimal\<close>

text \<open>The byte at offset \<open>i\<close> of a string, its NUL included.\<close>

definition at :: "string \<Rightarrow> nat \<Rightarrow> u8" where
  "at s i = (if i < length s then of_char (s ! i) else 0)"

definition hex2num :: "u8 \<Rightarrow> int" where
  "hex2num ch =
     (let c = sint ch
      in if 48 \<le> c \<and> c \<le> 57 then c - 48
         else if 97 \<le> c \<and> c \<le> 102 then c - 97 + 10
         else if 65 \<le> c \<and> c \<le> 70 then c - 65 + 10
         else - 1)"

text \<open>\<open>hex2byte(s + i)\<close>.\<close>

definition hex2byte :: "string \<Rightarrow> nat \<Rightarrow> int" where
  "hex2byte s i =
     (let a = hex2num (at s i)
      in if a < 0 then - 1
         else (let b = hex2num (at s (i + 1))
               in if b < 0 then - 1 else push_bit 4 a OR b))"

text \<open>The loop of \<open>hexstr2bin\<close> at byte \<open>i\<close>, \<open>n\<close> to go: the result and the buffer, unless a byte is stored behind the
  buffer.\<close>

fun hexstr_loop :: "nat \<Rightarrow> nat \<Rightarrow> string \<Rightarrow> u8 list \<Rightarrow> (int \<times> u8 list) option" where
  "hexstr_loop 0 i hex buf = Some (0, buf)"
| "hexstr_loop (Suc n) i hex buf =
     (let a = hex2byte hex (2 * i)
      in if a < 0 then Some (- 1, buf)
         else if length buf \<le> i then None
         else hexstr_loop n (i + 1) hex (buf[i := word_of_int a]))"

definition hexstr2bin :: "string \<Rightarrow> u8 list \<Rightarrow> nat \<Rightarrow> (int \<times> u8 list) option" where
  "hexstr2bin hex buf len = hexstr_loop len 0 hex buf"

section \<open>The test vectors\<close>

record gcm_test_vector =
  tc_k :: string
  tc_p :: string
  tc_aad :: string
  tc_iv :: string
  tc_c :: string
  tc_t :: string

definition gcm_tests :: "gcm_test_vector list" where
  "gcm_tests =
    [
     \<lparr>tc_k = ''0000000000000000000000000000000000000000000000000000000000000000'',
      tc_p = '''',
      tc_aad = '''',
      tc_iv = ''000000000000000000000000'',
      tc_c = '''',
      tc_t = ''530f8afbc74536b9a963b4f1c4cb738b''\<rparr>,
     \<lparr>tc_k = ''0000000000000000000000000000000000000000000000000000000000000000'',
      tc_p = ''00000000000000000000000000000000'',
      tc_aad = '''',
      tc_iv = ''000000000000000000000000'',
      tc_c = ''cea7403d4d606b6e074ec5d3baf39d18'',
      tc_t = ''d0d1c8a799996bf0265b98b5d48ab919''\<rparr>,
     \<lparr>tc_k = ''feffe9928665731c6d6a8f9467308308feffe9928665731c6d6a8f9467308308'',
      tc_p = ''d9313225f88406e5a55909c5aff5269a86a7a9531534f7da2e4c303d8a318a721c3c0c95956809532fcf0e2449a6b525b16aedf5aa0de657ba637b391aafd255'',
      tc_aad = '''',
      tc_iv = ''cafebabefacedbaddecaf888'',
      tc_c = ''522dc1f099567d07f47f37a32a84427d643a8cdcbfe5c0c97598a2bd2555d1aa8cb08e48590dbb3da7b08b1056828838c5f61e6393ba7a0abcc9f662898015ad'',
      tc_t = ''b094dac5d93471bdec1a502270e3cc6c''\<rparr>,
     \<lparr>tc_k = ''feffe9928665731c6d6a8f9467308308feffe9928665731c6d6a8f9467308308'',
      tc_p = ''d9313225f88406e5a55909c5aff5269a86a7a9531534f7da2e4c303d8a318a721c3c0c95956809532fcf0e2449a6b525b16aedf5aa0de657ba637b39'',
      tc_aad = ''feedfacedeadbeeffeedfacedeadbeefabaddad2'',
      tc_iv = ''cafebabefacedbaddecaf888'',
      tc_c = ''522dc1f099567d07f47f37a32a84427d643a8cdcbfe5c0c97598a2bd2555d1aa8cb08e48590dbb3da7b08b1056828838c5f61e6393ba7a0abcc9f662'',
      tc_t = ''76fc6ece0f4e1768cddf8853bb2d551b''\<rparr>,
     \<lparr>tc_k = ''feffe9928665731c6d6a8f9467308308feffe9928665731c6d6a8f9467308308'',
      tc_p = ''d9313225f88406e5a55909c5aff5269a86a7a9531534f7da2e4c303d8a318a721c3c0c95956809532fcf0e2449a6b525b16aedf5aa0de657ba637b39'',
      tc_aad = ''feedfacedeadbeeffeedfacedeadbeefabaddad2'',
      tc_iv = ''cafebabefacedbad'',
      tc_c = ''c3762df1ca787d32ae47c13bf19844cbaf1ae14d0b976afac52ff7d79bba9de0feb582d33934a4f0954cc2363bc73f7862ac430e64abe499f47c9b1f'',
      tc_t = ''3a337dbf46a792c45e454913fe2ea8f2''\<rparr>,
     \<lparr>tc_k = ''feffe9928665731c6d6a8f9467308308feffe9928665731c6d6a8f9467308308'',
      tc_p = ''d9313225f88406e5a55909c5aff5269a86a7a9531534f7da2e4c303d8a318a721c3c0c95956809532fcf0e2449a6b525b16aedf5aa0de657ba637b39'',
      tc_aad = ''feedfacedeadbeeffeedfacedeadbeefabaddad2'',
      tc_iv = ''9313225df88406e555909c5aff5269aa6a7a9538534f7da1e4c303d2a318a728c3c0c95156809539fcf0e2429a6b525416aedbf5a0de6a57a637b39b'',
      tc_c = ''5a8def2f0c9e53f1f75d7853659e2a20eeb2b22aafde6419a058ab4f6f746bf40fc0c3b780f244452da3ebf1c5d82cdea2418997200ef82e44ae7e3f'',
      tc_t = ''a44a8266ee1c8eb0c8b5d4cf5ae9f19a''\<rparr>
    ]"

section \<open>The driver\<close>

text \<open>The local arrays of \<open>main\<close> and its counters.\<close>

record main_state =
  buf_k :: "u8 list"
  buf_p :: "u8 list"
  buf_aad :: "u8 list"
  buf_iv :: "u8 list"
  buf_c :: "u8 list"
  buf_t :: "u8 list"
  buf_tmp :: "u8 list"
  buf_tag :: "u8 list"
  ret :: int
  num_correct :: int

text \<open>\<open>if (hexstr2bin(hex, buf, len)) { ...; ret++; continue; }\<close>: what follows is \<open>next\<close>.\<close>

definition parse_or_skip :: "string \<Rightarrow> u8 list \<Rightarrow> nat \<Rightarrow> (u8 list \<Rightarrow> main_state \<Rightarrow> main_state)
    \<Rightarrow> (main_state \<Rightarrow> main_state option) \<Rightarrow> main_state \<Rightarrow> main_state option" where
  "parse_or_skip hex buf len upd next s =
     (case hexstr2bin hex buf len of
        None \<Rightarrow> None
      | Some (e, b) \<Rightarrow>
          let s = upd b s in if e \<noteq> 0 then Some (s\<lparr>ret := ret s + 1\<rparr>) else next s)"

text \<open>The encryption and the two comparisons.  \<open>ok\<close> says whether \<open>malloc\<close> finds room and \<open>local\<close> what the block
  buffers of \<open>aes_gcm_ae\<close> hold; it reads the arrays to the given lengths and writes \<open>p_len\<close> and 16 bytes.\<close>

definition compare_test :: "bool \<Rightarrow> u8 list \<Rightarrow> nat \<Rightarrow> nat \<Rightarrow> nat \<Rightarrow> main_state \<Rightarrow> main_state option" where
  "compare_test ok local p_len aad_len iv_len s =
     (if length (buf_k s) < 32 \<or> length (buf_iv s) < iv_len \<or> length (buf_p s) < p_len \<or> length (buf_aad s) < aad_len
         \<or> length (buf_tmp s) < p_len \<or> length (buf_tag s) < 16 \<or> length (buf_c s) < p_len \<or> length (buf_t s) < 16
      then None
      else case aes_gcm_ae ok (buf_k s) (take iv_len (buf_iv s)) (take p_len (buf_p s)) (take aad_len (buf_aad s))
             (buf_tmp s) (buf_tag s) local of
        None \<Rightarrow> Some (s\<lparr>ret := ret s + 1\<rparr>)
      | Some (tmp, tag) \<Rightarrow>
          (let s = s\<lparr>buf_tmp := tmp, buf_tag := tag\<rparr>;
               good = 1;
               (s, good) = (if take p_len (buf_c s) \<noteq> take p_len (buf_tmp s)
                            then (s\<lparr>ret := ret s + 1\<rparr>, 0) else (s, good));
               (s, good) = (if take 16 (buf_tag s) \<noteq> take 16 (buf_t s)
                            then (s\<lparr>ret := ret s + 1\<rparr>, 0) else (s, good))
           in Some (s\<lparr>num_correct := num_correct s + good\<rparr>)))"

text \<open>One test, with the field of the vector, the array and its length in the order of the code.\<close>

definition run_test :: "bool \<Rightarrow> u8 list \<Rightarrow> gcm_test_vector \<Rightarrow> main_state \<Rightarrow> main_state option" where
  "run_test ok local tc s =
     (let k_len = length (tc_k tc) div 2;
          p_len = length (tc_p tc) div 2;
          aad_len = length (tc_aad tc) div 2;
          iv_len = length (tc_iv tc) div 2
      in parse_or_skip (tc_k tc) (buf_k s) k_len (\<lambda>b s. s\<lparr>buf_k := b\<rparr>)
          (\<lambda>s. parse_or_skip (tc_p tc) (buf_p s) p_len (\<lambda>b s. s\<lparr>buf_p := b\<rparr>)
          (\<lambda>s. parse_or_skip (tc_aad tc) (buf_aad s) aad_len (\<lambda>b s. s\<lparr>buf_aad := b\<rparr>)
          (\<lambda>s. parse_or_skip (tc_iv tc) (buf_iv s) iv_len (\<lambda>b s. s\<lparr>buf_iv := b\<rparr>)
          (\<lambda>s. parse_or_skip (tc_c tc) (buf_c s) p_len (\<lambda>b s. s\<lparr>buf_c := b\<rparr>)
          (\<lambda>s. parse_or_skip (tc_t tc) (buf_t s) 16 (\<lambda>b s. s\<lparr>buf_t := b\<rparr>)
            (compare_test ok local p_len aad_len iv_len) s) s) s) s) s) s)"

text \<open>The loop over the tests; the first argument is the answer of \<open>malloc\<close> in each of them.\<close>

fun run_tests :: "bool list \<Rightarrow> u8 list \<Rightarrow> gcm_test_vector list \<Rightarrow> main_state \<Rightarrow> main_state option" where
  "run_tests (ok # oks) local (tc # tcs) s =
     (case run_test ok local tc s of None \<Rightarrow> None | Some s \<Rightarrow> run_tests oks local tcs s)"
| "run_tests _ local _ s = Some s"

definition main_tests :: "bool list \<Rightarrow> u8 list \<Rightarrow> main_state \<Rightarrow> main_state option" where
  "main_tests oks local s = run_tests oks local gcm_tests (s\<lparr>ret := 0, num_correct := 0\<rparr>)"

section \<open>Parsing\<close>

text \<open>The bytes a hexadecimal string denotes.\<close>

definition digit_value :: "char \<Rightarrow> int" where
  "digit_value ch =
     (case map_of (zip ''0123456789abcdefABCDEF'' ([0..15] @ [10..15])) ch of Some v \<Rightarrow> v | None \<Rightarrow> - 1)"

fun unhex :: "string \<Rightarrow> u8 list" where
  "unhex (a # b # s) = word_of_int (16 * digit_value a + digit_value b) # unhex s"
| "unhex s = []"

definition hex_string :: "string \<Rightarrow> bool" where
  "hex_string s = list_all (\<lambda>ch. 0 \<le> digit_value ch) s"

lemma digit_value_char:
  "digit_value (CHR ''0'') = 0" "digit_value (CHR ''1'') = 1" "digit_value (CHR ''2'') = 2" "digit_value (CHR ''3'') = 3"
  "digit_value (CHR ''4'') = 4" "digit_value (CHR ''5'') = 5" "digit_value (CHR ''6'') = 6" "digit_value (CHR ''7'') = 7"
  "digit_value (CHR ''8'') = 8" "digit_value (CHR ''9'') = 9" "digit_value (CHR ''a'') = 10" "digit_value (CHR ''b'') = 11"
  "digit_value (CHR ''c'') = 12" "digit_value (CHR ''d'') = 13" "digit_value (CHR ''e'') = 14" "digit_value (CHR ''f'') = 15"
  "digit_value (CHR ''A'') = 10" "digit_value (CHR ''B'') = 11" "digit_value (CHR ''C'') = 12" "digit_value (CHR ''D'') = 13"
  "digit_value (CHR ''E'') = 14" "digit_value (CHR ''F'') = 15"
  by (simp_all add: digit_value_def upto.simps)

lemma digit_value_code:
  defines "code \<equiv> \<lambda>ch. of_char ch :: nat"
  shows "digit_value ch =
    (if 48 \<le> code ch \<and> code ch \<le> 57 then int (code ch) - 48
     else if 97 \<le> code ch \<and> code ch \<le> 102 then int (code ch) - 87
     else if 65 \<le> code ch \<and> code ch \<le> 70 then int (code ch) - 55 else - 1)"
proof -
  define n where "n = code ch"
  have eq: "ch = d \<longleftrightarrow> n = of_char d" for d
    unfolding n_def code_def by (simp only: of_char_eq_iff)
  have v: "digit_value ch =
    (if n = 48 then 0 else if n = 49 then 1 else if n = 50 then 2 else if n = 51 then 3 else if n = 52 then 4 else if n = 53 then 5 else if n = 54 then 6 else if n = 55 then 7 else if n = 56 then 8 else if n = 57 then 9 else
     if n = 97 then 10 else if n = 98 then 11 else if n = 99 then 12 else if n = 100 then 13 else if n = 101 then 14 else if n = 102 then 15 else
     if n = 65 then 10 else if n = 66 then 11 else if n = 67 then 12 else if n = 68 then 13 else if n = 69 then 14 else if n = 70 then 15 else - 1)"
    unfolding digit_value_def by (simp add: upto.simps eq)
  consider "n \<in> {48..57}" | "n \<in> {97..102}" | "n \<in> {65..70}" | "n \<notin> {48..57} \<union> {97..102} \<union> {65..70}" by blast
  then show ?thesis
  proof cases
    case 1
    then have "n = 48 \<or> n = 49 \<or> n = 50 \<or> n = 51 \<or> n = 52 \<or> n = 53 \<or> n = 54 \<or> n = 55 \<or> n = 56 \<or> n = 57"
      unfolding atLeastAtMost_iff by presburger
    then show ?thesis unfolding v n_def[symmetric] by (elim disjE) simp_all
  next
    case 2
    then have "n = 97 \<or> n = 98 \<or> n = 99 \<or> n = 100 \<or> n = 101 \<or> n = 102"
      unfolding atLeastAtMost_iff by presburger
    then show ?thesis unfolding v n_def[symmetric] by (elim disjE) simp_all
  next
    case 3
    then have "n = 65 \<or> n = 66 \<or> n = 67 \<or> n = 68 \<or> n = 69 \<or> n = 70"
      unfolding atLeastAtMost_iff by presburger
    then show ?thesis unfolding v n_def[symmetric] by (elim disjE) simp_all
  next
    case 4
    then show ?thesis unfolding v n_def[symmetric] by auto
  qed
qed

lemma hex2num_digit: "hex2num (of_char ch) = digit_value ch"
proof -
  define n where "n = (of_char ch :: nat)"
  have "n mod 256 < 256" by simp
  then have n: "n < 256" by (simp add: n_def)
  have "(of_char ch :: u8) = of_nat n" unfolding n_def by (cases ch) (simp add: of_char_def)
  moreover have "unat (of_nat n :: u8) = n" using n by (intro unat_of_nat_lt) simp
  ultimately have "sint (of_char ch :: u8) = (if n < 128 then int n else int n - 256)"
    unfolding sint_eq_cases[of "of_char ch :: u8"] by simp
  then show ?thesis unfolding digit_value_code n_def[symmetric] hex2num_def Let_def using n by (auto simp del: of_nat_unat)
qed

lemma hex2num_bounds: "- 1 \<le> hex2num c \<and> hex2num c < 16"
  by (simp add: hex2num_def Let_def)

lemma or_nibbles:
  assumes "0 \<le> b" "b < (16 :: int)"
  shows "push_bit 4 a OR b = 16 * a + b"
proof -
  have "take_bit 4 b = b" using assms by (intro take_bit_int_eq_self) simp_all
  then have "bit b n \<Longrightarrow> n < 4" for n by (metis bit_take_bit_iff)
  then have "push_bit 4 a + b = push_bit 4 a OR b"
    by (intro disjunctive_add) (auto simp: bit_push_bit_iff not_le)
  then show ?thesis by (simp add: push_bit_eq_mult)
qed

lemma hex2byte_value:
  assumes "0 \<le> hex2num (at s i)" "0 \<le> hex2num (at s (i + 1))"
  shows "hex2byte s i = 16 * hex2num (at s i) + hex2num (at s (i + 1))" "0 \<le> hex2byte s i"
proof -
  have "push_bit 4 (hex2num (at s i)) OR hex2num (at s (i + 1)) = 16 * hex2num (at s i) + hex2num (at s (i + 1))"
    by (rule or_nibbles) (use assms hex2num_bounds in auto)
  then show "hex2byte s i = 16 * hex2num (at s i) + hex2num (at s (i + 1))"
    using assms by (simp add: hex2byte_def Let_def)
  with assms show "0 \<le> hex2byte s i" by simp
qed

lemma at_nul: "length s \<le> i \<Longrightarrow> hex2num (at s i) = - 1"
  by (simp add: at_def hex2num_def)

lemma at_char: "i < length s \<Longrightarrow> hex2num (at s i) = digit_value (s ! i)"
  by (simp add: at_def hex2num_digit)

lemma unhex_nth:
  "i < length s div 2 \<Longrightarrow> unhex s ! i = word_of_int (16 * digit_value (s ! (2 * i)) + digit_value (s ! (2 * i + 1)))"
  by (induction s arbitrary: i rule: unhex.induct) (auto simp: nth_Cons split: nat.splits)

lemma length_unhex: "length (unhex s) = length s div 2"
  by (induction s rule: unhex.induct) auto

lemma hexstr_loop_success:
  assumes "\<forall>j < n. 0 \<le> hex2num (at hex (2 * (i + j))) \<and> 0 \<le> hex2num (at hex (2 * (i + j) + 1))"
    and "i + n \<le> length buf"
  shows "hexstr_loop n i hex buf = Some (0, take i buf @ map (\<lambda>j. word_of_int (hex2byte hex (2 * j))) [i..<i + n] @ drop (i + n) buf)"
  using assms
proof (induction n arbitrary: i buf)
  case (Suc n)
  have "0 \<le> hex2byte hex (2 * i)" using Suc.prems(1)[rule_format, of 0] hex2byte_value(2)[of hex "2 * i"] by simp
  moreover have "\<forall>j < n. 0 \<le> hex2num (at hex (2 * (i + 1 + j))) \<and> 0 \<le> hex2num (at hex (2 * (i + 1 + j) + 1))"
    using Suc.prems(1) by (metis Suc_eq_plus1 add.assoc add.commute not_less_eq)
  ultimately show ?case
    using Suc.IH[of "i + 1" "buf[i := word_of_int (hex2byte hex (2 * i))]"] Suc.prems(2)
    by (simp add: Let_def upt_conv_Cons take_Suc_conv_app_nth del: upt_Suc)
qed simp

lemma hexstr_loop_failure:
  assumes "j < n" "hex2num (at hex (2 * (i + j))) < 0 \<or> hex2num (at hex (2 * (i + j) + 1)) < 0" "i + n \<le> length buf"
  shows "\<exists>buf'. hexstr_loop n i hex buf = Some (- 1, buf') \<and> length buf' = length buf"
  using assms
proof (induction n arbitrary: i j buf)
  case (Suc n)
  show ?case
  proof (cases "hex2byte hex (2 * i) < 0")
    case False
    then have "\<not> (hex2num (at hex (2 * i)) < 0 \<or> hex2num (at hex (2 * i + 1)) < 0)"
      by (auto simp: hex2byte_def Let_def split: if_splits)
    then have j: "j \<noteq> 0" using Suc.prems(2) by (intro notI) simp
    then obtain k where k: "j = Suc k" by (cases j) auto
    show ?thesis using Suc.IH[of k "i + 1" "buf[i := word_of_int (hex2byte hex (2 * i))]"] Suc.prems False by (simp add: k Let_def)
  qed simp
qed simp

lemma hexstr2bin_value:
  assumes "len \<le> length buf"
  shows "(if 2 * len \<le> length hex \<and> hex_string (take (2 * len) hex)
          then hexstr2bin hex buf len = Some (0, unhex (take (2 * len) hex) @ drop len buf)
          else \<exists>buf'. hexstr2bin hex buf len = Some (- 1, buf') \<and> length buf' = length buf)"
proof (cases "2 * len \<le> length hex \<and> hex_string (take (2 * len) hex)")
  case True
  then have d: "0 \<le> hex2num (at hex k)" if "k < 2 * len" for k
    using that by (auto simp: hex_string_def list_all_length at_char)
  have "map (\<lambda>j. word_of_int (hex2byte hex (2 * j))) [0..<len] = unhex (take (2 * len) hex)"
    by (rule nth_equalityI)
      (use True d in \<open>auto simp: length_unhex unhex_nth hex2byte_value at_char\<close>)
  then show ?thesis
    using True hexstr_loop_success[of len hex 0 buf] d assms by (simp add: hexstr2bin_def)
next
  case False
  have "\<exists>k < 2 * len. hex2num (at hex k) < 0"
  proof (cases "2 * len \<le> length hex")
    case True
    then show ?thesis using False by (force simp: hex_string_def list_all_length at_char not_le)
  next
    case short: False
    then show ?thesis using at_nul[of hex "length hex"] by (intro exI[of _ "length hex"]) simp
  qed
  then obtain k where k: "k < 2 * len" "hex2num (at hex k) < 0" by blast
  then have "k div 2 < len" "k = 2 * (k div 2) \<or> k = 2 * (k div 2) + 1" by auto
  then show ?thesis using hexstr_loop_failure[of "k div 2" len hex 0 buf] k False assms
    by (auto simp: hexstr2bin_def)
qed


section \<open>The tests\<close>

definition buffers :: "main_state \<Rightarrow> bool" where
  "buffers s \<longleftrightarrow> length (buf_k s) = 32 \<and> length (buf_p s) = 64 \<and> length (buf_aad s) = 32 \<and> length (buf_iv s) = 64
     \<and> length (buf_c s) = 64 \<and> length (buf_t s) = 16 \<and> length (buf_tmp s) = 64 \<and> length (buf_tag s) = 16"

definition hex_bytes :: "string \<Rightarrow> bool" where
  "hex_bytes s \<longleftrightarrow> hex_string s \<and> even (length s)"

text \<open>A test vector that fits the arrays of \<open>main\<close>.\<close>

definition fits :: "gcm_test_vector \<Rightarrow> bool" where
  "fits tc \<longleftrightarrow> hex_bytes (tc_k tc) \<and> length (tc_k tc) = 64
     \<and> hex_bytes (tc_p tc) \<and> length (tc_p tc) \<le> 128 \<and> hex_bytes (tc_aad tc) \<and> length (tc_aad tc) \<le> 64
     \<and> hex_bytes (tc_iv tc) \<and> length (tc_iv tc) \<le> 128
     \<and> hex_bytes (tc_c tc) \<and> length (tc_c tc) = length (tc_p tc) \<and> hex_bytes (tc_t tc) \<and> length (tc_t tc) = 32"

lemma hexstr2bin_bytes:
  assumes "hex_bytes h" "len = length h div 2" "len \<le> length buf"
  shows "hexstr2bin h buf len = Some (0, unhex h @ drop len buf)"
proof -
  have "2 * len = length h" using assms(1,2) by (simp add: hex_bytes_def)
  then show ?thesis using hexstr2bin_value[OF assms(3), of h] assms(1) by (simp add: hex_bytes_def)
qed

lemma parse_bytes:
  assumes "hex_bytes h" "len = length h div 2" "len \<le> length buf"
  shows "parse_or_skip h buf len upd next s = next (upd (unhex h @ drop len buf) s)"
  by (simp add: parse_or_skip_def hexstr2bin_bytes[OF assms])

definition tc_result :: "gcm_test_vector \<Rightarrow> u8 list \<times> u8 list" where
  "tc_result tc = gcm_ae (fips_aes256 (unhex (tc_k tc))) (unhex (tc_iv tc)) (unhex (tc_p tc)) (unhex (tc_aad tc))"

definition tc_errors :: "gcm_test_vector \<Rightarrow> int" where
  "tc_errors tc = of_bool (fst (tc_result tc) \<noteq> unhex (tc_c tc)) + of_bool (snd (tc_result tc) \<noteq> unhex (tc_t tc))"

lemma length_gcm_ae:
  assumes "gcm_ae (fips_aes256 key) iv plain aad = (C, T)"
  shows "length C = length plain" "length T = 16"
proof -
  have *: "length (gctr_spec (fips_aes256 key) cb x) = length x" if "length cb = 16" for cb x
    by (rule aes256.length_gctr[OF that])
  show "length C = length plain" "length T = 16"
    using assms by (auto simp: gcm_ae_def Let_def * length_inc32_spec aes256.length_gcm_j0)
qed

text \<open>What a test adds to the result of \<open>main\<close>; without room for the cipher context it fails.\<close>

definition test_errors :: "bool \<Rightarrow> gcm_test_vector \<Rightarrow> int" where
  "test_errors ok tc = (if ok then tc_errors tc else 1)"

lemma compare_test_value:
  fixes tc :: gcm_test_vector and s :: main_state
  defines "p_len \<equiv> length (tc_p tc) div 2" and "aad_len \<equiv> length (tc_aad tc) div 2" and "iv_len \<equiv> length (tc_iv tc) div 2"
  assumes "buffers s" "fits tc" "length local = 16"
    and k: "buf_k s = unhex (tc_k tc)" and p: "take p_len (buf_p s) = unhex (tc_p tc)"
    and aad: "take aad_len (buf_aad s) = unhex (tc_aad tc)" and iv: "take iv_len (buf_iv s) = unhex (tc_iv tc)"
    and c: "take p_len (buf_c s) = unhex (tc_c tc)" and t: "buf_t s = unhex (tc_t tc)"
  shows "\<exists>s'. compare_test ok local p_len aad_len iv_len s = Some s' \<and> buffers s' \<and> ret s' = ret s + test_errors ok tc
    \<and> num_correct s' = num_correct s + (if test_errors ok tc = 0 then 1 else 0)"
proof -
  have l: "length (unhex (tc_k tc)) = 32" "length (unhex (tc_t tc)) = 16" "length (unhex (tc_p tc)) = p_len" "p_len \<le> 64"
    "length (unhex (tc_c tc)) = p_len"
    "length (unhex (tc_aad tc)) = aad_len" "aad_len \<le> 32" "length (unhex (tc_iv tc)) = iv_len" "iv_len \<le> 64"
    using assms(5) by (auto simp: fits_def length_unhex p_len_def aad_len_def iv_len_def)
  obtain C T where ct: "tc_result tc = (C, T)" by fastforce
  note lct = length_gcm_ae[OF ct[unfolded tc_result_def]]
  have ae: "aes_gcm_ae ok (unhex (tc_k tc)) (unhex (tc_iv tc)) (unhex (tc_p tc)) (unhex (tc_aad tc)) (buf_tmp s) (buf_tag s) local
      = (if ok then Some (C @ drop p_len (buf_tmp s), T) else None)"
    using aes_gcm_ae_value[of "unhex (tc_p tc)" "buf_tmp s" "buf_tag s" local "unhex (tc_iv tc)" "unhex (tc_aad tc)" ok "unhex (tc_k tc)"]
      assms(4,6) l ct by (simp add: buffers_def tc_result_def)
  have room: "\<not> (length (buf_k s) < 32 \<or> length (buf_iv s) < iv_len \<or> length (buf_p s) < p_len \<or> length (buf_aad s) < aad_len
      \<or> length (buf_tmp s) < p_len \<or> length (buf_tag s) < 16 \<or> length (buf_c s) < p_len \<or> length (buf_t s) < 16)"
    using assms(4) l by (simp add: buffers_def)
  show ?thesis unfolding compare_test_def if_not_P[OF room] k p aad iv ae
    using assms(4) lct l c t by (cases ok) (simp_all add: buffers_def test_errors_def tc_errors_def ct)
qed

lemma run_test_value:
  assumes "buffers s" "fits tc" "length local = 16"
  shows "\<exists>s'. run_test ok local tc s = Some s' \<and> buffers s' \<and> ret s' = ret s + test_errors ok tc
    \<and> num_correct s' = num_correct s + (if test_errors ok tc = 0 then 1 else 0)"
proof -
  let ?p = "length (tc_p tc) div 2" and ?aad = "length (tc_aad tc) div 2" and ?iv = "length (tc_iv tc) div 2"
  have h: "n div 2 \<le> 64" if "n \<le> 128" for n :: nat using that by simp
  have h2: "n div 2 \<le> 32" if "n \<le> 64" for n :: nat using that by simp
  have hb: "hex_bytes (tc_k tc)" "hex_bytes (tc_p tc)" "hex_bytes (tc_aad tc)" "hex_bytes (tc_iv tc)" "hex_bytes (tc_c tc)"
    "hex_bytes (tc_t tc)" "length (tc_k tc) = 64" "?p = length (tc_c tc) div 2" "16 = length (tc_t tc) div 2"
    "?p \<le> 64" "?aad \<le> 32" "?iv \<le> 64"
    using assms(2) by (simp_all add: fits_def h h2)
  have lb: "length (buf_k s) = 32" "length (buf_p s) = 64" "length (buf_aad s) = 32" "length (buf_iv s) = 64" "length (buf_c s) = 64"
    "length (buf_t s) = 16" "length (buf_tmp s) = 64" "length (buf_tag s) = 16"
    using assms(1) by (simp_all add: buffers_def)
  define s' where "s' = s\<lparr>buf_k := unhex (tc_k tc) @ drop (length (tc_k tc) div 2) (buf_k s), buf_p := unhex (tc_p tc) @ drop ?p (buf_p s),
      buf_aad := unhex (tc_aad tc) @ drop ?aad (buf_aad s), buf_iv := unhex (tc_iv tc) @ drop ?iv (buf_iv s),
      buf_c := unhex (tc_c tc) @ drop ?p (buf_c s), buf_t := unhex (tc_t tc) @ drop 16 (buf_t s)\<rparr>"
  have run: "run_test ok local tc s = compare_test ok local ?p ?aad ?iv s'"
    unfolding run_test_def Let_def s'_def
    by (subst parse_bytes, use hb lb in simp, use hb lb in simp, use hb lb in simp)+ simp
  have s': "buffers s'" "ret s' = ret s" "num_correct s' = num_correct s" "buf_k s' = unhex (tc_k tc)"
    "take ?p (buf_p s') = unhex (tc_p tc)" "take ?aad (buf_aad s') = unhex (tc_aad tc)" "take ?iv (buf_iv s') = unhex (tc_iv tc)"
    "take ?p (buf_c s') = unhex (tc_c tc)" "buf_t s' = unhex (tc_t tc)"
    using hb lb by (simp_all add: s'_def buffers_def length_unhex)
  show ?thesis unfolding run s'(2,3)[symmetric] by (rule compare_test_value[OF s'(1) assms(2,3) s'(4-9)])
qed

lemma gcm_tests_fit: "list_all fits gcm_tests"
  by (simp add: gcm_tests_def fits_def hex_bytes_def hex_string_def digit_value_char)

lemma run_tests_value:
  assumes "buffers s" "list_all fits tcs" "length local = 16" "length oks = length tcs"
  shows "\<exists>s'. run_tests oks local tcs s = Some s' \<and> buffers s'
    \<and> ret s' = ret s + sum_list (map (\<lambda>(ok, tc). test_errors ok tc) (zip oks tcs))
    \<and> num_correct s' = num_correct s + int (length (filter (\<lambda>(ok, tc). test_errors ok tc = 0) (zip oks tcs)))"
  using assms(4,1,2)
proof (induction oks tcs arbitrary: s rule: list_induct2)
  case (Cons ok oks tc tcs)
  obtain s1 where s1: "run_test ok local tc s = Some s1" "buffers s1" "ret s1 = ret s + test_errors ok tc"
    "num_correct s1 = num_correct s + (if test_errors ok tc = 0 then 1 else 0)"
    using run_test_value[OF Cons.prems(1) _ assms(3), of tc ok] Cons.prems(2) by auto
  then show ?case using Cons.IH[OF s1(2)] Cons.prems(2) by auto
qed simp

section \<open>Properties\<close>

text \<open>C9: For every string and every length the destination has room for, \<open>hexstr2bin\<close> succeeds exactly
  when the string has that many pairs of hexadecimal digits at its start, and then it has stored
  the bytes they denote and nothing behind them; otherwise it returns -1.  It never stores outside the destination.\<close>

theorem hexstr2bin_correct:
  assumes "len \<le> length buf"
  shows "(if 2 * len \<le> length hex \<and> hex_string (take (2 * len) hex)
          then hexstr2bin hex buf len = Some (0, unhex (take (2 * len) hex) @ drop len buf)
          else \<exists>buf'. hexstr2bin hex buf len = Some (- 1, buf') \<and> length buf' = length buf)"
  by (rule hexstr2bin_value[OF assms])

theorem hexstr2bin_correct_witness:
  "hexstr2bin ''0fA7'' [1, 2, 3] 2 = Some (0, [0x0f, 0xa7, 3]) \<and>
   (\<exists>buf'. hexstr2bin ''0fg7'' [1, 2, 3] 2 = Some (- 1, buf'))"
proof -
  have "digit_value (CHR ''g'') = - 1" by (simp add: digit_value_def upto.simps)
  then show ?thesis
    using hexstr2bin_correct[of 2 "[1, 2, 3]" "''0fA7''"] hexstr2bin_correct[of 2 "[1, 2, 3]" "''0fg7''"]
    by (auto simp: hex_string_def digit_value_char)
qed

text \<open>C8: The test program parses all six vectors into its arrays without running over them, and returns the number of
  ciphertexts and tags that differ from GCM over AES-256 of the vector's key, initial vector, plaintext and additional
  data, plus one for each test in which \<open>malloc\<close> had no room for the cipher context; the tests it counts as correct are
  those where there was room and both agree.\<close>

theorem main_counts_gcm_mismatches:
  assumes "buffers s" "length local = 16" "length oks = length gcm_tests"
  shows "\<exists>s'. main_tests oks local s = Some s' \<and> buffers s'
    \<and> ret s' = sum_list (map (\<lambda>(ok, tc). test_errors ok tc) (zip oks gcm_tests))
    \<and> num_correct s' = int (length (filter (\<lambda>(ok, tc). test_errors ok tc = 0) (zip oks gcm_tests)))"
proof -
  have "buffers (s\<lparr>ret := 0, num_correct := 0\<rparr>)" using assms(1) by (simp add: buffers_def)
  from run_tests_value[OF this gcm_tests_fit assms(2,3)] show ?thesis
    by (simp add: main_tests_def)
qed

definition example_main_state :: main_state where
  "example_main_state = \<lparr>buf_k = replicate 32 0, buf_p = replicate 64 0, buf_aad = replicate 32 0,
     buf_iv = replicate 64 0, buf_c = replicate 64 0, buf_t = replicate 16 0, buf_tmp = replicate 64 0,
     buf_tag = replicate 16 0, ret = 0, num_correct = 0\<rparr>"

theorem main_counts_gcm_mismatches_witness:
  "\<exists>s'. main_tests [True, True, False, True, True, True] (replicate 16 0) example_main_state = Some s' \<and>
     ret s' = 1 + sum_list (map tc_errors (take 2 gcm_tests @ drop 3 gcm_tests))"
  using main_counts_gcm_mismatches[of example_main_state "replicate 16 0" "[True, True, False, True, True, True]"]
  by (auto simp: buffers_def example_main_state_def test_errors_def gcm_tests_def)

end
