(* ===== verification/CString.thy ===== *)
theory CString
  imports CMemory
begin

text \<open>
  The string functions of the C library, \<^verbatim>\<open>lib/runtime/src/string.c\<close>, over byte memory.  A loop that
  counts down its argument is a recursion on the count; a loop that looks for a NUL may not end,
  and is a partial function: no value is not returning.  \<open>char\<close> values are compared for equality or
  as \<open>unsigned char\<close> only, so bytes stand for both.
\<close>

section \<open>Copying\<close>

text \<open>\<open>k\<close> more iterations of \<open>ll[i] = rr[i]\<close> upwards.\<close>

fun copy_up :: "nat \<Rightarrow> mem \<Rightarrow> u32 \<Rightarrow> u32 \<Rightarrow> mem" where
  "copy_up 0 m ll rr = m"
| "copy_up (Suc k) m ll rr = copy_up k (m(ll := m rr)) (ll + 1) (rr + 1)"

definition memcpy :: "mem \<Rightarrow> u32 \<Rightarrow> u32 \<Rightarrow> u32 \<Rightarrow> mem \<times> u32" where
  "memcpy m s1 s2 n = (copy_up (unat n) m s1 s2, s1)"

text \<open>\<open>for (int i = k - 1; i >= 0; i--) ll[i] = rr[i]\<close>.\<close>

fun copy_down :: "nat \<Rightarrow> mem \<Rightarrow> u32 \<Rightarrow> u32 \<Rightarrow> mem" where
  "copy_down 0 m ll rr = m"
| "copy_down (Suc k) m ll rr = copy_down k (m(ll + of_nat k := m (rr + of_nat k))) ll rr"

definition memmove :: "mem \<Rightarrow> u32 \<Rightarrow> u32 \<Rightarrow> u32 \<Rightarrow> mem \<times> u32" where
  "memmove m s1 s2 n =
     (if s1 \<le> s2 then (copy_up (unat n) m s1 s2, s1)
      else (copy_down (nat (sint (n - 1) + 1)) m s1 s2, s1))"

text \<open>\<open>while ((*s1++ = *s2++))\<close>.\<close>

partial_function (option) strcpy_loop :: "mem \<Rightarrow> u32 \<Rightarrow> u32 \<Rightarrow> mem option" where
  "strcpy_loop m s1 s2 =
     (let m' = m(s1 := m s2)
      in if m s2 = 0 then Some m' else strcpy_loop m' (s1 + 1) (s2 + 1))"

definition strcpy :: "mem \<Rightarrow> u32 \<Rightarrow> u32 \<Rightarrow> (mem \<times> u32) option" where
  "strcpy m s1 s2 = map_option (\<lambda>m. (m, s1)) (strcpy_loop m s1 s2)"

text \<open>\<open>while (ns-- && (*s1++ = *s2++))\<close> with \<open>k\<close> the value of \<open>ns\<close> as a count: the memory, \<open>ns\<close> and \<open>s1\<close> after
  the loop.\<close>

fun strncpy_loop :: "nat \<Rightarrow> mem \<Rightarrow> u32 \<Rightarrow> u32 \<Rightarrow> mem \<times> u32 \<times> u32" where
  "strncpy_loop 0 m s1 s2 = (m, - 1, s1)"
| "strncpy_loop (Suc k) m s1 s2 =
     (let m' = m(s1 := m s2)
      in if m s2 = 0 then (m', of_nat k, s1 + 1) else strncpy_loop k m' (s1 + 1) (s2 + 1))"

fun fill :: "nat \<Rightarrow> u8 \<Rightarrow> mem \<Rightarrow> u32 \<Rightarrow> mem" where
  "fill 0 c m s1 = m"
| "fill (Suc k) c m s1 = fill k c (m(s1 := c)) (s1 + 1)"

definition strncpy :: "mem \<Rightarrow> u32 \<Rightarrow> u32 \<Rightarrow> u32 \<Rightarrow> mem \<times> u32" where
  "strncpy m s1 s2 n =
     (case strncpy_loop (unat n) m s1 s2 of (m', ns, p) \<Rightarrow> (fill (nat (sint ns)) 0 m' p, s1))"

definition memset :: "mem \<Rightarrow> u32 \<Rightarrow> u32 \<Rightarrow> u32 \<Rightarrow> mem \<times> u32" where
  "memset m s c n = (fill (unat n) (ucast c) m s, s)"

section \<open>Length and concatenation\<close>

text \<open>\<open>while (*r++)\<close>: the pointer after the loop.\<close>

partial_function (option) skip_string :: "mem \<Rightarrow> u32 \<Rightarrow> u32 option" where
  "skip_string m r = (if m r = 0 then Some (r + 1) else skip_string m (r + 1))"

definition strlen :: "mem \<Rightarrow> u32 \<Rightarrow> u32 option" where
  "strlen m s = map_option (\<lambda>r. (r - 1) - s) (skip_string m s)"

definition strcat :: "mem \<Rightarrow> u32 \<Rightarrow> u32 \<Rightarrow> (mem \<times> u32) option" where
  "strcat m s1 s2 =
     Option.bind (skip_string m s1) (\<lambda>r. map_option (\<lambda>m. (m, s1)) (strcpy_loop m (r - 1) s2))"

text \<open>\<open>while (n-- && (c = *s2++)) *s1++ = c; *s1 = 0\<close>.\<close>

fun strncat_loop :: "nat \<Rightarrow> mem \<Rightarrow> u32 \<Rightarrow> u32 \<Rightarrow> mem" where
  "strncat_loop 0 m s1 s2 = m(s1 := 0)"
| "strncat_loop (Suc k) m s1 s2 =
     (if m s2 = 0 then m(s1 := 0) else strncat_loop k (m(s1 := m s2)) (s1 + 1) (s2 + 1))"

definition strncat :: "mem \<Rightarrow> u32 \<Rightarrow> u32 \<Rightarrow> u32 \<Rightarrow> (mem \<times> u32) option" where
  "strncat m s1 s2 n = map_option (\<lambda>r. (strncat_loop (unat n) m (r - 1) s2, s1)) (skip_string m s1)"

section \<open>Comparison\<close>

definition byte_diff :: "u8 \<Rightarrow> u8 \<Rightarrow> u32" where
  "byte_diff c1 c2 = ucast c1 - ucast c2"

fun memcmp_loop :: "nat \<Rightarrow> mem \<Rightarrow> u32 \<Rightarrow> u32 \<Rightarrow> u32" where
  "memcmp_loop 0 m r1 r2 = 0"
| "memcmp_loop (Suc k) m r1 r2 =
     (if m r1 \<noteq> m r2 then byte_diff (m r1) (m r2) else memcmp_loop k m (r1 + 1) (r2 + 1))"

definition memcmp :: "mem \<Rightarrow> u32 \<Rightarrow> u32 \<Rightarrow> u32 \<Rightarrow> u32" where
  "memcmp m s1 s2 n = memcmp_loop (unat n) m s1 s2"

partial_function (option) strcmp :: "mem \<Rightarrow> u32 \<Rightarrow> u32 \<Rightarrow> u32 option" where
  "strcmp m s1 s2 =
     (if m s1 \<noteq> m s2 \<or> m s1 = 0 then Some (byte_diff (m s1) (m s2)) else strcmp m (s1 + 1) (s2 + 1))"

fun strncmp_loop :: "nat \<Rightarrow> mem \<Rightarrow> u32 \<Rightarrow> u32 \<Rightarrow> u32" where
  "strncmp_loop 0 m s1 s2 = 0"
| "strncmp_loop (Suc k) m s1 s2 =
     (if m s1 \<noteq> m s2 \<or> m s1 = 0 then byte_diff (m s1) (m s2) else strncmp_loop k m (s1 + 1) (s2 + 1))"

definition strncmp :: "mem \<Rightarrow> u32 \<Rightarrow> u32 \<Rightarrow> u32 \<Rightarrow> u32" where
  "strncmp m s1 s2 n = strncmp_loop (unat n) m s1 s2"

definition strxfrm :: "mem \<Rightarrow> u32 \<Rightarrow> u32 \<Rightarrow> u32 \<Rightarrow> (mem \<times> u32) option" where
  "strxfrm m s1 s2 n =
     map_option (\<lambda>result. (if result < n then copy_up (unat result + 1) m s1 s2 else m, result)) (strlen m s2)"

section \<open>Search\<close>

fun memchr_loop :: "nat \<Rightarrow> mem \<Rightarrow> u32 \<Rightarrow> u8 \<Rightarrow> u32" where
  "memchr_loop 0 m r c = 0"
| "memchr_loop (Suc k) m r c = (if m r = c then r else memchr_loop k m (r + 1) c)"

definition memchr :: "mem \<Rightarrow> u32 \<Rightarrow> u32 \<Rightarrow> u32 \<Rightarrow> u32" where
  "memchr m s c n = memchr_loop (unat n) m s (ucast c)"

partial_function (option) strchr_loop :: "mem \<Rightarrow> u32 \<Rightarrow> u8 \<Rightarrow> u32 option" where
  "strchr_loop m s c =
     (if m s = c then Some s else if m s = 0 then Some 0 else strchr_loop m (s + 1) c)"

definition strchr :: "mem \<Rightarrow> u32 \<Rightarrow> u32 \<Rightarrow> u32 option" where
  "strchr m s c = strchr_loop m s (ucast c)"

partial_function (option) strrchr_loop :: "mem \<Rightarrow> u32 \<Rightarrow> u8 \<Rightarrow> u32 \<Rightarrow> u32 option" where
  "strrchr_loop m s c result =
     (let result = (if m s = c then s else result)
      in if m s = 0 then Some result else strrchr_loop m (s + 1) c result)"

definition strrchr :: "mem \<Rightarrow> u32 \<Rightarrow> u32 \<Rightarrow> u32 option" where
  "strrchr m s c = strrchr_loop m s (ucast c) 0"

text \<open>The inner loop \<open>do { d = *r2++; if (c == d) \<dots> } while (d)\<close>: whether it is left through the test.\<close>

partial_function (option) in_set :: "mem \<Rightarrow> u32 \<Rightarrow> u8 \<Rightarrow> bool option" where
  "in_set m r2 c = (if c = m r2 then Some True else if m r2 = 0 then Some False else in_set m (r2 + 1) c)"

partial_function (option) strcspn_loop :: "mem \<Rightarrow> u32 \<Rightarrow> u32 \<Rightarrow> u32 option" where
  "strcspn_loop m r1 s2 =
     Option.bind (in_set m s2 (m r1)) (\<lambda>hit. if hit then Some r1 else strcspn_loop m (r1 + 1) s2)"

definition strcspn :: "mem \<Rightarrow> u32 \<Rightarrow> u32 \<Rightarrow> u32 option" where
  "strcspn m s1 s2 = map_option (\<lambda>r. r - s1) (strcspn_loop m s1 s2)"

partial_function (option) strpbrk :: "mem \<Rightarrow> u32 \<Rightarrow> u32 \<Rightarrow> u32 option" where
  "strpbrk m s1 s2 =
     (if m s1 = 0 then Some 0
      else Option.bind (in_set m s2 (m s1)) (\<lambda>hit. if hit then Some s1 else strpbrk m (s1 + 1) s2))"

text \<open>The loop of \<open>strspn\<close>, and of \<open>strtok\<close> over the separators: the pointer it stops at, not yet
  incremented.\<close>

partial_function (option) strspn_loop :: "mem \<Rightarrow> u32 \<Rightarrow> u32 \<Rightarrow> u32 option" where
  "strspn_loop m r1 s2 =
     (if m r1 = 0 then Some r1
      else Option.bind (in_set m s2 (m r1)) (\<lambda>hit. if hit then strspn_loop m (r1 + 1) s2 else Some r1))"

definition strspn :: "mem \<Rightarrow> u32 \<Rightarrow> u32 \<Rightarrow> u32 option" where
  "strspn m s1 s2 = map_option (\<lambda>r. r - s1) (strspn_loop m s1 s2)"

partial_function (option) is_prefix :: "mem \<Rightarrow> u32 \<Rightarrow> u32 \<Rightarrow> bool option" where
  "is_prefix m r1 r2 =
     (if m r2 = 0 then Some True else if m r1 \<noteq> m r2 then Some False else is_prefix m (r1 + 1) (r2 + 1))"

partial_function (option) strstr :: "mem \<Rightarrow> u32 \<Rightarrow> u32 \<Rightarrow> u32 option" where
  "strstr m s1 s2 =
     Option.bind (is_prefix m s1 s2)
       (\<lambda>hit. if hit then Some s1 else if m s1 = 0 then Some 0 else strstr m (s1 + 1) s2)"

text \<open>The state of \<open>strtok\<close> is the pointer \<open>last\<close>; the result is the token, the memory and \<open>last\<close>.\<close>

definition strtok :: "mem \<Rightarrow> u32 \<Rightarrow> u32 \<Rightarrow> u32 \<Rightarrow> (u32 \<times> mem \<times> u32) option" where
  "strtok m prev s1 s2 =
     (let s1 = (if s1 = 0 then prev else s1)
      in if s1 = 0 then Some (0, m, prev)
         else
           Option.bind (strspn_loop m s1 s2) (\<lambda>start.
             if m start = 0 then Some (0, m, 0)
             else
               map_option (\<lambda>r. if m r = 0 then (start, m, 0) else (start, m(r := 0), r + 1))
                 (strcspn_loop m (start + 1) s2)))"

definition strerror :: "u32 \<Rightarrow> string" where
  "strerror errnum = []"

lemmas [code] = strcpy_loop.simps skip_string.simps strcmp.simps strchr_loop.simps strrchr_loop.simps
  in_set.simps strcspn_loop.simps strpbrk.simps strspn_loop.simps is_prefix.simps strstr.simps

section \<open>Strings in memory\<close>

text \<open>The string \<open>s\<close>, without its NUL, is stored at \<open>p\<close>.\<close>

definition cstring :: "mem \<Rightarrow> u32 \<Rightarrow> u8 list \<Rightarrow> bool" where
  "cstring m p s \<longleftrightarrow> 0 \<notin> set s \<and> rd m p (length s) = s \<and> m (p + of_nat (length s)) = 0"

lemma cstring_Nil [simp]: "cstring m p [] \<longleftrightarrow> m p = 0"
  by (simp add: cstring_def)

lemma cstring_Cons: "cstring m p (c # s) \<longleftrightarrow> c \<noteq> 0 \<and> m p = c \<and> cstring m (p + 1) s"
  by (auto simp: cstring_def rd_Suc add.assoc)

lemma cstring_append: "cstring m p (a @ b) \<longleftrightarrow> 0 \<notin> set a \<and> rd m p (length a) = a \<and> cstring m (p + of_nat (length a)) b"
  by (induction a arbitrary: p) (auto simp: cstring_Cons rd_Suc add.assoc)

lemma cstring_nth: "cstring m p s \<Longrightarrow> i < length s \<Longrightarrow> m (p + of_nat i) = s ! i \<and> s ! i \<noteq> 0"
  by (metis cstring_def nth_mem nth_rd)

lemma cstring_drop: "cstring m p s \<Longrightarrow> n \<le> length s \<Longrightarrow> cstring m (p + of_nat n) (drop n s)"
  using cstring_append[of m p "take n s" "drop n s"] by simp

lemma skip_string_value: "cstring m p s \<Longrightarrow> skip_string m p = Some (p + of_nat (length s) + 1)"
proof (induction s arbitrary: p)
  case Nil
  then show ?case by (subst skip_string.simps) simp
next
  case (Cons c s)
  then show ?case by (subst skip_string.simps) (simp add: cstring_Cons)
qed

lemma strlen_value: "cstring m p s \<Longrightarrow> strlen m p = Some (of_nat (length s))"
  by (simp add: strlen_def skip_string_value)

section \<open>Comparison\<close>

text \<open>The difference of the first bytes two NUL-terminated strings disagree in.\<close>

fun first_diff :: "u8 list \<Rightarrow> u8 list \<Rightarrow> u32" where
  "first_diff [] [] = 0"
| "first_diff (a # s) [] = byte_diff a 0"
| "first_diff [] (b # t) = byte_diff 0 b"
| "first_diff (a # s) (b # t) = (if a = b then first_diff s t else byte_diff a b)"

lemma strcmp_value: "cstring m p s \<Longrightarrow> cstring m q t \<Longrightarrow> strcmp m p q = Some (first_diff s t)"
  by (induction s t arbitrary: p q rule: first_diff.induct; subst strcmp.simps)
    (auto simp: cstring_Cons byte_diff_def)

lemma strncmp_value:
  "cstring m p s \<Longrightarrow> cstring m q t \<Longrightarrow> strncmp_loop n m p q = first_diff (take n s) (take n t)"
proof (induction s t arbitrary: p q n rule: first_diff.induct)
  case 1 then show ?case by (cases n) (auto simp: byte_diff_def)
next
  case (2 a s) then show ?case by (cases n) (auto simp: cstring_Cons)
next
  case (3 b t) then show ?case by (cases n) (auto simp: cstring_Cons)
next
  case (4 a s b t) then show ?case by (cases n) (auto simp: cstring_Cons)
qed

lemma memcmp_value: "memcmp_loop n m p q = first_diff (rd m p n) (rd m q n)"
  by (induction n arbitrary: p q) (auto simp: rd_Suc)

definition bytes_less :: "(u8 list \<times> u8 list) set" where
  "bytes_less = lexord {(a, b). a < b}"

lemma sint_byte_diff: "sint (byte_diff a b) = int (unat a) - int (unat b)"
proof -
  have b: "int (unat a) < 256" "int (unat b) < 256" using unsigned_less[of a] unsigned_less[of b] by simp_all
  define d where "d = int (unat a) - int (unat b)"
  have "byte_diff a b = word_of_int d" by (simp add: byte_diff_def d_def)
  moreover have "- (2 ^ 31) \<le> d" "d < 2 ^ 31" using b by (simp_all add: d_def del: of_nat_unat)
  then have "sint (word_of_int d :: u32) = d" by (intro sint_word_of_int_eq) simp_all
  ultimately show ?thesis by (simp only: d_def)
qed

lemma byte_diff_order: "byte_diff a b = 0 \<longleftrightarrow> a = b" "sint (byte_diff a b) < 0 \<longleftrightarrow> a < b"
proof -
  have "byte_diff a b = 0 \<longleftrightarrow> sint (byte_diff a b) = 0" by (metis signed_0 signed_word_eqI)
  then show "byte_diff a b = 0 \<longleftrightarrow> a = b" unfolding sint_byte_diff by (simp del: of_nat_unat add: word_unat_eq_iff)
  show "sint (byte_diff a b) < 0 \<longleftrightarrow> a < b" unfolding sint_byte_diff by (simp del: of_nat_unat add: word_less_nat_alt)
qed

lemma first_diff_order:
  "0 \<notin> set s \<Longrightarrow> 0 \<notin> set t \<Longrightarrow>
     (first_diff s t = 0 \<longleftrightarrow> s = t) \<and> (sint (first_diff s t) < 0 \<longleftrightarrow> (s, t) \<in> bytes_less)"
  by (induction s t rule: first_diff.induct)
    (auto simp: byte_diff_order bytes_less_def word_gt_0)

lemma first_diff_eq_length:
  "length s = length t \<Longrightarrow>
     (first_diff s t = 0 \<longleftrightarrow> s = t) \<and> (sint (first_diff s t) < 0 \<longleftrightarrow> (s, t) \<in> bytes_less)"
  by (induction s t rule: first_diff.induct) (auto simp: byte_diff_order bytes_less_def)

section \<open>Copying\<close>

lemma fill_value: "k < 4294967296 \<Longrightarrow> fill k c m s = wr m s (replicate k c)"
  by (induction k arbitrary: m s) (simp_all add: wr_Cons)

lemma copy_up_value:
  assumes "n < 4294967296" "\<And>i j. j < i \<Longrightarrow> i < n \<Longrightarrow> d + of_nat j \<noteq> s + of_nat i"
  shows "copy_up n m d s = wr m d (rd m s n)"
  using assms
proof (induction n arbitrary: m d s)
  case (Suc n)
  have r: "rd (m(d := m s)) (s + 1) n = rd m (s + 1) n"
  proof (rule rd_upd_other)
    fix i assume "i < n"
    then show "d \<noteq> s + 1 + of_nat i" using Suc.prems(2)[of 0 "Suc i"] by (simp add: add.assoc)
  qed
  have "d + 1 + of_nat j \<noteq> s + 1 + of_nat i" if "j < i" "i < n" for i j
    using Suc.prems(2)[of "Suc j" "Suc i"] that by (simp add: add.assoc add.left_commute[of _ 1])
  then have "copy_up n (m(d := m s)) (d + 1) (s + 1) = wr (m(d := m s)) (d + 1) (rd (m(d := m s)) (s + 1) n)"
    using Suc.prems(1) by (intro Suc.IH) simp_all
  then show ?case using Suc.prems(1) by (simp add: r rd_Suc wr_Cons)
qed simp

lemma copy_down_value:
  assumes "n < 4294967296" "\<And>i j. i < j \<Longrightarrow> j < n \<Longrightarrow> d + of_nat j \<noteq> s + of_nat i"
  shows "copy_down n m d s = wr m d (rd m s n)"
  using assms
proof (induction n arbitrary: m)
  case (Suc n)
  let ?m = "m(d + of_nat n := m (s + of_nat n))"
  have r: "rd ?m s n = rd m s n"
    by (rule rd_upd_other) (use Suc.prems(2) in auto)
  have "copy_down n ?m d s = wr ?m d (rd ?m s n)"
    by (rule Suc.IH) (use Suc.prems in auto)
  moreover have "rd m s (Suc n) = rd m s n @ [m (s + of_nat n)]"
    using rd_add[of m s n 1] by (simp add: rd_Suc)
  ultimately show ?case using Suc.prems(1) wr_snoc[of "rd m s n" m d] by (simp add: r)
qed simp

lemma of_nat_plus_le:
  assumes "unat p + n \<le> 4294967296" "i < n"
  shows "unat (p + of_nat i :: u32) = unat p + i"
proof -
  have "unat (of_nat i :: u32) = i" using assms by (intro unat_of_nat32) simp
  then show ?thesis using assms by (simp add: unat_plus_if')
qed

lemma apart_below:
  assumes "unat p + a \<le> unat q" "unat q + b \<le> 4294967296"
  shows "apart p a q b"
  unfolding apart_def
proof (intro allI impI)
  fix i j assume "i < a" "j < b"
  then have "unat (p + of_nat i) = unat p + i" "unat (q + of_nat j) = unat q + j"
    using of_nat_plus_le[of p a i] of_nat_plus_le[of q b j] assms by simp_all
  then show "p + of_nat i \<noteq> q + of_nat j" using assms(1) \<open>i < a\<close> by (metis not_add_less1 add_less_le_mono leD le_add1 le_trans nat_add_left_cancel_less)
qed

lemma memmove_value:
  assumes "unat s1 + unat n \<le> 4294967296" "unat s2 + unat n \<le> 4294967296" "unat n \<le> 2147483648"
  shows "memmove m s1 s2 n = (wr m s1 (rd m s2 (unat n)), s1)"
proof (cases "s1 \<le> s2")
  case True
  have "s1 + of_nat j \<noteq> s2 + of_nat i" if "j < i" "i < unat n" for i j
  proof -
    have "unat (s1 + of_nat j) = unat s1 + j" "unat (s2 + of_nat i) = unat s2 + i"
      using of_nat_plus_le[OF assms(1), of j] of_nat_plus_le[OF assms(2), of i] that by simp_all
    then show ?thesis using that(1) True by (metis add_le_less_mono less_irrefl word_le_nat_alt)
  qed
  then have "copy_up (unat n) m s1 s2 = wr m s1 (rd m s2 (unat n))"
    using assms(3) by (intro copy_up_value) simp_all
  then show ?thesis using True by (simp add: memmove_def)
next
  case False
  have "s1 + of_nat j \<noteq> s2 + of_nat i" if "i < j" "j < unat n" for i j
  proof -
    have "unat (s1 + of_nat j) = unat s1 + j" "unat (s2 + of_nat i) = unat s2 + i"
      using of_nat_plus_le[OF assms(1), of j] of_nat_plus_le[OF assms(2), of i] that by simp_all
    then show ?thesis using that(1) False by (metis add_strict_mono less_irrefl word_le_nat_alt not_le)
  qed
  then have c: "copy_down (unat n) m s1 s2 = wr m s1 (rd m s2 (unat n))"
    using assms(3) by (intro copy_down_value) simp_all
  have "nat (sint (n - 1) + 1) = unat n"
  proof (cases "n = 0")
    case False
    then have "1 \<le> unat n" by (metis less_one not_less unat_eq_zero)
    then have u: "unat (n - 1) = unat n - 1" by (simp add: unat_sub_if')
    then have "sint (n - 1) = int (unat n) - 1"
      using assms(3) \<open>1 \<le> unat n\<close> unfolding sint_eq_cases[of "n - 1"] by (simp add: of_nat_diff del: of_nat_unat)
    then show ?thesis by (simp del: of_nat_unat)
  qed simp
  then show ?thesis using False c by (simp add: memmove_def)
qed

text \<open>More than \<open>2\<^sup>3\<^sup>1\<close> bytes to a higher address: the signed counter starts negative.\<close>

lemma memmove_large:
  assumes "s2 < s1" "2147483648 < unat n"
  shows "memmove m s1 s2 n = (m, s1)"
proof -
  have "unat (n - 1) = unat n - 1" using assms(2) by (simp add: unat_sub_if')
  then have "sint (n - 1) < 0" using assms(2) by (simp add: sint_neg_iff)
  then have "nat (sint (n - 1) + 1) = 0" by simp
  moreover have "\<not> s1 \<le> s2" using assms(1) by simp
  ultimately show ?thesis by (simp only: memmove_def if_False copy_down.simps)
qed

lemma cstring_upd:
  assumes "\<And>j. j \<le> length s \<Longrightarrow> a \<noteq> p + of_nat j"
  shows "cstring (m(a := x)) p s = cstring m p s"
proof -
  have "rd (m(a := x)) p (length s) = rd m p (length s)"
    by (rule rd_upd_other) (use assms in simp)
  then show ?thesis using assms[of "length s"] by (auto simp: cstring_def)
qed

lemma apart_shift: "apart p (k + a) q b \<Longrightarrow> apart (p + of_nat k) a q b"
  unfolding apart_def by (metis add.assoc nat_add_left_cancel_less of_nat_add)

lemma strcpy_loop_value:
  assumes "cstring m p s" "apart d (Suc (length s)) p (Suc (length s))" "length s < 4294967295"
  shows "strcpy_loop m d p = Some (wr m d (s @ [0]))"
  using assms
proof (induction s arbitrary: m d p)
  case Nil
  then show ?case by (subst strcpy_loop.simps) (simp add: wr_Cons)
next
  case (Cons c s)
  have "cstring (m(d := c)) (p + 1) s = cstring m (p + 1) s"
  proof (rule cstring_upd)
    fix j assume "j \<le> length s"
    then have "d + of_nat 0 \<noteq> p + of_nat (Suc j)" using Cons.prems(2) unfolding apart_def
      by (intro Cons.prems(2)[unfolded apart_def, rule_format]) simp_all
    then show "d \<noteq> p + 1 + of_nat j" by (simp add: add.assoc)
  qed
  then have c: "cstring (m(d := c)) (p + 1) s" using Cons.prems(1) by (simp add: cstring_Cons)
  have "apart (d + 1) (Suc (length s)) (p + 1) (Suc (length s))"
    by (rule apart_Suc) (use Cons.prems(2) in simp)
  then have "strcpy_loop (m(d := c)) (d + 1) (p + 1) = Some (wr (m(d := c)) (d + 1) (s @ [0]))"
    using Cons.prems(3) by (intro Cons.IH[OF c]) simp_all
  then show ?case using Cons.prems
    by (subst strcpy_loop.simps) (simp add: cstring_Cons Let_def wr_Cons)
qed

lemma strcpy_value:
  assumes "cstring m p s" "apart d (Suc (length s)) p (Suc (length s))" "length s < 4294967295"
  shows "strcpy m d p = Some (wr m d (s @ [0]), d)"
  by (simp add: strcpy_def strcpy_loop_value[OF assms])

lemma strcat_value:
  assumes "cstring m d t" "cstring m p s" "length s < 4294967295"
    and "apart (d + of_nat (length t)) (Suc (length s)) p (Suc (length s))"
  shows "strcat m d p = Some (wr m (d + of_nat (length t)) (s @ [0]), d)"
  by (simp add: strcat_def skip_string_value[OF assms(1)] strcpy_loop_value[OF assms(2,4,3)])

lemma strncat_loop_value:
  assumes "cstring m p s" "apart d (Suc (min n (length s))) p (Suc (length s))" "n < 4294967295"
  shows "strncat_loop n m d p = wr m d (take n s @ [0])"
  using assms
proof (induction n arbitrary: m d p s)
  case 0
  then show ?case by (simp add: wr_Cons)
next
  case (Suc n)
  show ?case
  proof (cases s)
    case Nil
    then show ?thesis using Suc.prems by (simp add: wr_Cons)
  next
    case (Cons c s')
    have "cstring (m(d := c)) (p + 1) s' = cstring m (p + 1) s'"
    proof (rule cstring_upd)
      fix j assume "j \<le> length s'"
      then have "d + of_nat 0 \<noteq> p + of_nat (Suc j)"
        by (intro Suc.prems(2)[unfolded apart_def, rule_format]) (simp_all add: Cons)
      then show "d \<noteq> p + 1 + of_nat j" by (simp add: add.assoc)
    qed
    then have c: "cstring (m(d := c)) (p + 1) s'" using Suc.prems(1) by (simp add: cstring_Cons Cons)
    have "apart (d + 1) (Suc (min n (length s'))) (p + 1) (Suc (length s'))"
      by (rule apart_Suc) (use Suc.prems(2) in \<open>simp add: Cons\<close>)
    then have "strncat_loop n (m(d := c)) (d + 1) (p + 1) = wr (m(d := c)) (d + 1) (take n s' @ [0])"
      using Suc.prems(3) by (intro Suc.IH[OF c]) simp_all
    then show ?thesis using Suc.prems by (simp add: cstring_Cons Cons wr_Cons)
  qed
qed

lemma strncat_value:
  assumes "cstring m d t" "cstring m p s" "unat n < 4294967295"
    and "apart (d + of_nat (length t)) (Suc (min (unat n) (length s))) p (Suc (length s))"
  shows "strncat m d p n = Some (wr m (d + of_nat (length t)) (take (unat n) s @ [0]), d)"
  by (simp add: strncat_def skip_string_value[OF assms(1)] strncat_loop_value[OF assms(2,4,3)])

lemma strncpy_loop_value:
  assumes "cstring m p s" "apart d n p (Suc (length s))" "n < 2147483648"
  shows "strncpy_loop n m d p =
    (if length s < n then (wr m d (s @ [0]), of_nat (n - length s - 1), d + of_nat (length s) + 1)
     else (wr m d (take n s), - 1, d + of_nat n))"
  using assms
proof (induction n arbitrary: m d p s)
  case (Suc n)
  show ?case
  proof (cases s)
    case Nil
    then show ?thesis using Suc.prems by (simp add: wr_Cons)
  next
    case (Cons c s')
    have "cstring (m(d := c)) (p + 1) s' = cstring m (p + 1) s'"
    proof (rule cstring_upd)
      fix j assume "j \<le> length s'"
      then have "d + of_nat 0 \<noteq> p + of_nat (Suc j)"
        by (intro Suc.prems(2)[unfolded apart_def, rule_format]) (simp_all add: Cons)
      then show "d \<noteq> p + 1 + of_nat j" by (simp add: add.assoc)
    qed
    then have c: "cstring (m(d := c)) (p + 1) s'" using Suc.prems(1) by (simp add: cstring_Cons Cons)
    have a: "apart (d + 1) n (p + 1) (Suc (length s'))"
      by (rule apart_Suc) (use Suc.prems(2) in \<open>simp add: Cons\<close>)
    have n: "n < 2147483648" using Suc.prems(3) by simp
    define m' where "m' = m(d := c)"
    have step: "strncpy_loop (Suc n) m d p = strncpy_loop n m' (d + 1) (p + 1)"
      using Suc.prems(1) by (simp add: cstring_Cons Cons m'_def)
    note IH = Suc.IH[OF c a n, folded m'_def]
    have w: "wr m' (d + 1) xs = wr m d (c # xs)" if "length xs \<le> n + 1" for xs
      using that n by (simp add: wr_Cons m'_def)
    show ?thesis
    proof (cases "length s' < n")
      case True
      have "d + 1 + of_nat (length s') + 1 = d + of_nat (length s) + 1" by (simp add: Cons)
      moreover have "n - length s' - 1 = Suc n - length s - 1" by (simp add: Cons)
      ultimately show ?thesis using True IH w[of "s' @ [0]"] unfolding step by (simp add: Cons)
    next
      case False
      then show ?thesis using IH w[of "take n s'"] unfolding step by (simp add: Cons add.assoc)
    qed
  qed
qed simp

lemma wr_append:
  "length (xs @ ys) < 4294967296 \<Longrightarrow> wr m p (xs @ ys) = wr (wr m p xs) (p + of_nat (length xs)) ys"
proof (induction xs arbitrary: m p)
  case (Cons x xs)
  then show ?case by (simp add: wr_Cons add.assoc)
qed simp

lemma strncpy_value:
  assumes "cstring m p s" "apart d (unat n) p (Suc (length s))" "unat n < 2147483648"
  shows "strncpy m d p n = (wr m d (take (unat n) (s @ replicate (unat n) 0)), d)"
proof (cases "length s < unat n")
  case True
  let ?k = "unat n - length s - 1"
  have k: "?k < 2147483648" using assms(3) by simp
  then have "unat (of_nat ?k :: u32) = ?k" by (intro unat_of_nat32) simp
  then have "sint (of_nat ?k :: u32) = int ?k" using k by (simp add: sint_eq_cases del: of_nat_unat)
  then have ns: "nat (sint (of_nat ?k :: u32)) = ?k" by (simp only: nat_int)
  have "unat n - length s = Suc ?k" using True by simp
  then have e: "take (unat n) (s @ replicate (unat n) 0) = (s @ [0]) @ replicate ?k 0"
    using True by (simp add: min.absorb1)
  have "wr m d ((s @ [0]) @ replicate ?k 0) = wr (wr m d (s @ [0])) (d + of_nat (length (s @ [0]))) (replicate ?k 0)"
    by (rule wr_append) (use assms(3) True in simp)
  moreover have "d + of_nat (length (s @ [0])) = d + of_nat (length s) + 1" by simp
  moreover have "fill ?k 0 (wr m d (s @ [0])) (d + of_nat (length s) + 1)
      = wr (wr m d (s @ [0])) (d + of_nat (length s) + 1) (replicate ?k 0)"
    by (rule fill_value) (use k in simp)
  ultimately have f: "fill ?k 0 (wr m d (s @ [0])) (d + of_nat (length s) + 1)
      = wr m d (take (unat n) (s @ replicate (unat n) 0))" unfolding e by (simp only:)
  have "strncpy_loop (unat n) m d p = (wr m d (s @ [0]), of_nat ?k, d + of_nat (length s) + 1)"
    using strncpy_loop_value[OF assms] True by (simp only: if_True)
  then show ?thesis unfolding strncpy_def by (simp only: prod.case ns f)
next
  case False
  then show ?thesis
    using strncpy_loop_value[OF assms] by (simp add: strncpy_def)
qed


section \<open>Search\<close>

lemma memchr_value:
  "memchr_loop n m p c =
     (let k = length (takeWhile (\<lambda>x. x \<noteq> c) (rd m p n)) in if k < n then p + of_nat k else 0)"
proof (induction n arbitrary: p)
  case (Suc n)
  show ?case by (simp add: rd_Suc Let_def add.assoc Suc.IH)
qed simp

lemma strchr_loop_value:
  "cstring m p s \<Longrightarrow> strchr_loop m p c =
     Some (let k = length (takeWhile (\<lambda>x. x \<noteq> c) (s @ [0])) in if k \<le> length s then p + of_nat k else 0)"
proof (induction s arbitrary: p)
  case Nil
  then show ?case by (subst strchr_loop.simps) simp
next
  case (Cons x s)
  then show ?case by (subst strchr_loop.simps) (simp add: cstring_Cons Let_def add.assoc)
qed

text \<open>The number of bytes of \<open>s\<close> up to and including the last \<open>c\<close>.\<close>

fun last_pos :: "'a \<Rightarrow> 'a list \<Rightarrow> nat" where
  "last_pos c [] = 0"
| "last_pos c (x # s) = (if last_pos c s = 0 then (if x = c then 1 else 0) else Suc (last_pos c s))"

lemma last_pos_zero: "last_pos c s = 0 \<longleftrightarrow> c \<notin> set s"
  by (induction s) auto

lemma last_pos_last: "last_pos c s = Suc k \<longleftrightarrow> k < length s \<and> s ! k = c \<and> c \<notin> set (drop (Suc k) s)"
proof (induction s arbitrary: k)
  case (Cons x s)
  show ?case
  proof (cases k)
    case 0
    then show ?thesis using last_pos_zero[of c s] by auto
  next
    case (Suc j)
    have "c \<in> set s" if "last_pos c s \<noteq> 0" using that last_pos_zero[of c s] by simp
    then show ?thesis using Suc Cons[of j] last_pos_zero[of c s] by (auto dest: nth_mem)
  qed
qed simp

lemma strrchr_loop_value:
  "cstring m p s \<Longrightarrow> strrchr_loop m p c r =
     Some (case last_pos c (s @ [0]) of 0 \<Rightarrow> r | Suc k \<Rightarrow> p + of_nat k)"
proof (induction s arbitrary: p r)
  case Nil
  then show ?case by (subst strrchr_loop.simps) simp
next
  case (Cons x s)
  then have "x \<noteq> 0" "m p = x" "cstring m (p + 1) s" by (simp_all add: cstring_Cons)
  then show ?case
    by (subst strrchr_loop.simps) (cases "last_pos c (s @ [0])"; simp add: Let_def Cons.IH add.assoc)
qed

lemma in_set_value: "cstring m q t \<Longrightarrow> in_set m q c = Some (c \<in> set t \<or> c = 0)"
proof (induction t arbitrary: q)
  case Nil
  then show ?case by (subst in_set.simps) simp
next
  case (Cons x t)
  then show ?case by (subst in_set.simps) (auto simp: cstring_Cons)
qed

lemma strcspn_loop_value:
  "cstring m p s \<Longrightarrow> cstring m q t \<Longrightarrow>
     strcspn_loop m p q = Some (p + of_nat (length (takeWhile (\<lambda>c. c \<notin> set t) s)))"
proof (induction s arbitrary: p)
  case Nil
  then show ?case by (subst strcspn_loop.simps) (simp add: in_set_value)
next
  case (Cons x s)
  then show ?case by (subst strcspn_loop.simps) (simp add: cstring_Cons in_set_value add.assoc)
qed

lemma strspn_loop_value:
  "cstring m p s \<Longrightarrow> cstring m q t \<Longrightarrow>
     strspn_loop m p q = Some (p + of_nat (length (takeWhile (\<lambda>c. c \<in> set t) s)))"
proof (induction s arbitrary: p)
  case Nil
  then show ?case by (subst strspn_loop.simps) (simp add: in_set_value)
next
  case (Cons x s)
  then show ?case by (subst strspn_loop.simps) (simp add: cstring_Cons in_set_value add.assoc)
qed

lemma strpbrk_value:
  "cstring m p s \<Longrightarrow> cstring m q t \<Longrightarrow>
     strpbrk m p q = Some (let k = length (takeWhile (\<lambda>c. c \<notin> set t) s)
                           in if k < length s then p + of_nat k else 0)"
proof (induction s arbitrary: p)
  case Nil
  then show ?case by (subst strpbrk.simps) (simp add: in_set_value)
next
  case (Cons x s)
  then show ?case by (subst strpbrk.simps) (simp add: cstring_Cons in_set_value Let_def add.assoc)
qed

lemma is_prefix_value:
  "cstring m p s \<Longrightarrow> cstring m q t \<Longrightarrow> is_prefix m p q = Some (take (length t) s = t)"
proof (induction t arbitrary: p q s)
  case Nil
  then show ?case by (subst is_prefix.simps) simp
next
  case (Cons c t)
  then show ?case
    by (subst is_prefix.simps) (cases s; simp add: cstring_Cons; metis)
qed

fun find_sub :: "'a list \<Rightarrow> 'a list \<Rightarrow> nat option" where
  "find_sub t [] = (if t = [] then Some 0 else None)"
| "find_sub t (x # s) = (if take (length t) (x # s) = t then Some 0 else map_option Suc (find_sub t s))"

lemma find_sub_Some:
  "find_sub t s = Some k \<longleftrightarrow>
     k \<le> length s \<and> take (length t) (drop k s) = t \<and> (\<forall>j < k. take (length t) (drop j s) \<noteq> t)"
proof (induction s arbitrary: k)
  case (Cons x s)
  show ?case
  proof (cases "take (length t) (x # s) = t")
    case True
    then show ?thesis by (cases k) auto
  next
    case False
    then show ?thesis
      by (cases k) (auto simp: Cons.IH less_Suc_eq_0_disj)
  qed
qed auto

lemma find_sub_None: "find_sub t s = None \<longleftrightarrow> (\<forall>k \<le> length s. take (length t) (drop k s) \<noteq> t)"
proof (induction s)
  case (Cons x s)
  have "(\<forall>k \<le> length (x # s). P k) \<longleftrightarrow> P 0 \<and> (\<forall>k \<le> length s. P (Suc k))" for P
    by (metis Suc_le_mono le0 length_Cons not0_implies_Suc)
  then show ?case by (auto simp: Cons.IH)
qed auto

lemma strstr_value:
  assumes "cstring m p s" "cstring m q t"
  shows "strstr m p q = Some (case find_sub t s of Some k \<Rightarrow> p + of_nat k | None \<Rightarrow> 0)"
  using assms(1)
proof (induction s arbitrary: p)
  case Nil
  then show ?case by (subst strstr.simps) (simp add: is_prefix_value[OF Nil assms(2)])
next
  case (Cons x s)
  then show ?case
    by (subst strstr.simps)
      (auto simp: is_prefix_value[OF Cons.prems assms(2)] cstring_Cons add.assoc split: option.split)
qed


section \<open>Tokens\<close>

text \<open>The maximal non-empty runs of bytes outside the separators \<open>D\<close>.\<close>

function tokens :: "'a set \<Rightarrow> 'a list \<Rightarrow> 'a list list" where
  "tokens D s =
     (case dropWhile (\<lambda>c. c \<in> D) s of
        [] \<Rightarrow> []
      | c # r \<Rightarrow> (c # takeWhile (\<lambda>c. c \<notin> D) r) # tokens D (dropWhile (\<lambda>c. c \<notin> D) r))"
  by pat_completeness auto
termination
proof (relation "measure (\<lambda>(D, s). length s)")
  fix D s and c :: 'a and r
  assume "dropWhile (\<lambda>c. c \<in> D) s = c # r"
  then have "length (c # r) \<le> length s" by (metis length_dropWhile_le)
  then show "((D, dropWhile (\<lambda>c. c \<notin> D) r), (D, s)) \<in> measure (\<lambda>(D, s). length s)"
    using length_dropWhile_le[of "\<lambda>c. c \<notin> D" r] by simp
qed simp

declare tokens.simps [simp del]

lemma tokens_sep: "c \<in> D \<Longrightarrow> tokens D (c # s) = tokens D s"
  by (simp add: tokens.simps[of D "c # s"] tokens.simps[of D s])

text \<open>The first call with \<open>s1 = p\<close>, then calls with a null pointer until one returns null.\<close>

fun strtok_run :: "nat \<Rightarrow> mem \<Rightarrow> u32 \<Rightarrow> u32 \<Rightarrow> u32 \<Rightarrow> (u32 list \<times> mem) option" where
  "strtok_run 0 m prev s1 s2 = None"
| "strtok_run (Suc k) m prev s1 s2 =
     Option.bind (strtok m prev s1 s2) (\<lambda>(r, m', prev').
       if r = 0 then Some ([], m')
       else map_option (\<lambda>(rs, m''). (r # rs, m'')) (strtok_run k m' prev' 0 s2))"

lemma strtok_step:
  assumes "cstring m p s" "cstring m q t" "(if s1 = 0 then prev else s1) = p" "p \<noteq> 0"
    and r: "dropWhile (\<lambda>c. c \<in> set t) s = c # r"
  defines "n \<equiv> length (takeWhile (\<lambda>c. c \<in> set t) s)" and "k \<equiv> length (takeWhile (\<lambda>c. c \<notin> set t) r)"
  shows "strtok m prev s1 q =
     Some (p + of_nat n,
       (if k = length r then (m, 0)
        else (m(p + of_nat n + 1 + of_nat k := 0), p + of_nat n + 1 + of_nat k + 1)))"
proof -
  have "n \<le> length s" by (simp add: n_def length_takeWhile_le)
  moreover have "drop n s = c # r" using r by (simp add: n_def dropWhile_eq_drop)
  ultimately have cs: "cstring m (p + of_nat n) (c # r)" using cstring_drop[OF assms(1), of n] by simp
  then have c: "m (p + of_nat n) = c" "c \<noteq> 0" and r': "cstring m (p + of_nat n + 1) r"
    by (simp_all add: cstring_Cons)
  have k: "k \<le> length r" by (simp add: k_def length_takeWhile_le)
  have z: "m (p + of_nat n + 1 + of_nat k) = 0 \<longleftrightarrow> k = length r"
    using k cstring_nth[OF r', of k] r' unfolding cstring_def by (cases "k = length r") auto
  have a: "strspn_loop m p q = Some (p + of_nat n)"
    using strspn_loop_value[OF assms(1,2)] by (simp add: n_def)
  have b: "strcspn_loop m (p + of_nat n + 1) q = Some (p + of_nat n + 1 + of_nat k)"
    using strcspn_loop_value[OF r' assms(2)] by (simp add: k_def)
  show ?thesis
    using assms(4) unfolding strtok_def assms(3) Let_def
    by (simp only: a b bind.bind_lunit c z if_False if_True option.map) (simp only: z split: if_splits; auto)
qed

lemma strtok_end:
  assumes "cstring m p s" "cstring m q t" "(if s1 = 0 then prev else s1) = p" "p \<noteq> 0"
    and r: "dropWhile (\<lambda>c. c \<in> set t) s = []"
  shows "strtok m prev s1 q = Some (0, m, 0)"
proof -
  have "takeWhile (\<lambda>c. c \<in> set t) s = s" using r by (metis append_Nil2 takeWhile_dropWhile_id)
  then have "strspn_loop m p q = Some (p + of_nat (length s))"
    using strspn_loop_value[OF assms(1,2)] by (simp only:)
  moreover have "m (p + of_nat (length s)) = 0" using assms(1) by (simp add: cstring_def)
  ultimately show ?thesis using assms(4) unfolding strtok_def assms(3) Let_def by simp
qed


lemma cstring_frame:
  assumes "\<And>j. j \<le> length s \<Longrightarrow> m' (p + of_nat j) = m (p + of_nat j)" "cstring m p s"
  shows "cstring m' p s"
proof -
  have "rd m' p (length s) = rd m p (length s)" by (rule rd_cong) (use assms(1) in simp)
  then show ?thesis using assms by (simp add: cstring_def)
qed

lemma cstring_cut:
  assumes "cstring m p s" "k \<le> length s" "m' (p + of_nat k) = 0"
    and "\<And>i. i < k \<Longrightarrow> m' (p + of_nat i) = m (p + of_nat i)"
  shows "cstring m' p (take k s)"
proof -
  have "rd m' p k = rd m p k" by (rule rd_cong) (use assms(4) in simp)
  also have "\<dots> = take k s" using assms(1,2) cstring_nth[OF assms(1)] by (intro nth_equalityI) auto
  finally show ?thesis using assms(1-3) by (auto simp: cstring_def min_def dest: in_set_takeD)
qed

lemma strtok_run_tokens:
  assumes "cstring m p s" "cstring m q t" "(if s1 = 0 then prev else s1) = p" "p \<noteq> 0"
    and "unat p + length s < 4294967296" "apart p (Suc (length s)) q (Suc (length t))" "length s < fuel"
  shows "\<exists>rs m'. strtok_run fuel m prev s1 q = Some (rs, m') \<and>
    list_all2 (cstring m') rs (tokens (set t) s) \<and> (\<forall>a. (\<forall>i \<le> length s. a \<noteq> p + of_nat i) \<longrightarrow> m' a = m a)"
  using assms
proof (induction fuel arbitrary: m p s s1 prev)
  case (Suc fuel)
  let ?D = "\<lambda>c. c \<in> set t"
  note st = strtok_step[OF Suc.prems(1-4)]
  show ?case
  proof (cases "dropWhile ?D s")
    case Nil
    have "tokens (set t) s = []" by (subst tokens.simps) (simp only: Nil list.case)
    then show ?thesis using strtok_end[OF Suc.prems(1-4) Nil] by simp
  next
    case (Cons c r)
    define n where "n = length (takeWhile ?D s)"
    define k where "k = length (takeWhile (\<lambda>c. c \<notin> set t) r)"
    have d: "drop n s = c # r" using Cons by (simp only: n_def dropWhile_eq_drop)
    have s: "n \<le> length s" by (simp add: n_def length_takeWhile_le)
    have ls: "length s = n + 1 + length r" using arg_cong[OF d, of length] s by simp
    have k: "k \<le> length r" by (simp add: k_def length_takeWhile_le)
    have tk: "takeWhile (\<lambda>c. c \<notin> set t) r = take k r" "dropWhile (\<lambda>c. c \<notin> set t) r = drop k r"
      unfolding k_def by (rule takeWhile_eq_take, rule dropWhile_eq_drop)
    have T: "tokens (set t) s = (c # take k r) # tokens (set t) (drop k r)"
      by (subst tokens.simps) (simp only: Cons list.case tk)
    have cs: "cstring m (p + of_nat n) (c # r)"
      using cstring_drop[OF Suc.prems(1) s] by (simp only: d)
    have "unat (p + of_nat n) = unat p + n"
      by (rule of_nat_plus_le[of _ "length s"]) (use Suc.prems(5) ls in simp_all)
    then have start: "p + of_nat n \<noteq> 0" using Suc.prems(4) by (metis add_is_0 unat_eq_zero)
    note stp = st[OF Cons, folded n_def k_def]
    show ?thesis
    proof (cases "k = length r")
      case True
      obtain f where f: "fuel = Suc f" using Suc.prems(7) ls by (cases fuel) auto
      have "strtok m 0 0 q = Some (0, m, 0)" by (simp add: strtok_def)
      then have "strtok_run (Suc fuel) m prev s1 q = Some ([p + of_nat n], m)"
        using stp start True by (simp add: f)
      moreover have "tokens (set t) s = [c # r]" using T True by (simp add: tokens.simps[of "set t" "[]"])
      ultimately show ?thesis using cs by auto
    next
      case False
      define e where "e = p + of_nat n + 1 + of_nat k"
      define m' where "m' = m(e := 0)"
      define u where "u = drop (Suc k) r"
      have kr: "k < length r" using False k by simp
      have e: "e = p + of_nat (n + 1 + k)" by (simp add: e_def)
      have e1: "e + 1 = p + of_nat (n + k + 2)" by (simp add: e_def)
      have lu: "length s = n + k + 2 + length u" using ls kr by (simp add: u_def)
      have small: "i < 4294967296" if "i \<le> length s" for i using that Suc.prems(5) by simp
      have AP: "p + of_nat i \<noteq> q + of_nat j" if "i \<le> length s" "j \<le> length t" for i j
        using Suc.prems(6) that unfolding apart_def by (metis less_Suc_eq_le)
      have ne: "e \<noteq> p + of_nat i" if "i \<le> length s" "i \<noteq> n + 1 + k" for i
        using that small[of i] small[of "n + 1 + k"] lu unfolding e by (simp only: add_left_cancel of_nat_eq_iff32)
      have rest: "drop k r = r ! k # u" using kr by (simp add: u_def Cons_nth_drop_Suc)
      have "r ! k \<in> set t" using kr nth_length_takeWhile[of "\<lambda>c. c \<notin> set t" r] by (simp add: k_def)
      then have T': "tokens (set t) s = (c # take k r) # tokens (set t) u" using T rest by (simp add: tokens_sep)
      have cu: "cstring m (e + 1) u"
        using cstring_drop[OF cs, of "k + 2"] kr by (simp add: u_def e_def add_ac)
      have ca: "cstring m (p + of_nat n) (c # r)" by (rule cs)
      have cu': "cstring m' (e + 1) u" unfolding m'_def
        by (rule cstring_frame[OF _ cu]) (use ne[of "n + k + 2 + _"] lu e1 in \<open>simp add: add.assoc\<close>)
      have ct': "cstring m' q t" unfolding m'_def
      proof (rule cstring_frame[OF _ Suc.prems(2)])
        fix j assume "j \<le> length t"
        then have "p + of_nat (n + 1 + k) \<noteq> q + of_nat j" by (rule AP[rotated]) (simp add: lu)
        then show "(m(e := 0)) (q + of_nat j) = m (q + of_nat j)" by (simp add: e)
      qed
      have ue: "unat (e + 1) = unat p + (n + k + 2)" unfolding e1
        by (rule of_nat_plus_le[of _ "Suc (length s)"]) (use Suc.prems(5) lu in simp_all)
      then have e10: "e + 1 \<noteq> 0" using Suc.prems(4) by (metis add_is_0 unat_eq_zero)
      have ap: "apart (e + 1) (Suc (length u)) q (Suc (length t))" unfolding apart_def
      proof (intro allI impI)
        fix i j assume "i < Suc (length u)" "j < Suc (length t)"
        then have "p + of_nat (n + k + 2 + i) \<noteq> q + of_nat j" by (intro AP) (simp_all add: lu)
        then show "e + 1 + of_nat i \<noteq> q + of_nat j" by (simp add: e1 add.assoc)
      qed
      obtain rs m'' where IH: "strtok_run fuel m' (e + 1) 0 q = Some (rs, m'')"
        "list_all2 (cstring m'') rs (tokens (set t) u)"
        "\<And>a. (\<And>i. i \<le> length u \<Longrightarrow> a \<noteq> e + 1 + of_nat i) \<Longrightarrow> m'' a = m' a"
        using Suc.IH[OF cu' ct' _ e10 _ ap, of 0 "e + 1"] ue Suc.prems(5,7) lu by auto
      have run: "strtok_run (Suc fuel) m prev s1 q = Some ((p + of_nat n) # rs, m'')"
        using stp start False IH(1) by (simp add: e_def m'_def)
      have same: "m'' (p + of_nat i) = m' (p + of_nat i)" if "i < n + k + 2" for i
      proof (rule IH(3))
        fix j assume "j \<le> length u"
        then show "p + of_nat i \<noteq> e + 1 + of_nat j"
          using small[of i] small[of "n + k + 2 + j"] that lu of_nat_eq_iff32[of i "n + k + 2 + j"]
          unfolding e1 by (simp add: add.assoc)
      qed
      have "cstring m'' (p + of_nat n) (c # take k r)"
      proof -
        have "m'' (p + of_nat n + of_nat i) = m (p + of_nat n + of_nat i)" if "i < Suc k" for i
          using same[of "n + i"] ne[of "n + i"] lu that by (simp add: m'_def add.assoc)
        moreover have "m'' (p + of_nat n + of_nat (Suc k)) = 0"
          using same[of "n + 1 + k"] e by (simp add: m'_def add_ac)
        ultimately show ?thesis using cstring_cut[OF cs, of "Suc k" m''] kr by simp
      qed
      moreover have "m'' a = m a" if "\<forall>i \<le> length s. a \<noteq> p + of_nat i" for a
      proof -
        have "m'' a = m' a"
        proof (rule IH(3))
          fix i assume "i \<le> length u"
          then have "a \<noteq> p + of_nat (n + k + 2 + i)" using that unfolding lu by (metis add_le_cancel_left)
          then show "a \<noteq> e + 1 + of_nat i" by (simp add: e1 add.assoc)
        qed
        moreover have "a \<noteq> e" using that[rule_format, of "n + 1 + k"] lu unfolding e by (simp del: of_nat_add)
        ultimately show ?thesis by (simp add: m'_def)
      qed
      ultimately show ?thesis using run IH(2) T' by auto
    qed
  qed
qed simp


section \<open>The library's contracts\<close>

text \<open>\<open>memmove\<close> leaves at the destination the bytes the source held before the call, whatever the
  overlap of the two regions and the order of their addresses, and no other byte changes, for up to
  \<open>2\<^sup>3\<^sup>1\<close> bytes in regions that do not pass the end of the address space.\<close>

lemma memmove_copies:
  assumes "unat s1 + unat n \<le> 4294967296" "unat s2 + unat n \<le> 4294967296" "unat n \<le> 2147483648"
  shows "case memmove m s1 s2 n of (m', r) \<Rightarrow>
      r = s1 \<and> rd m' s1 (unat n) = rd m s2 (unat n) \<and> (\<forall>a. unat n \<le> unat (a - s1) \<longrightarrow> m' a = m a)"
  using assms rd_wr[of "rd m s2 (unat n)" m s1] by (simp add: memmove_value[OF assms] wr_outside)

text \<open>\<open>strcpy\<close>, \<open>strcat\<close>, \<open>strncpy\<close> and \<open>strncat\<close> on strings in memory that do not overlap: each returns
  its first argument after writing, at it or at the NUL of the string there, the source string, cut at
  \<open>n\<close> for the bounded ones, and its NUL; \<open>strncpy\<close> writes exactly \<open>n\<close> bytes, padded with zeros, and no NUL
  when the source has \<open>n\<close> bytes or more.\<close>

lemma string_copies:
  assumes "cstring m p s" "cstring m d t" "length s < 2147483648" "unat n < 2147483648"
    and "apart d (length t + Suc (length s + unat n)) p (Suc (length s))"
  shows "(strcpy m d p = Some (wr m d (s @ [0]), d)) \<and>
    (strcat m d p = Some (wr m (d + of_nat (length t)) (s @ [0]), d)) \<and>
    (strncpy m d p n = (wr m d (take (unat n) (s @ replicate (unat n) 0)), d)) \<and>
    (strncat m d p n = Some (wr m (d + of_nat (length t)) (take (unat n) s @ [0]), d))"
proof (intro conjI)
  have a: "apart d (Suc (length s)) p (Suc (length s))" "apart d (unat n) p (Suc (length s))"
    by (rule apart_mono[OF assms(5)]; simp)+
  have b: "apart (d + of_nat (length t)) (Suc (length s + unat n)) p (Suc (length s))"
    by (rule apart_shift) (rule assms(5))
  then have c: "apart (d + of_nat (length t)) (Suc (length s)) p (Suc (length s))"
    "apart (d + of_nat (length t)) (Suc (min (unat n) (length s))) p (Suc (length s))"
    by (auto elim!: apart_mono)
  show "strcpy m d p = Some (wr m d (s @ [0]), d)"
    by (rule strcpy_value[OF assms(1) a(1)]) (use assms(3) in simp)
  show "strcat m d p = Some (wr m (d + of_nat (length t)) (s @ [0]), d)"
    by (rule strcat_value[OF assms(2,1) _ c(1)]) (use assms(3) in simp)
  show "strncpy m d p n = (wr m d (take (unat n) (s @ replicate (unat n) 0)), d)"
    by (rule strncpy_value[OF assms(1) a(2) assms(4)])
  show "strncat m d p n = Some (wr m (d + of_nat (length t)) (take (unat n) s @ [0]), d)"
    by (rule strncat_value[OF assms(2,1) _ c(2)]) (use assms(4) in simp)
qed

text \<open>The comparison functions order strings as sequences of unsigned bytes: zero exactly when
  they are equal, negative exactly when the first comes first; \<open>strncmp\<close> and \<open>memcmp\<close> compare the first
  \<open>n\<close> bytes.  On NUL-terminated strings they return.\<close>

lemma string_order:
  assumes "cstring m p s" "cstring m q t"
  shows "(\<exists>r. strcmp m p q = Some r \<and> (r = 0 \<longleftrightarrow> s = t) \<and> (sint r < 0 \<longleftrightarrow> (s, t) \<in> bytes_less)) \<and>
    (let r = strncmp m p q n; a = take (unat n) s; b = take (unat n) t
         in (r = 0 \<longleftrightarrow> a = b) \<and> (sint r < 0 \<longleftrightarrow> (a, b) \<in> bytes_less)) \<and>
    (let r = memcmp m' p q n; a = rd m' p (unat n); b = rd m' q (unat n)
         in (r = 0 \<longleftrightarrow> a = b) \<and> (sint r < 0 \<longleftrightarrow> (a, b) \<in> bytes_less))"
proof (intro conjI)
  have z: "0 \<notin> set s" "0 \<notin> set t" using assms by (simp_all add: cstring_def)
  then show "\<exists>r. strcmp m p q = Some r \<and> (r = 0 \<longleftrightarrow> s = t) \<and> (sint r < 0 \<longleftrightarrow> (s, t) \<in> bytes_less)"
    using strcmp_value[OF assms] first_diff_order by blast
  have "0 \<notin> set (take (unat n) s)" "0 \<notin> set (take (unat n) t)" using z by (auto dest: in_set_takeD)
  then show "let r = strncmp m p q n; a = take (unat n) s; b = take (unat n) t
         in (r = 0 \<longleftrightarrow> a = b) \<and> (sint r < 0 \<longleftrightarrow> (a, b) \<in> bytes_less)"
    using strncmp_value[OF assms] first_diff_order by (simp add: strncmp_def Let_def)
  show "let r = memcmp m' p q n; a = rd m' p (unat n); b = rd m' q (unat n)
         in (r = 0 \<longleftrightarrow> a = b) \<and> (sint r < 0 \<longleftrightarrow> (a, b) \<in> bytes_less)"
    using first_diff_eq_length[of "rd m' p (unat n)" "rd m' q (unat n)"]
    by (simp add: memcmp_def memcmp_value Let_def)
qed

text \<open>The search functions on strings in memory: \<open>strlen\<close> is the length, \<open>strchr\<close> finds the first
  and \<open>strrchr\<close> the last occurrence of a byte, the NUL included, \<open>strspn\<close> and \<open>strcspn\<close> measure the longest
  prefix inside and outside a set, and \<open>strstr\<close> finds the first occurrence of a string or, when there
  is none, returns the null pointer.\<close>

lemma string_search:
  assumes "cstring m p s" "cstring m q t"
  shows "(strlen m p = Some (of_nat (length s))) \<and>
    (strchr m p c = Some (let k = length (takeWhile (\<lambda>x. x \<noteq> ucast c) (s @ [0]))
                              in if k \<le> length s then p + of_nat k else 0)) \<and>
    (\<exists>r. strrchr m p c = Some r \<and>
           (if ucast c \<in> set (s @ [0])
            then \<exists>k \<le> length s. r = p + of_nat k \<and> (s @ [0]) ! k = ucast c \<and> ucast c \<notin> set (drop (Suc k) (s @ [0]))
            else r = 0)) \<and>
    (strspn m p q = Some (of_nat (length (takeWhile (\<lambda>x. x \<in> set t) s)))) \<and>
    (strcspn m p q = Some (of_nat (length (takeWhile (\<lambda>x. x \<notin> set t) s)))) \<and>
    (\<exists>r. strstr m p q = Some r \<and>
           ((\<exists>k \<le> length s. r = p + of_nat k \<and> take (length t) (drop k s) = t \<and>
               (\<forall>j < k. take (length t) (drop j s) \<noteq> t))
            \<or> r = 0 \<and> (\<forall>k \<le> length s. take (length t) (drop k s) \<noteq> t)))"
proof (intro conjI)
  show "strlen m p = Some (of_nat (length s))" by (rule strlen_value[OF assms(1)])
  show "strchr m p c = Some (let k = length (takeWhile (\<lambda>x. x \<noteq> ucast c) (s @ [0]))
                              in if k \<le> length s then p + of_nat k else 0)"
    unfolding strchr_def by (rule strchr_loop_value[OF assms(1)])
  show "strspn m p q = Some (of_nat (length (takeWhile (\<lambda>x. x \<in> set t) s)))"
    by (simp add: strspn_def strspn_loop_value[OF assms])
  show "strcspn m p q = Some (of_nat (length (takeWhile (\<lambda>x. x \<notin> set t) s)))"
    by (simp add: strcspn_def strcspn_loop_value[OF assms])
  show "\<exists>r. strstr m p q = Some r \<and>
           ((\<exists>k \<le> length s. r = p + of_nat k \<and> take (length t) (drop k s) = t \<and>
               (\<forall>j < k. take (length t) (drop j s) \<noteq> t))
            \<or> r = 0 \<and> (\<forall>k \<le> length s. take (length t) (drop k s) \<noteq> t))"
  proof (cases "find_sub t s")
    case None
    then show ?thesis using strstr_value[OF assms] find_sub_None[of t s] by simp
  next
    case (Some k)
    then show ?thesis using strstr_value[OF assms] find_sub_Some[of t s k] by auto
  qed
  let ?c = "ucast c :: u8"
  show "\<exists>r. strrchr m p c = Some r \<and>
           (if ?c \<in> set (s @ [0])
            then \<exists>k \<le> length s. r = p + of_nat k \<and> (s @ [0]) ! k = ?c \<and> ?c \<notin> set (drop (Suc k) (s @ [0]))
            else r = 0)"
  proof (cases "last_pos ?c (s @ [0])")
    case 0
    then have "?c \<notin> set (s @ [0])" by (simp only: last_pos_zero) simp
    then show ?thesis using strrchr_loop_value[OF assms(1), of ?c 0] 0 by (simp only: strrchr_def if_False) simp
  next
    case (Suc k)
    then have "k < length (s @ [0])" "(s @ [0]) ! k = ?c" "?c \<notin> set (drop (Suc k) (s @ [0]))"
      using last_pos_last[of ?c "s @ [0]" k] by simp_all
    moreover have "?c \<in> set (s @ [0])" using calculation(1,2) by (metis nth_mem)
    moreover have "strrchr m p c = Some (p + of_nat k)"
      using strrchr_loop_value[OF assms(1), of ?c 0] Suc by (simp add: strrchr_def)
    ultimately show ?thesis by (metis (no_types, lifting) length_append_singleton less_Suc_eq_le)
  qed
qed



text \<open>C38: The functions that read strings.  \<open>strcmp\<close>, \<open>strncmp\<close> and \<open>memcmp\<close> order them as sequences of unsigned
  bytes; \<open>strlen\<close> is the length, \<open>strchr\<close> and \<open>strrchr\<close> find the first and the last occurrence (the terminator
  included), \<open>strspn\<close> and \<open>strcspn\<close> the longest prefix inside and outside a set, and \<open>strstr\<close> the first occurrence of a
  string or null.\<close>

theorem string_queries:
  assumes "cstring m p s" "cstring m q t"
  shows "(\<exists>r. strcmp m p q = Some r \<and> (r = 0 \<longleftrightarrow> s = t) \<and> (sint r < 0 \<longleftrightarrow> (s, t) \<in> bytes_less)) \<and>
    (let r = strncmp m p q n; a = take (unat n) s; b = take (unat n) t
         in (r = 0 \<longleftrightarrow> a = b) \<and> (sint r < 0 \<longleftrightarrow> (a, b) \<in> bytes_less)) \<and>
    (let r = memcmp m' p q n; a = rd m' p (unat n); b = rd m' q (unat n)
         in (r = 0 \<longleftrightarrow> a = b) \<and> (sint r < 0 \<longleftrightarrow> (a, b) \<in> bytes_less)) \<and>
    strlen m p = Some (of_nat (length s)) \<and>
    strchr m p c = Some (let k = length (takeWhile (\<lambda>x. x \<noteq> ucast c) (s @ [0]))
                              in if k \<le> length s then p + of_nat k else 0) \<and>
    (\<exists>r. strrchr m p c = Some r \<and>
           (if ucast c \<in> set (s @ [0])
            then \<exists>k \<le> length s. r = p + of_nat k \<and> (s @ [0]) ! k = ucast c \<and> ucast c \<notin> set (drop (Suc k) (s @ [0]))
            else r = 0)) \<and>
    strspn m p q = Some (of_nat (length (takeWhile (\<lambda>x. x \<in> set t) s))) \<and>
    strcspn m p q = Some (of_nat (length (takeWhile (\<lambda>x. x \<notin> set t) s))) \<and>
    (\<exists>r. strstr m p q = Some r \<and>
           ((\<exists>k \<le> length s. r = p + of_nat k \<and> take (length t) (drop k s) = t \<and>
               (\<forall>j < k. take (length t) (drop j s) \<noteq> t))
            \<or> r = 0 \<and> (\<forall>k \<le> length s. take (length t) (drop k s) \<noteq> t)))"
  by (intro conjI string_order[OF assms, THEN conjunct1] string_order[OF assms, THEN conjunct2, THEN conjunct1]
      string_order[OF assms, THEN conjunct2, THEN conjunct2] string_search[OF assms, THEN conjunct1]
      string_search[OF assms, THEN conjunct2, THEN conjunct1]
      string_search[OF assms, THEN conjunct2, THEN conjunct2, THEN conjunct1]
      string_search[OF assms, THEN conjunct2, THEN conjunct2, THEN conjunct2, THEN conjunct1]
      string_search[OF assms, THEN conjunct2, THEN conjunct2, THEN conjunct2, THEN conjunct2, THEN conjunct1]
      string_search[OF assms, THEN conjunct2, THEN conjunct2, THEN conjunct2, THEN conjunct2, THEN conjunct2])

theorem string_queries_witness:
  "(\<exists>r. strcmp (wr (wr (\<lambda>_. 0) 64 [98, 0]) 16 [97, 98, 0]) 16 64 = Some r \<and> sint r < 0) \<and>
   strcspn (wr (wr (\<lambda>_. 0) 64 [98, 0]) 16 [97, 98, 0]) 16 64 = Some 1"
proof -
  let ?m = "wr (wr (\<lambda>_. 0) 64 [98, 0]) 16 [97, 98, 0] :: mem"
  have c: "cstring ?m 16 [97, 98]" "cstring ?m 64 [98]" by (simp_all add: cstring_Cons wr_def)
  have b: "([97, 98], [98]) \<in> bytes_less" by (simp add: bytes_less_def)
  note q = string_queries[OF c]
  obtain r where r: "strcmp ?m 16 64 = Some r" "sint r < 0" using q[THEN conjunct1] b by blast
  have "length (takeWhile (\<lambda>x. x \<notin> set [98]) [97, 98 :: u8]) = 1" by simp
  then have "strcspn ?m 16 64 = Some 1"
    using q[THEN conjunct2, THEN conjunct2, THEN conjunct2, THEN conjunct2, THEN conjunct2, THEN conjunct2, THEN conjunct2, THEN conjunct1]
    by (simp only: of_nat_1)
  then show ?thesis using r by blast
qed

text \<open>C30: Calling \<open>strtok\<close> on a string and then with a null pointer until it returns one yields, in order,
  pointers to all the tokens of the string: at the end each returned pointer holds its token,
  NUL-terminated, and no byte outside the string has changed.  One call more than the string has bytes
  is enough.\<close>

theorem strtok_tokens:
  assumes "cstring m p s" "cstring m q t" "p \<noteq> 0" "unat p + length s < 4294967296"
    and "apart p (Suc (length s)) q (Suc (length t))"
  shows "\<exists>rs m'. strtok_run (Suc (length s)) m prev p q = Some (rs, m') \<and>
    list_all2 (cstring m') rs (tokens (set t) s) \<and> (\<forall>a. (\<forall>i \<le> length s. a \<noteq> p + of_nat i) \<longrightarrow> m' a = m a)"
  by (rule strtok_run_tokens) (use assms in simp_all)


theorem strtok_tokens_witness:
  "\<exists>rs m'. strtok_run 6 (wr (wr (\<lambda>_. 0) 64 [44, 0]) 16 [44, 97, 44, 98, 99, 0]) 0 16 64 = Some (rs, m') \<and>
     list_all2 (cstring m') rs [[97], [98, 99]]"
proof -
  let ?m = "wr (wr (\<lambda>_. 0) 64 [44, 0]) 16 [44, 97, 44, 98, 99, 0] :: mem" and ?s = "[44, 97, 44, 98, 99] :: u8 list"
  have c: "cstring ?m 16 ?s" "cstring ?m 64 [44]" by (simp_all add: cstring_Cons wr_def)
  have a: "apart 16 (Suc (length ?s)) 64 (Suc (length [44 :: u8]))" by (rule apart_below) simp_all
  have "tokens (set [44]) ?s = [[97], [98, 99]]" by (simp add: tokens.simps)
  moreover have "Suc (length ?s) = 6" by simp
  moreover have "(16 :: u32) \<noteq> 0" "unat (16 :: u32) + length ?s < 4294967296" by simp_all
  ultimately show ?thesis using strtok_tokens[OF c _ _ a, of 0] by metis
qed

end
