(* ===== verification/CType.thy ===== *)
theory CType
  imports CPrelude
begin

text \<open>
  Character classification, \<^verbatim>\<open>lib/runtime/include/ctype.h\<close> and the table of
  \<^verbatim>\<open>lib/runtime/src/ctype.c\<close>.  The argument is an \<open>int\<close>, of which the table sees the low eight
  bits; a predicate returns the class bits it finds, so that zero is false.
\<close>

definition ct_L :: u8 where "ct_L = 0x01"
definition ct_U :: u8 where "ct_U = 0x02"
definition ct_D :: u8 where "ct_D = 0x04"
definition ct_X :: u8 where "ct_X = 0x08"
definition ct_P :: u8 where "ct_P = 0x10"
definition ct_C :: u8 where "ct_C = 0x20"
definition ct_S :: u8 where "ct_S = 0x40"
definition ct_B :: u8 where "ct_B = 0x80"

lemmas ct_defs = ct_L_def ct_U_def ct_D_def ct_X_def ct_P_def ct_C_def ct_S_def ct_B_def

text \<open>The initialiser lists 128 of the 256 elements; the others are zero.\<close>

definition ct_code_init :: "u8 list" where
  "ct_code_init = [
     ct_C, ct_C, ct_C, ct_C,
     ct_C, ct_C, ct_C, ct_C,
     ct_C, ct_C OR ct_S OR ct_B, ct_C OR ct_S, ct_C OR ct_S,
     ct_C OR ct_S, ct_C OR ct_S, ct_C, ct_C,
     ct_C, ct_C, ct_C, ct_C,
     ct_C, ct_C, ct_C, ct_C,
     ct_C, ct_C, ct_C, ct_C,
     ct_C, ct_C, ct_C, ct_C,
     ct_S OR ct_B, ct_P, ct_P, ct_P,
     ct_P, ct_P, ct_P, ct_P,
     ct_P, ct_P, ct_P, ct_P,
     ct_P, ct_P, ct_P, ct_P,
     ct_D OR ct_X, ct_D OR ct_X, ct_D OR ct_X, ct_D OR ct_X,
     ct_D OR ct_X, ct_D OR ct_X, ct_D OR ct_X, ct_D OR ct_X,
     ct_D OR ct_X, ct_D OR ct_X, ct_P, ct_P,
     ct_P, ct_P, ct_P, ct_P,
     ct_P, ct_U OR ct_X, ct_U OR ct_X, ct_U OR ct_X,
     ct_U OR ct_X, ct_U OR ct_X, ct_U OR ct_X, ct_U,
     ct_U, ct_U, ct_U, ct_U,
     ct_U, ct_U, ct_U, ct_U,
     ct_U, ct_U, ct_U, ct_U,
     ct_U, ct_U, ct_U, ct_U,
     ct_U, ct_U, ct_U, ct_P,
     ct_P, ct_P, ct_P, ct_P,
     ct_P, ct_L OR ct_X, ct_L OR ct_X, ct_L OR ct_X,
     ct_L OR ct_X, ct_L OR ct_X, ct_L OR ct_X, ct_L,
     ct_L, ct_L, ct_L, ct_L,
     ct_L, ct_L, ct_L, ct_L,
     ct_L, ct_L, ct_L, ct_L,
     ct_L, ct_L, ct_L, ct_L,
     ct_L, ct_L, ct_L, ct_P,
     ct_P, ct_P, ct_P, ct_C]"

definition ct_code :: "u8 \<Rightarrow> u8" where
  "ct_code c = (if unat c < length ct_code_init then ct_code_init ! unat c else 0)"

definition ct_test :: "u8 \<Rightarrow> u32 \<Rightarrow> u32" where
  "ct_test c code = ucast (ct_code c) AND code"

definition isalnum :: "u32 \<Rightarrow> u32" where
  "isalnum c = ct_test (ucast c) (ucast (ct_L OR ct_U OR ct_D))"

definition isalpha :: "u32 \<Rightarrow> u32" where
  "isalpha c = ct_test (ucast c) (ucast (ct_L OR ct_U))"

definition isblank :: "u32 \<Rightarrow> u32" where
  "isblank c = ct_test (ucast c) (ucast (ct_B))"

definition iscntrl :: "u32 \<Rightarrow> u32" where
  "iscntrl c = ct_test (ucast c) (ucast (ct_C))"

definition isdigit :: "u32 \<Rightarrow> u32" where
  "isdigit c = ct_test (ucast c) (ucast (ct_D))"

definition isgraph :: "u32 \<Rightarrow> u32" where
  "isgraph c = ct_test (ucast c) (ucast (ct_L OR ct_U OR ct_D OR ct_P))"

definition islower :: "u32 \<Rightarrow> u32" where
  "islower c = ct_test (ucast c) (ucast (ct_L))"

definition isprint :: "u32 \<Rightarrow> u32" where
  "isprint c = of_bool (ct_test (ucast c) (ucast (ct_L OR ct_U OR ct_D OR ct_P OR ct_B)) \<noteq> 0 \<and> c \<noteq> 9)"

definition ispunct :: "u32 \<Rightarrow> u32" where
  "ispunct c = ct_test (ucast c) (ucast (ct_P))"

definition isspace :: "u32 \<Rightarrow> u32" where
  "isspace c = ct_test (ucast c) (ucast (ct_S))"

definition isupper :: "u32 \<Rightarrow> u32" where
  "isupper c = ct_test (ucast c) (ucast (ct_U))"

definition isxdigit :: "u32 \<Rightarrow> u32" where
  "isxdigit c = ct_test (ucast c) (ucast (ct_X))"

definition tolower :: "u32 \<Rightarrow> u32" where
  "tolower c = (if isupper c \<noteq> 0 then c - 65 + 97 else c)"

definition toupper :: "u32 \<Rightarrow> u32" where
  "toupper c = (if islower c \<noteq> 0 then c - 97 + 65 else c)"

section \<open>The ASCII classes\<close>

definition upper_code :: "int \<Rightarrow> bool" where
  "upper_code i \<longleftrightarrow> 65 \<le> i \<and> i \<le> 90"

definition lower_code :: "int \<Rightarrow> bool" where
  "lower_code i \<longleftrightarrow> 97 \<le> i \<and> i \<le> 122"

definition digit_code :: "int \<Rightarrow> bool" where
  "digit_code i \<longleftrightarrow> 48 \<le> i \<and> i \<le> 57"

lemmas code_classes = upper_code_def lower_code_def digit_code_def

text \<open>A property of the bits of every initialised element, checked element by element.\<close>

fun table_ok :: "(int \<Rightarrow> bool) \<Rightarrow> u8 \<Rightarrow> int \<Rightarrow> u8 list \<Rightarrow> bool" where
  "table_ok P k i [] = True"
| "table_ok P k i (e # es) \<longleftrightarrow> (e AND k \<noteq> 0 \<longleftrightarrow> P i) \<and> table_ok P k (i + 1) es"

lemma table_ok_nth: "table_ok P k i es \<Longrightarrow> n < length es \<Longrightarrow> es ! n AND k \<noteq> 0 \<longleftrightarrow> P (i + int n)"
proof (induction es arbitrary: i n)
  case (Cons e es)
  show ?case
  proof (cases n)
    case 0
    then show ?thesis using Cons.prems by simp
  next
    case (Suc j)
    then show ?thesis using Cons.prems Cons.IH[of "i + 1" j] by (simp add: add.assoc)
  qed
qed simp

lemma length_ct_code_init: "length ct_code_init = 128"
  by (simp add: ct_code_init_def)

lemma ct_code_class:
  assumes "table_ok P k 0 ct_code_init" "\<And>i. 128 \<le> i \<Longrightarrow> \<not> P i"
  shows "ct_code c AND k \<noteq> 0 \<longleftrightarrow> P (uint c)"
proof (cases "unat c < 128")
  case True
  then show ?thesis using table_ok_nth[OF assms(1), of "unat c"] by (simp add: ct_code_def length_ct_code_init)
next
  case False
  then have "128 \<le> uint c" by (simp add: not_less word_le_nat_alt flip: uint_nat) (metis not_less of_nat_le_iff of_nat_numeral of_nat_unat)
  then show ?thesis using False assms(2) by (simp add: ct_code_def length_ct_code_init)
qed

lemma ct_test_zero: "ct_test c (ucast k) = 0 \<longleftrightarrow> ct_code c AND k = 0"
proof -
  have "ct_test c (ucast k) = ucast (ct_code c AND k)" by (simp add: ct_test_def unsigned_and_eq)
  moreover have "(ucast x :: u32) = 0 \<longleftrightarrow> x = 0" for x :: u8
    by transfer (simp add: take_bit_eq_mod)
  ultimately show ?thesis by simp
qed

lemma table_class:
  "table_ok P k 0 ct_code_init \<Longrightarrow> (\<And>i. 128 \<le> i \<Longrightarrow> \<not> P i) \<Longrightarrow> ct_test c (ucast k) \<noteq> 0 \<longleftrightarrow> P (uint c)"
  unfolding ct_test_zero by (rule ct_code_class)

lemma isalnum_class: "isalnum c \<noteq> 0 \<longleftrightarrow> (let i = uint (ucast c :: u8) in upper_code i \<or> lower_code i \<or> digit_code i)"
  unfolding isalnum_def Let_def
  by (rule table_class[of "\<lambda>i. upper_code i \<or> lower_code i \<or> digit_code i"])
    (simp_all add: ct_code_init_def ct_defs code_classes)

lemma isalpha_class: "isalpha c \<noteq> 0 \<longleftrightarrow> (let i = uint (ucast c :: u8) in upper_code i \<or> lower_code i)"
  unfolding isalpha_def Let_def
  by (rule table_class[of "\<lambda>i. upper_code i \<or> lower_code i"])
    (simp_all add: ct_code_init_def ct_defs code_classes)

lemma isblank_class: "isblank c \<noteq> 0 \<longleftrightarrow> (let i = uint (ucast c :: u8) in i = 9 \<or> i = 32)"
  unfolding isblank_def Let_def
  by (rule table_class[of "\<lambda>i. i = 9 \<or> i = 32"])
    (simp_all add: ct_code_init_def ct_defs code_classes)

lemma iscntrl_class: "iscntrl c \<noteq> 0 \<longleftrightarrow> (let i = uint (ucast c :: u8) in 0 \<le> i \<and> i < 32 \<or> i = 127)"
  unfolding iscntrl_def Let_def
  by (rule table_class[of "\<lambda>i. 0 \<le> i \<and> i < 32 \<or> i = 127"])
    (simp_all add: ct_code_init_def ct_defs code_classes)

lemma isdigit_class: "isdigit c \<noteq> 0 \<longleftrightarrow> (let i = uint (ucast c :: u8) in digit_code i)"
  unfolding isdigit_def Let_def
  by (rule table_class[of "\<lambda>i. digit_code i"])
    (simp_all add: ct_code_init_def ct_defs code_classes)

lemma isgraph_class: "isgraph c \<noteq> 0 \<longleftrightarrow> (let i = uint (ucast c :: u8) in 32 < i \<and> i < 127)"
  unfolding isgraph_def Let_def
  by (rule table_class[of "\<lambda>i. 32 < i \<and> i < 127"])
    (simp_all add: ct_code_init_def ct_defs code_classes)

lemma islower_class: "islower c \<noteq> 0 \<longleftrightarrow> (let i = uint (ucast c :: u8) in lower_code i)"
  unfolding islower_def Let_def
  by (rule table_class[of "\<lambda>i. lower_code i"])
    (simp_all add: ct_code_init_def ct_defs code_classes)

lemma ispunct_class: "ispunct c \<noteq> 0 \<longleftrightarrow> (let i = uint (ucast c :: u8) in 32 < i \<and> i < 127 \<and> \<not> (upper_code i \<or> lower_code i \<or> digit_code i))"
  unfolding ispunct_def Let_def
  by (rule table_class[of "\<lambda>i. 32 < i \<and> i < 127 \<and> \<not> (upper_code i \<or> lower_code i \<or> digit_code i)"])
    (simp_all add: ct_code_init_def ct_defs code_classes)

lemma isspace_class: "isspace c \<noteq> 0 \<longleftrightarrow> (let i = uint (ucast c :: u8) in 9 \<le> i \<and> i \<le> 13 \<or> i = 32)"
  unfolding isspace_def Let_def
  by (rule table_class[of "\<lambda>i. 9 \<le> i \<and> i \<le> 13 \<or> i = 32"])
    (simp_all add: ct_code_init_def ct_defs code_classes)

lemma isupper_class: "isupper c \<noteq> 0 \<longleftrightarrow> (let i = uint (ucast c :: u8) in upper_code i)"
  unfolding isupper_def Let_def
  by (rule table_class[of "\<lambda>i. upper_code i"])
    (simp_all add: ct_code_init_def ct_defs code_classes)

lemma isxdigit_class: "isxdigit c \<noteq> 0 \<longleftrightarrow> (let i = uint (ucast c :: u8) in digit_code i \<or> 65 \<le> i \<and> i \<le> 70 \<or> 97 \<le> i \<and> i \<le> 102)"
  unfolding isxdigit_def Let_def
  by (rule table_class[of "\<lambda>i. digit_code i \<or> 65 \<le> i \<and> i \<le> 70 \<or> 97 \<le> i \<and> i \<le> 102"])
    (simp_all add: ct_code_init_def ct_defs code_classes)


lemma isprint_class: "isprint c \<noteq> 0 \<longleftrightarrow>
    (let i = uint (ucast c :: u8) in if i = 9 then c \<noteq> 9 else 32 \<le> i \<and> i < 127)"
proof -
  have t: "ct_test (ucast c) (ucast (ct_L OR ct_U OR ct_D OR ct_P OR ct_B)) \<noteq> 0 \<longleftrightarrow>
      (let i = uint (ucast c :: u8) in 32 \<le> i \<and> i < 127 \<or> i = 9)"
    unfolding Let_def
    by (rule table_class[of "\<lambda>i. 32 \<le> i \<and> i < 127 \<or> i = 9"]) (simp_all add: ct_code_init_def ct_defs)
  have "uint (ucast c :: u8) = 9" if "c = 9" using that by simp
  then show ?thesis unfolding isprint_def using t by (auto simp: Let_def)
qed

lemmas ctype_class = isalnum_class isalpha_class isblank_class iscntrl_class isdigit_class isgraph_class
  islower_class isprint_class ispunct_class isspace_class isupper_class isxdigit_class

section \<open>The classification is ASCII\<close>

text \<open>C39: Every predicate of \<open>ctype.h\<close> is non-zero exactly on the ASCII characters of its class, and zero
  on the codes from 128 to 255 and on \<open>EOF\<close>, whose low byte is 255; \<open>i\<close> is the low byte of the argument.\<close>

theorem ctype_predicates_ascii:
  "let i = uint (ucast c :: u8) in
     (isupper c \<noteq> 0 \<longleftrightarrow> upper_code i) \<and> (islower c \<noteq> 0 \<longleftrightarrow> lower_code i) \<and> (isdigit c \<noteq> 0 \<longleftrightarrow> digit_code i) \<and>
     (isalpha c \<noteq> 0 \<longleftrightarrow> upper_code i \<or> lower_code i) \<and>
     (isalnum c \<noteq> 0 \<longleftrightarrow> upper_code i \<or> lower_code i \<or> digit_code i) \<and>
     (isxdigit c \<noteq> 0 \<longleftrightarrow> digit_code i \<or> 65 \<le> i \<and> i \<le> 70 \<or> 97 \<le> i \<and> i \<le> 102) \<and>
     (isspace c \<noteq> 0 \<longleftrightarrow> 9 \<le> i \<and> i \<le> 13 \<or> i = 32) \<and> (isblank c \<noteq> 0 \<longleftrightarrow> i = 9 \<or> i = 32) \<and>
     (iscntrl c \<noteq> 0 \<longleftrightarrow> 0 \<le> i \<and> i < 32 \<or> i = 127) \<and> (isgraph c \<noteq> 0 \<longleftrightarrow> 32 < i \<and> i < 127) \<and>
     (ispunct c \<noteq> 0 \<longleftrightarrow> 32 < i \<and> i < 127 \<and> \<not> (upper_code i \<or> lower_code i \<or> digit_code i)) \<and>
     (isprint c \<noteq> 0 \<longleftrightarrow> (if i = 9 then c \<noteq> 9 else 32 \<le> i \<and> i < 127))"
  unfolding Let_def ctype_class by (intro conjI) (rule refl)+

lemma case_mapping: "tolower c = (if isupper c \<noteq> 0 then c + 32 else c)"
  "toupper c = (if islower c \<noteq> 0 then c - 32 else c)"
  by (simp_all add: tolower_def toupper_def)

end
