(* ===== verification/StrToL.thy ===== *)
theory StrToL
  imports CType CString "HOL-Library.Signed_Division"
begin

text \<open>
  Conversion of strings to integers: \<^verbatim>\<open>lib/runtime/src/strtol.c\<close>, \<^verbatim>\<open>strtoul.c\<close> and
  \<open>atoi\<close>, \<open>atol\<close> of \<^verbatim>\<open>include/stdlib.h\<close>.  The variable \<open>errno\<close> is passed and returned; a null
  \<open>endptr\<close> stores nothing.  The scans read memory until a byte stops them and are partial functions.
\<close>

section \<open>The scanner\<close>

text \<open>\<open>do { c = (unsigned char) *s++; } while (isspace(c))\<close>: \<open>s\<close> and \<open>c\<close> after the loop.\<close>

partial_function (option) skip_space :: "mem \<Rightarrow> u32 \<Rightarrow> (u32 \<times> u32) option" where
  "skip_space m s =
     (let c = ucast (m s) :: u32 in if isspace c \<noteq> 0 then skip_space m (s + 1) else Some (s + 1, c))"

definition take_sign :: "mem \<Rightarrow> u32 \<Rightarrow> u32 \<Rightarrow> bool \<times> u32 \<times> u32" where
  "take_sign m s c =
     (if c = 45 then (True, s + 1, scast (m s))
      else if c = 43 then (False, s + 1, scast (m s))
      else (False, s, c))"

definition take_base :: "mem \<Rightarrow> u32 \<Rightarrow> u32 \<Rightarrow> u32 \<Rightarrow> u32 \<times> u32 \<times> u32" where
  "take_base m base s c =
     (let (base, s, c) = (if (base = 0 \<or> base = 16) \<and> c = 48 \<and> (m s = 120 \<or> m s = 88)
                          then (16, s + 2, scast (m (s + 1))) else (base, s, c))
      in (if base = 0 then if c = 48 then 8 else 10 else base, s, c))"

text \<open>The value the loop gives a digit or letter, or nothing when it leaves.\<close>

definition digit_value :: "u32 \<Rightarrow> u32 option" where
  "digit_value c =
     (if isdigit c \<noteq> 0 then Some (c - 48)
      else if isalpha c \<noteq> 0 then Some (c - (if isupper c \<noteq> 0 then 65 - 10 else 97 - 10))
      else None)"

text \<open>The loop over the digits, with the step on the accumulated state as an argument: the state and
  \<open>s\<close> when it leaves.\<close>

partial_function (option) digit_loop ::
    "(u32 \<Rightarrow> 'st \<Rightarrow> 'st) \<Rightarrow> mem \<Rightarrow> u32 \<Rightarrow> u32 \<Rightarrow> u32 \<Rightarrow> 'st \<Rightarrow> ('st \<times> u32) option" where
  "digit_loop step m base s c st =
     (case digit_value c of
        None \<Rightarrow> Some (st, s)
      | Some d \<Rightarrow>
          if sint base \<le> sint d then Some (st, s)
          else digit_loop step m base (s + 1) (ucast (m s)) (step d st))"

lemmas [code] = skip_space.simps digit_loop.simps

record conv_state =
  acc :: u32
  any :: int
  err :: u32

definition ERANGE :: u32 where "ERANGE = 34"
definition LONG_MIN :: u32 where "LONG_MIN = 0x80000000"
definition LONG_MAX :: u32 where "LONG_MAX = 0x7FFFFFFF"
definition ULONG_MAX :: u32 where "ULONG_MAX = 0xFFFFFFFF"

definition strtol_limits :: "bool \<Rightarrow> u32 \<Rightarrow> u32 \<times> u32" where
  "strtol_limits neg base =
     (let cutoff = (if neg then LONG_MIN else LONG_MAX);
          cutlim = word_of_int (sint cutoff smod sint base);
          cutoff = word_of_int (sint cutoff sdiv sint base)
      in if neg then
           let (cutlim, cutoff) = (if 0 < sint cutlim then (cutlim - base, cutoff + 1) else (cutlim, cutoff))
           in (cutoff, - cutlim)
         else (cutoff, cutlim))"

definition strtol_step :: "bool \<Rightarrow> u32 \<Rightarrow> u32 \<Rightarrow> u32 \<Rightarrow> u32 \<Rightarrow> conv_state \<Rightarrow> conv_state" where
  "strtol_step neg base cutoff cutlim c st =
     (if any st < 0 then st
      else if neg then
        if sint (acc st) < sint cutoff \<or> acc st = cutoff \<and> sint cutlim < sint c
        then \<lparr>acc = LONG_MIN, any = - 1, err = ERANGE\<rparr>
        else st\<lparr>any := 1, acc := acc st * base - c\<rparr>
      else
        if sint cutoff < sint (acc st) \<or> acc st = cutoff \<and> sint cutlim < sint c
        then \<lparr>acc = LONG_MAX, any = - 1, err = ERANGE\<rparr>
        else st\<lparr>any := 1, acc := acc st * base + c\<rparr>)"

definition set_endptr :: "mem \<Rightarrow> u32 \<Rightarrow> u32 \<Rightarrow> mem" where
  "set_endptr m endptr v = (if endptr \<noteq> 0 then store32 m endptr v else m)"

text \<open>Result, memory and \<open>errno\<close>.\<close>

definition strtol :: "mem \<Rightarrow> u32 \<Rightarrow> u32 \<Rightarrow> u32 \<Rightarrow> u32 \<Rightarrow> (u32 \<times> mem \<times> u32) option" where
  "strtol m errno nptr endptr base =
     Option.bind (skip_space m nptr) (\<lambda>(s, c).
       let (neg, s, c) = take_sign m s c;
           (base, s, c) = take_base m base s c;
           (cutoff, cutlim) = strtol_limits neg base
       in map_option
            (\<lambda>(st, s). (acc st, set_endptr m endptr (if any st \<noteq> 0 then s - 1 else nptr), err st))
            (digit_loop (strtol_step neg base cutoff cutlim) m base s c \<lparr>acc = 0, any = 0, err = errno\<rparr>))"

definition strtoul_step :: "u32 \<Rightarrow> u32 \<Rightarrow> u32 \<Rightarrow> u32 \<Rightarrow> conv_state \<Rightarrow> conv_state" where
  "strtoul_step base cutoff cutlim c st =
     (if any st < 0 then st
      else if cutoff < acc st \<or> acc st = cutoff \<and> sint cutlim < sint c
      then \<lparr>acc = ULONG_MAX, any = - 1, err = ERANGE\<rparr>
      else st\<lparr>any := 1, acc := acc st * base + c\<rparr>)"

definition strtoul :: "mem \<Rightarrow> u32 \<Rightarrow> u32 \<Rightarrow> u32 \<Rightarrow> u32 \<Rightarrow> (u32 \<times> mem \<times> u32) option" where
  "strtoul m errno nptr endptr base =
     Option.bind (skip_space m nptr) (\<lambda>(s, c).
       let (neg, s, c) = take_sign m s c;
           (base, s, c) = take_base m base s c
       in map_option
            (\<lambda>(st, s). (if neg \<and> 0 < any st then - acc st else acc st,
                        set_endptr m endptr (if any st \<noteq> 0 then s - 1 else nptr), err st))
            (digit_loop (strtoul_step base (ULONG_MAX div base) (ULONG_MAX mod base)) m base s c
               \<lparr>acc = 0, any = 0, err = errno\<rparr>))"

definition atoi :: "mem \<Rightarrow> u32 \<Rightarrow> u32 \<Rightarrow> (u32 \<times> mem \<times> u32) option" where
  "atoi m errno nptr = strtol m errno nptr 0 10"

definition atol :: "mem \<Rightarrow> u32 \<Rightarrow> u32 \<Rightarrow> (u32 \<times> mem \<times> u32) option" where
  "atol m errno nptr = strtol m errno nptr 0 10"

section \<open>What the scanner reads\<close>

text \<open>The byte at \<open>s - 1\<close>, read into \<open>c\<close> as signed or unsigned, is the first of the bytes \<open>r\<close> that are left.\<close>

definition cursor :: "mem \<Rightarrow> u32 \<Rightarrow> u32 \<Rightarrow> u8 list \<Rightarrow> bool" where
  "cursor m s c r \<longleftrightarrow> cstring m (s - 1) r \<and> (c = ucast (m (s - 1)) \<or> c = scast (m (s - 1)))"

definition digit_of :: "u8 \<Rightarrow> int option" where
  "digit_of x = (let i = uint x in
     if digit_code i then Some (i - 48)
     else if upper_code i then Some (i - 55) else if lower_code i then Some (i - 87) else None)"

definition white :: "u8 \<Rightarrow> bool" where
  "white x \<longleftrightarrow> 9 \<le> uint x \<and> uint x \<le> 13 \<or> uint x = 32"

lemma byte_values: "(ucast (x :: u8) :: u32) = 0 \<longleftrightarrow> x = 0"
  by transfer (simp add: take_bit_eq_mod)

lemma uint_scast_small:
  assumes "uint (x :: u8) < 128"
  shows "(scast x :: u32) = ucast x"
proof -
  have "sint x = uint x" using assms sint_eq_cases[of x] by (simp add: uint_nat del: of_nat_unat)
  then show ?thesis unfolding scast_eq ucast_eq by (simp only:)
qed

lemma digit_value_byte:
  assumes "c = ucast (x :: u8) \<or> c = scast x"
  shows "digit_value c = map_option word_of_int (digit_of x)"
proof -
  have low: "(ucast c :: u8) = x" using assms low_byte[of x] by auto
  note cl = isdigit_class[of c] isalpha_class[of c] isupper_class[of c]
  have e: "c = word_of_int (uint x)" if "uint x < 128"
    using assms uint_scast_small[OF that] unfolding ucast_eq by (elim disjE) (simp_all only:)
  have v: "c - of_nat k = word_of_int (uint x - int k)" if "uint x < 128" for k
    unfolding e[OF that] by simp
  consider "digit_code (uint x)" | "upper_code (uint x)" | "lower_code (uint x)"
    | "\<not> digit_code (uint x)" "\<not> upper_code (uint x)" "\<not> lower_code (uint x)" by blast
  then show ?thesis
  proof cases
    case 1
    then show ?thesis using v[of 48] cl unfolding digit_value_def digit_of_def Let_def low by (simp add: code_classes)
  next
    case 2
    then show ?thesis using v[of 55] cl unfolding digit_value_def digit_of_def Let_def low by (simp add: code_classes)
  next
    case 3
    then show ?thesis using v[of 87] cl unfolding digit_value_def digit_of_def Let_def low by (simp add: code_classes)
  next
    case 4
    then show ?thesis using cl unfolding digit_value_def digit_of_def Let_def low by simp
  qed
qed

lemma digit_of_range: "digit_of x = Some d \<Longrightarrow> 0 \<le> d \<and> d < 36"
  by (auto simp: digit_of_def code_classes Let_def split: if_splits)

text \<open>The digits at the front of \<open>r\<close>, in base \<open>b\<close>.\<close>

fun digits :: "int \<Rightarrow> u8 list \<Rightarrow> int list" where
  "digits b [] = []"
| "digits b (x # r) = (case digit_of x of None \<Rightarrow> [] | Some d \<Rightarrow> if d < b then d # digits b r else [])"

lemma cursor_Cons: "cursor m s c (x # r) \<Longrightarrow> c = ucast x \<or> c = scast x"
  by (auto simp: cursor_def cstring_Cons)

lemma cursor_Nil: "cursor m s c [] \<Longrightarrow> c = 0"
  by (auto simp: cursor_def)

lemma cursor_step:
  "cursor m s c (x # r) \<Longrightarrow> c' = ucast (m s) \<or> c' = scast (m s) \<Longrightarrow> cursor m (s + 1) c' r"
  by (simp add: cursor_def cstring_Cons)

lemma digit_of_0: "digit_of 0 = None"
  by (simp add: digit_of_def code_classes)

lemma digit_loop_value:
  assumes "cursor m s c r" "0 < sint base"
  shows "digit_loop step m base s c st =
    Some (fold step (map word_of_int (digits (sint base) r)) st, s + of_nat (length (digits (sint base) r)))"
  using assms(1)
proof (induction r arbitrary: s c st)
  case Nil
  have "digit_value c = None" using digit_value_byte[of c 0] cursor_Nil[OF Nil] digit_of_0 by simp
  then show ?case by (subst digit_loop.simps) simp
next
  case (Cons x r)
  note dv = digit_value_byte[OF cursor_Cons[OF Cons.prems]]
  show ?case
  proof (cases "digit_of x")
    case None
    then show ?thesis by (subst digit_loop.simps) (simp add: dv)
  next
    case (Some d)
    then have "0 \<le> d" "d < 36" using digit_of_range by auto
    then have "sint (word_of_int d :: u32) = d" by (intro sint_word_of_int_eq) simp_all
    then show ?thesis
      using Cons.IH[OF cursor_step[OF Cons.prems, of "ucast (m s)"]] Some
      by (subst digit_loop.simps) (simp add: dv)
  qed
qed

section \<open>The value of a numeral\<close>

definition numeral_value :: "int \<Rightarrow> int list \<Rightarrow> int" where
  "numeral_value b ds = foldl (\<lambda>a d. a * b + d) 0 ds"

lemma numeral_value_snoc [simp]: "numeral_value b (ds @ [d]) = numeral_value b ds * b + d"
  by (simp add: numeral_value_def)

lemma numeral_value_Nil [simp]: "numeral_value b [] = 0"
  by (simp add: numeral_value_def)

lemma digits_range: "d \<in> set (digits b r) \<Longrightarrow> 0 \<le> d \<and> d < b \<and> d < 36"
  by (induction r) (auto dest: digit_of_range[OF sym] split: option.splits if_splits)

lemma numeral_value_nonneg: "\<forall>d \<in> set ds. 0 \<le> d \<Longrightarrow> 0 \<le> b \<Longrightarrow> 0 \<le> numeral_value b ds"
  by (induction ds rule: rev_induct) auto

text \<open>The overflow test: \<open>v * b + d\<close> is above the limit \<open>M\<close>.\<close>

lemma limit_test:
  fixes M b d v :: int
  assumes "0 < b" "0 \<le> d" "d < b" "0 \<le> v"
  shows "v > M div b \<or> v = M div b \<and> d > M mod b \<longleftrightarrow> v * b + d > M"
proof -
  have M: "M = M div b * b + M mod b" by simp
  have "M mod b < b" "0 \<le> M mod b" using assms(1) by simp_all
  consider "v > M div b" | "v = M div b" | "v < M div b" by linarith
  then show ?thesis
  proof cases
    case 1
    then have "(M div b + 1) * b \<le> v * b" using assms(1) by (intro mult_right_mono) simp_all
    then show ?thesis using 1 M \<open>M mod b < b\<close> assms(2) unfolding distrib_right by linarith
  next
    case 2
    then have "v * b + M mod b = M" using M by simp
    then have "M mod b < d \<longleftrightarrow> M < v * b + d" by linarith
    then show ?thesis using 2 by simp
  next
    case 3
    then have "(v + 1) * b \<le> M div b * b" using assms(1) by (intro mult_right_mono) simp_all
    then show ?thesis using 3 M \<open>0 \<le> M mod b\<close> assms(3) unfolding distrib_right by linarith
  qed
qed


lemma sdiv_pos: "0 \<le> (a :: int) \<Longrightarrow> 0 < b \<Longrightarrow> a sdiv b = a div b \<and> a smod b = a mod b
    \<and> (- a) sdiv b = - (a div b) \<and> (- a) smod b = - (a mod b)"
  by (auto simp: signed_divide_int_def signed_modulo_int_def minus_mult_div_eq_mod algebra_simps sgn_if)

lemma strtol_limits_value:
  assumes b: "sint base = b" "2 \<le> b" "b \<le> 36"
  defines "M \<equiv> \<lambda>neg. if neg then 2147483648 else 2147483647 :: int"
  shows "strtol_limits neg base =
    (word_of_int (if neg then - (M neg div b) else M neg div b), word_of_int (M neg mod b))"
proof (cases neg)
  case True
  have "sint LONG_MIN = - 2147483648" by (simp add: LONG_MIN_def)
  moreover have "(- 2147483648) sdiv b = - (2147483648 div b)" "(- 2147483648) smod b = - (2147483648 mod b)"
    using sdiv_pos[of 2147483648 b] b by simp_all
  moreover have "sint (word_of_int (- (2147483648 mod b)) :: u32) = - (2147483648 mod b)"
  proof -
    have "0 \<le> 2147483648 mod b" "2147483648 mod b < b" using b by simp_all
    then show ?thesis using b by (intro sint32_of_int; linarith)
  qed
  moreover have "0 \<le> 2147483648 mod b" using b by simp
  ultimately show ?thesis using True by (simp add: strtol_limits_def M_def b(1) Let_def)
next
  case False
  have "sint LONG_MAX = 2147483647" by (simp add: LONG_MAX_def)
  then show ?thesis using False sdiv_pos[of 2147483647 b] b by (simp add: strtol_limits_def M_def Let_def)
qed

lemma div_le_dividend_int: "0 \<le> (a :: int) \<Longrightarrow> 0 < b \<Longrightarrow> a div b \<le> a"
  using div_by_1[of a] zdiv_mono2[of a 1 b] by simp

lemma numeral_le_step:
  fixes v b d :: int
  shows "0 \<le> v \<Longrightarrow> 0 \<le> d \<Longrightarrow> 1 \<le> b \<Longrightarrow> v \<le> v * b + d"
  using mult_left_mono[of 1 b v] by simp

lemma strtol_step_value:
  assumes b: "sint base = b" "2 \<le> b" "b \<le> 36" and d: "0 \<le> d" "d < b" and v: "0 \<le> v" "v \<le> M"
    and M: "M = (if neg then 2147483648 else 2147483647)"
    and lim: "strtol_limits neg base = (cutoff, cutlim)"
    and st: "st = \<lparr>acc = word_of_int (if neg then - v else v), any = a, err = e\<rparr>" "0 \<le> a"
  shows "strtol_step neg base cutoff cutlim (word_of_int d) st =
    (if v * b + d \<le> M then \<lparr>acc = word_of_int (if neg then - (v * b + d) else v * b + d), any = 1, err = e\<rparr>
     else \<lparr>acc = if neg then LONG_MIN else LONG_MAX, any = - 1, err = ERANGE\<rparr>)"
proof -
  have q: "0 \<le> M div b" "M div b \<le> M" "0 \<le> M mod b" "M mod b < b"
    using b(2) v by (simp_all add: pos_imp_zdiv_nonneg_iff div_le_dividend_int)
  have cl: "cutoff = word_of_int (if neg then - (M div b) else M div b)" "cutlim = word_of_int (M mod b)"
    using lim strtol_limits_value[OF b, of neg] unfolding M by simp_all
  have sd: "sint (word_of_int d :: u32) = d" using d b by (intro sint_word_of_int_eq) simp_all
  have sl: "sint cutlim = M mod b" unfolding cl using q b by (intro sint32_of_int; linarith)
  have sc: "sint cutoff = (if neg then - (M div b) else M div b)"
    unfolding cl using q M by (intro sint_word_of_int_eq) (simp_all split: if_splits)
  have sa: "sint (acc st) = (if neg then - v else v)"
    unfolding st using v M by (simp only: conv_state.simps) (intro sint_word_of_int_eq; simp split: if_splits)
  have eq: "acc st = cutoff \<longleftrightarrow> v = M div b" using sa sc by (metis (full_types) minus_equation_iff signed_word_eqI)
  have over: "(if neg then sint (acc st) < sint cutoff else sint cutoff < sint (acc st)) \<or>
      acc st = cutoff \<and> sint cutlim < sint (word_of_int d :: u32) \<longleftrightarrow> \<not> v * b + d \<le> M"
    unfolding eq sa sc sl sd using limit_test[of b d v M] b d v by auto
  have wb: "base = word_of_int b" unfolding b(1)[symmetric] by simp
  show ?thesis using over st(2) unfolding strtol_step_def
    by (cases neg) (auto simp: st(1) wb)
qed


lemma strtol_fold:
  assumes b: "sint base = b" "2 \<le> b" "b \<le> 36" and ds: "\<forall>d \<in> set ds. 0 \<le> d \<and> d < b"
    and M: "M = (if neg then 2147483648 else 2147483647)"
    and lim: "strtol_limits neg base = (cutoff, cutlim)"
  shows "fold (strtol_step neg base cutoff cutlim) (map word_of_int ds) \<lparr>acc = 0, any = 0, err = e\<rparr> =
    (let v = numeral_value b ds in
     if v \<le> M then \<lparr>acc = word_of_int (if neg then - v else v), any = (if ds = [] then 0 else 1), err = e\<rparr>
     else \<lparr>acc = if neg then LONG_MIN else LONG_MAX, any = - 1, err = ERANGE\<rparr>)"
  using ds
proof (induction ds rule: rev_induct)
  case Nil
  then show ?case using M by simp
next
  case (snoc d ds)
  let ?v = "numeral_value b ds"
  have d: "0 \<le> d" "d < b" and v: "0 \<le> ?v"
    using snoc.prems b(2) numeral_value_nonneg[of ds b] by auto
  show ?case
  proof (cases "?v \<le> M")
    case True
    then show ?thesis using snoc strtol_step_value[OF b d v True M lim refl, of "if ds = [] then 0 else 1" e]
      by (simp add: Let_def del: of_int_minus)
  next
    case False
    then have "\<not> ?v * b + d \<le> M" using numeral_le_step[of ?v d b] v d b by linarith
    then show ?thesis using False snoc by (simp add: Let_def strtol_step_def)
  qed
qed

lemma strtoul_step_value:
  assumes b: "sint base = b" "2 \<le> b" "b \<le> 36" and d: "0 \<le> d" "d < b" and v: "0 \<le> v" "v \<le> 4294967295"
    and st: "st = \<lparr>acc = word_of_int v, any = a, err = e\<rparr>" "0 \<le> a"
  shows "strtoul_step base (ULONG_MAX div base) (ULONG_MAX mod base) (word_of_int d) st =
    (if v * b + d \<le> 4294967295 then \<lparr>acc = word_of_int (v * b + d), any = 1, err = e\<rparr>
     else \<lparr>acc = ULONG_MAX, any = - 1, err = ERANGE\<rparr>)"
proof -
  let ?M = "4294967295 :: int"
  have q: "0 \<le> ?M mod b" "?M mod b < b" using b(2) by simp_all
  have wb: "base = word_of_int b" unfolding b(1)[symmetric] by simp
  moreover have "uint (word_of_int b :: u32) = b" using b(2,3) by (simp add: unsigned_of_int take_bit_int_eq_self)
  ultimately have ub: "uint base = b" by simp
  have sd: "sint (word_of_int d :: u32) = d" using d b by (intro sint32_of_int; linarith)
  have "uint (ULONG_MAX mod base) = ?M mod b" by (simp add: uint_mod ub ULONG_MAX_def)
  then have "ULONG_MAX mod base = word_of_int (?M mod b)" by (metis word_of_int_uint)
  then have sl: "sint (ULONG_MAX mod base) = ?M mod b" using q b by (simp only:) (intro sint32_of_int; linarith)
  have uq: "uint (ULONG_MAX div base) = ?M div b" by (simp add: uint_div ub ULONG_MAX_def)
  have ua: "uint (acc st) = v" unfolding st conv_state.simps using v by (intro uint32_of_int) linarith+
  have lt: "ULONG_MAX div base < acc st \<longleftrightarrow> ?M div b < v" by (simp only: word_less_def uq ua)
  have eq: "acc st = ULONG_MAX div base \<longleftrightarrow> v = ?M div b" by (simp only: word_uint_eq_iff uq ua)
  have over: "ULONG_MAX div base < acc st \<or> acc st = ULONG_MAX div base \<and>
      sint (ULONG_MAX mod base) < sint (word_of_int d :: u32) \<longleftrightarrow> \<not> v * b + d \<le> ?M"
    unfolding lt eq sl sd using limit_test[of b d v ?M] b d v by auto
  show ?thesis using over st(2) unfolding strtoul_step_def by (auto simp: st(1) wb)
qed

lemma strtoul_fold:
  assumes b: "sint base = b" "2 \<le> b" "b \<le> 36" and ds: "\<forall>d \<in> set ds. 0 \<le> d \<and> d < b"
  shows "fold (strtoul_step base (ULONG_MAX div base) (ULONG_MAX mod base)) (map word_of_int ds)
      \<lparr>acc = 0, any = 0, err = e\<rparr> =
    (let v = numeral_value b ds in
     if v \<le> 4294967295 then \<lparr>acc = word_of_int v, any = (if ds = [] then 0 else 1), err = e\<rparr>
     else \<lparr>acc = ULONG_MAX, any = - 1, err = ERANGE\<rparr>)"
  using ds
proof (induction ds rule: rev_induct)
  case (snoc d ds)
  let ?v = "numeral_value b ds"
  have d: "0 \<le> d" "d < b" and v: "0 \<le> ?v"
    using snoc.prems b(2) numeral_value_nonneg[of ds b] by auto
  show ?case
  proof (cases "?v \<le> 4294967295")
    case True
    then show ?thesis using snoc strtoul_step_value[OF b d v True refl, of "if ds = [] then 0 else 1" e]
      by (simp add: Let_def)
  next
    case False
    then have "\<not> ?v * b + d \<le> 4294967295" using numeral_le_step[of ?v d b] v d b by linarith
    then show ?thesis using False snoc by (simp add: Let_def strtoul_step_def)
  qed
qed simp

section \<open>The grammar\<close>

text \<open>Sign, base and digits of a string.  \<open>c99_numeral\<close> is the subject sequence of C99 7.20.1.4, where a \<open>0x\<close> is a
  prefix only before a hexadecimal digit; \<open>parse_numeral\<close> is what the code reads, which takes any \<open>0x\<close>.  The two
  differ on a \<open>bare_prefix\<close> only.\<close>

record numeral_syntax =
  negative :: bool
  radix :: int
  rest :: "u8 list"

definition after_sign :: "u8 list \<Rightarrow> bool \<times> u8 list" where
  "after_sign r = (case r of x # r' \<Rightarrow> if x = 45 then (True, r') else if x = 43 then (False, r') else (False, r)
                   | [] \<Rightarrow> (False, []))"

definition after_base :: "int \<Rightarrow> u8 list \<Rightarrow> int \<times> u8 list" where
  "after_base b r =
     (if (b = 0 \<or> b = 16) \<and> (\<exists>r'. r = 48 # 120 # r' \<or> r = 48 # 88 # r') then (16, drop 2 r)
      else if b = 0 then (if \<exists>r'. r = 48 # r' then 8 else 10, r) else (b, r))"

definition parse_numeral :: "int \<Rightarrow> u8 list \<Rightarrow> numeral_syntax" where
  "parse_numeral b s =
     (let (neg, r) = after_sign (dropWhile white s); (b, r) = after_base b r
      in \<lparr>negative = neg, radix = b, rest = r\<rparr>)"

definition hex_digit :: "u8 \<Rightarrow> bool" where
  "hex_digit x \<longleftrightarrow> 48 \<le> uint x \<and> uint x \<le> 57 \<or> 65 \<le> uint x \<and> uint x \<le> 70 \<or> 97 \<le> uint x \<and> uint x \<le> 102"

definition c99_base :: "int \<Rightarrow> u8 list \<Rightarrow> int \<times> u8 list" where
  "c99_base b r =
     (let hex = (case r of z # x # y # r' \<Rightarrow> z = 48 \<and> (x = 120 \<or> x = 88) \<and> hex_digit y | _ \<Rightarrow> False);
          octal = (case r of z # r' \<Rightarrow> z = 48 | [] \<Rightarrow> False)
      in if (b = 0 \<or> b = 16) \<and> hex then (16, drop 2 r)
         else if b = 0 then (if octal then 8 else 10, r)
         else (b, r))"

definition c99_numeral :: "int \<Rightarrow> u8 list \<Rightarrow> numeral_syntax" where
  "c99_numeral b s =
     (let (neg, r) = after_sign (dropWhile white s); (b, r) = c99_base b r
      in \<lparr>negative = neg, radix = b, rest = r\<rparr>)"

definition bare_prefix :: "int \<Rightarrow> u8 list \<Rightarrow> bool" where
  "bare_prefix b s \<longleftrightarrow> (b = 0 \<or> b = 16) \<and>
     (case snd (after_sign (dropWhile white s)) of
        z # x # r \<Rightarrow> z = 48 \<and> (x = 120 \<or> x = 88) \<and> (case r of y # _ \<Rightarrow> \<not> hex_digit y | [] \<Rightarrow> True)
      | _ \<Rightarrow> False)"

lemma hex_digit_of: "hex_digit x \<longleftrightarrow> (\<exists>d. digit_of x = Some d \<and> d < 16)"
  by (auto simp: hex_digit_def digit_of_def code_classes Let_def)

lemma digits_none: "\<not> (case r of y # _ \<Rightarrow> hex_digit y | [] \<Rightarrow> False) \<Longrightarrow> digits 16 r = []"
  by (cases r) (auto simp: hex_digit_of split: option.split)

lemma numeral_agrees: "\<not> bare_prefix b s \<Longrightarrow> parse_numeral b s = c99_numeral b s"
proof -
  assume b: "\<not> bare_prefix b s"
  obtain neg r where r: "after_sign (dropWhile white s) = (neg, r)" by fastforce
  have "after_base b r = c99_base b r"
  proof (cases "\<exists>x r'. r = 48 # x # r'")
    case True
    then obtain x r' where x: "r = 48 # x # r'" by blast
    then show ?thesis using b by (cases r') (auto simp: bare_prefix_def after_base_def c99_base_def r)
  next
    case False
    then show ?thesis by (auto simp: after_base_def c99_base_def split: list.split)
  qed
  then show ?thesis by (simp add: parse_numeral_def c99_numeral_def r)
qed

lemma bare_prefix_digits:
  assumes "bare_prefix b s"
  shows "digits (radix (parse_numeral b s)) (rest (parse_numeral b s)) = []"
proof -
  obtain neg r where r: "after_sign (dropWhile white s) = (neg, r)" by fastforce
  then obtain x r' where x: "r = 48 # x # r'" "x = 120 \<or> x = 88" "case r' of y # _ \<Rightarrow> \<not> hex_digit y | [] \<Rightarrow> True"
    "b = 0 \<or> b = 16" using assms by (auto simp: bare_prefix_def split: list.splits)
  then have "after_base b r = (16, r')" by (auto simp: after_base_def)
  moreover have "digits 16 r' = []" by (rule digits_none) (use x(3) in \<open>simp split: list.splits\<close>)
  ultimately show ?thesis by (simp add: parse_numeral_def r)
qed

lemma white_byte: "isspace (ucast (x :: u8)) \<noteq> 0 \<longleftrightarrow> white x"
proof -
  show ?thesis using isspace_class[of "ucast x"] low_byte(1)[of x] by (simp add: white_def Let_def)
qed

lemma white_0: "\<not> white 0"
  by (simp add: white_def)

lemma skip_space_value:
  assumes "cstring m p s"
  shows "\<exists>q c. skip_space m p = Some (q, c) \<and> cursor m q c (dropWhile white s) \<and>
    q = p + of_nat (length (takeWhile white s)) + 1"
  using assms
proof (induction s arbitrary: p)
  case Nil
  then show ?case using white_byte[of 0] by (subst skip_space.simps) (simp add: white_0 cursor_def)
next
  case (Cons x s)
  then have x: "m p = x" "cstring m (p + 1) s" by (simp_all add: cstring_Cons)
  show ?case
  proof (cases "white x")
    case True
    then show ?thesis using Cons.IH[OF x(2)] white_byte[of x]
      by (subst skip_space.simps) (simp add: x(1) add.assoc)
  next
    case False
    then show ?thesis using white_byte[of x] Cons.prems
      by (subst skip_space.simps) (simp add: x(1) cursor_def)
  qed
qed


lemma cursor_char:
  assumes "cursor m q c r" "0 < k" "k < 128"
  shows "c = word_of_int k \<longleftrightarrow> (\<exists>r'. r = word_of_int k # r')"
proof (cases r)
  case Nil
  have "(word_of_int k :: u32) \<noteq> 0" using uint32_of_int[of k] assms(2,3) by auto
  then show ?thesis using cursor_Nil assms(1) Nil by auto
next
  case (Cons x r')
  have c: "c = ucast x \<or> c = scast x" using assms(1) Cons by (simp add: cursor_Cons)
  have u8: "uint (word_of_int k :: u8) = k" using assms(2,3) by (simp add: unsigned_of_int take_bit_int_eq_self)
  have k: "(ucast (word_of_int k :: u8) :: u32) = word_of_int k" unfolding ucast_eq u8 ..
  have low: "(ucast c :: u8) = x" using c low_byte[of x] by auto
  have "c = word_of_int k \<longleftrightarrow> x = word_of_int k"
  proof
    assume "c = word_of_int k"
    then have "x = ucast (word_of_int k :: u32)" using low by simp
    also have "\<dots> = word_of_int k" unfolding k[symmetric] by (rule low_byte)
    finally show "x = word_of_int k" .
  next
    assume x: "x = word_of_int k"
    then have "(scast x :: u32) = ucast x" using u8 assms(3) by (intro uint_scast_small) simp
    then show "c = word_of_int k" using c x k by auto
  qed
  then show ?thesis using Cons by simp
qed

lemma take_sign_value:
  assumes "cursor m q c r" "after_sign r = (neg, r')"
  shows "\<exists>c'. take_sign m q c = (neg, q + of_nat (length r - length r'), c') \<and>
    cursor m (q + of_nat (length r - length r')) c' r' \<and> length r' \<le> length r"
proof -
  have m: "c = 45 \<longleftrightarrow> (\<exists>r'. r = 45 # r')" "c = 43 \<longleftrightarrow> (\<exists>r'. r = 43 # r')"
    using cursor_char[OF assms(1), of 45] cursor_char[OF assms(1), of 43] by simp_all
  show ?thesis
  proof (cases "\<exists>r''. r = 45 # r'' \<or> r = 43 # r''")
    case True
    then obtain x r'' where r: "r = x # r''" "x = 45 \<or> x = 43" by blast
    then have "take_sign m q c = (x = 45, q + 1, scast (m q))" "after_sign r = (x = 45, r'')"
      using m by (auto simp: take_sign_def after_sign_def)
    then show ?thesis using assms r cursor_step[of m q c x r''] by simp
  next
    case False
    then have "after_sign r = (False, r)" by (auto simp: after_sign_def split: list.split)
    then show ?thesis using False m assms by (auto simp: take_sign_def)
  qed
qed

lemma cursor_next: "cursor m q c (x # r) \<Longrightarrow> cstring m q r"
  by (simp add: cursor_def cstring_Cons)

lemma cstring_first: "cstring m q r \<Longrightarrow> x \<noteq> 0 \<Longrightarrow> m q = x \<longleftrightarrow> (\<exists>r'. r = x # r')"
  by (cases r) (auto simp: cstring_Cons)

lemma take_base_value:
  assumes "cursor m q c r" "after_base (sint base) r = (b, r')"
  shows "\<exists>base' c'. take_base m base q c = (base', q + of_nat (length r - length r'), c') \<and>
    cursor m (q + of_nat (length r - length r')) c' r' \<and> length r' \<le> length r \<and> sint base' = b"
proof -
  have c: "c = 48 \<longleftrightarrow> (\<exists>r'. r = 48 # r')" using cursor_char[OF assms(1), of 48] by simp
  have b: "sint base = 0 \<longleftrightarrow> base = 0" "sint base = 16 \<longleftrightarrow> base = 16"
    using signed_word_eqI[of base 0] signed_word_eqI[of base 16] by auto
  let ?x = "(base = 0 \<or> base = 16) \<and> (\<exists>r'. r = 48 # 120 # r' \<or> r = 48 # 88 # r')"
  have x: "(base = 0 \<or> base = 16) \<and> c = 48 \<and> (m q = 120 \<or> m q = 88) \<longleftrightarrow> ?x"
    using c cursor_next[of m q c 48] cstring_first[of m q _ 120] cstring_first[of m q _ 88] assms(1) by fastforce
  show ?thesis
  proof (cases ?x)
    case True
    then obtain y r'' where r: "r = 48 # y # r''" by blast
    have "cursor m (q + 1) (ucast (m q)) (y # r'')" using cursor_step[of m q c 48] assms(1) r by simp
    then have "cursor m (q + 1 + 1) (scast (m (q + 1))) r''" by (rule cursor_step) simp
    moreover have "after_base (sint base) r = (16, r'')" using True r b by (auto simp: after_base_def)
    moreover have "take_base m base q c = (16, q + 2, scast (m (q + 1)))" using True x by (simp add: take_base_def)
    moreover have "q + 1 + 1 = q + 2" by simp
    ultimately show ?thesis using assms(2) r by simp
  next
    case False
    then have "after_base (sint base) r = (if base = 0 then if \<exists>r'. r = 48 # r' then 8 else 10 else sint base, r)"
      using b by (auto simp: after_base_def)
    moreover have "take_base m base q c = (if base = 0 then if c = 48 then 8 else 10 else base, q, c)"
      using False x by (auto simp: take_base_def)
    ultimately show ?thesis using assms c by auto
  qed
qed


section \<open>The conversions\<close>

text \<open>The value, \<open>errno\<close> and the number of bytes consumed that the conversion of a numeral with values from \<open>lo\<close> to
  \<open>hi\<close> gives; a value out of range gives the limit it passes and \<open>ERANGE\<close>.\<close>

definition conversion :: "int \<Rightarrow> int \<Rightarrow> numeral_syntax \<Rightarrow> u32 \<Rightarrow> u8 list \<Rightarrow> int \<times> u32 \<times> nat" where
  "conversion lo hi num errno s =
     (let ds = digits (radix num) (rest num);
          v = numeral_value (radix num) ds; v = (if negative num then - v else v)
      in (if v < lo then lo else if hi < v then hi else v,
          if v < lo \<or> hi < v then ERANGE else errno,
          if ds = [] then 0 else length s - length (rest num) + length ds))"

lemma scan_value:
  assumes "cstring m p s" "sint base = 0 \<or> 2 \<le> sint base \<and> sint base \<le> 36"
  defines "num \<equiv> parse_numeral (sint base) s"
  obtains q0 c0 q1 c1 base' q c where
    "skip_space m p = Some (q0, c0)" "take_sign m q0 c0 = (negative num, q1, c1)"
    "take_base m base q1 c1 = (base', q, c)" "cursor m q c (rest num)" "sint base' = radix num"
    "2 \<le> radix num" "radix num \<le> 36" "q = p + of_nat (length s - length (rest num)) + 1"
proof -
  obtain q0 c0 where s: "skip_space m p = Some (q0, c0)" "cursor m q0 c0 (dropWhile white s)"
    "q0 = p + of_nat (length (takeWhile white s)) + 1"
    using skip_space_value[OF assms(1)] by blast
  let ?r0 = "dropWhile white s"
  obtain neg r1 where r1: "after_sign ?r0 = (neg, r1)" by fastforce
  obtain b r where r: "after_base (sint base) r1 = (b, r)" by fastforce
  have num: "num = \<lparr>negative = neg, radix = b, rest = r\<rparr>" by (simp add: num_def parse_numeral_def r1 r)
  obtain c1 where t: "take_sign m q0 c0 = (neg, q0 + of_nat (length ?r0 - length r1), c1)"
    "cursor m (q0 + of_nat (length ?r0 - length r1)) c1 r1" "length r1 \<le> length ?r0"
    using take_sign_value[OF s(2) r1] by blast
  obtain base' c where u: "take_base m base (q0 + of_nat (length ?r0 - length r1)) c1
      = (base', q0 + of_nat (length ?r0 - length r1) + of_nat (length r1 - length r), c)"
    "cursor m (q0 + of_nat (length ?r0 - length r1) + of_nat (length r1 - length r)) c r"
    "length r \<le> length r1" "sint base' = b"
    using take_base_value[OF t(2) r] by blast
  have "length (takeWhile white s) + length ?r0 = length s"
    by (metis length_append takeWhile_dropWhile_id)
  then have "length (takeWhile white s) + (length ?r0 - length r1) + (length r1 - length r) = length s - length r"
    using t(3) u(3) by simp
  then have "q0 + of_nat (length ?r0 - length r1) + of_nat (length r1 - length r) = p + of_nat (length s - length r) + 1"
    unfolding s(3) by (metis (no_types, lifting) add.assoc add.commute of_nat_add)
  moreover have "2 \<le> b" "b \<le> 36" using r assms(2) by (auto simp: after_base_def split: if_splits)
  ultimately show ?thesis using that s(1) t(1) u num by simp
qed

lemma strtol_value:
  assumes "cstring m p s" "sint base = 0 \<or> 2 \<le> sint base \<and> sint base \<le> 36"
  shows "\<exists>r. strtol m errno p endptr base =
    (case conversion (- 2147483648) 2147483647 (parse_numeral (sint base) s) errno s of
       (v, e, n) \<Rightarrow> Some (r, set_endptr m endptr (p + of_nat n), e)) \<and>
    sint r = fst (conversion (- 2147483648) 2147483647 (parse_numeral (sint base) s) errno s)"
proof -
  let ?num = "parse_numeral (sint base) s"
  let ?ds = "digits (radix ?num) (rest ?num)"
  let ?v = "numeral_value (radix ?num) ?ds"
  obtain q0 c0 q1 c1 base' q c where scan: "skip_space m p = Some (q0, c0)"
    "take_sign m q0 c0 = (negative ?num, q1, c1)" "take_base m base q1 c1 = (base', q, c)"
    "cursor m q c (rest ?num)" "sint base' = radix ?num" "2 \<le> radix ?num" "radix ?num \<le> 36"
    "q = p + of_nat (length s - length (rest ?num)) + 1"
    by (rule scan_value[OF assms])
  obtain cutoff cutlim where lim: "strtol_limits (negative ?num) base' = (cutoff, cutlim)" by fastforce
  have ds: "\<forall>d \<in> set ?ds. 0 \<le> d \<and> d < radix ?num" using digits_range by blast
  have v: "0 \<le> ?v" by (rule numeral_value_nonneg) (use ds scan(6) in auto)
  define st where "st = fold (strtol_step (negative ?num) base' cutoff cutlim) (map word_of_int ?ds)
      \<lparr>acc = 0, any = 0, err = errno\<rparr>"
  have loop: "digit_loop (strtol_step (negative ?num) base' cutoff cutlim) m base' q c
      \<lparr>acc = 0, any = 0, err = errno\<rparr> = Some (st, q + of_nat (length ?ds))"
    unfolding st_def scan(5)[symmetric] by (rule digit_loop_value[OF scan(4)]) (use scan(5,6) in simp)
  define w where "w = (if negative ?num then - ?v else ?v)"
  have st: "st = (if ?v \<le> (if negative ?num then 2147483648 else 2147483647)
       then \<lparr>acc = word_of_int w, any = (if ?ds = [] then 0 else 1), err = errno\<rparr>
       else \<lparr>acc = if negative ?num then LONG_MIN else LONG_MAX, any = - 1, err = ERANGE\<rparr>)"
    using strtol_fold[OF scan(5-7) ds refl lim, of errno] unfolding st_def w_def Let_def .
  have "?ds = [] \<Longrightarrow> ?v = 0" by simp
  then have A: "any st \<noteq> 0 \<longleftrightarrow> ?ds \<noteq> []" unfolding st by simp
  have B: "sint (acc st) = (if w < - 2147483648 then - 2147483648 else if 2147483647 < w then 2147483647 else w)"
    using v by (simp add: st w_def LONG_MIN_def LONG_MAX_def sint32_of_int del: of_int_minus)
  have C: "err st = (if w < - 2147483648 \<or> 2147483647 < w then ERANGE else errno)"
    using v by (simp add: st w_def)
  have "strtol m errno p endptr base =
      Some (acc st, set_endptr m endptr (if ?ds = [] then p else q + of_nat (length ?ds) - 1), err st)"
    unfolding strtol_def scan(1) bind.bind_lunit prod.case scan(2) Let_def scan(3) lim loop by (simp add: A)
  then show ?thesis using B C by (simp add: conversion_def Let_def w_def scan(8) del: of_nat_diff)
qed

lemma strtoul_value:
  assumes "cstring m p s" "sint base = 0 \<or> 2 \<le> sint base \<and> sint base \<le> 36"
  defines "num \<equiv> parse_numeral (sint base) s"
  defines "ds \<equiv> digits (radix num) (rest num)"
  defines "v \<equiv> numeral_value (radix num) ds"
  shows "strtoul m errno p endptr base =
    Some (if 4294967295 < v then ULONG_MAX else word_of_int (if negative num then - v else v),
          set_endptr m endptr (p + of_nat (if ds = [] then 0 else length s - length (rest num) + length ds)),
          if 4294967295 < v then ERANGE else errno)"
proof -
  obtain q0 c0 q1 c1 base' q c where scan: "skip_space m p = Some (q0, c0)"
    "take_sign m q0 c0 = (negative num, q1, c1)" "take_base m base q1 c1 = (base', q, c)"
    "cursor m q c (rest num)" "sint base' = radix num" "2 \<le> radix num" "radix num \<le> 36"
    "q = p + of_nat (length s - length (rest num)) + 1"
    unfolding num_def by (rule scan_value[OF assms(1,2)])
  define st where "st = fold (strtoul_step base' (ULONG_MAX div base') (ULONG_MAX mod base')) (map word_of_int ds)
      \<lparr>acc = 0, any = 0, err = errno\<rparr>"
  have loop: "digit_loop (strtoul_step base' (ULONG_MAX div base') (ULONG_MAX mod base')) m base' q c
      \<lparr>acc = 0, any = 0, err = errno\<rparr> = Some (st, q + of_nat (length ds))"
    unfolding st_def ds_def scan(5)[symmetric] by (rule digit_loop_value[OF scan(4)]) (use scan(5,6) in simp)
  have "\<forall>d \<in> set ds. 0 \<le> d \<and> d < radix num" unfolding ds_def using digits_range by blast
  then have st: "st = (if v \<le> 4294967295
       then \<lparr>acc = word_of_int v, any = (if ds = [] then 0 else 1), err = errno\<rparr>
       else \<lparr>acc = ULONG_MAX, any = - 1, err = ERANGE\<rparr>)"
    using strtoul_fold[OF scan(5-7), of ds errno] unfolding st_def v_def Let_def by blast
  have nil: "ds = [] \<Longrightarrow> v = 0" by (simp add: v_def)
  then have A: "any st \<noteq> 0 \<longleftrightarrow> ds \<noteq> []" unfolding st by simp
  have B: "(if negative num \<and> 0 < any st then - acc st else acc st) =
      (if 4294967295 < v then ULONG_MAX else word_of_int (if negative num then - v else v))"
    using nil by (simp add: st)
  have "strtoul m errno p endptr base = Some (if negative num \<and> 0 < any st then - acc st else acc st,
      set_endptr m endptr (if ds = [] then p else q + of_nat (length ds) - 1), err st)"
    unfolding strtoul_def scan(1) bind.bind_lunit prod.case scan(2) Let_def scan(3) loop by (simp add: A)
  then show ?thesis unfolding B by (simp add: scan(8) st del: of_nat_diff)
qed

text \<open>C29: \<open>strtol\<close> on a NUL-terminated string, for base 0 or from 2 to 36, returns the value of the numeral C99 7.20.1.4
  defines, after white space, a sign and the prefix the base allows: exactly where a \<open>long\<close> holds it, else the limit in
  its direction with \<open>errno\<close> set to \<open>ERANGE\<close>; \<open>*endptr\<close> is the first byte after the digits, or the argument itself when
  there are none.  \<open>strtoul\<close> converts the same numerals into \<open>unsigned long\<close>: the value, negated modulo \<open>2\<^sup>3\<^sup>2\<close> after a minus
  sign, or \<open>ULONG_MAX\<close> with \<open>ERANGE\<close>, whatever the sign, when the magnitude does not fit.  The exception is a \<open>0x\<close> that
  no hexadecimal digit follows: C99 reads its \<open>0\<close>, both functions read nothing and set \<open>*endptr\<close> to the argument.\<close>

theorem number_conversions:
  assumes "cstring m p s" "sint base = 0 \<or> 2 \<le> sint base \<and> sint base \<le> 36"
  defines "num \<equiv> c99_numeral (sint base) s"
  defines "ds \<equiv> digits (radix num) (rest num)"
  defines "v \<equiv> numeral_value (radix num) ds"
  shows "if bare_prefix (sint base) s
    then strtol m errno p endptr base = Some (0, set_endptr m endptr p, errno) \<and>
      strtoul m errno p endptr base = Some (0, set_endptr m endptr p, errno)
    else (\<exists>r. strtol m errno p endptr base =
        (case conversion (- 2147483648) 2147483647 num errno s of
           (u, e, n) \<Rightarrow> Some (r, set_endptr m endptr (p + of_nat n), e)) \<and>
        sint r = fst (conversion (- 2147483648) 2147483647 num errno s)) \<and>
      strtoul m errno p endptr base =
        Some (if 4294967295 < v then ULONG_MAX else word_of_int (if negative num then - v else v),
              set_endptr m endptr (p + of_nat (if ds = [] then 0 else length s - length (rest num) + length ds)),
              if 4294967295 < v then ERANGE else errno)"
proof (cases "bare_prefix (sint base) s")
  case True
  let ?num = "parse_numeral (sint base) s"
  have ds: "digits (radix ?num) (rest ?num) = []" by (rule bare_prefix_digits[OF True])
  then have "conversion (- 2147483648) 2147483647 ?num errno s = (0, errno, 0)" by (simp add: conversion_def)
  with strtol_value[OF assms(1,2), of errno endptr]
  obtain r where r: "strtol m errno p endptr base = Some (r, set_endptr m endptr p, errno)" "sint r = 0" by auto
  have "r = 0" using r(2) signed_word_eqI[of r 0] by simp
  then show ?thesis using True r(1) strtoul_value[OF assms(1,2), of errno endptr] ds by simp
next
  case False
  show ?thesis unfolding if_not_P[OF False] num_def ds_def v_def numeral_agrees[OF False, symmetric]
    using strtol_value[OF assms(1,2)] strtoul_value[OF assms(1,2)] by blast
qed

theorem number_conversions_witness:
  "(\<exists>r. strtol (wr (\<lambda>_. 0) 16 [32, 45, 57, 57, 57, 57, 57, 57, 57, 57, 57, 57, 120, 0]) 0 16 0 10
     = Some (r, wr (\<lambda>_. 0) 16 [32, 45, 57, 57, 57, 57, 57, 57, 57, 57, 57, 57, 120, 0], 34) \<and> sint r = - 2147483648) \<and>
   strtol (wr (\<lambda>_. 0) 16 [48, 120, 103, 0]) 0 16 0 16 = Some (0, wr (\<lambda>_. 0) 16 [48, 120, 103, 0], 0)"
proof
  let ?s = "[32, 45, 57, 57, 57, 57, 57, 57, 57, 57, 57, 57, 120] :: u8 list"
  let ?m = "wr (\<lambda>_. 0) 16 [32, 45, 57, 57, 57, 57, 57, 57, 57, 57, 57, 57, 120, 0] :: mem"
  have c: "cstring ?m 16 ?s" by (simp add: cstring_Cons wr_def)
  have "conversion (- 2147483648) 2147483647 (c99_numeral 10 ?s) 0 ?s = (- 2147483648, 34, 12)"
    by (simp add: conversion_def c99_numeral_def after_sign_def c99_base_def white_def digit_of_def
        code_classes numeral_value_def ERANGE_def)
  moreover have "\<not> bare_prefix 10 ?s" by (simp add: bare_prefix_def)
  ultimately show "\<exists>r. strtol ?m 0 16 0 10 = Some (r, ?m, 34) \<and> sint r = - 2147483648"
    using number_conversions[OF c, of 10 0 0] by (simp add: set_endptr_def)
  let ?b = "[48, 120, 103] :: u8 list"
  have c: "cstring (wr (\<lambda>_. 0) 16 [48, 120, 103, 0]) 16 ?b" by (simp add: cstring_Cons wr_def)
  have "bare_prefix 16 ?b" by (simp add: bare_prefix_def after_sign_def white_def hex_digit_def)
  then show "strtol (wr (\<lambda>_. 0) 16 [48, 120, 103, 0]) 0 16 0 16 = Some (0, wr (\<lambda>_. 0) 16 [48, 120, 103, 0], 0)"
    using number_conversions[OF c, of 16 0 0] by (simp add: set_endptr_def)
qed

end
