(* ===== verification/SfRound.thy ===== *)
theory SfRound
  imports CPrelude
begin

text \<open>
  Rounding to binary floating point, on natural numbers: the specification the SoftFloat theories
  refine.  A format has \<open>p\<close> significant bits; magnitudes count in units of its least positive number,
  and an encoding is the bit pattern below the sign.
\<close>

section \<open>Number of bits\<close>

fun nbits :: "nat \<Rightarrow> nat" where
  "nbits n = (if n = 0 then 0 else Suc (nbits (n div 2)))"

declare nbits.simps [simp del]

lemma nbits_le: "nbits n \<le> k \<longleftrightarrow> n < 2 ^ k"
proof (induction n arbitrary: k rule: nbits.induct)
  case (1 n)
  show ?case
  proof (cases "n = 0")
    case True
    then show ?thesis by (simp add: nbits.simps)
  next
    case False
    then show ?thesis using 1[of "k - 1"] by (cases k) (auto simp: nbits.simps[of n])
  qed
qed

lemma nbits_eq: "2 ^ k \<le> n \<Longrightarrow> n < 2 ^ Suc k \<Longrightarrow> nbits n = Suc k"
  using nbits_le[of n k] nbits_le[of n "Suc k"] by simp

lemma nbits_mult [simp]: "0 < n \<Longrightarrow> nbits (n * 2 ^ k) = nbits n + k"
  by (induction k) (simp_all add: nbits.simps[of "2 * _"] mult.left_commute[of n 2])

lemma nbits_0 [simp]: "nbits 0 = 0"
  by (simp add: nbits.simps)

section \<open>Nearest even\<close>

text \<open>\<open>n / 2\<^sup>s\<close> rounded to the nearest integer, ties to even.\<close>

definition rne_shift :: "nat \<Rightarrow> nat \<Rightarrow> nat" where
  "rne_shift n s =
     (let q = n div 2 ^ s; r = n mod 2 ^ s
      in if 2 * r < 2 ^ s \<or> 2 * r = 2 ^ s \<and> even q then q else Suc q)"

text \<open>The encoding of \<open>n / 2\<^sup>k\<close> units rounded to \<open>p\<close> bits, with exponents unbounded upwards.\<close>

definition rnd :: "nat \<Rightarrow> nat \<Rightarrow> nat \<Rightarrow> nat" where
  "rnd p n k = (let s = max k (nbits n - p) in (s - k) * 2 ^ (p - 1) + rne_shift n s)"

text \<open>The magnitude an encoding stands for.\<close>

definition enc_mag :: "nat \<Rightarrow> nat \<Rightarrow> nat" where
  "enc_mag p x = (let e = x div 2 ^ (p - 1); f = x mod 2 ^ (p - 1)
                  in if e = 0 then f else (2 ^ (p - 1) + f) * 2 ^ (e - 1))"

lemma div_mult_pow: "n * 2 ^ a div 2 ^ (s + a) = n div (2 ^ s :: nat)"
  by (simp add: power_add div_mult_mult2)

lemma rne_shift_mult [simp]: "rne_shift (n * 2 ^ a) (s + a) = rne_shift n s"
proof -
  have "n * 2 ^ a mod 2 ^ (s + a) = n mod 2 ^ s * (2 ^ a :: nat)"
    by (simp add: power_add mult_mod_left)
  moreover have "2 * (n mod 2 ^ s * 2 ^ a) < 2 ^ (s + a) \<longleftrightarrow> 2 * (n mod 2 ^ s) < (2 ^ s :: nat)"
    "2 * (n mod 2 ^ s * 2 ^ a) = 2 ^ (s + a) \<longleftrightarrow> 2 * (n mod 2 ^ s) = (2 ^ s :: nat)"
    by (simp_all add: power_add flip: mult.assoc)
  ultimately show ?thesis by (simp only: rne_shift_def Let_def div_mult_pow)
qed

lemma rnd_scale: "0 < n \<Longrightarrow> rnd p (n * 2 ^ a) (k + a) = rnd p n k"
proof -
  assume n: "0 < n"
  have "max (k + a) (nbits (n * 2 ^ a) - p) = max (k + a) (nbits n + a - p)" using n by simp
  show "rnd p (n * 2 ^ a) (k + a) = rnd p n k"
  proof (cases "p \<le> nbits n")
    case True
    then have "max (k + a) (nbits (n * 2 ^ a) - p) = max k (nbits n - p) + a" using n by simp
    then show ?thesis by (simp add: rnd_def Let_def)
  next
    case False
    then have "max (k + a) (nbits (n * 2 ^ a) - p) = k + a" "max k (nbits n - p) = k" using n by simp_all
    then show ?thesis by (simp add: rnd_def Let_def)
  qed
qed

section \<open>Sticky bits\<close>

text \<open>\<open>n / 2\<^sup>d\<close> with the bits that fall off jammed into the last one.\<close>

definition jam :: "nat \<Rightarrow> nat \<Rightarrow> nat" where
  "jam n d = (let q = n div 2 ^ d in if n mod 2 ^ d = 0 \<or> odd q then q else Suc q)"

lemma jam_exact: "n mod 2 ^ d = 0 \<Longrightarrow> jam n d = n div 2 ^ d"
  by (simp add: jam_def Let_def)

lemma jam_add: "even x \<Longrightarrow> jam (x * 2 ^ d + n) d = x + jam n d"
  by (simp add: jam_def Let_def)

lemma jam_sub:
  assumes "even x" "n \<le> x * 2 ^ d"
  shows "jam (x * 2 ^ d - n) d = x - jam n d"
proof (cases "n mod 2 ^ d = 0")
  case True
  then obtain q where n: "n = q * 2 ^ d" by (metis mod_0_imp_dvd dvd_def mult.commute)
  then have "q \<le> x" using assms(2) by simp
  then show ?thesis by (simp add: jam_def n flip: diff_mult_distrib)
next
  case False
  let ?q = "n div 2 ^ d" and ?r = "n mod 2 ^ d"
  have n: "n = ?q * 2 ^ d + ?r" by (rule div_mult_mod_eq[symmetric])
  have r: "0 < ?r" "?r < 2 ^ d" using False by simp_all
  have q: "?q < x"
  proof (rule ccontr)
    assume "\<not> ?q < x"
    then have "x * 2 ^ d \<le> ?q * 2 ^ d" by simp
    then show False using n r assms(2) by linarith
  qed
  obtain z where z: "x = Suc (?q + z)" using q less_iff_Suc_add by blast
  have "x * 2 ^ d = z * 2 ^ d + 2 ^ d + ?q * 2 ^ d" by (subst z) (simp add: algebra_simps)
  then have e: "x * 2 ^ d - n = (x - ?q - 1) * 2 ^ d + (2 ^ d - ?r)" using n r z by simp
  have d: "(x * 2 ^ d - n) div 2 ^ d = x - ?q - 1" "(x * 2 ^ d - n) mod 2 ^ d = 2 ^ d - ?r"
  proof -
    obtain w where w: "w = 2 ^ d - ?r" "w < 2 ^ d" using r by simp
    show "(x * 2 ^ d - n) div 2 ^ d = x - ?q - 1" "(x * 2 ^ d - n) mod 2 ^ d = 2 ^ d - ?r"
      unfolding e w(1)[symmetric] using w(2) by simp_all
  qed
  have "odd (x - ?q - 1) \<longleftrightarrow> even ?q" using q assms(1) by simp
  moreover have "\<not> 2 ^ d \<le> ?r" using r(2) by (simp only: not_le)
  ultimately show ?thesis unfolding jam_def Let_def d using False q by auto
qed

text \<open>Rounding looks at a jammed number as at the number itself, from two bits up.\<close>

lemma rne_shift_jam:
  assumes "2 \<le> s"
  shows "rne_shift (jam n d) s = rne_shift n (s + d)"
proof -
  let ?q = "n div 2 ^ d" and ?r = "n mod 2 ^ d"
  define h where "h = ?q mod 2 ^ s"
  have m: "n mod 2 ^ (s + d) = h * 2 ^ d + ?r"
    unfolding h_def by (simp add: power_add mod_mult2_eq mult.commute)
  have dv: "n div 2 ^ (s + d) = ?q div 2 ^ s" by (simp add: power_add div_mult2_eq mult.commute)
  obtain t where s: "s = Suc (Suc t)" using assms by (metis Suc_le_D numeral_2_eq_2 Suc_le_mono)
  have half: "(2 :: nat) ^ s = 2 * (2 * 2 ^ t)" by (simp add: s)
  show ?thesis
  proof (cases "?r = 0")
    case True
    then have "n = ?q * 2 ^ d" by (metis add.right_neutral div_mult_mod_eq)
    then show ?thesis using True rne_shift_mult[of ?q d s] by (simp add: jam_exact)
  next
    case False
    have r: "0 < ?r" "?r < 2 ^ d" using False by simp_all
    have j: "jam n d = ?q div 2 ^ s * 2 ^ s + (if odd h then h else Suc h)"
    proof -
      have "?q = ?q div 2 ^ s * 2 ^ s + h" unfolding h_def by (rule div_mult_mod_eq[symmetric])
      moreover have "odd ?q \<longleftrightarrow> odd h" by (simp add: h_def s dvd_mod_iff)
      ultimately show ?thesis using False by (simp only: jam_def Let_def) auto
    qed
    have hs: "h < 2 ^ s" by (simp add: h_def)
    have he: "(if odd h then h else Suc h) < 2 ^ s"
    proof (cases "odd h")
      case False
      then have "Suc h \<noteq> 2 ^ s" by (metis even_Suc half dvd_triv_left)
      then show ?thesis using hs by simp
    qed (use hs in simp)
    have jd: "jam n d div 2 ^ s = ?q div 2 ^ s" "jam n d mod 2 ^ s = (if odd h then h else Suc h)"
      unfolding j using he by simp_all
    have ne: "2 * (if odd h then h else Suc h) \<noteq> 2 ^ s"
    proof
      assume "2 * (if odd h then h else Suc h) = 2 ^ s"
      then have "(if odd h then h else Suc h) = 2 * 2 ^ t" unfolding half by simp
      moreover have "odd (if odd h then h else Suc h)" by simp
      ultimately show False by (metis dvd_triv_left)
    qed
    have a: "2 * (if odd h then h else Suc h) < 2 ^ s \<longleftrightarrow> h < 2 * 2 ^ t"
    proof -
      have "Suc h \<noteq> 2 * 2 ^ t" if "even h" using that by (metis even_Suc dvd_triv_left)
      then have "even h \<Longrightarrow> Suc h < 2 * 2 ^ t \<longleftrightarrow> h < 2 * 2 ^ t" by (metis Suc_lessD Suc_lessI)
      then show ?thesis unfolding half by (cases "even h") (simp_all only: if_True if_False not_not nat_mult_less_cancel_disj, simp_all)
    qed
    have b: "2 * (h * 2 ^ d + ?r) < 2 ^ (s + d) \<longleftrightarrow> h < 2 * 2 ^ t"
    proof
      assume "2 * (h * 2 ^ d + ?r) < 2 ^ (s + d)"
      then have "2 * (h * 2 ^ d + ?r) < 2 * (2 * 2 ^ t * 2 ^ d)" by (simp only: power_add half mult.assoc)
      then have "h * 2 ^ d < 2 * 2 ^ t * 2 ^ d" unfolding nat_mult_less_cancel_disj
        by (blast intro: add_lessD1)
      then show "h < 2 * 2 ^ t" by simp
    next
      assume "h < 2 * 2 ^ t"
      then have "Suc h * 2 ^ d \<le> 2 * 2 ^ t * 2 ^ d" by (intro mult_le_mono1) simp
      then have "h * 2 ^ d + ?r < 2 * 2 ^ t * 2 ^ d" using r(2) unfolding mult_Suc by (metis add.commute add_less_cancel_left order_less_le_trans)
      then have "2 * (h * 2 ^ d + ?r) < 2 * (2 * 2 ^ t * 2 ^ d)" by (simp add: nat_mult_less_cancel_disj)
      then show "2 * (h * 2 ^ d + ?r) < 2 ^ (s + d)" by (simp only: power_add half mult.assoc)
    qed
    have c: "2 * (h * 2 ^ d + ?r) \<noteq> 2 ^ (s + d)"
    proof
      assume "2 * (h * 2 ^ d + ?r) = 2 ^ (s + d)"
      then have "2 * (h * 2 ^ d + ?r) = 2 * (2 * 2 ^ t * 2 ^ d)" by (simp only: power_add half mult.assoc)
      then have "h * 2 ^ d + ?r = 2 * 2 ^ t * 2 ^ d" by simp
      then have "(h * 2 ^ d + ?r) mod 2 ^ d = 0" by simp
      then show False using r by simp
    qed
    show ?thesis unfolding rne_shift_def Let_def jd m dv using a b c ne by simp
  qed
qed


lemma nbits_div: "2 ^ d \<le> n \<Longrightarrow> nbits n = nbits (n div 2 ^ d) + d"
proof (induction d arbitrary: n)
  case (Suc d)
  then have "2 ^ d \<le> n div 2" by simp
  moreover have "0 < n" using Suc.prems by (metis gr0I not_one_le_zero one_le_power one_le_numeral order_trans)
  moreover have "n div 2 ^ Suc d = n div 2 div 2 ^ d" by (simp add: div_mult2_eq)
  ultimately show ?case using Suc.IH[of "n div 2"] by (simp only: nbits.simps[of n]) simp
qed simp

lemma nbits_Suc_even: "even q \<Longrightarrow> 0 < q \<Longrightarrow> nbits (Suc q) = nbits q"
  by (simp add: nbits.simps[of "Suc q"] nbits.simps[of q])

lemma nbits_jam:
  assumes "2 \<le> jam n d"
  shows "nbits n = nbits (jam n d) + d"
proof -
  have "n div 2 ^ d \<noteq> 0" using assms by (auto simp: jam_def Let_def split: if_splits)
  then have "2 ^ d \<le> n" by (simp add: div_eq_0_iff)
  moreover have "nbits (jam n d) = nbits (n div 2 ^ d)"
    using \<open>n div 2 ^ d \<noteq> 0\<close> nbits_Suc_even[of "n div 2 ^ d"] by (auto simp: jam_def Let_def)
  ultimately show ?thesis using nbits_div by simp
qed

lemma rnd_jam:
  assumes "2 \<le> jam n d" "e + 2 \<le> k \<or> p + 2 \<le> nbits (jam n d)"
  shows "rnd p (jam n d * 2 ^ e) k = rnd p (n * 2 ^ e) (k + d)"
proof -
  let ?j = "jam n d"
  define s where "s = max k (nbits (?j * 2 ^ e) - p)"
  have j: "0 < ?j" using assms(1) by simp
  have n: "0 < n" using nbits_jam[OF assms(1)] assms(1) by (metis gr0I j nbits_0 add_is_0 nbits_le less_one not_less0 power_0)
  have s2: "max (k + d) (nbits (n * 2 ^ e) - p) = s + d"
    using nbits_jam[OF assms(1)] j n by (simp add: s_def)
  have "e + 2 \<le> s" using assms(2) j by (auto simp: s_def)
  then obtain u where u: "s = (u + 2) + e" by (metis add.commute add.left_commute le_Suc_ex)
  have "rne_shift (?j * 2 ^ e) s = rne_shift ?j (u + 2)" unfolding u by (rule rne_shift_mult)
  also have "\<dots> = rne_shift n (u + 2 + d)" by (rule rne_shift_jam) simp
  also have "\<dots> = rne_shift (n * 2 ^ e) (s + d)" using rne_shift_mult[of n e "u + 2 + d"] by (simp add: u add_ac)
  finally show ?thesis unfolding rnd_def s2 Let_def s_def[symmetric] by simp
qed

section \<open>The nearest encoding\<close>

text \<open>An encoding \<open>x\<close> has the exponent \<open>x div 2\<^sup>p\<^sup>-\<^sup>1\<close>; magnitudes grow with encodings.\<close>

lemma enc_mag_split:
  assumes "f < 2 ^ (p - 1)"
  shows "enc_mag p (e * 2 ^ (p - 1) + f) = (if e = 0 then f else (2 ^ (p - 1) + f) * 2 ^ (e - 1))"
  using assms by (simp add: enc_mag_def Let_def)

lemma enc_mag_mono_Suc: "enc_mag p x < enc_mag p (Suc x)"
proof -
  let ?P = "2 ^ (p - 1) :: nat"
  define e f where "e = x div ?P" and "f = x mod ?P"
  have x: "x = e * ?P + f" unfolding e_def f_def by (rule div_mult_mod_eq[symmetric])
  have f: "f < ?P" by (simp add: f_def)
  show ?thesis
  proof (cases "Suc f < ?P")
    case True
    then show ?thesis using enc_mag_split[of f p e] enc_mag_split[of "Suc f" p e] f x by simp
  next
    case False
    then have "Suc f = ?P" using f by simp
    then have "Suc x = Suc e * ?P + 0" by (simp add: x)
    then have "enc_mag p (Suc x) = ?P * 2 ^ e" using enc_mag_split[of 0 p "Suc e"] by simp
    moreover have "enc_mag p x < ?P * 2 ^ e" unfolding x enc_mag_split[OF f]
      using f by (cases e) (auto simp: mult.assoc)
    ultimately show ?thesis by simp
  qed
qed

lemma enc_mag_mono: "enc_mag p x < enc_mag p y \<longleftrightarrow> x < y"
  using strict_mono_less[of "enc_mag p" x y] enc_mag_mono_Suc by (simp add: strict_mono_Suc_iff)


lemma rnd_neighbours:
  fixes n k p :: nat
  assumes "1 \<le> p"
  defines "s \<equiv> max k (nbits n - p)"
  defines "q \<equiv> n div 2 ^ s"
  defines "lo \<equiv> (s - k) * 2 ^ (p - 1) + q"
  shows "enc_mag p lo = q * 2 ^ (s - k)" "enc_mag p (Suc lo) = Suc q * 2 ^ (s - k)"
proof -
  let ?P = "2 ^ (p - 1) :: nat"
  have PP: "2 ^ p = 2 * ?P" using assms(1) by (metis Suc_diff_1 Suc_le_eq One_nat_def power_Suc)
  have "n < 2 ^ nbits n" using nbits_le by blast
  also have "\<dots> \<le> 2 ^ (s + p)" unfolding s_def by (intro power_increasing) simp_all
  finally have qb: "q < 2 * ?P" unfolding q_def PP[symmetric] power_add
    by (metis less_mult_imp_div_less mult.commute)
  have ql: "?P \<le> q" if "k < s"
  proof -
    have s: "nbits n = s + p" using that by (simp add: s_def max_def split: if_splits)
    have "\<not> nbits n \<le> s + p - 1" using s assms(1) by simp
    then have "2 ^ (s + p - 1) \<le> n" by (simp only: nbits_le not_less)
    moreover have "s + p - 1 = s + (p - 1)" using assms(1) by simp
    ultimately have "2 ^ s * ?P \<le> n" by (simp only: power_add)
    then show ?thesis unfolding q_def by (metis div_le_mono nonzero_mult_div_cancel_left power_not_zero zero_neq_numeral)
  qed
  have sk: "s = k" if "q < ?P" using that ql by (metis leD le_neq_implies_less max.cobounded1 s_def)
  define e f where "e = (if q < ?P then 0 else Suc (s - k))" and "f = (if q < ?P then q else q - ?P)"
  have f: "f < ?P" using qb by (auto simp: f_def)
  have lo: "lo = e * ?P + f" using sk by (auto simp: lo_def e_def f_def not_less)
  show a: "enc_mag p lo = q * 2 ^ (s - k)"
    unfolding lo enc_mag_split[OF f] using sk by (auto simp: e_def f_def not_less)
  have "Suc lo = e * ?P + Suc f" by (simp add: lo)
  show "enc_mag p (Suc lo) = Suc q * 2 ^ (s - k)"
  proof (cases "Suc f < ?P")
    case True
    then show ?thesis unfolding \<open>Suc lo = e * ?P + Suc f\<close> enc_mag_split[OF True]
      using sk f by (auto simp: e_def f_def not_less)
  next
    case False
    then have "Suc f = ?P" using f by simp
    then have "Suc lo = Suc e * ?P + 0" using lo by simp
    then have "enc_mag p (Suc lo) = ?P * 2 ^ e" using enc_mag_split[of 0 p "Suc e"] by simp
    moreover have "Suc q = (if q < ?P then ?P else 2 * ?P)" using \<open>Suc f = ?P\<close> by (auto simp: f_def)
    ultimately show ?thesis using sk by (auto simp: e_def not_less)
  qed
qed

theorem rnd_nearest:
  fixes n k p y :: nat
  assumes "2 \<le> p"
  defines "err \<equiv> \<lambda>x. \<bar>int (enc_mag p x) * 2 ^ k - int n\<bar>"
  shows "err (rnd p n k) \<le> err y \<and> (y \<noteq> rnd p n k \<and> err (rnd p n k) = err y \<longrightarrow> even (rnd p n k))"
proof -
  define s where "s = max k (nbits n - p)"
  define q where "q = n div 2 ^ s"
  define lo where "lo = (s - k) * 2 ^ (p - 1) + q"
  have v: "enc_mag p lo = q * 2 ^ (s - k)" "enc_mag p (Suc lo) = Suc q * 2 ^ (s - k)"
    unfolding s_def q_def lo_def by (rule rnd_neighbours; use assms(1) in linarith)+
  have ks: "k \<le> s" by (simp add: s_def)
  have pk: "(2 :: int) ^ (s - k) * 2 ^ k = 2 ^ s" using ks by (simp flip: power_add)
  define r where "r = int n - int q * 2 ^ s"
  have "int n = int (q * 2 ^ s + n mod 2 ^ s)" unfolding q_def by (simp only: div_mult_mod_eq)
  then have r: "r = int (n mod 2 ^ s)" unfolding r_def by (simp only: of_nat_add of_nat_mult of_nat_power of_nat_numeral)
  have "n mod 2 ^ s < 2 ^ s" by simp
  then have rb: "0 \<le> r" "r < 2 ^ s" unfolding r by (simp, metis of_nat_less_iff of_nat_numeral of_nat_power)
  have lo': "int (enc_mag p lo) * 2 ^ k = int n - r" unfolding v r_def using pk by (simp add: mult.assoc)
  have hi': "int (enc_mag p (Suc lo)) * 2 ^ k = int n - r + 2 ^ s"
    unfolding v r_def using pk by (simp add: mult.assoc algebra_simps)
  have elo: "err lo = r" and ehi: "err (Suc lo) = 2 ^ s - r"
    unfolding err_def lo' hi' using rb by simp_all
  have below: "r < err x" if "x < lo" for x
  proof -
    have "int (enc_mag p x) * 2 ^ k < int (enc_mag p lo) * 2 ^ k" using that enc_mag_mono by simp
    then show ?thesis unfolding err_def lo' using rb by linarith
  qed
  have above: "2 ^ s - r < err x" if "Suc lo < x" for x
  proof -
    have "int (enc_mag p (Suc lo)) * 2 ^ k < int (enc_mag p x) * 2 ^ k" using that enc_mag_mono by simp
    then show ?thesis unfolding err_def hi' using rb by linarith
  qed
  have R: "rnd p n k = (if 2 * r < 2 ^ s \<or> 2 * r = 2 ^ s \<and> even q then lo else Suc lo)"
  proof -
    have "2 * r < 2 ^ s \<longleftrightarrow> 2 * (n mod 2 ^ s) < 2 ^ s" "2 * r = 2 ^ s \<longleftrightarrow> 2 * (n mod 2 ^ s) = 2 ^ s"
    proof -
      have "2 * r = int (2 * (n mod 2 ^ s))" "(2 :: int) ^ s = int (2 ^ s)" unfolding r by simp_all
      then show "2 * r < 2 ^ s \<longleftrightarrow> 2 * (n mod 2 ^ s) < 2 ^ s" "2 * r = 2 ^ s \<longleftrightarrow> 2 * (n mod 2 ^ s) = 2 ^ s"
        by (simp_all only: of_nat_less_iff of_nat_eq_iff)
    qed
    then show ?thesis unfolding rnd_def Let_def rne_shift_def lo_def s_def[symmetric] q_def[symmetric] by simp
  qed
  have par: "even lo \<longleftrightarrow> even q"
  proof -
    have "even ((2 :: nat) ^ (p - 1))" using assms(1) by simp
    then show ?thesis unfolding lo_def by (metis even_add even_mult_iff)
  qed
  consider "y < lo" | "y = lo" | "y = Suc lo" | "Suc lo < y" by linarith
  then show ?thesis
  proof cases
    case 1 then show ?thesis using below[OF 1] elo ehi par unfolding R by auto
  next
    case 2 then show ?thesis using elo ehi par unfolding R by auto
  next
    case 3 then show ?thesis using elo ehi par unfolding R by auto
  next
    case 4 then show ?thesis using above[OF 4] elo ehi par unfolding R by auto
  qed
qed


section \<open>Rounding as the code does it\<close>

text \<open>Half a unit is added, and the last bit cleared at a tie.\<close>

lemma rne_shift_code:
  assumes "1 \<le> g"
  shows "rne_shift x g = (let z = (x + 2 ^ (g - 1)) div 2 ^ g
                          in if x mod 2 ^ g = 2 ^ (g - 1) then z - z mod 2 else z)"
proof -
  let ?h = "2 ^ (g - 1) :: nat"
  have G: "2 ^ g = 2 * ?h" using assms by (metis Suc_diff_1 Suc_le_eq One_nat_def power_Suc)
  define q r where "q = x div 2 ^ g" and "r = x mod 2 ^ g"
  have x: "x = q * 2 ^ g + r" unfolding q_def r_def by (rule div_mult_mod_eq[symmetric])
  have r: "r < 2 * ?h" unfolding r_def G[symmetric] by simp
  have "(x + ?h) div 2 ^ g = q + (r + ?h) div 2 ^ g" by (simp add: x add.assoc)
  also have "(r + ?h) div 2 ^ g = of_bool (?h \<le> r)" using r unfolding G
    by (cases "?h \<le> r") (simp_all add: div_nat_eqI)
  finally have z: "(x + ?h) div 2 ^ g = q + of_bool (?h \<le> r)" .
  have "rne_shift x g = (if r < ?h \<or> r = ?h \<and> even q then q else Suc q)"
    unfolding rne_shift_def Let_def q_def[symmetric] r_def[symmetric] by (simp add: G)
  then show ?thesis unfolding z r_def[symmetric] Let_def by (auto simp: mod_2_eq_odd)
qed

lemma rne_shift_le: "x < 2 ^ (g + p) \<Longrightarrow> rne_shift x g \<le> 2 ^ p"
proof -
  assume "x < 2 ^ (g + p)"
  then have "x div 2 ^ g < 2 ^ p" by (simp add: less_mult_imp_div_less power_add mult.commute)
  then show ?thesis by (simp add: rne_shift_def Let_def)
qed

lemma rne_shift_ge: "2 ^ (g + p) \<le> x \<Longrightarrow> 2 ^ p \<le> rne_shift x g"
proof -
  assume "2 ^ (g + p) \<le> x"
  then have "2 ^ p \<le> x div 2 ^ g" by (simp add: less_eq_div_iff_mult_less_eq power_add mult.commute)
  then show ?thesis by (auto simp: rne_shift_def Let_def)
qed

text \<open>The encoding of a significand of \<open>p + g\<close> bits scaled by \<open>2\<^sup>e\<close>, or of a smaller one.\<close>

lemma rnd_packed:
  assumes "x < 2 ^ (p + g)" "2 ^ (p + g - 1) \<le> x \<or> e = 0" "1 \<le> p + g"
  shows "rnd p (x * 2 ^ e) g = e * 2 ^ (p - 1) + rne_shift x g"
proof -
  have "nbits x \<le> p + g" using assms(1) by (simp add: nbits_le)
  moreover have "e = 0 \<or> nbits x = p + g"
  proof -
    have "Suc (p + g - 1) = p + g" using assms(3) by simp
    then show ?thesis using assms(1,2) nbits_eq[of "p + g - 1" x] by metis
  qed
  moreover have "0 < x \<or> e = 0" using assms(2) by (metis gr0I le_zero_eq power_not_zero zero_neq_numeral)
  ultimately have "max g (nbits (x * 2 ^ e) - p) = g + e"
    by (cases "e = 0") auto
  then show ?thesis by (simp add: rnd_def Let_def)
qed

lemma rnd_jam_packed:
  assumes "x < 2 ^ (p + g)" "2 \<le> g"
  shows "rnd p x (g + d) = rne_shift (jam x d) g"
proof -
  have "nbits x - p \<le> g" using assms(1) nbits_le[of x "p + g"] by simp
  then have "max (g + d) (nbits x - p) = g + d" by simp
  then show ?thesis using rne_shift_jam[OF assms(2), of x d] by (simp add: rnd_def Let_def)
qed


lemma rne_shift_top:
  assumes "x < 2 ^ (g + p)" "1 \<le> g" "1 \<le> p"
  shows "rne_shift x g = 2 ^ p \<longleftrightarrow> 2 ^ (g + p) \<le> x + 2 ^ (g - 1)"
proof -
  let ?z = "(x + 2 ^ (g - 1)) div 2 ^ g"
  have "x + 2 ^ (g - 1) < 2 ^ (g + p) + 2 ^ g" using assms(1) power_increasing[of "g - 1" g "2 :: nat"] by linarith
  then have "x + 2 ^ (g - 1) < 2 ^ g * Suc (2 ^ p)" by (simp add: power_add algebra_simps)
  then have zb: "?z < Suc (2 ^ p)" by (metis less_mult_imp_div_less mult.commute)
  have zt: "2 ^ p \<le> ?z \<longleftrightarrow> 2 ^ (g + p) \<le> x + 2 ^ (g - 1)"
    by (simp add: less_eq_div_iff_mult_less_eq power_add mult.commute)
  have "even ((2 :: nat) ^ p)" using assms(3) by simp
  then show ?thesis unfolding rne_shift_code[OF assms(2)] Let_def zt[symmetric] using zb
    by (auto simp: mod_2_eq_odd less_Suc_eq)
qed

lemma jam_le: "jam n d \<le> n"
proof (cases "n mod 2 ^ d = 0")
  case False
  have "n div 2 ^ d * 1 \<le> n div 2 ^ d * 2 ^ d" by (intro mult_le_mono) simp_all
  moreover have "n = n div 2 ^ d * 2 ^ d + n mod 2 ^ d" by (rule div_mult_mod_eq[symmetric])
  ultimately have "Suc (n div 2 ^ d) \<le> n" using False by linarith
  then show ?thesis by (simp add: jam_def Let_def)
qed (simp add: jam_exact)


lemma rne_shift_0 [simp]: "rne_shift x 0 = x"
  by (simp add: rne_shift_def)

lemma rne_shift_exact: "rne_shift (x * 2 ^ s) s = x"
  using rne_shift_mult[of x s 0] by simp

lemma rnd_exact: "n < 2 ^ p \<Longrightarrow> rnd p n 0 = n"
  using nbits_le[of n p] by (simp add: rnd_def)

text \<open>Moving a power of two between the significand and the exponent.\<close>

lemma rnd_shift:
  assumes "0 < n"
  shows "rnd p (n * 2 ^ a * 2 ^ nat (e - int a)) (k + nat (int a - e)) = rnd p (n * 2 ^ nat e) (k + nat (- e))"
proof -
  consider "int a \<le> e" | "0 \<le> e" "e < int a" | "e < 0" by linarith
  then show ?thesis
  proof cases
    case 1
    then have "nat e = a + nat (e - int a)" by simp
    then show ?thesis using 1 by (simp add: power_add mult.assoc)
  next
    case 2
    then have "a = nat e + nat (int a - e)" by simp
    then have s: "n * 2 ^ a = n * 2 ^ nat e * 2 ^ nat (int a - e)" by (metis mult.assoc power_add)
    have "nat (e - int a) = 0" "nat (- e) = 0" using 2 by simp_all
    then show ?thesis unfolding s using assms rnd_scale[of "n * 2 ^ nat e" p "nat (int a - e)" k] by simp
  next
    case 3
    then have "nat (int a - e) = nat (- e) + a" by simp
    then show ?thesis using 3 assms rnd_scale[of n p a "k + nat (- e)"] by (simp add: add_ac)
  qed
qed

lemma jam_pos: "0 < n \<Longrightarrow> 0 < jam n d"
proof -
  assume n: "0 < n"
  have "n = n div 2 ^ d * 2 ^ d + n mod 2 ^ d" by (rule div_mult_mod_eq[symmetric])
  then have "n div 2 ^ d \<noteq> 0 \<or> n mod 2 ^ d \<noteq> 0" using n by auto
  then show ?thesis by (auto simp: jam_def Let_def intro: odd_pos)
qed

lemma jam_even_half: "even n \<Longrightarrow> 1 \<le> d \<Longrightarrow> jam n d \<le> n div 2"
proof -
  assume "even n" "1 \<le> d"
  then obtain m e where m: "n = m * 2" "d = Suc e" by (metis evenE mult.commute Suc_le_D One_nat_def)
  have "jam n d = jam m e" by (simp add: jam_def m mult.commute[of m] mult_mod_right[symmetric])
  then show ?thesis using jam_le[of m e] by (simp add: m)
qed


text \<open>Rounding depends on the quotient only.\<close>

lemma rnd_cong:
  assumes "n * 2 ^ k' = n' * 2 ^ k" "0 < n"
  shows "rnd p n k = rnd p n' k'"
proof -
  have "0 < n'" using assms by (metis gr0I mult_is_0 power_not_zero zero_neq_numeral)
  have "rnd p n k = rnd p (n * 2 ^ k') (k + k')" using assms(2) by (simp add: rnd_scale)
  also have "\<dots> = rnd p n' k'" unfolding assms(1) using \<open>0 < n'\<close> by (simp add: rnd_scale add.commute[of k])
  finally show ?thesis .
qed

end
