(* ===== verification/SfPrim.thy ===== *)
theory SfPrim
  imports SfRound
begin

text \<open>
  The SoftFloat primitives (\<^verbatim>\<open>lib/softfloat/SoftFloat-3e/source\<close>: \<open>include/primitives.h\<close> and the
  \<open>s_*.c\<close> files on integers).  The library is built with \<open>INLINE_LEVEL\<close> 5 and without
  \<open>SOFTFLOAT_FAST_INT64\<close>, \<open>SOFTFLOAT_FAST_DIV64TO32\<close>, \<open>SOFTFLOAT_ROUND_ODD\<close> and exception flags
  (\<^verbatim>\<open>platform.h\<close>, \<^verbatim>\<open>softfloat.prx\<close>), so every function is pure.
\<close>

section \<open>Shifts with jamming\<close>

definition shortShiftRightJam64 :: "u64 \<Rightarrow> nat \<Rightarrow> u64" where
  "shortShiftRightJam64 a dist = drop_bit dist a OR of_bool (a AND (push_bit dist 1 - 1) \<noteq> 0)"

definition shiftRightJam32 :: "u32 \<Rightarrow> u32 \<Rightarrow> u32" where
  "shiftRightJam32 a dist =
     (if dist < 31 then drop_bit (unat dist) a OR of_bool (push_bit (unat (- dist AND 31)) a \<noteq> 0)
      else of_bool (a \<noteq> 0))"

definition shiftRightJam64 :: "u64 \<Rightarrow> u32 \<Rightarrow> u64" where
  "shiftRightJam64 a dist =
     (if dist < 63 then drop_bit (unat dist) a OR of_bool (push_bit (unat (- dist AND 63)) a \<noteq> 0)
      else of_bool (a \<noteq> 0))"

section \<open>Leading zeros\<close>

definition countLeadingZeros8 :: "nat list" where
  "countLeadingZeros8 = [
     8, 7, 6, 6, 5, 5, 5, 5, 4, 4, 4, 4, 4, 4, 4, 4,
     3, 3, 3, 3, 3, 3, 3, 3, 3, 3, 3, 3, 3, 3, 3, 3,
     2, 2, 2, 2, 2, 2, 2, 2, 2, 2, 2, 2, 2, 2, 2, 2,
     2, 2, 2, 2, 2, 2, 2, 2, 2, 2, 2, 2, 2, 2, 2, 2,
     1, 1, 1, 1, 1, 1, 1, 1, 1, 1, 1, 1, 1, 1, 1, 1,
     1, 1, 1, 1, 1, 1, 1, 1, 1, 1, 1, 1, 1, 1, 1, 1,
     1, 1, 1, 1, 1, 1, 1, 1, 1, 1, 1, 1, 1, 1, 1, 1,
     1, 1, 1, 1, 1, 1, 1, 1, 1, 1, 1, 1, 1, 1, 1, 1,
     0, 0, 0, 0, 0, 0, 0, 0, 0, 0, 0, 0, 0, 0, 0, 0,
     0, 0, 0, 0, 0, 0, 0, 0, 0, 0, 0, 0, 0, 0, 0, 0,
     0, 0, 0, 0, 0, 0, 0, 0, 0, 0, 0, 0, 0, 0, 0, 0,
     0, 0, 0, 0, 0, 0, 0, 0, 0, 0, 0, 0, 0, 0, 0, 0,
     0, 0, 0, 0, 0, 0, 0, 0, 0, 0, 0, 0, 0, 0, 0, 0,
     0, 0, 0, 0, 0, 0, 0, 0, 0, 0, 0, 0, 0, 0, 0, 0,
     0, 0, 0, 0, 0, 0, 0, 0, 0, 0, 0, 0, 0, 0, 0, 0,
     0, 0, 0, 0, 0, 0, 0, 0, 0, 0, 0, 0, 0, 0, 0, 0]"

definition countLeadingZeros32 :: "u32 \<Rightarrow> nat" where
  "countLeadingZeros32 a =
     (let (count, a) = (if a < 0x10000 then (16, push_bit 16 a) else (0, a));
          (count, a) = (if a < 0x1000000 then (count + 8, push_bit 8 a) else (count, a))
      in count + countLeadingZeros8 ! unat (drop_bit 24 a))"

definition countLeadingZeros64 :: "u64 \<Rightarrow> nat" where
  "countLeadingZeros64 a =
     (let a32 = ucast (drop_bit 32 a) :: u32;
          (count, a32) = (if a32 = 0 then (32, ucast a) else (0, a32));
          (count, a32) = (if a32 < 0x10000 then (count + 16, push_bit 16 a32) else (count, a32));
          (count, a32) = (if a32 < 0x1000000 then (count + 8, push_bit 8 a32) else (count, a32))
      in count + countLeadingZeros8 ! unat (drop_bit 24 a32))"

section \<open>Reciprocal and product\<close>

definition approxRecip_1k0s :: "u16 list" where
  "approxRecip_1k0s = [65476, 61630, 58211, 55151, 52397, 49904, 47638, 45569, 43671, 41926, 40314, 38822, 37436, 36146, 34942, 33815]"

definition approxRecip_1k1s :: "u16 list" where
  "approxRecip_1k1s = [61681, 54828, 49057, 44151, 39946, 36315, 33157, 30394, 27963, 25812, 23900, 22193, 20662, 19285, 18041, 16913]"

definition approxRecip32_1 :: "u32 \<Rightarrow> u32" where
  "approxRecip32_1 a =
     (let index = unat (drop_bit 27 a AND 0xF);
          eps = ucast (drop_bit 11 a) :: u16;
          r0 = ucast (ucast (approxRecip_1k0s ! index) - drop_bit 20 (ucast (approxRecip_1k1s ! index) * ucast eps) :: u32) :: u16;
          sigma0 = NOT (ucast (drop_bit 7 (ucast r0 * ucast a :: u64))) :: u32;
          r = push_bit 16 (ucast r0) + ucast (drop_bit 24 (ucast r0 * ucast sigma0 :: u64)) :: u32;
          sqrSigma0 = ucast (drop_bit 32 (ucast sigma0 * ucast sigma0 :: u64)) :: u32
      in r + ucast (drop_bit 48 (ucast r * ucast sqrSigma0 :: u64)))"

text \<open>The four words of the product, least significant first (\<open>indexWord\<close> on a little-endian target).\<close>

definition mul64To128M :: "u64 \<Rightarrow> u64 \<Rightarrow> u32 \<times> u32 \<times> u32 \<times> u32" where
  "mul64To128M a b =
     (let a32 = ucast (drop_bit 32 a) :: u32; a0 = ucast a :: u32;
          b32 = ucast (drop_bit 32 b) :: u32; b0 = ucast b :: u32;
          z0 = ucast a0 * ucast b0 :: u64;
          mid1 = ucast a32 * ucast b0 :: u64;
          mid = mid1 + ucast a0 * ucast b32;
          z64 = ucast a32 * ucast b32 + (push_bit 32 (of_bool (mid < mid1)) OR drop_bit 32 mid);
          mid = push_bit 32 mid;
          z0 = z0 + mid;
          z64 = z64 + of_bool (z0 < mid)
      in (ucast z0, ucast (drop_bit 32 z0), ucast z64, ucast (drop_bit 32 z64)))"

section \<open>The values of the primitives\<close>

fun clz_ok :: "int \<Rightarrow> nat list \<Rightarrow> bool" where
  "clz_ok i [] = True"
| "clz_ok i (e # es) \<longleftrightarrow> e = 8 - nbits (nat i) \<and> clz_ok (i + 1) es"

lemma clz_ok_nth: "clz_ok i es \<Longrightarrow> n < length es \<Longrightarrow> es ! n = 8 - nbits (nat (i + int n))"
proof (induction es arbitrary: i n)
  case (Cons e es)
  show ?case
  proof (cases n)
    case (Suc m)
    then show ?thesis using Cons.prems Cons.IH[of "i + 1" m] by (simp add: add.assoc)
  qed (use Cons.prems in simp)
qed simp

lemma nbits_numeral: "nbits (numeral k) = Suc (nbits (numeral k div 2))" "nbits (Suc 0) = 1"
  by (simp_all add: nbits.simps)

lemma clz8_ok: "clz_ok 0 countLeadingZeros8"
  by (simp add: countLeadingZeros8_def nbits_numeral)

lemma length_clz8: "length countLeadingZeros8 = 256"
  by (simp add: countLeadingZeros8_def)

lemma clz8_value: "n < 256 \<Longrightarrow> countLeadingZeros8 ! n = 8 - nbits n"
  using clz_ok_nth[OF clz8_ok, of n] by (simp add: length_clz8)

lemma clz8_top: "a < 4294967296 \<Longrightarrow> countLeadingZeros8 ! (a div 16777216) = 8 - nbits (a div 16777216)"
  by (rule clz8_value) (simp add: less_mult_imp_div_less)

lemma nbits_div_num: "2 ^ d \<le> n \<Longrightarrow> m = n div 2 ^ d \<Longrightarrow> nbits m = nbits n - d"
  using nbits_div by simp

lemma clz32_value: "countLeadingZeros32 a = 32 - nbits (unat a)"
proof -
  let ?a = "unat a"
  have a: "?a < 4294967296" using unsigned_less[of a] by simp
  have lt: "a < 0x10000 \<longleftrightarrow> ?a < 65536" by (simp add: word_less_nat_alt)
  have p16: "unat (push_bit 16 a) = ?a * 65536" if "?a < 65536"
    using that by (simp add: unat_push_bit_mod)
  have p24: "unat (push_bit 24 a) = ?a * 16777216" if "?a < 256"
    using that by (simp add: unat_push_bit_mod)
  have p8: "unat (push_bit 8 b) = unat b * 256" if "unat b < 16777216" for b :: u32
    using that by (simp add: unat_push_bit_mod)
  have ltb: "b < 0x1000000 \<longleftrightarrow> unat b < 16777216" for b :: u32 by (simp add: word_less_nat_alt)
  have top: "unat (drop_bit 24 b) = unat b div 16777216" for b :: u32 by (simp add: unat_drop_bit_div)
  have n: "nbits ?a \<le> 32" using nbits_le[of ?a 32] a by simp
  consider "?a < 256" | "256 \<le> ?a" "?a < 65536" | "65536 \<le> ?a" "?a < 16777216" | "16777216 \<le> ?a" by linarith
  then show ?thesis
  proof cases
    case 1
    then have "countLeadingZeros32 a = 24 + countLeadingZeros8 ! ?a"
      by (simp add: countLeadingZeros32_def Let_def lt ltb p16 p8 p24 top)
    then show ?thesis using clz8_value[OF 1] nbits_le[of ?a 8] 1 by simp
  next
    case 2
    then have "countLeadingZeros32 a = 16 + countLeadingZeros8 ! (?a * 65536 div 16777216)"
      by (simp add: countLeadingZeros32_def Let_def lt ltb p16 p8 top)
    moreover have "?a * 65536 div 16777216 = ?a div 2 ^ 8"
      using div_mult_mult2[of 65536 ?a 256] by simp
    moreover have "?a div 2 ^ 8 < 256" using 2 by simp
    ultimately show ?thesis using clz8_value[of "?a div 2 ^ 8"] nbits_div_num[of 8 ?a] nbits_le[of ?a 16] nbits_le[of ?a 8] 2 n by simp
  next
    case 3
    then have "countLeadingZeros32 a = 8 + countLeadingZeros8 ! (?a * 256 div 16777216)"
      by (simp add: countLeadingZeros32_def Let_def lt ltb p8 top)
    moreover have "?a * 256 div 16777216 = ?a div 2 ^ 16"
      using div_mult_mult2[of 256 ?a 65536] by simp
    moreover have "?a div 2 ^ 16 < 256" using 3 by simp
    ultimately show ?thesis using clz8_value[of "?a div 2 ^ 16"] nbits_div_num[of 16 ?a] nbits_le[of ?a 24] nbits_le[of ?a 16] 3 n by simp
  next
    case 4
    then have "countLeadingZeros32 a = countLeadingZeros8 ! (?a div 2 ^ 24)"
      by (simp add: countLeadingZeros32_def Let_def lt ltb top)
    moreover have "?a div 2 ^ 24 < 256" using a by simp
    ultimately show ?thesis using clz8_value[of "?a div 2 ^ 24"] nbits_div_num[of 24 ?a] nbits_le[of ?a 24] 4 n by simp
  qed
qed

lemma clz64_value: "countLeadingZeros64 a = 64 - nbits (unat a)"
proof -
  let ?h = "ucast (drop_bit 32 a) :: u32"
  have h: "unat ?h = unat a div 2 ^ 32"
  proof -
    have "unat a div 2 ^ 32 < 2 ^ 32" using unsigned_less[of a, where 'a = nat] by (simp add: less_mult_imp_div_less)
    then show ?thesis by (simp add: unsigned_ucast_eq take_bit_nat_eq_self unat_drop_bit_div)
  qed
  show ?thesis
  proof (cases "?h = 0")
    case True
    then have "unat a < 2 ^ 32" using h by simp
    then have l: "unat (ucast a :: u32) = unat a" by (simp add: unsigned_ucast_eq take_bit_nat_eq_self)
    have "countLeadingZeros64 a = 32 + countLeadingZeros32 (ucast a)"
      using True by (simp add: countLeadingZeros64_def countLeadingZeros32_def Let_def)
    then show ?thesis unfolding clz32_value l using nbits_le[of "unat a" 32] \<open>unat a < 2 ^ 32\<close> by simp
  next
    case False
    then have "2 ^ 32 \<le> unat a" using h by (metis div_less not_less unat_eq_zero)
    then have "nbits (unat ?h) = nbits (unat a) - 32" unfolding h by (intro nbits_div_num) simp_all
    moreover have "countLeadingZeros64 a = countLeadingZeros32 ?h"
      using False by (simp add: countLeadingZeros64_def countLeadingZeros32_def Let_def)
    moreover have "32 < nbits (unat a)" using nbits_le[of "unat a" 32] \<open>2 ^ 32 \<le> unat a\<close> by simp
    ultimately show ?thesis unfolding clz32_value by simp
  qed
qed


lemma unat_or_bool: "unat (x OR of_bool b) = (if b \<and> even (unat x) then Suc (unat x) else unat (x :: 'a::len word))"
proof (cases b)
  case True
  then have "x OR of_bool b = x + of_bool (even x)" by (simp add: or_one_eq)
  moreover have ev: "even x \<longleftrightarrow> even (unat x)" by (rule even_unat)
  moreover have "unat (x + 1) = Suc (unat x)" if "even x"
  proof -
    have "unat x \<noteq> 2 ^ LENGTH('a) - 1" using that ev by (auto simp: even_diff_nat)
    then have "unat x + 1 < 2 ^ LENGTH('a)" using unsigned_less[of x, where 'a = nat] by linarith
    then show ?thesis by (simp add: unat_plus_if')
  qed
  ultimately show ?thesis using True by auto
qed simp

lemma unat_and_mask: "unat (a AND (push_bit d 1 - 1)) = unat (a :: 'a::len word) mod 2 ^ d"
proof -
  have "push_bit d 1 - 1 = (mask d :: 'a word)" by (simp add: mask_eq_exp_minus_1 push_bit_eq_mult)
  then show ?thesis by (simp only: unat_and_low)
qed

lemma shortShiftRightJam64_value: "unat (shortShiftRightJam64 a d) = jam (unat a) d"
proof -
  have "a AND (push_bit d 1 - 1) \<noteq> 0 \<longleftrightarrow> unat a mod 2 ^ d \<noteq> 0"
    by (metis unat_and_mask unat_eq_zero)
  then show ?thesis by (simp add: shortShiftRightJam64_def unat_or_bool unat_drop_bit_div jam_def Let_def)
qed

text \<open>The bits a shift to the left by \<open>- d\<close> keeps are the low \<open>d\<close> ones.\<close>

lemma push_neg_zero:
  fixes a :: "'a::len word"
  assumes "d < LENGTH('a)" "0 < d"
  shows "push_bit (LENGTH('a) - d) a = 0 \<longleftrightarrow> unat a mod 2 ^ d = 0"
proof -
  have "unat (push_bit (LENGTH('a) - d) a) = unat a * 2 ^ (LENGTH('a) - d) mod (2 ^ d * 2 ^ (LENGTH('a) - d))"
    using assms by (simp add: unat_push_bit_mod flip: power_add)
  also have "\<dots> = unat a mod 2 ^ d * 2 ^ (LENGTH('a) - d)" by (simp only: mult_mod_left)
  finally show ?thesis by (metis mult_is_0 power_not_zero unat_eq_zero zero_neq_numeral)
qed

lemma jam_large:
  assumes "n < 2 ^ Suc d"
  shows "jam n d = of_bool (n \<noteq> 0)"
proof (cases "n < 2 ^ d")
  case False
  then have "n div 2 ^ d = 1" using assms by (intro div_nat_eqI) simp_all
  moreover have "n \<noteq> 0" using False by (metis zero_less_numeral zero_less_power)
  ultimately show ?thesis by (simp add: jam_def)
qed (simp add: jam_def)

lemma neg_and_31: "0 < unat (d :: u32) \<Longrightarrow> unat d < 31 \<Longrightarrow> unat (- d AND 31) = 32 - unat d"
proof -
  assume d: "0 < unat d" "unat d < 31"
  have "unat (- d AND 31) = unat (- d) mod 32"
    using unat_and_low[of "- d" 5] by (simp add: mask_eq_exp_minus_1)
  moreover have "unat (- d) = 4294967296 - unat d" using d unat_sub_if'[of 0 d] by simp
  moreover have "(4294967296 - unat d) mod 32 = 32 - unat d"
  proof -
    have "4294967296 - unat d = 134217727 * 32 + (32 - unat d)" using d by simp
    then show ?thesis using d by (simp only: mod_mult_self3) simp
  qed
  ultimately show ?thesis by simp
qed

lemma shiftRightJam32_value:
  assumes "0 < unat d"
  shows "unat (shiftRightJam32 a d) = jam (unat a) (unat d)"
proof (cases "unat d < 31")
  case True
  have "push_bit (32 - unat d) a = 0 \<longleftrightarrow> unat a mod 2 ^ unat d = 0"
    using push_neg_zero[of "unat d" a] assms True by simp
  moreover have "d < 31" using True by (simp add: word_less_nat_alt)
  ultimately show ?thesis using True assms
    by (simp add: shiftRightJam32_def neg_and_31 unat_or_bool unat_drop_bit_div jam_def Let_def)
next
  case False
  then have "unat a < 2 ^ Suc (unat d)"
    by (intro order_less_le_trans[OF unsigned_less[of a]] power_increasing) simp_all
  then show ?thesis using False jam_large[of "unat a" "unat d"]
    by (simp add: shiftRightJam32_def word_less_nat_alt unat_eq_zero)
qed

lemma neg_and_63: "0 < unat (d :: u32) \<Longrightarrow> unat d < 63 \<Longrightarrow> unat (- d AND 63) = 64 - unat d"
proof -
  assume d: "0 < unat d" "unat d < 63"
  have "unat (- d AND 63) = unat (- d) mod 64"
    using unat_and_low[of "- d" 6] by (simp add: mask_eq_exp_minus_1)
  moreover have "unat (- d) = 4294967296 - unat d" using d unat_sub_if'[of 0 d] by simp
  moreover have "(4294967296 - unat d) mod 64 = 64 - unat d"
  proof -
    have "4294967296 - unat d = 67108863 * 64 + (64 - unat d)" using d by simp
    then show ?thesis using d by (simp only: mod_mult_self3) simp
  qed
  ultimately show ?thesis by simp
qed

lemma shiftRightJam64_value:
  assumes "0 < unat d"
  shows "unat (shiftRightJam64 a d) = jam (unat a) (unat d)"
proof (cases "unat d < 63")
  case True
  have "push_bit (64 - unat d) a = 0 \<longleftrightarrow> unat a mod 2 ^ unat d = 0"
    using push_neg_zero[of "unat d" a] assms True by simp
  moreover have "d < 63" using True by (simp add: word_less_nat_alt)
  ultimately show ?thesis using True assms
    by (simp add: shiftRightJam64_def neg_and_63 unat_or_bool unat_drop_bit_div jam_def Let_def)
next
  case False
  then have "unat a < 2 ^ Suc (unat d)"
    by (intro order_less_le_trans[OF unsigned_less[of a]] power_increasing) simp_all
  then show ?thesis using False jam_large[of "unat a" "unat d"]
    by (simp add: shiftRightJam64_def word_less_nat_alt unat_eq_zero)
qed

end
