(* ===== verification/SfF32.thy ===== *)
theory SfF32
  imports SfPrim
begin

text \<open>
  Single precision, from \<^verbatim>\<open>lib/softfloat/SoftFloat-3e/source\<close>: a \<open>float32_t\<close> is its bit pattern (the unions
  \<open>ui32_f32\<close>), exponents are integers, of which only values from about -400 to 700 occur, and the jumps
  to the labels at the end of a function are its branches.  The rounding mode is the constant
  \<open>softfloat_round_near_even\<close> of \<^verbatim>\<open>include/softfloat.h\<close>.
\<close>

section \<open>Fields\<close>

definition softfloat_round_near_even :: u32 where "softfloat_round_near_even = 0"
definition softfloat_round_minMag :: u32 where "softfloat_round_minMag = 1"
definition softfloat_round_min :: u32 where "softfloat_round_min = 2"
definition softfloat_round_max :: u32 where "softfloat_round_max = 3"
definition softfloat_round_near_maxMag :: u32 where "softfloat_round_near_maxMag = 4"
definition softfloat_roundingMode :: u32 where "softfloat_roundingMode = softfloat_round_near_even"

lemmas rounding_modes = softfloat_round_near_even_def softfloat_round_minMag_def softfloat_round_min_def
  softfloat_round_max_def softfloat_round_near_maxMag_def softfloat_roundingMode_def

definition signF32UI :: "u32 \<Rightarrow> bool" where
  "signF32UI a \<longleftrightarrow> drop_bit 31 a \<noteq> 0"

definition expF32UI :: "u32 \<Rightarrow> int" where
  "expF32UI a = uint (drop_bit 23 a AND 0xFF)"

definition fracF32UI :: "u32 \<Rightarrow> u32" where
  "fracF32UI a = a AND 0x007FFFFF"

definition packToF32UI :: "bool \<Rightarrow> int \<Rightarrow> u32 \<Rightarrow> u32" where
  "packToF32UI sign exp sig = push_bit 31 (of_bool sign) + push_bit 23 (word_of_int exp) + sig"

definition isNaNF32UI :: "u32 \<Rightarrow> bool" where
  "isNaNF32UI a \<longleftrightarrow> NOT a AND 0x7F800000 = 0 \<and> a AND 0x007FFFFF \<noteq> 0"

definition defaultNaNF32UI :: u32 where "defaultNaNF32UI = 0x7FC00000"

definition propagateNaNF32UI :: "u32 \<Rightarrow> u32 \<Rightarrow> u32" where
  "propagateNaNF32UI uiA uiB = defaultNaNF32UI"

definition normSubnormalF32Sig :: "u32 \<Rightarrow> int \<times> u32" where
  "normSubnormalF32Sig sig =
     (let shiftDist = int (countLeadingZeros32 sig) - 8
      in (1 - shiftDist, push_bit (nat shiftDist) sig))"

section \<open>Rounding and packing\<close>

definition roundPackToF32 :: "bool \<Rightarrow> int \<Rightarrow> u32 \<Rightarrow> u32" where
  "roundPackToF32 sign exp sig =
     (let roundNearEven = (softfloat_roundingMode = softfloat_round_near_even);
          roundIncrement =
            (if \<not> roundNearEven \<and> softfloat_roundingMode \<noteq> softfloat_round_near_maxMag
             then (if softfloat_roundingMode = (if sign then softfloat_round_min else softfloat_round_max)
                   then 0x7F else 0)
             else 0x40);
          overflow = ((exp < 0 \<or> 0xFD \<le> exp) \<and> \<not> exp < 0 \<and> (0xFD < exp \<or> 0x80000000 \<le> sig + roundIncrement));
          (exp, sig) = (if exp < 0 then (0, shiftRightJam32 sig (word_of_int (- exp))) else (exp, sig));
          roundBits = sig AND 0x7F
      in if overflow then packToF32UI sign 0xFF 0 - of_bool (roundIncrement = 0)
         else
           let sig = drop_bit 7 (sig + roundIncrement);
               sig = sig AND NOT (of_bool (roundBits XOR 0x40 = 0 \<and> roundNearEven));
               exp = (if sig = 0 then 0 else exp)
           in packToF32UI sign exp sig)"

definition normRoundPackToF32 :: "bool \<Rightarrow> int \<Rightarrow> u32 \<Rightarrow> u32" where
  "normRoundPackToF32 sign exp sig =
     (let shiftDist = int (countLeadingZeros32 sig) - 1;
          exp = exp - shiftDist
      in if 7 \<le> shiftDist \<and> 0 \<le> exp \<and> exp < 0xFD
         then packToF32UI sign (if sig \<noteq> 0 then exp else 0) (push_bit (nat (shiftDist - 7)) sig)
         else roundPackToF32 sign exp (push_bit (nat shiftDist) sig))"

section \<open>Addition and subtraction\<close>

definition addMagsF32 :: "u32 \<Rightarrow> u32 \<Rightarrow> u32" where
  "addMagsF32 uiA uiB =
     (let expA = expF32UI uiA; sigA = fracF32UI uiA; expB = expF32UI uiB; sigB = fracF32UI uiB;
          expDiff = expA - expB; signZ = signF32UI uiA
      in if expDiff = 0 then
           if expA = 0 then uiA + sigB
           else if expA = 0xFF then (if sigA OR sigB \<noteq> 0 then propagateNaNF32UI uiA uiB else uiA)
           else
             let sigZ = 0x01000000 + sigA + sigB
             in if sigZ AND 1 = 0 \<and> expA < 0xFE then packToF32UI signZ expA (drop_bit 1 sigZ)
                else roundPackToF32 signZ expA (push_bit 6 sigZ)
         else
           let sigA = push_bit 6 sigA; sigB = push_bit 6 sigB
           in if expDiff < 0 then
                if expB = 0xFF then
                  (if sigB \<noteq> 0 then propagateNaNF32UI uiA uiB else packToF32UI signZ 0xFF 0)
                else
                  let sigA = shiftRightJam32 (sigA + (if expA \<noteq> 0 then 0x20000000 else sigA)) (word_of_int (- expDiff));
                      sigZ = 0x20000000 + sigA + sigB;
                      (expZ, sigZ) = (if sigZ < 0x40000000 then (expB - 1, push_bit 1 sigZ) else (expB, sigZ))
                  in roundPackToF32 signZ expZ sigZ
              else
                if expA = 0xFF then (if sigA \<noteq> 0 then propagateNaNF32UI uiA uiB else uiA)
                else
                  let sigB = shiftRightJam32 (sigB + (if expB \<noteq> 0 then 0x20000000 else sigB)) (word_of_int expDiff);
                      sigZ = 0x20000000 + sigA + sigB;
                      (expZ, sigZ) = (if sigZ < 0x40000000 then (expA - 1, push_bit 1 sigZ) else (expA, sigZ))
                  in roundPackToF32 signZ expZ sigZ)"

text \<open>\<open>sigDiff\<close> is an \<open>int_fast32_t\<close>.\<close>

definition subMagsF32 :: "u32 \<Rightarrow> u32 \<Rightarrow> u32" where
  "subMagsF32 uiA uiB =
     (let expA = expF32UI uiA; sigA = fracF32UI uiA; expB = expF32UI uiB; sigB = fracF32UI uiB;
          expDiff = expA - expB
      in if expDiff = 0 then
           if expA = 0xFF then (if sigA OR sigB \<noteq> 0 then propagateNaNF32UI uiA uiB else defaultNaNF32UI)
           else
             let sigDiff = sigA - sigB
             in if sigDiff = 0 then packToF32UI (softfloat_roundingMode = softfloat_round_min) 0 0
                else
                  let expA = (if expA \<noteq> 0 then expA - 1 else expA);
                      signZ = signF32UI uiA;
                      (signZ, sigDiff) = (if sint sigDiff < 0 then (\<not> signZ, - sigDiff) else (signZ, sigDiff));
                      shiftDist = int (countLeadingZeros32 sigDiff) - 8;
                      expZ = expA - shiftDist;
                      (shiftDist, expZ) = (if expZ < 0 then (expA, 0) else (shiftDist, expZ))
                  in packToF32UI signZ expZ (push_bit (nat shiftDist) sigDiff)
         else
           let signZ = signF32UI uiA; sigA = push_bit 7 sigA; sigB = push_bit 7 sigB
           in if expDiff < 0 then
                let signZ = (\<not> signZ)
                in if expB = 0xFF then
                     (if sigB \<noteq> 0 then propagateNaNF32UI uiA uiB else packToF32UI signZ 0xFF 0)
                   else
                     let expZ = expB - 1; sigX = sigB OR 0x40000000;
                         sigY = sigA + (if expA \<noteq> 0 then 0x40000000 else sigA)
                     in normRoundPackToF32 signZ expZ (sigX - shiftRightJam32 sigY (word_of_int (- expDiff)))
              else
                if expA = 0xFF then (if sigA \<noteq> 0 then propagateNaNF32UI uiA uiB else uiA)
                else
                  let expZ = expA - 1; sigX = sigA OR 0x40000000;
                      sigY = sigB + (if expB \<noteq> 0 then 0x40000000 else sigB)
                  in normRoundPackToF32 signZ expZ (sigX - shiftRightJam32 sigY (word_of_int expDiff)))"

definition f32_add :: "u32 \<Rightarrow> u32 \<Rightarrow> u32" where
  "f32_add uiA uiB = (if signF32UI (uiA XOR uiB) then subMagsF32 uiA uiB else addMagsF32 uiA uiB)"

definition f32_sub :: "u32 \<Rightarrow> u32 \<Rightarrow> u32" where
  "f32_sub uiA uiB = (if signF32UI (uiA XOR uiB) then addMagsF32 uiA uiB else subMagsF32 uiA uiB)"

section \<open>Multiplication and division\<close>

text \<open>The operand \<open>0\<close> has no normalised form.\<close>

definition normF32 :: "int \<Rightarrow> u32 \<Rightarrow> (int \<times> u32) option" where
  "normF32 exp sig =
     (if exp = 0 then if sig = 0 then None else Some (normSubnormalF32Sig sig) else Some (exp, sig))"

definition f32_mul :: "u32 \<Rightarrow> u32 \<Rightarrow> u32" where
  "f32_mul uiA uiB =
     (let signA = signF32UI uiA; expA = expF32UI uiA; sigA = fracF32UI uiA;
          signB = signF32UI uiB; expB = expF32UI uiB; sigB = fracF32UI uiB;
          signZ = (signA \<noteq> signB);
          infArg = (\<lambda>magBits. if magBits = 0 then defaultNaNF32UI else packToF32UI signZ 0xFF 0)
      in if expA = 0xFF then
           if sigA \<noteq> 0 \<or> expB = 0xFF \<and> sigB \<noteq> 0 then propagateNaNF32UI uiA uiB
           else infArg (word_of_int expB OR sigB)
         else if expB = 0xFF then
           if sigB \<noteq> 0 then propagateNaNF32UI uiA uiB else infArg (word_of_int expA OR sigA)
         else
           case normF32 expA sigA of
             None \<Rightarrow> packToF32UI signZ 0 0
           | Some (expA, sigA) \<Rightarrow>
               (case normF32 expB sigB of
                  None \<Rightarrow> packToF32UI signZ 0 0
                | Some (expB, sigB) \<Rightarrow>
                    let expZ = expA + expB - 0x7F;
                        sigA = push_bit 7 (sigA OR 0x00800000);
                        sigB = push_bit 8 (sigB OR 0x00800000);
                        sigZ = ucast (shortShiftRightJam64 (ucast sigA * ucast sigB) 32);
                        (expZ, sigZ) = (if sigZ < 0x40000000 then (expZ - 1, push_bit 1 sigZ) else (expZ, sigZ))
                    in roundPackToF32 signZ expZ sigZ))"

text \<open>The quotient of the significands, with \<open>2\<^sup>3\<^sup>1 \<le> sigB\<close> and the last bit sticky.\<close>

definition f32_div_sig :: "u32 \<Rightarrow> u32 \<Rightarrow> u32" where
  "f32_div_sig sigA sigB =
     (let sigZ = ucast (drop_bit 32 (ucast sigA * ucast (approxRecip32_1 sigB) :: u64)) + 2
      in if sigZ AND 0x3F < 2 then
           let sigZ = sigZ AND NOT 3;
               rem = push_bit 32 (ucast sigA) - ucast (push_bit 1 sigZ) * ucast sigB :: u64
           in if rem AND 0x8000000000000000 \<noteq> 0 then sigZ - 4
              else if rem \<noteq> 0 then sigZ OR 1 else sigZ
         else sigZ)"

definition f32_div :: "u32 \<Rightarrow> u32 \<Rightarrow> u32" where
  "f32_div uiA uiB =
     (let signA = signF32UI uiA; expA = expF32UI uiA; sigA = fracF32UI uiA;
          signB = signF32UI uiB; expB = expF32UI uiB; sigB = fracF32UI uiB;
          signZ = (signA \<noteq> signB);
          infinity = packToF32UI signZ 0xFF 0; zero = packToF32UI signZ 0 0
      in if expA = 0xFF then
           if sigA \<noteq> 0 then propagateNaNF32UI uiA uiB
           else if expB = 0xFF then (if sigB \<noteq> 0 then propagateNaNF32UI uiA uiB else defaultNaNF32UI)
           else infinity
         else if expB = 0xFF then (if sigB \<noteq> 0 then propagateNaNF32UI uiA uiB else zero)
         else
           case normF32 expB sigB of
             None \<Rightarrow> if word_of_int expA OR sigA = 0 then defaultNaNF32UI else infinity
           | Some (expB, sigB) \<Rightarrow>
               (case normF32 expA sigA of
                  None \<Rightarrow> zero
                | Some (expA, sigA) \<Rightarrow>
                    let expZ = expA - expB + 0x7E;
                        sigA = sigA OR 0x00800000; sigB = sigB OR 0x00800000;
                        (expZ, sigA) = (if sigA < sigB then (expZ - 1, push_bit 8 sigA) else (expZ, push_bit 7 sigA))
                    in roundPackToF32 signZ expZ (f32_div_sig sigA (push_bit 8 sigB))))"

section \<open>Comparison\<close>

definition f32_eq :: "u32 \<Rightarrow> u32 \<Rightarrow> bool" where
  "f32_eq uiA uiB \<longleftrightarrow>
     (if isNaNF32UI uiA \<or> isNaNF32UI uiB then False else uiA = uiB \<or> push_bit 1 (uiA OR uiB) = 0)"

definition f32_le :: "u32 \<Rightarrow> u32 \<Rightarrow> bool" where
  "f32_le uiA uiB \<longleftrightarrow>
     (if isNaNF32UI uiA \<or> isNaNF32UI uiB then False
      else if signF32UI uiA \<noteq> signF32UI uiB then signF32UI uiA \<or> push_bit 1 (uiA OR uiB) = 0
      else uiA = uiB \<or> signF32UI uiA \<noteq> (uiA < uiB))"

definition f32_lt :: "u32 \<Rightarrow> u32 \<Rightarrow> bool" where
  "f32_lt uiA uiB \<longleftrightarrow>
     (if isNaNF32UI uiA \<or> isNaNF32UI uiB then False
      else if signF32UI uiA \<noteq> signF32UI uiB then signF32UI uiA \<and> push_bit 1 (uiA OR uiB) \<noteq> 0
      else uiA \<noteq> uiB \<and> signF32UI uiA \<noteq> (uiA < uiB))"

section \<open>Rounding to an integer\<close>

definition f32_roundToInt :: "u32 \<Rightarrow> u32 \<Rightarrow> u32" where
  "f32_roundToInt a roundingMode =
     (let exp = expF32UI a
      in if exp \<le> 0x7E then
           if push_bit 1 a = 0 then a
           else
             let uiZ = a AND packToF32UI True 0 0;
                 near = (if exp = 0x7E then uiZ OR packToF32UI False 0x7F 0 else uiZ)
             in if roundingMode = softfloat_round_near_even then (if fracF32UI a = 0 then uiZ else near)
                else if roundingMode = softfloat_round_near_maxMag then near
                else if roundingMode = softfloat_round_min then (if uiZ \<noteq> 0 then packToF32UI True 0x7F 0 else uiZ)
                else if roundingMode = softfloat_round_max then (if uiZ = 0 then packToF32UI False 0x7F 0 else uiZ)
                else uiZ
         else if 0x96 \<le> exp then
           if exp = 0xFF \<and> fracF32UI a \<noteq> 0 then propagateNaNF32UI a 0 else a
         else
           let lastBitMask = push_bit (nat (0x96 - exp)) 1;
               roundBitsMask = lastBitMask - 1;
               uiZ =
                 (if roundingMode = softfloat_round_near_maxMag then a + drop_bit 1 lastBitMask
                  else if roundingMode = softfloat_round_near_even then
                    let z = a + drop_bit 1 lastBitMask
                    in if z AND roundBitsMask = 0 then z AND NOT lastBitMask else z
                  else if roundingMode = (if signF32UI a then softfloat_round_min else softfloat_round_max)
                  then a + roundBitsMask
                  else a)
           in uiZ AND NOT roundBitsMask)"

end
