(* ===== verification/SfF64.thy ===== *)
theory SfF64
  imports SfF32
begin

text \<open>
  Double precision, the code of \<^verbatim>\<open>lib/softfloat/SoftFloat-3e/source\<close> on \<open>float64_t\<close> bit patterns.  It has the
  plan of single precision with other widths, but it is not a copy of it: the sign of the result of an
  addition is an argument, the sum of equal exponents is always rounded, the product of the significands has
  128 bits, and the quotient is computed in two digits.
\<close>

section \<open>Fields\<close>

definition signF64UI :: "u64 \<Rightarrow> bool" where
  "signF64UI a \<longleftrightarrow> drop_bit 63 a \<noteq> 0"

definition expF64UI :: "u64 \<Rightarrow> int" where
  "expF64UI a = uint (drop_bit 52 a AND 0x7FF)"

definition fracF64UI :: "u64 \<Rightarrow> u64" where
  "fracF64UI a = a AND 0x000FFFFFFFFFFFFF"

definition packToF64UI :: "bool \<Rightarrow> int \<Rightarrow> u64 \<Rightarrow> u64" where
  "packToF64UI sign exp sig = push_bit 63 (of_bool sign) + push_bit 52 (word_of_int exp) + sig"

definition isNaNF64UI :: "u64 \<Rightarrow> bool" where
  "isNaNF64UI a \<longleftrightarrow> NOT a AND 0x7FF0000000000000 = 0 \<and> a AND 0x000FFFFFFFFFFFFF \<noteq> 0"

definition defaultNaNF64UI :: u64 where "defaultNaNF64UI = 0x7FF8000000000000"

definition propagateNaNF64UI :: "u64 \<Rightarrow> u64 \<Rightarrow> u64" where
  "propagateNaNF64UI uiA uiB = defaultNaNF64UI"

definition normSubnormalF64Sig :: "u64 \<Rightarrow> int \<times> u64" where
  "normSubnormalF64Sig sig =
     (let shiftDist = int (countLeadingZeros64 sig) - 11
      in (1 - shiftDist, push_bit (nat shiftDist) sig))"

section \<open>Rounding and packing\<close>

definition roundPackToF64 :: "bool \<Rightarrow> int \<Rightarrow> u64 \<Rightarrow> u64" where
  "roundPackToF64 sign exp sig =
     (let roundNearEven = (softfloat_roundingMode = softfloat_round_near_even);
          roundIncrement =
            (if \<not> roundNearEven \<and> softfloat_roundingMode \<noteq> softfloat_round_near_maxMag
             then (if softfloat_roundingMode = (if sign then softfloat_round_min else softfloat_round_max)
                   then 0x3FF else 0)
             else 0x200);
          special = (0x7FD \<le> exp mod 0x10000);
          tiny = (special \<and> exp < 0);
          overflow = (special \<and> \<not> exp < 0 \<and> (0x7FD < exp \<or> 0x8000000000000000 \<le> sig + roundIncrement));
          (exp, sig) = (if tiny then (0, shiftRightJam64 sig (word_of_int (- exp))) else (exp, sig));
          roundBits = sig AND 0x3FF
      in if overflow then packToF64UI sign 0x7FF 0 - of_bool (roundIncrement = 0)
         else
           let sig = drop_bit 10 (sig + roundIncrement);
               sig = sig AND NOT (of_bool (roundBits XOR 0x200 = 0 \<and> roundNearEven));
               exp = (if sig = 0 then 0 else exp)
           in packToF64UI sign exp sig)"

definition normRoundPackToF64 :: "bool \<Rightarrow> int \<Rightarrow> u64 \<Rightarrow> u64" where
  "normRoundPackToF64 sign exp sig =
     (let shiftDist = int (countLeadingZeros64 sig) - 1;
          exp = exp - shiftDist
      in if 10 \<le> shiftDist \<and> 0 \<le> exp \<and> exp < 0x7FD
         then packToF64UI sign (if sig \<noteq> 0 then exp else 0) (push_bit (nat (shiftDist - 10)) sig)
         else roundPackToF64 sign exp (push_bit (nat shiftDist) sig))"

section \<open>Addition and subtraction\<close>

definition addMagsF64 :: "u64 \<Rightarrow> u64 \<Rightarrow> bool \<Rightarrow> u64" where
  "addMagsF64 uiA uiB signZ =
     (let expA = expF64UI uiA; sigA = fracF64UI uiA; expB = expF64UI uiB; sigB = fracF64UI uiB;
          expDiff = expA - expB
      in if expDiff = 0 then
           if expA = 0 then uiA + sigB
           else if expA = 0x7FF then (if sigA OR sigB \<noteq> 0 then propagateNaNF64UI uiA uiB else uiA)
           else roundPackToF64 signZ expA (push_bit 9 (0x0020000000000000 + sigA + sigB))
         else
           let sigA = push_bit 9 sigA; sigB = push_bit 9 sigB
           in if expDiff < 0 then
                if expB = 0x7FF then
                  (if sigB \<noteq> 0 then propagateNaNF64UI uiA uiB else packToF64UI signZ 0x7FF 0)
                else
                  let sigA = (if expA \<noteq> 0 then sigA + 0x2000000000000000 else push_bit 1 sigA);
                      sigA = shiftRightJam64 sigA (word_of_int (- expDiff));
                      sigZ = 0x2000000000000000 + sigA + sigB;
                      (expZ, sigZ) = (if sigZ < 0x4000000000000000 then (expB - 1, push_bit 1 sigZ) else (expB, sigZ))
                  in roundPackToF64 signZ expZ sigZ
              else
                if expA = 0x7FF then (if sigA \<noteq> 0 then propagateNaNF64UI uiA uiB else uiA)
                else
                  let sigB = (if expB \<noteq> 0 then sigB + 0x2000000000000000 else push_bit 1 sigB);
                      sigB = shiftRightJam64 sigB (word_of_int expDiff);
                      sigZ = 0x2000000000000000 + sigA + sigB;
                      (expZ, sigZ) = (if sigZ < 0x4000000000000000 then (expA - 1, push_bit 1 sigZ) else (expA, sigZ))
                  in roundPackToF64 signZ expZ sigZ)"

definition subMagsF64 :: "u64 \<Rightarrow> u64 \<Rightarrow> bool \<Rightarrow> u64" where
  "subMagsF64 uiA uiB signZ =
     (let expA = expF64UI uiA; sigA = fracF64UI uiA; expB = expF64UI uiB; sigB = fracF64UI uiB;
          expDiff = expA - expB
      in if expDiff = 0 then
           if expA = 0x7FF then (if sigA OR sigB \<noteq> 0 then propagateNaNF64UI uiA uiB else defaultNaNF64UI)
           else
             let sigDiff = sigA - sigB
             in if sigDiff = 0 then packToF64UI (softfloat_roundingMode = softfloat_round_min) 0 0
                else
                  let expA = (if expA \<noteq> 0 then expA - 1 else expA);
                      (signZ, sigDiff) = (if sint sigDiff < 0 then (\<not> signZ, - sigDiff) else (signZ, sigDiff));
                      shiftDist = int (countLeadingZeros64 sigDiff) - 11;
                      expZ = expA - shiftDist;
                      (shiftDist, expZ) = (if expZ < 0 then (expA, 0) else (shiftDist, expZ))
                  in packToF64UI signZ expZ (push_bit (nat shiftDist) sigDiff)
         else
           let sigA = push_bit 10 sigA; sigB = push_bit 10 sigB
           in if expDiff < 0 then
                let signZ = (\<not> signZ)
                in if expB = 0x7FF then
                     (if sigB \<noteq> 0 then propagateNaNF64UI uiA uiB else packToF64UI signZ 0x7FF 0)
                   else
                     let sigA = sigA + (if expA \<noteq> 0 then 0x4000000000000000 else sigA);
                         sigA = shiftRightJam64 sigA (word_of_int (- expDiff));
                         sigB = sigB OR 0x4000000000000000
                     in normRoundPackToF64 signZ (expB - 1) (sigB - sigA)
              else
                if expA = 0x7FF then (if sigA \<noteq> 0 then propagateNaNF64UI uiA uiB else uiA)
                else
                  let sigB = sigB + (if expB \<noteq> 0 then 0x4000000000000000 else sigB);
                      sigB = shiftRightJam64 sigB (word_of_int expDiff);
                      sigA = sigA OR 0x4000000000000000
                  in normRoundPackToF64 signZ (expA - 1) (sigA - sigB))"

definition f64_add :: "u64 \<Rightarrow> u64 \<Rightarrow> u64" where
  "f64_add uiA uiB =
     (let signA = signF64UI uiA; signB = signF64UI uiB
      in if signA = signB then addMagsF64 uiA uiB signA else subMagsF64 uiA uiB signA)"

definition f64_sub :: "u64 \<Rightarrow> u64 \<Rightarrow> u64" where
  "f64_sub uiA uiB =
     (let signA = signF64UI uiA; signB = signF64UI uiB
      in if signA = signB then subMagsF64 uiA uiB signA else addMagsF64 uiA uiB signA)"

section \<open>Multiplication and division\<close>

definition normF64 :: "int \<Rightarrow> u64 \<Rightarrow> (int \<times> u64) option" where
  "normF64 exp sig =
     (if exp = 0 then if sig = 0 then None else Some (normSubnormalF64Sig sig) else Some (exp, sig))"

text \<open>The upper half of the 128-bit product, its last bit sticky for the lower half.\<close>

definition f64_mul_sig :: "u64 \<Rightarrow> u64 \<Rightarrow> u64" where
  "f64_mul_sig sigA sigB =
     (case mul64To128M sigA sigB of
        (w0, w1, w2, w3) \<Rightarrow>
          let sigZ = push_bit 32 (ucast w3) OR ucast w2
          in if w1 \<noteq> 0 \<or> w0 \<noteq> 0 then sigZ OR 1 else sigZ)"

definition f64_mul :: "u64 \<Rightarrow> u64 \<Rightarrow> u64" where
  "f64_mul uiA uiB =
     (let signA = signF64UI uiA; expA = expF64UI uiA; sigA = fracF64UI uiA;
          signB = signF64UI uiB; expB = expF64UI uiB; sigB = fracF64UI uiB;
          signZ = (signA \<noteq> signB);
          infArg = (\<lambda>magBits. if magBits = 0 then defaultNaNF64UI else packToF64UI signZ 0x7FF 0)
      in if expA = 0x7FF then
           if sigA \<noteq> 0 \<or> expB = 0x7FF \<and> sigB \<noteq> 0 then propagateNaNF64UI uiA uiB
           else infArg (word_of_int expB OR sigB)
         else if expB = 0x7FF then
           if sigB \<noteq> 0 then propagateNaNF64UI uiA uiB else infArg (word_of_int expA OR sigA)
         else
           case normF64 expA sigA of
             None \<Rightarrow> packToF64UI signZ 0 0
           | Some (expA, sigA) \<Rightarrow>
               (case normF64 expB sigB of
                  None \<Rightarrow> packToF64UI signZ 0 0
                | Some (expB, sigB) \<Rightarrow>
                    let expZ = expA + expB - 0x3FF;
                        sigA = push_bit 10 (sigA OR 0x0010000000000000);
                        sigB = push_bit 11 (sigB OR 0x0010000000000000);
                        sigZ = f64_mul_sig sigA sigB;
                        (expZ, sigZ) = (if sigZ < 0x4000000000000000 then (expZ - 1, push_bit 1 sigZ) else (expZ, sigZ))
                    in roundPackToF64 signZ expZ sigZ))"

text \<open>The quotient of the significands, with \<open>2\<^sup>6\<^sup>3 \<le> sigB\<close> and the last bit sticky: a first digit \<open>sig32Z\<close> of
  32 bits, the remainder it leaves, and a second digit \<open>q\<close>, which is corrected when the bits below the rounding
  position are small.\<close>

definition f64_div_rem :: "u64 \<Rightarrow> u32 \<Rightarrow> u64 \<Rightarrow> u64" where
  "f64_div_rem rem digit sigB =
     (let doubleTerm = push_bit 1 digit
      in push_bit 28 (rem - ucast doubleTerm * ucast (ucast (drop_bit 32 sigB) :: u32))
         - ucast doubleTerm * ucast (drop_bit 4 (ucast sigB :: u32)))"

definition f64_div_sig :: "u64 \<Rightarrow> u64 \<Rightarrow> u64" where
  "f64_div_sig sigA sigB =
     (let recip32 = approxRecip32_1 (ucast (drop_bit 32 sigB)) - 2;
          sig32Z = ucast (drop_bit 32 (ucast (ucast (drop_bit 32 sigA) :: u32) * ucast recip32 :: u64)) :: u32;
          rem = f64_div_rem sigA sig32Z sigB;
          q = ucast (drop_bit 32 (ucast (ucast (drop_bit 32 rem) :: u32) * ucast recip32 :: u64)) + 4 :: u32;
          sigZ = push_bit 32 (ucast sig32Z) + push_bit 4 (ucast q)
      in if sigZ AND 0x1FF < 64 then
           let q = q AND NOT 7;
               sigZ = sigZ AND NOT 0x7F;
               rem = f64_div_rem rem q sigB
           in if rem AND 0x8000000000000000 \<noteq> 0 then sigZ - 128
              else if rem \<noteq> 0 then sigZ OR 1 else sigZ
         else sigZ)"

definition f64_div :: "u64 \<Rightarrow> u64 \<Rightarrow> u64" where
  "f64_div uiA uiB =
     (let signA = signF64UI uiA; expA = expF64UI uiA; sigA = fracF64UI uiA;
          signB = signF64UI uiB; expB = expF64UI uiB; sigB = fracF64UI uiB;
          signZ = (signA \<noteq> signB);
          infinity = packToF64UI signZ 0x7FF 0; zero = packToF64UI signZ 0 0
      in if expA = 0x7FF then
           if sigA \<noteq> 0 then propagateNaNF64UI uiA uiB
           else if expB = 0x7FF then (if sigB \<noteq> 0 then propagateNaNF64UI uiA uiB else defaultNaNF64UI)
           else infinity
         else if expB = 0x7FF then (if sigB \<noteq> 0 then propagateNaNF64UI uiA uiB else zero)
         else
           case normF64 expB sigB of
             None \<Rightarrow> if word_of_int expA OR sigA = 0 then defaultNaNF64UI else infinity
           | Some (expB, sigB) \<Rightarrow>
               (case normF64 expA sigA of
                  None \<Rightarrow> zero
                | Some (expA, sigA) \<Rightarrow>
                    let expZ = expA - expB + 0x3FE;
                        sigA = sigA OR 0x0010000000000000; sigB = sigB OR 0x0010000000000000;
                        (expZ, sigA) = (if sigA < sigB then (expZ - 1, push_bit 11 sigA) else (expZ, push_bit 10 sigA))
                    in roundPackToF64 signZ expZ (f64_div_sig sigA (push_bit 11 sigB))))"

section \<open>Comparison\<close>

definition f64_eq :: "u64 \<Rightarrow> u64 \<Rightarrow> bool" where
  "f64_eq uiA uiB \<longleftrightarrow>
     (if isNaNF64UI uiA \<or> isNaNF64UI uiB then False
      else uiA = uiB \<or> (uiA OR uiB) AND 0x7FFFFFFFFFFFFFFF = 0)"

definition f64_le :: "u64 \<Rightarrow> u64 \<Rightarrow> bool" where
  "f64_le uiA uiB \<longleftrightarrow>
     (if isNaNF64UI uiA \<or> isNaNF64UI uiB then False
      else if signF64UI uiA \<noteq> signF64UI uiB then signF64UI uiA \<or> (uiA OR uiB) AND 0x7FFFFFFFFFFFFFFF = 0
      else uiA = uiB \<or> signF64UI uiA \<noteq> (uiA < uiB))"

definition f64_lt :: "u64 \<Rightarrow> u64 \<Rightarrow> bool" where
  "f64_lt uiA uiB \<longleftrightarrow>
     (if isNaNF64UI uiA \<or> isNaNF64UI uiB then False
      else if signF64UI uiA \<noteq> signF64UI uiB then signF64UI uiA \<and> (uiA OR uiB) AND 0x7FFFFFFFFFFFFFFF \<noteq> 0
      else uiA \<noteq> uiB \<and> signF64UI uiA \<noteq> (uiA < uiB))"

section \<open>Rounding to an integer\<close>

definition f64_roundToInt :: "u64 \<Rightarrow> u32 \<Rightarrow> u64" where
  "f64_roundToInt a roundingMode =
     (let exp = expF64UI a
      in if exp \<le> 0x3FE then
           if a AND 0x7FFFFFFFFFFFFFFF = 0 then a
           else
             let uiZ = a AND packToF64UI True 0 0;
                 near = (if exp = 0x3FE then uiZ OR packToF64UI False 0x3FF 0 else uiZ)
             in if roundingMode = softfloat_round_near_even then (if fracF64UI a = 0 then uiZ else near)
                else if roundingMode = softfloat_round_near_maxMag then near
                else if roundingMode = softfloat_round_min then (if uiZ \<noteq> 0 then packToF64UI True 0x3FF 0 else uiZ)
                else if roundingMode = softfloat_round_max then (if uiZ = 0 then packToF64UI False 0x3FF 0 else uiZ)
                else uiZ
         else if 0x433 \<le> exp then
           if exp = 0x7FF \<and> fracF64UI a \<noteq> 0 then propagateNaNF64UI a 0 else a
         else
           let lastBitMask = push_bit (nat (0x433 - exp)) 1;
               roundBitsMask = lastBitMask - 1;
               uiZ =
                 (if roundingMode = softfloat_round_near_maxMag then a + drop_bit 1 lastBitMask
                  else if roundingMode = softfloat_round_near_even then
                    let z = a + drop_bit 1 lastBitMask
                    in if z AND roundBitsMask = 0 then z AND NOT lastBitMask else z
                  else if roundingMode = (if signF64UI a then softfloat_round_min else softfloat_round_max)
                  then a + roundBitsMask
                  else a)
           in uiZ AND NOT roundBitsMask)"

end
