(* ===== verification/SfF32Ops.thy ===== *)
theory SfF32Ops
  imports SfF32
begin

text \<open>
  Correct rounding of the single-precision operations: the fields of a bit pattern, the value of rounding and
  packing, then each operation against the exact result rounded once by \<open>rnd\<close>.
\<close>

section \<open>Fields\<close>

lemma fracF32UI_value: "unat (fracF32UI a) = unat a mod 8388608"
  using unat_and_low[of a 23] by (simp add: fracF32UI_def mask_eq_exp_minus_1)

lemma expF32UI_value: "expF32UI a = int (unat a div 8388608 mod 256)"
proof -
  have "unat (drop_bit 23 a AND 0xFF) = unat a div 8388608 mod 256"
    using unat_and_low[of "drop_bit 23 a" 8] by (simp add: mask_eq_exp_minus_1 unat_drop_bit_div)
  then show ?thesis by (simp add: expF32UI_def uint_nat)
qed

lemma signF32UI_value: "signF32UI a \<longleftrightarrow> 2147483648 \<le> unat a"
proof -
  have "unat (drop_bit 31 a) = unat a div 2147483648" by (simp add: unat_drop_bit_div)
  then have "drop_bit 31 a = 0 \<longleftrightarrow> unat a div 2147483648 = 0" by (metis unat_eq_zero)
  then show ?thesis unfolding signF32UI_def by (simp add: div_eq_0_iff not_less)
qed

lemma bits_split:
  "unat (a :: u32) = (if signF32UI a then 2147483648 else 0) + nat (expF32UI a) * 8388608 + unat (fracF32UI a)"
proof -
  have "unat a < 4294967296" using unsigned_less[of a, where 'a = nat] by simp
  then have "unat a div 8388608 = (if signF32UI a then 256 else 0) + unat a div 8388608 mod 256"
  proof -
    have "unat a div 8388608 < 512" using \<open>unat a < 4294967296\<close> by simp
    moreover have "2147483648 \<le> unat a \<longleftrightarrow> 256 \<le> unat a div 8388608" by (simp add: less_eq_div_iff_mult_less_eq)
    moreover have "d mod 256 = (if 256 \<le> d then d - 256 else d)" if "d < 512" for d :: nat
      using that by (simp add: mod_if le_mod_geq)
    ultimately show ?thesis unfolding signF32UI_value by simp
  qed
  moreover have "unat a = unat a div 8388608 * 8388608 + unat a mod 8388608"
    by (rule div_mult_mod_eq[symmetric])
  ultimately have "unat a = ((if signF32UI a then 256 else 0) + unat a div 8388608 mod 256) * 8388608 + unat a mod 8388608"
    by metis
  then show ?thesis unfolding fracF32UI_value expF32UI_value nat_int by (cases "signF32UI a") simp_all
qed

lemma frac_less: "unat (fracF32UI a) < 8388608"
  by (simp add: fracF32UI_value)

lemma exp_range: "0 \<le> expF32UI a" "expF32UI a \<le> 255"
  by (simp_all add: expF32UI_value)

lemma packToF32UI_value:
  assumes "0 \<le> e" "nat e * 8388608 + unat sig < 2147483648"
  shows "unat (packToF32UI s e sig) = (if s then 2147483648 else 0) + nat e * 8388608 + unat sig"
proof -
  have e: "nat e < 256" using assms by simp
  have s: "(push_bit 31 (of_bool s) :: u32) = of_nat (if s then 2147483648 else 0)" by simp
  have "word_of_int e = (of_nat (nat e) :: u32)" using assms(1) by simp
  then have p: "push_bit 23 (word_of_int e) = (of_nat (nat e * 8388608) :: u32)" by (simp add: push_bit_eq_mult)
  have "packToF32UI s e sig = of_nat ((if s then 2147483648 else 0) + nat e * 8388608 + unat sig)"
    unfolding packToF32UI_def s p by simp
  then show ?thesis using assms(2) by (simp add: unat_of_nat32 del: of_nat_add)
qed

section \<open>Rounding and packing\<close>

text \<open>The bit pattern of \<open>n / 2\<^sup>k\<close> units rounded, infinity from \<open>0x7F800000\<close> on.\<close>

definition f32_round :: "bool \<Rightarrow> nat \<Rightarrow> nat \<Rightarrow> u32" where
  "f32_round sign n k = of_nat ((if sign then 2147483648 else 0) + min (rnd 24 n k) 2139095040)"

lemma pack_eq_of_nat:
  assumes "0 \<le> e" "nat e * 8388608 + unat sig = min x 2139095040"
  shows "packToF32UI s e sig = of_nat ((if s then 2147483648 else 0) + min x 2139095040)"
proof -
  have u: "unat (packToF32UI s e sig) = (if s then 2147483648 else 0) + min x 2139095040"
    using packToF32UI_value[OF assms(1), of sig s] assms(2) by simp
  have "packToF32UI s e sig = of_nat (unat (packToF32UI s e sig))" by simp
  then show ?thesis unfolding u .
qed


lemma roundPackToF32_code:
  "roundPackToF32 sign exp sig =
    (let sig' = (if exp < 0 then shiftRightJam32 sig (word_of_int (- exp)) else sig);
         z = drop_bit 7 (sig' + 0x40) AND NOT (of_bool (sig' AND 0x7F = 0x40))
     in if 0xFD < exp \<or> exp = 0xFD \<and> 0x80000000 \<le> sig + 0x40 then packToF32UI sign 0xFF 0
        else packToF32UI sign (if z = 0 then 0 else max 0 exp) z)"
  by (auto simp: roundPackToF32_def rounding_modes Let_def xor_zero_iff max_def)

lemma round_sig_value:
  assumes "unat (x :: u32) < 2147483648"
  shows "unat (drop_bit 7 (x + 0x40) AND NOT (of_bool (x AND 0x7F = 0x40))) = rne_shift (unat x) 7"
proof -
  have "unat (x + 0x40) = unat x + 64" using assms by (simp add: unat_plus_if')
  then have z: "unat (drop_bit 7 (x + 0x40)) = (unat x + 64) div 128" by (simp add: unat_drop_bit_div)
  have m: "unat (x AND 0x7F) = unat x mod 128" using unat_and_low[of x 7] by (simp add: mask_eq_exp_minus_1)
  have "x AND 0x7F = 0x40 \<longleftrightarrow> unat x mod 128 = 64" unfolding m[symmetric] word_unat_eq_iff by simp
  then show ?thesis using rne_shift_code[of 7 "unat x"] by (simp add: unat_clear_bit0 z Let_def)
qed

lemma roundPackToF32_value:
  assumes "unat sig < 2147483648" "1073741824 \<le> unat sig \<or> exp \<le> 0" "- 4294967296 < exp"
  shows "roundPackToF32 sign exp sig = f32_round sign (unat sig * 2 ^ nat exp) (7 + nat (- exp))"
proof (cases "exp < 0")
  case True
  define d where "d = nat (- exp)"
  have d: "unat (word_of_int (- exp) :: u32) = d"
    unfolding d_def by (rule unat32_of_int) (use True assms(3) in linarith)+
  let ?x = "shiftRightJam32 sig (word_of_int (- exp))"
  have x: "unat ?x = jam (unat sig) d" using shiftRightJam32_value[of "word_of_int (- exp)" sig] True
    unfolding d by (simp add: d_def)
  have xb: "unat ?x < 2147483648" using assms(1) x jam_le[of "unat sig" d] by simp
  have r: "rnd 24 (unat sig) (7 + d) = rne_shift (unat ?x) 7"
    unfolding x using rnd_jam_packed[of "unat sig" 24 7 d] assms(1) by simp
  have "rne_shift (unat ?x) 7 \<le> 16777216" using rne_shift_le[of "unat ?x" 7 24] xb by simp
  then have p: "packToF32UI sign 0 z = of_nat ((if sign then 2147483648 else 0) + min (rne_shift (unat ?x) 7) 2139095040)"
    if "unat z = rne_shift (unat ?x) 7" for z
    using that by (intro pack_eq_of_nat) simp_all
  have "roundPackToF32 sign exp sig =
      packToF32UI sign 0 (drop_bit 7 (?x + 0x40) AND NOT (of_bool (?x AND 0x7F = 0x40)))"
    unfolding roundPackToF32_code Let_def using True by simp
  also have "\<dots> = f32_round sign (unat sig) (7 + d)"
    unfolding f32_round_def r by (rule p[OF round_sig_value[OF xb]])
  finally show ?thesis using True by (simp add: d_def)
next
  case False
  then have e: "0 \<le> exp" by simp
  define n where "n = nat exp"
  let ?q = "rne_shift (unat sig) 7"
  have R: "rnd 24 (unat sig * 2 ^ n) 7 = n * 8388608 + ?q"
    using rnd_packed[of "unat sig" 24 7 n] assms e by (auto simp: n_def)
  have q: "?q \<le> 16777216" using rne_shift_le[of "unat sig" 7 24] assms(1) by simp
  have q1: "8388608 \<le> ?q" if "1073741824 \<le> unat sig" using rne_shift_ge[of 7 23 "unat sig"] that by simp
  have q2: "?q = 16777216 \<longleftrightarrow> 0x80000000 \<le> sig + 0x40"
  proof -
    have "unat (sig + 0x40) = unat sig + 64" using assms(1) by (simp add: unat_plus_if')
    then show ?thesis using rne_shift_top[of "unat sig" 7 24] assms(1) by (simp add: word_le_nat_alt)
  qed
  let ?z = "drop_bit 7 (sig + 0x40) AND NOT (of_bool (sig AND 0x7F = 0x40))"
  have z: "unat ?z = ?q" by (rule round_sig_value[OF assms(1)])
  have code: "roundPackToF32 sign exp sig =
      (if 253 < n \<or> n = 253 \<and> ?q = 16777216 then packToF32UI sign 0xFF 0 else packToF32UI sign (if ?z = 0 then 0 else exp) ?z)"
    unfolding roundPackToF32_code Let_def q2 n_def using e by auto
  have value_eq: "f32_round sign (unat sig * 2 ^ nat exp) (7 + nat (- exp)) =
      of_nat ((if sign then 2147483648 else 0) + min (n * 8388608 + ?q) 2139095040)"
    using e R by (simp add: f32_round_def n_def)
  have nz: "n = 0 \<or> 8388608 \<le> ?q" using q1 assms(2) by (auto simp: n_def)
  show ?thesis
  proof (cases "253 < n \<or> n = 253 \<and> ?q = 16777216")
    case True
    then have "min (n * 8388608 + ?q) 2139095040 = 2139095040" using nz by auto
    then show ?thesis using pack_eq_of_nat[of 255 0 "n * 8388608 + ?q" sign] True unfolding code value_eq by simp
  next
    case False
    then have "n * 8388608 + ?q < 2139095040" using q by (cases "n = 253") auto
    moreover have "?z = 0 \<longleftrightarrow> ?q = 0" using z by (metis unat_eq_zero)
    ultimately have "packToF32UI sign (if ?z = 0 then 0 else exp) ?z
        = of_nat ((if sign then 2147483648 else 0) + min (n * 8388608 + ?q) 2139095040)"
      using nz z e by (intro pack_eq_of_nat) (auto simp: n_def)
    then show ?thesis unfolding code value_eq if_not_P[OF False] .
  qed
qed


lemma normRoundPackToF32_value:
  assumes "0 < unat sig" "unat sig < 2147483648" "- 4294967000 < exp"
  shows "normRoundPackToF32 sign exp sig = f32_round sign (unat sig * 2 ^ nat exp) (7 + nat (- exp))"
proof -
  define a where "a = 31 - nbits (unat sig)"
  have nb: "1 \<le> nbits (unat sig)" "nbits (unat sig) \<le> 31"
    using nbits_le[of "unat sig" 0] nbits_le[of "unat sig" 31] assms by simp_all
  have sh: "int (countLeadingZeros32 sig) - 1 = int a" using nb by (simp add: clz32_value a_def of_nat_diff)
  let ?n = "unat sig * 2 ^ a"
  have "nbits ?n = 31" using nb assms(1) by (simp add: a_def)
  then have n: "1073741824 \<le> ?n" "?n < 2147483648" using nbits_le[of ?n 30] nbits_le[of ?n 31] by simp_all
  have u: "unat (push_bit a sig) = ?n" using n by (simp add: unat_push_bit_mod)
  have target: "f32_round sign (unat sig * 2 ^ nat exp) (7 + nat (- exp))
      = f32_round sign (?n * 2 ^ nat (exp - int a)) (7 + nat (int a - exp))"
    unfolding f32_round_def rnd_shift[OF assms(1)] ..
  show ?thesis
  proof (cases "7 \<le> a \<and> 0 \<le> exp - int a \<and> exp - int a < 0xFD")
    case True
    define e where "e = nat (exp - int a)"
    have "a = a - 7 + 7" using True by simp
    then have n7: "?n = unat sig * 2 ^ (a - 7) * 2 ^ 7" by (metis mult.assoc power_add)
    have "rnd 24 (?n * 2 ^ e) 7 = e * 8388608 + rne_shift ?n 7" using rnd_packed[of ?n 24 7 e] n by simp
    also have "rne_shift ?n 7 = unat sig * 2 ^ (a - 7)" unfolding n7 by (rule rne_shift_exact)
    finally have R: "rnd 24 (?n * 2 ^ e) 7 = e * 8388608 + unat sig * 2 ^ (a - 7)" .
    have s: "unat sig * 2 ^ (a - 7) < 16777216" using n(2) unfolding n7 by simp
    then have "unat (push_bit (a - 7) sig) = unat sig * 2 ^ (a - 7)" by (simp add: unat_push_bit_mod)
    then have "packToF32UI sign (exp - int a) (push_bit (a - 7) sig)
        = of_nat ((if sign then 2147483648 else 0) + min (rnd 24 (?n * 2 ^ e) 7) 2139095040)"
      using s True unfolding R by (intro pack_eq_of_nat) (auto simp: e_def)
    moreover have "sig \<noteq> 0" using assms(1) by auto
    moreover have "normRoundPackToF32 sign exp sig = packToF32UI sign (exp - int a) (push_bit (a - 7) sig)"
      using True \<open>sig \<noteq> 0\<close> by (simp add: normRoundPackToF32_def sh Let_def nat_diff_distrib)
    ultimately show ?thesis unfolding target using True by (simp add: f32_round_def e_def)
  next
    case False
    then have "normRoundPackToF32 sign exp sig = roundPackToF32 sign (exp - int a) (push_bit a sig)"
      by (auto simp: normRoundPackToF32_def sh Let_def)
    also have "\<dots> = f32_round sign (?n * 2 ^ nat (exp - int a)) (7 + nat (- (exp - int a)))"
      using roundPackToF32_value[of "push_bit a sig" "exp - int a" sign] n u assms(3) nb by (simp add: a_def)
    finally show ?thesis unfolding target by simp
  qed
qed

section \<open>Addition of magnitudes\<close>

text \<open>The magnitude of a finite number, in units of \<open>2\<^sup>-\<^sup>1\<^sup>4\<^sup>9\<close>.\<close>

definition f32_mag :: "u32 \<Rightarrow> nat" where
  "f32_mag a = enc_mag 24 (unat a mod 2147483648)"

lemma mod_split: "unat c mod 2147483648 = nat (expF32UI c) * 8388608 + unat (fracF32UI c)"
proof -
  have "nat (expF32UI c) * 8388608 + unat (fracF32UI c) < 2147483648"
    using frac_less[of c] exp_range[of c] by simp
  then show ?thesis using bits_split[of c] by (simp add: add.assoc)
qed

lemma f32_mag_value:
  "f32_mag a = (if expF32UI a = 0 then unat (fracF32UI a) else (8388608 + unat (fracF32UI a)) * 2 ^ (nat (expF32UI a) - 1))"
proof -
  show ?thesis using enc_mag_split[of "unat (fracF32UI a)" 24 "nat (expF32UI a)"] frac_less[of a] exp_range[of a]
    by (simp add: f32_mag_def mod_split)
qed

text \<open>A significand shifted left by \<open>g\<close> places, doubled when the number is subnormal.\<close>

definition aligned :: "nat \<Rightarrow> u32 \<Rightarrow> nat" where
  "aligned g a = (if expF32UI a = 0 then unat (fracF32UI a) * 2 ^ Suc g else (8388608 + unat (fracF32UI a)) * 2 ^ g)"

lemma aligned_mag: "aligned g a * 2 ^ nat (expF32UI a) = f32_mag a * 2 ^ Suc g"
proof (cases "expF32UI a = 0")
  case False
  then have "nat (expF32UI a) = Suc (nat (expF32UI a) - 1)" using exp_range[of a] by simp
  then have "(2 :: nat) ^ nat (expF32UI a) = 2 * 2 ^ (nat (expF32UI a) - 1)" by (metis power_Suc)
  then show ?thesis using False by (simp add: aligned_def f32_mag_value)
qed (simp add: aligned_def f32_mag_value)

lemma aligned_less: "aligned g a < 16777216 * 2 ^ g"
  using frac_less[of a] by (auto simp: aligned_def)

lemma aligned_even: "1 \<le> g \<Longrightarrow> even (aligned g a)"
  by (auto simp: aligned_def)

lemma f32_sum_round:
  assumes X: "X * 2 ^ Eb = mb * 2 ^ k" and A: "A * 2 ^ Eb = ms * 2 ^ (k + d)" and "k = 7"
    and big: "536870912 \<le> X" "even X"
  shows "rnd 24 ((X + jam A d) * 2 ^ Eb) k = rnd 24 (mb + ms) 0"
proof -
  let ?S = "X + jam A d"
  have S: "?S = jam (X * 2 ^ d + A) d" using big(2) by (simp add: jam_add)
  have "29 < nbits ?S" using nbits_le[of ?S 29] big(1) by simp
  then have "rnd 24 (?S * 2 ^ Eb) k = rnd 24 ((X * 2 ^ d + A) * 2 ^ Eb) (k + d)"
    unfolding S using big(1) by (intro rnd_jam) (simp_all flip: S)
  also have "(X * 2 ^ d + A) * 2 ^ Eb = (mb + ms) * 2 ^ (k + d)"
    using X A by (simp add: algebra_simps power_add)
  also have "rnd 24 \<dots> (k + d) = rnd 24 (mb + ms) 0"
  proof -
    have "0 < mb" using X big(1) by (metis gr0I mult_is_0 not_numeral_le_zero power_not_zero zero_neq_numeral)
    then show ?thesis using rnd_scale[of "mb + ms" 24 "k + d" 0] by simp
  qed
  finally show ?thesis .
qed


lemma unat_shift_frac:
  "unat (push_bit 6 (fracF32UI a)) = unat (fracF32UI a) * 64" "unat (push_bit 7 (fracF32UI a)) = unat (fracF32UI a) * 128"
  using frac_less[of a] by (simp_all add: unat_push_bit_mod)

lemma if_pair: "(case if c then (u, v) else (x, y) of (p, q) \<Rightarrow> f p q) = f (if c then u else x) (if c then v else y)"
  by simp

text \<open>The branch of unequal exponents, with the larger operand first.\<close>

lemma add_unequal:
  fixes big small :: u32
  assumes "expF32UI small < expF32UI big" "expF32UI big < 255"
  defines "sigS \<equiv> push_bit 6 (fracF32UI small)" and "sigB \<equiv> push_bit 6 (fracF32UI big)"
  defines "x \<equiv> shiftRightJam32 (sigS + (if expF32UI small \<noteq> 0 then 0x20000000 else sigS))
      (word_of_int (expF32UI big - expF32UI small))"
  assumes z_eq: "z = 0x20000000 + sigB + x \<or> z = 0x20000000 + x + sigB"
  shows "roundPackToF32 sign (if z < 0x40000000 then expF32UI big - 1 else expF32UI big)
      (if z < 0x40000000 then push_bit 1 z else z) = f32_round sign (f32_mag big + f32_mag small) 0"
proof -
  define d where "d = nat (expF32UI big - expF32UI small)"
  define Eb where "Eb = nat (expF32UI big)"
  have d: "1 \<le> d" "d < 255" "Eb = d + nat (expF32UI small)"
    using assms(1,2) exp_range[of small] exp_range[of big] by (simp_all add: d_def Eb_def)
  let ?A = "aligned 6 small" and ?X = "aligned 6 big"
  have ud: "unat (word_of_int (expF32UI big - expF32UI small) :: u32) = d"
    unfolding d_def by (rule unat32_of_int) (use assms(1,2) exp_range[of small] in linarith)+
  have A: "unat (sigS + (if expF32UI small \<noteq> 0 then 0x20000000 else sigS)) = ?A"
    using frac_less[of small] unfolding sigS_def aligned_def
    by (simp add: unat_plus_if' unat_shift_frac)
  have Ab: "?A < 1073741824" "even ?A" using aligned_less[of 6 small] aligned_even[of 6 small] by simp_all
  have x: "unat x = jam ?A d" unfolding x_def using shiftRightJam32_value ud d(1) A by simp
  have xb: "unat x < 536870912" using jam_even_half[OF Ab(2) d(1)] Ab(1) x by simp
  have X: "unat (0x20000000 + sigB) = ?X" "536870912 \<le> ?X" "even ?X" "?X < 1073741824"
    using frac_less[of big] assms(1) exp_range[of small] aligned_even[of 6 big] aligned_less[of 6 big]
    unfolding sigB_def by (simp_all add: aligned_def unat_plus_if' unat_shift_frac)
  have "z = 0x20000000 + sigB + x" using z_eq by (auto simp: add_ac)
  then have z: "unat z = ?X + jam ?A d" unfolding x[symmetric] X(1)[symmetric]
    using X(1,4) xb by (simp only: unat_plus_if') simp
  have zb: "unat z < 1610612736" using X(4) xb unfolding z x[symmetric] by simp
  have R: "rnd 24 (unat z * 2 ^ Eb) 7 = rnd 24 (f32_mag big + f32_mag small) 0"
    unfolding z using X aligned_mag[of 6 big] aligned_mag[of 6 small] d(3)
    by (intro f32_sum_round) (simp_all add: Eb_def power_add mult_ac)
  have lt: "z < 0x40000000 \<longleftrightarrow> unat z < 1073741824" by (simp add: word_less_nat_alt)
  have ge: "536870912 \<le> unat z" using X(2) z by simp
  show ?thesis
  proof (cases "unat z < 1073741824")
    case True
    then have p: "unat (z * 2) = unat z * 2" using unat_shl1[of z] by simp
    have "(2 :: nat) ^ Eb = 2 * 2 ^ nat (expF32UI big - 1)"
      using d by (simp add: Eb_def nat_diff_distrib flip: power_Suc)
    then have eq: "unat z * 2 * 2 ^ nat (expF32UI big - 1) = unat z * 2 ^ Eb" by simp
    have "roundPackToF32 sign (expF32UI big - 1) (push_bit 1 z) =
        f32_round sign (unat z * 2 * 2 ^ nat (expF32UI big - 1)) 7"
      using roundPackToF32_value[of "push_bit 1 z" "expF32UI big - 1" sign] p ge True assms(1) exp_range[of small] by simp
    then show ?thesis unfolding eq using True R lt by (simp add: f32_round_def)
  next
    case False
    then have "roundPackToF32 sign (expF32UI big) z = f32_round sign (unat z * 2 ^ Eb) 7"
      using roundPackToF32_value[of z "expF32UI big" sign] zb exp_range[of big] by (simp add: Eb_def)
    then show ?thesis using False R lt by (simp add: f32_round_def)
  qed
qed


text \<open>The branch of equal exponents.\<close>

lemma add_equal:
  assumes "expF32UI a = expF32UI b" "expF32UI a < 255" "expF32UI a \<noteq> 0"
  defines "z \<equiv> 0x01000000 + fracF32UI a + fracF32UI b"
  shows "(if z AND 1 = 0 \<and> expF32UI a < 0xFE then packToF32UI sign (expF32UI a) (drop_bit 1 z)
          else roundPackToF32 sign (expF32UI a) (push_bit 6 z)) = f32_round sign (f32_mag a + f32_mag b) 0"
proof -
  define e where "e = nat (expF32UI a)"
  have e: "1 \<le> e" "e < 255" "expF32UI a = int e" using assms exp_range[of a] by (simp_all add: e_def)
  have z: "unat z = 16777216 + unat (fracF32UI a) + unat (fracF32UI b)"
    using frac_less[of a] frac_less[of b] unfolding z_def by (simp add: unat_plus_if')
  have zb: "16777216 \<le> unat z" "unat z < 33554432" using z frac_less[of a] frac_less[of b] by simp_all
  have sum: "f32_mag a + f32_mag b = unat z * 2 ^ (e - 1)"
    using assms(1,3) unfolding z by (simp add: f32_mag_value e_def algebra_simps)
  have ee: "(2 :: nat) ^ e = 2 * 2 ^ (e - 1)" using e(1) by (metis Suc_diff_1 Suc_le_eq One_nat_def power_Suc)
  show ?thesis
  proof (cases "z AND 1 = 0 \<and> expF32UI a < 0xFE")
    case True
    have "z AND 1 = 0" using True by simp
    then have "even z" unfolding and_one_eq by (simp only: even_iff_mod_2_eq_zero)
    then have "even (unat z)" by (simp only: even_unat)
    then obtain h where h: "unat z = h * 2" by (metis evenE mult.commute)
    have u: "unat (drop_bit 1 z) = h" by (simp add: unat_drop_bit_div h)
    have hb: "8388608 \<le> h" "h < 16777216" using zb h by simp_all
    have "rnd 24 (h * 2 ^ e) 0 = e * 8388608 + h" using rnd_packed[of h 24 0 e] hb by simp
    then have R: "rnd 24 (f32_mag a + f32_mag b) 0 = e * 8388608 + h" unfolding sum h using ee by (simp add: mult_ac)
    have "packToF32UI sign (expF32UI a) (drop_bit 1 z)
        = of_nat ((if sign then 2147483648 else 0) + min (rnd 24 (f32_mag a + f32_mag b) 0) 2139095040)"
      using True e hb unfolding R by (intro pack_eq_of_nat) (auto simp: u[unfolded One_nat_def])
    then show ?thesis using True by (simp add: f32_round_def)
  next
    case False
    have u: "unat (push_bit 6 z) = unat z * 64" using zb by (simp add: unat_push_bit_mod)
    have "unat z * 64 * 2 ^ e = (f32_mag a + f32_mag b) * 2 ^ 7" unfolding sum using ee by simp
    moreover have "0 < f32_mag a + f32_mag b" unfolding sum using zb by simp
    ultimately have "rnd 24 (unat z * 64 * 2 ^ e) 7 = rnd 24 (f32_mag a + f32_mag b) 0"
      using rnd_scale[of "f32_mag a + f32_mag b" 24 7 0] by simp
    moreover have "roundPackToF32 sign (expF32UI a) (push_bit 6 z) = f32_round sign (unat z * 64 * 2 ^ e) 7"
      using roundPackToF32_value[of "push_bit 6 z" "expF32UI a" sign] zb e unfolding u by simp
    ultimately show ?thesis unfolding if_not_P[OF False] by (simp add: f32_round_def)
  qed
qed

lemma addMagsF32_value:
  assumes "expF32UI a < 255" "expF32UI b < 255"
  shows "addMagsF32 a b = f32_round (signF32UI a) (f32_mag a + f32_mag b) 0"
proof -
  consider "expF32UI a = expF32UI b" "expF32UI a = 0" | "expF32UI a = expF32UI b" "expF32UI a \<noteq> 0"
    | "expF32UI a < expF32UI b" | "expF32UI b < expF32UI a" by linarith
  then show ?thesis
  proof cases
    case 1
    have "f32_mag a + f32_mag b = unat (fracF32UI a) + unat (fracF32UI b)" using 1 by (simp add: f32_mag_value)
    then have "rnd 24 (f32_mag a + f32_mag b) 0 = unat (fracF32UI a) + unat (fracF32UI b)"
      using frac_less[of a] frac_less[of b] by (simp add: rnd_exact)
    moreover have "unat (fracF32UI a) + unat (fracF32UI b) < 2139095040"
      using frac_less[of a] frac_less[of b] by simp
    moreover have "a + fracF32UI b = of_nat (unat a + unat (fracF32UI b))" by simp
    moreover have "unat a = (if signF32UI a then 2147483648 else 0) + unat (fracF32UI a)"
      using bits_split[of a] 1 by simp
    moreover have "addMagsF32 a b = a + fracF32UI b" using 1 by (simp add: addMagsF32_def Let_def)
    ultimately show ?thesis unfolding f32_round_def by (simp only: add.assoc) (simp only: min.absorb1 less_imp_le)
  next
    case 2
    then show ?thesis using add_equal[of a b "signF32UI a"] assms
      by (auto simp: addMagsF32_def Let_def split: if_splits)
  next
    case 3
    then have c: "expF32UI a - expF32UI b \<noteq> 0" "expF32UI a - expF32UI b < 0" "expF32UI b \<noteq> 0xFF"
      "- (expF32UI a - expF32UI b) = expF32UI b - expF32UI a" using assms by simp_all
    show ?thesis
      unfolding addMagsF32_def Let_def if_not_P[OF c(1)] if_P[OF c(2)] if_not_P[OF c(3)] c(4) if_pair
        add.commute[of "f32_mag a"]
      by (rule add_unequal[of a b _ "signF32UI a", OF 3 assms(2)]) (rule disjI2, rule refl)
  next
    case 4
    then have c: "expF32UI a - expF32UI b \<noteq> 0" "\<not> expF32UI a - expF32UI b < 0" "expF32UI a \<noteq> 0xFF"
      using assms by simp_all
    show ?thesis
      unfolding addMagsF32_def Let_def if_not_P[OF c(1)] if_not_P[OF c(2)] if_not_P[OF c(3)] if_pair
      by (rule add_unequal[of b a _ "signF32UI a", OF 4 assms(1)]) (rule disjI1, rule refl)
  qed
qed


section \<open>Subtraction of magnitudes\<close>

lemma f32_mag_exp_less:
  assumes "expF32UI a < expF32UI b"
  shows "f32_mag a < f32_mag b"
proof -
  have "Suc (nat (expF32UI a)) \<le> nat (expF32UI b)" using assms exp_range[of a] by simp
  then have "unat a mod 2147483648 < unat b mod 2147483648" unfolding mod_split using frac_less[of a] by linarith
  then show ?thesis by (simp add: f32_mag_def enc_mag_mono)
qed

lemma rnd_diff:
  assumes X: "X * 2 ^ E = mb * 2 ^ 7" and A: "A * 2 ^ E = ms * 2 ^ (7 + d)"
    and b: "1073741824 \<le> X" "even X" "A < 2147483648" "128 dvd A" "1 \<le> d"
  shows "rnd 24 ((X - jam A d) * 2 ^ E) 7 = rnd 24 (mb - ms) 0" "0 < X - jam A d"
proof -
  have "A < X * 2 ^ d"
  proof -
    have "1073741824 * 2 ^ 1 \<le> X * 2 ^ d" using b(1,5) by (intro mult_le_mono power_increasing) simp_all
    then show ?thesis using b(3) by simp
  qed
  then have D: "X - jam A d = jam (X * 2 ^ d - A) d" "0 < X * 2 ^ d - A" using jam_sub[of X A d] b(2) by simp_all
  then show pos: "0 < X - jam A d" using jam_pos by simp
  have diff: "(X * 2 ^ d - A) * 2 ^ E = (mb - ms) * 2 ^ (7 + d)"
  proof -
    have "X * 2 ^ d * 2 ^ E = mb * 2 ^ (7 + d)" using X by (simp add: power_add mult_ac)
    then show ?thesis using A by (simp add: diff_mult_distrib)
  qed
  then have m: "0 < mb - ms" using D(2) by (metis gr0I mult_is_0 power_not_zero zero_neq_numeral)
  have "rnd 24 ((X - jam A d) * 2 ^ E) 7 = rnd 24 ((X * 2 ^ d - A) * 2 ^ E) (7 + d)"
  proof (cases "A mod 2 ^ d = 0")
    case True
    then have "2 ^ d dvd X * 2 ^ d - A" by (simp add: dvd_diff_nat mod_0_imp_dvd)
    then have "(X - jam A d) * 2 ^ d = X * 2 ^ d - A" unfolding D(1) by (simp add: jam_exact)
    then have "(X * 2 ^ d - A) * 2 ^ E = (X - jam A d) * 2 ^ E * 2 ^ d" by (metis mult.assoc mult.commute)
    then show ?thesis using rnd_scale[of "(X - jam A d) * 2 ^ E" 24 d 7] pos by (simp only:) simp
  next
    case False
    have "8 \<le> d"
    proof (rule ccontr)
      assume "\<not> 8 \<le> d"
      then have "2 ^ d dvd (2 ^ 7 :: nat)" by (intro le_imp_power_dvd) simp
      moreover have "2 ^ 7 dvd A" using b(4) by simp
      ultimately have "2 ^ d dvd A" by (rule dvd_trans)
      then show False using False by simp
    qed
    then have "A div 2 ^ d \<le> A div 2 ^ 8" by (intro div_le_mono2 power_increasing) simp_all
    then have "A div 2 ^ d \<le> 8388608" using b(3) by simp
    then have "jam A d \<le> 8388609" by (simp add: jam_def Let_def)
    then have "2 ^ 25 \<le> X - jam A d" using b(1) by simp
    then have "26 \<le> nbits (X - jam A d)" using nbits_le[of "X - jam A d" 25] by simp
    then show ?thesis using rnd_jam[of "X * 2 ^ d - A" d E 7 24] pos \<open>2 ^ 25 \<le> X - jam A d\<close>
      unfolding D(1)[symmetric] by simp
  qed
  also have "\<dots> = rnd 24 (mb - ms) 0" unfolding diff using rnd_scale[OF m, of 24 "7 + d" 0] by simp
  finally show "rnd 24 ((X - jam A d) * 2 ^ E) 7 = rnd 24 (mb - ms) 0" .
qed

lemma sub_unequal:
  fixes big small :: u32
  assumes "expF32UI small < expF32UI big" "expF32UI big < 255"
  defines "sigS \<equiv> push_bit 7 (fracF32UI small)" and "sigB \<equiv> push_bit 7 (fracF32UI big)"
  shows "normRoundPackToF32 sign (expF32UI big - 1) ((sigB OR 0x40000000) -
      shiftRightJam32 (sigS + (if expF32UI small \<noteq> 0 then 0x40000000 else sigS))
        (word_of_int (expF32UI big - expF32UI small))) = f32_round sign (f32_mag big - f32_mag small) 0"
proof -
  define d where "d = nat (expF32UI big - expF32UI small)"
  define E where "E = nat (expF32UI big - 1)"
  have d: "1 \<le> d" "d < 255" "Suc E = d + nat (expF32UI small)" "nat (expF32UI big) = Suc E"
    using assms(1,2) exp_range[of small] exp_range[of big] by (simp_all add: d_def E_def)
  let ?A = "aligned 7 small" and ?X = "aligned 7 big"
  let ?x = "shiftRightJam32 (sigS + (if expF32UI small \<noteq> 0 then 0x40000000 else sigS))
        (word_of_int (expF32UI big - expF32UI small))"
  have ud: "unat (word_of_int (expF32UI big - expF32UI small) :: u32) = d"
    unfolding d_def by (rule unat32_of_int) (use assms(1,2) exp_range[of small] in linarith)+
  have A: "unat (sigS + (if expF32UI small \<noteq> 0 then 0x40000000 else sigS)) = ?A"
    using frac_less[of small] unfolding sigS_def aligned_def
    by (simp add: unat_plus_if' unat_shift_frac)
  have Ab: "?A < 2147483648" "even ?A" "128 dvd ?A"
    using aligned_less[of 7 small] aligned_even[of 7 small] by (auto simp: aligned_def)
  have x: "unat ?x = jam ?A d" using shiftRightJam32_value ud d(1) A by simp
  have Xeq: "unat (sigB OR 0x40000000) = ?X"
  proof -
    have "unat sigB = unat (fracF32UI big) * 128" unfolding sigB_def by (rule unat_shift_frac)
    then show ?thesis using unat_or_push1[of sigB 30] frac_less[of big] assms(1) exp_range[of small]
      by (simp add: aligned_def push_bit_eq_mult)
  qed
  have X: "1073741824 \<le> ?X" "even ?X" "?X < 2147483648"
    using assms(1) exp_range[of small] aligned_even[of 7 big] aligned_less[of 7 big] by (simp_all add: aligned_def)
  have R: "rnd 24 ((?X - jam ?A d) * 2 ^ E) 7 = rnd 24 (f32_mag big - f32_mag small) 0" "0 < ?X - jam ?A d"
  proof -
    have "?X * 2 ^ E = f32_mag big * 2 ^ 7" using aligned_mag[of 7 big] d(4) by (simp add: mult.commute)
    moreover have "?A * 2 ^ E = f32_mag small * 2 ^ (7 + d)"
    proof -
      have "?A * 2 ^ Suc E = ?A * 2 ^ nat (expF32UI small) * 2 ^ d" unfolding d(3) by (simp add: power_add mult_ac)
      then show ?thesis unfolding aligned_mag by (simp add: power_add mult_ac)
    qed
    ultimately show "rnd 24 ((?X - jam ?A d) * 2 ^ E) 7 = rnd 24 (f32_mag big - f32_mag small) 0" "0 < ?X - jam ?A d"
      by (rule rnd_diff; use X Ab d in simp)+
  qed
  have z: "unat ((sigB OR 0x40000000) - ?x) = ?X - jam ?A d"
    using R(2) unfolding Xeq[symmetric] x[symmetric] by (intro unat_sub) (simp add: word_le_nat_alt)
  have "normRoundPackToF32 sign (expF32UI big - 1) ((sigB OR 0x40000000) - ?x)
      = f32_round sign (unat ((sigB OR 0x40000000) - ?x) * 2 ^ E) 7"
    using normRoundPackToF32_value[of "(sigB OR 0x40000000) - ?x" "expF32UI big - 1" sign] z R(2) X(3)
      assms(1,2) exp_range[of small] by (simp add: E_def)
  then show ?thesis unfolding z f32_round_def R(1) .
qed


lemma sub_equal:
  assumes "expF32UI a = expF32UI b" "expF32UI a < 255" "fracF32UI a \<noteq> fracF32UI b"
  defines "E \<equiv> (if expF32UI a \<noteq> 0 then expF32UI a - 1 else expF32UI a)"
    and "D \<equiv> (if sint (fracF32UI a - fracF32UI b) < 0 then - (fracF32UI a - fracF32UI b) else fracF32UI a - fracF32UI b)"
  defines "sh \<equiv> int (countLeadingZeros32 D) - 8"
  shows "packToF32UI sign (if E - sh < 0 then 0 else E - sh) (push_bit (nat (if E - sh < 0 then E else sh)) D) =
      f32_round sign (nat \<bar>int (f32_mag a) - int (f32_mag b)\<bar>) 0"
    "sint (fracF32UI a - fracF32UI b) < 0 \<longleftrightarrow> f32_mag a < f32_mag b"
    "f32_mag a \<noteq> f32_mag b"
proof -
  define e where "e = nat E"
  have "0 \<le> E" "E \<le> 253" unfolding E_def using assms(2) exp_range[of a] by auto
  then have e: "E = int e" "e \<le> 253" by (simp_all add: e_def nat_le_iff)
  have fb: "unat (fracF32UI a) < 8388608" "unat (fracF32UI b) < 8388608" using frac_less by simp_all
  define df where "df = int (unat (fracF32UI a)) - int (unat (fracF32UI b))"
  have fd: "fracF32UI a - fracF32UI b = word_of_int df" by (simp add: df_def)
  have dfb: "\<bar>df\<bar> < 8388608" using fb by (simp add: df_def del: of_nat_unat)
  have "df \<noteq> 0" using assms(3) by (simp add: df_def word_unat_eq_iff del: of_nat_unat)
  have sd: "sint (fracF32UI a - fracF32UI b) = df" unfolding fd using dfb by (intro sint32_of_int) linarith+
  have "D = word_of_int \<bar>df\<bar>" unfolding D_def sd unfolding fd by simp
  then have D: "unat D = nat \<bar>df\<bar>" using dfb by (simp only:) (intro unat32_of_int; linarith)
  have mags: "f32_mag c = (if expF32UI a = 0 then 0 else 8388608 * 2 ^ e) + unat (fracF32UI c) * 2 ^ e" if "expF32UI c = expF32UI a" for c
    using that exp_range[of a] by (auto simp: f32_mag_value e_def E_def nat_diff_distrib algebra_simps)
  have diff: "int (f32_mag a) - int (f32_mag b) = df * 2 ^ e"
    using mags[of a] mags[of b] assms(1) by (simp add: df_def algebra_simps del: of_nat_unat)
  then have nd: "nat \<bar>int (f32_mag a) - int (f32_mag b)\<bar> = unat D * 2 ^ e"
    by (simp add: D abs_mult nat_mult_distrib nat_power_eq)
  show "sint (fracF32UI a - fracF32UI b) < 0 \<longleftrightarrow> f32_mag a < f32_mag b"
    unfolding sd using diff by (smt (verit) mult_less_0_iff of_nat_less_iff zero_less_power)
  show "f32_mag a \<noteq> f32_mag b" using diff \<open>df \<noteq> 0\<close> by auto
  have D0: "0 < unat D" "unat D < 8388608" using D dfb \<open>df \<noteq> 0\<close> by simp_all
  define nb where "nb = nbits (unat D)"
  have nb: "1 \<le> nb" "nb \<le> 23" using nbits_le[of "unat D" 0] nbits_le[of "unat D" 23] D0 by (simp_all add: nb_def)
  have sh: "sh = int (24 - nb)" using nb by (simp add: sh_def clz32_value nb_def of_nat_diff)
  show "packToF32UI sign (if E - sh < 0 then 0 else E - sh) (push_bit (nat (if E - sh < 0 then E else sh)) D) =
      f32_round sign (nat \<bar>int (f32_mag a) - int (f32_mag b)\<bar>) 0"
  proof (cases "E - sh < 0")
    case True
    then have "nb + e \<le> 23" unfolding sh e(1) using nb by linarith
    then have "nbits (unat D * 2 ^ e) \<le> 23" using D0 by (simp add: nb_def)
    then have l: "unat D * 2 ^ e < 8388608" using nbits_le[of "unat D * 2 ^ e" 23] by simp
    then have u: "unat (push_bit e D) = unat D * 2 ^ e" by (simp add: unat_push_bit_mod)
    have "rnd 24 (unat D * 2 ^ e) 0 = unat D * 2 ^ e" using l by (intro rnd_exact) simp
    then have "packToF32UI sign 0 (push_bit e D) = f32_round sign (unat D * 2 ^ e) 0"
      unfolding f32_round_def using l u by (intro pack_eq_of_nat) simp_all
    then show ?thesis unfolding nd using True by (simp add: e_def)
  next
    case False
    define k where "k = 24 - nb"
    define y where "y = nat (E - sh)"
    have k: "e = k + y" "E - sh = int y" "sh = int k" using False sh e by (simp_all add: k_def y_def)
    have "nbits (unat D * 2 ^ k) = 24" using D0 nb by (simp add: nb_def[symmetric] k_def)
    then have l: "8388608 \<le> unat D * 2 ^ k" "unat D * 2 ^ k < 16777216"
      using nbits_le[of "unat D * 2 ^ k" 23] nbits_le[of "unat D * 2 ^ k" 24] by simp_all
    then have u: "unat (push_bit k D) = unat D * 2 ^ k" by (simp add: unat_push_bit_mod)
    have "rnd 24 (unat D * 2 ^ k * 2 ^ y) 0 = y * 8388608 + unat D * 2 ^ k"
      using rnd_packed[of "unat D * 2 ^ k" 24 0 y] l by simp
    then have "rnd 24 (unat D * 2 ^ e) 0 = y * 8388608 + unat D * 2 ^ k" by (simp add: k(1) power_add mult_ac)
    then have "packToF32UI sign (int y) (push_bit k D) = f32_round sign (unat D * 2 ^ e) 0"
      unfolding f32_round_def using l u e(2) k(1) by (intro pack_eq_of_nat) simp_all
    then show ?thesis unfolding nd if_not_P[OF False] unfolding k(2) unfolding k(3) by simp
  qed
qed


lemma subMagsF32_value:
  assumes "expF32UI a < 255" "expF32UI b < 255"
  shows "subMagsF32 a b =
    (if f32_mag a = f32_mag b then 0
     else f32_round (signF32UI a \<noteq> (f32_mag a < f32_mag b)) (nat \<bar>int (f32_mag a) - int (f32_mag b)\<bar>) 0)"
proof -
  consider "expF32UI a = expF32UI b" "fracF32UI a = fracF32UI b" | "expF32UI a = expF32UI b" "fracF32UI a \<noteq> fracF32UI b"
    | "expF32UI a < expF32UI b" | "expF32UI b < expF32UI a" by linarith
  then show ?thesis
  proof cases
    case 1
    then have "f32_mag a = f32_mag b" by (simp add: f32_mag_value)
    moreover have "subMagsF32 a b = packToF32UI False 0 0"
      using 1 assms by (simp add: subMagsF32_def Let_def rounding_modes)
    ultimately show ?thesis by (simp add: packToF32UI_def)
  next
    case 2
    note eq = sub_equal[OF 2(1) assms(1) 2(2)]
    have c: "expF32UI a - expF32UI b = 0" "expF32UI a \<noteq> 0xFF" "fracF32UI a - fracF32UI b \<noteq> 0" using 2 assms by simp_all
    have "subMagsF32 a b = f32_round (signF32UI a \<noteq> (f32_mag a < f32_mag b)) (nat \<bar>int (f32_mag a) - int (f32_mag b)\<bar>) 0"
      unfolding subMagsF32_def Let_def if_P[OF c(1)] if_not_P[OF c(2)] if_not_P[OF c(3)] if_pair eq(2)[symmetric]
      using eq(1) by (cases "sint (fracF32UI a - fracF32UI b) < 0") simp_all
    then show ?thesis using eq(3) by simp
  next
    case 3
    then have c: "expF32UI a - expF32UI b \<noteq> 0" "expF32UI a - expF32UI b < 0" "expF32UI b \<noteq> 0xFF"
      "- (expF32UI a - expF32UI b) = expF32UI b - expF32UI a" using assms by simp_all
    have "subMagsF32 a b = f32_round (\<not> signF32UI a) (f32_mag b - f32_mag a) 0"
      unfolding subMagsF32_def Let_def if_not_P[OF c(1)] if_P[OF c(2)] if_not_P[OF c(3)] c(4)
      by (rule sub_unequal[OF 3 assms(2)])
    then show ?thesis using f32_mag_exp_less[OF 3] by (simp add: nat_diff_distrib)
  next
    case 4
    then have c: "expF32UI a - expF32UI b \<noteq> 0" "\<not> expF32UI a - expF32UI b < 0" "expF32UI a \<noteq> 0xFF"
      using assms by simp_all
    have "subMagsF32 a b = f32_round (signF32UI a) (f32_mag a - f32_mag b) 0"
      unfolding subMagsF32_def Let_def if_not_P[OF c(1)] if_not_P[OF c(2)] if_not_P[OF c(3)]
      by (rule sub_unequal[OF 4 assms(1)])
    then show ?thesis using f32_mag_exp_less[OF 4] by (simp add: nat_diff_distrib)
  qed
qed

text \<open>The value of a finite number in units of \<open>2\<^sup>-\<^sup>1\<^sup>4\<^sup>9\<close>, and the result of an exact operation with sum \<open>v\<close> of the
  two values: \<open>v\<close> rounded, with the sign of an exact zero as IEEE 754 has it.\<close>

definition f32_val :: "u32 \<Rightarrow> int" where
  "f32_val a = (if signF32UI a then - int (f32_mag a) else int (f32_mag a))"

definition f32_sum :: "u32 \<Rightarrow> u32 \<Rightarrow> u32" where
  "f32_sum a b =
     (let v = f32_val a + f32_val b
      in if v = 0 then of_nat (if signF32UI a \<and> signF32UI b then 2147483648 else 0)
         else f32_round (v < 0) (nat \<bar>v\<bar>) 0)"

lemma signF32UI_bit: "signF32UI a \<longleftrightarrow> bit a 31"
proof -
  have "drop_bit 31 a = of_bool (bit a 31)"
  proof (rule bit_word_eqI)
    fix n assume "n < LENGTH(32)"
    have "\<not> bit a (31 + n)" if "0 < n" using that bit_imp_le_length[of a "31 + n"] by auto
    then show "bit (drop_bit 31 a) n = bit (of_bool (bit a 31) :: u32) n"
      by (cases "n = 0") (auto simp: bit_drop_bit_eq bit_1_iff)
  qed
  then show ?thesis by (simp add: signF32UI_def)
qed

lemma sign_xor: "signF32UI (a XOR b) \<longleftrightarrow> signF32UI a \<noteq> signF32UI b"
  by (simp add: signF32UI_bit bit_xor_iff)

lemma f32_add_value:
  assumes "expF32UI a < 255" "expF32UI b < 255"
  shows "f32_add a b = f32_sum a b"
proof (cases "signF32UI a = signF32UI b")
  case True
  then have "f32_add a b = f32_round (signF32UI a) (f32_mag a + f32_mag b) 0"
    by (simp add: f32_add_def sign_xor addMagsF32_value[OF assms])
  moreover have "f32_round s 0 0 = of_nat (if s then 2147483648 else 0)" for s
    by (simp add: f32_round_def rnd_exact)
  moreover have "nat \<bar>f32_val a + f32_val b\<bar> = f32_mag a + f32_mag b"
    "f32_val a + f32_val b = 0 \<longleftrightarrow> f32_mag a + f32_mag b = 0"
    "f32_val a + f32_val b < 0 \<longleftrightarrow> signF32UI a \<and> f32_mag a + f32_mag b \<noteq> 0"
    using True by (auto simp: f32_val_def)
  ultimately show ?thesis using True by (cases "f32_mag a + f32_mag b = 0") (auto simp: f32_sum_def Let_def)
next
  case False
  then have "f32_add a b = (if f32_mag a = f32_mag b then 0
     else f32_round (signF32UI a \<noteq> (f32_mag a < f32_mag b)) (nat \<bar>int (f32_mag a) - int (f32_mag b)\<bar>) 0)"
    by (simp add: f32_add_def sign_xor subMagsF32_value[OF assms])
  then show ?thesis using False
    by (auto simp: f32_sum_def f32_val_def Let_def abs_minus_commute not_less le_less)
qed


section \<open>Multiplication\<close>

text \<open>The significand with its leading bit at place 23, and its exponent.\<close>

lemma normF32_value:
  assumes "f32_mag a \<noteq> 0"
  obtains e s where "normF32 (expF32UI a) (fracF32UI a) = Some (e, s)" "- 22 \<le> e" "e \<le> 255"
    "unat (s OR 0x00800000) * 2 ^ nat (e - 1) = f32_mag a * 2 ^ nat (1 - e)"
    "8388608 \<le> unat (s OR 0x00800000)" "unat (s OR 0x00800000) < 16777216"
proof (cases "expF32UI a = 0")
  case True
  let ?f = "fracF32UI a"
  have f0: "0 < unat ?f" using True assms by (simp add: f32_mag_value)
  define k where "k = 24 - nbits (unat ?f)"
  have nb: "1 \<le> nbits (unat ?f)" "nbits (unat ?f) \<le> 23"
    using nbits_le[of "unat ?f" 0] nbits_le[of "unat ?f" 23] f0 frac_less[of a] by simp_all
  have "nbits (unat ?f * 2 ^ k) = 24" using f0 nb by (simp add: k_def)
  then have n: "8388608 \<le> unat ?f * 2 ^ k" "unat ?f * 2 ^ k < 16777216"
    using nbits_le[of "unat ?f * 2 ^ k" 23] nbits_le[of "unat ?f * 2 ^ k" 24] by simp_all
  have u: "unat (push_bit k ?f) = unat ?f * 2 ^ k" using n by (simp add: unat_push_bit_mod)
  have "bit (push_bit k ?f) 23"
  proof -
    have "unat (push_bit k ?f) div 2 ^ 23 = 1" using n unfolding u by (intro div_nat_eqI) simp_all
    then have "bit (unat (push_bit k ?f)) 23" by (simp add: bit_iff_odd)
    then show ?thesis by (simp add: bit_unsigned_iff)
  qed
  then have o: "push_bit k ?f OR 0x00800000 = push_bit k ?f"
  proof -
    have "push_bit 23 1 = (0x00800000 :: u32)" by simp
    moreover have "push_bit k ?f OR push_bit 23 1 = push_bit k ?f"
      by (rule bit_word_eqI) (use \<open>bit (push_bit k ?f) 23\<close> in \<open>auto simp: bit_or_iff bit_push_bit_iff bit_1_iff simp del: push_bit_of_1\<close>)
    ultimately show ?thesis by simp
  qed
  have "normF32 (expF32UI a) ?f = Some (1 - int k, push_bit k ?f)"
    using True f0 nb by (auto simp: normF32_def normSubnormalF32Sig_def clz32_value k_def Let_def of_nat_diff nat_diff_distrib)
  then show ?thesis
    by (rule that) (use nb n u o True in \<open>auto simp: k_def f32_mag_value\<close>)
next
  case False
  have "unat (fracF32UI a OR 0x00800000) = unat (fracF32UI a) + 8388608"
    using unat_or_push1[of "fracF32UI a" 23] frac_less[of a] by (simp add: push_bit_eq_mult)
  then show ?thesis using False exp_range[of a] frac_less[of a]
    by (intro that[of "expF32UI a" "fracF32UI a"]) (auto simp: normF32_def f32_mag_value nat_diff_distrib)
qed


lemma mul_scale:
  fixes ea eb ez :: int and sa sb ma mb c :: nat
  assumes "sa * 2 ^ nat (ea - 1) = ma * 2 ^ nat (1 - ea)" "sb * 2 ^ nat (eb - 1) = mb * 2 ^ nat (1 - eb)"
    and "int c + ez + int K + 2 = ea + eb + int h"
  shows "sa * sb * 2 ^ c * 2 ^ nat ez * 2 ^ K = ma * mb * 2 ^ (h + nat (- ez))"
proof -
  let ?u = "nat (1 - ea) + nat (1 - eb)"
  have e: "c + nat ez + K + ?u = nat (ea - 1) + nat (eb - 1) + (h + nat (- ez))"
    using assms(3) by linarith
  have "sa * sb * 2 ^ c * 2 ^ nat ez * 2 ^ K * 2 ^ ?u = sa * sb * 2 ^ (c + nat ez + K + ?u)"
    by (simp add: power_add mult_ac)
  also have "\<dots> = (sa * 2 ^ nat (ea - 1)) * (sb * 2 ^ nat (eb - 1)) * 2 ^ (h + nat (- ez))"
    unfolding e by (simp add: power_add mult_ac)
  also have "\<dots> = ma * mb * 2 ^ (h + nat (- ez)) * 2 ^ ?u"
    unfolding assms(1,2) by (simp add: power_add mult_ac)
  finally show ?thesis by simp
qed

lemma unat_mul_ucast:
  "unat (ucast x * ucast y :: u64) = unat (x :: u32) * unat (y :: u32)"
proof -
  have "unat x * unat y < 4294967296 * 4294967296"
    using unsigned_less[of x, where 'a = nat] unsigned_less[of y, where 'a = nat] by (intro mult_strict_mono) simp_all
  moreover have "take_bit 64 (unat x) = unat x" "take_bit 64 (unat y) = unat y"
    using unsigned_less[of x, where 'a = nat] unsigned_less[of y, where 'a = nat] by (simp_all add: take_bit_nat_eq_self)
  ultimately show ?thesis by (simp add: unat_word_ariths unsigned_ucast_eq take_bit_nat_eq_self)
qed

lemma mul_core:
  fixes sA sB :: u32
  assumes A: "8388608 \<le> unat sA" "unat sA < 16777216" "unat sA * 2 ^ nat (ea - 1) = ma * 2 ^ nat (1 - ea)"
    and B: "8388608 \<le> unat sB" "unat sB < 16777216" "unat sB * 2 ^ nat (eb - 1) = mb * 2 ^ nat (1 - eb)"
    and e: "- 22 \<le> ea" "- 22 \<le> eb" "ez = ea + eb - 0x7F"
  defines "z \<equiv> ucast (shortShiftRightJam64 (ucast (push_bit 7 sA) * ucast (push_bit 8 sB)) 32) :: u32"
  shows "roundPackToF32 sign (if z < 0x40000000 then ez - 1 else ez) (if z < 0x40000000 then push_bit 1 z else z)
    = f32_round sign (ma * mb) 149"
proof -
  let ?P = "unat sA * unat sB * 2 ^ 15"
  have "unat (push_bit 7 sA) = unat sA * 128" "unat (push_bit 8 sB) = unat sB * 256"
    using A B by (simp_all add: unat_push_bit_mod)
  then have P: "unat (ucast (push_bit 7 sA) * ucast (push_bit 8 sB) :: u64) = ?P" by (simp add: unat_mul_ucast)
  have lo: "8388608 * 8388608 \<le> unat sA * unat sB" using A B by (intro mult_le_mono) simp_all
  have hi: "unat sA * unat sB < 16777216 * 16777216" using A B by (intro mult_strict_mono) simp_all
  have j: "jam ?P 32 < 2147483648" "536870912 \<le> jam ?P 32"
  proof -
    have "?P div 2 ^ 32 < 2147483648" using hi by (simp add: less_mult_imp_div_less)
    moreover have "jam ?P 32 \<le> Suc (?P div 2 ^ 32)" by (simp add: jam_def Let_def)
    moreover have "even (2147483648 :: nat)" by simp
    ultimately show "jam ?P 32 < 2147483648" by (auto simp: jam_def Let_def)
    have "536870912 \<le> ?P div 2 ^ 32" using lo by simp
    then show "536870912 \<le> jam ?P 32" by (simp add: jam_def Let_def)
  qed
  have z: "unat z = jam ?P 32" unfolding z_def
    using j by (simp add: unsigned_ucast_eq shortShiftRightJam64_value P take_bit_nat_eq_self)
  have "rnd 24 (unat z * 2 ^ nat ez) (7 + nat (- ez)) = rnd 24 (?P * 2 ^ nat ez) (7 + nat (- ez) + 32)"
    unfolding z using j nbits_le[of "jam ?P 32" 29] by (intro rnd_jam) simp_all
  also have "\<dots> = rnd 24 (ma * mb) 149"
    by (rule rnd_cong) (use mul_scale[OF A(3) B(3), of 15 ez 149 39] e A(1) B(1) in \<open>simp_all add: add_ac\<close>)
  finally have R: "rnd 24 (unat z * 2 ^ nat ez) (7 + nat (- ez)) = rnd 24 (ma * mb) 149" .
  have lt: "z < 0x40000000 \<longleftrightarrow> unat z < 1073741824" by (simp add: word_less_nat_alt)
  have range: "- 4294967296 < ez" "- 4294967296 < ez - 1" using e by simp_all
  show ?thesis
  proof (cases "unat z < 1073741824")
    case True
    then have p: "unat (z * 2) = unat z * 2" using unat_shl1[of z] by simp
    have "roundPackToF32 sign (ez - 1) (push_bit 1 z) = f32_round sign (unat z * 2 ^ 1 * 2 ^ nat (ez - int 1)) (7 + nat (int 1 - ez))"
      using roundPackToF32_value[of "push_bit 1 z" "ez - 1" sign] p z j(2) True range(2) by simp
    also have "\<dots> = f32_round sign (ma * mb) 149"
      unfolding f32_round_def R[symmetric] using j z by (subst rnd_shift) simp_all
    finally show ?thesis using True lt by simp
  next
    case False
    then have "roundPackToF32 sign ez z = f32_round sign (unat z * 2 ^ nat ez) (7 + nat (- ez))"
      using roundPackToF32_value[of z ez sign] z j range(1) by simp
    then show ?thesis using False lt R by (simp add: f32_round_def)
  qed
qed

lemma f32_mul_value:
  assumes "expF32UI a < 255" "expF32UI b < 255"
  shows "f32_mul a b = f32_round (signF32UI a \<noteq> signF32UI b) (f32_mag a * f32_mag b) 149"
proof -
  have zero: "packToF32UI s 0 0 = f32_round s 0 149" for s
  proof -
    have "rnd 24 0 149 = 0" by (simp add: rnd_def rne_shift_def)
    then show ?thesis using pack_eq_of_nat[of 0 0 0 s] by (simp add: f32_round_def)
  qed
  have none: "f32_mag c = 0 \<Longrightarrow> normF32 (expF32UI c) (fracF32UI c) = None" for c
    by (auto simp: f32_mag_value normF32_def unat_eq_zero split: if_splits)
  have fin: "expF32UI a \<noteq> 0xFF" "expF32UI b \<noteq> 0xFF" using assms by simp_all
  note code = f32_mul_def[of a b, unfolded Let_def if_not_P[OF fin(1)] if_not_P[OF fin(2)] if_pair]
  show ?thesis
  proof (cases "f32_mag a = 0")
    case True
    then show ?thesis unfolding code using none[OF True] zero by simp
  next
    case False
    then obtain ea sa where a: "normF32 (expF32UI a) (fracF32UI a) = Some (ea, sa)" "- 22 \<le> ea" "ea \<le> 255"
      "unat (sa OR 0x00800000) * 2 ^ nat (ea - 1) = f32_mag a * 2 ^ nat (1 - ea)"
      "8388608 \<le> unat (sa OR 0x00800000)" "unat (sa OR 0x00800000) < 16777216"
      by (rule normF32_value)
    show ?thesis
    proof (cases "f32_mag b = 0")
      case True
      then show ?thesis unfolding code a(1) using none[OF True] zero by simp
    next
      case False
      then obtain eb sb where b: "normF32 (expF32UI b) (fracF32UI b) = Some (eb, sb)" "- 22 \<le> eb" "eb \<le> 255"
        "unat (sb OR 0x00800000) * 2 ^ nat (eb - 1) = f32_mag b * 2 ^ nat (1 - eb)"
        "8388608 \<le> unat (sb OR 0x00800000)" "unat (sb OR 0x00800000) < 16777216"
        by (rule normF32_value)
      show ?thesis unfolding code a(1) b(1) option.case prod.case
        by (rule mul_core[OF a(5,6,4) b(5,6,4) a(2) b(2) refl])
    qed
  qed
qed

end
