(* ===== verification/SfConv.thy ===== *)
theory SfConv
  imports SfF64 SfF32Ops
begin

text \<open>
  Conversions between the two precisions and the integers, from
  \<^verbatim>\<open>lib/softfloat/SoftFloat-3e/source\<close>, and the operators of \<^verbatim>\<open>lib/trv32p3_float.h\<close>.  A conversion to an
  integer truncates (\<open>r_minMag\<close>); its result for a NaN or an argument out of range is fixed in
  \<open>specialize.h\<close>.  A \<open>long long\<close> argument or result is its bit pattern, and so is an \<open>int\<close>.
\<close>

section \<open>Between the precisions\<close>

definition f32_to_f64 :: "u32 \<Rightarrow> u64" where
  "f32_to_f64 a =
     (let sign = signF32UI a; exp = expF32UI a; frac = fracF32UI a
      in if exp = 0xFF then (if frac \<noteq> 0 then defaultNaNF64UI else packToF64UI sign 0x7FF 0)
         else if exp = 0 \<and> frac = 0 then packToF64UI sign 0 0
         else
           let (exp, frac) = (if exp = 0 then (fst (normSubnormalF32Sig frac) - 1, snd (normSubnormalF32Sig frac))
                              else (exp, frac))
           in packToF64UI sign (exp + 0x380) (push_bit 29 (ucast frac)))"

definition f64_to_f32 :: "u64 \<Rightarrow> u32" where
  "f64_to_f32 a =
     (let sign = signF64UI a; exp = expF64UI a; frac = fracF64UI a
      in if exp = 0x7FF then (if frac \<noteq> 0 then defaultNaNF32UI else packToF32UI sign 0xFF 0)
         else
           let frac32 = ucast (shortShiftRightJam64 frac 22) :: u32
           in if word_of_int exp OR frac32 = 0 then packToF32UI sign 0 0
              else roundPackToF32 sign (exp - 0x381) (frac32 OR 0x40000000))"

section \<open>To integers\<close>

definition i32_fromPosOverflow :: u32 where "i32_fromPosOverflow = 0x7FFFFFFF"
definition i32_fromNegOverflow :: u32 where "i32_fromNegOverflow = - 0x7FFFFFFF - 1"
definition i32_fromNaN :: u32 where "i32_fromNaN = 0"
definition ui32_fromPosOverflow :: u32 where "ui32_fromPosOverflow = 0xFFFFFFFF"
definition ui32_fromNegOverflow :: u32 where "ui32_fromNegOverflow = 0"
definition ui32_fromNaN :: u32 where "ui32_fromNaN = 0"
definition i64_fromPosOverflow :: u64 where "i64_fromPosOverflow = 0x7FFFFFFFFFFFFFFF"
definition i64_fromNegOverflow :: u64 where "i64_fromNegOverflow = - 0x7FFFFFFFFFFFFFFF - 1"
definition i64_fromNaN :: u64 where "i64_fromNaN = 0"
definition ui64_fromPosOverflow :: u64 where "ui64_fromPosOverflow = 0xFFFFFFFFFFFFFFFF"
definition ui64_fromNegOverflow :: u64 where "ui64_fromNegOverflow = 0"
definition ui64_fromNaN :: u64 where "ui64_fromNaN = 0"

lemmas overflow_results = i32_fromPosOverflow_def i32_fromNegOverflow_def i32_fromNaN_def
  ui32_fromPosOverflow_def ui32_fromNegOverflow_def ui32_fromNaN_def
  i64_fromPosOverflow_def i64_fromNegOverflow_def i64_fromNaN_def
  ui64_fromPosOverflow_def ui64_fromNegOverflow_def ui64_fromNaN_def

definition f32_to_i32_r_minMag :: "u32 \<Rightarrow> u32" where
  "f32_to_i32_r_minMag a =
     (let exp = expF32UI a; sig = fracF32UI a; shiftDist = 0x9E - exp; sign = signF32UI a
      in if 32 \<le> shiftDist then 0
         else if shiftDist \<le> 0 then
           if a = packToF32UI True 0x9E 0 then - 0x7FFFFFFF - 1
           else if exp = 0xFF \<and> sig \<noteq> 0 then i32_fromNaN
           else if sign then i32_fromNegOverflow else i32_fromPosOverflow
         else
           let absZ = drop_bit (nat shiftDist) (push_bit 8 (sig OR 0x00800000))
           in if sign then - absZ else absZ)"

definition f32_to_ui32_r_minMag :: "u32 \<Rightarrow> u32" where
  "f32_to_ui32_r_minMag a =
     (let exp = expF32UI a; sig = fracF32UI a; shiftDist = 0x9E - exp; sign = signF32UI a
      in if 32 \<le> shiftDist then 0
         else if sign \<or> shiftDist < 0 then
           if exp = 0xFF \<and> sig \<noteq> 0 then ui32_fromNaN
           else if sign then ui32_fromNegOverflow else ui32_fromPosOverflow
         else drop_bit (nat shiftDist) (push_bit 8 (sig OR 0x00800000)))"

definition f32_to_i64_r_minMag :: "u32 \<Rightarrow> u64" where
  "f32_to_i64_r_minMag a =
     (let exp = expF32UI a; sig = fracF32UI a; shiftDist = 0xBE - exp; sign = signF32UI a
      in if 64 \<le> shiftDist then 0
         else if shiftDist \<le> 0 then
           if a = packToF32UI True 0xBE 0 then - 0x7FFFFFFFFFFFFFFF - 1
           else if exp = 0xFF \<and> sig \<noteq> 0 then i64_fromNaN
           else if sign then i64_fromNegOverflow else i64_fromPosOverflow
         else
           let sig64 = push_bit 40 (ucast (sig OR 0x00800000));
               absZ = drop_bit (nat shiftDist) sig64
           in if sign then - absZ else absZ)"

definition f32_to_ui64_r_minMag :: "u32 \<Rightarrow> u64" where
  "f32_to_ui64_r_minMag a =
     (let exp = expF32UI a; sig = fracF32UI a; shiftDist = 0xBE - exp; sign = signF32UI a
      in if 64 \<le> shiftDist then 0
         else if sign \<or> shiftDist < 0 then
           if exp = 0xFF \<and> sig \<noteq> 0 then ui64_fromNaN
           else if sign then ui64_fromNegOverflow else ui64_fromPosOverflow
         else drop_bit (nat shiftDist) (push_bit 40 (ucast (sig OR 0x00800000))))"

definition f64_to_i32_r_minMag :: "u64 \<Rightarrow> u32" where
  "f64_to_i32_r_minMag a =
     (let exp = expF64UI a; sig = fracF64UI a; shiftDist = 0x433 - exp; sign = signF64UI a
      in if 53 \<le> shiftDist then 0
         else if shiftDist < 22 then
           if sign \<and> exp = 0x41E \<and> sig < 0x0000000000200000 then - 0x7FFFFFFF - 1
           else if exp = 0x7FF \<and> sig \<noteq> 0 then i32_fromNaN
           else if sign then i32_fromNegOverflow else i32_fromPosOverflow
         else
           let absZ = ucast (drop_bit (nat shiftDist) (sig OR 0x0010000000000000))
           in if sign then - absZ else absZ)"

definition f64_to_ui32_r_minMag :: "u64 \<Rightarrow> u32" where
  "f64_to_ui32_r_minMag a =
     (let exp = expF64UI a; sig = fracF64UI a; shiftDist = 0x433 - exp; sign = signF64UI a
      in if 53 \<le> shiftDist then 0
         else if sign \<or> shiftDist < 21 then
           if exp = 0x7FF \<and> sig \<noteq> 0 then ui32_fromNaN
           else if sign then ui32_fromNegOverflow else ui32_fromPosOverflow
         else ucast (drop_bit (nat shiftDist) (sig OR 0x0010000000000000)))"

definition f64_to_i64_r_minMag :: "u64 \<Rightarrow> u64" where
  "f64_to_i64_r_minMag a =
     (let sign = signF64UI a; exp = expF64UI a; sig = fracF64UI a; shiftDist = 0x433 - exp
      in if shiftDist \<le> 0 then
           if shiftDist < - 10 then
             if a = packToF64UI True 0x43E 0 then - 0x7FFFFFFFFFFFFFFF - 1
             else if exp = 0x7FF \<and> sig \<noteq> 0 then i64_fromNaN
             else if sign then i64_fromNegOverflow else i64_fromPosOverflow
           else
             let absZ = push_bit (nat (- shiftDist)) (sig OR 0x0010000000000000)
             in if sign then - absZ else absZ
         else if 53 \<le> shiftDist then 0
         else
           let absZ = drop_bit (nat shiftDist) (sig OR 0x0010000000000000)
           in if sign then - absZ else absZ)"

definition f64_to_ui64_r_minMag :: "u64 \<Rightarrow> u64" where
  "f64_to_ui64_r_minMag a =
     (let exp = expF64UI a; sig = fracF64UI a; shiftDist = 0x433 - exp; sign = signF64UI a;
          invalid = (if exp = 0x7FF \<and> sig \<noteq> 0 then ui64_fromNaN
                     else if sign then ui64_fromNegOverflow else ui64_fromPosOverflow)
      in if 53 \<le> shiftDist then 0
         else if sign then invalid
         else if shiftDist \<le> 0 then
           if shiftDist < - 11 then invalid
           else push_bit (nat (- shiftDist)) (sig OR 0x0010000000000000)
         else drop_bit (nat shiftDist) (sig OR 0x0010000000000000))"

section \<open>From integers\<close>

definition i32_to_f32 :: "u32 \<Rightarrow> u32" where
  "i32_to_f32 a =
     (let sign = (sint a < 0)
      in if a AND 0x7FFFFFFF = 0 then (if sign then packToF32UI True 0x9E 0 else 0)
         else normRoundPackToF32 sign 0x9C (if sign then - a else a))"

definition ui32_to_f32 :: "u32 \<Rightarrow> u32" where
  "ui32_to_f32 a =
     (if a = 0 then 0
      else if a AND 0x80000000 \<noteq> 0 then roundPackToF32 False 0x9D (drop_bit 1 a OR (a AND 1))
      else normRoundPackToF32 False 0x9C a)"

definition mag64_to_f32 :: "bool \<Rightarrow> u64 \<Rightarrow> u32" where
  "mag64_to_f32 sign absA =
     (let shiftDist = int (countLeadingZeros64 absA) - 40
      in if 0 \<le> shiftDist then
           (if absA \<noteq> 0 then packToF32UI sign (0x95 - shiftDist) (push_bit (nat shiftDist) (ucast absA)) else 0)
         else
           let shiftDist = shiftDist + 7;
               sig = (if shiftDist < 0 then ucast (shortShiftRightJam64 absA (nat (- shiftDist)))
                      else push_bit (nat shiftDist) (ucast absA))
           in roundPackToF32 sign (0x9C - shiftDist) sig)"

definition i64_to_f32 :: "u64 \<Rightarrow> u32" where
  "i64_to_f32 a = (let sign = (sint a < 0) in mag64_to_f32 sign (if sign then - a else a))"

definition ui64_to_f32 :: "u64 \<Rightarrow> u32" where
  "ui64_to_f32 a = mag64_to_f32 False a"

definition i32_to_f64 :: "u32 \<Rightarrow> u64" where
  "i32_to_f64 a =
     (if a = 0 then 0
      else
        let sign = (sint a < 0);
            absA = (if sign then - a else a);
            shiftDist = countLeadingZeros32 absA + 21
        in packToF64UI sign (0x432 - int shiftDist) (push_bit shiftDist (ucast absA)))"

definition ui32_to_f64 :: "u32 \<Rightarrow> u64" where
  "ui32_to_f64 a =
     (if a = 0 then 0
      else
        let shiftDist = countLeadingZeros32 a + 21
        in packToF64UI False (0x432 - int shiftDist) (push_bit shiftDist (ucast a)))"

definition i64_to_f64 :: "u64 \<Rightarrow> u64" where
  "i64_to_f64 a =
     (let sign = (sint a < 0)
      in if a AND 0x7FFFFFFFFFFFFFFF = 0 then (if sign then packToF64UI True 0x43E 0 else 0)
         else normRoundPackToF64 sign 0x43C (if sign then - a else a))"

definition ui64_to_f64 :: "u64 \<Rightarrow> u64" where
  "ui64_to_f64 a =
     (if a = 0 then 0
      else if a AND 0x8000000000000000 \<noteq> 0 then roundPackToF64 False 0x43D (shortShiftRightJam64 a 1)
      else normRoundPackToF64 False 0x43C a)"

section \<open>The operators of the compiler\<close>

definition float_ge :: "u32 \<Rightarrow> u32 \<Rightarrow> bool" where "float_ge a b \<longleftrightarrow> f32_le b a"
definition float_gt :: "u32 \<Rightarrow> u32 \<Rightarrow> bool" where "float_gt a b \<longleftrightarrow> f32_lt b a"
definition float_ne :: "u32 \<Rightarrow> u32 \<Rightarrow> bool" where "float_ne a b \<longleftrightarrow> \<not> f32_eq a b"

definition schar_to_float :: "u8 \<Rightarrow> u32" where "schar_to_float a = i32_to_f32 (scast a)"
definition float_to_schar :: "u32 \<Rightarrow> u8" where "float_to_schar a = ucast (f32_to_i32_r_minMag a)"
definition short_to_float :: "u16 \<Rightarrow> u32" where "short_to_float a = i32_to_f32 (scast a)"
definition float_to_short :: "u32 \<Rightarrow> u16" where "float_to_short a = ucast (f32_to_i32_r_minMag a)"
definition uchar_to_float :: "u8 \<Rightarrow> u32" where "uchar_to_float a = ui32_to_f32 (ucast a)"
definition float_to_uchar :: "u32 \<Rightarrow> u8" where "float_to_uchar a = ucast (f32_to_ui32_r_minMag a)"
definition ushort_to_float :: "u16 \<Rightarrow> u32" where "ushort_to_float a = ui32_to_f32 (ucast a)"
definition float_to_ushort :: "u32 \<Rightarrow> u16" where "float_to_ushort a = ucast (f32_to_ui32_r_minMag a)"

end
