(* ===== verification/SfSpec.thy ===== *)
theory SfSpec
  imports SfConv
begin

text \<open>
  The contract of the single-precision operations: the result is the representable number nearest to the exact
  one, ties to the even significand, infinity from half a unit above the largest finite number, and the
  comparisons are the order of the values, with NaN unordered.
\<close>

section \<open>Correct rounding\<close>

text \<open>\<open>r\<close> is the exact magnitude \<open>n / 2\<^sup>k\<close> (in units of \<open>2\<^sup>-\<^sup>1\<^sup>4\<^sup>9\<close>) with sign \<open>s\<close>, rounded as IEEE 754 has it.\<close>

definition f32_rounds :: "u32 \<Rightarrow> bool \<Rightarrow> nat \<Rightarrow> nat \<Rightarrow> bool" where
  "f32_rounds r s n k \<longleftrightarrow>
     (if n < (2 ^ 25 - 1) * 2 ^ 252 * 2 ^ k
      then signF32UI r = s \<and> expF32UI r < 255 \<and>
        (\<forall>c. expF32UI c < 255 \<longrightarrow>
          \<bar>int (f32_mag r) * 2 ^ k - int n\<bar> \<le> \<bar>int (f32_mag c) * 2 ^ k - int n\<bar> \<and>
          (\<bar>int (f32_mag r) * 2 ^ k - int n\<bar> = \<bar>int (f32_mag c) * 2 ^ k - int n\<bar> \<and> f32_mag c \<noteq> f32_mag r
           \<longrightarrow> even (unat r)))
      else r = packToF32UI s 0xFF 0)"

lemma rnd_overflow:
  fixes n k X :: nat
  assumes "2 \<le> p" "odd X"
  shows "rnd p n k \<le> X \<longleftrightarrow> 2 * n < (enc_mag p X + enc_mag p (Suc X)) * 2 ^ k"
proof -
  define e where "e x = \<bar>int (enc_mag p x) * 2 ^ k - int n\<bar>" for x
  have near: "e (rnd p n k) \<le> e y" "y \<noteq> rnd p n k \<Longrightarrow> e (rnd p n k) = e y \<Longrightarrow> even (rnd p n k)" for y
    using rnd_nearest[OF assms(1), of n k y] unfolding e_def by blast+
  have mono: "x < y \<Longrightarrow> int (enc_mag p x) * 2 ^ k < int (enc_mag p y) * 2 ^ k" for x y
    using enc_mag_mono[of p x y] by simp
  have mid: "2 * n < (enc_mag p X + enc_mag p (Suc X)) * 2 ^ k
    \<longleftrightarrow> 2 * int n < int (enc_mag p X) * 2 ^ k + int (enc_mag p (Suc X)) * 2 ^ k"
    by (simp only: of_nat_less_iff[where 'a = int, symmetric]) (simp add: algebra_simps)
  show ?thesis unfolding mid
  proof
    assume le: "rnd p n k \<le> X"
    show "2 * int n < int (enc_mag p X) * 2 ^ k + int (enc_mag p (Suc X)) * 2 ^ k"
    proof (rule ccontr)
      assume ge: "\<not> ?thesis"
      have up: "int (enc_mag p X) * 2 ^ k < int (enc_mag p (Suc X)) * 2 ^ k" by (rule mono) simp
      have eX: "e (Suc X) \<le> e X" unfolding e_def using ge up by linarith
      show False
      proof (cases "rnd p n k = X")
        case True
        then show False using near(1)[of "Suc X"] near(2)[of "Suc X"] eX assms(2) by simp
      next
        case False
        then have "int (enc_mag p (rnd p n k)) * 2 ^ k < int (enc_mag p X) * 2 ^ k" using le by (intro mono) simp
        then have "e X < e (rnd p n k)" unfolding e_def using ge up by linarith
        then show False using near(1)[of X] by simp
      qed
    qed
  next
    assume lt: "2 * int n < int (enc_mag p X) * 2 ^ k + int (enc_mag p (Suc X)) * 2 ^ k"
    show "rnd p n k \<le> X"
    proof (rule ccontr)
      assume "\<not> ?thesis"
      then have "int (enc_mag p (Suc X)) * 2 ^ k \<le> int (enc_mag p (rnd p n k)) * 2 ^ k"
        using mono[of "Suc X" "rnd p n k"] by (cases "rnd p n k = Suc X") simp_all
      moreover have "int (enc_mag p X) * 2 ^ k < int (enc_mag p (Suc X)) * 2 ^ k" by (rule mono) simp
      ultimately have "e X < e (rnd p n k)" unfolding e_def using lt by linarith
      then show False using near(1)[of X] by simp
    qed
  qed
qed

lemma f32_finite: "expF32UI c < 255 \<longleftrightarrow> unat c mod 2147483648 < 2139095040"
proof -
  obtain e where "expF32UI c = int e" using exp_range(1)[of c] nonneg_int_cases by blast
  then show ?thesis using frac_less[of c] by (simp add: mod_split) linarith
qed

lemma f32_threshold: "(enc_mag 24 2139095039 + enc_mag 24 (Suc 2139095039)) = (2 ^ 25 - 1) * 2 ^ 252 * 2"
proof -
  have "enc_mag 24 2139095039 = (2 ^ 24 - 1) * 2 ^ 253" using enc_mag_split[of 8388607 24 254] by simp
  moreover have "enc_mag 24 (Suc 2139095039) = 2 ^ 24 * 2 ^ 253" using enc_mag_split[of 0 24 255] by simp
  ultimately show ?thesis by (simp only:) simp
qed

lemma f32_round_rounds: "f32_rounds (f32_round s n k) s n k"
proof -
  let ?x = "rnd 24 n k" and ?r = "f32_round s n k"
  have le24: "(2 :: nat) \<le> 24" by simp
  have lim: "?x \<le> 2139095039 \<longleftrightarrow> n < (2 ^ 25 - 1) * 2 ^ 252 * 2 ^ k"
    using rnd_overflow[of 24 2139095039 n k] unfolding f32_threshold by simp
  show ?thesis
  proof (cases "?x \<le> 2139095039")
    case True
    then have r: "unat ?r = (if s then 2147483648 else 0) + ?x"
      unfolding f32_round_def by (subst unat_of_nat32) simp_all
    have m: "unat ?r mod 2147483648 = ?x" using True unfolding r by simp
    have fin: "expF32UI ?r < 255" unfolding f32_finite m using True by simp
    have sign: "signF32UI ?r = s" unfolding signF32UI_value r using True by simp
    have ev: "even (unat ?r) \<longleftrightarrow> even ?x" unfolding r by simp
    have near: "\<bar>int (f32_mag ?r) * 2 ^ k - int n\<bar> \<le> \<bar>int (f32_mag c) * 2 ^ k - int n\<bar> \<and>
          (\<bar>int (f32_mag ?r) * 2 ^ k - int n\<bar> = \<bar>int (f32_mag c) * 2 ^ k - int n\<bar> \<and> f32_mag c \<noteq> f32_mag ?r
           \<longrightarrow> even (unat ?r))" for c
      using rnd_nearest[of 24 n k "unat c mod 2147483648", OF le24] unfolding ev f32_mag_def m by metis
    have c: "n < (2 ^ 25 - 1) * 2 ^ 252 * 2 ^ k" using True lim by blast
    show ?thesis unfolding f32_rounds_def if_P[OF c] 
      by (intro conjI allI impI fin sign near[THEN conjunct1]) (rule near[THEN conjunct2, rule_format])
  next
    case False
    then have "packToF32UI s 0xFF 0 = ?r" unfolding f32_round_def by (intro pack_eq_of_nat) simp_all
    then show ?thesis using False lim by (simp add: f32_rounds_def)
  qed
qed

lemma f32_neg:
  "unat (b XOR 0x80000000 :: u32) mod 2147483648 = unat b mod 2147483648" "signF32UI (b XOR 0x80000000) \<longleftrightarrow> \<not> signF32UI b"
proof -
  have "take_bit 31 (b XOR 0x80000000 :: u32) = take_bit 31 b" by simp
  then have "unat (take_bit 31 (b XOR 0x80000000)) = unat (take_bit 31 b)" by simp
  then show "unat (b XOR 0x80000000) mod 2147483648 = unat b mod 2147483648"
    by (simp only: unsigned_take_bit_eq) (simp add: take_bit_eq_mod)
  have "signF32UI 0x80000000" by (simp add: signF32UI_value)
  then show "signF32UI (b XOR 0x80000000) \<longleftrightarrow> \<not> signF32UI b" by (simp add: sign_xor)
qed

lemma f32_sub_value:
  assumes "expF32UI a < 255" "expF32UI b < 255"
  shows "f32_sub a b = f32_sum a (b XOR 0x80000000)"
proof -
  have e: "expF32UI (b XOR 0x80000000) < 255" using assms(2) by (simp only: f32_finite f32_neg)
  have m: "f32_mag (b XOR 0x80000000) = f32_mag b" by (simp only: f32_mag_def f32_neg)
  have "signF32UI (a XOR b) \<longleftrightarrow> signF32UI a \<noteq> signF32UI b" "signF32UI (a XOR (b XOR 0x80000000)) \<longleftrightarrow> signF32UI a = signF32UI b"
    using sign_xor[of a b] sign_xor[of a "b XOR 0x80000000"] f32_neg(2)[of b] by auto
  then have "f32_sub a b = f32_add a (b XOR 0x80000000)"
    by (simp add: f32_sub_def f32_add_def addMagsF32_value assms e subMagsF32_value m)
  then show ?thesis using f32_add_value[OF assms(1) e] by simp
qed

lemma f32_sum_rounds:
  "f32_val a + f32_val b \<noteq> 0 \<Longrightarrow>
    f32_rounds (f32_sum a b) (f32_val a + f32_val b < 0) (nat \<bar>f32_val a + f32_val b\<bar>) 0"
  using f32_round_rounds by (simp add: f32_sum_def Let_def)

lemma f32_val_neg: "f32_val (b XOR 0x80000000) = - f32_val b"
  unfolding f32_val_def f32_mag_def f32_neg by simp

section \<open>Order\<close>

text \<open>The bits below the sign.\<close>

definition f32_low :: "u32 \<Rightarrow> nat" where
  "f32_low a = unat a mod 2147483648"

lemma f32_low_zero: "push_bit 1 (a OR b) = 0 \<longleftrightarrow> f32_low a = 0 \<and> f32_low b = 0"
proof -
  have low: "f32_low x = unat (take_bit 31 x)" for x
    by (simp only: f32_low_def unsigned_take_bit_eq) (simp add: take_bit_eq_mod)
  have "push_bit 1 (a OR b) = 0 \<longleftrightarrow> take_bit 31 (a OR b) = 0"
  proof -
    have "unat (push_bit 1 (a OR b)) = 2 * unat (take_bit 31 (a OR b))"
      using unat_shl1[of "a OR b"] low[of "a OR b"] by (simp add: f32_low_def)
    then show ?thesis by (metis mult_is_0 unat_eq_zero zero_neq_numeral)
  qed
  also have "\<dots> \<longleftrightarrow> take_bit 31 a = 0 \<and> take_bit 31 b = 0" by (simp only: take_bit_or or_eq_0_iff)
  finally show ?thesis unfolding low by (simp only: unat_eq_zero)
qed

lemma f32_low_less: "f32_low a < 2147483648"
  by (simp add: f32_low_def)

lemma f32_bits: "unat a = (if signF32UI a then 2147483648 else 0) + f32_low a"
  unfolding f32_low_def mod_split using bits_split[of a] by simp

lemma f32_eq_bits: "a = b \<longleftrightarrow> signF32UI a = signF32UI b \<and> f32_low a = f32_low b"
  using f32_bits[of a] f32_bits[of b] f32_low_less[of a] f32_low_less[of b] by (auto simp: word_unat_eq_iff)

lemma f32_less_bits: "signF32UI a = signF32UI b \<Longrightarrow> a < b \<longleftrightarrow> f32_low a < f32_low b"
  by (simp add: word_less_nat_alt f32_bits[of a] f32_bits[of b])

lemma f32_val_low: "f32_val a = (if signF32UI a then - int (enc_mag 24 (f32_low a)) else int (enc_mag 24 (f32_low a)))"
  by (simp add: f32_val_def f32_mag_def f32_low_def)

lemma enc_mag_eq: "enc_mag p x = enc_mag p y \<longleftrightarrow> x = y"
  using enc_mag_mono[of p x y] enc_mag_mono[of p y x] by (metis linorder_neq_iff)

lemma enc_mag_0: "enc_mag p 0 = 0"
  by (simp add: enc_mag_def)

lemma enc_mag_pos: "0 < enc_mag p x \<longleftrightarrow> 0 < x"
  using enc_mag_mono[of p 0 x] by (simp add: enc_mag_0)

lemma f32_eq_order:
  assumes "\<not> isNaNF32UI a" "\<not> isNaNF32UI b"
  shows "f32_eq a b \<longleftrightarrow> f32_val a = f32_val b"
  using assms enc_mag_pos[of 24 "f32_low a"] enc_mag_pos[of 24 "f32_low b"]
  unfolding f32_eq_def f32_low_zero unfolding f32_eq_bits f32_val_low
  by (auto simp: enc_mag_eq enc_mag_0)

lemma f32_lt_order:
  assumes "\<not> isNaNF32UI a" "\<not> isNaNF32UI b"
  shows "f32_lt a b \<longleftrightarrow> f32_val a < f32_val b"
proof (cases "signF32UI a = signF32UI b")
  case True
  then show ?thesis using assms unfolding f32_lt_def f32_low_zero unfolding f32_eq_bits f32_val_low f32_less_bits[OF True]
    by (auto simp: enc_mag_mono)
next
  case False
  then show ?thesis using assms enc_mag_pos[of 24 "f32_low a"] enc_mag_pos[of 24 "f32_low b"]
    unfolding f32_lt_def f32_low_zero f32_val_low by auto
qed

lemma f32_le_order:
  assumes "\<not> isNaNF32UI a" "\<not> isNaNF32UI b"
  shows "f32_le a b \<longleftrightarrow> f32_val a \<le> f32_val b"
proof (cases "signF32UI a = signF32UI b")
  case True
  then show ?thesis using assms unfolding f32_le_def f32_low_zero unfolding f32_eq_bits f32_val_low f32_less_bits[OF True]
    by (auto simp: enc_mag_mono enc_mag_eq le_less)
next
  case False
  then show ?thesis using assms enc_mag_pos[of 24 "f32_low a"] enc_mag_pos[of 24 "f32_low b"]
    unfolding f32_le_def f32_low_zero f32_val_low by auto
qed

section \<open>Special values\<close>

lemma isNaNF32UI_fields: "isNaNF32UI a \<longleftrightarrow> expF32UI a = 255 \<and> fracF32UI a \<noteq> 0"
proof -
  have m: "(0x7F800000 :: u32) = push_bit 23 (mask 8)" "(0xFF :: u32) = mask 8"
    by (simp_all add: mask_eq_exp_minus_1 push_bit_eq_mult)
  have "NOT a AND 0x7F800000 = 0 \<longleftrightarrow> drop_bit 23 a AND 0xFF = 0xFF" unfolding m
  proof
    assume h: "NOT a AND push_bit 23 (mask 8) = 0"
    show "drop_bit 23 a AND mask 8 = mask 8"
    proof (rule bit_word_eqI)
      fix n assume "n < LENGTH(32)"
      have "\<not> bit (NOT a AND push_bit 23 (mask 8)) (23 + n)" unfolding h by simp
      then show "bit (drop_bit 23 a AND mask 8) n = bit (mask 8 :: u32) n" by (auto simp: bit_simps)
    qed
  next
    assume h: "drop_bit 23 a AND mask 8 = mask 8"
    show "NOT a AND push_bit 23 (mask 8) = 0"
    proof (rule bit_word_eqI)
      fix n assume "n < LENGTH(32)"
      have "bit (drop_bit 23 a AND mask 8) (n - 23) = bit (mask 8 :: u32) (n - 23)" unfolding h ..
      then show "bit (NOT a AND push_bit 23 (mask 8)) n = bit (0 :: u32) n"
        using \<open>n < LENGTH(32)\<close> by (auto simp: bit_simps)
    qed
  qed
  also have "\<dots> \<longleftrightarrow> expF32UI a = 255" unfolding expF32UI_def by (simp add: word_uint_eq_iff)
  finally show ?thesis by (simp add: isNaNF32UI_def fracF32UI_def)
qed

lemma f32_sticky_frac: "expF32UI a = 255 \<Longrightarrow> (word_of_int 255 OR x = 0) = False" for x :: u32
  by (simp add: or_eq_0_iff)

lemma shifted_frac_zero: "push_bit 6 (fracF32UI a) = 0 \<longleftrightarrow> fracF32UI a = 0" "push_bit 7 (fracF32UI a) = 0 \<longleftrightarrow> fracF32UI a = 0"
  using unat_shift_frac[of a] by (metis mult_is_0 unat_eq_zero zero_neq_numeral)+

lemma f32_nan_operand:
  assumes "isNaNF32UI a \<or> isNaNF32UI b"
  shows "f32_add a b = defaultNaNF32UI" "f32_sub a b = defaultNaNF32UI"
    "f32_mul a b = defaultNaNF32UI" "f32_div a b = defaultNaNF32UI"
proof -
  have r: "expF32UI a \<le> 255" "expF32UI b \<le> 255" by (rule exp_range)+
  have "addMagsF32 a b = defaultNaNF32UI \<and> subMagsF32 a b = defaultNaNF32UI"
  proof -
    consider "expF32UI a = expF32UI b" | "expF32UI a < expF32UI b" | "expF32UI b < expF32UI a" by linarith
    then show ?thesis
    proof cases
      case 1
      then have f: "expF32UI a = 255" "expF32UI b = 255" "fracF32UI a OR fracF32UI b \<noteq> 0"
        using assms by (auto simp: isNaNF32UI_fields or_eq_0_iff)
      show ?thesis by (simp add: addMagsF32_def subMagsF32_def propagateNaNF32UI_def f)
    next
      case 2
      then have f: "expF32UI b = 255" "fracF32UI b \<noteq> 0" "expF32UI a < 255"
        using assms r by (auto simp: isNaNF32UI_fields)
      then have d: "expF32UI a - 255 \<noteq> 0" "expF32UI a - 255 < 0" by simp_all
      show ?thesis unfolding addMagsF32_def subMagsF32_def Let_def f(1) if_not_P[OF d(1)] if_P[OF d(2)] shifted_frac_zero
        by (simp add: f(2) propagateNaNF32UI_def)
    next
      case 3
      then have f: "expF32UI a = 255" "fracF32UI a \<noteq> 0" "expF32UI b < 255"
        using assms r by (auto simp: isNaNF32UI_fields)
      then have d: "255 - expF32UI b \<noteq> 0" "\<not> 255 - expF32UI b < 0" by simp_all
      show ?thesis unfolding addMagsF32_def subMagsF32_def Let_def f(1) if_not_P[OF d(1)] if_not_P[OF d(2)] shifted_frac_zero
        by (simp add: f(2) propagateNaNF32UI_def)
    qed
  qed
  then show "f32_add a b = defaultNaNF32UI" "f32_sub a b = defaultNaNF32UI"
    by (simp_all add: f32_add_def f32_sub_def)
  show "f32_mul a b = defaultNaNF32UI"
    using assms r unfolding isNaNF32UI_fields f32_mul_def Let_def propagateNaNF32UI_def by auto
  show "f32_div a b = defaultNaNF32UI"
    using assms r unfolding isNaNF32UI_fields f32_div_def Let_def propagateNaNF32UI_def by auto
qed

lemma f32_nan_unordered:
  assumes "isNaNF32UI a \<or> isNaNF32UI b"
  shows "\<not> f32_eq a b" "\<not> f32_lt a b" "\<not> f32_le a b"
  using assms by (auto simp: f32_eq_def f32_lt_def f32_le_def)

lemma f32_inf_fields:
  "expF32UI (packToF32UI s 0xFF 0) = 255" "fracF32UI (packToF32UI s 0xFF 0) = 0" "signF32UI (packToF32UI s 0xFF 0) = s"
  by (cases s; simp add: packToF32UI_def expF32UI_def fracF32UI_def signF32UI_def)+

lemma f32_zero_fields:
  "expF32UI (packToF32UI s 0 0) = 0" "fracF32UI (packToF32UI s 0 0) = 0" "signF32UI (packToF32UI s 0 0) = s"
  by (cases s; simp add: packToF32UI_def expF32UI_def fracF32UI_def signF32UI_def)+

end
