(* ===== verification/SfF64Ops.thy ===== *)
theory SfF64Ops
  imports SfSpec
begin

text \<open>
  The fields and values of double precision, and the two conversions between the precisions: widening is exact,
  narrowing rounds once, so widening and narrowing again gives the number back.
\<close>

section \<open>Fields\<close>

lemma fracF64UI_value: "unat (fracF64UI a) = unat a mod 4503599627370496"
  using unat_and_low[of a 52] by (simp add: fracF64UI_def mask_eq_exp_minus_1)

lemma expF64UI_value: "expF64UI a = int (unat a div 4503599627370496 mod 2048)"
proof -
  have "unat (drop_bit 52 a AND 0x7FF) = unat a div 4503599627370496 mod 2048"
    using unat_and_low[of "drop_bit 52 a" 11] by (simp add: mask_eq_exp_minus_1 unat_drop_bit_div)
  then show ?thesis by (simp add: expF64UI_def uint_nat)
qed

lemma signF64UI_value: "signF64UI a \<longleftrightarrow> 9223372036854775808 \<le> unat a"
proof -
  have "unat (drop_bit 63 a) = unat a div 9223372036854775808" by (simp add: unat_drop_bit_div)
  then have "drop_bit 63 a = 0 \<longleftrightarrow> unat a div 9223372036854775808 = 0" by (metis unat_eq_zero)
  then show ?thesis unfolding signF64UI_def by (simp add: div_eq_0_iff not_less)
qed

lemma frac64_less: "unat (fracF64UI a) < 4503599627370496"
  by (simp add: fracF64UI_value)

lemma exp64_range: "0 \<le> expF64UI a" "expF64UI a \<le> 2047"
  by (simp_all add: expF64UI_value)

lemma packToF64UI_value:
  assumes "0 \<le> e" "nat e * 4503599627370496 + unat sig < 9223372036854775808"
  shows "unat (packToF64UI s e sig) = (if s then 9223372036854775808 else 0) + nat e * 4503599627370496 + unat sig"
proof -
  have s: "(push_bit 63 (of_bool s) :: u64) = of_nat (if s then 9223372036854775808 else 0)" by simp
  have "word_of_int e = (of_nat (nat e) :: u64)" using assms(1) by simp
  then have p: "push_bit 52 (word_of_int e) = (of_nat (nat e * 4503599627370496) :: u64)" by (simp add: push_bit_eq_mult)
  have "packToF64UI s e sig = of_nat ((if s then 9223372036854775808 else 0) + nat e * 4503599627370496 + unat sig)"
    unfolding packToF64UI_def s p by simp
  then show ?thesis using assms(2) by (simp add: unat_of_nat_lt del: of_nat_add)
qed

lemma pack64_fields:
  assumes "0 \<le> e" "e \<le> 2047" "unat sig < 4503599627370496"
  shows "expF64UI (packToF64UI s e sig) = e" "unat (fracF64UI (packToF64UI s e sig)) = unat sig"
    "signF64UI (packToF64UI s e sig) = s"
proof -
  have "nat e \<le> 2047" using assms(2) by simp
  then have b: "nat e * 4503599627370496 + unat sig < 9223372036854775808" using assms(3) by linarith
  note u = packToF64UI_value[OF assms(1) b, of s]
  define t where "t = (if s then 2048 else 0) + nat e"
  have "unat (packToF64UI s e sig) = t * 4503599627370496 + unat sig" unfolding u t_def by simp
  then have d: "unat (packToF64UI s e sig) div 4503599627370496 = t"
    "unat (packToF64UI s e sig) mod 4503599627370496 = unat sig" using assms(3) by simp_all
  show "unat (fracF64UI (packToF64UI s e sig)) = unat sig" unfolding fracF64UI_value d ..
  show "signF64UI (packToF64UI s e sig) = s" unfolding signF64UI_value u using b by simp
  show "expF64UI (packToF64UI s e sig) = e" unfolding expF64UI_value d t_def using assms(1) \<open>nat e \<le> 2047\<close> by simp
qed

text \<open>A significand with its leading bit at place 52 carries into the exponent.\<close>

lemma pack64_hidden:
  assumes "0 \<le> e" "e < 2047" "4503599627370496 \<le> unat sig" "unat sig < 9007199254740992"
  shows "expF64UI (packToF64UI s e sig) = e + 1 \<and>
    unat (fracF64UI (packToF64UI s e sig)) = unat sig - 4503599627370496 \<and> signF64UI (packToF64UI s e sig) = s"
proof -
  define f where "f = (of_nat (unat sig - 4503599627370496) :: u64)"
  have f: "unat f = unat sig - 4503599627370496" unfolding f_def using assms(4) by (intro unat_of_nat_lt) simp
  have "nat e \<le> 2046" "nat (e + 1) = Suc (nat e)" using assms(1,2) by simp_all
  then have "unat (packToF64UI s e sig) = unat (packToF64UI s (e + 1) f)"
    using assms by (subst (1 2) packToF64UI_value) (simp_all add: f)
  then have "packToF64UI s e sig = packToF64UI s (e + 1) f" by (simp only: word_unat_eq_iff)
  then show ?thesis using pack64_fields[of "e + 1" f s] assms by (simp add: f)
qed

text \<open>The magnitude of a finite number, in units of \<open>2\<^sup>-\<^sup>1\<^sup>0\<^sup>7\<^sup>4\<close>.\<close>

definition f64_mag :: "u64 \<Rightarrow> nat" where
  "f64_mag a = enc_mag 53 (unat a mod 9223372036854775808)"

lemma bits64_split:
  "unat (a :: u64) mod 9223372036854775808 = nat (expF64UI a) * 4503599627370496 + unat (fracF64UI a)"
proof -
  have "unat a mod (4503599627370496 * 2048) = 4503599627370496 * (unat a div 4503599627370496 mod 2048) + unat a mod 4503599627370496"
    by (rule mod_mult2_eq)
  then show ?thesis unfolding fracF64UI_value expF64UI_value nat_int by simp
qed

lemma f64_mag_value:
  "f64_mag a = (if expF64UI a = 0 then unat (fracF64UI a)
                else (4503599627370496 + unat (fracF64UI a)) * 2 ^ (nat (expF64UI a) - 1))"
  using enc_mag_split[of "unat (fracF64UI a)" 53 "nat (expF64UI a)"] frac64_less[of a] exp64_range[of a]
  by (simp add: f64_mag_def bits64_split)

section \<open>Narrowing\<close>

lemma rnd_tiny: "1 \<le> p \<Longrightarrow> 2 * n < 2 ^ k \<Longrightarrow> rnd p n k = 0"
proof -
  assume a: "1 \<le> p" "2 * n < 2 ^ k"
  then have "n < 2 ^ k" by linarith
  then have "nbits n \<le> k" by (simp add: nbits_le)
  then have "max k (nbits n - p) = k" by simp
  then show ?thesis using a \<open>n < 2 ^ k\<close> by (simp add: rnd_def rne_shift_def)
qed

lemma unat_or_hidden:
  assumes "unat (x :: u32) < 2 ^ 30"
  shows "unat (x OR 0x40000000) = 2 ^ 30 + unat x"
  using unat_or_push1[of x 30] assms by (simp add: push_bit_eq_mult)

lemma f64_to_f32_value:
  assumes "expF64UI a < 2047"
  shows "f64_to_f32 a = f32_round (signF64UI a) (f64_mag a) 925"
proof -
  let ?e = "expF64UI a" and ?f = "fracF64UI a" and ?s = "signF64UI a"
  define x where "x = (ucast (shortShiftRightJam64 ?f 22) :: u32)"
  have j: "jam (unat ?f) 22 < 2 ^ 30"
  proof -
    have "unat ?f div 2 ^ 22 < 2 ^ 30" using frac64_less[of a] by (simp add: less_mult_imp_div_less)
    then have "jam (unat ?f) 22 \<le> 2 ^ 30" by (simp add: jam_def Let_def)
    moreover have "jam (unat ?f) 22 \<noteq> 2 ^ 30"
      using \<open>unat ?f div 2 ^ 22 < 2 ^ 30\<close> by (auto simp: jam_def Let_def)
    ultimately show ?thesis by simp
  qed
  then have x: "unat x = jam (unat ?f) 22"
    unfolding x_def by (simp add: unsigned_ucast_eq shortShiftRightJam64_value take_bit_nat_eq_self)
  have sig: "unat (x OR 0x40000000) = 2 ^ 30 + jam (unat ?f) 22" using unat_or_hidden[of x] j x by simp
  have ne: "?e \<noteq> 0x7FF" using assms by simp
  have zero: "packToF32UI s 0 0 = f32_round s 0 925" for s
    using pack_eq_of_nat[of 0 0 0 s] rnd_tiny[of 24 0 925] by (simp add: f32_round_def)
  note code = f64_to_f32_def[of a, unfolded Let_def if_not_P[OF ne] x_def[symmetric]]
  have R: "roundPackToF32 ?s (?e - 0x381) (x OR 0x40000000) =
    f32_round ?s (unat (x OR 0x40000000) * 2 ^ nat (?e - 0x381)) (7 + nat (- (?e - 0x381)))"
    by (rule roundPackToF32_value) (use sig j exp64_range[of a] in simp_all)
  show ?thesis
  proof (cases "?e = 0")
    case True
    have tiny: "rnd 24 (f64_mag a) 925 = 0"
      by (rule rnd_tiny) (use frac64_less[of a] True in \<open>simp_all add: f64_mag_value\<close>)
    have "rnd 24 (unat (x OR 0x40000000)) 904 = 0" by (rule rnd_tiny) (use sig j in simp_all)
    then have "roundPackToF32 ?s (?e - 0x381) (x OR 0x40000000) = f32_round ?s 0 925"
      using R True rnd_tiny[of 24 0 925] by (simp add: f32_round_def)
    then show ?thesis unfolding code using tiny zero rnd_tiny[of 24 0 925] by (auto simp: f32_round_def)
  next
    case False
    then have pos: "1 \<le> ?e" using exp64_range(1)[of a] by simp
    have n: "unat (x OR 0x40000000) = jam (4503599627370496 + unat ?f) 22"
      using jam_add[of "2 ^ 30" 22 "unat ?f"] sig by simp
    let ?N = "4503599627370496 + unat ?f"
    have b: "26 \<le> nbits (jam ?N 22)" "2 \<le> jam ?N 22"
      using nbits_le[of "jam ?N 22" 25] n sig by simp_all
    have "nat (?e - 0x381) + 925 = nat ?e - 1 + (7 + nat (- (?e - 0x381)) + 22)" using pos by linarith
    then have "?N * 2 ^ nat (?e - 0x381) * 2 ^ 925 = f64_mag a * 2 ^ (7 + nat (- (?e - 0x381)) + 22)"
      using False by (simp only: f64_mag_value if_False mult.assoc power_add[symmetric])
    then have "rnd 24 (jam ?N 22 * 2 ^ nat (?e - 0x381)) (7 + nat (- (?e - 0x381))) = rnd 24 (f64_mag a) 925"
      using b by (subst rnd_jam) (auto intro!: rnd_cong)
    moreover have "\<not> (word_of_int ?e OR x = 0)"
    proof -
      have "(word_of_int ?e :: u32) = of_nat (nat ?e)" using pos by simp
      moreover have "unat (of_nat (nat ?e) :: u32) = nat ?e" using assms by (intro unat_of_nat32) simp
      ultimately have "(word_of_int ?e :: u32) \<noteq> 0" using pos by (metis unat_0 nat_0_iff not_one_le_zero order_trans)
      then show ?thesis by (simp add: or_eq_0_iff)
    qed
    ultimately show ?thesis unfolding code R n by (simp add: f32_round_def)
  qed
qed

section \<open>Widening\<close>

lemma unat_widen: "unat x < 2 ^ 32 \<Longrightarrow> unat (push_bit 29 (ucast x) :: u64) = unat (x :: u32) * 2 ^ 29"
  by (simp add: unat_push_bit_mod unsigned_ucast_eq take_bit_nat_eq_self)

lemma f32_to_f64_value:
  assumes "expF32UI a < 255"
  shows "f64_mag (f32_to_f64 a) = f32_mag a * 2 ^ 925" "expF64UI (f32_to_f64 a) < 2047"
    "signF64UI (f32_to_f64 a) = signF32UI a"
proof -
  let ?e = "expF32UI a" and ?f = "fracF32UI a" and ?z = "f32_to_f64 a"
  have ne: "?e \<noteq> 0xFF" using assms by simp
  note code = f32_to_f64_def[of a, unfolded Let_def if_not_P[OF ne] if_pair]
  have f: "unat ?f < 8388608" by (rule frac_less)
  consider "?e = 0" "?f = 0" | "?e = 0" "?f \<noteq> 0" | "?e \<noteq> 0" by blast
  then have "f64_mag ?z = f32_mag a * 2 ^ 925 \<and> expF64UI ?z < 2047 \<and> signF64UI ?z = signF32UI a"
  proof cases
    case 1
    then have "?z = packToF64UI (signF32UI a) 0 0" unfolding code by simp
    then show ?thesis using 1 pack64_fields[of 0 0] by (simp add: f64_mag_value f32_mag_value)
  next
    case 2
    then have f0: "0 < unat ?f" by (simp add: unat_gt_0)
    define k where "k = 24 - nbits (unat ?f)"
    have nb: "1 \<le> nbits (unat ?f)" "nbits (unat ?f) \<le> 23"
      using nbits_le[of "unat ?f" 0] nbits_le[of "unat ?f" 23] f0 f by simp_all
    have "nbits (unat ?f * 2 ^ k) = 24" using f0 nb by (simp add: k_def)
    then have n: "8388608 \<le> unat ?f * 2 ^ k" "unat ?f * 2 ^ k < 16777216"
      using nbits_le[of "unat ?f * 2 ^ k" 23] nbits_le[of "unat ?f * 2 ^ k" 24] by simp_all
    have u: "unat (push_bit k ?f) = unat ?f * 2 ^ k" using n by (simp add: unat_push_bit_mod)
    have norm: "normSubnormalF32Sig ?f = (1 - int k, push_bit k ?f)"
      using nb by (simp add: normSubnormalF32Sig_def clz32_value k_def of_nat_diff nat_diff_distrib)
    have wf: "unat (push_bit 29 (ucast (push_bit k ?f)) :: u64) = unat ?f * 2 ^ k * 2 ^ 29"
      using n by (subst unat_widen) (simp_all add: u)
    have k: "k \<le> 23" using nb by (simp add: k_def)
    have z: "?z = packToF64UI (signF32UI a) (896 - int k) (push_bit 29 (ucast (push_bit k ?f)))"
      unfolding code using 2 norm by simp
    have "expF64UI ?z = 896 - int k + 1 \<and> unat (fracF64UI ?z) = unat ?f * 2 ^ k * 2 ^ 29 - 4503599627370496 \<and>
      signF64UI ?z = signF32UI a"
      unfolding z wf[symmetric] by (rule pack64_hidden) (use k n wf in simp_all)
    then have fields: "expF64UI ?z = 897 - int k" "unat (fracF64UI ?z) = unat ?f * 2 ^ k * 2 ^ 29 - 4503599627370496"
      "signF64UI ?z = signF32UI a" by simp_all
    have hid: "4503599627370496 + (unat ?f * 2 ^ k * 2 ^ 29 - 4503599627370496) = unat ?f * 2 ^ k * 2 ^ 29" using n by simp
    have ex: "k + 29 + (nat (897 - int k) - 1) = 925" using k by simp
    have "f64_mag ?z = (4503599627370496 + (unat ?f * 2 ^ k * 2 ^ 29 - 4503599627370496)) * 2 ^ (nat (897 - int k) - 1)"
      using fields n k by (simp add: f64_mag_value)
    then have "f64_mag ?z = unat ?f * 2 ^ (k + 29 + (nat (897 - int k) - 1))"
      unfolding hid by (simp only: power_add mult.assoc)
    then have "f64_mag ?z = unat ?f * 2 ^ 925" unfolding ex .
    then show ?thesis using fields n k 2 by (simp add: f32_mag_value)
  next
    case 3
    then have e: "1 \<le> ?e" using exp_range(1)[of a] by simp
    have wf: "unat (push_bit 29 (ucast ?f) :: u64) = unat ?f * 2 ^ 29" using f by (intro unat_widen) simp
    have z: "?z = packToF64UI (signF32UI a) (?e + 0x380) (push_bit 29 (ucast ?f))" unfolding code using 3 by simp
    note fields = pack64_fields[of "?e + 0x380" "push_bit 29 (ucast ?f)" "signF32UI a", folded z, unfolded wf]
    have ex: "29 + (nat (?e + 0x380) - 1) = nat ?e - 1 + 925" using e by linarith
    have hid: "4503599627370496 + unat ?f * 2 ^ 29 = (8388608 + unat ?f) * 2 ^ 29" by simp
    have "f64_mag ?z = (4503599627370496 + unat ?f * 2 ^ 29) * 2 ^ (nat (?e + 0x380) - 1)"
      using fields f e assms by (simp add: f64_mag_value)
    then have "f64_mag ?z = (8388608 + unat ?f) * 2 ^ (29 + (nat (?e + 0x380) - 1))"
      unfolding hid by (simp only: power_add mult.assoc)
    then have "f64_mag ?z = (8388608 + unat ?f) * 2 ^ (nat ?e - 1) * 2 ^ 925"
      unfolding ex by (simp only: power_add mult.assoc)
    then show ?thesis using fields f e assms 3 by (simp add: f32_mag_value)
  qed
  then show "f64_mag ?z = f32_mag a * 2 ^ 925" "expF64UI ?z < 2047" "signF64UI ?z = signF32UI a" by blast+
qed

lemma rnd_enc_mag:
  assumes "2 \<le> p"
  shows "rnd p (enc_mag p x) 0 = x"
proof -
  have "int (enc_mag p (rnd p (enc_mag p x) 0)) = int (enc_mag p x)"
    using rnd_nearest[OF assms, of "enc_mag p x" 0 x] by simp
  then show ?thesis by (simp add: enc_mag_eq)
qed

lemma f32_widen_narrow:
  assumes "expF32UI a < 255"
  shows "f64_to_f32 (f32_to_f64 a) = a"
proof -
  have low: "f32_low a < 2139095040" using assms unfolding f32_finite f32_low_def .
  have "rnd 24 (f32_mag a * 2 ^ 925) 925 = f32_low a"
  proof (cases "f32_mag a = 0")
    case True
    then have "f32_low a = 0" using enc_mag_pos[of 24 "f32_low a"] by (simp add: f32_mag_def f32_low_def)
    then show ?thesis using True rnd_tiny[of 24 0 925] by simp
  next
    case False
    then show ?thesis using rnd_scale[of "f32_mag a" 24 925 0] rnd_enc_mag[of 24 "f32_low a"]
      by (simp add: f32_mag_def f32_low_def)
  qed
  then have "f64_to_f32 (f32_to_f64 a) = of_nat ((if signF32UI a then 2147483648 else 0) + f32_low a)"
    using low by (simp add: f64_to_f32_value f32_to_f64_value[OF assms] f32_round_def)
  also have "\<dots> = of_nat (unat a)" unfolding f32_bits[of a] ..
  finally show ?thesis by simp
qed

section \<open>Integers\<close>

lemma unat_hidden64:
  assumes "unat x < 4503599627370496"
  shows "unat (x OR 0x0010000000000000) = unat (x :: u64) + 4503599627370496"
  using unat_or_push1[of x 52] assms by (simp add: push_bit_eq_mult)

lemma nbits_range:
  assumes "0 < n" "n < 2 ^ m"
  defines "b \<equiv> nbits n"
  shows "1 \<le> b" "b \<le> m" "2 ^ (b - 1) \<le> n" "n < 2 ^ b"
proof -
  show b: "1 \<le> b" using nbits_le[of n 0] assms(1) by (simp add: b_def)
  show "b \<le> m" using nbits_le[of n m] assms(2) by (simp add: b_def)
  show "n < 2 ^ b" using nbits_le[of n b] by (simp add: b_def)
  show "2 ^ (b - 1) \<le> n" using nbits_le[of n "b - 1"] b unfolding b_def by linarith
qed

text \<open>The double of a magnitude of at most 32 bits, by its fields.\<close>

lemma int_to_f64_fields:
  fixes x :: u32 and s :: bool
  assumes "x \<noteq> 0"
  defines "z \<equiv> packToF64UI s (0x432 - int (countLeadingZeros32 x + 21)) (push_bit (countLeadingZeros32 x + 21) (ucast x))"
    and "b \<equiv> nbits (unat x)"
  shows "expF64UI z = 1022 + int b" "unat (fracF64UI z) + 4503599627370496 = unat x * 2 ^ (53 - b)" "signF64UI z = s"
    "1 \<le> b" "b \<le> 32" "2 ^ (b - 1) \<le> unat x" "unat x < 2 ^ b"
proof -
  have x: "0 < unat x" "unat x < 2 ^ 32" using assms(1) unsigned_less[of x, where 'a = nat] by (simp_all add: unat_gt_0)
  show b: "1 \<le> b" "b \<le> 32" "2 ^ (b - 1) \<le> unat x" "unat x < 2 ^ b"
    using nbits_range[OF x] unfolding b_def by simp_all
  have c: "countLeadingZeros32 x + 21 = 53 - b" using b by (simp add: clz32_value b_def)
  have lo: "2 ^ 52 \<le> unat x * 2 ^ (53 - b)"
  proof -
    have "(2 :: nat) ^ 52 = 2 ^ (b - 1) * 2 ^ (53 - b)" using b by (simp flip: power_add)
    also have "\<dots> \<le> unat x * 2 ^ (53 - b)" using b(3) by (intro mult_le_mono1)
    finally show ?thesis .
  qed
  have hi: "unat x * 2 ^ (53 - b) < 2 ^ 53"
  proof -
    have "(2 :: nat) ^ 53 = 2 ^ b * 2 ^ (53 - b)" using b by (simp flip: power_add)
    moreover have "unat x * 2 ^ (53 - b) < 2 ^ b * 2 ^ (53 - b)" using b(4) by (intro mult_strict_right_mono) simp_all
    ultimately show ?thesis by linarith
  qed
  have "unat (ucast x :: u64) = unat x" using x by (simp add: unsigned_ucast_eq take_bit_nat_eq_self)
  then have u: "unat (push_bit (53 - b) (ucast x :: u64)) = unat x * 2 ^ (53 - b)" using hi by (simp add: unat_push_bit_mod)
  have "expF64UI z = 1074 - int (53 - b) + 1 \<and> unat (fracF64UI z) = unat x * 2 ^ (53 - b) - 4503599627370496 \<and> signF64UI z = s"
    unfolding z_def c u[symmetric] by (rule pack64_hidden) (use u lo hi b in simp_all)
  then show "expF64UI z = 1022 + int b" "unat (fracF64UI z) + 4503599627370496 = unat x * 2 ^ (53 - b)" "signF64UI z = s"
    using b lo by simp_all
qed

lemma drop_sig:
  assumes "unat (fracF64UI z) + 4503599627370496 = n * 2 ^ k" "n < 4294967296"
  shows "(ucast (drop_bit k (fracF64UI z OR 0x0010000000000000)) :: u32) = of_nat n"
proof -
  have "unat (drop_bit k (fracF64UI z OR 0x0010000000000000)) = n"
    unfolding unat_drop_bit_div unat_hidden64[OF frac64_less] assms(1) by simp
  then have "unat (ucast (drop_bit k (fracF64UI z OR 0x0010000000000000)) :: u32) = unat (of_nat n :: u32)"
    using assms(2) by (simp only: unsigned_ucast_eq unat_of_nat32) (simp add: take_bit_nat_eq_self)
  then show ?thesis by (simp only: word_unat_eq_iff)
qed

lemma ui32_f64_roundtrip: "f64_to_ui32_r_minMag (ui32_to_f64 a) = a"
proof (cases "a = 0")
  case True
  then show ?thesis by (simp add: ui32_to_f64_def f64_to_ui32_r_minMag_def expF64UI_def)
next
  case False
  note f = int_to_f64_fields(1-3)[OF False, where s = False] and b = int_to_f64_fields(4-7)[OF False]
  have z: "ui32_to_f64 a = packToF64UI False (0x432 - int (countLeadingZeros32 a + 21)) (push_bit (countLeadingZeros32 a + 21) (ucast a))"
    using False by (simp add: ui32_to_f64_def Let_def)
  note f = f[folded z]
  have d: "\<not> 53 \<le> 0x433 - expF64UI (ui32_to_f64 a)" "\<not> (signF64UI (ui32_to_f64 a) \<or> 0x433 - expF64UI (ui32_to_f64 a) < 21)"
    using f b by simp_all
  have s: "nat (0x433 - expF64UI (ui32_to_f64 a)) = 53 - nbits (unat a)" using f b by simp
  have "f64_to_ui32_r_minMag (ui32_to_f64 a) = of_nat (unat a)"
    unfolding f64_to_ui32_r_minMag_def Let_def if_not_P[OF d(1)] if_not_P[OF d(2)] s
    by (rule drop_sig[OF f(2)]) (use unsigned_less[of a, where 'a = nat] in simp)
  then show ?thesis by simp
qed

lemma i32_f64_roundtrip: "f64_to_i32_r_minMag (i32_to_f64 a) = a"
proof (cases "a = 0")
  case True
  then show ?thesis by (simp add: i32_to_f64_def f64_to_i32_r_minMag_def expF64UI_def)
next
  case False
  define s x where "s = (sint a < 0)" and "x = (if s then - a else a)"
  have x0: "x \<noteq> 0" using False by (simp add: x_def)
  let ?z = "i32_to_f64 a"
  have z: "?z = packToF64UI s (0x432 - int (countLeadingZeros32 x + 21)) (push_bit (countLeadingZeros32 x + 21) (ucast x))"
    using False by (simp add: i32_to_f64_def Let_def s_def x_def)
  note f = int_to_f64_fields(1-3)[OF x0, where s = s, folded z] and b = int_to_f64_fields(4-7)[OF x0]
  have ax: "a = (if s then - x else x)" by (simp add: x_def)
  have xs: "unat x = nat \<bar>sint a\<bar>"
  proof -
    have "unat (- a) = 4294967296 - unat a" using False unat_sub_if'[of 0 a] by (simp add: unat_gt_0)
    then show ?thesis unfolding x_def s_def using sint_eq_cases[of a] sint_neg_iff[of a] unsigned_less[of a, where 'a = nat]
      by (auto simp del: of_nat_unat)
  qed
  have d: "\<not> 53 \<le> 0x433 - expF64UI ?z" using f b by simp
  have sd: "nat (0x433 - expF64UI ?z) = 53 - nbits (unat x)" using f b by simp
  show ?thesis
  proof (cases "nbits (unat x) = 32")
    case True
    then have top: "2147483648 \<le> unat x" using b(3) by simp
    then have ua: "unat a = 2147483648" "s"
      using xs sint_eq_cases[of a] unsigned_less[of a, where 'a = nat] by (auto simp: s_def simp del: of_nat_unat split: if_splits)
    then have a: "a = - 0x7FFFFFFF - 1" by (simp add: word_unat_eq_iff)
    have xv: "unat x = 2147483648" unfolding xs a by simp
    have "unat (fracF64UI ?z) = 0" using f(2) True xv by simp
    then have "expF64UI ?z = 0x41E" "fracF64UI ?z = 0" "signF64UI ?z" using f True \<open>s\<close> by (simp_all add: unat_eq_zero)
    then show ?thesis unfolding f64_to_i32_r_minMag_def Let_def a by simp
  next
    case False
    then have d2: "\<not> 0x433 - expF64UI ?z < 22" using f b by simp
    have "f64_to_i32_r_minMag ?z = (if s then - of_nat (unat x) else of_nat (unat x))"
      unfolding f64_to_i32_r_minMag_def Let_def if_not_P[OF d] if_not_P[OF d2] sd f(3) 
      using drop_sig[OF f(2)] unsigned_less[of x, where 'a = nat] by simp
    then show ?thesis unfolding ax by simp
  qed
qed

end
