(* ===== verification/SfInt.thy ===== *)
theory SfInt
  imports SfF64Ops
begin

text \<open>
  Single precision and the integers: the value of an integer rounded once, and the truncated value of a number,
  saturated at the ends of the integer type.
\<close>

section \<open>From integers\<close>

lemma norm_int_round:
  assumes "x \<noteq> 0" "unat x < 2147483648"
  shows "normRoundPackToF32 s 0x9C x = f32_round s (unat x * 2 ^ 149) 0"
proof -
  have "normRoundPackToF32 s 0x9C x = f32_round s (unat x * 2 ^ nat 156) (7 + nat (- 156))"
    by (rule normRoundPackToF32_value) (use assms in \<open>simp_all add: unat_gt_0\<close>)
  moreover have "rnd 24 (unat x * 2 ^ 156) 7 = rnd 24 (unat x * 2 ^ 149) 0"
    by (rule rnd_cong) (use assms(1) in \<open>simp_all add: unat_gt_0\<close>)
  ultimately show ?thesis by (simp add: f32_round_def)
qed

lemma f32_round_0: "f32_round s 0 k = of_nat (if s then 2147483648 else 0)"
  by (simp add: f32_round_def rnd_tiny)

lemma sticky_half: "unat (drop_bit 1 a OR (a AND 1)) = jam (unat a) 1" for a :: u32
proof -
  have "a AND 1 = of_bool (odd a)" by (simp add: and_one_eq mod_2_eq_odd)
  moreover have "odd a \<longleftrightarrow> unat a mod 2 = 1" using even_unat[of a] by (simp add: odd_iff_mod_2_eq_one)
  ultimately show ?thesis by (simp add: unat_or_bool unat_drop_bit_div jam_def Let_def)
qed

lemma ui32_to_f32_value: "ui32_to_f32 a = f32_round False (unat a * 2 ^ 149) 0"
proof (cases "a = 0")
  case True
  then show ?thesis by (simp add: ui32_to_f32_def f32_round_0)
next
  case False
  have ub: "unat a < 4294967296" using unsigned_less[of a, where 'a = nat] by simp
  have top: "a AND 0x80000000 \<noteq> 0 \<longleftrightarrow> 2147483648 \<le> unat a"
  proof -
    have "a AND 0x80000000 = 0 \<longleftrightarrow> \<not> bit a 31"
      using and_exp_eq_0_iff_not_bit[of a 31] by simp
    then show ?thesis using signF32UI_bit[of a] signF32UI_value[of a] by simp
  qed
  show ?thesis
  proof (cases "2147483648 \<le> unat a")
    case True
    let ?x = "drop_bit 1 a OR (a AND 1)"
    have j: "1073741824 \<le> jam (unat a) 1" "jam (unat a) 1 < 2147483648"
    proof -
      have "1073741824 \<le> unat a div 2" "unat a div 2 < 2147483648" using True ub by simp_all
      then show "1073741824 \<le> jam (unat a) 1" "jam (unat a) 1 < 2147483648" by (auto simp: jam_def Let_def)
    qed
    have "ui32_to_f32 a = roundPackToF32 False 0x9D ?x" using True top False by (simp add: ui32_to_f32_def)
    also have "\<dots> = f32_round False (jam (unat a) 1 * 2 ^ 157) 7"
      using roundPackToF32_value[of ?x "0x9D" False] j unfolding sticky_half by simp
    also have "rnd 24 (jam (unat a) 1 * 2 ^ 157) 7 = rnd 24 (unat a * 2 ^ 157) (7 + 1)"
      by (rule rnd_jam) (use j nbits_le[of "jam (unat a) 1" 25] in simp_all)
    then have "f32_round False (jam (unat a) 1 * 2 ^ 157) 7 = f32_round False (unat a * 2 ^ 149) 0"
      using rnd_cong[of "unat a * 2 ^ 157" 0 "unat a * 2 ^ 149" 8 24] False by (simp add: f32_round_def unat_gt_0)
    finally show ?thesis .
  next
    case False
    then show ?thesis using \<open>a \<noteq> 0\<close> top by (simp add: ui32_to_f32_def norm_int_round)
  qed
qed

lemma i32_to_f32_value: "i32_to_f32 a = f32_round (sint a < 0) (nat \<bar>sint a\<bar> * 2 ^ 149) 0"
proof (cases "a AND 0x7FFFFFFF = 0")
  case True
  have "unat a mod 2147483648 = 0"
    using True unat_and_low[of a 31] by (simp add: mask_eq_exp_minus_1)
  then consider "unat a = 0" | "unat a = 2147483648"
    using unsigned_less[of a, where 'a = nat] by (cases "unat a < 2147483648") (auto simp: le_mod_geq)
  then show ?thesis
  proof cases
    case 1
    then show ?thesis by (simp add: unat_eq_zero i32_to_f32_def f32_round_0)
  next
    case 2
    then have a: "a = 0x80000000" by (simp add: word_unat_eq_iff)
    have "rnd 24 (8388608 * 2 ^ 157) 0 = 157 * 2 ^ 23 + rne_shift 8388608 0"
      using rnd_packed[of 8388608 24 0 157] by simp
    then have "packToF32UI True 0x9E 0 = f32_round True (2147483648 * 2 ^ 149) 0"
      unfolding f32_round_def by (intro pack_eq_of_nat) simp_all
    then show ?thesis unfolding a by (simp add: i32_to_f32_def)
  qed
next
  case False
  then have a0: "a \<noteq> 0" by auto
  have "unat a mod 2147483648 \<noteq> 0"
  proof -
    have "unat (a AND 0x7FFFFFFF) \<noteq> 0" using False by (metis unat_eq_zero)
    then show ?thesis using unat_and_low[of a 31] by (simp add: mask_eq_exp_minus_1)
  qed
  then have ne: "unat a \<noteq> 2147483648" by auto
  define x where "x = (if sint a < 0 then - a else a)"
  have "unat (- a) = 4294967296 - unat a" using a0 unat_sub_if'[of 0 a] by (simp add: unat_gt_0)
  then have x: "unat x = nat \<bar>sint a\<bar>" "unat x < 2147483648"
    unfolding x_def using ne sint_eq_cases[of a] sint_neg_iff[of a] unsigned_less[of a, where 'a = nat]
    by (auto simp del: of_nat_unat)
  have "x \<noteq> 0" using a0 by (simp add: x_def)
  then show ?thesis using False norm_int_round[OF _ x(2)] by (simp add: i32_to_f32_def x_def[symmetric] x(1) Let_def)
qed

lemma mag64_to_f32_value:
  assumes "x \<noteq> 0"
  shows "mag64_to_f32 s x = f32_round s (unat x * 2 ^ 149) 0"
proof -
  define n b where "n = unat x" and "b = nbits n"
  have n: "0 < n" "n < 2 ^ 64" using assms unsigned_less[of x, where 'a = nat] by (simp_all add: n_def unat_gt_0)
  note b = nbits_range[OF n, folded b_def]
  have c: "int (countLeadingZeros64 x) - 40 = 24 - int b" using b(2) by (simp add: clz64_value n_def[symmetric] b_def[symmetric])
  have u: "unat (ucast x :: u32) = n" if "b \<le> 32"
  proof -
    have "n < 2 ^ 32" using b(4) power_increasing[OF that, of "2 :: nat"] by linarith
    then show ?thesis by (simp add: unsigned_ucast_eq take_bit_nat_eq_self n_def)
  qed
  have shl: "unat (push_bit k (ucast x) :: u32) = n * 2 ^ k" if "b \<le> 32" "k + b \<le> 32" for k
  proof -
    have "n * 2 ^ k < 2 ^ b * 2 ^ k" using b(4) by simp
    also have "\<dots> \<le> 2 ^ 32"
      using power_increasing[of "b + k" 32 "2 :: nat"] that(2) by (simp add: add.commute power_add)
    finally show ?thesis using u[OF that(1)] by (simp add: unat_push_bit_mod)
  qed
  have size: "2 ^ (k + b - 1) \<le> n * 2 ^ k" "n * 2 ^ k < 2 ^ (k + b)" for k
  proof -
    have "k + b - 1 = (b - 1) + k" using b(1) by simp
    then show "2 ^ (k + b - 1) \<le> n * 2 ^ k" using b(3) by (simp add: power_add)
    show "n * 2 ^ k < 2 ^ (k + b)" using b(4) by (simp add: power_add mult.commute)
  qed
  consider "b \<le> 24" | "24 < b" "b \<le> 31" | "31 < b" by linarith
  then show ?thesis
  proof cases
    case 1
    let ?sig = "push_bit (24 - b) (ucast x) :: u32"
    have sig: "unat ?sig = n * 2 ^ (24 - b)" using 1 by (intro shl) simp_all
    have "rnd 24 (n * 2 ^ (24 - b) * 2 ^ (125 + b)) 0 = (125 + b) * 2 ^ (24 - 1) + rne_shift (n * 2 ^ (24 - b)) 0"
      by (rule rnd_packed) (use size[of "24 - b"] 1 b(1) in simp_all)
    moreover have "n * 2 ^ (24 - b) * 2 ^ (125 + b) = n * 2 ^ 149" using 1 by (simp add: mult.assoc flip: power_add)
    ultimately have R: "rnd 24 (n * 2 ^ 149) 0 = (125 + b) * 8388608 + n * 2 ^ (24 - b)" by simp
    have "n * 2 ^ (24 - b) < 16777216" using size(2)[of "24 - b"] 1 by simp
    then have le: "rnd 24 (n * 2 ^ 149) 0 \<le> 2139095040" unfolding R using 1 by simp
    have "nat (125 + int b) * 8388608 + unat ?sig = min (rnd 24 (n * 2 ^ 149) 0) 2139095040"
      using le unfolding R sig by (simp add: nat_add_distrib)
    then have "packToF32UI s (125 + int b) ?sig = f32_round s (n * 2 ^ 149) 0"
      unfolding f32_round_def by (intro pack_eq_of_nat) simp_all
    moreover have "0x95 - (24 - int b) = 125 + int b" "nat (24 - int b) = 24 - b" "0 \<le> 24 - int b" using 1 by simp_all
    ultimately show ?thesis unfolding mag64_to_f32_def c Let_def n_def[symmetric] using assms by simp
  next
    case 2
    let ?sig = "push_bit (31 - b) (ucast x) :: u32"
    have sig: "unat ?sig = n * 2 ^ (31 - b)" using 2 by (intro shl) simp_all
    have "roundPackToF32 s (125 + int b) ?sig = f32_round s (n * 2 ^ (31 - b) * 2 ^ nat (125 + int b)) (7 + nat (- (125 + int b)))"
      unfolding sig[symmetric] by (rule roundPackToF32_value) (use size[of "31 - b"] 2 sig in simp_all)
    also have "\<dots> = f32_round s (n * 2 ^ 156) 7"
      using 2 by (simp add: nat_add_distrib mult.assoc flip: power_add)
    also have "\<dots> = f32_round s (n * 2 ^ 149) 0"
      using rnd_cong[of "n * 2 ^ 156" 0 "n * 2 ^ 149" 7 24] n by (simp add: f32_round_def)
    finally show ?thesis using 2 by (simp add: mag64_to_f32_def c Let_def n_def[symmetric] nat_diff_distrib)
  next
    case 3
    let ?j = "jam n (b - 31)" and ?sig = "ucast (shortShiftRightJam64 x (b - 31)) :: u32"
    have j: "1073741824 \<le> ?j" "?j < 2147483648"
    proof -
      have e: "(2 :: nat) ^ (b - 1) = 2 ^ (b - 31) * 1073741824" "(2 :: nat) ^ b = 2 ^ (b - 31) * 2147483648"
        using 3 power_add[of "2 :: nat" "b - 31" 30] power_add[of "2 :: nat" "b - 31" 31] by simp_all
      have q: "1073741824 \<le> n div 2 ^ (b - 31)" "n div 2 ^ (b - 31) < 2147483648"
        using b(3,4) unfolding e by (simp_all add: less_eq_div_iff_mult_less_eq less_mult_imp_div_less mult.commute)
      then show "1073741824 \<le> ?j" "?j < 2147483648" by (auto simp: jam_def Let_def)
    qed
    have sig: "unat ?sig = ?j"
      using j by (simp add: unsigned_ucast_eq shortShiftRightJam64_value n_def take_bit_nat_eq_self)
    have "roundPackToF32 s (125 + int b) ?sig = f32_round s (?j * 2 ^ nat (125 + int b)) (7 + nat (- (125 + int b)))"
      unfolding sig[symmetric] by (rule roundPackToF32_value) (use j sig in simp_all)
    then have code: "roundPackToF32 s (125 + int b) ?sig = f32_round s (?j * 2 ^ (125 + b)) 7" by (simp add: nat_add_distrib)
    have "rnd 24 (?j * 2 ^ (125 + b)) 7 = rnd 24 (n * 2 ^ (125 + b)) (7 + (b - 31))"
      by (rule rnd_jam) (use j nbits_le[of ?j 25] in simp_all)
    also have "\<dots> = rnd 24 (n * 2 ^ 149) 0"
    proof (rule rnd_cong)
      have "125 + b + 0 = 149 + (7 + (b - 31))" using 3 by simp
      then show "n * 2 ^ (125 + b) * 2 ^ 0 = n * 2 ^ 149 * 2 ^ (7 + (b - 31))"
        by (simp only: mult.assoc power_add[symmetric])
    qed (use n in simp)
    finally have "roundPackToF32 s (125 + int b) ?sig = f32_round s (n * 2 ^ 149) 0" using code by (simp add: f32_round_def)
    then show ?thesis using 3 by (simp add: mag64_to_f32_def c Let_def n_def[symmetric] nat_diff_distrib)
  qed
qed

lemma long_to_f32_value:
  "ui64_to_f32 a = f32_round False (unat a * 2 ^ 149) 0"
  "i64_to_f32 a = f32_round (sint a < 0) (nat \<bar>sint a\<bar> * 2 ^ 149) 0"
proof -
  have zero: "mag64_to_f32 False 0 = 0" by (simp add: mag64_to_f32_def clz64_value)
  then show "ui64_to_f32 a = f32_round False (unat a * 2 ^ 149) 0"
    by (cases "a = 0") (simp_all add: ui64_to_f32_def f32_round_0 mag64_to_f32_value)
  show "i64_to_f32 a = f32_round (sint a < 0) (nat \<bar>sint a\<bar> * 2 ^ 149) 0"
  proof (cases "a = 0")
    case True
    then show ?thesis using zero by (simp add: i64_to_f32_def f32_round_0)
  next
    case False
    have "unat (- a) = 2 ^ 64 - unat a" using False unat_sub_if'[of 0 a] by (simp add: unat_gt_0)
    then have "unat (if sint a < 0 then - a else a) = nat \<bar>sint a\<bar>"
      using sint_eq_cases[of a] sint_neg_iff[of a] unsigned_less[of a, where 'a = nat]
      by (auto simp del: of_nat_unat)
    then show ?thesis using False by (simp add: i64_to_f32_def mag64_to_f32_value)
  qed
qed

section \<open>To integers\<close>

text \<open>The value of a number truncated towards zero; for an infinity it is beyond every integer type.\<close>

definition f32_int :: "u32 \<Rightarrow> nat" where
  "f32_int a = f32_mag a div 2 ^ 149"

definition f32_trunc :: "u32 \<Rightarrow> int" where
  "f32_trunc a = (if signF32UI a then - int (f32_int a) else int (f32_int a))"

definition clamp :: "int \<Rightarrow> int \<Rightarrow> int \<Rightarrow> int" where
  "clamp lo hi v = max lo (min hi v)"

lemma f32_mag_small: "expF32UI a \<le> 126 \<Longrightarrow> f32_int a = 0"
proof -
  assume e: "expF32UI a \<le> 126"
  have "f32_mag a < 2 ^ 149"
  proof (cases "expF32UI a = 0")
    case True
    then show ?thesis using frac_less[of a] by (simp add: f32_mag_value)
  next
    case False
    have "(8388608 + unat (fracF32UI a)) * 2 ^ (nat (expF32UI a) - 1) < 2 ^ 24 * 2 ^ (nat (expF32UI a) - 1)"
      using frac_less[of a] by simp
    also have "\<dots> \<le> 2 ^ 149" unfolding power_add[symmetric] by (rule power_increasing) (use e in simp_all)
    finally show ?thesis using False by (simp add: f32_mag_value)
  qed
  then show ?thesis by (simp add: f32_int_def)
qed

lemma f32_mag_shift:
  assumes "int g + 119 \<le> expF32UI a" "expF32UI a \<le> int g + 150"
  shows "(8388608 + unat (fracF32UI a)) * 2 ^ g div 2 ^ nat (int g + 150 - expF32UI a) = f32_int a"
proof -
  let ?F = "8388608 + unat (fracF32UI a)" and ?e = "expF32UI a" and ?d = "nat (expF32UI a - 1 - int g)"
  have d: "g + ?d = nat ?e - 1" "nat (int g + 150 - ?e) + ?d = 149" using assms by simp_all
  have "?F * 2 ^ g div 2 ^ nat (int g + 150 - ?e) = ?F * 2 ^ g * 2 ^ ?d div 2 ^ (nat (int g + 150 - ?e) + ?d)"
    by (rule div_mult_pow[symmetric])
  also have "\<dots> = f32_int a"
    unfolding d(2) f32_int_def using assms(1) d(1) by (simp add: f32_mag_value mult.assoc flip: power_add)
  finally show ?thesis .
qed

lemma f32_mag_big:
  assumes "150 \<le> expF32UI a"
  shows "2 ^ (nat (expF32UI a) - 127) \<le> f32_int a"
    "f32_int a = (8388608 + unat (fracF32UI a)) * 2 ^ (nat (expF32UI a) - 150)"
proof -
  have e: "nat (expF32UI a) - 1 = (nat (expF32UI a) - 150) + 149" using assms by simp
  show v: "f32_int a = (8388608 + unat (fracF32UI a)) * 2 ^ (nat (expF32UI a) - 150)"
  proof -
    have "f32_mag a = (8388608 + unat (fracF32UI a)) * 2 ^ (nat (expF32UI a) - 150) * 2 ^ 149"
      using assms e by (simp only: f32_mag_value power_add mult.assoc) simp
    then show ?thesis unfolding f32_int_def by simp
  qed
  have "(2 :: nat) ^ (nat (expF32UI a) - 127) = 2 ^ 23 * 2 ^ (nat (expF32UI a) - 150)"
    unfolding power_add[symmetric] using assms by (intro arg_cong[where f = "\<lambda>i. 2 ^ i"]) simp
  then show "2 ^ (nat (expF32UI a) - 127) \<le> f32_int a" unfolding v by simp
qed

lemma unat_hidden32: "unat (fracF32UI a OR 0x00800000) = 8388608 + unat (fracF32UI a)"
  using unat_or_push1[of "fracF32UI a" 23] frac_less[of a] by (simp add: push_bit_eq_mult)

lemma unat_sig32: "unat (push_bit 8 (fracF32UI a OR 0x00800000)) = (8388608 + unat (fracF32UI a)) * 256"
  unfolding unat_push_bit_mod unat_hidden32 using frac_less[of a] by simp

lemma f32_to_i32_value:
  "sint (f32_to_i32_r_minMag a) = (if isNaNF32UI a then 0 else clamp (- 2147483648) 2147483647 (f32_trunc a))"
proof -
  let ?e = "expF32UI a"
  consider "?e \<le> 126" | "158 \<le> ?e" | "127 \<le> ?e" "?e \<le> 157" by linarith
  then show ?thesis
  proof cases
    case 1
    then have c: "32 \<le> 0x9E - ?e" by simp
    have "\<not> isNaNF32UI a" using 1 by (simp add: isNaNF32UI_fields)
    then show ?thesis using 1 unfolding f32_to_i32_r_minMag_def Let_def if_P[OF c]
      by (simp add: f32_trunc_def f32_mag_small clamp_def)
  next
    case 2
    then have c: "\<not> 32 \<le> 0x9E - ?e" "0x9E - ?e \<le> 0" by simp_all
    have big: "2147483648 \<le> f32_int a"
    proof -
      have "(2 :: nat) ^ 31 \<le> 2 ^ (nat ?e - 127)" using 2 by (intro power_increasing) simp_all
      then show ?thesis using f32_mag_big(1)[of a] 2 by simp
    qed
    have min: "isNaNF32UI (packToF32UI True 0x9E 0) = False" "signF32UI (packToF32UI True 0x9E 0)"
      by (simp_all add: isNaNF32UI_def packToF32UI_def signF32UI_def)
    have "sint (f32_to_i32_r_minMag a) = (if isNaNF32UI a then 0 else if signF32UI a then - 2147483648 else 2147483647)"
      unfolding f32_to_i32_r_minMag_def Let_def if_not_P[OF c(1)] if_P[OF c(2)] isNaNF32UI_fields
      using min by (auto simp: overflow_results isNaNF32UI_fields)
    then show ?thesis using big by (auto simp: f32_trunc_def clamp_def)
  next
    case 3
    then have c: "\<not> 32 \<le> 0x9E - ?e" "\<not> 0x9E - ?e \<le> 0" by simp_all
    define m where "m = f32_int a"
    let ?z = "drop_bit (nat (0x9E - ?e)) (push_bit 8 (fracF32UI a OR 0x00800000))"
    have mv: "(8388608 + unat (fracF32UI a)) * 256 div 2 ^ nat (0x9E - ?e) = m"
      unfolding m_def using f32_mag_shift[of 8 a] 3 by simp
    have z: "unat ?z = m" unfolding unat_drop_bit_div unat_sig32 by (rule mv)
    have m: "m < 2147483648"
    proof -
      have "nat (0x9E - ?e) \<noteq> 0" using 3 by simp
      then have "(2 :: nat) ^ 1 \<le> 2 ^ nat (0x9E - ?e)" by (intro power_increasing) simp_all
      then have "(8388608 + unat (fracF32UI a)) * 256 div 2 ^ nat (0x9E - ?e) \<le> (8388608 + unat (fracF32UI a)) * 256 div 2 ^ 1"
        by (intro div_le_mono2) simp_all
      then show ?thesis unfolding mv using frac_less[of a] by simp
    qed
    have "\<not> isNaNF32UI a" using 3 by (simp add: isNaNF32UI_fields)
    moreover have "sint ?z = int m" using sint_eq_cases[of ?z] m z by simp
    moreover have "sint (- ?z) = - int m"
    proof -
      have "- ?z = word_of_int (- int m)" using z by (metis of_int_of_nat_eq of_int_minus word_of_int_uint uint_nat)
      then show ?thesis using m by (simp only:) (rule sint32_of_int; linarith)
    qed
    ultimately show ?thesis unfolding f32_to_i32_r_minMag_def Let_def if_not_P[OF c(1)] if_not_P[OF c(2)]
      using m by (simp add: f32_trunc_def m_def[symmetric] clamp_def)
  qed
qed

lemma f32_to_ui32_value:
  "int (unat (f32_to_ui32_r_minMag a)) = (if isNaNF32UI a then 0 else clamp 0 4294967295 (f32_trunc a))"
proof -
  let ?e = "expF32UI a"
  consider "?e \<le> 126" | "127 \<le> ?e" "signF32UI a" | "159 \<le> ?e" "\<not> signF32UI a" | "127 \<le> ?e" "?e \<le> 158" "\<not> signF32UI a"
    by linarith
  then show ?thesis
  proof cases
    case 1
    then have c: "32 \<le> 0x9E - ?e" by simp
    have "\<not> isNaNF32UI a" using 1 by (simp add: isNaNF32UI_fields)
    then show ?thesis using 1 unfolding f32_to_ui32_r_minMag_def Let_def if_P[OF c]
      by (simp add: f32_trunc_def f32_mag_small clamp_def)
  next
    case 2
    then have c: "\<not> 32 \<le> 0x9E - ?e" "signF32UI a \<or> 0x9E - ?e < 0" by simp_all
    show ?thesis using 2 unfolding f32_to_ui32_r_minMag_def Let_def if_not_P[OF c(1)] if_P[OF c(2)] isNaNF32UI_fields
      by (simp add: overflow_results f32_trunc_def clamp_def)
  next
    case 3
    then have c: "\<not> 32 \<le> 0x9E - ?e" "signF32UI a \<or> 0x9E - ?e < 0" by simp_all
    have "4294967296 \<le> f32_int a"
    proof -
      have "(2 :: nat) ^ 32 \<le> 2 ^ (nat ?e - 127)" using 3 by (intro power_increasing) simp_all
      then show ?thesis using f32_mag_big(1)[of a] 3 by simp
    qed
    then show ?thesis using 3 unfolding f32_to_ui32_r_minMag_def Let_def if_not_P[OF c(1)] if_P[OF c(2)] isNaNF32UI_fields
      by (simp add: overflow_results f32_trunc_def clamp_def)
  next
    case 4
    then have c: "\<not> 32 \<le> 0x9E - ?e" "\<not> (signF32UI a \<or> 0x9E - ?e < 0)" by simp_all
    have v: "(8388608 + unat (fracF32UI a)) * 256 div 2 ^ nat (0x9E - ?e) = f32_int a"
      using f32_mag_shift[of 8 a] 4 by simp
    have "f32_int a \<le> (8388608 + unat (fracF32UI a)) * 256" unfolding v[symmetric] by simp
    then have "f32_int a < 4294967296" using frac_less[of a] by simp
    moreover have "\<not> isNaNF32UI a" using 4 by (simp add: isNaNF32UI_fields)
    ultimately show ?thesis using 4
      unfolding f32_to_ui32_r_minMag_def Let_def if_not_P[OF c(1)] if_not_P[OF c(2)] unat_drop_bit_div unat_sig32 v
      by (simp add: f32_trunc_def clamp_def)
  qed
qed

section \<open>Properties\<close>

lemma f32_sum_spec:
  "if f32_val a + f32_val b = 0
   then f32_sum a b = of_nat (if signF32UI a \<and> signF32UI b then 2147483648 else 0)
   else f32_rounds (f32_sum a b) (f32_val a + f32_val b < 0) (nat \<bar>f32_val a + f32_val b\<bar>) 0"
  by (simp add: f32_sum_def Let_def f32_round_rounds)

text \<open>C10: Addition, subtraction and multiplication of finite numbers, subnormal or not, round the exact result
  once: the nearest number, ties to even, or the infinity of its sign when the result is at least half a unit above
  the largest finite number.  An exact zero is \<open>-0\<close> only for \<open>-0 + -0\<close> and \<open>-0 - +0\<close>, and a product has the sign of
  the product also on a zero and on an infinity.\<close>

theorem f32_arith_rounded:
  assumes "expF32UI a < 255" "expF32UI b < 255"
  shows "(if f32_val a + f32_val b = 0
          then f32_add a b = of_nat (if signF32UI a \<and> signF32UI b then 2147483648 else 0)
          else f32_rounds (f32_add a b) (f32_val a + f32_val b < 0) (nat \<bar>f32_val a + f32_val b\<bar>) 0) \<and>
         (if f32_val a - f32_val b = 0
          then f32_sub a b = of_nat (if signF32UI a \<and> \<not> signF32UI b then 2147483648 else 0)
          else f32_rounds (f32_sub a b) (f32_val a - f32_val b < 0) (nat \<bar>f32_val a - f32_val b\<bar>) 0) \<and>
         f32_rounds (f32_mul a b) (signF32UI a \<noteq> signF32UI b) (f32_mag a * f32_mag b) 149"
  unfolding f32_add_value[OF assms] f32_sub_value[OF assms] f32_mul_value[OF assms]
  using f32_sum_spec[of a b] f32_sum_spec[of a "b XOR 0x80000000"]
  unfolding f32_val_neg f32_neg(2) add_uminus_conv_diff by (intro conjI f32_round_rounds)

theorem f32_arith_rounded_witness:
  "expF32UI 0x3F800000 < 255 \<and> expF32UI 0xB3000000 < 255 \<and>
   (if f32_val 0x3F800000 + f32_val 0xB3000000 = 0
    then f32_add 0x3F800000 0xB3000000 = of_nat (if signF32UI 0x3F800000 \<and> signF32UI 0xB3000000 then 2147483648 else 0)
    else f32_rounds (f32_add 0x3F800000 0xB3000000) (f32_val 0x3F800000 + f32_val 0xB3000000 < 0)
           (nat \<bar>f32_val 0x3F800000 + f32_val 0xB3000000\<bar>) 0) \<and>
   f32_rounds (f32_mul 0x3F800000 0xB3000000) (signF32UI 0x3F800000 \<noteq> signF32UI 0xB3000000)
     (f32_mag 0x3F800000 * f32_mag 0xB3000000) 149"
proof -
  have e: "expF32UI 0x3F800000 < 255" "expF32UI 0xB3000000 < 255" by (simp_all add: expF32UI_def)
  show ?thesis using e f32_arith_rounded[OF e] by blast
qed

text \<open>C11: The comparisons are the order of the values, with \<open>-0 = +0\<close> and the infinities at the ends, and a NaN is
  neither equal to, below nor above anything; arithmetic on a NaN gives the default NaN.\<close>

theorem f32_order_and_nan:
  "(isNaNF32UI a \<or> isNaNF32UI b \<longrightarrow>
     \<not> f32_eq a b \<and> \<not> f32_lt a b \<and> \<not> f32_le a b \<and>
     f32_add a b = defaultNaNF32UI \<and> f32_sub a b = defaultNaNF32UI \<and>
     f32_mul a b = defaultNaNF32UI \<and> f32_div a b = defaultNaNF32UI) \<and>
   (\<not> isNaNF32UI a \<and> \<not> isNaNF32UI b \<longrightarrow>
     (f32_eq a b \<longleftrightarrow> f32_val a = f32_val b) \<and> (f32_lt a b \<longleftrightarrow> f32_val a < f32_val b) \<and>
     (f32_le a b \<longleftrightarrow> f32_val a \<le> f32_val b))"
proof (cases "isNaNF32UI a \<or> isNaNF32UI b")
  case True
  then show ?thesis using f32_nan_unordered[OF True] f32_nan_operand[OF True] by blast
next
  case False
  then have n: "\<not> isNaNF32UI a" "\<not> isNaNF32UI b" by simp_all
  show ?thesis using n f32_eq_order[OF n] f32_lt_order[OF n] f32_le_order[OF n] by blast
qed

theorem f32_order_and_nan_witness:
  "f32_eq 0x80000000 0 = (f32_val 0x80000000 = f32_val 0) \<and> isNaNF32UI 0x7FC00001 \<and> \<not> f32_le 0x7FC00001 0"
proof -
  have "\<not> isNaNF32UI 0x80000000" "\<not> isNaNF32UI 0" "isNaNF32UI 0x7FC00001" by (simp_all add: isNaNF32UI_def)
  then show ?thesis using f32_order_and_nan[of "0x80000000" 0] f32_order_and_nan[of "0x7FC00001" 0] by blast
qed

text \<open>Conversion of an integer of either width and sign rounds its value once, and conversion to \<open>int\<close> and
  \<open>unsigned\<close> truncates, saturating at the ends of the type, with 0 for a NaN.\<close>

lemma f32_int_conversions:
  "f32_rounds (i32_to_f32 i) (sint i < 0) (nat \<bar>sint i\<bar> * 2 ^ 149) 0 \<and>
   f32_rounds (ui32_to_f32 i) False (unat i * 2 ^ 149) 0 \<and>
   f32_rounds (i64_to_f32 l) (sint l < 0) (nat \<bar>sint l\<bar> * 2 ^ 149) 0 \<and>
   f32_rounds (ui64_to_f32 l) False (unat l * 2 ^ 149) 0 \<and>
   sint (f32_to_i32_r_minMag a) = (if isNaNF32UI a then 0 else clamp (- 2147483648) 2147483647 (f32_trunc a)) \<and>
   int (unat (f32_to_ui32_r_minMag a)) = (if isNaNF32UI a then 0 else clamp 0 4294967295 (f32_trunc a))"
  unfolding i32_to_f32_value ui32_to_f32_value long_to_f32_value
  by (intro conjI f32_round_rounds f32_to_i32_value f32_to_ui32_value)

text \<open>Narrowing a finite double rounds once, widening is exact, so a single survives the round trip through
  double, and so does every \<open>int\<close> and \<open>unsigned\<close>.\<close>

lemma double_roundtrips:
  "(expF64UI d < 2047 \<longrightarrow> f32_rounds (f64_to_f32 d) (signF64UI d) (f64_mag d) 925) \<and>
   (expF32UI a < 255 \<longrightarrow>
     f64_mag (f32_to_f64 a) = f32_mag a * 2 ^ 925 \<and> signF64UI (f32_to_f64 a) = signF32UI a \<and>
     f64_to_f32 (f32_to_f64 a) = a) \<and>
   f64_to_i32_r_minMag (i32_to_f64 i) = i \<and> f64_to_ui32_r_minMag (ui32_to_f64 i) = i"
  by (intro conjI impI i32_f64_roundtrip ui32_f64_roundtrip f32_to_f64_value f32_widen_narrow)
    (simp_all only: f64_to_f32_value f32_round_rounds)

text \<open>C13: The conversions.  An integer becomes the nearest single, a single becomes the integer towards zero, clamped to
  the range of the type, and 0 for a NaN.  Widening to double is exact and narrowing rounds once, so a single survives
  the round trip through double, and so does every \<open>int\<close> and \<open>unsigned\<close>.\<close>

theorem float_conversions:
  "f32_rounds (i32_to_f32 i) (sint i < 0) (nat \<bar>sint i\<bar> * 2 ^ 149) 0 \<and>
   f32_rounds (ui32_to_f32 i) False (unat i * 2 ^ 149) 0 \<and>
   f32_rounds (i64_to_f32 l) (sint l < 0) (nat \<bar>sint l\<bar> * 2 ^ 149) 0 \<and>
   f32_rounds (ui64_to_f32 l) False (unat l * 2 ^ 149) 0 \<and>
   sint (f32_to_i32_r_minMag a) = (if isNaNF32UI a then 0 else clamp (- 2147483648) 2147483647 (f32_trunc a)) \<and>
   int (unat (f32_to_ui32_r_minMag a)) = (if isNaNF32UI a then 0 else clamp 0 4294967295 (f32_trunc a)) \<and>
   (expF64UI d < 2047 \<longrightarrow> f32_rounds (f64_to_f32 d) (signF64UI d) (f64_mag d) 925) \<and>
   (expF32UI a < 255 \<longrightarrow>
     f64_mag (f32_to_f64 a) = f32_mag a * 2 ^ 925 \<and> signF64UI (f32_to_f64 a) = signF32UI a \<and>
     f64_to_f32 (f32_to_f64 a) = a) \<and>
   f64_to_i32_r_minMag (i32_to_f64 i) = i \<and> f64_to_ui32_r_minMag (ui32_to_f64 i) = i"
  using f32_int_conversions[of i l a] double_roundtrips[of d a i] by blast

theorem float_conversions_witness:
  "expF64UI 0x3FF0000000000001 < 2047 \<and> expF32UI 0x00000001 < 255 \<and>
   f32_rounds (f64_to_f32 0x3FF0000000000001) (signF64UI 0x3FF0000000000001) (f64_mag 0x3FF0000000000001) 925 \<and>
   f64_to_f32 (f32_to_f64 0x00000001) = 0x00000001"
proof -
  have "expF64UI 0x3FF0000000000001 < 2047" "expF32UI 0x00000001 < 255" by (simp_all add: expF64UI_def expF32UI_def)
  then show ?thesis using float_conversions[where d = "0x3FF0000000000001" and a = "0x00000001"] by blast
qed

end
