(* ===== verification/SfF64Arith.thy ===== *)
theory SfF64Arith
  imports SfF64Ops
begin

text \<open>
  Correct rounding of the double-precision addition, subtraction and multiplication.
\<close>

lemma bits64_full: "unat (a :: u64) = (if signF64UI a then 9223372036854775808 else 0) + nat (expF64UI a) * 4503599627370496 + unat (fracF64UI a)"
proof -
  have "unat a < 18446744073709551616" using unsigned_less[of a, where 'a = nat] by simp
  then have "unat a = (if 9223372036854775808 \<le> unat a then 9223372036854775808 else 0) + unat a mod 9223372036854775808"
    by (auto simp: mod_if le_mod_geq)
  then show ?thesis unfolding bits64_split signF64UI_value by simp
qed

section \<open>Rounding and packing\<close>

text \<open>The bit pattern of \<open>n / 2\<^sup>k\<close> units rounded, infinity from \<open>0x7F800000\<close> on.\<close>

definition f64_round :: "bool \<Rightarrow> nat \<Rightarrow> nat \<Rightarrow> u64" where
  "f64_round sign n k = of_nat ((if sign then 9223372036854775808 else 0) + min (rnd 53 n k) 9218868437227405312)"

lemma pack64_of_nat:
  assumes "0 \<le> e" "nat e * 4503599627370496 + unat sig = min x 9218868437227405312"
  shows "packToF64UI s e sig = of_nat ((if s then 9223372036854775808 else 0) + min x 9218868437227405312)"
proof -
  have u: "unat (packToF64UI s e sig) = (if s then 9223372036854775808 else 0) + min x 9218868437227405312"
    using packToF64UI_value[OF assms(1), of sig s] assms(2) by simp
  have "packToF64UI s e sig = of_nat (unat (packToF64UI s e sig))" by simp
  then show ?thesis unfolding u .
qed

lemma roundPackToF64_code:
  assumes "- 60000 < exp" "exp < 60000"
  shows "roundPackToF64 sign exp sig =
    (let sig' = (if exp < 0 then shiftRightJam64 sig (word_of_int (- exp)) else sig);
         z = drop_bit 10 (sig' + 0x200) AND NOT (of_bool (sig' AND 0x3FF = 0x200))
     in if 0x7FD < exp \<or> exp = 0x7FD \<and> 0x8000000000000000 \<le> sig + 0x200 then packToF64UI sign 0x7FF 0
        else packToF64UI sign (if z = 0 then 0 else max 0 exp) z)"
proof (cases "exp < 0")
  case True
  have "exp mod 0x10000 = (exp + 0x10000) mod 0x10000" by simp
  also have "\<dots> = exp + 0x10000" using True assms by (intro mod_pos_pos_trivial) simp_all
  finally have m: "0x7FD \<le> exp mod 0x10000" using assms by simp
  show ?thesis using True m by (simp add: roundPackToF64_def rounding_modes Let_def xor_zero_iff max_def)
next
  case False
  have m: "exp mod 0x10000 = exp" using False assms by (intro mod_pos_pos_trivial) simp_all
  show ?thesis using False by (auto simp: roundPackToF64_def rounding_modes Let_def xor_zero_iff max_def m)
qed

lemma round_sig64:
  assumes "unat (x :: u64) < 9223372036854775808"
  shows "unat (drop_bit 10 (x + 0x200) AND NOT (of_bool (x AND 0x3FF = 0x200))) = rne_shift (unat x) 10"
proof -
  have "unat (x + 0x200) = unat x + 512" using assms by (simp add: unat_plus_if')
  then have z: "unat (drop_bit 10 (x + 0x200)) = (unat x + 512) div 1024" by (simp add: unat_drop_bit_div)
  have m: "unat (x AND 0x3FF) = unat x mod 1024" using unat_and_low[of x 10] by (simp add: mask_eq_exp_minus_1)
  have "x AND 0x3FF = 0x200 \<longleftrightarrow> unat x mod 1024 = 512" unfolding m[symmetric] word_unat_eq_iff by simp
  then show ?thesis using rne_shift_code[of 10 "unat x"] by (simp add: unat_clear_bit0 z Let_def)
qed

lemma roundPackToF64_value:
  assumes "unat sig < 9223372036854775808" "4611686018427387904 \<le> unat sig \<or> exp \<le> 0" "- 60000 < exp" "exp < 60000"
  shows "roundPackToF64 sign exp sig = f64_round sign (unat sig * 2 ^ nat exp) (10 + nat (- exp))"
proof (cases "exp < 0")
  case True
  define d where "d = nat (- exp)"
  have d: "unat (word_of_int (- exp) :: u32) = d"
    unfolding d_def by (rule unat32_of_int) (use True assms(3) in linarith)+
  let ?x = "shiftRightJam64 sig (word_of_int (- exp))"
  have x: "unat ?x = jam (unat sig) d" using shiftRightJam64_value[of "word_of_int (- exp)" sig] True
    unfolding d by (simp add: d_def)
  have xb: "unat ?x < 9223372036854775808" using assms(1) x jam_le[of "unat sig" d] by simp
  have r: "rnd 53 (unat sig) (10 + d) = rne_shift (unat ?x) 10"
    unfolding x using rnd_jam_packed[of "unat sig" 53 10 d] assms(1) by simp
  have "rne_shift (unat ?x) 10 \<le> 9007199254740992" using rne_shift_le[of "unat ?x" 10 53] xb by simp
  then have p: "packToF64UI sign 0 z = of_nat ((if sign then 9223372036854775808 else 0) + min (rne_shift (unat ?x) 10) 9218868437227405312)"
    if "unat z = rne_shift (unat ?x) 10" for z
    using that by (intro pack64_of_nat) simp_all
  have "roundPackToF64 sign exp sig =
      packToF64UI sign 0 (drop_bit 10 (?x + 0x200) AND NOT (of_bool (?x AND 0x3FF = 0x200)))"
    unfolding roundPackToF64_code[OF assms(3,4)] Let_def using True by simp
  also have "\<dots> = f64_round sign (unat sig) (10 + d)"
    unfolding f64_round_def r by (rule p[OF round_sig64[OF xb]])
  finally show ?thesis using True by (simp add: d_def)
next
  case False
  then have e: "0 \<le> exp" by simp
  define n where "n = nat exp"
  let ?q = "rne_shift (unat sig) 10"
  have R: "rnd 53 (unat sig * 2 ^ n) 10 = n * 4503599627370496 + ?q"
    using rnd_packed[of "unat sig" 53 10 n] assms e by (auto simp: n_def)
  have q: "?q \<le> 9007199254740992" using rne_shift_le[of "unat sig" 10 53] assms(1) by simp
  have q1: "4503599627370496 \<le> ?q" if "4611686018427387904 \<le> unat sig" using rne_shift_ge[of 10 52 "unat sig"] that by simp
  have q2: "?q = 9007199254740992 \<longleftrightarrow> 0x8000000000000000 \<le> sig + 0x200"
  proof -
    have "unat (sig + 0x200) = unat sig + 512" using assms(1) by (simp add: unat_plus_if')
    then show ?thesis using rne_shift_top[of "unat sig" 10 53] assms(1) by (simp add: word_le_nat_alt)
  qed
  let ?z = "drop_bit 10 (sig + 0x200) AND NOT (of_bool (sig AND 0x3FF = 0x200))"
  have z: "unat ?z = ?q" by (rule round_sig64[OF assms(1)])
  have code: "roundPackToF64 sign exp sig =
      (if 2045 < n \<or> n = 2045 \<and> ?q = 9007199254740992 then packToF64UI sign 0x7FF 0 else packToF64UI sign (if ?z = 0 then 0 else exp) ?z)"
    unfolding roundPackToF64_code[OF assms(3,4)] Let_def q2 n_def using e by auto
  have value_eq: "f64_round sign (unat sig * 2 ^ nat exp) (10 + nat (- exp)) =
      of_nat ((if sign then 9223372036854775808 else 0) + min (n * 4503599627370496 + ?q) 9218868437227405312)"
    using e R by (simp add: f64_round_def n_def)
  have nz: "n = 0 \<or> 4503599627370496 \<le> ?q" using q1 assms(2) by (auto simp: n_def)
  show ?thesis
  proof (cases "2045 < n \<or> n = 2045 \<and> ?q = 9007199254740992")
    case True
    then have "min (n * 4503599627370496 + ?q) 9218868437227405312 = 9218868437227405312" using nz by auto
    then show ?thesis using pack64_of_nat[of 2047 0 "n * 4503599627370496 + ?q" sign] True unfolding code value_eq by simp
  next
    case False
    then have "n * 4503599627370496 + ?q < 9218868437227405312" using q by (cases "n = 2045") auto
    moreover have "?z = 0 \<longleftrightarrow> ?q = 0" using z by (metis unat_eq_zero)
    ultimately have "packToF64UI sign (if ?z = 0 then 0 else exp) ?z
        = of_nat ((if sign then 9223372036854775808 else 0) + min (n * 4503599627370496 + ?q) 9218868437227405312)"
      using nz z e by (intro pack64_of_nat) (auto simp: n_def)
    then show ?thesis unfolding code value_eq if_not_P[OF False] .
  qed
qed

lemma normRoundPackToF64_value:
  assumes "0 < unat sig" "unat sig < 9223372036854775808" "- 59000 < exp" "exp < 59000"
  shows "normRoundPackToF64 sign exp sig = f64_round sign (unat sig * 2 ^ nat exp) (10 + nat (- exp))"
proof -
  define a where "a = 63 - nbits (unat sig)"
  have nb: "1 \<le> nbits (unat sig)" "nbits (unat sig) \<le> 63"
    using nbits_le[of "unat sig" 0] nbits_le[of "unat sig" 63] assms by simp_all
  have sh: "int (countLeadingZeros64 sig) - 1 = int a" using nb by (simp add: clz64_value a_def of_nat_diff)
  let ?n = "unat sig * 2 ^ a"
  have "nbits ?n = 63" using nb assms(1) by (simp add: a_def)
  then have n: "4611686018427387904 \<le> ?n" "?n < 9223372036854775808" using nbits_le[of ?n 62] nbits_le[of ?n 63] by simp_all
  have u: "unat (push_bit a sig) = ?n" using n by (simp add: unat_push_bit_mod)
  have target: "f64_round sign (unat sig * 2 ^ nat exp) (10 + nat (- exp))
      = f64_round sign (?n * 2 ^ nat (exp - int a)) (10 + nat (int a - exp))"
    unfolding f64_round_def rnd_shift[OF assms(1)] ..
  show ?thesis
  proof (cases "10 \<le> a \<and> 0 \<le> exp - int a \<and> exp - int a < 0x7FD")
    case True
    define e where "e = nat (exp - int a)"
    have "a = a - 10 + 10" using True by simp
    then have n7: "?n = unat sig * 2 ^ (a - 10) * 2 ^ 10" by (metis mult.assoc power_add)
    have "rnd 53 (?n * 2 ^ e) 10 = e * 4503599627370496 + rne_shift ?n 10" using rnd_packed[of ?n 53 10 e] n by simp
    also have "rne_shift ?n 10 = unat sig * 2 ^ (a - 10)" unfolding n7 by (rule rne_shift_exact)
    finally have R: "rnd 53 (?n * 2 ^ e) 10 = e * 4503599627370496 + unat sig * 2 ^ (a - 10)" .
    have s: "unat sig * 2 ^ (a - 10) < 9007199254740992" using n(2) unfolding n7 by simp
    then have "unat (push_bit (a - 10) sig) = unat sig * 2 ^ (a - 10)" by (simp add: unat_push_bit_mod)
    then have "packToF64UI sign (exp - int a) (push_bit (a - 10) sig)
        = of_nat ((if sign then 9223372036854775808 else 0) + min (rnd 53 (?n * 2 ^ e) 10) 9218868437227405312)"
      using s True unfolding R by (intro pack64_of_nat) (auto simp: e_def)
    moreover have "sig \<noteq> 0" using assms(1) by auto
    moreover have "normRoundPackToF64 sign exp sig = packToF64UI sign (exp - int a) (push_bit (a - 10) sig)"
      using True \<open>sig \<noteq> 0\<close> by (simp add: normRoundPackToF64_def sh Let_def nat_diff_distrib)
    ultimately show ?thesis unfolding target using True by (simp add: f64_round_def e_def)
  next
    case False
    then have "normRoundPackToF64 sign exp sig = roundPackToF64 sign (exp - int a) (push_bit a sig)"
      by (auto simp: normRoundPackToF64_def sh Let_def)
    also have "\<dots> = f64_round sign (?n * 2 ^ nat (exp - int a)) (10 + nat (- (exp - int a)))"
      using roundPackToF64_value[of "push_bit a sig" "exp - int a" sign] n u assms(3,4) nb by (simp add: a_def)
    finally show ?thesis unfolding target by simp
  qed
qed

section \<open>Addition of magnitudes\<close>

text \<open>A significand shifted left by \<open>g\<close> places, doubled when the number is subnormal.\<close>

definition aligned64 :: "nat \<Rightarrow> u64 \<Rightarrow> nat" where
  "aligned64 g a = (if expF64UI a = 0 then unat (fracF64UI a) * 2 ^ Suc g else (4503599627370496 + unat (fracF64UI a)) * 2 ^ g)"

lemma aligned64_mag: "aligned64 g a * 2 ^ nat (expF64UI a) = f64_mag a * 2 ^ Suc g"
proof (cases "expF64UI a = 0")
  case False
  then have "nat (expF64UI a) = Suc (nat (expF64UI a) - 1)" using exp64_range[of a] by simp
  then have "(2 :: nat) ^ nat (expF64UI a) = 2 * 2 ^ (nat (expF64UI a) - 1)" by (metis power_Suc)
  then show ?thesis using False by (simp add: aligned64_def f64_mag_value)
qed (simp add: aligned64_def f64_mag_value)

lemma aligned64_less: "aligned64 g a < 9007199254740992 * 2 ^ g"
  using frac64_less[of a] by (auto simp: aligned64_def)

lemma aligned64_even: "1 \<le> g \<Longrightarrow> even (aligned64 g a)"
  by (auto simp: aligned64_def)

lemma f64_sum_round:
  assumes X: "X * 2 ^ Eb = mb * 2 ^ k" and A: "A * 2 ^ Eb = ms * 2 ^ (k + d)" and "k = 10"
    and big: "2305843009213693952 \<le> X" "even X"
  shows "rnd 53 ((X + jam A d) * 2 ^ Eb) k = rnd 53 (mb + ms) 0"
proof -
  let ?S = "X + jam A d"
  have S: "?S = jam (X * 2 ^ d + A) d" using big(2) by (simp add: jam_add)
  have "61 < nbits ?S" using nbits_le[of ?S 61] big(1) by simp
  then have "rnd 53 (?S * 2 ^ Eb) k = rnd 53 ((X * 2 ^ d + A) * 2 ^ Eb) (k + d)"
    unfolding S using big(1) by (intro rnd_jam) (simp_all flip: S)
  also have "(X * 2 ^ d + A) * 2 ^ Eb = (mb + ms) * 2 ^ (k + d)"
    using X A by (simp add: algebra_simps power_add)
  also have "rnd 53 \<dots> (k + d) = rnd 53 (mb + ms) 0"
  proof -
    have "0 < mb" using X big(1) by (metis gr0I mult_is_0 not_numeral_le_zero power_not_zero zero_neq_numeral)
    then show ?thesis using rnd_scale[of "mb + ms" 53 "k + d" 0] by simp
  qed
  finally show ?thesis .
qed

lemma unat_shift_frac64:
  "unat (push_bit 9 (fracF64UI a)) = unat (fracF64UI a) * 512" "unat (push_bit 10 (fracF64UI a)) = unat (fracF64UI a) * 1024"
  using frac64_less[of a] by (simp_all add: unat_push_bit_mod)

text \<open>The branch of unequal exponents, with the larger operand first.\<close>

lemma add64_unequal:
  fixes big small :: u64
  assumes "expF64UI small < expF64UI big" "expF64UI big < 2047"
  defines "sigS \<equiv> push_bit 9 (fracF64UI small)" and "sigB \<equiv> push_bit 9 (fracF64UI big)"
  defines "x \<equiv> shiftRightJam64 (if expF64UI small \<noteq> 0 then sigS + 0x2000000000000000 else push_bit 1 sigS)
      (word_of_int (expF64UI big - expF64UI small))"
  assumes z_eq: "z = 0x2000000000000000 + sigB + x \<or> z = 0x2000000000000000 + x + sigB"
  shows "roundPackToF64 sign (if z < 0x4000000000000000 then expF64UI big - 1 else expF64UI big)
      (if z < 0x4000000000000000 then push_bit 1 z else z) = f64_round sign (f64_mag big + f64_mag small) 0"
proof -
  define d where "d = nat (expF64UI big - expF64UI small)"
  define Eb where "Eb = nat (expF64UI big)"
  have d: "1 \<le> d" "d < 2047" "Eb = d + nat (expF64UI small)"
    using assms(1,2) exp64_range[of small] exp64_range[of big] by (simp_all add: d_def Eb_def)
  let ?A = "aligned64 9 small" and ?X = "aligned64 9 big"
  have ud: "unat (word_of_int (expF64UI big - expF64UI small) :: u32) = d"
    unfolding d_def by (rule unat32_of_int) (use assms(1,2) exp64_range[of small] in linarith)+
  have A: "unat (if expF64UI small \<noteq> 0 then sigS + 0x2000000000000000 else push_bit 1 sigS) = ?A"
    using frac64_less[of small] unfolding sigS_def aligned64_def
    by (simp add: unat_plus_if' unat_shift_frac64)
  have Ab: "?A < 4611686018427387904" "even ?A" using aligned64_less[of 9 small] aligned64_even[of 9 small] by simp_all
  have x: "unat x = jam ?A d" unfolding x_def using shiftRightJam64_value ud d(1) A by simp
  have xb: "unat x < 2305843009213693952" using jam_even_half[OF Ab(2) d(1)] Ab(1) x by simp
  have X: "unat (0x2000000000000000 + sigB) = ?X" "2305843009213693952 \<le> ?X" "even ?X" "?X < 4611686018427387904"
    using frac64_less[of big] assms(1) exp64_range[of small] aligned64_even[of 9 big] aligned64_less[of 9 big]
    unfolding sigB_def by (simp_all add: aligned64_def unat_plus_if' unat_shift_frac64)
  have "z = 0x2000000000000000 + sigB + x" using z_eq by (auto simp: add_ac)
  then have z: "unat z = ?X + jam ?A d" unfolding x[symmetric] X(1)[symmetric]
    using X(1,4) xb by (simp only: unat_plus_if') simp
  have zb: "unat z < 6917529027641081856" using X(4) xb unfolding z x[symmetric] by simp
  have R: "rnd 53 (unat z * 2 ^ Eb) 10 = rnd 53 (f64_mag big + f64_mag small) 0"
    unfolding z using X aligned64_mag[of 9 big] aligned64_mag[of 9 small] d(3)
    by (intro f64_sum_round) (simp_all add: Eb_def power_add mult_ac)
  have lt: "z < 0x4000000000000000 \<longleftrightarrow> unat z < 4611686018427387904" by (simp add: word_less_nat_alt)
  have ge: "2305843009213693952 \<le> unat z" using X(2) z by simp
  show ?thesis
  proof (cases "unat z < 4611686018427387904")
    case True
    then have p: "unat (z * 2) = unat z * 2" using unat_shl1[of z] by simp
    have "(2 :: nat) ^ Eb = 2 * 2 ^ nat (expF64UI big - 1)"
      using d by (simp add: Eb_def nat_diff_distrib flip: power_Suc)
    then have eq: "unat z * 2 * 2 ^ nat (expF64UI big - 1) = unat z * 2 ^ Eb" by simp
    have "roundPackToF64 sign (expF64UI big - 1) (push_bit 1 z) =
        f64_round sign (unat z * 2 * 2 ^ nat (expF64UI big - 1)) 10"
      using roundPackToF64_value[of "push_bit 1 z" "expF64UI big - 1" sign] p ge True assms(1,2) exp64_range[of small] by simp
    then show ?thesis unfolding eq using True R lt by (simp add: f64_round_def)
  next
    case False
    then have "roundPackToF64 sign (expF64UI big) z = f64_round sign (unat z * 2 ^ Eb) 10"
      using roundPackToF64_value[of z "expF64UI big" sign] zb exp64_range[of big] by (simp add: Eb_def)
    then show ?thesis using False R lt by (simp add: f64_round_def)
  qed
qed

text \<open>The branch of equal exponents.\<close>

lemma add64_equal:
  assumes "expF64UI a = expF64UI b" "expF64UI a < 2047" "expF64UI a \<noteq> 0"
  defines "z \<equiv> 0x0020000000000000 + fracF64UI a + fracF64UI b"
  shows "roundPackToF64 sign (expF64UI a) (push_bit 9 z) = f64_round sign (f64_mag a + f64_mag b) 0"
proof -
  define e where "e = nat (expF64UI a)"
  have e: "1 \<le> e" "e < 2047" "expF64UI a = int e" using assms exp64_range[of a] by (simp_all add: e_def)
  have z: "unat z = 9007199254740992 + unat (fracF64UI a) + unat (fracF64UI b)"
    using frac64_less[of a] frac64_less[of b] unfolding z_def by (simp add: unat_plus_if')
  have zb: "9007199254740992 \<le> unat z" "unat z < 18014398509481984" using z frac64_less[of a] frac64_less[of b] by simp_all
  have sum: "f64_mag a + f64_mag b = unat z * 2 ^ (e - 1)"
    using assms(1,3) unfolding z by (simp add: f64_mag_value e_def algebra_simps)
  have ee: "(2 :: nat) ^ e = 2 * 2 ^ (e - 1)" using e(1) by (metis Suc_diff_1 Suc_le_eq One_nat_def power_Suc)
  have u: "unat (push_bit 9 z) = unat z * 512" using zb by (simp add: unat_push_bit_mod)
  have "unat z * 512 * 2 ^ e = (f64_mag a + f64_mag b) * 2 ^ 10" unfolding sum using ee by simp
  moreover have "0 < f64_mag a + f64_mag b" unfolding sum using zb by simp
  ultimately have "rnd 53 (unat z * 512 * 2 ^ e) 10 = rnd 53 (f64_mag a + f64_mag b) 0"
    using rnd_scale[of "f64_mag a + f64_mag b" 53 10 0] by simp
  moreover have "roundPackToF64 sign (expF64UI a) (push_bit 9 z) = f64_round sign (unat z * 512 * 2 ^ e) 10"
    using roundPackToF64_value[of "push_bit 9 z" "expF64UI a" sign] zb e unfolding u by simp
  ultimately show ?thesis by (simp add: f64_round_def)
qed

lemma addMagsF64_value:
  assumes "expF64UI a < 2047" "expF64UI b < 2047"
  shows "addMagsF64 a b (signF64UI a) = f64_round (signF64UI a) (f64_mag a + f64_mag b) 0"
proof -
  consider "expF64UI a = expF64UI b" "expF64UI a = 0" | "expF64UI a = expF64UI b" "expF64UI a \<noteq> 0"
    | "expF64UI a < expF64UI b" | "expF64UI b < expF64UI a" by linarith
  then show ?thesis
  proof cases
    case 1
    have "f64_mag a + f64_mag b = unat (fracF64UI a) + unat (fracF64UI b)" using 1 by (simp add: f64_mag_value)
    then have "rnd 53 (f64_mag a + f64_mag b) 0 = unat (fracF64UI a) + unat (fracF64UI b)"
      using frac64_less[of a] frac64_less[of b] by (simp add: rnd_exact)
    moreover have "unat (fracF64UI a) + unat (fracF64UI b) < 9218868437227405312"
      using frac64_less[of a] frac64_less[of b] by simp
    moreover have "a + fracF64UI b = of_nat (unat a + unat (fracF64UI b))" by simp
    moreover have "unat a = (if signF64UI a then 9223372036854775808 else 0) + unat (fracF64UI a)"
      using bits64_full[of a] 1 by simp
    moreover have "addMagsF64 a b (signF64UI a) = a + fracF64UI b" using 1 by (simp add: addMagsF64_def Let_def)
    ultimately show ?thesis unfolding f64_round_def by (simp only: add.assoc) (simp only: min.absorb1 less_imp_le)
  next
    case 2
    then show ?thesis using add64_equal[of a b "signF64UI a"] assms
      by (auto simp: addMagsF64_def Let_def split: if_splits)
  next
    case 3
    then have c: "expF64UI a - expF64UI b \<noteq> 0" "expF64UI a - expF64UI b < 0" "expF64UI b \<noteq> 0x7FF"
      "- (expF64UI a - expF64UI b) = expF64UI b - expF64UI a" using assms by simp_all
    show ?thesis
      unfolding addMagsF64_def Let_def if_not_P[OF c(1)] if_P[OF c(2)] if_not_P[OF c(3)] c(4) if_pair
        add.commute[of "f64_mag a"]
      by (rule add64_unequal[of a b _ "signF64UI a", OF 3 assms(2)]) (rule disjI2, rule refl)
  next
    case 4
    then have c: "expF64UI a - expF64UI b \<noteq> 0" "\<not> expF64UI a - expF64UI b < 0" "expF64UI a \<noteq> 0x7FF"
      using assms by simp_all
    show ?thesis
      unfolding addMagsF64_def Let_def if_not_P[OF c(1)] if_not_P[OF c(2)] if_not_P[OF c(3)] if_pair
      by (rule add64_unequal[of b a _ "signF64UI a", OF 4 assms(1)]) (rule disjI1, rule refl)
  qed
qed

section \<open>Subtraction of magnitudes\<close>

lemma f64_mag_exp_less:
  assumes "expF64UI a < expF64UI b"
  shows "f64_mag a < f64_mag b"
proof -
  have "Suc (nat (expF64UI a)) \<le> nat (expF64UI b)" using assms exp64_range[of a] by simp
  then have "unat a mod 9223372036854775808 < unat b mod 9223372036854775808" unfolding bits64_split using frac64_less[of a] by linarith
  then show ?thesis by (simp add: f64_mag_def enc_mag_mono)
qed

lemma rnd_diff64:
  assumes X: "X * 2 ^ E = mb * 2 ^ 10" and A: "A * 2 ^ E = ms * 2 ^ (10 + d)"
    and b: "4611686018427387904 \<le> X" "even X" "A < 9223372036854775808" "1024 dvd A" "1 \<le> d"
  shows "rnd 53 ((X - jam A d) * 2 ^ E) 10 = rnd 53 (mb - ms) 0" "0 < X - jam A d"
proof -
  have "A < X * 2 ^ d"
  proof -
    have "4611686018427387904 * 2 ^ 1 \<le> X * 2 ^ d" using b(1,5) by (intro mult_le_mono power_increasing) simp_all
    then show ?thesis using b(3) by simp
  qed
  then have D: "X - jam A d = jam (X * 2 ^ d - A) d" "0 < X * 2 ^ d - A" using jam_sub[of X A d] b(2) by simp_all
  then show pos: "0 < X - jam A d" using jam_pos by simp
  have diff: "(X * 2 ^ d - A) * 2 ^ E = (mb - ms) * 2 ^ (10 + d)"
  proof -
    have "X * 2 ^ d * 2 ^ E = mb * 2 ^ (10 + d)" using X by (simp add: power_add mult_ac)
    then show ?thesis using A by (simp add: diff_mult_distrib)
  qed
  then have m: "0 < mb - ms" using D(2) by (metis gr0I mult_is_0 power_not_zero zero_neq_numeral)
  have "rnd 53 ((X - jam A d) * 2 ^ E) 10 = rnd 53 ((X * 2 ^ d - A) * 2 ^ E) (10 + d)"
  proof (cases "A mod 2 ^ d = 0")
    case True
    then have "2 ^ d dvd X * 2 ^ d - A" by (simp add: dvd_diff_nat mod_0_imp_dvd)
    then have "(X - jam A d) * 2 ^ d = X * 2 ^ d - A" unfolding D(1) by (simp add: jam_exact)
    then have "(X * 2 ^ d - A) * 2 ^ E = (X - jam A d) * 2 ^ E * 2 ^ d" by (metis mult.assoc mult.commute)
    then show ?thesis using rnd_scale[of "(X - jam A d) * 2 ^ E" 53 d 10] pos by (simp only:) simp
  next
    case False
    have "11 \<le> d"
    proof (rule ccontr)
      assume "\<not> 11 \<le> d"
      then have "2 ^ d dvd (2 ^ 10 :: nat)" by (intro le_imp_power_dvd) simp
      moreover have "2 ^ 10 dvd A" using b(4) by simp
      ultimately have "2 ^ d dvd A" by (rule dvd_trans)
      then show False using False by simp
    qed
    then have "A div 2 ^ d \<le> A div 2 ^ 11" by (intro div_le_mono2 power_increasing) simp_all
    then have "A div 2 ^ d \<le> 4503599627370496" using b(3) by simp
    then have "jam A d \<le> 4503599627370497" by (simp add: jam_def Let_def)
    then have "2 ^ 54 \<le> X - jam A d" using b(1) by simp
    then have "55 \<le> nbits (X - jam A d)" using nbits_le[of "X - jam A d" 54] by simp
    then show ?thesis using rnd_jam[of "X * 2 ^ d - A" d E 10 53] pos \<open>2 ^ 54 \<le> X - jam A d\<close>
      unfolding D(1)[symmetric] by simp
  qed
  also have "\<dots> = rnd 53 (mb - ms) 0" unfolding diff using rnd_scale[OF m, of 53 "10 + d" 0] by simp
  finally show "rnd 53 ((X - jam A d) * 2 ^ E) 10 = rnd 53 (mb - ms) 0" .
qed

lemma sub64_unequal:
  fixes big small :: u64
  assumes "expF64UI small < expF64UI big" "expF64UI big < 2047"
  defines "sigS \<equiv> push_bit 10 (fracF64UI small)" and "sigB \<equiv> push_bit 10 (fracF64UI big)"
  shows "normRoundPackToF64 sign (expF64UI big - 1) ((sigB OR 0x4000000000000000) -
      shiftRightJam64 (sigS + (if expF64UI small \<noteq> 0 then 0x4000000000000000 else sigS))
        (word_of_int (expF64UI big - expF64UI small))) = f64_round sign (f64_mag big - f64_mag small) 0"
proof -
  define d where "d = nat (expF64UI big - expF64UI small)"
  define E where "E = nat (expF64UI big - 1)"
  have d: "1 \<le> d" "d < 2047" "Suc E = d + nat (expF64UI small)" "nat (expF64UI big) = Suc E"
    using assms(1,2) exp64_range[of small] exp64_range[of big] by (simp_all add: d_def E_def)
  let ?A = "aligned64 10 small" and ?X = "aligned64 10 big"
  let ?x = "shiftRightJam64 (sigS + (if expF64UI small \<noteq> 0 then 0x4000000000000000 else sigS))
        (word_of_int (expF64UI big - expF64UI small))"
  have ud: "unat (word_of_int (expF64UI big - expF64UI small) :: u32) = d"
    unfolding d_def by (rule unat32_of_int) (use assms(1,2) exp64_range[of small] in linarith)+
  have A: "unat (sigS + (if expF64UI small \<noteq> 0 then 0x4000000000000000 else sigS)) = ?A"
    using frac64_less[of small] unfolding sigS_def aligned64_def
    by (simp add: unat_plus_if' unat_shift_frac64)
  have Ab: "?A < 9223372036854775808" "even ?A" "1024 dvd ?A"
    using aligned64_less[of 10 small] aligned64_even[of 10 small] by (auto simp: aligned64_def)
  have x: "unat ?x = jam ?A d" using shiftRightJam64_value ud d(1) A by simp
  have Xeq: "unat (sigB OR 0x4000000000000000) = ?X"
  proof -
    have "unat sigB = unat (fracF64UI big) * 1024" unfolding sigB_def by (rule unat_shift_frac64)
    then show ?thesis using unat_or_push1[of sigB 62] frac64_less[of big] assms(1) exp64_range[of small]
      by (simp add: aligned64_def push_bit_eq_mult)
  qed
  have X: "4611686018427387904 \<le> ?X" "even ?X" "?X < 9223372036854775808"
    using assms(1) exp64_range[of small] aligned64_even[of 10 big] aligned64_less[of 10 big] by (simp_all add: aligned64_def)
  have R: "rnd 53 ((?X - jam ?A d) * 2 ^ E) 10 = rnd 53 (f64_mag big - f64_mag small) 0" "0 < ?X - jam ?A d"
  proof -
    have "?X * 2 ^ E = f64_mag big * 2 ^ 10" using aligned64_mag[of 10 big] d(4) by (simp add: mult.commute)
    moreover have "?A * 2 ^ E = f64_mag small * 2 ^ (10 + d)"
    proof -
      have "?A * 2 ^ Suc E = ?A * 2 ^ nat (expF64UI small) * 2 ^ d" unfolding d(3) by (simp add: power_add mult_ac)
      then show ?thesis unfolding aligned64_mag by (simp add: power_add mult_ac)
    qed
    ultimately show "rnd 53 ((?X - jam ?A d) * 2 ^ E) 10 = rnd 53 (f64_mag big - f64_mag small) 0" "0 < ?X - jam ?A d"
      by (rule rnd_diff64; use X Ab d in simp)+
  qed
  have z: "unat ((sigB OR 0x4000000000000000) - ?x) = ?X - jam ?A d"
    using R(2) unfolding Xeq[symmetric] x[symmetric] by (intro unat_sub) (simp add: word_le_nat_alt)
  have "normRoundPackToF64 sign (expF64UI big - 1) ((sigB OR 0x4000000000000000) - ?x)
      = f64_round sign (unat ((sigB OR 0x4000000000000000) - ?x) * 2 ^ E) 10"
    using normRoundPackToF64_value[of "(sigB OR 0x4000000000000000) - ?x" "expF64UI big - 1" sign] z R(2) X(3)
      assms(1,2) exp64_range[of small] by (simp add: E_def)
  then show ?thesis unfolding z f64_round_def R(1) .
qed

lemma sint64_of_int: "- 9223372036854775808 \<le> d \<Longrightarrow> d < 9223372036854775808 \<Longrightarrow> sint (word_of_int d :: u64) = d"
  by (rule sint_word_of_int_eq) simp_all

lemma unat64_of_int: "0 \<le> d \<Longrightarrow> d < 18446744073709551616 \<Longrightarrow> unat (word_of_int d :: u64) = nat d"
  by (simp add: unat_eq_nat_uint uint_word_of_int)

lemma sub64_equal:
  assumes "expF64UI a = expF64UI b" "expF64UI a < 2047" "fracF64UI a \<noteq> fracF64UI b"
  defines "E \<equiv> (if expF64UI a \<noteq> 0 then expF64UI a - 1 else expF64UI a)"
    and "D \<equiv> (if sint (fracF64UI a - fracF64UI b) < 0 then - (fracF64UI a - fracF64UI b) else fracF64UI a - fracF64UI b)"
  defines "sh \<equiv> int (countLeadingZeros64 D) - 11"
  shows "packToF64UI sign (if E - sh < 0 then 0 else E - sh) (push_bit (nat (if E - sh < 0 then E else sh)) D) =
      f64_round sign (nat \<bar>int (f64_mag a) - int (f64_mag b)\<bar>) 0"
    "sint (fracF64UI a - fracF64UI b) < 0 \<longleftrightarrow> f64_mag a < f64_mag b"
    "f64_mag a \<noteq> f64_mag b"
proof -
  define e where "e = nat E"
  have "0 \<le> E" "E \<le> 2045" unfolding E_def using assms(2) exp64_range[of a] by auto
  then have e: "E = int e" "e \<le> 2045" by (simp_all add: e_def nat_le_iff)
  have fb: "unat (fracF64UI a) < 4503599627370496" "unat (fracF64UI b) < 4503599627370496" using frac64_less by simp_all
  define df where "df = int (unat (fracF64UI a)) - int (unat (fracF64UI b))"
  have fd: "fracF64UI a - fracF64UI b = word_of_int df" by (simp add: df_def)
  have dfb: "\<bar>df\<bar> < 4503599627370496" using fb by (simp add: df_def del: of_nat_unat)
  have "df \<noteq> 0" using assms(3) by (simp add: df_def word_unat_eq_iff del: of_nat_unat)
  have sd: "sint (fracF64UI a - fracF64UI b) = df" unfolding fd using dfb by (intro sint64_of_int) linarith+
  have "D = word_of_int \<bar>df\<bar>" unfolding D_def sd unfolding fd by simp
  then have D: "unat D = nat \<bar>df\<bar>" using dfb by (simp only:) (intro unat64_of_int; linarith)
  have mags: "f64_mag c = (if expF64UI a = 0 then 0 else 4503599627370496 * 2 ^ e) + unat (fracF64UI c) * 2 ^ e" if "expF64UI c = expF64UI a" for c
    using that exp64_range[of a] by (auto simp: f64_mag_value e_def E_def nat_diff_distrib algebra_simps)
  have diff: "int (f64_mag a) - int (f64_mag b) = df * 2 ^ e"
    using mags[of a] mags[of b] assms(1) by (simp add: df_def algebra_simps del: of_nat_unat)
  then have nd: "nat \<bar>int (f64_mag a) - int (f64_mag b)\<bar> = unat D * 2 ^ e"
    by (simp add: D abs_mult nat_mult_distrib nat_power_eq)
  show "sint (fracF64UI a - fracF64UI b) < 0 \<longleftrightarrow> f64_mag a < f64_mag b"
    unfolding sd using diff by (smt (verit) mult_less_0_iff of_nat_less_iff zero_less_power)
  show "f64_mag a \<noteq> f64_mag b" using diff \<open>df \<noteq> 0\<close> by auto
  have D0: "0 < unat D" "unat D < 4503599627370496" using D dfb \<open>df \<noteq> 0\<close> by simp_all
  define nb where "nb = nbits (unat D)"
  have nb: "1 \<le> nb" "nb \<le> 52" using nbits_le[of "unat D" 0] nbits_le[of "unat D" 52] D0 by (simp_all add: nb_def)
  have sh: "sh = int (53 - nb)" using nb by (simp add: sh_def clz64_value nb_def of_nat_diff)
  show "packToF64UI sign (if E - sh < 0 then 0 else E - sh) (push_bit (nat (if E - sh < 0 then E else sh)) D) =
      f64_round sign (nat \<bar>int (f64_mag a) - int (f64_mag b)\<bar>) 0"
  proof (cases "E - sh < 0")
    case True
    then have "nb + e \<le> 52" unfolding sh e(1) using nb by linarith
    then have "nbits (unat D * 2 ^ e) \<le> 52" using D0 by (simp add: nb_def)
    then have l: "unat D * 2 ^ e < 4503599627370496" using nbits_le[of "unat D * 2 ^ e" 52] by simp
    then have u: "unat (push_bit e D) = unat D * 2 ^ e" by (simp add: unat_push_bit_mod)
    have "rnd 53 (unat D * 2 ^ e) 0 = unat D * 2 ^ e" using l by (intro rnd_exact) simp
    then have "packToF64UI sign 0 (push_bit e D) = f64_round sign (unat D * 2 ^ e) 0"
      unfolding f64_round_def using l u by (intro pack64_of_nat) simp_all
    then show ?thesis unfolding nd using True by (simp add: e_def)
  next
    case False
    define k where "k = 53 - nb"
    define y where "y = nat (E - sh)"
    have k: "e = k + y" "E - sh = int y" "sh = int k" using False sh e by (simp_all add: k_def y_def)
    have "nbits (unat D * 2 ^ k) = 53" using D0 nb by (simp add: nb_def[symmetric] k_def)
    then have l: "4503599627370496 \<le> unat D * 2 ^ k" "unat D * 2 ^ k < 9007199254740992"
      using nbits_le[of "unat D * 2 ^ k" 52] nbits_le[of "unat D * 2 ^ k" 53] by simp_all
    then have u: "unat (push_bit k D) = unat D * 2 ^ k" by (simp add: unat_push_bit_mod)
    have "rnd 53 (unat D * 2 ^ k * 2 ^ y) 0 = y * 4503599627370496 + unat D * 2 ^ k"
      using rnd_packed[of "unat D * 2 ^ k" 53 0 y] l by simp
    then have "rnd 53 (unat D * 2 ^ e) 0 = y * 4503599627370496 + unat D * 2 ^ k" by (simp add: k(1) power_add mult_ac)
    then have "packToF64UI sign (int y) (push_bit k D) = f64_round sign (unat D * 2 ^ e) 0"
      unfolding f64_round_def using l u e(2) k(1) by (intro pack64_of_nat) simp_all
    then show ?thesis unfolding nd if_not_P[OF False] unfolding k(2) unfolding k(3) by simp
  qed
qed

lemma subMagsF64_value:
  assumes "expF64UI a < 2047" "expF64UI b < 2047"
  shows "subMagsF64 a b (signF64UI a) =
    (if f64_mag a = f64_mag b then 0
     else f64_round (signF64UI a \<noteq> (f64_mag a < f64_mag b)) (nat \<bar>int (f64_mag a) - int (f64_mag b)\<bar>) 0)"
proof -
  consider "expF64UI a = expF64UI b" "fracF64UI a = fracF64UI b" | "expF64UI a = expF64UI b" "fracF64UI a \<noteq> fracF64UI b"
    | "expF64UI a < expF64UI b" | "expF64UI b < expF64UI a" by linarith
  then show ?thesis
  proof cases
    case 1
    then have "f64_mag a = f64_mag b" by (simp add: f64_mag_value)
    moreover have "subMagsF64 a b (signF64UI a) = packToF64UI False 0 0"
      using 1 assms by (simp add: subMagsF64_def Let_def rounding_modes)
    ultimately show ?thesis by (simp add: packToF64UI_def)
  next
    case 2
    note eq = sub64_equal[OF 2(1) assms(1) 2(2)]
    have c: "expF64UI a - expF64UI b = 0" "expF64UI a \<noteq> 0x7FF" "fracF64UI a - fracF64UI b \<noteq> 0" using 2 assms by simp_all
    have "subMagsF64 a b (signF64UI a) = f64_round (signF64UI a \<noteq> (f64_mag a < f64_mag b)) (nat \<bar>int (f64_mag a) - int (f64_mag b)\<bar>) 0"
      unfolding subMagsF64_def Let_def if_P[OF c(1)] if_not_P[OF c(2)] if_not_P[OF c(3)] if_pair eq(2)[symmetric]
      using eq(1) by (cases "sint (fracF64UI a - fracF64UI b) < 0") simp_all
    then show ?thesis using eq(3) by simp
  next
    case 3
    then have c: "expF64UI a - expF64UI b \<noteq> 0" "expF64UI a - expF64UI b < 0" "expF64UI b \<noteq> 0x7FF"
      "- (expF64UI a - expF64UI b) = expF64UI b - expF64UI a" using assms by simp_all
    have "subMagsF64 a b (signF64UI a) = f64_round (\<not> signF64UI a) (f64_mag b - f64_mag a) 0"
      unfolding subMagsF64_def Let_def if_not_P[OF c(1)] if_P[OF c(2)] if_not_P[OF c(3)] c(4)
      by (rule sub64_unequal[OF 3 assms(2)])
    then show ?thesis using f64_mag_exp_less[OF 3] by (simp add: nat_diff_distrib)
  next
    case 4
    then have c: "expF64UI a - expF64UI b \<noteq> 0" "\<not> expF64UI a - expF64UI b < 0" "expF64UI a \<noteq> 0x7FF"
      using assms by simp_all
    have "subMagsF64 a b (signF64UI a) = f64_round (signF64UI a) (f64_mag a - f64_mag b) 0"
      unfolding subMagsF64_def Let_def if_not_P[OF c(1)] if_not_P[OF c(2)] if_not_P[OF c(3)]
      by (rule sub64_unequal[OF 4 assms(1)])
    then show ?thesis using f64_mag_exp_less[OF 4] by (simp add: nat_diff_distrib)
  qed
qed

text \<open>The value of a finite number in units of \<open>2\<^sup>-\<^sup>1\<^sup>0\<^sup>7\<^sup>4\<close>.\<close>

definition f64_val :: "u64 \<Rightarrow> int" where
  "f64_val a = (if signF64UI a then - int (f64_mag a) else int (f64_mag a))"

text \<open>An exact result \<open>v\<close> rounded; \<open>zero\<close> is the sign of an exact zero.\<close>

definition f64_result :: "bool \<Rightarrow> int \<Rightarrow> u64" where
  "f64_result zero v =
     (if v = 0 then of_nat (if zero then 9223372036854775808 else 0) else f64_round (v < 0) (nat \<bar>v\<bar>) 0)"

lemma f64_round_zero: "f64_round s 0 0 = of_nat (if s then 9223372036854775808 else 0)"
  by (simp add: f64_round_def rnd_exact)

lemma mags_add:
  "f64_round (signF64UI a) (f64_mag a + f64_mag b) 0 =
    f64_result (signF64UI a) (if signF64UI a then - int (f64_mag a) - int (f64_mag b) else int (f64_mag a) + int (f64_mag b))"
  by (cases "f64_mag a + f64_mag b = 0") (auto simp: f64_result_def f64_round_zero nat_add_distrib add.commute)

lemma mags_sub:
  "(if f64_mag a = f64_mag b then 0
    else f64_round (signF64UI a \<noteq> (f64_mag a < f64_mag b)) (nat \<bar>int (f64_mag a) - int (f64_mag b)\<bar>) 0) =
   f64_result False (if signF64UI a then int (f64_mag b) - int (f64_mag a) else int (f64_mag a) - int (f64_mag b))"
  by (auto simp: f64_result_def abs_minus_commute not_less le_less)

lemma f64_add_value:
  assumes "expF64UI a < 2047" "expF64UI b < 2047"
  shows "f64_add a b = f64_result (signF64UI a \<and> signF64UI b) (f64_val a + f64_val b)"
  using mags_add[of a b] mags_sub[of a b] addMagsF64_value[OF assms] subMagsF64_value[OF assms]
  by (cases "signF64UI a"; cases "signF64UI b") (simp_all add: f64_add_def f64_val_def algebra_simps)

lemma f64_sub_value:
  assumes "expF64UI a < 2047" "expF64UI b < 2047"
  shows "f64_sub a b = f64_result (signF64UI a \<and> \<not> signF64UI b) (f64_val a - f64_val b)"
  using mags_add[of a b] mags_sub[of a b] addMagsF64_value[OF assms] subMagsF64_value[OF assms]
  by (cases "signF64UI a"; cases "signF64UI b") (simp_all add: f64_sub_def f64_val_def algebra_simps)

section \<open>Multiplication\<close>

text \<open>The significand with its leading bit at place 52, and its exponent.\<close>

lemma normF64_value:
  assumes "f64_mag a \<noteq> 0"
  obtains e s where "normF64 (expF64UI a) (fracF64UI a) = Some (e, s)" "- 51 \<le> e" "e \<le> 2047"
    "unat (s OR 0x0010000000000000) * 2 ^ nat (e - 1) = f64_mag a * 2 ^ nat (1 - e)"
    "4503599627370496 \<le> unat (s OR 0x0010000000000000)" "unat (s OR 0x0010000000000000) < 9007199254740992"
proof (cases "expF64UI a = 0")
  case True
  let ?f = "fracF64UI a"
  have f0: "0 < unat ?f" using True assms by (simp add: f64_mag_value)
  define k where "k = 53 - nbits (unat ?f)"
  have nb: "1 \<le> nbits (unat ?f)" "nbits (unat ?f) \<le> 52"
    using nbits_le[of "unat ?f" 0] nbits_le[of "unat ?f" 52] f0 frac64_less[of a] by simp_all
  have "nbits (unat ?f * 2 ^ k) = 53" using f0 nb by (simp add: k_def)
  then have n: "4503599627370496 \<le> unat ?f * 2 ^ k" "unat ?f * 2 ^ k < 9007199254740992"
    using nbits_le[of "unat ?f * 2 ^ k" 52] nbits_le[of "unat ?f * 2 ^ k" 53] by simp_all
  have u: "unat (push_bit k ?f) = unat ?f * 2 ^ k" using n by (simp add: unat_push_bit_mod)
  have "bit (push_bit k ?f) 52"
  proof -
    have "unat (push_bit k ?f) div 2 ^ 52 = 1" using n unfolding u by (intro div_nat_eqI) simp_all
    then have "bit (unat (push_bit k ?f)) 52" by (simp add: bit_iff_odd)
    then show ?thesis by (simp add: bit_unsigned_iff)
  qed
  then have o: "push_bit k ?f OR 0x0010000000000000 = push_bit k ?f"
  proof -
    have "push_bit 52 1 = (0x0010000000000000 :: u64)" by simp
    moreover have "push_bit k ?f OR push_bit 52 1 = push_bit k ?f"
      by (rule bit_word_eqI) (use \<open>bit (push_bit k ?f) 52\<close> in \<open>auto simp: bit_or_iff bit_push_bit_iff bit_1_iff simp del: push_bit_of_1\<close>)
    ultimately show ?thesis by simp
  qed
  have "normF64 (expF64UI a) ?f = Some (1 - int k, push_bit k ?f)"
    using True f0 nb by (auto simp: normF64_def normSubnormalF64Sig_def clz64_value k_def Let_def of_nat_diff nat_diff_distrib)
  then show ?thesis
    by (rule that) (use nb n u o True in \<open>auto simp: k_def f64_mag_value\<close>)
next
  case False
  have "unat (fracF64UI a OR 0x0010000000000000) = unat (fracF64UI a) + 4503599627370496"
    using unat_or_push1[of "fracF64UI a" 52] frac64_less[of a] by (simp add: push_bit_eq_mult)
  then show ?thesis using False exp64_range[of a] frac64_less[of a]
    by (intro that[of "expF64UI a" "fracF64UI a"]) (auto simp: normF64_def f64_mag_value nat_diff_distrib)
qed

text \<open>The 128-bit product of four partial products of 32-bit halves.\<close>

lemma unat_mul_halves: "unat (ucast x * ucast y :: u64) = unat (x :: u32) * unat (y :: u32)"
  by (rule unat_mul_ucast)

lemma add_carry: "unat (x + y :: u64) + 18446744073709551616 * of_bool (x + y < y) = unat x + unat y"
  using unat_plus_if'[of x y] unsigned_less[of x, where 'a = nat] unsigned_less[of y, where 'a = nat]
  by (auto simp: word_less_nat_alt)

lemma halves:
  fixes a :: u64
  shows "unat a = unat (ucast (drop_bit 32 a) :: u32) * 4294967296 + unat (ucast a :: u32)"
proof -
  have "unat a div 4294967296 < 4294967296"
    using unsigned_less[of a, where 'a = nat] by (simp add: less_mult_imp_div_less)
  then have "unat (ucast (drop_bit 32 a) :: u32) = unat a div 4294967296"
    by (simp add: unsigned_ucast_eq unat_drop_bit_div take_bit_nat_eq_self)
  moreover have "unat (ucast a :: u32) = unat a mod 4294967296" by (simp add: unsigned_ucast_eq take_bit_eq_mod)
  ultimately show ?thesis by (simp only: div_mult_mod_eq)
qed

lemma join_halves: "push_bit 32 (ucast (ucast (drop_bit 32 z) :: u32)) OR ucast (ucast z :: u32) = (z :: u64)"
  by (rule bit_word_eqI) (auto simp: bit_simps)

lemma mul64To128M_value:
  obtains hi lo where "mul64To128M a b = (ucast lo, ucast (drop_bit 32 lo), ucast hi, ucast (drop_bit 32 hi))"
    "unat a * unat b = unat (hi :: u64) * 18446744073709551616 + unat (lo :: u64)"
proof -
  let ?a1 = "ucast (drop_bit 32 a) :: u32" and ?a0 = "ucast a :: u32"
  let ?b1 = "ucast (drop_bit 32 b) :: u32" and ?b0 = "ucast b :: u32"
  define z0 mid1 mid2 where "z0 = (ucast ?a0 * ucast ?b0 :: u64)" and "mid1 = (ucast ?a1 * ucast ?b0 :: u64)"
    and "mid2 = (ucast ?a0 * ucast ?b1 :: u64)"
  define mid c where "mid = mid1 + mid2" and "c = (mid < mid1)"
  define top where "top = (push_bit 32 (of_bool c) OR drop_bit 32 mid :: u64)"
  define lo c' where "lo = z0 + push_bit 32 mid" and "c' = (lo < push_bit 32 mid)"
  define hi where "hi = ucast ?a1 * ucast ?b1 + top + of_bool c'"
  have code: "mul64To128M a b = (ucast lo, ucast (drop_bit 32 lo), ucast hi, ucast (drop_bit 32 hi))"
    unfolding mul64To128M_def Let_def hi_def lo_def c'_def top_def c_def mid_def z0_def mid1_def mid2_def ..
  have v: "unat z0 = unat ?a0 * unat ?b0" "unat mid1 = unat ?a1 * unat ?b0" "unat mid2 = unat ?a0 * unat ?b1"
    unfolding z0_def mid1_def mid2_def by (rule unat_mul_halves)+
  have mid: "unat mid + 18446744073709551616 * of_bool c = unat mid1 + unat mid2"
    using add_carry[of mid2 mid1] by (simp add: mid_def c_def add.commute)
  have m32: "unat mid div 4294967296 < 4294967296"
    using unsigned_less[of mid, where 'a = nat] by (simp add: less_mult_imp_div_less)
  have top: "unat top = 4294967296 * of_bool c + unat mid div 4294967296"
  proof (cases c)
    case True
    have "unat (drop_bit 32 mid OR push_bit 32 1) = unat (drop_bit 32 mid) + 2 ^ 32"
      by (rule unat_or_push1) (use m32 in \<open>simp_all add: unat_drop_bit_div\<close>)
    then show ?thesis using True by (simp add: top_def unat_drop_bit_div or.commute del: push_bit_of_1)
  qed (simp add: top_def unat_drop_bit_div)
  have low: "unat lo + 18446744073709551616 * of_bool c' = unat z0 + unat mid mod 4294967296 * 4294967296"
  proof -
    have "unat (push_bit 32 mid) = unat mid mod 4294967296 * 4294967296"
      using mod_mult_mult2[of "unat mid" 4294967296 4294967296] by (simp add: unat_push_bit_mod)
    then show ?thesis using add_carry[of z0 "push_bit 32 mid"] by (simp add: lo_def c'_def)
  qed
  define H where "H = unat ?a1 * unat ?b1 + unat top + of_bool c'"
  have product: "unat a * unat b = H * 18446744073709551616 + unat lo"
  proof -
    have "unat a * unat b = unat ?a1 * unat ?b1 * 18446744073709551616 + (unat mid1 + unat mid2) * 4294967296 + unat z0"
      unfolding v by (subst (1) halves[of a], subst (1) halves[of b]) (simp add: algebra_simps)
    also have "(unat mid1 + unat mid2) * 4294967296 = (4294967296 * of_bool c + unat mid div 4294967296) * 18446744073709551616
        + unat mid mod 4294967296 * 4294967296"
    proof -
      define d r where "d = unat mid div 4294967296" and "r = unat mid mod 4294967296"
      have "unat mid = d * 4294967296 + r" unfolding d_def r_def by (rule div_mult_mod_eq[symmetric])
      then show ?thesis unfolding mid[symmetric] d_def[symmetric] r_def[symmetric] by (simp add: algebra_simps)
    qed
    finally show ?thesis using low unfolding H_def top by (simp add: algebra_simps)
  qed
  have "unat a * unat b < 18446744073709551616 * 18446744073709551616"
    using unsigned_less[of a, where 'a = nat] unsigned_less[of b, where 'a = nat] by (intro mult_strict_mono) simp_all
  then have "H < 18446744073709551616" using product by linarith
  moreover have "hi = of_nat H"
    unfolding hi_def H_def by (simp add: unat_mul_halves[symmetric])
  ultimately have "unat hi = H" by (simp only: unat_of_nat_lt) (simp add: unat_of_nat_lt)
  then show thesis using that[OF code] product by simp
qed

lemma f64_mul_sig_value: "unat (f64_mul_sig a b) = jam (unat a * unat b) 64"
proof -
  obtain hi lo where m: "mul64To128M a b = (ucast lo, ucast (drop_bit 32 lo), ucast hi, ucast (drop_bit 32 hi))"
    "unat a * unat b = unat (hi :: u64) * 18446744073709551616 + unat (lo :: u64)" by (rule mul64To128M_value)
  have lo: "unat lo < 18446744073709551616" using unsigned_less[of lo, where 'a = nat] by simp
  have z: "(ucast (drop_bit 32 lo) :: u32) = 0 \<and> (ucast lo :: u32) = 0 \<longleftrightarrow> lo = 0"
    using join_halves[of lo] by auto
  have "f64_mul_sig a b = hi OR of_bool (lo \<noteq> 0)"
    using z by (auto simp: f64_mul_sig_def m(1) Let_def join_halves)
  moreover have "jam (unat a * unat b) 64 = (if unat lo = 0 \<or> odd (unat hi) then unat hi else Suc (unat hi))"
    unfolding m(2) jam_def Let_def using lo by simp
  ultimately show ?thesis by (auto simp: unat_or_bool unat_eq_zero)
qed

lemma mul64_core:
  fixes sA sB :: u64
  assumes A: "4503599627370496 \<le> unat sA" "unat sA < 9007199254740992" "unat sA * 2 ^ nat (ea - 1) = ma * 2 ^ nat (1 - ea)"
    and B: "4503599627370496 \<le> unat sB" "unat sB < 9007199254740992" "unat sB * 2 ^ nat (eb - 1) = mb * 2 ^ nat (1 - eb)"
    and e: "- 51 \<le> ea" "- 51 \<le> eb" "ea \<le> 2047" "eb \<le> 2047" "ez = ea + eb - 0x3FF"
  defines "z \<equiv> f64_mul_sig (push_bit 10 sA) (push_bit 11 sB)"
  shows "roundPackToF64 sign (if z < 0x4000000000000000 then ez - 1 else ez) (if z < 0x4000000000000000 then push_bit 1 z else z)
    = f64_round sign (ma * mb) 1074"
proof -
  let ?P = "unat sA * unat sB * 2 ^ 21"
  have "unat (push_bit 10 sA) = unat sA * 1024" "unat (push_bit 11 sB) = unat sB * 2048"
    using A B by (simp_all add: unat_push_bit_mod)
  then have P: "unat (push_bit 10 sA) * unat (push_bit 11 sB) = ?P" by simp
  have lo: "4503599627370496 * 4503599627370496 \<le> unat sA * unat sB" using A B by (intro mult_le_mono) simp_all
  have hi: "unat sA * unat sB < 9007199254740992 * 9007199254740992" using A B by (intro mult_strict_mono) simp_all
  have j: "jam ?P 64 < 9223372036854775808" "2305843009213693952 \<le> jam ?P 64"
  proof -
    have "?P div 2 ^ 64 < 9223372036854775808" using hi by (simp add: less_mult_imp_div_less)
    moreover have "jam ?P 64 \<le> Suc (?P div 2 ^ 64)" by (simp add: jam_def Let_def)
    moreover have "even (9223372036854775808 :: nat)" by simp
    ultimately show "jam ?P 64 < 9223372036854775808" by (auto simp: jam_def Let_def)
    have "2305843009213693952 \<le> ?P div 2 ^ 64" using lo by simp
    then show "2305843009213693952 \<le> jam ?P 64" by (simp add: jam_def Let_def)
  qed
  have z: "unat z = jam ?P 64" unfolding z_def f64_mul_sig_value P ..
  have "rnd 53 (unat z * 2 ^ nat ez) (10 + nat (- ez)) = rnd 53 (?P * 2 ^ nat ez) (10 + nat (- ez) + 64)"
    unfolding z using j nbits_le[of "jam ?P 64" 61] by (intro rnd_jam) simp_all
  also have "\<dots> = rnd 53 (ma * mb) 1074"
    by (rule rnd_cong) (use mul_scale[OF A(3) B(3), of 21 ez 1074 74] e A(1) B(1) in \<open>simp_all add: add_ac\<close>)
  finally have R: "rnd 53 (unat z * 2 ^ nat ez) (10 + nat (- ez)) = rnd 53 (ma * mb) 1074" .
  have lt: "z < 0x4000000000000000 \<longleftrightarrow> unat z < 4611686018427387904" by (simp add: word_less_nat_alt)
  have range: "- 60000 < ez" "ez < 60000" "- 60000 < ez - 1" "ez - 1 < 60000" using e by simp_all
  show ?thesis
  proof (cases "unat z < 4611686018427387904")
    case True
    then have p: "unat (z * 2) = unat z * 2" using unat_shl1[of z] by simp
    have "roundPackToF64 sign (ez - 1) (push_bit 1 z) = f64_round sign (unat z * 2 ^ 1 * 2 ^ nat (ez - int 1)) (10 + nat (int 1 - ez))"
      using roundPackToF64_value[of "push_bit 1 z" "ez - 1" sign] p z j(2) True range(3,4) by simp
    also have "\<dots> = f64_round sign (ma * mb) 1074"
      unfolding f64_round_def R[symmetric] using j z by (subst rnd_shift) simp_all
    finally show ?thesis using True lt by simp
  next
    case False
    then have "roundPackToF64 sign ez z = f64_round sign (unat z * 2 ^ nat ez) (10 + nat (- ez))"
      using roundPackToF64_value[of z ez sign] z j range(1,2) by simp
    then show ?thesis using False lt R by (simp add: f64_round_def)
  qed
qed

lemma f64_mul_value:
  assumes "expF64UI a < 2047" "expF64UI b < 2047"
  shows "f64_mul a b = f64_round (signF64UI a \<noteq> signF64UI b) (f64_mag a * f64_mag b) 1074"
proof -
  have zero: "packToF64UI s 0 0 = f64_round s 0 1074" for s
  proof -
    have "rnd 53 0 1074 = 0" by (simp add: rnd_def rne_shift_def)
    then show ?thesis using pack64_of_nat[of 0 0 0 s] by (simp add: f64_round_def)
  qed
  have none: "f64_mag c = 0 \<Longrightarrow> normF64 (expF64UI c) (fracF64UI c) = None" for c
    by (auto simp: f64_mag_value normF64_def unat_eq_zero split: if_splits)
  have fin: "expF64UI a \<noteq> 0x7FF" "expF64UI b \<noteq> 0x7FF" using assms by simp_all
  note code = f64_mul_def[of a b, unfolded Let_def if_not_P[OF fin(1)] if_not_P[OF fin(2)] if_pair]
  show ?thesis
  proof (cases "f64_mag a = 0")
    case True
    then show ?thesis unfolding code using none[OF True] zero by simp
  next
    case False
    then obtain ea sa where a: "normF64 (expF64UI a) (fracF64UI a) = Some (ea, sa)" "- 51 \<le> ea" "ea \<le> 2047"
      "unat (sa OR 0x0010000000000000) * 2 ^ nat (ea - 1) = f64_mag a * 2 ^ nat (1 - ea)"
      "4503599627370496 \<le> unat (sa OR 0x0010000000000000)" "unat (sa OR 0x0010000000000000) < 9007199254740992"
      by (rule normF64_value)
    show ?thesis
    proof (cases "f64_mag b = 0")
      case True
      then show ?thesis unfolding code a(1) using none[OF True] zero by simp
    next
      case False
      then obtain eb sb where b: "normF64 (expF64UI b) (fracF64UI b) = Some (eb, sb)" "- 51 \<le> eb" "eb \<le> 2047"
        "unat (sb OR 0x0010000000000000) * 2 ^ nat (eb - 1) = f64_mag b * 2 ^ nat (1 - eb)"
        "4503599627370496 \<le> unat (sb OR 0x0010000000000000)" "unat (sb OR 0x0010000000000000) < 9007199254740992"
        by (rule normF64_value)
      show ?thesis unfolding code a(1) b(1) option.case prod.case
        by (rule mul64_core[OF a(5,6,4) b(5,6,4) a(2) b(2) a(3) b(3) refl])
    qed
  qed
qed

section \<open>Correct rounding\<close>

text \<open>\<open>r\<close> is the exact magnitude \<open>n / 2\<^sup>k\<close> (in units of \<open>2\<^sup>-\<^sup>1\<^sup>0\<^sup>7\<^sup>4\<close>) with sign \<open>s\<close>, rounded as IEEE 754 has it.\<close>

definition f64_rounds :: "u64 \<Rightarrow> bool \<Rightarrow> nat \<Rightarrow> nat \<Rightarrow> bool" where
  "f64_rounds r s n k \<longleftrightarrow>
     (if n < (2 ^ 54 - 1) * 2 ^ 2044 * 2 ^ k
      then signF64UI r = s \<and> expF64UI r < 2047 \<and>
        (\<forall>c. expF64UI c < 2047 \<longrightarrow>
          \<bar>int (f64_mag r) * 2 ^ k - int n\<bar> \<le> \<bar>int (f64_mag c) * 2 ^ k - int n\<bar> \<and>
          (\<bar>int (f64_mag r) * 2 ^ k - int n\<bar> = \<bar>int (f64_mag c) * 2 ^ k - int n\<bar> \<and> f64_mag c \<noteq> f64_mag r
           \<longrightarrow> even (unat r)))
      else r = packToF64UI s 0x7FF 0)"

lemma f64_finite: "expF64UI c < 2047 \<longleftrightarrow> unat c mod 9223372036854775808 < 9218868437227405312"
proof -
  obtain e where "expF64UI c = int e" using exp64_range(1)[of c] nonneg_int_cases by blast
  then show ?thesis using frac64_less[of c] by (simp add: bits64_split) linarith
qed

lemma f64_threshold: "(enc_mag 53 9218868437227405311 + enc_mag 53 (Suc 9218868437227405311)) = (2 ^ 54 - 1) * 2 ^ 2044 * 2"
proof -
  have "enc_mag 53 9218868437227405311 = (2 ^ 53 - 1) * 2 ^ 2045" using enc_mag_split[of 4503599627370495 53 2046] by simp
  moreover have "enc_mag 53 (Suc 9218868437227405311) = 2 ^ 53 * 2 ^ 2045" using enc_mag_split[of 0 53 2047] by simp
  ultimately show ?thesis by (simp only:) simp
qed

lemma f64_round_rounds: "f64_rounds (f64_round s n k) s n k"
proof -
  let ?x = "rnd 53 n k" and ?r = "f64_round s n k"
  have le53: "(2 :: nat) \<le> 53" by simp
  have lim: "?x \<le> 9218868437227405311 \<longleftrightarrow> n < (2 ^ 54 - 1) * 2 ^ 2044 * 2 ^ k"
    using rnd_overflow[of 53 9218868437227405311 n k] unfolding f64_threshold by simp
  show ?thesis
  proof (cases "?x \<le> 9218868437227405311")
    case True
    then have r: "unat ?r = (if s then 9223372036854775808 else 0) + ?x"
      unfolding f64_round_def by (subst unat_of_nat_lt) simp_all
    have m: "unat ?r mod 9223372036854775808 = ?x" using True unfolding r by simp
    have fin: "expF64UI ?r < 2047" unfolding f64_finite m using True by simp
    have sign: "signF64UI ?r = s" unfolding signF64UI_value r using True by simp
    have ev: "even (unat ?r) \<longleftrightarrow> even ?x" unfolding r by simp
    have near: "\<bar>int (f64_mag ?r) * 2 ^ k - int n\<bar> \<le> \<bar>int (f64_mag c) * 2 ^ k - int n\<bar> \<and>
          (\<bar>int (f64_mag ?r) * 2 ^ k - int n\<bar> = \<bar>int (f64_mag c) * 2 ^ k - int n\<bar> \<and> f64_mag c \<noteq> f64_mag ?r
           \<longrightarrow> even (unat ?r))" for c
      using rnd_nearest[of 53 n k "unat c mod 9223372036854775808", OF le53] unfolding ev f64_mag_def m by metis
    have c: "n < (2 ^ 54 - 1) * 2 ^ 2044 * 2 ^ k" using True lim by blast
    show ?thesis unfolding f64_rounds_def if_P[OF c] 
      by (intro conjI allI impI fin sign near[THEN conjunct1]) (rule near[THEN conjunct2, rule_format])
  next
    case False
    then have "packToF64UI s 0x7FF 0 = ?r" unfolding f64_round_def by (intro pack64_of_nat) simp_all
    then show ?thesis using False lim by (simp add: f64_rounds_def)
  qed
qed

lemma f64_result_rounds:
  "if v = 0 then f64_result zero v = of_nat (if zero then 9223372036854775808 else 0)
   else f64_rounds (f64_result zero v) (v < 0) (nat \<bar>v\<bar>) 0"
  by (simp add: f64_result_def f64_round_rounds)

text \<open>C20: Addition, subtraction and multiplication of finite double-precision numbers, subnormal or not, round the exact
  result once: the nearest number, ties to even, or the infinity of its sign when the result is at least half a unit
  above the largest finite number.  An exact zero is \<open>-0\<close> only for \<open>-0 + -0\<close> and \<open>-0 - +0\<close>, and a product has the
  sign of the product also on a zero and on an infinity.\<close>

theorem f64_arith_rounded:
  assumes "expF64UI a < 2047" "expF64UI b < 2047"
  shows "(if f64_val a + f64_val b = 0
          then f64_add a b = of_nat (if signF64UI a \<and> signF64UI b then 9223372036854775808 else 0)
          else f64_rounds (f64_add a b) (f64_val a + f64_val b < 0) (nat \<bar>f64_val a + f64_val b\<bar>) 0) \<and>
         (if f64_val a - f64_val b = 0
          then f64_sub a b = of_nat (if signF64UI a \<and> \<not> signF64UI b then 9223372036854775808 else 0)
          else f64_rounds (f64_sub a b) (f64_val a - f64_val b < 0) (nat \<bar>f64_val a - f64_val b\<bar>) 0) \<and>
         f64_rounds (f64_mul a b) (signF64UI a \<noteq> signF64UI b) (f64_mag a * f64_mag b) 1074"
  unfolding f64_add_value[OF assms] f64_sub_value[OF assms] f64_mul_value[OF assms]
  by (intro conjI f64_result_rounds f64_round_rounds)

theorem f64_arith_rounded_witness:
  "expF64UI 0x3FF0000000000000 < 2047 \<and> expF64UI 0xBCA0000000000000 < 2047 \<and>
   (if f64_val 0x3FF0000000000000 + f64_val 0xBCA0000000000000 = 0
    then f64_add 0x3FF0000000000000 0xBCA0000000000000
      = of_nat (if signF64UI 0x3FF0000000000000 \<and> signF64UI 0xBCA0000000000000 then 9223372036854775808 else 0)
    else f64_rounds (f64_add 0x3FF0000000000000 0xBCA0000000000000)
           (f64_val 0x3FF0000000000000 + f64_val 0xBCA0000000000000 < 0)
           (nat \<bar>f64_val 0x3FF0000000000000 + f64_val 0xBCA0000000000000\<bar>) 0) \<and>
   f64_rounds (f64_mul 0x3FF0000000000000 0xBCA0000000000000)
     (signF64UI 0x3FF0000000000000 \<noteq> signF64UI 0xBCA0000000000000)
     (f64_mag 0x3FF0000000000000 * f64_mag 0xBCA0000000000000) 1074"
proof -
  have e: "expF64UI 0x3FF0000000000000 < 2047" "expF64UI 0xBCA0000000000000 < 2047" by (simp_all add: expF64UI_def)
  show ?thesis using e f64_arith_rounded[OF e] by blast
qed

end
