(* ===== verification/MathF.thy ===== *)
theory MathF
  imports SfInt
begin

text \<open>
  The mathematics library on single precision, \<^verbatim>\<open>lib/runtime/src/math.c\<close> and the inline functions of
  \<^verbatim>\<open>lib/runtime/include/math.h\<close>: scaling, rounding to integers and the square root.  A \<open>float\<close> is its bit
  pattern, so \<open>GET_FLOAT_WORD\<close> and \<open>SET_FLOAT_WORD\<close> are the identity; an \<open>int32_t\<close> is a word, read with \<open>sint\<close> where
  the code compares or shifts it as a signed number.  Arithmetic on \<open>float\<close> is that of the SoftFloat library.
\<close>

section \<open>The code\<close>

definition fabsf :: "u32 \<Rightarrow> u32" where
  "fabsf a = a AND 0x7FFFFFFF"

definition copysignf :: "u32 \<Rightarrow> u32 \<Rightarrow> u32" where
  "copysignf x y = (x AND 0x7FFFFFFF) OR (y AND 0x80000000)"

definition float_exponent :: "u32 \<Rightarrow> int" where
  "float_exponent x = sint ((signed_drop_bit 23 x AND 0xFF) - 0x7F)"

definition ldexpf :: "u32 \<Rightarrow> u32 \<Rightarrow> u32" where
  "ldexpf x n =
     (let two25 = 0x4C000000; twom25 = 0x33000000; huge = 0x7149F2CA; tiny = 0x0DA24260;
          ix = x; k = signed_drop_bit 23 (ix AND 0x7F800000);
          scale = (\<lambda>x ix k.
            if k = 0xFF then f32_add x x
            else
              let k = k + n
              in if sint k > 0xFE then f32_mul huge (copysignf huge x)
                 else if sint k > 0 then (ix AND 0x807FFFFF) OR push_bit 23 k
                 else if sint k \<le> - 25 then
                   if sint n > 50000 then f32_mul huge (copysignf huge x) else f32_mul tiny (copysignf tiny x)
                 else
                   let k = k + 25; x = (ix AND 0x807FFFFF) OR push_bit 23 k
                   in f32_mul x twom25)
      in if k = 0 then
           if ix AND 0x7FFFFFFF = 0 then x
           else
             let x = f32_mul x two25; ix = x; k = signed_drop_bit 23 (ix AND 0x7F800000) - 25
             in if sint n < - 50000 then f32_mul tiny x else scale x ix k
         else scale x ix k)"

definition ceilf :: "u32 \<Rightarrow> u32" where
  "ceilf x =
     (let huge = 0x7149F2CA; i0 = x; j0 = float_exponent i0
      in if j0 < 23 then
           if j0 < 0 then
             if float_gt (f32_add huge x) 0 then
               if sint i0 < 0 then 0x80000000 else if i0 \<noteq> 0 then 0x3F800000 else i0
             else i0
           else
             let i = drop_bit (nat j0) 0x007FFFFF
             in if i0 AND i = 0 then x
                else if float_gt (f32_add huge x) 0 then
                  let i0 = (if sint i0 > 0 then i0 + drop_bit (nat j0) 0x00800000 else i0)
                  in i0 AND NOT i
                else i0
         else if j0 = 0x80 then f32_add x x
         else x)"

definition floorf :: "u32 \<Rightarrow> u32" where
  "floorf x =
     (let huge = 0x7149F2CA; i0 = x; j0 = float_exponent i0
      in if j0 < 23 then
           if j0 < 0 then
             if float_gt (f32_add huge x) 0 then
               if sint i0 \<ge> 0 then 0 else if i0 AND 0x7FFFFFFF \<noteq> 0 then 0xBF800000 else i0
             else i0
           else
             let i = drop_bit (nat j0) 0x007FFFFF
             in if i0 AND i = 0 then x
                else if float_gt (f32_add huge x) 0 then
                  let i0 = (if sint i0 < 0 then i0 + drop_bit (nat j0) 0x00800000 else i0)
                  in i0 AND NOT i
                else i0
         else if j0 = 0x80 then f32_add x x
         else x)"

definition roundf :: "u32 \<Rightarrow> u32" where
  "roundf x =
     (let w = x; exponent_less_127 = sint (drop_bit 23 (w AND 0x7F800000)) - 127
      in if exponent_less_127 < 23 then
           if exponent_less_127 < 0 then
             let w = w AND 0x80000000
             in if exponent_less_127 = - 1 then w OR push_bit 23 127 else w
           else
             let exponent_mask = drop_bit (nat exponent_less_127) 0x007FFFFF
             in if w AND exponent_mask = 0 then x
                else (w + drop_bit (nat exponent_less_127) 0x00400000) AND NOT exponent_mask
         else if exponent_less_127 = 128 then f32_add x x
         else x)"

definition truncf :: "u32 \<Rightarrow> u32" where
  "truncf x = (if f64_lt (f32_to_f64 x) 0 then ceilf x else floorf x)"

text \<open>The result and \<open>*e\<close>.\<close>

definition frexpf :: "u32 \<Rightarrow> u32 \<times> u32" where
  "frexpf x =
     (if f32_eq x 0 then (x, 0)
      else let e = (signed_drop_bit 23 x AND 0xFF) - 0x7E in (ldexpf x (- e), e))"

text \<open>\<open>for(i=0;(ix&0x00800000)==0;i++) ix<<=1\<close>; at most 23 steps for a subnormal number.\<close>

partial_function (option) sqrtf_normal :: "u32 \<Rightarrow> u32 \<Rightarrow> (u32 \<times> u32) option" where
  "sqrtf_normal ix i = (if ix AND 0x00800000 = 0 then sqrtf_normal (push_bit 1 ix) (i + 1) else Some (ix, i))"

text \<open>\<open>while(r!=0) \<dots>\<close>\<close>

function sqrtf_bits :: "u32 \<Rightarrow> u32 \<Rightarrow> u32 \<Rightarrow> u32 \<Rightarrow> u32 \<times> u32" where
  "sqrtf_bits ix s q r =
     (if r \<noteq> 0 then
        let t = s + r;
            (s, ix, q) = (if sint t \<le> sint ix then (t + r, ix - t, q + r) else (s, ix, q));
            ix = ix + ix
        in sqrtf_bits ix s q (drop_bit 1 r)
      else (ix, q))"
  by pat_completeness auto
termination
proof (relation "measure (\<lambda>(ix, s, q, r). unat r)")
  fix ix s q r :: u32 and x xa y xb ya xc
  assume "r \<noteq> 0"
  then have "0 < unat r" by (simp add: unat_gt_0)
  then show "((xc, xa, ya, drop_bit 1 r), ix, s, q, r) \<in> measure (\<lambda>(ix, s, q, r). unat r)"
    by (simp add: unat_drop_bit_div)
qed simp

declare sqrtf_bits.simps [simp del]

definition sqrtf :: "u32 \<Rightarrow> u32 option" where
  "sqrtf x =
     (let one = 0x3F800000; tiny = 0x0DA24260; sign = 0x80000000; ix = x
      in if ix AND 0x7F800000 = 0x7F800000 then Some (f32_add (f32_mul x x) x)
         else if sint ix \<le> 0 \<and> ix AND NOT sign = 0 then Some x
         else if sint ix < 0 then Some (f32_div (f32_sub x x) (f32_sub x x))
         else
           let m = signed_drop_bit 23 ix
           in case (if m = 0 then map_option (\<lambda>(ix, i). (ix, m - (i - 1))) (sqrtf_normal ix 0) else Some (ix, m)) of
                None \<Rightarrow> None
              | Some (ix, m) \<Rightarrow>
                  let m = m - 127; ix = (ix AND 0x007FFFFF) OR 0x00800000;
                      ix = (if m AND 1 \<noteq> 0 then ix + ix else ix); m = signed_drop_bit 1 m;
                      ix = ix + ix;
                      (ix, q) = sqrtf_bits ix 0 0 0x01000000;
                      q = (if ix \<noteq> 0 then
                             let z = f32_sub one tiny
                             in if float_ge z one then
                                  let z = f32_add one tiny
                                  in if float_gt z one then q + 2 else q + (q AND 1)
                                else q
                           else q);
                      ix = signed_drop_bit 1 q + 0x3F000000;
                      ix = ix + push_bit 23 m
                  in Some ix)"

section \<open>The exponent and the guard\<close>

lemma sint_less_256: "unat w < 256 \<Longrightarrow> sint (w - 0x7F :: u32) = int (unat w) - 127"
proof -
  assume w: "unat w < 256"
  then have "sint w = int (unat w)" using sint_eq_cases[of w] by simp
  then have "sint (w - 0x7F) = signed_take_bit 31 (int (unat w) - 127)" by (simp add: sint_word_ariths)
  also have "\<dots> = int (unat w) - 127" by (rule signed_take_bit_int_eq_self) (use w in \<open>simp_all del: of_nat_unat\<close>)
  finally show ?thesis .
qed

lemma exp_bits: "signed_drop_bit 23 x AND 0xFF = (drop_bit 23 x AND 0xFF :: u32)"
proof (rule bit_word_eqI)
  fix n assume "n < LENGTH(32)"
  have "bit (0xFF :: u32) n \<longleftrightarrow> n < 8" using bit_mask_iff[of 8 n, where 'a = "32 word"] by (auto simp: mask_eq_exp_minus_1)
  then show "bit (signed_drop_bit 23 x AND 0xFF) n = bit (drop_bit 23 x AND 0xFF :: u32) n"
    by (auto simp: bit_simps)
qed

lemma float_exponent_value: "float_exponent x = expF32UI x - 127"
proof -
  have "int (unat (drop_bit 23 x AND 0xFF)) = expF32UI x" by (simp add: expF32UI_def)
  then have "unat (drop_bit 23 x AND 0xFF) < 256" using exp_range(2)[of x] by linarith
  from sint_less_256[OF this] show ?thesis by (simp add: float_exponent_def exp_bits expF32UI_def)
qed

lemma f32_mag_less: "expF32UI x \<le> int e \<Longrightarrow> 1 \<le> e \<Longrightarrow> f32_mag x < 2 ^ (23 + e)"
proof -
  assume e: "expF32UI x \<le> int e" "1 \<le> e"
  show ?thesis
  proof (cases "expF32UI x = 0")
    case True
    have "unat (fracF32UI x) < 2 ^ 23" using frac_less[of x] by simp
    also have "(2 :: nat) ^ 23 \<le> 2 ^ (23 + e)" by (rule power_increasing) simp_all
    finally show ?thesis using True by (simp add: f32_mag_value)
  next
    case False
    have "(8388608 + unat (fracF32UI x)) * 2 ^ (nat (expF32UI x) - 1) < 2 ^ 24 * 2 ^ (nat (expF32UI x) - 1)"
      using frac_less[of x] by simp
    also have "\<dots> \<le> 2 ^ (23 + e)" unfolding power_add[symmetric] by (rule power_increasing) (use e False exp_range[of x] in simp_all)
    finally show ?thesis using False by (simp add: f32_mag_value)
  qed
qed

lemma huge_guard:
  assumes "expF32UI x < 150"
  shows "float_gt (f32_add 0x7149F2CA x) 0"
proof -
  define H where "H = f32_mag 0x7149F2CA"
  have he: "expF32UI 0x7149F2CA = 226" "unat (fracF32UI 0x7149F2CA) = 4846282"
    by (simp_all add: expF32UI_value fracF32UI_value)
  have hf: "expF32UI 0x7149F2CA < 255" "\<not> signF32UI 0x7149F2CA" "\<not> isNaNF32UI 0" "f32_val 0 = 0"
    by (simp_all add: he signF32UI_value isNaNF32UI_fields expF32UI_value f32_val_def f32_mag_def enc_mag_0)
  have He: "H = 13234890 * 2 ^ 225" unfolding H_def f32_mag_value he by simp
  define A :: nat where "A = 2 ^ 172"
  have A: "2 * A < H" "H + A < (2 ^ 25 - 1) * 2 ^ 252" unfolding He A_def by simp_all
  have hv: "f32_val 0x7149F2CA = int H" using hf(2) by (simp add: f32_val_def H_def)
  have m: "f32_mag x < A" using f32_mag_less[of x 149] assms by (simp add: A_def)
  define r where "r = f32_add 0x7149F2CA x"
  define n where "n = nat (int H + f32_val x)"
  have ax: "\<bar>f32_val x\<bar> = int (f32_mag x)" by (simp add: f32_val_def)
  then have v: "- int A < f32_val x" "f32_val x < int A" using m by linarith+
  then have pos: "int n = int H + f32_val x" "0 < int H + f32_val x" using A(1) by (simp_all add: n_def)
  have "n < H + A" using pos(1) v by linarith
  then have "n < (2 ^ 25 - 1) * 2 ^ 252" using A(2) by (rule order.strict_trans)
  moreover have "A < n" using pos(1) v A(1) by linarith
  ultimately have n: "A < n" "n < (2 ^ 25 - 1) * 2 ^ 252 * 2 ^ 0" by simp_all
  have r: "r = f32_round False n 0"
    using f32_add_value[OF hf(1), of x] assms pos(2) by (simp add: r_def f32_sum_def hv n_def Let_def)
  have "f32_rounds r False n 0" unfolding r by (rule f32_round_rounds)
  then have F: "\<not> signF32UI r" "expF32UI r < 255" "\<bar>int (f32_mag r) - int n\<bar> \<le> \<bar>int H - int n\<bar>"
    using hf(1) n(2) by (simp_all add: f32_rounds_def H_def)
  have "int (f32_mag r) > 0" using F(3) pos(1) v n(1) by linarith
  then have "0 < f32_val r" using F(1) by (simp add: f32_val_def)
  moreover have "\<not> isNaNF32UI r" using F(2) by (simp add: isNaNF32UI_fields)
  ultimately show ?thesis using hf(3,4) by (simp add: float_gt_def f32_lt_order flip: r_def)
qed

section \<open>Rounding to integers\<close>

lemma mask_at: "d \<le> 23 \<Longrightarrow> drop_bit (23 - d) 0x007FFFFF = (mask d :: u32)"
proof -
  assume d: "d \<le> 23"
  have m: "(0x007FFFFF :: u32) = mask 23" by (simp add: mask_eq_exp_minus_1)
  show ?thesis unfolding m by (rule bit_word_eqI) (use d in \<open>auto simp: bit_drop_bit_eq bit_mask_iff simp del: mask_numeral\<close>)
qed

lemma unit_at: "d \<le> 23 \<Longrightarrow> drop_bit (23 - d) 0x00800000 = (of_nat (2 ^ d) :: u32)"
proof -
  assume d: "d \<le> 23"
  have p: "(8388608 :: nat) = 2 ^ d * 2 ^ (23 - d)" unfolding power_add[symmetric] using d by simp
  have "unat (drop_bit (23 - d) 0x00800000 :: u32) = 8388608 div 2 ^ (23 - d)" by (simp add: unat_drop_bit_div)
  also have "\<dots> = 2 ^ d" unfolding p by simp
  finally show ?thesis by (metis of_nat_unat ucast_id)
qed

lemma unat_clear: "unat (w AND NOT (mask d) :: u32) = unat w - unat w mod 2 ^ d"
proof -
  have "w = (w AND NOT (mask d)) + (w AND mask d)"
    by (subst disjunctive_add) (auto simp: bit_simps intro!: bit_word_eqI)
  moreover have "w AND mask d \<le> w" by (simp add: word_and_le2)
  ultimately have "unat (w AND NOT (mask d)) = unat (w - (w AND mask d))" by (metis add_diff_cancel_right')
  also have "\<dots> = unat w - unat (w AND mask d)" by (simp add: unat_sub word_and_le2)
  finally show ?thesis by (simp add: unat_and_low)
qed

lemma half_at: "1 \<le> d \<Longrightarrow> d \<le> 23 \<Longrightarrow> drop_bit (23 - d) 0x00400000 = (of_nat (2 ^ (d - 1)) :: u32)"
proof -
  assume d: "1 \<le> d" "d \<le> 23"
  have p: "(4194304 :: nat) = 2 ^ (d - 1) * 2 ^ (23 - d)" unfolding power_add[symmetric] using d by simp
  have "unat (drop_bit (23 - d) 0x00400000 :: u32) = 4194304 div 2 ^ (23 - d)" by (simp add: unat_drop_bit_div)
  also have "\<dots> = 2 ^ (d - 1)" unfolding p by simp
  finally show ?thesis by (metis of_nat_unat ucast_id)
qed

text \<open>A significand with the hidden bit, up to and including the next power of two.\<close>

lemma enc_mag_at: "1 \<le> e \<Longrightarrow> f \<le> 2 ^ 23 \<Longrightarrow> enc_mag 24 (e * 2 ^ 23 + f) = (2 ^ 23 + f) * 2 ^ (e - 1)"
proof -
  assume h: "1 \<le> e" "f \<le> 2 ^ 23"
  show ?thesis
  proof (cases "f = 2 ^ 23")
    case True
    then have "enc_mag 24 (e * 2 ^ 23 + f) = enc_mag 24 (Suc e * 2 ^ 23 + 0)" by (simp add: add.commute)
    also have "\<dots> = 2 ^ 23 * 2 ^ e" using enc_mag_split[of 0 24 "Suc e"] by simp
    also have "\<dots> = (2 ^ 23 + f) * 2 ^ (e - 1)" using True h(1) by (cases e) simp_all
    finally show ?thesis .
  next
    case False
    then show ?thesis using enc_mag_split[of f 24 e] h by simp
  qed
qed

text \<open>The parts of a number from 1 up to \<open>2\<^sup>2\<^sup>3\<close>: \<open>2\<^sup>d\<close> units of the last place make one.\<close>

lemma f32_int_parts:
  assumes e: "expF32UI x = 150 - int d" "1 \<le> d" "d \<le> 23"
  defines "f \<equiv> unat (fracF32UI x)"
  shows "f32_int x = 2 ^ (23 - d) + f div 2 ^ d" "f32_mag x mod 2 ^ 149 = 0 \<longleftrightarrow> f mod 2 ^ d = 0"
    "f32_mag x = (2 ^ 23 + f) * 2 ^ (149 - d)" "f mod 2 ^ d = unat x mod 2 ^ d"
    "2 * (f32_mag x mod 2 ^ 149) < 2 ^ 149 \<longleftrightarrow> 2 * (f mod 2 ^ d) < 2 ^ d"
proof -
  have n: "nat (expF32UI x) - 1 = 149 - d" "expF32UI x \<noteq> 0" using e by simp_all
  show m: "f32_mag x = (2 ^ 23 + f) * 2 ^ (149 - d)" using n by (simp add: f32_mag_value f_def)
  have p: "(2 :: nat) ^ 149 = 2 ^ d * 2 ^ (149 - d)" "(2 :: nat) ^ 23 = 2 ^ (23 - d) * 2 ^ d"
    using e(2,3) by (simp_all only: power_add[symmetric], simp_all)
  have "f32_mag x div 2 ^ 149 = (2 ^ 23 + f) div 2 ^ d" unfolding m p(1) by simp
  also have "\<dots> = 2 ^ (23 - d) + f div 2 ^ d" unfolding p(2) by simp
  finally show "f32_int x = 2 ^ (23 - d) + f div 2 ^ d" by (simp add: f32_int_def)
  have "f32_mag x mod 2 ^ 149 = ((2 ^ 23 + f) mod 2 ^ d) * 2 ^ (149 - d)" unfolding m p(1) by (rule mult_mod_left[symmetric])
  also have "(2 ^ 23 + f) mod 2 ^ d = f mod 2 ^ d" unfolding p(2) by simp
  finally have r: "f32_mag x mod 2 ^ 149 = (f mod 2 ^ d) * 2 ^ (149 - d)" .
  show "f32_mag x mod 2 ^ 149 = 0 \<longleftrightarrow> f mod 2 ^ d = 0" unfolding r by simp
  have "2 * (f32_mag x mod 2 ^ 149) < 2 ^ 149 \<longleftrightarrow> 2 * (f mod 2 ^ d) * 2 ^ (149 - d) < 2 ^ d * 2 ^ (149 - d)"
    unfolding r p(1)[symmetric] by (simp only: mult.assoc)
  then show "2 * (f32_mag x mod 2 ^ 149) < 2 ^ 149 \<longleftrightarrow> 2 * (f mod 2 ^ d) < 2 ^ d" by simp
  have "f = unat x mod 2 ^ 23" by (simp add: f_def fracF32UI_value)
  then show "f mod 2 ^ d = unat x mod 2 ^ d" by (simp only: mod_mod_cancel[OF le_imp_power_dvd[OF e(3)]])
qed

lemma clear_step:
  assumes e: "expF32UI x = 150 - int d" "1 \<le> d" "d \<le> 23" and k: "k \<le> 1"
  defines "w \<equiv> (x + of_nat (k * 2 ^ d)) AND NOT (mask d)"
  shows "signF32UI w = signF32UI x" "expF32UI w < 255" "f32_mag w = (f32_int x + k) * 2 ^ 149"
proof -
  define S E f where "S = (if signF32UI x then 2147483648 else 0 :: nat)" and "E = 150 - d" and "f = unat (fracF32UI x)"
  define q where "q = f div 2 ^ d"
  have nE: "nat (expF32UI x) = E" "127 \<le> E" "E \<le> 149" using e by (simp_all add: E_def)
  have x: "unat x = S + E * 2 ^ 23 + f" using bits_split[of x] by (simp add: S_def f_def nE)
  have f: "f < 2 ^ 23" "f = q * 2 ^ d + f mod 2 ^ d"
    using frac_less[of x] div_mult_mod_eq[of f "2 ^ d"] by (simp_all add: f_def q_def)
  have p: "(2 :: nat) ^ 23 = 2 ^ (23 - d) * 2 ^ d" "(2 :: nat) ^ 149 = 2 ^ d * 2 ^ (149 - d)"
    using e(2,3) by (simp_all only: power_add[symmetric], simp_all)
  have S: "S = (if signF32UI x then 2 ^ (31 - d) else 0) * 2 ^ d"
    using e(3) by (simp add: S_def flip: power_add)
  have ql: "q + k \<le> 2 ^ (23 - d)"
  proof -
    have "q < 2 ^ (23 - d)" unfolding q_def using f(1) unfolding p(1) by (simp add: less_mult_imp_div_less)
    then show ?thesis using k by simp
  qed
  then have qk: "(q + k) * 2 ^ d \<le> 2 ^ 23" unfolding p(1) by (rule mult_le_mono1)
  have Sb: "S \<le> 2147483648" by (simp add: S_def)
  have kd: "k * 2 ^ d \<le> 2 ^ 23" using k e(3) power_increasing[of d 23 "2 :: nat"] by (cases k) auto
  have add: "unat (x + of_nat (k * 2 ^ d)) = unat x + k * 2 ^ d"
  proof -
    have "unat (of_nat (k * 2 ^ d) :: u32) = k * 2 ^ d" using kd by (intro unat_of_nat32) simp
    moreover have "unat x + k * 2 ^ d < 4294967296" using x Sb nE f(1) kd by simp
    ultimately show ?thesis by (simp add: unat_plus_if')
  qed
  have "unat x + k * 2 ^ d = f + ((if signF32UI x then 2 ^ (31 - d) else 0) + E * 2 ^ (23 - d) + k) * 2 ^ d"
    unfolding x S p(1) by (simp add: algebra_simps)
  then have "(unat x + k * 2 ^ d) mod 2 ^ d = f mod 2 ^ d" by (simp only: mod_mult_self1)
  then have w: "unat w = S + E * 2 ^ 23 + (q + k) * 2 ^ d"
    unfolding w_def unat_clear add using x f(2) by (simp add: add_mult_distrib)
  have m: "unat w mod 2147483648 = E * 2 ^ 23 + (q + k) * 2 ^ d"
  proof -
    have "E * 2 ^ 23 + (q + k) * 2 ^ d < 2147483648" using qk nE by simp
    then show ?thesis unfolding w add.assoc S_def by (cases "signF32UI x") (simp_all only: if_True if_False mod_add_self1 mod_less add_0)
  qed
  show "signF32UI w = signF32UI x"
    unfolding signF32UI_value[of w] w using qk nE by (simp add: S_def)
  show "expF32UI w < 255" unfolding f32_finite m using qk nE by simp
  have "f32_mag w = (2 ^ 23 + (q + k) * 2 ^ d) * 2 ^ (E - 1)"
    unfolding f32_mag_def m by (rule enc_mag_at) (use nE qk in simp_all)
  also have "E - 1 = 149 - d" by (simp add: E_def)
  also have "(2 ^ 23 + (q + k) * 2 ^ d) * 2 ^ (149 - d) = (2 ^ (23 - d) + q + k) * 2 ^ 149"
    unfolding p by (simp add: algebra_simps)
  also have "2 ^ (23 - d) + q = f32_int x" unfolding f32_int_parts(1)[OF e] q_def f_def ..
  finally show "f32_mag w = (f32_int x + k) * 2 ^ 149" .
qed

lemma f32_div_unit:
  "f32_val x div 2 ^ 149 =
     (if signF32UI x then - int (f32_int x) - (if f32_mag x mod 2 ^ 149 = 0 then 0 else 1) else int (f32_int x))"
proof -
  have "int (f32_mag x) div 2 ^ 149 = int (f32_int x)" by (simp add: f32_int_def zdiv_int)
  moreover have "int (f32_mag x) mod 2 ^ 149 = int (f32_mag x mod 2 ^ 149)" by (simp only: of_nat_mod of_nat_power of_nat_numeral)
  ultimately show ?thesis by (simp add: f32_val_def zdiv_zminus1_eq_if)
qed

lemma f32_mag_div: "f32_mag x = f32_int x * 2 ^ 149 + f32_mag x mod 2 ^ 149"
  unfolding f32_int_def by (rule div_mult_mod_eq[symmetric])

lemma code_bits:
  "(x AND 0x7FFFFFFF = 0) \<longleftrightarrow> f32_mag x = 0" "sint x < 0 \<longleftrightarrow> signF32UI x" "(x = 0) \<longleftrightarrow> f32_mag x = 0 \<and> \<not> signF32UI x"
proof -
  have m: "(0x7FFFFFFF :: u32) = mask 31" by (simp add: mask_eq_exp_minus_1)
  have z: "f32_mag x = 0 \<longleftrightarrow> unat x mod 2147483648 = 0" using enc_mag_eq[of 24 "unat x mod 2147483648" 0] by (simp add: f32_mag_def enc_mag_0)
  have "x AND 0x7FFFFFFF = 0 \<longleftrightarrow> unat (x AND mask 31) = 0" unfolding m by (rule unat_eq_zero[symmetric])
  then show "(x AND 0x7FFFFFFF = 0) \<longleftrightarrow> f32_mag x = 0" unfolding z unat_and_low by simp
  show s: "sint x < 0 \<longleftrightarrow> signF32UI x" unfolding signF32UI_value using sint_eq_cases[of x] unsigned_less[of x, where 'a = nat]
    by (auto simp del: of_nat_unat)
  have "x = 0 \<longleftrightarrow> unat x = 0" by (simp add: unat_eq_zero)
  also have "\<dots> \<longleftrightarrow> unat x mod 2147483648 = 0 \<and> \<not> 2147483648 \<le> unat x" using unsigned_less[of x, where 'a = nat] by auto
  finally show "(x = 0) \<longleftrightarrow> f32_mag x = 0 \<and> \<not> signF32UI x" unfolding z signF32UI_value .
qed

lemma f32_one: "f32_val 0x3F800000 = 2 ^ 149" "f32_val 0xBF800000 = - (2 ^ 149)" "f32_val 0 = 0" "f32_val 0x80000000 = 0"
  "expF32UI 0x3F800000 = 127" "expF32UI 0xBF800000 = 127" "expF32UI 0 = 0" "expF32UI 0x80000000 = 0"
  by (simp_all add: f32_val_def f32_mag_value signF32UI_value expF32UI_value fracF32UI_value)

lemma huge_gt: "expF32UI x < 150 \<Longrightarrow> float_gt (f32_add 0x7149F2CA x) 0 = True"
  using huge_guard by blast

text \<open>Where the code of the three functions branches.\<close>

lemma exponent_cases:
  assumes "expF32UI x < 255"
  obtains (small) "float_exponent x < 0" "f32_int x = 0" "expF32UI x < 150"
  | (frac) d where "expF32UI x = 150 - int d" "1 \<le> d" "d \<le> 23" "float_exponent x = 23 - int d" "nat (float_exponent x) = 23 - d"
  | (int) "23 \<le> float_exponent x" "float_exponent x < 128" "f32_mag x mod 2 ^ 149 = 0"
proof -
  consider "expF32UI x < 127" | "127 \<le> expF32UI x" "expF32UI x < 150" | "150 \<le> expF32UI x" by linarith
  then show thesis
  proof cases
    case 1
    then show thesis using small f32_mag_small[of x] by (simp add: float_exponent_value)
  next
    case 2
    then show thesis using frac[of "nat (150 - expF32UI x)"] by (simp add: float_exponent_value)
  next
    case 3
    then have e: "nat (expF32UI x) - 1 = (nat (expF32UI x) - 150) + 149" by simp
    have "(2 :: nat) ^ (nat (expF32UI x) - 1) = 2 ^ (nat (expF32UI x) - 150) * 2 ^ 149" by (simp only: e power_add)
    then have "f32_mag x = (8388608 + unat (fracF32UI x)) * 2 ^ (nat (expF32UI x) - 150) * 2 ^ 149"
      using 3 unfolding f32_mag_value by (simp only: mult.assoc) simp
    then have "f32_mag x mod 2 ^ 149 = 0" by (simp only: mod_mult_self2_is_0)
    then show thesis using int 3 assms by (simp add: float_exponent_value)
  qed
qed

lemma integral_bits:
  assumes "expF32UI x = 150 - int d" "1 \<le> d" "d \<le> 23"
  shows "x AND mask d = 0 \<longleftrightarrow> f32_mag x mod 2 ^ 149 = 0"
  using unat_and_low[of x d] f32_int_parts(2,4)[OF assms] by (metis unat_eq_zero)

lemma integral_val: "f32_mag x mod 2 ^ 149 = 0 \<Longrightarrow> f32_val x div 2 ^ 149 * 2 ^ 149 = f32_val x"
proof -
  assume h: "f32_mag x mod 2 ^ 149 = 0"
  then have "f32_mag x = f32_int x * 2 ^ 149" using f32_mag_div[of x] by simp
  then have "int (f32_mag x) = int (f32_int x) * 2 ^ 149" by simp
  then show ?thesis unfolding f32_div_unit using h by (simp add: f32_val_def)
qed

lemma clear_val:
  assumes "expF32UI x = 150 - int d" "1 \<le> d" "d \<le> 23"
  shows "f32_val ((x + of_nat (2 ^ d)) AND NOT (mask d)) = (if signF32UI x then - (int (f32_int x) + 1) else int (f32_int x) + 1) * 2 ^ 149"
    "f32_val (x AND NOT (mask d)) = (if signF32UI x then - int (f32_int x) else int (f32_int x)) * 2 ^ 149"
    "expF32UI ((x + of_nat (2 ^ d)) AND NOT (mask d)) < 255" "expF32UI (x AND NOT (mask d)) < 255"
proof -
  note c1 = clear_step[OF assms, of 1] and c0 = clear_step[OF assms, of 0]
  have m: "int (f32_mag ((x + of_nat (2 ^ d)) AND NOT (mask d))) = (int (f32_int x) + 1) * 2 ^ 149"
    "int (f32_mag (x AND NOT (mask d))) = int (f32_int x) * 2 ^ 149"
    using c1(3) c0(3) by simp_all
  show "f32_val ((x + of_nat (2 ^ d)) AND NOT (mask d)) = (if signF32UI x then - (int (f32_int x) + 1) else int (f32_int x) + 1) * 2 ^ 149"
    unfolding f32_val_def m using c1(1) by simp
  show "f32_val (x AND NOT (mask d)) = (if signF32UI x then - int (f32_int x) else int (f32_int x)) * 2 ^ 149"
    unfolding f32_val_def m using c0(1) by simp
  show "expF32UI ((x + of_nat (2 ^ d)) AND NOT (mask d)) < 255" "expF32UI (x AND NOT (mask d)) < 255" using c1(2) c0(2) by simp_all
qed

lemma floorf_value:
  assumes x: "expF32UI x < 255"
  shows "expF32UI (floorf x) < 255 \<and> f32_val (floorf x) = f32_val x div 2 ^ 149 * 2 ^ 149"
  using x
proof (cases rule: exponent_cases)
  case small
  have n: "0 \<le> sint x \<longleftrightarrow> \<not> signF32UI x" using code_bits(2)[of x] by linarith
  have m: "f32_mag x mod 2 ^ 149 = f32_mag x" using small(2) f32_mag_div[of x] by simp
  have c: "floorf x = (if \<not> signF32UI x then 0 else if f32_mag x \<noteq> 0 then 0xBF800000 else x)"
    using small by (simp add: floorf_def Let_def huge_gt n code_bits(1))
  show ?thesis
  proof (cases "signF32UI x \<and> f32_mag x = 0")
    case True
    then show ?thesis using c x by (simp add: f32_val_def)
  next
    case False
    then show ?thesis unfolding f32_div_unit m using c small(2) f32_one by (cases "signF32UI x") simp_all
  qed
next
  case (frac d)
  show ?thesis
  proof (cases "f32_mag x mod 2 ^ 149 = 0")
    case True
    then have "floorf x = x" using frac integral_bits[OF frac(1-3)] by (simp add: floorf_def Let_def mask_at)
    then show ?thesis using integral_val[OF True] x by simp
  next
    case False
    then have "floorf x = (if signF32UI x then x + of_nat (2 ^ d) else x) AND NOT (mask d)"
      using frac integral_bits[OF frac(1-3)] by (simp add: floorf_def Let_def mask_at unit_at huge_gt code_bits(2))
    then show ?thesis unfolding f32_div_unit using clear_val[OF frac(1-3)] False by simp
  qed
next
  case int
  then have "floorf x = x" by (simp add: floorf_def Let_def)
  then show ?thesis using integral_val[OF int(3)] x by simp
qed

lemma f32_div_unit_neg:
  "- f32_val x div 2 ^ 149 =
     (if signF32UI x then int (f32_int x) else - int (f32_int x) - (if f32_mag x mod 2 ^ 149 = 0 then 0 else 1))"
proof -
  have a: "int (f32_mag x) div 2 ^ 149 = int (f32_int x)" by (simp add: f32_int_def zdiv_int)
  have "int (f32_mag x) mod 2 ^ 149 = int (f32_mag x mod 2 ^ 149)" by (simp only: of_nat_mod of_nat_power of_nat_numeral)
  then have "- int (f32_mag x) div 2 ^ 149 = - int (f32_int x) - (if f32_mag x mod 2 ^ 149 = 0 then 0 else 1)"
    using a by (simp add: zdiv_zminus1_eq_if)
  then show ?thesis using a by (cases "signF32UI x") (simp_all only: f32_val_def if_True if_False minus_minus)
qed

lemma integral_val_neg: "f32_mag x mod 2 ^ 149 = 0 \<Longrightarrow> - (- f32_val x div 2 ^ 149) * 2 ^ 149 = f32_val x"
proof -
  assume h: "f32_mag x mod 2 ^ 149 = 0"
  then have "f32_mag x = f32_int x * 2 ^ 149" using f32_mag_div[of x] by simp
  then have "int (f32_mag x) = int (f32_int x) * 2 ^ 149" by simp
  then show ?thesis unfolding f32_div_unit_neg using h by (simp add: f32_val_def)
qed

lemma ceilf_value:
  assumes x: "expF32UI x < 255"
  shows "expF32UI (ceilf x) < 255 \<and> f32_val (ceilf x) = - (- f32_val x div 2 ^ 149) * 2 ^ 149"
  using x
proof (cases rule: exponent_cases)
  case small
  have m: "f32_mag x mod 2 ^ 149 = f32_mag x" using small(2) f32_mag_div[of x] by simp
  have c: "ceilf x = (if signF32UI x then 0x80000000 else if f32_mag x \<noteq> 0 then 0x3F800000 else x)"
    using small by (simp add: ceilf_def Let_def huge_gt code_bits(2,3))
  show ?thesis
  proof (cases "\<not> signF32UI x \<and> f32_mag x = 0")
    case True
    then show ?thesis using c x by (simp add: f32_val_def)
  next
    case False
    then show ?thesis unfolding f32_div_unit_neg m using c small(2) f32_one by (cases "signF32UI x") simp_all
  qed
next
  case (frac d)
  show ?thesis
  proof (cases "f32_mag x mod 2 ^ 149 = 0")
    case True
    then have "ceilf x = x" using frac integral_bits[OF frac(1-3)] by (simp add: ceilf_def Let_def mask_at)
    then show ?thesis using integral_val_neg[OF True] x by simp
  next
    case False
    then have "x \<noteq> 0" unfolding code_bits(3) by auto
    then have "sint x > 0 \<longleftrightarrow> \<not> signF32UI x" using code_bits(2)[of x] by (metis linorder_neqE_linordered_idom not_less_iff_gr_or_eq signed_eq_0_iff)
    then have "ceilf x = (if \<not> signF32UI x then x + of_nat (2 ^ d) else x) AND NOT (mask d)"
      using frac integral_bits[OF frac(1-3)] False by (simp add: ceilf_def Let_def mask_at unit_at huge_gt)
    then show ?thesis unfolding f32_div_unit_neg using clear_val[OF frac(1-3)] False by simp
  qed
next
  case int
  then have "ceilf x = x" by (simp add: ceilf_def Let_def)
  then show ?thesis using integral_val_neg[OF int(3)] x by simp
qed

lemma exp_field: "sint (drop_bit 23 (x AND 0x7F800000)) - 127 = float_exponent x"
proof -
  have h: "(0x7F800000 :: u32) = push_bit 23 (mask 8)" by (simp add: mask_eq_exp_minus_1)
  have "drop_bit 23 (x AND 0x7F800000) = drop_bit 23 x AND mask 8"
    unfolding h by (rule bit_word_eqI) (auto simp: bit_simps simp del: mask_numeral)
  also have "(mask 8 :: u32) = 0xFF" by (simp add: mask_eq_exp_minus_1)
  finally have e: "int (unat (drop_bit 23 (x AND 0x7F800000))) = expF32UI x" by (simp add: expF32UI_def)
  then have "unat (drop_bit 23 (x AND 0x7F800000)) < 256" using exp_range(2)[of x] by linarith
  then have "sint (drop_bit 23 (x AND 0x7F800000)) = int (unat (drop_bit 23 (x AND 0x7F800000)))"
    using sint_eq_cases[of "drop_bit 23 (x AND 0x7F800000)"] by simp
  then show ?thesis using e by (simp add: float_exponent_value)
qed

text \<open>Adding half and clearing is adding one or nothing and clearing.\<close>

lemma half_step:
  assumes d: "1 \<le> d" "d \<le> 23" and x: "unat x + 2 ^ d < 4294967296"
  shows "(x + of_nat (2 ^ (d - 1))) AND NOT (mask d) =
    (if 2 * (unat x mod 2 ^ d) < 2 ^ d then x else x + of_nat (2 ^ d)) AND NOT (mask d :: u32)"
proof -
  define h where "h = (2 :: nat) ^ (d - 1)"
  have dh: "(2 :: nat) ^ d = 2 * h" unfolding h_def using d(1) by (cases d) simp_all
  have "0 < h" by (simp add: h_def)
  have u: "unat (of_nat h :: u32) = h" "unat (of_nat (2 ^ d) :: u32) = 2 ^ d"
    by (intro unat_of_nat32; use x dh in simp)+
  define y z where "y = x + of_nat (2 ^ d)" and "z = x + of_nat h"
  have a: "unat z = unat x + h" "unat y = unat x + 2 * h"
    unfolding y_def z_def unat_plus_if' u using x dh by simp_all
  define r where "r = unat x mod (2 * h)"
  have r: "r < 2 * h" "unat x = unat x div (2 * h) * (2 * h) + r"
    using \<open>0 < h\<close> div_mult_mod_eq[of "unat x" "2 * h"] by (simp_all add: r_def)
  have m: "(unat x + h) mod (2 * h) = (if r < h then r + h else r - h)"
  proof -
    have "(unat x + h) mod (2 * h) = (r + h) mod (2 * h)" by (simp add: r_def mod_add_left_eq)
    then show ?thesis using r(1) by (simp add: le_mod_geq)
  qed
  have m2: "(unat x + 2 * h) mod (2 * h) = r" by (simp add: r_def)
  have "unat (z AND NOT (mask d)) = unat ((if 2 * r < 2 * h then x else y) AND NOT (mask d))"
    using m m2 r by (auto simp: unat_clear a dh simp flip: r_def)
  then show ?thesis unfolding h_def[symmetric] y_def[symmetric] z_def[symmetric] unfolding dh r_def[symmetric]
    by (metis word_unat_eq_iff)
qed

lemma sign_and: "x AND 0x80000000 = (if signF32UI x then 0x80000000 else 0)"
proof -
  have h: "(0x80000000 :: u32) = NOT (mask 31)" by code_simp
  have "unat (x AND NOT (mask 31)) = unat x - unat x mod 2147483648" unfolding unat_clear by simp
  also have "\<dots> = (if signF32UI x then 2147483648 else 0)"
    using bits_split[of x] mod_split[of x] by (auto split: if_splits)
  finally have "unat (x AND 0x80000000) = unat (if signF32UI x then 0x80000000 else 0 :: u32)" unfolding h[symmetric] by simp
  then show ?thesis by (simp only: word_unat_eq_iff)
qed

lemma roundf_value:
  assumes x: "expF32UI x < 255"
  shows "expF32UI (roundf x) < 255 \<and>
    f32_val (roundf x) = sgn (f32_val x) * ((2 * \<bar>f32_val x\<bar> + 2 ^ 149) div 2 ^ 150) * 2 ^ 149"
proof -
  define M where "M = f32_mag x"
  have half: "(2 * \<bar>f32_val x\<bar> + 2 ^ 149) div 2 ^ 150 = int ((2 * M + 2 ^ 149) div 2 ^ 150)"
    by (simp add: f32_val_def M_def zdiv_int)
  have s: "sgn (f32_val x) * int ((2 * M + 2 ^ 149) div 2 ^ 150) =
      (if signF32UI x then - int ((2 * M + 2 ^ 149) div 2 ^ 150) else int ((2 * M + 2 ^ 149) div 2 ^ 150))"
    by (cases "M = 0") (simp_all add: f32_val_def M_def)
  have split: "(2 * M + 2 ^ 149) div 2 ^ 150 = f32_int x + (if 2 * (M mod 2 ^ 149) < 2 ^ 149 then 0 else 1)"
  proof -
    define U :: nat where "U = 2 ^ 149"
    have "0 < U" by (simp add: U_def)
    have e: "(2 :: nat) ^ 150 = 2 * U" by (simp add: U_def)
    have M: "M = f32_int x * U + M mod U" using f32_mag_div[of x] by (simp only: M_def U_def)
    have "2 * M + U = (2 * (M mod U) + U) + f32_int x * (2 * U)" using M by (simp add: algebra_simps)
    then have "(2 * M + U) div (2 * U) = f32_int x + (2 * (M mod U) + U) div (2 * U)"
      using \<open>0 < U\<close> by (simp only: div_mult_self3) simp
    also have "(2 * (M mod U) + U) div (2 * U) = (if 2 * (M mod U) < U then 0 else 1)"
    proof (cases "2 * (M mod U) < U")
      case False
      have "(2 * (M mod U) + U) div (2 * U) = 1"
        by (rule div_nat_eqI) (use mod_less_divisor[OF \<open>0 < U\<close>, of M] False in simp_all)
      then show ?thesis using False by simp
    qed (use \<open>0 < U\<close> in simp)
    finally show ?thesis unfolding e U_def[symmetric] .
  qed
  have res: ?thesis if "expF32UI (roundf x) < 255"
    "f32_val (roundf x) = (if signF32UI x then - int (f32_int x + (if 2 * (M mod 2 ^ 149) < 2 ^ 149 then 0 else 1))
      else int (f32_int x + (if 2 * (M mod 2 ^ 149) < 2 ^ 149 then 0 else 1))) * 2 ^ 149"
    unfolding half s unfolding split using that by blast
  show ?thesis using x
  proof (cases rule: exponent_cases)
    case small
    have m: "M mod 2 ^ 149 = M" using small(2) f32_mag_div[of x] by (simp add: M_def)
    have b: "x AND 0x80000000 = (if signF32UI x then 0x80000000 else 0)"
      by (rule sign_and)
    have code: "roundf x = (let w = if signF32UI x then 0x80000000 else 0 in if float_exponent x = - 1 then w OR 0x3F800000 else w)"
      unfolding roundf_def Let_def exp_field b using small by simp
    have "2 * M < 2 ^ 149 \<longleftrightarrow> float_exponent x \<noteq> - 1"
    proof (cases "float_exponent x = - 1")
      case True
      then have e: "expF32UI x = 126" by (simp add: float_exponent_value)
      have "2 * M = (8388608 + unat (fracF32UI x)) * 2 ^ 126" by (simp add: M_def f32_mag_value e)
      then show ?thesis using True by simp
    next
      case False
      then have "expF32UI x \<le> 125" using small(1) by (simp add: float_exponent_value)
      then have "M < 2 ^ 148" using f32_mag_less[of x 125] by (simp add: M_def)
      then show ?thesis using False by simp
    qed
    then have c: "(2 * (M mod 2 ^ 149) < 2 ^ 149) = (float_exponent x \<noteq> - 1)" unfolding m .
    show ?thesis by (rule res) (use f32_one c code small(2) in \<open>simp_all add: Let_def\<close>)
  next
    case (frac d)
    have c: "2 * (M mod 2 ^ 149) < 2 ^ 149 \<longleftrightarrow> 2 * (unat x mod 2 ^ d) < 2 ^ d"
      using f32_int_parts(4,5)[OF frac(1-3)] by (simp only: M_def)
    have code: "roundf x = (if x AND mask d = 0 then x else (x + of_nat (2 ^ (d - 1))) AND NOT (mask d))"
      unfolding roundf_def Let_def exp_field using frac by (simp add: mask_at half_at)
    show ?thesis
    proof (cases "M mod 2 ^ 149 = 0")
      case True
      then have "roundf x = x" using code integral_bits[OF frac(1-3)] by (simp add: M_def)
      moreover have "M = f32_int x * 2 ^ 149" using f32_mag_div[of x] True by (simp only: M_def add_0_right)
      ultimately show ?thesis by (intro res) (use x True in \<open>simp_all add: f32_val_def flip: M_def\<close>)
    next
      case False
      have "2 ^ d \<le> (2 :: nat) ^ 23" using frac(3) by (intro power_increasing) simp_all
      then have "unat x + 2 ^ d < 4294967296"
        using bits_split[of x] frac_less[of x] frac(1,2) by (simp split: if_splits)
      from half_step[OF frac(2,3) this] False
      have "roundf x = (if 2 * (unat x mod 2 ^ d) < 2 ^ d then x else x + of_nat (2 ^ d)) AND NOT (mask d)"
        using code integral_bits[OF frac(1-3)] by (simp add: M_def)
      then show ?thesis by (intro res) (use clear_val[OF frac(1-3)] c in simp_all)
    qed
  next
    case int
    then have "roundf x = x" unfolding roundf_def Let_def exp_field by simp
    moreover have z: "M mod 2 ^ 149 = 0" using int(3) by (simp only: M_def)
    moreover have "M = f32_int x * 2 ^ 149" using f32_mag_div[of x] z by (simp only: M_def add_0_right)
    ultimately show ?thesis by (intro res) (use x in \<open>simp_all add: f32_val_def flip: M_def\<close>)
  qed
qed

lemma widened_negative:
  assumes "expF32UI x < 255"
  shows "f64_lt (f32_to_f64 x) 0 \<longleftrightarrow> signF32UI x \<and> f32_mag x \<noteq> 0"
proof -
  let ?w = "f32_to_f64 x"
  have m: "(0x7FF0000000000000 :: u64) = push_bit 52 (mask 11)" "(0x7FF :: u64) = mask 11"
    by (simp_all add: mask_eq_exp_minus_1 push_bit_eq_mult)
  have nan: "\<not> isNaNF64UI w" if "expF64UI w < 2047" for w
  proof
    assume "isNaNF64UI w"
    then have h: "NOT w AND push_bit 52 (mask 11) = 0" unfolding isNaNF64UI_def m by blast
    have "drop_bit 52 w AND mask 11 = mask 11"
    proof (rule bit_word_eqI)
      fix n assume "n < LENGTH(64)"
      have "\<not> bit (NOT w AND push_bit 52 (mask 11)) (52 + n)" unfolding h by simp
      then show "bit (drop_bit 52 w AND mask 11) n = bit (mask 11 :: u64) n" by (auto simp: bit_simps)
    qed
    then have "expF64UI w = 2047" unfolding expF64UI_def m by (simp add: mask_eq_exp_minus_1)
    with that show False by simp
  qed
  have w: "f64_mag ?w = f32_mag x * 2 ^ 925" "\<not> isNaNF64UI ?w" "signF64UI ?w = signF32UI x"
    using f32_to_f64_value[OF assms] nan by simp_all
  have z: "\<not> isNaNF64UI 0" "\<not> signF64UI 0" by (simp_all add: nan expF64UI_value signF64UI_value)
  have k: "(0x7FFFFFFFFFFFFFFF :: u64) = mask 63" by (simp add: mask_eq_exp_minus_1)
  have "?w AND 0x7FFFFFFFFFFFFFFF = 0 \<longleftrightarrow> unat (?w AND mask 63) = 0" unfolding k by (rule unat_eq_zero[symmetric])
  also have "\<dots> \<longleftrightarrow> unat ?w mod 9223372036854775808 = 0" unfolding unat_and_low by simp
  also have "\<dots> \<longleftrightarrow> f64_mag ?w = 0"
    using enc_mag_eq[of 53 "unat ?w mod 9223372036854775808" 0] by (simp add: f64_mag_def enc_mag_0)
  also have "\<dots> \<longleftrightarrow> f32_mag x = 0" unfolding w(1) by simp
  finally show ?thesis unfolding f64_lt_def using w(2,3) z by simp
qed

lemma truncf_value:
  assumes x: "expF32UI x < 255"
  shows "expF32UI (truncf x) < 255 \<and> f32_val (truncf x) = f32_trunc x * 2 ^ 149"
proof -
  have t: "f32_trunc x = (if signF32UI x then - (- f32_val x div 2 ^ 149) else f32_val x div 2 ^ 149)"
    unfolding f32_div_unit f32_div_unit_neg by (simp add: f32_trunc_def)
  have "truncf x = (if signF32UI x \<and> f32_mag x \<noteq> 0 then ceilf x else floorf x)"
    by (simp add: truncf_def widened_negative[OF x])
  moreover have "f32_mag x = 0 \<Longrightarrow> f32_val x = 0" by (simp add: f32_val_def)
  ultimately show ?thesis using floorf_value[OF x] ceilf_value[OF x] t by auto
qed

text \<open>C24: On finite numbers \<open>floorf\<close> rounds down to an integer, \<open>ceilf\<close> up, \<open>truncf\<close> towards zero and \<open>roundf\<close> to the
  nearest integer with halves away from zero, in units of \<open>2\<^sup>-\<^sup>1\<^sup>4\<^sup>9\<close>, so an integer is a multiple of \<open>2\<^sup>1\<^sup>4\<^sup>9\<close>; the results
  are finite.\<close>

theorem float_rounding:
  assumes "expF32UI x < 255"
  shows "(expF32UI (floorf x) < 255 \<and> f32_val (floorf x) = f32_val x div 2 ^ 149 * 2 ^ 149) \<and>
    (expF32UI (ceilf x) < 255 \<and> f32_val (ceilf x) = - (- f32_val x div 2 ^ 149) * 2 ^ 149) \<and>
    (expF32UI (truncf x) < 255 \<and> f32_val (truncf x) = sgn (f32_val x) * (\<bar>f32_val x\<bar> div 2 ^ 149) * 2 ^ 149) \<and>
    (expF32UI (roundf x) < 255 \<and> f32_val (roundf x) = sgn (f32_val x) * ((2 * \<bar>f32_val x\<bar> + 2 ^ 149) div 2 ^ 150) * 2 ^ 149)"
proof -
  have "f32_trunc x = sgn (f32_val x) * (\<bar>f32_val x\<bar> div 2 ^ 149)"
    by (cases "f32_mag x = 0") (simp_all add: f32_trunc_def f32_val_def f32_int_def zdiv_int)
  then show ?thesis
    using floorf_value[OF assms] ceilf_value[OF assms] truncf_value[OF assms] roundf_value[OF assms] by simp
qed

theorem float_rounding_witness:
  "expF32UI 0xC0200000 < 255 \<and> f32_val (floorf 0xC0200000) = f32_val 0xC0200000 div 2 ^ 149 * 2 ^ 149 \<and>
   f32_val (roundf 0xC0200000) =
     sgn (f32_val 0xC0200000) * ((2 * \<bar>f32_val 0xC0200000\<bar> + 2 ^ 149) div 2 ^ 150) * 2 ^ 149"
proof -
  have e: "expF32UI 0xC0200000 < 255" by (simp add: expF32UI_value)
  show ?thesis using e float_rounding[OF e] by blast
qed

end
