(* ===== verification/MathScale.thy ===== *)
theory MathScale
  imports MathF
begin

text \<open>
  Scaling by a power of two: \<open>ldexpf\<close> is one rounding of the exact product, so it is exact unless the result is
  subnormal or too large.
\<close>

lemma round_huge: "(2 ^ 25 - 1) * 2 ^ 252 * 2 ^ k \<le> n \<Longrightarrow> f32_round s n k = packToF32UI s 0xFF 0"
  using f32_round_rounds[of s n k] by (simp add: f32_rounds_def not_less del: power_numeral)

lemma round_tiny: "2 * n < 2 ^ k \<Longrightarrow> f32_round s n k = of_nat (if s then 2147483648 else 0)"
  by (simp add: f32_round_def rnd_tiny)

lemma f32_round_self: "expF32UI w < 255 \<Longrightarrow> f32_round (signF32UI w) (f32_mag w) 0 = w"
proof -
  assume "expF32UI w < 255"
  then have "f32_round (signF32UI w) (f32_mag w) 0 = of_nat ((if signF32UI w then 2147483648 else 0) + unat w mod 2147483648)"
    using f32_finite[of w] by (simp add: f32_round_def f32_mag_def rnd_enc_mag)
  also have "\<dots> = w" using bits_split[of w] mod_split[of w] by (metis add.assoc of_nat_unat ucast_id)
  finally show ?thesis .
qed

lemma sint_nonneg: "0 \<le> sint w \<Longrightarrow> int (unat w) = sint w" for w :: u32
  using sint_eq_cases[of w] unsigned_less[of w, where 'a = nat] by (simp del: of_nat_unat split: if_splits)

lemma f32_from_fields: "x = of_nat ((if signF32UI x then 2147483648 else 0) + nat (expF32UI x) * 8388608 + unat (fracF32UI x))"
  unfolding bits_split[of x, symmetric] by simp

text \<open>A number with an exponent written into it.\<close>

lemma set_exponent:
  fixes x k :: u32
  assumes k: "unat k < 256"
  defines "w \<equiv> (x AND 0x807FFFFF) OR push_bit 23 k"
  shows "fracF32UI w = fracF32UI x" "expF32UI w = int (unat k)" "signF32UI w = signF32UI x"
proof -
  have m: "(0x7FFFFF :: u32) = mask 23" "(0xFF :: u32) = mask 8" "(0x807FFFFF :: u32) = NOT (push_bit 23 (mask 8))"
    by (simp_all add: mask_eq_exp_minus_1 push_bit_eq_mult)
  have kb: "bit k n \<Longrightarrow> n < 8" for n
  proof -
    assume b: "bit k n"
    have "unat (k AND mask 8) = unat k" using k unfolding unat_and_low by simp
    then have "k AND mask 8 = k" by (simp only: word_unat_eq_iff)
    then show "n < 8" using b by (metis bit_and_iff bit_mask_iff)
  qed
  show "fracF32UI w = fracF32UI x"
    unfolding fracF32UI_def w_def m by (rule bit_word_eqI) (auto simp: bit_simps simp del: mask_numeral)
  have "drop_bit 23 w AND mask 8 = k"
    unfolding w_def m by (rule bit_word_eqI) (auto simp: bit_simps dest: kb simp del: mask_numeral)
  then show "expF32UI w = int (unat k)" unfolding expF32UI_def m by (simp del: mask_numeral)
  show "signF32UI w = signF32UI x"
    unfolding signF32UI_bit w_def m using kb[of 8] by (auto simp: bit_simps simp del: mask_numeral)
qed

text \<open>The scaled magnitude, from the significand of a normal number.\<close>

lemma scaled:
  assumes x: "1 \<le> expF32UI x" and c: "f32_mag x = M * 2 ^ c" and z: "z = expF32UI x - int c + n - 1"
  shows "f32_round s ((8388608 + unat (fracF32UI x)) * 2 ^ nat z) (nat (- z)) = f32_round s (M * 2 ^ nat n) (nat (- n))"
proof -
  let ?F = "8388608 + unat (fracF32UI x)"
  have F: "?F * 2 ^ (nat (expF32UI x) - 1) = M * 2 ^ c" using c x by (simp add: f32_mag_value)
  have e: "nat z + nat (- n) + c = nat (expF32UI x) - 1 + nat n + nat (- z)" using x z by linarith
  have "?F * 2 ^ nat z * 2 ^ nat (- n) * 2 ^ c = ?F * 2 ^ (nat z + nat (- n) + c)" by (simp only: power_add mult.assoc)
  also have "\<dots> = ?F * 2 ^ (nat (expF32UI x) - 1) * 2 ^ nat n * 2 ^ nat (- z)" unfolding e by (simp only: power_add mult.assoc)
  also have "\<dots> = M * 2 ^ nat n * 2 ^ nat (- z) * 2 ^ c" unfolding F by (simp only: mult_ac)
  finally have "?F * 2 ^ nat z * 2 ^ nat (- n) = M * 2 ^ nat n * 2 ^ nat (- z)" by simp
  then show ?thesis unfolding f32_round_def by (subst rnd_cong) simp_all
qed

lemma subnormal_scaled:
  assumes n: "0 < n" "n < 2 ^ 23"
  shows "enc_mag 24 (rnd 24 (n * 2 ^ 25) 0) = n * 2 ^ 25" "8388608 \<le> rnd 24 (n * 2 ^ 25) 0" "rnd 24 (n * 2 ^ 25) 0 < 1073741824"
proof -
  define b where "b = nbits n"
  have b: "1 \<le> b" "b \<le> 23" using n nbits_le[of n 23] nbits_le[of n 0] by (auto simp: b_def)
  have "\<not> n < 2 ^ (b - 1)" using nbits_le[of n "b - 1"] b unfolding b_def by linarith
  then have lo: "2 ^ (b - 1) * 2 ^ (24 - b) \<le> n * 2 ^ (24 - b)" by simp
  have "n < 2 ^ b" using nbits_le[of n b] by (simp add: b_def)
  then have hi: "n * 2 ^ (24 - b) < 2 ^ b * 2 ^ (24 - b)" by simp
  define f where "f = n * 2 ^ (24 - b) - 2 ^ 23"
  have p: "(2 :: nat) ^ (b - 1) * 2 ^ (24 - b) = 2 ^ 23" "(2 :: nat) ^ b * 2 ^ (24 - b) = 2 ^ 24"
    unfolding power_add[symmetric] using b by simp_all
  have f: "n * 2 ^ (24 - b) = 2 ^ 23 + f" "f < 2 ^ 23" using lo hi unfolding p f_def by simp_all
  have s: "max 0 (nbits (n * 2 ^ 25) - 24) = b + 1" unfolding nbits_mult[OF n(1)] using b by (simp add: b_def)
  have e: "n * 2 ^ 25 = n * 2 ^ (24 - b) * 2 ^ (b + 1)" unfolding mult.assoc power_add[symmetric] using b by simp
  have "rne_shift (n * 2 ^ 25) (b + 1) = n * 2 ^ (24 - b)" unfolding e by (rule rne_shift_exact)
  then have r: "rnd 24 (n * 2 ^ 25) 0 = (b + 2) * 2 ^ 23 + f" unfolding rnd_def Let_def s f(1) by simp
  have "enc_mag 24 ((b + 2) * 2 ^ 23 + f) = (2 ^ 23 + f) * 2 ^ (b + 1)" using enc_mag_split[of f 24 "b + 2"] f(2) by simp
  also have "\<dots> = n * 2 ^ 25" unfolding f(1)[symmetric] e[symmetric] ..
  finally show "enc_mag 24 (rnd 24 (n * 2 ^ 25) 0) = n * 2 ^ 25" unfolding r .
  show "8388608 \<le> rnd 24 (n * 2 ^ 25) 0" "rnd 24 (n * 2 ^ 25) 0 < 1073741824" unfolding r using b f(2) by simp_all
qed

lemma ldexp_consts:
  "f32_mag 0x7149F2CA = 13234890 * 2 ^ 225" "expF32UI 0x7149F2CA < 255" "\<not> signF32UI 0x7149F2CA"
  "f32_mag 0x0DA24260 = 10633824 * 2 ^ 26" "expF32UI 0x0DA24260 < 255" "\<not> signF32UI 0x0DA24260"
  "f32_mag 0x4C000000 = 2 ^ 174" "expF32UI 0x4C000000 < 255" "\<not> signF32UI 0x4C000000"
  "f32_mag 0x33000000 = 2 ^ 124" "expF32UI 0x33000000 < 255" "\<not> signF32UI 0x33000000"
  by (simp_all add: f32_mag_value signF32UI_value expF32UI_value fracF32UI_value)

lemma copysignf_fields:
  "unat (copysignf x y) mod 2147483648 = unat x mod 2147483648" "signF32UI (copysignf x y) = signF32UI y"
  "f32_mag (copysignf x y) = f32_mag x" "expF32UI (copysignf x y) < 255 \<longleftrightarrow> expF32UI x < 255"
proof -
  have m: "(0x7FFFFFFF :: u32) = mask 31" "(0x80000000 :: u32) = push_bit 31 1"
    by (simp_all add: mask_eq_exp_minus_1 push_bit_eq_mult)
  have "take_bit 31 (copysignf x y) = take_bit 31 x"
    unfolding copysignf_def m by (rule bit_word_eqI) (auto simp: bit_simps simp del: mask_numeral)
  then have "unat (take_bit 31 (copysignf x y)) = unat (take_bit 31 x)" by simp
  then show u: "unat (copysignf x y) mod 2147483648 = unat x mod 2147483648"
    by (simp only: unsigned_take_bit_eq) (simp add: take_bit_eq_mod)
  show "signF32UI (copysignf x y) = signF32UI y"
    unfolding signF32UI_bit copysignf_def m by (auto simp: bit_simps simp del: mask_numeral)
  show "f32_mag (copysignf x y) = f32_mag x" unfolding f32_mag_def u ..
  show "expF32UI (copysignf x y) < 255 \<longleftrightarrow> expF32UI x < 255" unfolding f32_finite u ..
qed

lemma signed_order: "sint x > 0 \<longleftrightarrow> \<not> (sint x \<le> (0::int))" by linarith

lemma overflow_product: "f32_mul 0x7149F2CA (copysignf 0x7149F2CA x) = packToF32UI (signF32UI x) 0xFF 0"
proof -
  have "f32_mul 0x7149F2CA (copysignf 0x7149F2CA x) =
      f32_round (signF32UI x) (13234890 * 2 ^ 225 * (13234890 * 2 ^ 225)) 149"
    using ldexp_consts by (subst f32_mul_value) (simp_all add: copysignf_fields)
  also have "\<dots> = packToF32UI (signF32UI x) 0xFF 0" by (rule round_huge) simp
  finally show ?thesis .
qed

lemma underflow_product:
  "f32_mul 0x0DA24260 (copysignf 0x0DA24260 x) = of_nat (if signF32UI x then 2147483648 else 0)"
proof -
  have "f32_mul 0x0DA24260 (copysignf 0x0DA24260 x) =
      f32_round (signF32UI x) (10633824 * 2 ^ 26 * (10633824 * 2 ^ 26)) 149"
    using ldexp_consts by (subst f32_mul_value) (simp_all add: copysignf_fields)
  also have "\<dots> = of_nat (if signF32UI x then 2147483648 else 0)" by (rule round_tiny) simp
  finally show ?thesis .
qed


text \<open>The branches after the number has been made normal: it is \<open>M * 2\<^sup>c\<close> and its exponent is \<open>k + c\<close>.\<close>

definition ldexpf_scale :: "u32 \<Rightarrow> u32 \<Rightarrow> u32 \<Rightarrow> u32" where
  "ldexpf_scale n x k =
     (if k = 0xFF then f32_add x x
      else if sint (k + n) > 0xFE then f32_mul 0x7149F2CA (copysignf 0x7149F2CA x)
      else if sint (k + n) > 0 then (x AND 0x807FFFFF) OR push_bit 23 (k + n)
      else if sint (k + n) \<le> - 25 then
        if sint n > 50000 then f32_mul 0x7149F2CA (copysignf 0x7149F2CA x) else f32_mul 0x0DA24260 (copysignf 0x0DA24260 x)
      else f32_mul ((x AND 0x807FFFFF) OR push_bit 23 (k + n + 25)) 0x33000000)"

lemma ldexpf_code:
  "ldexpf x n =
     (let e = signed_drop_bit 23 (x AND 0x7F800000)
      in if e = 0 then
           if x AND 0x7FFFFFFF = 0 then x
           else let y = f32_mul x 0x4C000000
                in if sint n < - 50000 then f32_mul 0x0DA24260 y
                   else ldexpf_scale n y (signed_drop_bit 23 (y AND 0x7F800000) - 25)
         else ldexpf_scale n x e)"
  by (simp only: ldexpf_def ldexpf_scale_def Let_def)

lemma ldexpf_scale_value:
  assumes x: "1 \<le> expF32UI x" "expF32UI x < 255" and m: "f32_mag x = M * 2 ^ c"
    and k: "sint k = expF32UI x - int c" and c: "c = 0 \<or> c = 25 \<and> - 50000 \<le> sint n"
  shows "ldexpf_scale n x k = f32_round (signF32UI x) (M * 2 ^ nat (sint n)) (nat (- sint n))"
proof -
  define f z where "f = unat (fracF32UI x)" and "z = sint k + sint n - 1"
  have f: "f < 8388608" unfolding f_def by (rule frac_less)
  have R: "f32_round (signF32UI x) (M * 2 ^ nat (sint n)) (nat (- sint n)) =
      f32_round (signF32UI x) ((8388608 + f) * 2 ^ nat z) (nat (- z))"
    unfolding f_def by (rule scaled[OF x(1) m, symmetric]) (simp add: z_def k)
  have big: "254 \<le> z \<Longrightarrow> f32_round (signF32UI x) ((8388608 + f) * 2 ^ nat z) (nat (- z)) = packToF32UI (signF32UI x) 0xFF 0"
  proof (rule round_huge)
    assume h: "254 \<le> z"
    have "(2 :: nat) ^ 254 \<le> 2 ^ nat z" by (rule power_increasing) (use h in simp_all)
    then have "8388608 * 2 ^ 254 \<le> (8388608 + f) * 2 ^ nat z" by (intro mult_le_mono) simp_all
    then show "(2 ^ 25 - 1) * 2 ^ 252 * 2 ^ nat (- z) \<le> (8388608 + f) * 2 ^ nat z" using h by simp
  qed
  have small: "z \<le> - 26 \<Longrightarrow> f32_round (signF32UI x) ((8388608 + f) * 2 ^ nat z) (nat (- z)) = of_nat (if signF32UI x then 2147483648 else 0)"
  proof (rule round_tiny)
    assume h: "z \<le> - 26"
    have "(2 :: nat) ^ 26 \<le> 2 ^ nat (- z)" by (rule power_increasing) (use h in simp_all)
    then show "2 * ((8388608 + f) * 2 ^ nat z) < 2 ^ nat (- z)" using h f by simp
  qed
  have kr: "- 25 \<le> sint k" "sint k \<le> 254" using k x c by auto
  have nr: "- 2147483648 \<le> sint n" "sint n < 2147483648" using sint_ge[of n] sint_lt[of n] by simp_all
  have k255: "k \<noteq> 0xFF"
  proof
    assume "k = 0xFF"
    then have "sint k = 255" by simp
    then show False using kr(2) by simp
  qed
  show ?thesis
  proof (cases "sint k + sint n < 2147483648")
    case False
    define a where "a = sint k + sint n - 2147483648"
    have "(a + 4294967296) mod 4294967296 = a mod 4294967296" by (rule mod_add_self2)
    also have "\<dots> = a" by (rule mod_pos_pos_trivial) (use False kr nr a_def in linarith)+
    finally have "(a + 4294967296) mod 4294967296 = a" .
    moreover have "sint k + sint n + 2147483648 = a + 4294967296" by (simp add: a_def)
    moreover have "sint (k + n) = (sint k + sint n + 2147483648) mod 4294967296 - 2147483648"
      by (simp add: sint_word_ariths signed_take_bit_eq_take_bit_shift take_bit_eq_mod)
    ultimately have "sint (k + n) = sint k + sint n - 4294967296" by (simp only: a_def)
    then have "ldexpf_scale n x k = packToF32UI (signF32UI x) 0xFF 0"
      using False kr nr k255 by (simp add: ldexpf_scale_def overflow_product)
    then show ?thesis unfolding R using big False by (simp add: z_def)
  next
    case True
    have "- 2147483648 \<le> sint k + sint n" using kr nr k c x by auto
    then have s: "sint (k + n) = z + 1"
      using True by (simp add: sint_word_ariths signed_take_bit_int_eq_self z_def)
    consider "254 \<le> z" | "0 \<le> z" "z \<le> 253" | "z \<le> - 26" | "- 25 \<le> z" "z < 0" by linarith
    then show ?thesis
    proof cases
      case 1
      then have "ldexpf_scale n x k = packToF32UI (signF32UI x) 0xFF 0"
        using s k255 by (simp add: ldexpf_scale_def overflow_product)
      then show ?thesis unfolding R using big 1 by simp
    next
      case 2
      define w where "w = (x AND 0x807FFFFF) OR push_bit 23 (k + n)"
      have u: "int (unat (k + n)) = z + 1" using sint_nonneg[of "k + n"] s 2 by simp
      then have "unat (k + n) < 256" using 2 by linarith
      note F = set_exponent[OF this, of x, folded w_def]
      have e: "expF32UI w = z + 1" using F(2) u by simp
      have "f32_round (signF32UI x) ((8388608 + f) * 2 ^ nat z) (nat (- z)) = w"
      proof -
        have n: "nat (expF32UI w) - 1 = nat z" "expF32UI w \<noteq> 0" "expF32UI w < 255" "nat (- z) = 0" using e 2 by simp_all
        then have "f32_mag w = (8388608 + f) * 2 ^ nat z" using F(1) by (simp only: f32_mag_value if_False f_def)
        then show ?thesis using f32_round_self[OF n(3)] F(3) n(4) by simp
      qed
      then show ?thesis unfolding R using s 2 k255 by (simp add: ldexpf_scale_def w_def)
    next
      case 3
      have "\<not> sint n > 50000" using 3 kr by (simp add: z_def)
      then have "ldexpf_scale n x k = of_nat (if signF32UI x then 2147483648 else 0)"
        using s 3 k255 by (simp add: ldexpf_scale_def underflow_product)
      then show ?thesis unfolding R using small 3 by simp
    next
      case 4
      define w where "w = (x AND 0x807FFFFF) OR push_bit 23 (k + n + 25)"
      have "sint (k + n + 25) = z + 26"
        using s 4 by (simp add: sint_word_ariths signed_take_bit_int_eq_self)
      then have u: "int (unat (k + n + 25)) = z + 26" using sint_nonneg[of "k + n + 25"] 4 by simp
      then have "unat (k + n + 25) < 256" using 4 by linarith
      note F = set_exponent[OF this, of x, folded w_def]
      have e: "expF32UI w = z + 26" using F(2) u by simp
      have mw: "f32_mag w = (8388608 + f) * 2 ^ nat (z + 25)"
        using 4 F(1) by (simp add: f32_mag_value e f_def nat_diff_distrib flip: One_nat_def)
      have "f32_mul w 0x33000000 = f32_round (signF32UI w) (f32_mag w * 2 ^ 124) 149"
        using e 4 ldexp_consts by (subst f32_mul_value) simp_all
      also have "\<dots> = f32_round (signF32UI x) ((8388608 + f) * 2 ^ nat z) (nat (- z))"
      proof -
        have nz: "nat (z + 25) + 124 + nat (- z) = 149" "nat z = 0" using 4 by linarith+
        then have "f32_mag w * 2 ^ 124 * 2 ^ nat (- z) = (8388608 + f) * 2 ^ nat z * 2 ^ 149"
          unfolding mw mult.assoc power_add[symmetric] add.assoc[symmetric] by (simp add: nz)
        then show ?thesis unfolding f32_round_def F(3) by (subst rnd_cong) (simp_all add: mw)
      qed
      finally show ?thesis unfolding R using s 4 k255 by (simp add: ldexpf_scale_def w_def)
    qed
  qed
qed


text \<open>\<open>frexpf\<close> takes no care of subnormal numbers, as its comment suspects: the fraction of the least positive number is
  \<open>2\<^sup>-\<^sup>2\<^sup>3\<close> and not in \<open>[1/2, 1)\<close>.\<close>

lemma frexpf_subnormal: "frexpf 0x00000001 = (0x34000000, word_of_int (- 126))"
  by code_simp

text \<open>C23: \<open>ldexpf\<close> returns the number nearest to \<open>x\<close> times \<open>2\<^sup>n\<close>, ties to even, for every finite \<open>x\<close>, subnormal or not,
  and every 32-bit \<open>n\<close>: one rounding of the exact product, an infinity of the sign of \<open>x\<close> when the product is too large and
  a zero of its sign when it is too small, however the exponent sum wraps.\<close>

theorem ldexpf_rounds:
  assumes x: "expF32UI x < 255"
  shows "f32_rounds (ldexpf x n) (signF32UI x) (f32_mag x * 2 ^ nat (sint n)) (nat (- sint n))"
proof -
  have field: "sint (signed_drop_bit 23 (y AND 0x7F800000)) = expF32UI y" for y :: u32
  proof -
    have h: "(0x7F800000 :: u32) = push_bit 23 (mask 8)" by (simp add: mask_eq_exp_minus_1 push_bit_eq_mult)
    have "signed_drop_bit 23 (y AND 0x7F800000) = drop_bit 23 (y AND 0x7F800000)"
      unfolding h by (rule bit_word_eqI) (auto simp: bit_simps simp del: mask_numeral)
    then show ?thesis using exp_field[of y] by (simp add: float_exponent_value)
  qed
  have round: "ldexpf x n = f32_round (signF32UI x) (f32_mag x * 2 ^ nat (sint n)) (nat (- sint n))"
  proof (cases "expF32UI x = 0")
    case False
    then have e: "1 \<le> expF32UI x" using exp_range(1)[of x] by linarith
    have "signed_drop_bit 23 (x AND 0x7F800000) \<noteq> 0" using field[of x] False by auto
    then have "ldexpf x n = ldexpf_scale n x (signed_drop_bit 23 (x AND 0x7F800000))" by (simp add: ldexpf_code Let_def)
    also have "\<dots> = f32_round (signF32UI x) (f32_mag x * 2 ^ nat (sint n)) (nat (- sint n))"
      by (rule ldexpf_scale_value[OF e x, of _ 0]) (simp_all add: field)
    finally show ?thesis .
  next
    case True
    then have z: "signed_drop_bit 23 (x AND 0x7F800000) = 0" using field[of x] by (metis signed_eq_0_iff)
    show ?thesis
    proof (cases "f32_mag x = 0")
      case zero: True
      have "x = f32_round (signF32UI x) 0 0" using f32_round_self[OF x] zero by simp
      also have "\<dots> = f32_round (signF32UI x) 0 (nat (- sint n))" by (simp add: f32_round_0)
      finally show ?thesis using z zero code_bits(1)[of x] by (simp add: ldexpf_code Let_def)
    next
      case nz: False
      define y where "y = f32_mul x 0x4C000000"
      have y: "f32_mag y = f32_mag x * 2 ^ 25" "signF32UI y = signF32UI x" "1 \<le> expF32UI y" "expF32UI y < 255"
      proof -
        have n: "0 < f32_mag x" "f32_mag x < 2 ^ 23" using nz True frac_less[of x] by (simp_all add: f32_mag_value)
        define X where "X = rnd 24 (f32_mag x * 2 ^ 25) 0"
        note X = subnormal_scaled[OF n, folded X_def]
        have "y = f32_round (signF32UI x) (f32_mag x * 2 ^ 174) 149"
          using ldexp_consts(7-9) x unfolding y_def by (subst f32_mul_value) simp_all
        also have "f32_mag x * 2 ^ 174 = f32_mag x * 2 ^ 25 * 2 ^ 149" by simp
        also have "f32_round (signF32UI x) (f32_mag x * 2 ^ 25 * 2 ^ 149) 149 = f32_round (signF32UI x) (f32_mag x * 2 ^ 25) 0"
          using rnd_scale[of "f32_mag x * 2 ^ 25" 24 149 0] n(1) by (simp only: f32_round_def add_0) simp
        finally have "y = of_nat ((if signF32UI x then 2147483648 else 0) + X)"
          unfolding f32_round_def X_def[symmetric] using X(3) by (simp add: min_def)
        then have u: "unat y = (if signF32UI x then 2147483648 else 0) + X" using X by (simp add: unat_of_nat32 del: of_nat_add)
        have m: "unat y mod 2147483648 = X" using X unfolding u by simp
        show "f32_mag y = f32_mag x * 2 ^ 25" unfolding f32_mag_def[of y] m by (rule X(1))
        show "signF32UI y = signF32UI x" unfolding signF32UI_value[of y] u using X by simp
        show "1 \<le> expF32UI y"
          using mod_split[of y] frac_less[of y] exp_range(1)[of y] X(2) unfolding m by (cases "expF32UI y = 0") simp_all
        show "expF32UI y < 255" unfolding f32_finite m using X by simp
      qed
      have code: "ldexpf x n = (if sint n < - 50000 then f32_mul 0x0DA24260 y
          else ldexpf_scale n y (signed_drop_bit 23 (y AND 0x7F800000) - 25))"
        using z nz code_bits(1)[of x] by (simp add: ldexpf_code Let_def y_def)
      show ?thesis
      proof (cases "sint n < - 50000")
        case True
        have n: "f32_mag x < 2 ^ 23" using \<open>expF32UI x = 0\<close> frac_less[of x] by (simp add: f32_mag_value)
        have "ldexpf x n = f32_mul 0x0DA24260 y" using code True by simp
        also have "\<dots> = f32_round (signF32UI x) (10633824 * 2 ^ 26 * f32_mag y) 149"
          using ldexp_consts(4-6) y by (subst f32_mul_value) simp_all
        also have "\<dots> = of_nat (if signF32UI x then 2147483648 else 0)"
          by (rule round_tiny) (use n in \<open>simp add: y(1)\<close>)
        also have "\<dots> = f32_round (signF32UI x) (f32_mag x * 2 ^ nat (sint n)) (nat (- sint n))"
        proof (rule round_tiny[symmetric])
          have "(2 :: nat) ^ 24 \<le> 2 ^ nat (- sint n)" by (rule power_increasing) (use True in simp_all)
          then show "2 * (f32_mag x * 2 ^ nat (sint n)) < 2 ^ nat (- sint n)" using n True by simp
        qed
        finally show ?thesis .
      next
        case False
        have "sint (signed_drop_bit 23 (y AND 0x7F800000) - 25) = expF32UI y - 25"
          using field[of y] y(3,4) by (simp add: sint_word_ariths signed_take_bit_int_eq_self)
        then show ?thesis using code False ldexpf_scale_value[OF y(3,4,1), of _ n] y(2) by simp
      qed
    qed
  qed
  show ?thesis unfolding round by (rule f32_round_rounds)
qed


theorem ldexpf_rounds_witness:
  "f32_rounds (ldexpf 0x3F800001 (word_of_int (- 130))) (signF32UI 0x3F800001)
     (f32_mag 0x3F800001 * 2 ^ nat (sint (word_of_int (- 130) :: u32))) (nat (- sint (word_of_int (- 130) :: u32)))"
  by (rule ldexpf_rounds) (simp add: expF32UI_value)

end
