(* ===== verification/MathRoot.thy ===== *)
theory MathRoot
  imports Complex_Main MathScale
begin

text \<open>
  The square root: the loop of \<open>sqrtf\<close> finds the integer square root of the scaled significand one bit at a time, with
  one bit more than a number holds, and the last step rounds it.
\<close>

section \<open>The loop\<close>

lemma root_step:
  fixes ix s q r :: u32
  assumes r: "unat r = 2 ^ j" and s: "unat s = 2 * unat q" and ix: "unat ix < 4 * unat q + 4 * 2 ^ j"
    and q: "unat q + 2 * 2 ^ j \<le> 33554432"
  defines "t \<equiv> s + r"
  shows "sint t \<le> sint ix \<longleftrightarrow> 2 * unat q + 2 ^ j \<le> unat ix"
    "unat (t + r) = 2 * (unat q + 2 ^ j)" "unat (q + r) = unat q + 2 ^ j" "unat (ix + ix) = 2 * unat ix"
    "2 * unat q + 2 ^ j \<le> unat ix \<Longrightarrow> unat (ix - t) = unat ix - (2 * unat q + 2 ^ j)"
    "2 * unat q + 2 ^ j \<le> unat ix \<Longrightarrow> unat (ix - t + (ix - t)) = 2 * (unat ix - (2 * unat q + 2 ^ j))"
proof -
  have t: "unat t = 2 * unat q + 2 ^ j" unfolding t_def unat_plus_if' r s using q by simp
  have b: "unat t < 2147483648" "unat ix < 2147483648" using ix q unfolding t by linarith+
  have "sint t = int (unat t)" "sint ix = int (unat ix)" using sint_eq_cases[of t] sint_eq_cases[of ix] b by simp_all
  then show "sint t \<le> sint ix \<longleftrightarrow> 2 * unat q + 2 ^ j \<le> unat ix" unfolding t[symmetric] by linarith
  show "unat (t + r) = 2 * (unat q + 2 ^ j)" unfolding unat_plus_if' r t using q by simp
  show "unat (q + r) = unat q + 2 ^ j" unfolding unat_plus_if' r using q by simp
  show "unat (ix + ix) = 2 * unat ix" unfolding unat_plus_if' using b by simp
  assume "2 * unat q + 2 ^ j \<le> unat ix"
  then show d: "unat (ix - t) = unat ix - (2 * unat q + 2 ^ j)" by (simp add: unat_sub_if' t)
  show "unat (ix - t + (ix - t)) = 2 * (unat ix - (2 * unat q + 2 ^ j))" unfolding unat_plus_if' d using b by simp
qed

lemma sqrtf_bits_value:
  assumes "unat r = 2 ^ j" "unat s = 2 * unat q" "unat ix * 2 ^ j + (unat q)\<^sup>2 = Y" "unat ix < 4 * unat q + 4 * 2 ^ j"
    "unat q + 2 * 2 ^ j \<le> 33554432"
  shows "\<exists>ix' q'. sqrtf_bits ix s q r = (ix', q') \<and> (unat q')\<^sup>2 \<le> Y \<and> Y < (unat q' + 1)\<^sup>2 \<and> unat q' < 33554432 \<and>
    (ix' = 0 \<longleftrightarrow> (unat q')\<^sup>2 = Y)"
  using assms
proof (induction j arbitrary: ix s q r)
  case 0
  note st = root_step[OF 0(1,2,4,5)]
  have r: "r = 1" using 0(1) by (simp add: word_unat_eq_iff)
  have code: "sqrtf_bits ix s q r = (if sint (s + r) \<le> sint ix then (ix - (s + r) + (ix - (s + r)), q + r) else (ix + ix, q))"
    by (subst sqrtf_bits.simps) (simp add: r sqrtf_bits.simps[of _ _ _ 0] Let_def)
  have sq: "(unat q + 1)\<^sup>2 = (unat q)\<^sup>2 + (2 * unat q + 1)" "(unat q + 1 + 1)\<^sup>2 = (unat q)\<^sup>2 + (4 * unat q + 4)"
    by (simp_all add: power2_eq_square algebra_simps)
  show ?case
  proof (cases "2 * unat q + 1 \<le> unat ix")
    case True
    then have "unat (ix - (s + r) + (ix - (s + r))) = 0 \<longleftrightarrow> unat ix = 2 * unat q + 1" using st(6) by simp
    then have "ix - (s + r) + (ix - (s + r)) = 0 \<longleftrightarrow> unat ix = 2 * unat q + 1" by (simp only: unat_eq_zero)
    then show ?thesis using code st(1,3) True 0(3-5) sq by auto
  next
    case False
    then have "ix + ix = 0 \<longleftrightarrow> unat ix = 0" using st(4) by (metis mult_is_0 unat_eq_zero zero_neq_numeral)
    then show ?thesis using code st(1) False 0(3-5) sq by auto
  qed
next
  case (Suc j)
  note st = root_step[OF Suc.prems(1,2,4,5)]
  have r: "r \<noteq> 0" using Suc.prems(1) by auto
  have h: "unat (drop_bit 1 r) = 2 ^ j" using Suc.prems(1) by (simp add: unat_drop_bit_div)
  have code: "sqrtf_bits ix s q r = (if sint (s + r) \<le> sint ix then sqrtf_bits (ix - (s + r) + (ix - (s + r))) (s + r + r) (q + r) (drop_bit 1 r)
      else sqrtf_bits (ix + ix) s q (drop_bit 1 r))"
    by (subst sqrtf_bits.simps) (cases "sint (s + r) \<le> sint ix"; simp only: r Let_def if_True if_False simp_thms prod.case)
  define R :: nat where "R = 2 ^ j"
  have R: "(2 :: nat) ^ Suc j = 2 * R" by (simp add: R_def)
  show ?case
  proof (cases "2 * unat q + 2 ^ Suc j \<le> unat ix")
    case True
    obtain d where d: "unat ix = 2 * unat q + 2 * R + d" using True le_Suc_ex unfolding R by blast
    have "2 * d * R + (unat q + 2 * R)\<^sup>2 = (2 * unat q + 2 * R + d) * (2 * R) + (unat q)\<^sup>2"
      by (simp add: power2_eq_square algebra_simps)
    then have "unat (ix - (s + r) + (ix - (s + r))) * R + (unat (q + r))\<^sup>2 = Y"
      using Suc.prems(3) unfolding st(3) st(6)[OF True] R d by simp
    then have "\<exists>ix' q'. sqrtf_bits (ix - (s + r) + (ix - (s + r))) (s + r + r) (q + r) (drop_bit 1 r) = (ix', q') \<and> (unat q')\<^sup>2 \<le> Y \<and>
        Y < (unat q' + 1)\<^sup>2 \<and> unat q' < 33554432 \<and> (ix' = 0 \<longleftrightarrow> (unat q')\<^sup>2 = Y)"
    proof (intro Suc.IH h)
      show "unat (s + r + r) = 2 * unat (q + r)" unfolding st(2,3) ..
      show "unat (ix - (s + r) + (ix - (s + r))) < 4 * unat (q + r) + 4 * 2 ^ j"
        using Suc.prems(4) unfolding st(3) st(6)[OF True] R R_def[symmetric] d by simp
      show "unat (q + r) + 2 * 2 ^ j \<le> 33554432"
        using Suc.prems(5) unfolding st(3) R R_def[symmetric] by linarith
    qed (simp only: R_def)
    then show ?thesis using code st(1) True by simp
  next
    case False
    have "unat (ix + ix) * R + (unat q)\<^sup>2 = Y" using Suc.prems(3) unfolding st(4) R by simp
    then have "\<exists>ix' q'. sqrtf_bits (ix + ix) s q (drop_bit 1 r) = (ix', q') \<and> (unat q')\<^sup>2 \<le> Y \<and>
        Y < (unat q' + 1)\<^sup>2 \<and> unat q' < 33554432 \<and> (ix' = 0 \<longleftrightarrow> (unat q')\<^sup>2 = Y)"
    proof (intro Suc.IH h)
      show "unat (ix + ix) < 4 * unat q + 4 * 2 ^ j" using False unfolding st(4) R R_def[symmetric] by linarith
      show "unat q + 2 * 2 ^ j \<le> 33554432" using Suc.prems(5) unfolding R R_def[symmetric] by linarith
    qed (use Suc.prems(2) in \<open>simp_all only: R_def\<close>)
    then show ?thesis using code st(1) False by simp
  qed
qed

section \<open>Normalising\<close>

lemma hidden_bit: "unat w < 16777216 \<Longrightarrow> w AND 0x00800000 = 0 \<longleftrightarrow> unat w < 8388608" for w :: u32
proof -
  assume w: "unat w < 16777216"
  have h: "(0x00800000 :: u32) = 2 ^ 23" by simp
  have "w AND 0x00800000 = 0 \<longleftrightarrow> \<not> bit w 23" unfolding h by (rule and_exp_eq_0_iff_not_bit)
  also have "bit w 23 \<longleftrightarrow> bit (unat w) 23" by (simp add: bit_unsigned_iff)
  also have "\<dots> \<longleftrightarrow> odd (unat w div 8388608)" by (simp add: bit_iff_odd)
  also have "\<dots> \<longleftrightarrow> \<not> unat w < 8388608"
  proof (cases "unat w < 8388608")
    case False
    then have "unat w div 8388608 = 1" using w by (intro div_nat_eqI) simp_all
    then show ?thesis using False by simp
  qed simp
  finally show ?thesis by simp
qed

lemma sqrtf_normal_value:
  "unat ix * 2 ^ k < 16777216 \<Longrightarrow> 8388608 \<le> unat ix * 2 ^ k \<Longrightarrow>
    sqrtf_normal ix i = Some (of_nat (unat ix * 2 ^ k), i + of_nat k)"
proof (induction k arbitrary: ix i)
  case 0
  then show ?case by (subst sqrtf_normal.simps) (simp add: hidden_bit)
next
  case (Suc k)
  have "unat ix * 2 \<le> unat ix * 2 ^ Suc k" by simp
  then have b: "unat ix * 2 < 16777216" using Suc.prems(1) by linarith
  then have u: "unat (push_bit 1 ix) = unat ix * 2" using unat_shl1[of ix] by (simp add: mod_less)
  have "sqrtf_normal ix i = sqrtf_normal (push_bit 1 ix) (i + 1)"
    using b by (subst sqrtf_normal.simps) (simp add: hidden_bit)
  also have "\<dots> = Some (of_nat (unat ix * 2 ^ Suc k), i + 1 + of_nat k)"
    using Suc.IH[of "push_bit 1 ix" "i + 1"] Suc.prems unfolding u by (simp add: mult.assoc)
  finally show ?case by (simp add: add_ac)
qed


section \<open>Rounding the root\<close>

lemma odd_root:
  fixes q Y :: nat
  assumes q: "q\<^sup>2 \<le> Y" "Y < (q + 1)\<^sup>2" and Y: "even Y"
  defines "q' \<equiv> if q\<^sup>2 = Y then q else q + q mod 2"
  shows "even q'" "\<bar>real q' - sqrt (real Y)\<bar> < 1" "real q' < sqrt (real Y) \<Longrightarrow> even q \<and> q' = q" "sqrt (real Y) < real q' \<Longrightarrow> odd q \<and> q' = q + 1"
proof -
  have lo: "real q \<le> sqrt (real Y)" using q(1) by (intro real_le_rsqrt) (simp flip: of_nat_power)
  have hi: "sqrt (real Y) < real q + 1"
  proof (rule real_less_lsqrt)
    have "real Y < real ((q + 1)\<^sup>2)" using q(2) by (simp only: of_nat_less_iff)
    then show "real Y < (real q + 1)\<^sup>2" by (simp add: add.commute)
  qed simp_all
  have ex: "q\<^sup>2 = Y \<longleftrightarrow> sqrt (real Y) = real q"
    by (metis abs_of_nat of_nat_eq_iff of_nat_power real_sqrt_abs real_sqrt_eq_iff)
  have ev: "q\<^sup>2 = Y \<Longrightarrow> even q" using Y by auto
  show "even q'" using ev by (auto simp: q'_def)
  have m: "q mod 2 = (if even q then 0 else 1)" by (simp add: odd_iff_mod_2_eq_one even_iff_mod_2_eq_zero)
  consider "q\<^sup>2 = Y" | "q\<^sup>2 \<noteq> Y" "even q" | "q\<^sup>2 \<noteq> Y" "odd q" by blast
  then have "\<bar>real q' - sqrt (real Y)\<bar> < 1 \<and> (real q' < sqrt (real Y) \<longrightarrow> even q \<and> q' = q) \<and> (sqrt (real Y) < real q' \<longrightarrow> odd q \<and> q' = q + 1)"
  proof cases
    case 1 then show ?thesis using ex by (simp add: q'_def)
  next
    case 2 then show ?thesis using lo hi by (simp add: q'_def m)
  next
    case 3 then show ?thesis using lo hi ex by (simp add: q'_def m)
  qed
  then show "\<bar>real q' - sqrt (real Y)\<bar> < 1" "real q' < sqrt (real Y) \<Longrightarrow> even q \<and> q' = q" "sqrt (real Y) < real q' \<Longrightarrow> odd q \<and> q' = q + 1"
    by blast+
qed

lemma root_nearest:
  fixes q Y e :: nat
  assumes q: "q\<^sup>2 \<le> Y" "Y < (q + 1)\<^sup>2" "16777216 \<le> q" "q < 33554432" and Y: "even Y" and e: "1 \<le> e"
  defines "Q \<equiv> (if q\<^sup>2 = Y then q else q + q mod 2) div 2"
  defines "R \<equiv> enc_mag 24 (e * 2 ^ 23 + (Q - 2 ^ 23))" and "S \<equiv> sqrt (real Y) * 2 ^ (e - 1) / 2"
  shows "R = Q * 2 ^ (e - 1)" "8388608 \<le> Q" "Q \<le> 16777216"
    "enc_mag 24 y \<noteq> R \<Longrightarrow> \<bar>real R - S\<bar> < \<bar>real (enc_mag 24 y) - S\<bar>"
proof -
  define q' where "q' = (if q\<^sup>2 = Y then q else q + q mod 2)"
  note o = odd_root[OF q(1,2) Y, folded q'_def]
  have Q: "q' = 2 * Q" using o(1) by (simp add: Q_def q'_def)
  have "q mod 2 \<le> 1" by presburger
  then have "q \<le> q'" "q' \<le> q + 1" by (simp_all add: q'_def)
  then show Qb: "8388608 \<le> Q" "Q \<le> 16777216" using q(3,4) Q by linarith+
  show R: "R = Q * 2 ^ (e - 1)" unfolding R_def by (subst enc_mag_at) (use e Qb in simp_all)
  have up: "Suc (e * 2 ^ 23 + (Q - 2 ^ 23)) = e * 2 ^ 23 + (Q + 1 - 2 ^ 23)" using Qb(1) by simp
  have next_up: "Q < 16777216 \<Longrightarrow> enc_mag 24 (Suc (e * 2 ^ 23 + (Q - 2 ^ 23))) = (Q + 1) * 2 ^ (e - 1)"
    unfolding up by (subst enc_mag_at) (use e Qb in simp_all)
  have next_down: "enc_mag 24 (e * 2 ^ 23 + (Q - 2 ^ 23) - 1) = (Q - 1) * 2 ^ (e - 1)" if "8388608 < Q"
  proof -
    have "e * 2 ^ 23 + (Q - 2 ^ 23) - 1 = e * 2 ^ 23 + (Q - 1 - 2 ^ 23)" using that by simp
    then show ?thesis using that enc_mag_at[of e "Q - 1 - 2 ^ 23"] e Qb by simp
  qed
  assume ne: "enc_mag 24 y \<noteq> R"
  define a K where "a = sqrt (real Y)" and "K = (2 :: real) ^ (e - 1)"
  have K: "0 < K" by (simp add: K_def)
  have RS: "real R - S = (real q' - a) * K / 2" unfolding R S_def Q a_def K_def by (simp add: field_simps)
  have half: "\<bar>(real q' - a) * K / 2\<bar> < K / 2" using o(2) K by (simp add: abs_mult a_def)
  consider "a = real q'" | "a < real q'" "enc_mag 24 y > R" | "a < real q'" "enc_mag 24 y < R"
    | "real q' < a" "enc_mag 24 y < R" | "real q' < a" "enc_mag 24 y > R" using ne by linarith
  then show "\<bar>real R - S\<bar> < \<bar>real (enc_mag 24 y) - S\<bar>"
  proof cases
    case 1
    then have "real R = S" using RS by simp
    then show ?thesis using ne by auto
  next
    case 2
    then have "S < real R" using RS K by (metis diff_gt_0_iff_gt half_gt_zero mult_pos_pos)
    then show ?thesis using 2(2) by linarith
  next
    case 3
    then have "odd q" "q' = q + 1" using o(4) by (simp_all add: a_def)
    then have "8388608 < Q" using q(3) Q by presburger
    note nd = next_down[OF this]
    have "y < e * 2 ^ 23 + (Q - 2 ^ 23)" using 3(2) enc_mag_mono unfolding R_def by blast
    then have "y \<le> e * 2 ^ 23 + (Q - 2 ^ 23) - 1" by linarith
    then have "enc_mag 24 y \<le> (Q - 1) * 2 ^ (e - 1)" unfolding nd[symmetric] using enc_mag_mono by (metis le_less)
    moreover have "Q * 2 ^ (e - 1) = (Q - 1) * 2 ^ (e - 1) + 2 ^ (e - 1)"
    proof -
      have "(Q - 1) + 1 = Q" using \<open>8388608 < Q\<close> by linarith
      then show ?thesis by (metis add_mult_distrib mult_1)
    qed
    ultimately have "enc_mag 24 y + 2 ^ (e - 1) \<le> R" unfolding R by linarith
    then have "real (enc_mag 24 y + 2 ^ (e - 1)) \<le> real R" by (simp only: of_nat_le_iff)
    then have "real (enc_mag 24 y) + K \<le> real R" by (simp add: K_def)
    then show ?thesis using RS half 3(1) by linarith
  next
    case 4
    then have "real R < S" using RS K by (metis diff_less_0_iff_less divide_less_0_iff mult_less_0_iff zero_less_numeral not_less_iff_gr_or_eq)
    then show ?thesis using 4(2) by linarith
  next
    case 5
    then have "even q" "q' = q" using o(3) by (simp_all add: a_def)
    then have "Q < 16777216" using q(4) Q by presburger
    note nu = next_up[OF this]
    have "e * 2 ^ 23 + (Q - 2 ^ 23) < y" using 5(2) enc_mag_mono unfolding R_def by blast
    then have "Suc (e * 2 ^ 23 + (Q - 2 ^ 23)) \<le> y" by linarith
    then have "(Q + 1) * 2 ^ (e - 1) \<le> enc_mag 24 y" unfolding nu[symmetric] using enc_mag_mono by (metis le_less)
    then have "R + 2 ^ (e - 1) \<le> enc_mag 24 y" unfolding R by simp
    then have "real (R + 2 ^ (e - 1)) \<le> real (enc_mag 24 y)" by (simp only: of_nat_le_iff)
    then have "real R + K \<le> real (enc_mag 24 y)" by (simp add: K_def)
    then show ?thesis using RS half 5(1) by linarith
  qed
qed


section \<open>The function\<close>

text \<open>The exponent and significand of a positive number: \<open>x = w * 2\<^sup>e\<^sup>-\<^sup>1\<close> units with \<open>w\<close> of 24 bits.\<close>

lemma sqrtf_normalised:
  assumes x: "expF32UI x < 255" "\<not> signF32UI x" "f32_mag x \<noteq> 0"
  defines "m \<equiv> signed_drop_bit 23 x"
  obtains ix E where "(if m = 0 then map_option (\<lambda>(ix, i). (ix, m - (i - 1))) (sqrtf_normal x 0) else Some (x, m)) = Some (ix, word_of_int E)"
    "- 22 \<le> E" "E \<le> 254" "8388608 \<le> unat ((ix AND 0x007FFFFF) OR 0x00800000)" "unat ((ix AND 0x007FFFFF) OR 0x00800000) < 16777216"
    "f32_mag x * 2 ^ nat (1 - E) = unat ((ix AND 0x007FFFFF) OR 0x00800000) * 2 ^ nat (E - 1)"
proof -
  have "unat x < 2147483648" using x(2) by (simp add: signF32UI_value)
  then have xx: "unat x = nat (expF32UI x) * 8388608 + unat (fracF32UI x)" using mod_split[of x] by simp
  have um: "unat m = nat (expF32UI x)"
  proof -
    have "\<not> bit x 31" using x(2) by (simp add: signF32UI_bit)
    then have "m = drop_bit 23 x" unfolding m_def by (intro bit_word_eqI) (auto simp: bit_simps dest: bit_imp_le_length)
    then show ?thesis using frac_less[of x] by (simp add: unat_drop_bit_div xx)
  qed
  then have m: "m = word_of_int (expF32UI x)" using exp_range(1)[of x] by (metis int_nat_eq of_int_of_nat_eq of_nat_unat ucast_id)
  from um have m0: "m = 0 \<longleftrightarrow> expF32UI x = 0" using exp_range(1)[of x] by (metis nat_0_iff antisym unat_eq_zero order_refl)
  show thesis
  proof (cases "expF32UI x = 0")
    case True
    define n where "n = unat (fracF32UI x)"
    have n: "unat x = n" "f32_mag x = n" "0 < n" "n < 2 ^ 23" using x(3) True xx frac_less[of x] by (simp_all add: f32_mag_value n_def)
    define k where "k = 24 - nbits n"
    have k: "n * 2 ^ k < 16777216" "8388608 \<le> n * 2 ^ k" "k \<le> 23"
    proof -
      define b where "b = nbits n"
      have b: "1 \<le> b" "b \<le> 23" using n(3,4) nbits_le[of n 23] nbits_le[of n 0] by (auto simp: b_def)
      have "\<not> n < 2 ^ (b - 1)" using nbits_le[of n "b - 1"] b unfolding b_def by linarith
      then have lo: "2 ^ (b - 1) * 2 ^ k \<le> n * 2 ^ k" by simp
      have "n < 2 ^ b" using nbits_le[of n b] by (simp add: b_def)
      then have hi: "n * 2 ^ k < 2 ^ b * 2 ^ k" by simp
      have p: "(2 :: nat) ^ (b - 1) * 2 ^ k = 2 ^ 23" "(2 :: nat) ^ b * 2 ^ k = 2 ^ 24"
        unfolding power_add[symmetric] using b by (simp_all add: k_def b_def[symmetric])
      show "n * 2 ^ k < 16777216" "8388608 \<le> n * 2 ^ k" "k \<le> 23" using lo hi b unfolding p by (simp_all add: k_def b_def)
    qed
    have s: "sqrtf_normal x 0 = Some (of_nat (n * 2 ^ k), of_nat k)"
      using sqrtf_normal_value[of x k 0] k n(1) by simp
    have u: "unat (of_nat (n * 2 ^ k) AND 0x007FFFFF OR 0x00800000 :: u32) = n * 2 ^ k"
    proof -
      have "n * 2 ^ k mod 8388608 = n * 2 ^ k - 8388608" using k(1,2) by (simp add: le_mod_geq)
      moreover have "unat (of_nat (n * 2 ^ k) :: u32) = n * 2 ^ k" using k(1) by (intro unat_of_nat32) simp
      ultimately show ?thesis
        using unat_hidden32[of "of_nat (n * 2 ^ k)"] k(2) fracF32UI_value[of "of_nat (n * 2 ^ k)"] by (simp add: fracF32UI_def)
    qed
    have "m - (of_nat k - 1) = (word_of_int (1 - int k) :: u32)" using m0 True by simp
    then show thesis using that[of "of_nat (n * 2 ^ k)" "1 - int k"] m0 True s k u n(2) by simp
  next
    case False
    have "unat ((x AND 0x007FFFFF) OR 0x00800000) = 8388608 + unat (fracF32UI x)"
      using unat_hidden32[of x] by (simp add: fracF32UI_def)
    then show thesis using that[of x "expF32UI x"] m0 False m x(1) exp_range[of x] frac_less[of x] by (simp add: f32_mag_value)
  qed
qed


lemma sqrtf_guard:
  "float_ge (f32_sub 0x3F800000 0x0DA24260) 0x3F800000" "\<not> float_gt (f32_add 0x3F800000 0x0DA24260) 0x3F800000"
  by code_simp+

text \<open>The code from the normalised significand on.\<close>

definition sqrtf_root :: "u32 \<Rightarrow> u32 \<Rightarrow> u32" where
  "sqrtf_root ix m =
     (let ix = (if m AND 1 \<noteq> 0 then ix + ix else ix); (ix, q) = sqrtf_bits (ix + ix) 0 0 0x01000000;
          q = (if ix \<noteq> 0 then q + (q AND 1) else q)
      in signed_drop_bit 1 q + 0x3F000000 + push_bit 23 (signed_drop_bit 1 m))"

lemma exp_all: "x AND 0x7F800000 = 0x7F800000 \<longleftrightarrow> expF32UI x = 255"
proof
  assume h: "x AND 0x7F800000 = 0x7F800000"
  show "expF32UI x = 255" using exp_field[of x] unfolding h by (simp add: float_exponent_value)
next
  assume "expF32UI x = 255"
  then have "int (unat (drop_bit 23 x AND 0xFF)) = 255" by (simp add: expF32UI_def)
  then have "unat (drop_bit 23 x AND 0xFF) = 255" by linarith
  then have e: "drop_bit 23 x AND 0xFF = 0xFF" by (simp add: word_unat_eq_iff)
  have m: "(0x7F800000 :: u32) = push_bit 23 (mask 8)" "(0xFF :: u32) = mask 8"
    by (simp_all add: mask_eq_exp_minus_1 push_bit_eq_mult)
  have "x AND push_bit 23 (mask 8) = push_bit 23 (drop_bit 23 x AND mask 8)"
    by (rule bit_word_eqI) (auto simp: bit_simps simp del: mask_numeral)
  then show "x AND 0x7F800000 = 0x7F800000" using e unfolding m by (simp only:)
qed

lemma sqrtf_code:
  assumes "expF32UI x < 255" "\<not> signF32UI x" "f32_mag x \<noteq> 0"
    "(if signed_drop_bit 23 x = 0 then map_option (\<lambda>(ix, i). (ix, signed_drop_bit 23 x - (i - 1))) (sqrtf_normal x 0)
      else Some (x, signed_drop_bit 23 x)) = Some (ix, m)"
  shows "sqrtf x = Some (sqrtf_root ((ix AND 0x007FFFFF) OR 0x00800000) (m - 127))"
proof -
  have p: "\<not> sint x \<le> 0" "\<not> sint x < 0"
    using code_bits(2,3)[of x] assms(2,3) by (metis linorder_not_less order_le_less signed_eq_0_iff)+
  have e: "x AND 0x7F800000 \<noteq> 0x7F800000" using exp_all[of x] assms(1) by simp
  show ?thesis unfolding sqrtf_def Let_def assms(4) option.case prod.case
    using p e sqrtf_guard by (simp add: sqrtf_root_def Let_def split: prod.split)
qed

lemma halved:
  assumes "- 149 \<le> M" "M \<le> 127"
  shows "(word_of_int M :: u32) AND 1 \<noteq> 0 \<longleftrightarrow> odd M" "signed_drop_bit 1 (word_of_int M :: u32) = word_of_int (M div 2)"
proof -
  have s: "sint (word_of_int M :: u32) = M" using assms by (simp add: signed_of_int signed_take_bit_int_eq_self)
  show "(word_of_int M :: u32) AND 1 \<noteq> 0 \<longleftrightarrow> odd M"
    using and_exp_eq_0_iff_not_bit[of "word_of_int M :: u32" 0] bit_word_of_int_iff[of M 0, where 'a = 32]
    by (simp add: bit_0 del: and_one_eq)
  have "sint (signed_drop_bit 1 (word_of_int M :: u32)) = M div 2" by (simp add: sint_signed_drop_bit_eq s drop_bit_eq_div)
  moreover have "sint (word_of_int (M div 2) :: u32) = M div 2"
    using assms by (simp add: signed_of_int signed_take_bit_int_eq_self)
  ultimately show "signed_drop_bit 1 (word_of_int M :: u32) = word_of_int (M div 2)" by (metis of_int_sint scast_id)
qed


lemma sqrtf_root_value:
  fixes W :: u32 and E :: int
  assumes W: "8388608 \<le> unat W" "unat W < 16777216" and E: "- 22 \<le> E" "E \<le> 254"
    and N: "N * 2 ^ nat (1 - E) = unat W * 2 ^ nat (E - 1)"
  defines "r \<equiv> sqrtf_root W (word_of_int E - 127)"
  shows "expF32UI r < 255 \<and> \<not> signF32UI r \<and>
    (\<forall>y. enc_mag 24 y \<noteq> f32_mag r \<longrightarrow> \<bar>real (f32_mag r) - sqrt (real N * 2 ^ 149)\<bar> < \<bar>real (enc_mag 24 y) - sqrt (real N * 2 ^ 149)\<bar>)"
proof -
  define M where "M = E - 127"
  have M: "- 149 \<le> M" "M \<le> 127" and mw: "(word_of_int E - 127 :: u32) = word_of_int M" using E by (simp_all add: M_def)
  define b where "b = (if odd M then 2 else 1 :: nat)"
  define ix where "ix = (if odd M then W + W else W) + (if odd M then W + W else W)"
  have ix: "unat ix = unat W * 2 ^ b" using W by (auto simp only: ix_def b_def unat_plus_if' split: if_splits) simp_all
  define Y where "Y = unat ix * 2 ^ 24"
  have "\<exists>ix' q. sqrtf_bits ix 0 0 0x01000000 = (ix', q) \<and> (unat q)\<^sup>2 \<le> Y \<and> Y < (unat q + 1)\<^sup>2 \<and> unat q < 33554432 \<and>
    (ix' = 0 \<longleftrightarrow> (unat q)\<^sup>2 = Y)"
    by (rule sqrtf_bits_value[of _ 24]) (use W in \<open>simp_all add: Y_def ix b_def\<close>)
  then obtain ix' q where q: "sqrtf_bits ix 0 0 0x01000000 = (ix', q)" "(unat q)\<^sup>2 \<le> Y" "Y < (unat q + 1)\<^sup>2" "unat q < 33554432"
    "ix' = 0 \<longleftrightarrow> (unat q)\<^sup>2 = Y" by blast
  have Y: "even Y" "2 ^ 48 \<le> Y" using W by (simp_all add: Y_def ix b_def)
  have qlo: "16777216 \<le> unat q"
  proof (rule ccontr)
    assume "\<not> ?thesis"
    then have "(unat q + 1)\<^sup>2 \<le> 16777216\<^sup>2" by (intro power_mono) simp_all
    then show False using q(3) Y(2) by simp
  qed
  define e where "e = nat (127 + M div 2)"
  have md: "- 75 \<le> M div 2" "M div 2 \<le> 63" using M by linarith+
  have e: "1 \<le> e" "int e = 127 + M div 2" "e \<le> 190" using md by (simp_all add: e_def)
  note near = root_nearest[OF q(2,3) qlo q(4) Y(1) e(1)]
  define Q where "Q = (if (unat q)\<^sup>2 = Y then unat q else unat q + unat q mod 2) div 2"
  define q' where "q' = (if ix' \<noteq> 0 then q + (q AND 1) else q)"
  have q1: "unat (q AND 1) = unat q mod 2" using unat_and_low[of q 1] by simp
  have q': "unat q' = (if (unat q)\<^sup>2 = Y then unat q else unat q + unat q mod 2)"
  proof -
    have "unat q mod 2 \<le> 1" by presburger
    then show ?thesis unfolding q'_def using q(4,5) q1 by (simp add: unat_plus_if')
  qed
  have h: "unat (drop_bit 1 q') = Q" by (simp add: unat_drop_bit_div q' Q_def)
  have "unat q' div 2 < 1073741824" using near(3)[folded Q_def] unfolding q'[symmetric] by (simp add: Q_def q')
  then have "\<not> bit q' 31" using signF32UI_bit[of q'] signF32UI_value[of q'] by linarith
  then have "signed_drop_bit 1 q' = drop_bit 1 q'" by (intro bit_word_eqI) (auto simp: bit_simps dest: bit_imp_le_length)
  then have "r = drop_bit 1 q' + 0x3F000000 + push_bit 23 (word_of_int (M div 2))"
    unfolding r_def sqrtf_root_def mw halved[OF M] Let_def ix_def[symmetric] q(1) prod.case q'_def[symmetric] by simp
  also have "\<dots> = word_of_int (int Q) + word_of_int 1056964608 + word_of_int (M div 2 * 8388608)"
    using h by (simp add: push_bit_eq_mult) (metis of_nat_unat ucast_id)
  also have "\<dots> = word_of_int (int (e * 8388608 + (Q - 8388608)))"
    using near(2)[folded Q_def] by (simp add: e(2) of_nat_diff)
  finally have rn: "r = of_nat (e * 8388608 + (Q - 8388608))" by (simp only: of_int_of_nat_eq)
  have "unat r = e * 8388608 + (Q - 8388608)"
    unfolding rn by (intro unat_of_nat32) (use near(2,3)[folded Q_def] e(3) in simp)
  then have ur: "unat r = e * 2 ^ 23 + (Q - 2 ^ 23)" by simp
  have um: "unat r mod 2147483648 = e * 2 ^ 23 + (Q - 2 ^ 23)" unfolding ur using near(2,3)[folded Q_def] e(3) by simp
  have mag: "f32_mag r = enc_mag 24 (e * 2 ^ 23 + (Q - 2 ^ 23))" unfolding f32_mag_def um ..
  have S: "sqrt (real N * 2 ^ 149) = sqrt (real Y) * 2 ^ (e - 1) / 2"
  proof (rule real_sqrt_unique)
    have "4 * (N * 2 ^ 149) * 2 ^ nat (1 - E) = unat W * 2 ^ nat (E - 1) * 2 ^ 151" using N by simp
    also have "\<dots> = unat W * 2 ^ (b + 24) * 2 ^ (2 * (e - 1)) * 2 ^ nat (1 - E)"
    proof -
      have "nat (E - 1) + 151 = b + 24 + 2 * (e - 1) + nat (1 - E)"
      proof -
        have "M = 2 * (M div 2) + int b - 1" by (simp add: b_def) presburger
        then show ?thesis using e(1,2) M_def by linarith
      qed
      then show ?thesis unfolding mult.assoc power_add[symmetric] by (simp only: add.assoc)
    qed
    also have "unat W * 2 ^ (b + 24) = Y" by (simp add: Y_def ix power_add)
    finally have "4 * (N * 2 ^ 149) = Y * 2 ^ (2 * (e - 1))" by simp
    then have "real (4 * (N * 2 ^ 149)) = real (Y * 2 ^ (2 * (e - 1)))" by (simp only:)
    then show "(sqrt (real Y) * 2 ^ (e - 1) / 2)\<^sup>2 = real N * 2 ^ 149"
      by (simp add: power_mult_distrib power_divide power_mult[symmetric] mult.commute[of _ 2])
  qed simp
  show ?thesis
    unfolding S mag using near(2-4)[folded Q_def] e(3) um ur by (auto simp: f32_finite signF32UI_value)
qed


text \<open>C22: \<open>sqrtf\<close> always returns.  The root of a positive number, subnormal or not, is the single number nearest to its real
  square root, a tie being impossible; both zeros and the positive infinity are their own roots, and a NaN or a negative
  number has no root, which is a NaN.\<close>

theorem sqrtf_correct:
  "\<exists>r. sqrtf x = Some r \<and>
    (if isNaNF32UI x \<or> signF32UI x \<and> f32_mag x \<noteq> 0 then isNaNF32UI r
     else if f32_mag x = 0 \<or> expF32UI x = 255 then r = x
     else expF32UI r < 255 \<and> \<not> signF32UI r \<and>
       (\<forall>c. f32_mag c \<noteq> f32_mag r \<longrightarrow>
         \<bar>real (f32_mag r) - sqrt (real (f32_mag x) * 2 ^ 149)\<bar> < \<bar>real (f32_mag c) - sqrt (real (f32_mag x) * 2 ^ 149)\<bar>))"
proof -
  have nan: "isNaNF32UI defaultNaNF32UI" by code_simp
  have n: "(NOT 0x80000000 :: u32) = 0x7FFFFFFF" by code_simp
  consider "expF32UI x = 255" | "expF32UI x < 255" "f32_mag x = 0" | "expF32UI x < 255" "f32_mag x \<noteq> 0" "signF32UI x"
    | "expF32UI x < 255" "f32_mag x \<noteq> 0" "\<not> signF32UI x" using exp_range(2)[of x] by linarith
  then show ?thesis
  proof cases
    case 1
    have code: "sqrtf x = Some (f32_add (f32_mul x x) x)" using exp_all[of x] 1 by (simp add: sqrtf_def)
    show ?thesis
    proof (cases "fracF32UI x = 0")
      case True
      then have inf: "\<not> isNaNF32UI x" "f32_mag x \<noteq> 0" using 1 by (simp_all add: isNaNF32UI_fields f32_mag_value)
      have "x = (if signF32UI x then 0xFF800000 else 0x7F800000)"
        by (subst f32_from_fields[of x]) (simp add: True 1)
      moreover have "isNaNF32UI (f32_add (f32_mul 0xFF800000 0xFF800000) 0xFF800000)"
        "f32_add (f32_mul 0x7F800000 0x7F800000) 0x7F800000 = 0x7F800000" by code_simp+
      ultimately show ?thesis using code inf 1 by (cases "signF32UI x") simp_all
    next
      case False
      then have n: "isNaNF32UI x" using 1 by (simp add: isNaNF32UI_fields)
      then have "f32_add (f32_mul x x) x = defaultNaNF32UI" using f32_nan_operand(1)[of "f32_mul x x" x] by blast
      then show ?thesis using code n nan by simp
    qed
  next
    case 2
    have "sint x \<le> 0" using code_bits(2,3)[of x] 2(2) by (metis order_le_less signed_eq_0_iff)
    moreover have "x AND NOT 0x80000000 = 0" unfolding n using code_bits(1)[of x] 2(2) by blast
    moreover have "x AND 0x7F800000 \<noteq> 0x7F800000" using exp_all[of x] 2(1) by simp
    ultimately have "sqrtf x = Some x" by (simp add: sqrtf_def Let_def)
    moreover have "\<not> isNaNF32UI x" using 2(1) by (simp add: isNaNF32UI_fields)
    ultimately show ?thesis using 2 by simp
  next
    case 3
    have s: "sint x < 0" "x AND NOT 0x80000000 \<noteq> 0" "x AND 0x7F800000 \<noteq> 0x7F800000"
      unfolding n using code_bits(1,2)[of x] exp_all[of x] 3 by simp_all
    have "f32_sub x x = 0"
      using 3(1) by (simp add: f32_sub_value f32_sum_def f32_val_neg f32_neg(2))
    moreover have "isNaNF32UI (f32_div 0 0)" by code_simp
    ultimately have "sqrtf x = Some (f32_div 0 0)" "isNaNF32UI (f32_div 0 0)" using s by (simp_all add: sqrtf_def Let_def)
    then show ?thesis using 3 by simp
  next
    case 4
    obtain ix E where n: "(if signed_drop_bit 23 x = 0 then map_option (\<lambda>(ix, i). (ix, signed_drop_bit 23 x - (i - 1))) (sqrtf_normal x 0)
        else Some (x, signed_drop_bit 23 x)) = Some (ix, word_of_int E)" "- 22 \<le> E" "E \<le> 254"
      "8388608 \<le> unat ((ix AND 0x007FFFFF) OR 0x00800000)" "unat ((ix AND 0x007FFFFF) OR 0x00800000) < 16777216"
      "f32_mag x * 2 ^ nat (1 - E) = unat ((ix AND 0x007FFFFF) OR 0x00800000) * 2 ^ nat (E - 1)"
      using sqrtf_normalised[OF 4(1,3,2)] by blast
    note code = sqrtf_code[OF 4(1,3,2) n(1)] and v = sqrtf_root_value[OF n(4,5,2,3,6)]
    have "\<not> isNaNF32UI x" using 4(1) by (simp add: isNaNF32UI_fields)
    then show ?thesis using code v 4 by (auto simp: f32_mag_def[of "_ :: u32"])
  qed
qed

theorem sqrtf_correct_witness:
  "sqrtf 0x40000000 = Some 0x3FB504F3 \<and>
   \<bar>real (f32_mag 0x3FB504F3) - sqrt (real (f32_mag 0x40000000) * 2 ^ 149)\<bar>
     < \<bar>real (f32_mag 0x3FB504F4) - sqrt (real (f32_mag 0x40000000) * 2 ^ 149)\<bar>"
proof -
  have r: "sqrtf 0x40000000 = Some 0x3FB504F3" by code_simp
  have f: "expF32UI 0x40000000 = 128" "\<not> signF32UI 0x40000000" "f32_mag 0x40000000 = 8388608 * 2 ^ 127"
    "f32_mag 0x3FB504F4 \<noteq> f32_mag 0x3FB504F3"
    by (simp_all add: expF32UI_value signF32UI_value fracF32UI_value f32_mag_value)
  then have n: "\<not> isNaNF32UI 0x40000000" "f32_mag 0x40000000 \<noteq> 0" "expF32UI 0x40000000 \<noteq> 255"
    by (simp_all add: isNaNF32UI_fields)
  show ?thesis using sqrtf_correct[of "0x40000000"] r n f(2,4) by simp
qed

end
