(* ===== verification/MathD.thy ===== *)
theory MathD
  imports SfF64Arith LongLong
begin

text \<open>
  The mathematical library sees a double as two 32-bit words (\<^verbatim>\<open>lib/runtime/src/math_private.h\<close>).  This theory holds the
  access macros and relates arithmetic on the pair to arithmetic on the 64-bit pattern.
\<close>

definition compose_ll :: "u32 \<Rightarrow> u32 \<Rightarrow> u64" where
  "compose_ll h l = push_bit 32 (ucast h) OR ucast l"

definition EXTRACT_WORDS :: "u64 \<Rightarrow> u32 \<times> u32" where
  "EXTRACT_WORDS d = (ucast (drop_bit 32 d), ucast d)"

definition INSERT_WORDS :: "u32 \<Rightarrow> u32 \<Rightarrow> u64" where
  "INSERT_WORDS ix0 ix1 = compose_ll ix0 ix1"

section \<open>The pair as a number\<close>

lemma compose_join: "compose_ll h l = join64 (mk_dint l h)"
  by (rule bit_word_eqI) (auto simp: compose_ll_def bit_join64 bit_simps dest: bit_imp_le_length)

lemma compose_value: "unat (compose_ll h l) = unat h * 4294967296 + unat l"
  by (simp add: compose_join unat_join64)

lemma compose_words: "compose_ll (ucast (drop_bit 32 d)) (ucast d) = d"
  unfolding compose_ll_def by (rule join_halves)

lemma extract_value:
  assumes "EXTRACT_WORDS d = (h, l)"
  shows "unat d = unat h * 4294967296 + unat l" "compose_ll h l = d"
    "unat h = unat d div 4294967296" "unat l = unat d mod 4294967296"
proof -
  have d: "h = ucast (drop_bit 32 d)" "l = ucast d" using assms by (simp_all add: EXTRACT_WORDS_def)
  show c: "compose_ll h l = d" unfolding d by (rule compose_words)
  then show v: "unat d = unat h * 4294967296 + unat l" using compose_value[of h l] by simp
  show "unat h = unat d div 4294967296" "unat l = unat d mod 4294967296" unfolding v using u32_bound[of l] by simp_all
qed

lemma compose_zero: "h OR l = 0 \<longleftrightarrow> unat (compose_ll h l) = 0"
  unfolding compose_value by (auto simp: or_eq_0_iff unat_eq_zero)

lemma compose_sub: "compose_ll (h - h' - of_bool (l < l')) (l - l') = compose_ll h l - compose_ll h' l'"
  unfolding compose_join by (rule join64_sub)

lemma compose_double: "compose_ll (h + h + drop_bit 31 l) (l + l) = compose_ll h l + compose_ll h l"
proof -
  have "drop_bit 31 l = of_bool (l + l < l)"
  proof -
    have "unat l div 2147483648 < 2" using u32_bound[of l] by (simp add: less_mult_imp_div_less)
    then have "unat l div 2147483648 = (if 2147483648 \<le> unat l then 1 else 0)"
      by (cases "2147483648 \<le> unat l") (simp_all add: div_nat_eqI u32_bound)
    moreover have "l + l < l \<longleftrightarrow> 2147483648 \<le> unat l"
      unfolding word_less_nat_alt unat_plus_if' using u32_bound[of l] by auto
    ultimately show ?thesis by (simp add: word_unat_eq_iff unat_drop_bit_div)
  qed
  then show ?thesis unfolding compose_join join64_add[symmetric] by simp
qed

lemma compose_double_value:
  "unat (compose_ll h l) < 9223372036854775808 \<Longrightarrow>
    unat (compose_ll (h + h + drop_bit 31 l) (l + l)) = 2 * unat (compose_ll h l)"
  unfolding compose_double unat_plus_if' by simp

lemma compose_shift:
  "1 \<le> n \<Longrightarrow> n \<le> 31 \<Longrightarrow> compose_ll (push_bit n h OR drop_bit (32 - n) l) (push_bit n l) = push_bit n (compose_ll h l)"
proof (rule bit_word_eqI)
  fix i assume n: "1 \<le> n" "n \<le> 31" and i: "i < LENGTH(64)"
  have "32 - n + (i - 32) = i - n" if "32 \<le> i" using n that by linarith
  moreover have "i - 32 - n = i - n - 32" by simp
  ultimately show "bit (compose_ll (push_bit n h OR drop_bit (32 - n) l) (push_bit n l)) i \<longleftrightarrow> bit (push_bit n (compose_ll h l)) i"
    using n i by (auto simp: compose_ll_def bit_simps dest: bit_imp_le_length)
qed

lemma compose_shift_far: "32 \<le> n \<Longrightarrow> compose_ll (push_bit (n - 32) l) 0 = push_bit n (compose_ll 0 l)"
  by (rule bit_word_eqI) (auto simp: compose_ll_def bit_simps dest: bit_imp_le_length)

lemma compose_drop:
  "1 \<le> n \<Longrightarrow> n \<le> 31 \<Longrightarrow> compose_ll (drop_bit n h) (drop_bit n l OR push_bit (32 - n) h) = drop_bit n (compose_ll h l)"
proof (rule bit_word_eqI)
  fix i assume n: "1 \<le> n" "n \<le> 31" and i: "i < LENGTH(64)"
  have e: "i - (32 - n) = n + i - 32" using n by linarith
  show "bit (compose_ll (drop_bit n h) (drop_bit n l OR push_bit (32 - n) h)) i \<longleftrightarrow> bit (drop_bit n (compose_ll h l)) i"
  proof (cases "32 \<le> i")
    case True
    then have "n + (i - 32) = n + i - 32" by simp
    then show ?thesis using n i True by (auto simp: compose_ll_def bit_simps dest: bit_imp_le_length)
  next
    case False
    then show ?thesis using n i e by (auto simp: compose_ll_def bit_simps dest: bit_imp_le_length)
  qed
qed

lemma compose_drop_far: "32 \<le> n \<Longrightarrow> compose_ll 0 (drop_bit (n - 32) h) = drop_bit n (compose_ll h l)"
  by (rule bit_word_eqI) (auto simp: compose_ll_def bit_simps dest: bit_imp_le_length)

lemma compose_sign: "sint h < 0 \<longleftrightarrow> 9223372036854775808 \<le> unat (compose_ll h l)"
  using u32_bound[of l] u32_bound[of h] sint_neg_iff[of h] unfolding compose_value by (auto simp: sint_eq_cases)

end
