(* ===== verification/MathMod.thy ===== *)
theory MathMod
  imports MathD
begin

text \<open>
  \<^verbatim>\<open>fmod\<close> of \<^verbatim>\<open>lib/runtime/src/math.c\<close>: long division on a pair of words.  The remainder is exact.
\<close>

declare of_nat_unat [simp del]

section \<open>The code\<close>

text \<open>The loop \<open>for (; i > 0; i <<= 1) ix -= 1\<close>, and the exponent of a positive number.\<close>

function log_loop :: "int \<Rightarrow> u32 \<Rightarrow> int" where
  "log_loop ix i = (if 0 < sint i then log_loop (ix - 1) (push_bit 1 i) else ix)"
  by pat_completeness auto
termination
proof (relation "measure (\<lambda>(ix, i). 4294967296 - unat i)")
  fix ix :: int and i :: u32
  assume "0 < sint i"
  then have "0 < unat i" "unat i < 2147483648" using sint_eq_cases[of i] u32_bound[of i] by (auto split: if_splits)
  moreover from this have "unat (push_bit 1 i) = 2 * unat i" using unat_shl1[of i] by simp
  ultimately show "((ix - 1, push_bit 1 i), (ix, i)) \<in> measure (\<lambda>(ix, i). 4294967296 - unat i)" by simp
qed simp

declare log_loop.simps [simp del]

definition fmod_log :: "u32 \<Rightarrow> u32 \<Rightarrow> int" where
  "fmod_log hx lx =
     (if sint hx < 0x00100000
      then if hx = 0 then log_loop (- 1043) lx else log_loop (- 1022) (push_bit 11 hx)
      else drop_bit 20 (sint hx) - 1023)"

text \<open>The significand with its leading bit at place 20 of the high word.\<close>

definition fmod_align :: "int \<Rightarrow> u32 \<Rightarrow> u32 \<Rightarrow> u32 \<times> u32" where
  "fmod_align ix hx lx =
     (if - 1022 \<le> ix then (0x00100000 OR (0x000FFFFF AND hx), lx)
      else let n = nat (- 1022 - ix)
           in if n \<le> 31 then (push_bit n hx OR drop_bit (32 - n) lx, push_bit n lx)
              else (push_bit (n - 32) lx, 0))"

text \<open>The division; \<open>None\<close> when the remainder is zero on the way.\<close>

fun fmod_loop :: "nat \<Rightarrow> u32 \<Rightarrow> u32 \<Rightarrow> u32 \<Rightarrow> u32 \<Rightarrow> (u32 \<times> u32) option" where
  "fmod_loop 0 hy ly hx lx = Some (hx, lx)"
| "fmod_loop (Suc n) hy ly hx lx =
     (let hz = hx - hy; lz = lx - ly; hz = (if lx < ly then hz - 1 else hz)
      in if sint hz < 0 then fmod_loop n hy ly (hx + hx + drop_bit 31 lx) (lx + lx)
         else if hz OR lz = 0 then None
         else fmod_loop n hy ly (hz + hz + drop_bit 31 lz) (lz + lz))"

partial_function (option) fmod_normal :: "u32 \<Rightarrow> u32 \<Rightarrow> int \<Rightarrow> (u32 \<times> u32 \<times> int) option" where
  "fmod_normal hx lx iy =
     (if sint hx < 0x00100000 then fmod_normal (hx + hx + drop_bit 31 lx) (lx + lx) (iy - 1) else Some (hx, lx, iy))"

definition fmod_output :: "u32 \<Rightarrow> u32 \<Rightarrow> u32 \<Rightarrow> int \<Rightarrow> u64" where
  "fmod_output sx hx lx iy =
     (if - 1022 \<le> iy
      then let hx = hx - 0x00100000 OR push_bit 20 (word_of_int (iy + 1023)) in INSERT_WORDS (hx OR sx) lx
      else
        let n = nat (- 1022 - iy);
            (hx, lx) = (if n \<le> 20 then (drop_bit n hx, drop_bit n lx OR push_bit (32 - n) hx)
                        else if n \<le> 31 then (sx, push_bit (32 - n) hx OR drop_bit n lx)
                        else (sx, drop_bit (n - 32) hx))
        in f64_mul (INSERT_WORDS (hx OR sx) lx) 0x3FF0000000000000)"

definition fmod :: "u64 \<Rightarrow> u64 \<Rightarrow> u64 option" where
  "fmod x y =
     (let (hx, lx) = EXTRACT_WORDS x; (hy, ly) = EXTRACT_WORDS y;
          sx = hx AND 0x80000000; hx = hx XOR sx; hy = hy AND 0x7FFFFFFF;
          Zero = [0, 0x8000000000000000] ! unat (drop_bit 31 sx)
      in if hy OR ly = 0 \<or> 0x7FF00000 \<le> sint hx \<or> 0x7FF00000 < hy OR drop_bit 31 (ly OR - ly)
         then Some (f64_div (f64_mul x y) (f64_mul x y))
         else if sint hx \<le> sint hy \<and> (sint hx < sint hy \<or> lx < ly) then Some x
         else if sint hx \<le> sint hy \<and> lx = ly then Some Zero
         else
           let ix = fmod_log hx lx; iy = fmod_log hy ly;
               (hx, lx) = fmod_align ix hx lx; (hy, ly) = fmod_align iy hy ly
           in case fmod_loop (unat (word_of_int (ix - iy) :: u32)) hy ly hx lx of
                None \<Rightarrow> Some Zero
              | Some (hx, lx) \<Rightarrow>
                  let hz = hx - hy; lz = lx - ly; hz = (if lx < ly then hz - 1 else hz);
                      (hx, lx) = (if 0 \<le> sint hz then (hz, lz) else (hx, lx))
                  in if hx OR lx = 0 then Some Zero
                     else map_option (\<lambda>(hx, lx, iy). fmod_output sx hx lx iy) (fmod_normal hx lx iy))"

section \<open>The steps\<close>

abbreviation pair :: "u32 \<Rightarrow> u32 \<Rightarrow> nat" where
  "pair h l \<equiv> unat (compose_ll h l)"

lemma sint_pos: "unat h < 2147483648 \<Longrightarrow> sint h = int (unat h)" for h :: u32
  by (simp add: sint_eq_cases del: of_nat_unat)

lemma pair_high: "pair h l div 4294967296 = unat h" "pair h l mod 4294967296 = unat l"
  using u32_bound[of l] by (simp_all add: compose_value)

lemma pair_less: "unat h < k \<longleftrightarrow> pair h l < k * 4294967296"
  using div_less_iff_less_mult[of 4294967296 "pair h l" k] by (simp add: pair_high)

lemma log_loop_value: "0 < unat i \<Longrightarrow> log_loop ix i = ix - (32 - int (nbits (unat i)))"
proof (induction ix i rule: log_loop.induct)
  case (1 ix i)
  show ?case
  proof (cases "unat i < 2147483648")
    case True
    then have pos: "0 < sint i" using 1(2) by (simp add: sint_pos)
    have u: "unat (push_bit 1 i) = unat i * 2 ^ 1" using unat_shl1[of i] True by simp
    then have "log_loop (ix - 1) (push_bit 1 i) = ix - 1 - (32 - int (nbits (unat i * 2 ^ 1)))"
      using 1(1)[OF pos] 1(2) by simp
    also have "\<dots> = ix - (32 - int (nbits (unat i)))" unfolding nbits_mult[OF 1(2)] by simp
    finally show ?thesis using pos by (subst log_loop.simps) simp
  next
    case False
    then have "\<not> 0 < sint i" "nbits (unat i) = 32"
      using u32_bound[of i] nbits_le[of "unat i" 31] nbits_le[of "unat i" 32] by (simp_all add: sint_eq_cases)
    then show ?thesis by (subst log_loop.simps) simp
  qed
qed

text \<open>The exponent of the bits \<open>b\<close> of a positive number.\<close>

definition log_of :: "nat \<Rightarrow> int" where
  "log_of b = (if b < 4503599627370496 then int (nbits b) - 1075 else int (b div 4503599627370496) - 1023)"

lemma fmod_log_value:
  assumes "0 < pair h l" "pair h l < 9223372036854775808"
  shows "fmod_log h l = log_of (pair h l)"
proof -
  have h: "unat h < 2147483648" using pair_less[of h 2147483648 l] assms(2) by simp
  have small: "sint h < 0x00100000 \<longleftrightarrow> pair h l < 4503599627370496"
    using pair_less[of h 1048576 l] h by (simp add: sint_pos)
  show ?thesis
  proof (cases "pair h l < 4503599627370496")
    case True
    then have h20: "unat h < 1048576" using pair_less[of h 1048576 l] by simp
    show ?thesis
    proof (cases "h = 0")
      case True
      then have "pair h l = unat l" by (simp add: compose_value)
      then show ?thesis using assms(1) \<open>pair h l < 4503599627370496\<close> small True
        by (simp add: fmod_log_def log_loop_value log_of_def)
    next
      case False
      then have h0: "0 < unat h" by (simp add: unat_gt_0)
      have u: "unat (push_bit 11 h) = unat h * 2 ^ 11" using h20 by (simp add: unat_push_bit_mod)
      have "2 ^ 32 \<le> pair h l" using h0 unfolding compose_value by simp
      then have nb: "nbits (pair h l) = nbits (unat h) + 32"
        using nbits_div[of 32 "pair h l"] pair_high(1)[of h l] by simp
      have "0 < unat (push_bit 11 h)" using h0 unfolding u by simp
      then have "log_loop (- 1022) (push_bit 11 h) = - 1022 - (32 - int (nbits (unat h * 2 ^ 11)))"
        unfolding u[symmetric] by (rule log_loop_value)
      also have "\<dots> = int (nbits (unat h)) - 1043" unfolding nbits_mult[OF h0] by simp
      finally have "log_loop (- 1022) (push_bit 11 h) = int (nbits (unat h)) - 1043" .
      then show ?thesis using \<open>pair h l < 4503599627370496\<close> small False nb by (simp add: fmod_log_def log_of_def)
    qed
  next
    case False
    have "drop_bit 20 (sint h) = int (unat h div 1048576)" using h by (simp add: sint_pos drop_bit_eq_div zdiv_int)
    moreover have "pair h l div 4503599627370496 = unat h div 1048576"
      using div_mult2_eq[of "pair h l" 4294967296 1048576] pair_high(1)[of h l] by simp
    ultimately show ?thesis using small False by (simp add: fmod_log_def log_of_def)
  qed
qed

end
