(* ===== verification/MathRem.thy ===== *)
theory MathRem
  imports MathMod
begin

text \<open>
  \<^verbatim>\<open>fmod\<close> is exact: the result is the remainder of the magnitudes with the sign of the dividend.
\<close>

section \<open>Alignment\<close>

lemma unat_hidden52:
  fixes h :: u32
  assumes "unat h < 2147483648"
  shows "unat (0x00100000 OR (0x000FFFFF AND h)) = 1048576 + unat h mod 1048576"
proof -
  have m: "unat (0x000FFFFF AND h) = unat h mod 1048576"
    using unat_and_low[of h 20] by (simp add: mask_eq_exp_minus_1 and.commute)
  have "unat (0x000FFFFF AND h) < 2 ^ 20" unfolding m by simp
  from unat_or_push1[OF this] have "unat ((0x000FFFFF AND h) OR 0x00100000) = 2 ^ 20 + unat h mod 1048576"
    unfolding m by (simp add: push_bit_eq_mult)
  then show ?thesis by (simp add: or.commute)
qed

text \<open>The exponent of a significand with 53 bits, in units of \<open>2\<^sup>-\<^sup>1\<^sup>1\<^sup>2\<^sup>6\<close>.\<close>

definition scale_of :: "nat \<Rightarrow> nat" where
  "scale_of b = nat (log_of b + 1074)"

lemma log_of_range:
  assumes "0 < b" "b < 9218868437227405312"
  shows "- 1074 \<le> log_of b" "log_of b \<le> 1023" "log_of b + 1074 = int (scale_of b)"
proof -
  have "1 \<le> nbits b" using nbits_le[of b 0] assms(1) by simp
  moreover have "nbits b \<le> 52" if "b < 4503599627370496" using nbits_le[of b 52] that by simp
  moreover have "1 \<le> b div 4503599627370496" if "\<not> b < 4503599627370496"
    using that by (simp add: Suc_le_eq div_greater_zero_iff)
  moreover have "b div 4503599627370496 < 2047" using assms(2) by (simp add: div_less_iff_less_mult)
  ultimately show "- 1074 \<le> log_of b" "log_of b \<le> 1023" by (auto simp: log_of_def)
  then show "log_of b + 1074 = int (scale_of b)" by (simp add: scale_of_def)
qed

lemma fmod_align_value:
  assumes "0 < pair h l" "pair h l < 9218868437227405312" "fmod_align (log_of (pair h l)) h l = (h', l')"
  shows "4503599627370496 \<le> pair h' l'" "pair h' l' < 9007199254740992"
    "enc_mag 53 (pair h l) * 2 ^ 52 = pair h' l' * 2 ^ scale_of (pair h l)"
proof -
  let ?b = "pair h l"
  have hb: "unat h < 2147483648" using pair_less[of h 2147483648 l] assms(2) by simp
  have "4503599627370496 \<le> pair h' l' \<and> pair h' l' < 9007199254740992 \<and>
    enc_mag 53 ?b * 2 ^ 52 = pair h' l' * 2 ^ scale_of ?b"
  proof (cases "?b < 4503599627370496")
    case True
    define n where "n = 53 - nbits ?b"
    have nb: "1 \<le> nbits ?b" "nbits ?b \<le> 52" using nbits_le[of ?b 0] nbits_le[of ?b 52] assms(1) True by simp_all
    have n: "1 \<le> n" "n \<le> 52" "nat (- 1022 - log_of ?b) = n" "\<not> - 1022 \<le> log_of ?b" "scale_of ?b = nbits ?b - 1"
      using nb True by (simp_all add: n_def log_of_def scale_of_def nat_diff_distrib)
    have "nbits (?b * 2 ^ n) = 53" using nb assms(1) by (simp add: n_def)
    then have r: "4503599627370496 \<le> ?b * 2 ^ n" "?b * 2 ^ n < 9007199254740992"
      using nbits_le[of "?b * 2 ^ n" 52] nbits_le[of "?b * 2 ^ n" 53] by simp_all
    have w: "compose_ll h' l' = push_bit n (compose_ll h l)"
    proof (cases "n \<le> 31")
      case True
      then show ?thesis using assms(3) n(3,4) compose_shift[OF n(1) True, of h l] by (simp add: fmod_align_def Let_def)
    next
      case False
      then have "nbits ?b \<le> 21" using nb by (simp add: n_def)
      then have "?b < 2097152" using nbits_le[of ?b 21] by simp
      then have "h = 0" using pair_high(1)[of h l] by (simp add: unat_eq_zero[symmetric])
      then show ?thesis using False assms(3) n(3,4) compose_shift_far[of n l] by (auto simp: fmod_align_def Let_def)
    qed
    have v: "pair h' l' = ?b * 2 ^ n" unfolding w using r(2) by (simp add: unat_push_bit_mod)
    have e: "enc_mag 53 ?b = ?b" using enc_mag_split[of ?b 53 0] True by simp
    have "n + (nbits ?b - 1) = 52" using nb by (simp add: n_def)
    then have "?b * 2 ^ n * 2 ^ (nbits ?b - 1) = ?b * 2 ^ 52" by (metis mult.assoc power_add)
    then show ?thesis using r unfolding v e n(5) by simp
  next
    case False
    define e where "e = ?b div 4503599627370496"
    define f where "f = ?b mod 4503599627370496"
    have e1: "1 \<le> e" using False by (simp add: e_def Suc_le_eq div_greater_zero_iff)
    have f: "f < 2 ^ 52" "?b = e * 2 ^ 52 + f" by (simp_all add: e_def f_def)
    have lg: "- 1022 \<le> log_of ?b" "scale_of ?b = e + 51" using False e1 by (simp_all add: log_of_def scale_of_def e_def)
    then have hl: "h' = 0x00100000 OR (0x000FFFFF AND h)" "l' = l" using assms(3) by (simp_all add: fmod_align_def)
    have "f = (?b div 4294967296 mod 1048576) * 4294967296 + ?b mod 4294967296"
      using mod_mult2_eq[of ?b 4294967296 1048576] by (simp add: f_def)
    then have v: "pair h' l' = 2 ^ 52 + f"
      unfolding pair_high hl compose_value[of "_ OR _"] unat_hidden52[OF hb] by simp
    have "enc_mag 53 ?b = (2 ^ 52 + f) * 2 ^ (e - 1)" using enc_mag_split[of f 53 e] f e1 by simp
    moreover have "e + 51 = e - 1 + 52" using e1 by simp
    then have "(2 :: nat) ^ (e - 1) * 2 ^ 52 = 2 ^ (e + 51)" by (metis power_add)
    ultimately have "enc_mag 53 ?b * 2 ^ 52 = (2 ^ 52 + f) * 2 ^ (e + 51)" by (metis mult.assoc)
    then show ?thesis using f(1) unfolding v lg(2) by simp
  qed
  then show "4503599627370496 \<le> pair h' l'" "pair h' l' < 9007199254740992"
    "enc_mag 53 (pair h l) * 2 ^ 52 = pair h' l' * 2 ^ scale_of (pair h l)" by simp_all
qed

section \<open>The division\<close>

text \<open>One trial subtraction.\<close>

lemma trial:
  assumes "pair h l < 18014398509481984" "pair hy ly < 18014398509481984"
  defines "hz \<equiv> (if l < ly then h - hy - 1 else h - hy)" and "lz \<equiv> l - ly"
  shows "sint hz < 0 \<longleftrightarrow> pair h l < pair hy ly"
    "pair hy ly \<le> pair h l \<Longrightarrow> pair hz lz = pair h l - pair hy ly"
proof -
  have "hz = h - hy - of_bool (l < ly)" by (simp add: hz_def)
  then have w: "compose_ll hz lz = compose_ll h l - compose_ll hy ly" by (simp add: compose_sub lz_def)
  have u: "pair hz lz = (if pair hy ly \<le> pair h l then pair h l - pair hy ly else pair h l + 18446744073709551616 - pair hy ly)"
    unfolding w unat_sub_if' by simp
  show "sint hz < 0 \<longleftrightarrow> pair h l < pair hy ly"
    unfolding compose_sign[of hz lz] u using assms(1,2) by auto
  show "pair hy ly \<le> pair h l \<Longrightarrow> pair hz lz = pair h l - pair hy ly" using u by simp
qed

lemma fmod_loop_value:
  assumes "pair h l < 2 * W" "pair hy ly = W" "W < 9007199254740992"
  shows "case fmod_loop n hy ly h l of
      None \<Rightarrow> W dvd pair h l * 2 ^ n
    | Some (h', l') \<Rightarrow> pair h' l' < 2 * W \<and> pair h' l' mod W = pair h l * 2 ^ n mod W"
  using assms(1)
proof (induction n arbitrary: h l)
  case (Suc n)
  define V where "V = pair h l"
  define hz where "hz = (if l < ly then h - hy - 1 else h - hy)"
  define lz where "lz = l - ly"
  have V: "V < 2 * W" "V < 18014398509481984" using Suc(2) assms(3) by (simp_all add: V_def)
  have t: "sint hz < 0 \<longleftrightarrow> V < W" "W \<le> V \<Longrightarrow> pair hz lz = V - W"
    using trial[of h l hy ly] V(2) assms(2,3) by (simp_all add: V_def hz_def lz_def)
  have code: "fmod_loop (Suc n) hy ly h l =
     (if sint hz < 0 then fmod_loop n hy ly (h + h + drop_bit 31 l) (l + l)
      else if hz OR lz = 0 then None else fmod_loop n hy ly (hz + hz + drop_bit 31 lz) (lz + lz))"
    unfolding fmod_loop.simps(2) Let_def hz_def lz_def ..
  show ?case
  proof (cases "V < W")
    case True
    then have d: "pair (h + h + drop_bit 31 l) (l + l) = 2 * V"
      using compose_double_value[of h l] assms(3) by (simp add: V_def)
    have m: "2 * V * 2 ^ n = V * 2 ^ Suc n" by simp
    have "2 * V < 2 * W" using True by simp
    from Suc(1)[of "h + h + drop_bit 31 l" "l + l", unfolded d m, OF this[unfolded d]]
    show ?thesis unfolding code t(1) if_P[OF True] V_def[symmetric] .
  next
    case False
    then have z: "pair hz lz = V - W" using t(2) by simp
    have d: "pair (hz + hz + drop_bit 31 lz) (lz + lz) = 2 * (V - W)"
      using compose_double_value[of hz lz] V(1) assms(3) unfolding z by simp
    have m: "2 * (V - W) * 2 ^ n mod W = V * 2 ^ Suc n mod W"
    proof -
      obtain D where D: "V = D + W" using False by (metis add.commute le_Suc_ex not_less)
      have "V * 2 ^ Suc n = 2 * (V - W) * 2 ^ n + 2 ^ Suc n * W" unfolding D by (simp add: algebra_simps)
      then show ?thesis by simp
    qed
    show ?thesis
    proof (cases "V - W = 0")
      case True
      then have "V = W" using False by simp
      then show ?thesis using True t(1) compose_zero[of hz lz] unfolding code z by (simp add: V_def[symmetric])
    next
      case nz: False
      have o: "\<not> hz OR lz = 0" using nz compose_zero[of hz lz] z by simp
      have "2 * (V - W) < 2 * W" using V(1) by simp
      from Suc(1)[of "hz + hz + drop_bit 31 lz" "lz + lz", unfolded d dvd_eq_mod_eq_0 m, OF this[unfolded d]]
      show ?thesis unfolding dvd_eq_mod_eq_0 code t(1) if_not_P[OF False] if_not_P[OF o] V_def[symmetric] .
    qed
  qed
qed simp

lemma fmod_normal_value:
  assumes "0 < pair h l" "pair h l < 9007199254740992"
  shows "\<exists>h' l' k. fmod_normal h l iy = Some (h', l', iy - int k) \<and> pair h' l' = pair h l * 2 ^ k \<and>
    4503599627370496 \<le> pair h' l' \<and> pair h' l' < 9007199254740992"
  using assms
proof (induction "9007199254740992 - pair h l" arbitrary: h l iy rule: less_induct)
  case less
  have h: "unat h < 2097152" using pair_less[of h 2097152 l] less.prems(2) by simp
  have s: "sint h < 0x00100000 \<longleftrightarrow> pair h l < 4503599627370496"
    using pair_less[of h 1048576 l] h by (simp add: sint_pos)
  show ?case
  proof (cases "pair h l < 4503599627370496")
    case True
    let ?h = "h + h + drop_bit 31 l" and ?l = "l + l"
    have d: "pair ?h ?l = 2 * pair h l" using compose_double_value[of h l] True by simp
    have "9007199254740992 - pair ?h ?l < 9007199254740992 - pair h l" "0 < pair ?h ?l" "pair ?h ?l < 9007199254740992"
      using True less.prems(1) unfolding d by simp_all
    from less.hyps[OF this, of "iy - 1"]
    obtain h' l' k where r: "fmod_normal ?h ?l (iy - 1) = Some (h', l', iy - 1 - int k)"
        "pair h' l' = pair ?h ?l * 2 ^ k" "4503599627370496 \<le> pair h' l'" "pair h' l' < 9007199254740992"
      by blast
    have "fmod_normal h l iy = Some (h', l', iy - int (Suc k))"
      using r(1) True s by (subst fmod_normal.simps) (simp add: algebra_simps)
    moreover have "pair h' l' = pair h l * 2 ^ Suc k" unfolding r(2) d by simp
    ultimately show ?thesis using r(3,4) by blast
  next
    case False
    then have "fmod_normal h l iy = Some (h, l, iy - int 0)" using s by (subst fmod_normal.simps) simp
    then show ?thesis using False less.prems(2) by (intro exI[of _ h] exI[of _ l] exI[of _ 0]) simp
  qed
qed

end
