(* ===== verification/MathOut.thy ===== *)
theory MathOut
  imports MathRem
begin

section \<open>The result\<close>

lemma unat_or_push:
  assumes "unat (x :: 'a::len word) < 2 ^ k" "k < LENGTH('a)" "unat y * 2 ^ k < 2 ^ LENGTH('a)"
  shows "unat (x OR push_bit k y) = unat x + unat y * 2 ^ k"
proof -
  have x: "take_bit k x = x" using assms(1,2) by (simp add: word_unat_eq_iff unsigned_take_bit_eq take_bit_nat_eq_self)
  have "x AND push_bit k y = 0"
  proof (rule bit_word_eqI)
    fix i show "bit (x AND push_bit k y) i \<longleftrightarrow> bit (0 :: 'a word) i"
      by (subst x[symmetric]) (auto simp: bit_simps)
  qed
  then have "x OR push_bit k y = x + push_bit k y" by (rule disjunctive_add_eq_or[symmetric])
  moreover have p: "unat (push_bit k y) = unat y * 2 ^ k" using assms(3) by (simp add: unat_push_bit_mod)
  moreover have "unat x + unat y * 2 ^ k < 2 ^ LENGTH('a)"
  proof -
    obtain j where j: "LENGTH('a) = j + k" using assms(2) by (metis add.commute le_Suc_ex less_imp_le)
    then have "unat y < 2 ^ j" using assms(3) by (simp add: power_add)
    then have "Suc (unat y) * 2 ^ k \<le> 2 ^ j * 2 ^ k" by (intro mult_le_mono1) simp
    then show ?thesis using assms(1) unfolding j power_add by simp
  qed
  ultimately show ?thesis by (simp add: unat_plus_if')
qed

text \<open>A finite number with the given sign and magnitude.\<close>

definition finite64 :: "bool \<Rightarrow> nat \<Rightarrow> u64 \<Rightarrow> bool" where
  "finite64 s m r \<longleftrightarrow> expF64UI r < 2047 \<and> f64_mag r = m \<and> signF64UI r = s"

lemma finite64_bits:
  assumes "unat r = (if s then 9223372036854775808 else 0) + b" "b < 9218868437227405312"
  shows "finite64 s (enc_mag 53 b) r"
proof -
  have "unat r mod 9223372036854775808 = b" using assms by simp
  then show ?thesis using assms by (simp add: finite64_def f64_finite f64_mag_def signF64UI_value)
qed

lemma f64_mul_one:
  assumes "finite64 s m r"
  shows "finite64 s m (f64_mul r 0x3FF0000000000000)"
proof -
  have one: "expF64UI 0x3FF0000000000000 < 2047" "\<not> signF64UI 0x3FF0000000000000" "f64_mag 0x3FF0000000000000 = 2 ^ 1074"
    by (simp_all add: f64_finite signF64UI_value f64_mag_value expF64UI_value fracF64UI_value power_add[of 2 52 1022, simplified])
  let ?b = "unat r mod 9223372036854775808"
  have r: "expF64UI r < 2047" "?b < 9218868437227405312" "signF64UI r = s" "m = enc_mag 53 ?b"
    using assms by (simp_all add: finite64_def f64_finite f64_mag_def)
  have "rnd 53 (m * 2 ^ 1074) 1074 = ?b"
  proof (cases "m = 0")
    case True
    then have "?b = 0" using enc_mag_eq[of 53 ?b 0] r(4) by (simp add: enc_mag_0)
    then show ?thesis using True by (simp add: rnd_def rne_shift_def)
  next
    case False
    then show ?thesis using rnd_scale[of m 53 1074 0] rnd_enc_mag[of 53 ?b] r(4) by simp
  qed
  then have rb: "rnd 53 (f64_mag r * 2 ^ 1074) 1074 = ?b" unfolding r(4) by (simp only: f64_mag_def)
  have "f64_mul r 0x3FF0000000000000 = f64_round s (f64_mag r * 2 ^ 1074) 1074"
    unfolding f64_mul_value[OF r(1) one(1)] one(3) using one(2) r(3) by simp
  also have "\<dots> = of_nat ((if s then 9223372036854775808 else 0) + ?b)" unfolding f64_round_def rb using r(2) by simp
  finally have "unat (f64_mul r 0x3FF0000000000000) = (if s then 9223372036854775808 else 0) + ?b"
    using r(2) by (simp only:) (subst unat_of_nat_lt, simp_all)
  then show ?thesis unfolding r(4) using r(2) by (rule finite64_bits)
qed

text \<open>The sign goes back into the high word.\<close>

lemma compose_with_sign:
  assumes "unat h < 2147483648"
  shows "pair (h OR (if s then 0x80000000 else 0)) l = (if s then 9223372036854775808 else 0) + pair h l"
proof -
  have "unat (h OR push_bit 31 1) = unat h + 2 ^ 31" using assms by (intro unat_or_push1) simp_all
  then show ?thesis unfolding compose_value by (simp add: push_bit_eq_mult)
qed

lemma pair_less_high: "pair h l < 9223372036854775808 \<Longrightarrow> unat h < 2147483648"
  using pair_less[of h 2147483648 l] by simp

lemma fmod_output_normal:
  assumes "4503599627370496 \<le> pair h l" "pair h l < 9007199254740992" "- 1022 \<le> iy" "iy \<le> 1023"
  shows "finite64 s (pair h l * 2 ^ nat (iy + 1022)) (fmod_output (if s then 0x80000000 else 0) h l iy)"
proof -
  define e where "e = nat (iy + 1023)"
  have e: "1 \<le> e" "e \<le> 2046" "nat (iy + 1022) = e - 1" using assms(3,4) by (simp_all add: e_def nat_diff_distrib)
  have h: "unat h < 2097152" "1048576 \<le> unat h"
    using pair_less[of h 2097152 l] pair_less[of h 1048576 l] assms(1,2) by simp_all
  have u: "unat (h - 0x00100000) = unat h - 1048576" using h by (simp add: unat_sub_if')
  have w: "unat (word_of_int (iy + 1023) :: u32) = e" unfolding e_def using assms(3,4) by (intro unat32_of_int) linarith+
  have H: "unat (h - 0x00100000 OR push_bit 20 (word_of_int (iy + 1023))) = unat h - 1048576 + e * 1048576"
    using unat_or_push[of "h - 0x00100000" 20 "word_of_int (iy + 1023)"] h e unfolding u w by simp
  define f where "f = pair h l - 4503599627370496"
  have f: "f < 2 ^ 52" "pair h l = 2 ^ 52 + f" using assms(1,2) by (simp_all add: f_def)
  have p: "pair (h - 0x00100000 OR push_bit 20 (word_of_int (iy + 1023))) l = e * 2 ^ 52 + f"
    unfolding compose_value H f_def using h(2) by (simp add: algebra_simps)
  have "unat h - 1048576 + e * 1048576 < 2147483648" using h e by simp
  then have o: "unat (fmod_output (if s then 0x80000000 else 0) h l iy) = (if s then 9223372036854775808 else 0) + (e * 2 ^ 52 + f)"
    using assms(3) compose_with_sign[of "h - 0x00100000 OR push_bit 20 (word_of_int (iy + 1023))" s l] unfolding H p
    by (simp add: fmod_output_def INSERT_WORDS_def Let_def)
  have "e * 2 ^ 52 + f < 9218868437227405312" using e f(1) by simp
  from finite64_bits[OF o this] show ?thesis
    using enc_mag_split[of f 53 e] f e(1) by (simp add: e(3))
qed

lemma fmod_output_subnormal:
  assumes "pair h l < 9007199254740992" "iy < - 1022" "- 1074 \<le> iy" "pair h l = m * 2 ^ nat (- 1022 - iy)"
  shows "finite64 s m (fmod_output (if s then 0x80000000 else 0) h l iy)"
proof -
  define n where "n = nat (- 1022 - iy)"
  have n: "1 \<le> n" "n \<le> 52" using assms(2,3) by (simp_all add: n_def)
  let ?s = "if s then 0x80000000 else 0 :: u32"
  have h: "unat h < 2097152" using pair_less[of h 2097152 l] assms(1) by simp
  define r where "r = (if n \<le> 20 then (drop_bit n h, drop_bit n l OR push_bit (32 - n) h)
                        else if n \<le> 31 then (?s, push_bit (32 - n) h OR drop_bit n l)
                        else (?s, drop_bit (n - 32) h))"
  have out: "fmod_output ?s h l iy = f64_mul (INSERT_WORDS (fst r OR ?s) (snd r)) 0x3FF0000000000000"
    using assms(2) by (simp add: fmod_output_def Let_def n_def[symmetric] r_def)
  have d: "compose_ll (fst r OR ?s) (snd r) = compose_ll (drop_bit n h OR ?s) (if n \<le> 31 then drop_bit n l OR push_bit (32 - n) h else drop_bit (n - 32) h)"
  proof -
    have "drop_bit n h = 0" if "21 \<le> n"
    proof -
      have "unat h < 2 ^ n" using h power_increasing[OF that, of "2 :: nat"] by simp
      then have "unat h div 2 ^ n = 0" by simp
      then show ?thesis by (simp add: word_unat_eq_iff unat_drop_bit_div)
    qed
    then show ?thesis by (auto simp: r_def or.commute)
  qed
  have "compose_ll (drop_bit n h) (if n \<le> 31 then drop_bit n l OR push_bit (32 - n) h else drop_bit (n - 32) h) = drop_bit n (compose_ll h l)"
  proof (cases "n \<le> 31")
    case False
    have "unat h < 2 ^ n" using h power_increasing[of 32 n "2 :: nat"] False by simp
    then have "unat h div 2 ^ n = 0" by simp
    then have "drop_bit n h = 0" by (simp add: word_unat_eq_iff unat_drop_bit_div)
    then show ?thesis using False compose_drop_far[of n h l] by simp
  qed (use n(1) compose_drop in simp)
  then have v: "pair (drop_bit n h) (if n \<le> 31 then drop_bit n l OR push_bit (32 - n) h else drop_bit (n - 32) h) = m"
    using assms(4) by (simp add: unat_drop_bit_div n_def[symmetric])
  have "(2 :: nat) ^ 1 \<le> 2 ^ n" by (intro power_increasing n(1)) simp
  then have "m * 2 \<le> m * 2 ^ n" by (intro mult_le_mono2) simp
  then have m: "m < 4503599627370496" using assms(1,4) unfolding n_def[symmetric] by linarith
  have "unat (drop_bit n h) < 2147483648" using h by (simp add: unat_drop_bit_div le_less_trans[OF div_le_dividend])
  from compose_with_sign[OF this]
  have "unat (INSERT_WORDS (fst r OR ?s) (snd r)) = (if s then 9223372036854775808 else 0) + m"
    unfolding INSERT_WORDS_def d v[symmetric] .
  then have "finite64 s (enc_mag 53 m) (INSERT_WORDS (fst r OR ?s) (snd r))" using m by (intro finite64_bits) simp_all
  moreover have "enc_mag 53 m = m" using enc_mag_split[of m 53 0] m by simp
  ultimately show ?thesis unfolding out by (intro f64_mul_one) simp
qed

end
