(* ===== verification/MathFmod.thy ===== *)
theory MathFmod
  imports MathOut MathF
begin

declare of_nat_unat [simp del]

section \<open>The special cases\<close>

lemma fmod_nan:
  assumes "expF64UI x = 2047 \<or> expF64UI y = 2047 \<and> fracF64UI y \<noteq> 0 \<or> f64_mag y = 0"
  shows "f64_div (f64_mul x y) (f64_mul x y) = defaultNaNF64UI"
proof -
  have d: "f64_div p p = defaultNaNF64UI" if "expF64UI p = 2047 \<or> expF64UI p = 0 \<and> fracF64UI p = 0" for p
    using that by (auto simp: f64_div_def Let_def propagateNaNF64UI_def normF64_def)
  have nan: "expF64UI defaultNaNF64UI = 2047" by (simp add: expF64UI_def defaultNaNF64UI_def)
  have inf: "expF64UI (packToF64UI s 2047 0) = 2047" "expF64UI (packToF64UI s 0 0) = 0" "fracF64UI (packToF64UI s 0 0) = 0" for s
    using pack64_fields[of 2047 0 s] pack64_fields[of 0 0 s] by (simp_all add: unat_eq_zero)
  have z: "expF64UI y = 0 \<and> fracF64UI y = 0" if "f64_mag y = 0"
    using that by (auto simp: f64_mag_value unat_eq_zero split: if_splits)
  have none: "normF64 0 0 = None" by (simp add: normF64_def)
  consider "expF64UI x = 2047" | "expF64UI x \<noteq> 2047" "expF64UI y = 2047" "fracF64UI y \<noteq> 0"
    | "expF64UI x \<noteq> 2047" "expF64UI y = 0" "fracF64UI y = 0" using assms z by auto
  then have "expF64UI (f64_mul x y) = 2047 \<or> expF64UI (f64_mul x y) = 0 \<and> fracF64UI (f64_mul x y) = 0"
    by cases (auto simp: f64_mul_def Let_def propagateNaNF64UI_def nan inf none split: option.split)
  then show ?thesis by (rule d)
qed

lemma or_neg_top: "drop_bit 31 (l OR - l) = (of_bool (l \<noteq> 0) :: u32)"
proof (cases "l = 0")
  case False
  then have "bit l 31 \<or> bit (- l) 31"
  proof -
    have "unat (0 - l) = 4294967296 - unat l" using False by (subst unat_sub_if') (simp add: unat_eq_zero)
    then have "2147483648 \<le> unat l \<or> 2147483648 \<le> unat (- l)" by (simp only: diff_0) linarith
    moreover have "bit a 31" if "2147483648 \<le> unat a" for a :: u32
    proof -
      have "signF32UI a" using that by (simp add: signF32UI_value)
      then have "a AND 0x80000000 \<noteq> 0" unfolding sign_and by simp
      then show ?thesis using and_exp_eq_0_iff_not_bit[of a 31] by simp
    qed
    ultimately show ?thesis by blast
  qed
  then show ?thesis using False
    by (intro bit_word_eqI) (auto simp: bit_simps dest: bit_imp_le_length)
qed simp

section \<open>The code on finite operands\<close>

lemma fmod_words:
  assumes "EXTRACT_WORDS x = (h, l)"
  shows "pair (h XOR (h AND 0x80000000)) l = unat x mod 9223372036854775808"
    "pair (h AND 0x7FFFFFFF) l = unat x mod 9223372036854775808"
    "h AND 0x80000000 = (if signF64UI x then 0x80000000 else 0)"
proof -
  have m: "unat (h AND 0x7FFFFFFF) = unat h mod 2147483648"
    using unat_and_low[of h 31] by (simp add: mask_eq_exp_minus_1)
  have x: "h XOR (h AND k) = h AND NOT k" for k
    by (rule bit_word_eqI) (auto simp: bit_simps)
  have "NOT (0x80000000 :: u32) = 0x7FFFFFFF" by (simp add: not_eq_complement)
  then have "h XOR (h AND 0x80000000) = h AND 0x7FFFFFFF" unfolding x by (simp only:)
  moreover have "unat x mod 9223372036854775808 = (unat h mod 2147483648) * 4294967296 + unat l"
    using mod_mult2_eq[of "unat x" 4294967296 2147483648] extract_value(3,4)[OF assms] by simp
  ultimately show "pair (h XOR (h AND 0x80000000)) l = unat x mod 9223372036854775808"
    "pair (h AND 0x7FFFFFFF) l = unat x mod 9223372036854775808" by (simp_all add: compose_value m)
  have "signF64UI x \<longleftrightarrow> 2147483648 \<le> unat h"
    using extract_value(1)[OF assms] u32_bound[of l] by (auto simp: signF64UI_value)
  then show "h AND 0x80000000 = (if signF64UI x then 0x80000000 else 0)" unfolding sign_and by (simp add: signF32UI_value)
qed

text \<open>The part of \<^verbatim>\<open>fmod\<close> after the tests for exceptions and small dividends.\<close>

lemma fmod_core:
  assumes x: "0 < pair hx lx" "pair hx lx < 9218868437227405312"
    and y: "0 < pair hy ly" "pair hy ly < pair hx lx"
  shows "\<exists>r. (let ix = fmod_log hx lx; iy = fmod_log hy ly;
               (hx, lx) = fmod_align ix hx lx; (hy, ly) = fmod_align iy hy ly
           in case fmod_loop (unat (word_of_int (ix - iy) :: u32)) hy ly hx lx of
                None \<Rightarrow> Some Zero
              | Some (hx, lx) \<Rightarrow>
                  let hz = hx - hy; lz = lx - ly; hz = (if lx < ly then hz - 1 else hz);
                      (hx, lx) = (if 0 \<le> sint hz then (hz, lz) else (hx, lx))
                  in if hx OR lx = 0 then Some Zero
                     else map_option (\<lambda>(hx, lx, iy). fmod_output (if s then 0x80000000 else 0) hx lx iy) (fmod_normal hx lx iy)) = Some r \<and>
      (if enc_mag 53 (pair hx lx) mod enc_mag 53 (pair hy ly) = 0 then r = Zero
       else finite64 s (enc_mag 53 (pair hx lx) mod enc_mag 53 (pair hy ly)) r)"
proof -
  let ?bx = "pair hx lx" and ?by = "pair hy ly"
  let ?X = "enc_mag 53 ?bx" and ?Y = "enc_mag 53 ?by"
  define ix where "ix = fmod_log hx lx"
  define iy where "iy = fmod_log hy ly"
  have yb: "?by < 9218868437227405312" using x(2) y(2) by simp
  have lx: "ix = log_of ?bx" "iy = log_of ?by"
    unfolding ix_def iy_def using x y by (simp_all add: fmod_log_value)
  obtain hv lv where V: "fmod_align ix hx lx = (hv, lv)" by fastforce
  obtain hw lw where W: "fmod_align iy hy ly = (hw, lw)" by fastforce
  let ?V = "pair hv lv" and ?W = "pair hw lw" and ?ex = "scale_of ?bx" and ?ey = "scale_of ?by"
  note v = fmod_align_value[OF x V[unfolded lx]]
  note w = fmod_align_value[OF y(1) yb W[unfolded lx]]
  have ex: "ix + 1074 = int ?ex" "iy + 1074 = int ?ey" "ix \<le> 1023" "iy \<le> 1023" "- 1074 \<le> ix" "- 1074 \<le> iy"
    using log_of_range[OF x] log_of_range[OF y(1) yb] unfolding lx by simp_all
  have XY: "?Y < ?X" using y(2) by (simp add: enc_mag_mono)
  have "?ey \<le> ?ex"
  proof (rule ccontr)
    assume "\<not> ?ey \<le> ?ex"
    then have "(2 :: nat) ^ Suc ?ex \<le> 2 ^ ?ey" by (intro power_increasing) simp_all
    then have "4503599627370496 * 2 ^ Suc ?ex \<le> ?W * 2 ^ ?ey" using w(1) by (intro mult_le_mono)
    moreover have "?V * 2 ^ ?ex < 9007199254740992 * 2 ^ ?ex" using v(2) by simp
    ultimately have "?X * 2 ^ 52 < ?Y * 2 ^ 52" unfolding v(3) w(3) power_Suc by linarith
    then show False using XY by simp
  qed
  define n where "n = ?ex - ?ey"
  have n: "?ex = n + ?ey" "n = nat (ix - iy)" using \<open>?ey \<le> ?ex\<close> ex(1,2) by (simp_all add: n_def)
  have nw: "unat (word_of_int (ix - iy) :: u32) = n" unfolding n(2)
    using ex \<open>?ey \<le> ?ex\<close> by (intro unat32_of_int) linarith+
  have rem: "?X mod ?Y * 2 ^ 52 = ?V * 2 ^ n mod ?W * 2 ^ ?ey"
  proof -
    have "?X mod ?Y * 2 ^ 52 = (?X * 2 ^ 52) mod (?Y * 2 ^ 52)" by (rule mult_mod_left)
    also have "\<dots> = (?V * 2 ^ n * 2 ^ ?ey) mod (?W * 2 ^ ?ey)" unfolding v(3) w(3) unfolding n(1) by (simp add: power_add mult.assoc)
    finally show ?thesis by (simp add: mult_mod_left)
  qed
  note loop = fmod_loop_value[of hv lv ?W hw lw n, OF _ refl w(2)]
  have V2: "?V < 2 * ?W" using v(2) w(1) by simp
  show ?thesis
  proof (cases "fmod_loop n hw lw hv lv")
    case None
    then have "?V * 2 ^ n mod ?W = 0" using loop[OF V2] by (simp add: dvd_eq_mod_eq_0)
    then have "?X mod ?Y = 0" using rem by simp
    then show ?thesis unfolding Let_def ix_def[symmetric] iy_def[symmetric] V W prod.case nw None option.case by simp
  next
    case (Some p)
    obtain hu lu where p: "p = (hu, lu)" by fastforce
    let ?U = "pair hu lu"
    have U: "?U < 2 * ?W" "?U mod ?W = ?V * 2 ^ n mod ?W" using loop[OF V2] Some p by simp_all
    define hz where "hz = (if lu < lw then hu - hw - 1 else hu - hw)"
    define lz where "lz = lu - lw"
    have t: "sint hz < 0 \<longleftrightarrow> ?U < ?W" "?W \<le> ?U \<Longrightarrow> pair hz lz = ?U - ?W"
      using trial[of hu lu hw lw] U(1) w(2) by (simp_all add: hz_def lz_def)
    obtain hr lr where r: "(if 0 \<le> sint hz then (hz, lz) else (hu, lu)) = (hr, lr)" by fastforce
    have R: "pair hr lr = ?V * 2 ^ n mod ?W"
    proof (cases "?U < ?W")
      case True
      then show ?thesis using r t(1) U(2) by simp
    next
      case False
      then have "?U mod ?W = ?U - ?W" using U(1) by (simp add: mod_if)
      then show ?thesis using r t False U(2) by (simp add: not_less)
    qed
    have code: "(let ix = fmod_log hx lx; iy = fmod_log hy ly;
               (hx, lx) = fmod_align ix hx lx; (hy, ly) = fmod_align iy hy ly
           in case fmod_loop (unat (word_of_int (ix - iy) :: u32)) hy ly hx lx of
                None \<Rightarrow> Some Zero
              | Some (hx, lx) \<Rightarrow>
                  let hz = hx - hy; lz = lx - ly; hz = (if lx < ly then hz - 1 else hz);
                      (hx, lx) = (if 0 \<le> sint hz then (hz, lz) else (hx, lx))
                  in if hx OR lx = 0 then Some Zero
                     else map_option (\<lambda>(hx, lx, iy). fmod_output (if s then 0x80000000 else 0) hx lx iy) (fmod_normal hx lx iy))
        = (if hr OR lr = 0 then Some Zero
           else map_option (\<lambda>(hx, lx, iy). fmod_output (if s then 0x80000000 else 0) hx lx iy) (fmod_normal hr lr iy))"
      unfolding Let_def ix_def[symmetric] iy_def[symmetric] V W prod.case nw Some option.case p
        hz_def[symmetric] lz_def[symmetric] r ..
    show ?thesis
    proof (cases "pair hr lr = 0")
      case True
      then have "?X mod ?Y = 0" using rem unfolding R by simp
      then show ?thesis unfolding code using True compose_zero[of hr lr] by simp
    next
      case False
      have Rb: "0 < pair hr lr" "pair hr lr < 9007199254740992" "\<not> hr OR lr = 0"
        using False compose_zero[of hr lr] w(1,2) mod_less_divisor[of ?W "?V * 2 ^ n"] unfolding R by linarith+
      obtain h' l' k where N: "fmod_normal hr lr iy = Some (h', l', iy - int k)" "pair h' l' = pair hr lr * 2 ^ k"
        "4503599627370496 \<le> pair h' l'" "pair h' l' < 9007199254740992"
        using fmod_normal_value[OF Rb(1,2), of iy] by blast
      let ?M = "?X mod ?Y" and ?r = "fmod_output (if s then 0x80000000 else 0) h' l' (iy - int k)"
      have M: "?M * 2 ^ 52 * 2 ^ k = pair h' l' * 2 ^ ?ey" unfolding rem N(2) R by (simp add: mult_ac)
      have M0: "?M \<noteq> 0" using M N(3) by (intro notI) simp
      have k: "k \<le> ?ey"
      proof (rule ccontr)
        assume "\<not> k \<le> ?ey"
        then have "(2 :: nat) ^ Suc ?ey \<le> 2 ^ k" by (intro power_increasing) simp_all
        then have "2 ^ 52 * 2 ^ Suc ?ey \<le> ?M * 2 ^ 52 * 2 ^ k" using M0 by (intro mult_le_mono) simp_all
        moreover have "pair h' l' * 2 ^ ?ey < 2 ^ 53 * 2 ^ ?ey" using N(4) by simp
        ultimately show False unfolding M by simp
      qed
      define e where "e = ?ey - k"
      have e: "?ey = e + k" "iy - int k = int e - 1074" using k ex(2) by (simp_all add: e_def)
      have Me: "?M * 2 ^ 52 = pair h' l' * 2 ^ e" using M unfolding e(1) by (simp add: power_add)
      have "finite64 s ?M ?r"
      proof (cases "52 \<le> e")
        case True
        then obtain j where j: "e = j + 52" by (metis add.commute le_Suc_ex)
        have "?M = pair h' l' * 2 ^ j" using Me unfolding j by (simp add: power_add)
        moreover have "nat (iy - int k + 1022) = j" "- 1022 \<le> iy - int k" "iy - int k \<le> 1023" using e(2) j ex(4) by simp_all
        ultimately show ?thesis using fmod_output_normal[OF N(3,4), of "iy - int k" s] by simp
      next
        case False
        then obtain j where j: "52 = e + j" by (metis le_Suc_ex linear)
        have "?M * 2 ^ j * 2 ^ e = pair h' l' * 2 ^ e" using Me unfolding j by (simp add: power_add mult_ac)
        then have "pair h' l' = ?M * 2 ^ j" by simp
        moreover have "nat (- 1022 - (iy - int k)) = j" "iy - int k < - 1022" "- 1074 \<le> iy - int k" using e(2) j False by simp_all
        ultimately show ?thesis using fmod_output_subnormal[OF N(4), of "iy - int k" ?M s] by simp
      qed
      then show ?thesis unfolding code using Rb(3) N(1) M0 by simp
    qed
  qed
qed

section \<open>The whole function\<close>

lemma fmod_tests:
  assumes X: "EXTRACT_WORDS x = (hx, lx)" and Y: "EXTRACT_WORDS y = (hy, ly)"
  defines "h \<equiv> hx XOR (hx AND 0x80000000)" and "k \<equiv> hy AND 0x7FFFFFFF"
  defines "bx \<equiv> unat x mod 9223372036854775808" and "b \<equiv> unat y mod 9223372036854775808"
  shows "k OR ly = 0 \<longleftrightarrow> b = 0" "0x7FF00000 \<le> sint h \<longleftrightarrow> \<not> bx < 9218868437227405312"
    "0x7FF00000 < k OR drop_bit 31 (ly OR - ly) \<longleftrightarrow> 9218868437227405312 < b"
    "sint h \<le> sint k \<and> (sint h < sint k \<or> lx < ly) \<longleftrightarrow> bx < b"
    "\<not> bx < b \<Longrightarrow> sint h \<le> sint k \<and> lx = ly \<longleftrightarrow> bx = b"
proof -
  have p: "pair h lx = bx" "pair k ly = b"
    unfolding h_def k_def bx_def b_def by (rule fmod_words(1)[OF X], rule fmod_words(2)[OF Y])
  have lt: "bx < 9223372036854775808" "b < 9223372036854775808" by (simp_all add: bx_def b_def)
  then have u: "unat h < 2147483648" "unat k < 2147483648" using pair_less_high[of h lx] pair_less_high[of k ly] p by simp_all
  note s = sint_pos[OF u(1)] sint_pos[OF u(2)]
  have v: "bx = unat h * 4294967296 + unat lx" "b = unat k * 4294967296 + unat ly" using p by (simp_all add: compose_value)
  note wb = u32_bound[of lx] u32_bound[of ly]
  show "k OR ly = 0 \<longleftrightarrow> b = 0" using compose_zero[of k ly] p by simp
  show "0x7FF00000 \<le> sint h \<longleftrightarrow> \<not> bx < 9218868437227405312"
    using pair_less[of h 2146435072 lx] unfolding s p by auto
  have "unat (k OR drop_bit 31 (ly OR - ly)) = (if ly \<noteq> 0 \<and> even (unat k) then Suc (unat k) else unat k)"
    unfolding or_neg_top by (rule unat_or_bool)
  then have "0x7FF00000 < k OR drop_bit 31 (ly OR - ly) \<longleftrightarrow>
      2146435072 < (if ly \<noteq> 0 \<and> even (unat k) then Suc (unat k) else unat k)" by (simp add: word_less_nat_alt)
  also have "\<dots> \<longleftrightarrow> 2146435072 < unat k \<or> unat k = 2146435072 \<and> 0 < unat ly"
    by (auto simp: unat_gt_0)
  also have "\<dots> \<longleftrightarrow> 9218868437227405312 < b" unfolding v using wb(2) by auto
  finally show "0x7FF00000 < k OR drop_bit 31 (ly OR - ly) \<longleftrightarrow> 9218868437227405312 < b" .
  have "unat h \<le> unat k \<and> (unat h < unat k \<or> unat lx < unat ly) \<longleftrightarrow> bx < b" unfolding v using wb by linarith
  then show "sint h \<le> sint k \<and> (sint h < sint k \<or> lx < ly) \<longleftrightarrow> bx < b" unfolding s word_less_nat_alt by simp
  have "unat h \<le> unat k \<and> unat lx = unat ly \<longleftrightarrow> bx = b" if "\<not> bx < b"
  proof
    assume "unat h \<le> unat k \<and> unat lx = unat ly"
    then show "bx = b" using that unfolding v by linarith
  next
    assume e: "bx = b"
    have "unat h = unat k" using e wb unfolding v by linarith
    then show "unat h \<le> unat k \<and> unat lx = unat ly" using e unfolding v by simp
  qed
  then show "\<not> bx < b \<Longrightarrow> sint h \<le> sint k \<and> lx = ly \<longleftrightarrow> bx = b" unfolding s word_unat_eq_iff by simp
qed

lemma fmod_cases:
  "\<exists>r. fmod x y = Some r \<and>
    (if expF64UI x = 2047 \<or> expF64UI y = 2047 \<and> fracF64UI y \<noteq> 0 \<or> f64_mag y = 0 then r = defaultNaNF64UI
     else if expF64UI y = 2047 then r = x
     else finite64 (signF64UI x) (f64_mag x mod f64_mag y) r)"
proof -
  obtain hx lx hy ly where X: "EXTRACT_WORDS x = (hx, lx)" and Y: "EXTRACT_WORDS y = (hy, ly)" by fastforce
  define bx where "bx = unat x mod 9223372036854775808"
  define b where "b = unat y mod 9223372036854775808"
  define h where "h = hx XOR (hx AND 0x80000000)"
  define k where "k = hy AND 0x7FFFFFFF"
  let ?Z = "[0, 0x8000000000000000] ! unat (drop_bit 31 (hx AND 0x80000000)) :: u64"
  note t = fmod_tests[OF X Y, folded h_def k_def bx_def b_def]
  have p: "pair h lx = bx" "pair k ly = b"
    unfolding h_def k_def bx_def b_def by (rule fmod_words(1)[OF X], rule fmod_words(2)[OF Y])
  have mag: "f64_mag x = enc_mag 53 bx" "f64_mag y = enc_mag 53 b" by (simp_all add: f64_mag_def bx_def b_def)
  have mag0: "f64_mag y = 0 \<longleftrightarrow> b = 0" using enc_mag_eq[of 53 b 0] unfolding mag by (simp add: enc_mag_0)
  have ex: "expF64UI x = 2047 \<longleftrightarrow> \<not> bx < 9218868437227405312" "expF64UI y = 2047 \<longleftrightarrow> \<not> b < 9218868437227405312"
    using f64_finite[of x] f64_finite[of y] exp64_range[of x] exp64_range[of y] unfolding bx_def b_def by linarith+
  have nan: "expF64UI y = 2047 \<and> fracF64UI y \<noteq> 0 \<longleftrightarrow> 9218868437227405312 < b"
  proof (cases "expF64UI y = 2047")
    case True
    then have "b = 9218868437227405312 + unat (fracF64UI y)" using bits64_split[of y] by (simp add: b_def)
    then show ?thesis using True by (simp add: unat_gt_0)
  next
    case False
    then show ?thesis using ex(2) by simp
  qed
  have zero: "finite64 (signF64UI x) 0 ?Z"
  proof -
    have "drop_bit 31 (0x80000000 :: u32) = 1" by simp
    then have "unat ?Z = (if signF64UI x then 9223372036854775808 else 0) + 0" unfolding fmod_words(3)[OF X] by simp
    from finite64_bits[OF this] show ?thesis by (simp add: enc_mag_0)
  qed
  note code = fmod_def[of x y, unfolded X Y Let_def prod.case, folded h_def k_def, unfolded t(1-4)]
  consider (nan) "b = 0 \<or> \<not> bx < 9218868437227405312 \<or> 9218868437227405312 < b"
    | (less) "b \<noteq> 0" "bx < 9218868437227405312" "\<not> 9218868437227405312 < b" "bx < b"
    | (eq) "b \<noteq> 0" "bx < 9218868437227405312" "\<not> 9218868437227405312 < b" "bx = b"
    | (div) "b \<noteq> 0" "bx < 9218868437227405312" "\<not> 9218868437227405312 < b" "b < bx" by linarith
  then show ?thesis
  proof cases
    case nan
    then show ?thesis using fmod_nan[of x y] \<open>(expF64UI y = 2047 \<and> fracF64UI y \<noteq> 0) = _\<close> ex mag0 unfolding code by auto
  next
    case less
    have "f64_mag x < f64_mag y" using less(4) unfolding mag by (simp add: enc_mag_mono)
    moreover have "expF64UI x < 2047" using ex(1) less(2) exp64_range[of x] by linarith
    ultimately have "finite64 (signF64UI x) (f64_mag x mod f64_mag y) x" by (simp add: finite64_def)
    then show ?thesis using less mag0 ex nan unfolding code by simp
  next
    case eq
    then have "f64_mag x mod f64_mag y = 0" unfolding mag by simp
    then have "finite64 (signF64UI x) (f64_mag x mod f64_mag y) ?Z" using zero by simp
    then show ?thesis using eq mag0 ex nan t(5) unfolding code by simp
  next
    case div
    have d: "0 < pair h lx" "pair h lx < 9218868437227405312" "0 < pair k ly" "pair k ly < pair h lx" using div p by simp_all
    from fmod_core[OF d, of ?Z "signF64UI x", unfolded Let_def, folded fmod_words(3)[OF X]]
    obtain r where r: "fmod x y = Some r"
      "if enc_mag 53 bx mod enc_mag 53 b = 0 then r = ?Z else finite64 (signF64UI x) (enc_mag 53 bx mod enc_mag 53 b) r"
      using div t(5) unfolding code p by auto
    have "finite64 (signF64UI x) (f64_mag x mod f64_mag y) r" using r(2) zero unfolding mag by (auto split: if_splits)
    then show ?thesis using r(1) div mag0 ex nan by simp
  qed
qed

text \<open>C40: \<^verbatim>\<open>fmod\<close> of \<^verbatim>\<open>math.c\<close> returns on all operands.  It is the default NaN when the dividend is infinite or a NaN,
  the divisor zero or a NaN; the dividend when the divisor is infinite; and otherwise, without rounding, the remainder
  of the magnitudes with the sign of the dividend, for normal and subnormal operands and results alike.
\<close>

theorem fmod_exact:
  "\<exists>r. fmod x y = Some r \<and>
    (if expF64UI x = 2047 \<or> expF64UI y = 2047 \<and> fracF64UI y \<noteq> 0 \<or> f64_mag y = 0 then r = defaultNaNF64UI
     else if expF64UI y = 2047 then r = x
     else expF64UI r < 2047 \<and> f64_mag r = f64_mag x mod f64_mag y \<and> signF64UI r = signF64UI x)"
  using fmod_cases[of x y] unfolding finite64_def .

theorem fmod_exact_witness:
  "\<exists>r. fmod 7 2 = Some r \<and> expF64UI r < 2047 \<and> f64_mag r = 1 \<and> \<not> signF64UI r"
  using fmod_exact[of 7 2] by (simp add: expF64UI_value fracF64UI_value signF64UI_value f64_mag_value)

end
