(* ===== verification/Malloc.thy ===== *)
theory Malloc
  imports CString
begin

text \<open>
  Dynamic memory, \<^verbatim>\<open>lib/runtime/src/malloc.c\<close>.  The storage pool is an array of 16-byte blocks in byte memory,
  at an address the linker chooses (\<open>pool\<close>), followed by a sentinel block; a chunk is a run of blocks whose first
  word, the head, has the number of blocks and a reserved bit; free chunks are in a circular doubly linked list
  through the sentinel.  The loops of \<open>malloc\<close> could run forever on a corrupt pool and are partial functions.
\<close>

section \<open>The code\<close>

definition nr_of_blocks :: u32 where "nr_of_blocks = 16384"

definition HDR_LENGTH :: u32 where "HDR_LENGTH = NOT (push_bit 31 1)"
definition HDR_RESERVED :: u32 where "HDR_RESERVED = push_bit 31 1"

text \<open>The memory and the static variable \<open>sentinel\<close>.\<close>

record heap =
  hmem :: mem
  sentinel :: u32

text \<open>The members of a block: \<open>head\<close>, \<open>u.link.next\<close> and \<open>u.link.prev\<close>.\<close>

definition blk_head :: "mem \<Rightarrow> u32 \<Rightarrow> u32" where "blk_head m b = load32 m b"
definition blk_next :: "mem \<Rightarrow> u32 \<Rightarrow> u32" where "blk_next m b = load32 m (b + 4)"
definition blk_prev :: "mem \<Rightarrow> u32 \<Rightarrow> u32" where "blk_prev m b = load32 m (b + 8)"

definition blk_length :: "mem \<Rightarrow> u32 \<Rightarrow> u32" where
  "blk_length m b = blk_head m b AND HDR_LENGTH"

definition is_reserved :: "mem \<Rightarrow> u32 \<Rightarrow> bool" where
  "is_reserved m b \<longleftrightarrow> blk_head m b AND HDR_RESERVED \<noteq> 0"

definition set_reserved :: "mem \<Rightarrow> u32 \<Rightarrow> mem" where
  "set_reserved m b = store32 m b (blk_head m b OR HDR_RESERVED)"

definition clear_reserved :: "mem \<Rightarrow> u32 \<Rightarrow> mem" where
  "clear_reserved m b = store32 m b (blk_head m b AND NOT HDR_RESERVED)"

definition set_head :: "mem \<Rightarrow> u32 \<Rightarrow> u32 \<Rightarrow> u32 \<Rightarrow> mem" where
  "set_head m b res len = store32 m b (push_bit 31 res OR len)"

definition add_length :: "mem \<Rightarrow> u32 \<Rightarrow> u32 \<Rightarrow> mem" where
  "add_length m b len = store32 m b (blk_head m b AND HDR_RESERVED OR (blk_length m b + len))"

definition insert_after :: "mem \<Rightarrow> u32 \<Rightarrow> u32 \<Rightarrow> mem" where
  "insert_after m a b =
     (let m = store32 m (blk_next m a + 8) b;
          m = store32 m (b + 4) (blk_next m a);
          m = store32 m (b + 8) a
      in store32 m (a + 4) b)"

definition unlink :: "mem \<Rightarrow> u32 \<Rightarrow> mem" where
  "unlink m a =
     (let m = store32 m (blk_prev m a + 4) (blk_next m a)
      in store32 m (blk_next m a + 8) (blk_prev m a))"

definition heap_init :: "u32 \<Rightarrow> heap \<Rightarrow> heap" where
  "heap_init pool h =
     (let s = pool + push_bit 4 nr_of_blocks;
          m = set_head (hmem h) s 1 0;
          m = store32 m (s + 4) s;
          m = store32 m (s + 8) s;
          first = pool;
          m = set_head m first 0 nr_of_blocks;
          m = insert_after m s first
      in h\<lparr>hmem := m, sentinel := s\<rparr>)"

definition c_free :: "heap \<Rightarrow> u32 \<Rightarrow> heap" where
  "c_free h p =
     (if p \<noteq> 0 then
        let block = p - 4; m = clear_reserved (hmem h) block
        in h\<lparr>hmem := insert_after m (sentinel h) block\<rparr>
      else h)"

text \<open>\<open>for (;;) \<dots>\<close>: the candidate \<open>ptr\<close> absorbs the free chunks that follow it.\<close>

partial_function (option) malloc_merge :: "mem \<Rightarrow> u32 \<Rightarrow> u32 \<Rightarrow> (mem \<times> u32) option" where
  "malloc_merge m ptr len =
     (let successor = ptr + push_bit 4 len
      in if is_reserved m successor then Some (m, len)
         else
           let len = len + blk_length m successor; m = unlink m successor; m = set_head m ptr 0 len
           in malloc_merge m ptr len)"

text \<open>\<open>do \<dots> while (len < blocks)\<close>: the candidate with its length, or \<open>None\<close> for \<open>return 0\<close>.\<close>

partial_function (option) malloc_scan ::
  "mem \<Rightarrow> u32 \<Rightarrow> u32 \<Rightarrow> u32 \<Rightarrow> (mem \<times> (u32 \<times> u32) option) option" where
  "malloc_scan m s ptr blocks =
     (let ptr = blk_next m ptr
      in if ptr = s then Some (m, None)
         else
           case malloc_merge m ptr (blk_length m ptr) of
             None \<Rightarrow> None
           | Some (m, len) \<Rightarrow>
               if len < blocks then malloc_scan m s ptr blocks else Some (m, Some (ptr, len)))"

definition malloc_blocks :: "u32 \<Rightarrow> u32" where
  "malloc_blocks bytes = (bytes + 4 + 16 - 1) div 16"

definition malloc_take :: "mem \<Rightarrow> u32 \<Rightarrow> u32 \<Rightarrow> u32 \<Rightarrow> u32 \<Rightarrow> mem" where
  "malloc_take m s ptr len blocks =
     (let m = (if len > blocks then
                 let new_block = ptr + push_bit 4 blocks; m = set_head m new_block 0 (len - blocks)
                 in insert_after m s new_block
               else m);
          m = set_head m ptr 1 blocks
      in unlink m ptr)"

definition c_malloc :: "u32 \<Rightarrow> heap \<Rightarrow> u32 \<Rightarrow> (heap \<times> u32) option" where
  "c_malloc pool h bytes =
     (let h = (if sentinel h = 0 then heap_init pool h else h);
          blocks = malloc_blocks bytes
      in case malloc_scan (hmem h) (sentinel h) (sentinel h) blocks of
           None \<Rightarrow> None
         | Some (m, None) \<Rightarrow> Some (h\<lparr>hmem := m\<rparr>, 0)
         | Some (m, Some (ptr, len)) \<Rightarrow>
             Some (h\<lparr>hmem := malloc_take m (sentinel h) ptr len blocks\<rparr>, ptr + 4))"

definition block_size :: "mem \<Rightarrow> u32 \<Rightarrow> u32" where
  "block_size m p = (let block = p - 4 in blk_length m block * 16 - 4)"

definition c_calloc :: "u32 \<Rightarrow> heap \<Rightarrow> u32 \<Rightarrow> u32 \<Rightarrow> (heap \<times> u32) option" where
  "c_calloc pool h nmemb sz =
     (case c_malloc pool h (nmemb * sz) of
        None \<Rightarrow> None
      | Some (h, p) \<Rightarrow>
          Some (if p \<noteq> 0 then h\<lparr>hmem := fst (memset (hmem h) p 0 (nmemb * sz))\<rparr> else h, p))"

definition c_realloc :: "u32 \<Rightarrow> heap \<Rightarrow> u32 \<Rightarrow> u32 \<Rightarrow> (heap \<times> u32) option" where
  "c_realloc pool h ptr sz =
     (if ptr \<noteq> 0 then
        if sz = 0 then Some (c_free h ptr, 0)
        else
          case c_malloc pool h sz of
            None \<Rightarrow> None
          | Some (h, p) \<Rightarrow>
              Some
               (if p \<noteq> 0 then
                  let old_size = block_size (hmem h) ptr;
                      m = fst (memcpy (hmem h) p ptr (if old_size < sz then old_size else sz))
                  in c_free (h\<lparr>hmem := m\<rparr>) ptr
                else h, p)
      else c_malloc pool h sz)"

section \<open>Words of the pool\<close>

text \<open>Word \<open>x\<close> of the pool, of which block \<open>i\<close> has the words from \<open>4 * i\<close> on.\<close>

abbreviation blocks_N :: nat where "blocks_N \<equiv> 16384"

definition waddr :: "u32 \<Rightarrow> nat \<Rightarrow> u32" where
  "waddr pool x = pool + of_nat (4 * x)"

lemma waddr_field:
  "waddr pool (4 * i) + 4 = waddr pool (4 * i + 1)" "waddr pool (4 * i) + 8 = waddr pool (4 * i + 2)"
  "waddr pool (4 * i + 1) - 4 = waddr pool (4 * i)"
  by (simp_all add: waddr_def)

lemma waddr_blocks: "waddr pool (4 * i) + push_bit 4 (of_nat l) = waddr pool (4 * (i + l))"
  by (simp add: waddr_def push_bit_eq_mult algebra_simps)

lemma waddr_diff:
  assumes "x < 1073741824" "y < 1073741824" "x \<noteq> y" "d < 4"
  shows "4 \<le> unat (waddr pool y + of_nat d - waddr pool x)"
proof -
  have e: "waddr pool y + of_nat d - waddr pool x = of_nat (4 * y + d) - of_nat (4 * x)" by (simp add: waddr_def)
  show ?thesis
  proof (cases "x < y")
    case True
    then have "(of_nat (4 * y + d) :: u32) - of_nat (4 * x) = of_nat (4 * y + d - 4 * x)" by (simp add: of_nat_diff)
    then show ?thesis unfolding e using True assms by (simp only: unat_of_nat32)
  next
    case False
    let ?k = "4294967296 + (4 * y + d) - 4 * x"
    have "(of_nat ?k :: u32) = of_nat (4294967296 + (4 * y + d)) - of_nat (4 * x)"
      using assms by (intro of_nat_diff) simp
    then have "(of_nat (4 * y + d) :: u32) - of_nat (4 * x) = of_nat ?k" by (simp add: of_nat_add)
    moreover have "?k < 4294967296" "4 \<le> ?k" using False assms by simp_all
    ultimately show ?thesis unfolding e by (simp only: unat_of_nat32)
  qed
qed

lemma waddr_inj: "x < 1073741824 \<Longrightarrow> y < 1073741824 \<Longrightarrow> waddr pool x = waddr pool y \<longleftrightarrow> x = y"
  using waddr_diff[of x y 0 pool] by fastforce

lemma load_store_waddr:
  assumes "x < 1073741824" "y < 1073741824"
  shows "load32 (store32 m (waddr pool x) v) (waddr pool y) = (if x = y then v else load32 m (waddr pool y))"
proof (cases "x = y")
  case False
  have "store32 m (waddr pool x) v (waddr pool y + of_nat d) = m (waddr pool y + of_nat d)" if "d < 4" for d
    using waddr_diff[OF assms False that] by (rule store32_other)
  from this[of 0] this[of 1] this[of 2] this[of 3] show ?thesis using False by (simp add: load32_def)
qed (simp add: load32_store32)

section \<open>Chunks and the free list\<close>

text \<open>The chunks of the pool: at the index of its first block, whether a chunk is reserved and its number of blocks.\<close>

type_synonym chunks = "nat \<Rightarrow> (bool \<times> nat) option"

definition tiling :: "chunks \<Rightarrow> bool" where
  "tiling C \<longleftrightarrow> C 0 \<noteq> None \<and>
     (\<forall>i r l. C i = Some (r, l) \<longrightarrow>
        0 < l \<and> i + l \<le> blocks_N \<and> (i + l < blocks_N \<longrightarrow> C (i + l) \<noteq> None) \<and> (\<forall>j. i < j \<and> j < i + l \<longrightarrow> C j = None))"

definition frees :: "chunks \<Rightarrow> nat set" where
  "frees C = {i. \<exists>l. C i = Some (False, l)}"

lemma frees_upd:
  "frees (C(i := Some (r, l))) = (if r then frees C - {i} else insert i (frees C))"
  "frees (C(i := None)) = frees C - {i}"
  by (auto simp: frees_def)

definition hdr :: "bool \<Rightarrow> nat \<Rightarrow> u32" where
  "hdr r l = push_bit 31 (of_bool r) OR of_nat l"

definition heads :: "u32 \<Rightarrow> mem \<Rightarrow> chunks \<Rightarrow> bool" where
  "heads pool m C \<longleftrightarrow>
     (\<forall>i r l. C i = Some (r, l) \<longrightarrow> load32 m (waddr pool (4 * i)) = hdr r l) \<and>
     load32 m (waddr pool (4 * blocks_N)) = hdr True 0"

fun linked :: "u32 \<Rightarrow> mem \<Rightarrow> nat list \<Rightarrow> bool" where
  "linked pool m (a # b # xs) \<longleftrightarrow>
     load32 m (waddr pool (4 * a + 1)) = waddr pool (4 * b) \<and>
     load32 m (waddr pool (4 * b + 2)) = waddr pool (4 * a) \<and> linked pool m (b # xs)"
| "linked pool m xs = True"

definition links :: "u32 \<Rightarrow> mem \<Rightarrow> chunks \<Rightarrow> nat list \<Rightarrow> bool" where
  "links pool m C fl \<longleftrightarrow>
     distinct fl \<and> set fl = frees C \<and> linked pool m (blocks_N # fl @ [blocks_N])"

lemma linked_append: "linked pool m (xs @ a # ys) \<longleftrightarrow> linked pool m (xs @ [a]) \<and> linked pool m (a # ys)"
proof (induction xs)
  case (Cons x xs)
  then show ?case by (cases xs) auto
qed simp

lemma linked_cong:
  assumes "\<And>a. a \<in> set (butlast xs) \<Longrightarrow> load32 m' (waddr pool (4 * a + 1)) = load32 m (waddr pool (4 * a + 1))"
    and "\<And>b. b \<in> set (tl xs) \<Longrightarrow> load32 m' (waddr pool (4 * b + 2)) = load32 m (waddr pool (4 * b + 2))"
  shows "linked pool m' xs = linked pool m xs"
  using assms
proof (induction xs)
  case (Cons x xs)
  show ?case
  proof (cases xs)
    case (Cons y ys)
    have "linked pool m' (y # ys) = linked pool m (y # ys)"
      unfolding Cons[symmetric]
      by (rule Cons.IH) (use Cons.prems Cons in \<open>auto split: if_splits dest: list.set_sel(2)\<close>)
    then show ?thesis using Cons.prems[of x] Cons.prems(2)[of y] Cons by simp
  qed simp
qed simp

lemma tiling_block:
  assumes "tiling C" "C i = Some (r, l)"
  shows "0 < l" "i + l \<le> blocks_N" "i < blocks_N"
  using assms unfolding tiling_def by (meson add_lessD1 order_less_le_trans less_add_same_cancel1)+

text \<open>Two memories that differ only in the heads and links of the blocks \<open>S\<close>.\<close>

definition frame :: "u32 \<Rightarrow> nat set \<Rightarrow> mem \<Rightarrow> mem \<Rightarrow> bool" where
  "frame pool S m m' \<longleftrightarrow> (\<forall>p. (\<forall>j\<in>S. 12 \<le> unat (p - waddr pool (4 * j))) \<longrightarrow> m' p = m p)"

lemma frame_refl: "frame pool S m m"
  by (simp add: frame_def)

lemma frame_trans: "frame pool S m m' \<Longrightarrow> frame pool S m' m'' \<Longrightarrow> frame pool S m m''"
  by (simp add: frame_def)

lemma frame_mono: "frame pool S m m' \<Longrightarrow> S \<subseteq> T \<Longrightarrow> frame pool T m m'"
  by (auto simp: frame_def)

lemma frame_store:
  assumes "j \<in> S" "k < 3"
  shows "frame pool S m (store32 m (waddr pool (4 * j + k)) v)"
  unfolding frame_def
proof (intro allI impI store32_other)
  fix p assume "\<forall>j\<in>S. 12 \<le> unat (p - waddr pool (4 * j))"
  then have d: "12 \<le> unat (p - waddr pool (4 * j))" using assms(1) by blast
  have e: "p - waddr pool (4 * j + k) = (p - waddr pool (4 * j)) - of_nat (4 * k)" by (simp add: waddr_def)
  have "unat (of_nat (4 * k) :: u32) = 4 * k" using assms(2) by (intro unat_of_nat32) simp
  then have "unat (p - waddr pool (4 * j + k)) = unat (p - waddr pool (4 * j)) - 4 * k"
    unfolding e using d assms(2) by (subst unat_sub) (simp_all add: word_le_nat_alt)
  then show "4 \<le> unat (p - waddr pool (4 * j + k))" using d assms(2) by simp
qed

lemma frame_insert_after:
  assumes "a \<in> S" "i \<in> S" "c \<in> S" "load32 m (waddr pool (4 * a + 1)) = waddr pool (4 * c)"
    and "a \<le> blocks_N" "c \<le> blocks_N"
  shows "frame pool S m (insert_after m (waddr pool (4 * a)) (waddr pool (4 * i)))"
proof -
  have "4 * c + 2 \<noteq> 4 * a + 1" by presburger
  then have e: "insert_after m (waddr pool (4 * a)) (waddr pool (4 * i)) =
      store32 (store32 (store32 (store32 m (waddr pool (4 * c + 2)) (waddr pool (4 * i)))
        (waddr pool (4 * i + 1)) (waddr pool (4 * c))) (waddr pool (4 * i + 2)) (waddr pool (4 * a)))
        (waddr pool (4 * a + 1)) (waddr pool (4 * i))"
    using assms(4-6) by (simp add: insert_after_def Let_def blk_next_def waddr_field load_store_waddr)
  show ?thesis unfolding e
    by (rule frame_trans[OF frame_trans[OF frame_trans[OF frame_store frame_store] frame_store] frame_store])
      (use assms(1-3) in simp_all)
qed

lemma frame_unlink:
  assumes "b \<in> S" "c \<in> S" "load32 m (waddr pool (4 * a + 1)) = waddr pool (4 * c)"
    "load32 m (waddr pool (4 * a + 2)) = waddr pool (4 * b)" and "a \<le> blocks_N" "b \<le> blocks_N" "a \<noteq> b"
  shows "frame pool S m (unlink m (waddr pool (4 * a)))"
proof -
  have "4 * a + 2 \<noteq> 4 * b + 1" by presburger
  then have u: "unlink m (waddr pool (4 * a)) =
      store32 (store32 m (waddr pool (4 * b + 1)) (waddr pool (4 * c))) (waddr pool (4 * c + 2)) (waddr pool (4 * b))"
    using assms(3-7) by (simp add: unlink_def Let_def blk_next_def blk_prev_def waddr_field load_store_waddr)
  show ?thesis unfolding u by (rule frame_trans[OF frame_store frame_store]) (use assms in simp_all)
qed

lemma frame_set_head: "i \<in> S \<Longrightarrow> frame pool S m (set_head m (waddr pool (4 * i)) r l)"
  using frame_store[of i S 0 pool m] by (simp add: set_head_def)

section \<open>Effects on words\<close>

lemma insert_after_words:
  assumes "a \<le> blocks_N" "i \<le> blocks_N" "c \<le> blocks_N" "i \<noteq> a" "i \<noteq> c"
    and "load32 m (waddr pool (4 * a + 1)) = waddr pool (4 * c)" "x < 1073741824"
  shows "load32 (insert_after m (waddr pool (4 * a)) (waddr pool (4 * i))) (waddr pool x) =
    (if x = 4 * a + 1 then waddr pool (4 * i) else if x = 4 * i + 2 then waddr pool (4 * a)
     else if x = 4 * i + 1 then waddr pool (4 * c) else if x = 4 * c + 2 then waddr pool (4 * i)
     else load32 m (waddr pool x))"
proof -
  have "4 * c + 2 \<noteq> 4 * a + 1" by presburger
  then show ?thesis using assms
    by (simp add: insert_after_def Let_def blk_next_def waddr_field load_store_waddr)
qed

lemma unlink_words:
  assumes "a \<le> blocks_N" "b \<le> blocks_N" "c \<le> blocks_N" "a \<noteq> b" "x < 1073741824"
    and "load32 m (waddr pool (4 * a + 1)) = waddr pool (4 * c)" "load32 m (waddr pool (4 * a + 2)) = waddr pool (4 * b)"
  shows "load32 (unlink m (waddr pool (4 * a))) (waddr pool x) =
    (if x = 4 * b + 1 then waddr pool (4 * c) else if x = 4 * c + 2 then waddr pool (4 * b) else load32 m (waddr pool x))"
proof -
  have "4 * b + 1 \<noteq> 4 * a + 2" by presburger
  then show ?thesis using assms
    by (simp add: unlink_def Let_def blk_next_def blk_prev_def waddr_field load_store_waddr) presburger
qed

lemma set_head_words:
  assumes "i \<le> blocks_N" "x < 1073741824"
  shows "load32 (set_head m (waddr pool (4 * i)) r l) (waddr pool x) =
    (if x = 4 * i then push_bit 31 r OR l else load32 m (waddr pool x))"
  using assms by (auto simp: set_head_def load_store_waddr)

lemma set_head_linked:
  assumes "i \<le> blocks_N" "set xs \<subseteq> {..blocks_N}"
  shows "linked pool (set_head m (waddr pool (4 * i)) r l) xs = linked pool m xs"
proof (rule linked_cong)
  have ne: "4 * j + 1 \<noteq> 4 * i" "4 * j + 2 \<noteq> 4 * i" for j by presburger+
  have lt: "j \<in> set xs \<Longrightarrow> j \<le> blocks_N" for j using assms(2) by auto
  fix j
  show "load32 (set_head m (waddr pool (4 * i)) r l) (waddr pool (4 * j + 1)) = load32 m (waddr pool (4 * j + 1))"
    if "j \<in> set (butlast xs)"
    using lt[OF in_set_butlastD[OF that]] ne assms(1) by (simp add: set_head_words)
  have "set (tl xs) \<subseteq> set xs" by (cases xs) auto
  then show "load32 (set_head m (waddr pool (4 * i)) r l) (waddr pool (4 * j + 2)) = load32 m (waddr pool (4 * j + 2))"
    if "j \<in> set (tl xs)"
    using lt[of j] that ne assms(1) by (auto simp: set_head_words)
qed

lemma insert_after_linked:
  assumes "linked pool m (blocks_N # fl @ [blocks_N])" "set fl \<subseteq> {..<blocks_N}" "distinct fl"
    and "i < blocks_N" "i \<notin> set fl"
  defines "m' \<equiv> insert_after m (waddr pool (4 * blocks_N)) (waddr pool (4 * i))"
  shows "linked pool m' (blocks_N # i # fl @ [blocks_N])"
    "x mod 4 = 0 \<Longrightarrow> x < 1073741824 \<Longrightarrow> load32 m' (waddr pool x) = load32 m (waddr pool x)"
    "frame pool (insert i (insert blocks_N (set fl))) m m'"
proof -
  obtain b vs where b: "fl @ [blocks_N] = b # vs" by (cases fl) auto
  have bN: "b \<le> blocks_N" "i \<noteq> b" using b assms(2,4,5) by (cases fl; auto)+
  have first: "load32 m (waddr pool (4 * blocks_N + 1)) = waddr pool (4 * b)" "linked pool m (b # vs)"
    using assms(1) unfolding b by simp_all
  have "b \<in> insert blocks_N (set fl)" using b by (cases fl) auto
  then show "frame pool (insert i (insert blocks_N (set fl))) m m'"
    unfolding m'_def using bN first by (intro frame_insert_after[where c = b]) auto
  note w = insert_after_words[OF order_refl less_imp_le[OF assms(4)] bN(1) _ bN(2) first(1), folded m'_def]
  have src: "set (butlast (b # vs)) = set fl" using arg_cong[OF b, of butlast] by simp
  have "distinct (b # vs)" unfolding b[symmetric] using assms(2,3) by auto
  then have vs: "b \<notin> set vs" "i \<notin> set vs" using b assms(4,5) by (cases fl; auto)+
  have rest: "linked pool m' (b # vs) = linked pool m (b # vs)"
  proof (rule linked_cong)
    fix a assume "a \<in> set (butlast (b # vs))"
    then have "a \<in> set fl" using src by simp
    then have "a \<noteq> blocks_N" "a \<noteq> i" "a < blocks_N" using assms(2,5) by auto
    moreover have "4 * a + 1 \<noteq> 4 * c + 2" for c by presburger
    ultimately show "load32 m' (waddr pool (4 * a + 1)) = load32 m (waddr pool (4 * a + 1))"
      using assms(4) by (simp add: w)
  next
    fix a assume "a \<in> set (tl (b # vs))"
    then have "a \<noteq> b" "a \<noteq> i" "a \<le> blocks_N" using vs b assms(2) by (cases fl; auto)+
    moreover have "4 * a + 2 \<noteq> 4 * c + 1" "4 * a \<noteq> 65535" for c by presburger+
    ultimately show "load32 m' (waddr pool (4 * a + 2)) = load32 m (waddr pool (4 * a + 2))"
      using assms(4) by (simp add: w)
  qed
  have ne: "4 * i + 1 \<noteq> 4 * blocks_N + 1" "4 * b + 2 \<noteq> 4 * i + 2" using assms(4) bN(2) by simp_all
  have od: "4 * c + 2 \<noteq> 4 * d + 1" "4 * c + 1 \<noteq> 4 * d + 2" for c d :: nat by presburger+
  show "linked pool m' (blocks_N # i # fl @ [blocks_N])"
    unfolding append_Cons b using rest first(2) assms(4) bN ne od by (simp add: w)
  assume "x mod 4 = 0" "x < 1073741824"
  moreover have "x \<noteq> 4 * c + 1" "x \<noteq> 4 * c + 2" "x \<noteq> 65537" for c using \<open>x mod 4 = 0\<close> by presburger+
  ultimately show "load32 m' (waddr pool x) = load32 m (waddr pool x)" using assms(4) by (simp add: w)
qed

lemma unlink_linked:
  assumes "linked pool m (blocks_N # xs @ i # ys @ [blocks_N])" "set (xs @ i # ys) \<subseteq> {..<blocks_N}" "distinct (xs @ i # ys)"
  defines "m' \<equiv> unlink m (waddr pool (4 * i))"
  shows "linked pool m' (blocks_N # xs @ ys @ [blocks_N])"
    "x mod 4 = 0 \<Longrightarrow> x < 1073741824 \<Longrightarrow> load32 m' (waddr pool x) = load32 m (waddr pool x)"
    "frame pool (insert blocks_N (set xs \<union> set ys)) m m'"
proof -
  obtain us b where b: "blocks_N # xs = us @ [b]" by (metis append_butlast_last_id list.distinct(1))
  obtain c vs where c: "ys @ [blocks_N] = c # vs" by (cases ys) auto
  have i: "i < blocks_N" "i \<notin> set xs" "i \<notin> set ys" using assms(2,3) by auto
  have "b \<in> set (blocks_N # xs)" "c \<in> set (ys @ [blocks_N])" unfolding b c by simp_all
  then have bc: "b \<le> blocks_N" "c \<le> blocks_N" "i \<noteq> b" using assms(2) i by auto
  have L: "linked pool m (us @ [b])" "linked pool m (b # i # c # vs)"
    using assms(1) linked_append[of pool m us b "i # c # vs"] b c by (metis append.assoc append_Cons append_Nil)+
  note w = unlink_words[OF less_imp_le[OF i(1)] bc(1,2,3)]
  have old: "load32 m (waddr pool (4 * i + 1)) = waddr pool (4 * c)" "load32 m (waddr pool (4 * i + 2)) = waddr pool (4 * b)"
    using L(2) by simp_all
  have "b \<in> insert blocks_N (set xs \<union> set ys)" "c \<in> insert blocks_N (set xs \<union> set ys)"
    using \<open>b \<in> set (blocks_N # xs)\<close> \<open>c \<in> set (ys @ [blocks_N])\<close> by auto
  then show "frame pool (insert blocks_N (set xs \<union> set ys)) m m'"
    unfolding m'_def using bc i old by (intro frame_unlink[where b = b and c = c]) auto
  note w = w[OF _ old, folded m'_def]
  have od: "4 * d + 2 \<noteq> 4 * e + 1" "4 * d + 1 \<noteq> 4 * e + 2" for d e :: nat by presburger+
  have dL: "distinct (us @ [b])" "distinct (c # vs)" unfolding b[symmetric] c[symmetric] using assms(2,3) by auto
  have sub: "set us \<subseteq> {..blocks_N}" "set (tl (us @ [b])) = set xs" "set (butlast (c # vs)) = set ys" "set vs \<subseteq> {..blocks_N}"
  proof -
    have "set us \<subseteq> set (blocks_N # xs)" unfolding b by auto
    then show "set us \<subseteq> {..blocks_N}" using assms(2) by auto
    show "set (tl (us @ [b])) = set xs" unfolding b[symmetric] by simp
    show "set (butlast (c # vs)) = set ys" unfolding c[symmetric] by simp
    have "set vs \<subseteq> set (ys @ [blocks_N])" unfolding c by auto
    then show "set vs \<subseteq> {..blocks_N}" using assms(2) by auto
  qed
  have cx: "c \<notin> set xs" "b \<notin> set ys"
    using assms(2,3) \<open>c \<in> set (ys @ [blocks_N])\<close> \<open>b \<in> set (blocks_N # xs)\<close> by auto
  have l1: "linked pool m' (us @ [b]) = linked pool m (us @ [b])"
  proof (rule linked_cong)
    fix a assume "a \<in> set (butlast (us @ [b]))"
    then have "a \<noteq> b" "a \<le> blocks_N" using dL sub(1) by auto
    then show "load32 m' (waddr pool (4 * a + 1)) = load32 m (waddr pool (4 * a + 1))" using od by (simp add: w)
  next
    fix a assume "a \<in> set (tl (us @ [b]))"
    then have "a \<noteq> c" "a \<le> blocks_N" using cx assms(2) unfolding sub by auto
    then show "load32 m' (waddr pool (4 * a + 2)) = load32 m (waddr pool (4 * a + 2))" using od by (simp add: w)
  qed
  have l2: "linked pool m' (c # vs) = linked pool m (c # vs)"
  proof (rule linked_cong)
    fix a assume "a \<in> set (butlast (c # vs))"
    then have "a \<noteq> b" "a \<le> blocks_N" using cx assms(2) unfolding sub by auto
    then show "load32 m' (waddr pool (4 * a + 1)) = load32 m (waddr pool (4 * a + 1))" using od by (simp add: w)
  next
    fix a assume "a \<in> set (tl (c # vs))"
    then have "a \<noteq> c" "a \<le> blocks_N" using dL sub(4) by auto
    then show "load32 m' (waddr pool (4 * a + 2)) = load32 m (waddr pool (4 * a + 2))" using od by (simp add: w)
  qed
  have "linked pool m' (b # c # vs)" using l2 L(2) bc od by (simp add: w)
  moreover have "blocks_N # xs @ ys @ [blocks_N] = us @ b # c # vs" using b c by (metis append_Cons append.assoc append_Nil)
  ultimately show "linked pool m' (blocks_N # xs @ ys @ [blocks_N])"
    using linked_append[of pool m' us b "c # vs"] l1 L(1) by simp
  assume "x mod 4 = 0" "x < 1073741824"
  moreover have "x \<noteq> 4 * d + 1" "x \<noteq> 4 * d + 2" for d using \<open>x mod 4 = 0\<close> by presburger+
  ultimately show "load32 m' (waddr pool x) = load32 m (waddr pool x)" by (simp add: w)
qed

section \<open>Merging\<close>

text \<open>The reserved chunks, and the blocks they occupy.\<close>

definition resv :: "chunks \<Rightarrow> nat \<Rightarrow> nat option" where
  "resv C i = (case C i of Some (True, l) \<Rightarrow> Some l | _ \<Rightarrow> None)"

definition occupied :: "(nat \<Rightarrow> nat option) \<Rightarrow> nat set" where
  "occupied R = {j. \<exists>i l. R i = Some l \<and> i \<le> j \<and> j < i + l}"

definition vacant :: "(nat \<Rightarrow> nat option) \<Rightarrow> nat set" where
  "vacant R = {j. j \<le> blocks_N \<and> j \<notin> occupied R}"

definition pool_inv :: "u32 \<Rightarrow> mem \<Rightarrow> chunks \<Rightarrow> nat list \<Rightarrow> bool" where
  "pool_inv pool m C fl \<longleftrightarrow> tiling C \<and> heads pool m C \<and> links pool m C fl"

lemma resv_Some [simp]: "resv C i = Some l \<longleftrightarrow> C i = Some (True, l)"
  by (auto simp: resv_def split: option.splits bool.splits)

lemma tiling_apart:
  assumes "tiling C" "C i = Some (r, l)" "C j = Some (s, k)" "i < j"
  shows "i + l \<le> j"
proof (rule ccontr)
  assume "\<not> i + l \<le> j"
  then have "C j = None" using assms unfolding tiling_def by (meson not_le)
  then show False using assms(3) by simp
qed

lemma free_vacant:
  assumes "tiling C" "C i = Some (False, l)" "i \<le> j" "j < i + l"
  shows "j \<in> vacant (resv C)"
proof -
  have "j \<le> blocks_N" using tiling_block[OF assms(1,2)] assms(4) by simp
  moreover have "\<not> (k \<le> j \<and> j < k + n)" if "C k = Some (True, n)" for k n
    using tiling_apart[OF assms(1,2) that] tiling_apart[OF assms(1) that assms(2)] assms(2-4) that
    by (cases i k rule: linorder_cases) auto
  ultimately show ?thesis by (auto simp: vacant_def occupied_def)
qed

lemma end_vacant: "tiling C \<Longrightarrow> blocks_N \<in> vacant (resv C)"
  using tiling_block by (fastforce simp: vacant_def occupied_def)

lemma frees_vacant: "tiling C \<Longrightarrow> frees C \<subseteq> vacant (resv C)"
  using free_vacant tiling_block(1) by (fastforce simp: frees_def)

lemma frees_less: "tiling C \<Longrightarrow> frees C \<subseteq> {..<blocks_N}"
  using tiling_block(3) by (fastforce simp: frees_def)

lemma hdr_bits:
  assumes "l \<le> blocks_N"
  shows "hdr r l AND HDR_LENGTH = of_nat l" "hdr r l AND HDR_RESERVED \<noteq> 0 \<longleftrightarrow> r"
proof -
  have "unat (of_nat l :: u32) < 2 ^ 31" using assms by (subst unat_of_nat32) simp_all
  then have l: "31 \<le> n \<Longrightarrow> \<not> bit (of_nat l :: u32) n" for n using bit_less_unat[of "of_nat l :: u32" 31 n] by auto
  show "hdr r l AND HDR_LENGTH = of_nat l"
    by (rule bit_word_eqI) (auto simp: l hdr_def HDR_LENGTH_def bit_or_iff bit_and_iff bit_not_iff bit_push_bit_iff bit_1_iff simp del: push_bit_of_1)
  have "hdr r l AND HDR_RESERVED = (if r then HDR_RESERVED else 0)"
    by (rule bit_word_eqI) (auto simp: l hdr_def HDR_RESERVED_def bit_or_iff bit_and_iff bit_push_bit_iff bit_1_iff simp del: push_bit_of_1)
  then show "hdr r l AND HDR_RESERVED \<noteq> 0 \<longleftrightarrow> r" by (simp add: HDR_RESERVED_def)
qed

lemma head_facts:
  assumes "pool_inv pool m C fl" "C i = Some (r, l)"
  shows "blk_length m (waddr pool (4 * i)) = of_nat l" "is_reserved m (waddr pool (4 * i)) \<longleftrightarrow> r"
proof -
  have "load32 m (waddr pool (4 * i)) = hdr r l" "l \<le> blocks_N"
    using assms tiling_block[of C i r l] by (auto simp: pool_inv_def heads_def)
  then show "blk_length m (waddr pool (4 * i)) = of_nat l" "is_reserved m (waddr pool (4 * i)) \<longleftrightarrow> r"
    by (simp_all add: blk_length_def is_reserved_def blk_head_def hdr_bits)
qed

lemma end_reserved: "pool_inv pool m C fl \<Longrightarrow> is_reserved m (waddr pool (4 * blocks_N))"
  using hdr_bits[of 0 True] by (simp add: is_reserved_def blk_head_def pool_inv_def heads_def)

lemma tiling_merge:
  assumes T: "tiling C" and i: "C i = Some (False, l)" and k: "C (i + l) = Some (False, k)"
  shows "tiling ((C(i \<mapsto> (False, l + k)))(i + l := None))"
proof -
  let ?C = "(C(i \<mapsto> (False, l + k)))(i + l := None)"
  note bi = tiling_block[OF T i] and bk = tiling_block[OF T k]
  have inner: "C j = None" if "i < j" "j < i + l + k" "j \<noteq> i + l" for j
    using T i k that unfolding tiling_def by (metis linorder_neqE_nat)
  have next_k: "i + l + k < blocks_N \<Longrightarrow> C (i + l + k) \<noteq> None" using T k unfolding tiling_def by blast
  have other: "0 < n \<and> j + n \<le> blocks_N \<and> (j + n < blocks_N \<longrightarrow> ?C (j + n) \<noteq> None) \<and> (\<forall>d. j < d \<and> d < j + n \<longrightarrow> ?C d = None)"
    if j: "C j = Some (r, n)" "j \<noteq> i" "j \<noteq> i + l" for j r n
  proof -
    have t: "0 < n" "j + n \<le> blocks_N" "j + n < blocks_N \<longrightarrow> C (j + n) \<noteq> None" "\<forall>d. j < d \<and> d < j + n \<longrightarrow> C d = None"
      using T j(1) unfolding tiling_def by blast+
    have "j + n \<noteq> i + l" using t i j inner bi by (metis add.commute add_less_mono1 less_add_same_cancel1 linorder_neqE_nat option.distinct(1) trans_less_add1)
    moreover have "\<not> (j < i \<and> i < j + n)" using t(4) i by force
    ultimately show ?thesis using t by auto
  qed
  have "?C 0 \<noteq> None" using T bi by (auto simp: tiling_def)
  then show ?thesis unfolding tiling_def
    using other bi bk inner next_k by (auto simp: add.assoc split: if_splits)
qed

lemma merge_step:
  assumes inv: "pool_inv pool m C (xs @ i # ys)" and i: "C i = Some (False, l)" and k: "C (i + l) = Some (False, k)"
  defines "m' \<equiv> set_head (unlink m (waddr pool (4 * (i + l)))) (waddr pool (4 * i)) 0 (of_nat (l + k))"
    and "C' \<equiv> (C(i \<mapsto> (False, l + k)))(i + l := None)"
  shows "pool_inv pool m' C' (remove1 (i + l) (xs @ i # ys))" "resv C' = resv C"
    "frame pool (vacant (resv C)) m m'"
proof -
  let ?fl = "xs @ i # ys" and ?s = "i + l"
  have T: "tiling C" and H: "heads pool m C" and L: "links pool m C ?fl" using inv by (auto simp: pool_inv_def)
  note bi = tiling_block[OF T i] and bk = tiling_block[OF T k]
  have fl: "set ?fl = frees C" "distinct ?fl" "linked pool m (blocks_N # ?fl @ [blocks_N])" using L by (auto simp: links_def)
  have sub: "set ?fl \<subseteq> {..<blocks_N}" using fl(1) frees_less[OF T] by simp
  have "?s \<in> set ?fl" using k fl(1) by (auto simp: frees_def)
  then obtain us vs where uv: "?fl = us @ ?s # vs" "?s \<notin> set us" by (meson split_list_first)
  have rem: "remove1 ?s ?fl = us @ vs" unfolding uv(1) using uv(2) by (simp add: remove1_append)
  note un = unlink_linked[of pool m us ?s vs, folded append_Cons append_assoc uv(1)]
  have lk: "linked pool m (blocks_N # us @ ?s # vs @ [blocks_N])" using fl(3) uv(1) by simp
  have sub': "set (us @ ?s # vs) \<subseteq> {..<blocks_N}" "distinct (us @ ?s # vs)" using sub fl(2) unfolding uv(1) by simp_all
  note un = unlink_linked[OF lk sub']
  let ?u = "unlink m (waddr pool (4 * ?s))"
  have sh: "load32 m' (waddr pool x) = (if x = 4 * i then hdr False (l + k) else load32 ?u (waddr pool x))" if "x < 1073741824" for x
    using set_head_words[of i x] bi that by (simp add: m'_def hdr_def)
  have head: "load32 m' (waddr pool (4 * j)) = load32 m (waddr pool (4 * j))" if "j \<noteq> i" "j \<le> blocks_N" for j
    using that sh[of "4 * j"] un(2)[of "4 * j"] by simp
  show R: "resv C' = resv C" using i k by (auto simp: C'_def resv_def fun_eq_iff)
  show "pool_inv pool m' C' (remove1 ?s ?fl)"
    unfolding pool_inv_def
  proof (intro conjI)
    show "tiling C'" unfolding C'_def by (rule tiling_merge[OF T i k])
    show "heads pool m' C'" unfolding heads_def
    proof (intro conjI allI impI)
      fix j r n assume j: "C' j = Some (r, n)"
      show "load32 m' (waddr pool (4 * j)) = hdr r n"
      proof (cases "j = i")
        case True
        then show ?thesis using j sh[of "4 * i"] bi by (simp add: C'_def split: if_splits)
      next
        case False
        then have "C j = Some (r, n)" using j by (simp add: C'_def split: if_splits)
        then have "load32 m (waddr pool (4 * j)) = hdr r n" "j \<le> blocks_N"
          using H tiling_block(3)[OF T, of j r n] by (auto simp: heads_def)
        then show ?thesis using head[OF False] by simp
      qed
    next
      show "load32 m' (waddr pool (4 * blocks_N)) = hdr True 0" using head[of blocks_N] bi H by (auto simp: heads_def)
    qed
    have "linked pool m' (blocks_N # us @ vs @ [blocks_N]) = linked pool ?u (blocks_N # us @ vs @ [blocks_N])"
      unfolding m'_def using bi sub' by (intro set_head_linked) auto
    moreover have "set (us @ vs) = frees C'"
    proof -
      have "set (us @ vs) = set ?fl - {?s}" using uv(1) sub'(2) by auto
      moreover have "i \<in> frees C" using i by (auto simp: frees_def)
      ultimately show ?thesis unfolding fl(1) C'_def frees_upd by (simp add: insert_absorb)
    qed
    ultimately show "links pool m' C' (remove1 ?s ?fl)" unfolding links_def rem using un(1) sub'(2) by simp
  qed
  have "insert blocks_N (set us \<union> set vs) \<subseteq> vacant (resv C)"
    using frees_vacant[OF T] end_vacant[OF T] fl(1) unfolding uv(1) by auto
  moreover have "i \<in> vacant (resv C)" using frees_vacant[OF T] i by (auto simp: frees_def)
  ultimately show "frame pool (vacant (resv C)) m m'"
    unfolding m'_def by (intro frame_trans[OF frame_mono[OF un(3)] frame_set_head])
qed

lemma malloc_merge_value:
  assumes "pool_inv pool m C (xs @ i # ys)" "C i = Some (False, l)"
  shows "\<exists>m' C' l' xs' ys'. malloc_merge m (waddr pool (4 * i)) (of_nat l) = Some (m', of_nat l') \<and>
    pool_inv pool m' C' (xs' @ i # ys') \<and> C' i = Some (False, l') \<and>
    (i + l' = blocks_N \<or> (\<exists>k. C' (i + l') = Some (True, k))) \<and> resv C' = resv C \<and>
    set xs' \<subseteq> set xs \<and> length ys' \<le> length ys \<and> (\<forall>j\<in>set xs'. C' j = C j) \<and> frame pool (vacant (resv C)) m m'"
  using assms
proof (induction "length (xs @ ys)" arbitrary: m C xs ys l rule: less_induct)
  case less
  have T: "tiling C" using less.prems(1) by (simp add: pool_inv_def)
  note b = tiling_block[OF T less.prems(2)]
  have succ: "waddr pool (4 * i) + push_bit 4 (of_nat l) = waddr pool (4 * (i + l))" by (rule waddr_blocks)
  consider (stop) "i + l = blocks_N \<or> (\<exists>k. C (i + l) = Some (True, k))" | (go) k where "C (i + l) = Some (False, k)"
  proof (cases "i + l = blocks_N")
    case False
    then have "C (i + l) \<noteq> None" using T less.prems(2) b unfolding tiling_def by (meson le_neq_implies_less)
    then show ?thesis using that by (metis option.exhaust surj_pair)
  qed (use that in blast)
  then show ?case
  proof cases
    case stop
    then have "is_reserved m (waddr pool (4 * (i + l)))"
      using end_reserved[OF less.prems(1)] head_facts(2)[OF less.prems(1), of "i + l" True] by metis
    then have "malloc_merge m (waddr pool (4 * i)) (of_nat l) = Some (m, of_nat l)"
      by (subst malloc_merge.simps) (simp add: succ Let_def)
    then show ?thesis using stop less.prems frame_refl by blast
  next
    case go
    let ?C = "(C(i \<mapsto> (False, l + k)))(i + l := None)"
    let ?m = "set_head (unlink m (waddr pool (4 * (i + l)))) (waddr pool (4 * i)) 0 (of_nat (l + k))"
    let ?xs = "if i + l \<in> set xs then remove1 (i + l) xs else xs" and ?ys = "if i + l \<in> set xs then ys else remove1 (i + l) ys"
    note step = merge_step[OF less.prems go]
    have dist: "distinct (xs @ i # ys)" "set (xs @ i # ys) = frees C" using less.prems(1) by (auto simp: pool_inv_def links_def)
    have "remove1 (i + l) (xs @ i # ys) = ?xs @ i # ?ys" using b by (simp add: remove1_append)
    then have inv: "pool_inv pool ?m ?C (?xs @ i # ?ys)" using step(1) by simp
    have mem: "i + l \<in> set (xs @ i # ys)" using go dist(2) by (auto simp: frees_def)
    then have len: "length (?xs @ ?ys) < length (xs @ ys)"
      using b by (auto simp: length_remove1 dest: length_pos_if_in_set)
    have "\<not> is_reserved m (waddr pool (4 * (i + l)))" "blk_length m (waddr pool (4 * (i + l))) = of_nat k"
      using head_facts[OF less.prems(1) go] by simp_all
    then have code: "malloc_merge m (waddr pool (4 * i)) (of_nat l) = malloc_merge ?m (waddr pool (4 * i)) (of_nat (l + k))"
      by (subst malloc_merge.simps) (simp add: succ Let_def)
    have Ci: "?C i = Some (False, l + k)" using b by simp
    obtain m' C' l' xs' ys' where IH:
      "malloc_merge ?m (waddr pool (4 * i)) (of_nat (l + k)) = Some (m', of_nat l')"
      "pool_inv pool m' C' (xs' @ i # ys')" "C' i = Some (False, l')"
      "i + l' = blocks_N \<or> (\<exists>k. C' (i + l') = Some (True, k))" "resv C' = resv ?C"
      "set xs' \<subseteq> set ?xs" "length ys' \<le> length ?ys" "\<forall>j\<in>set xs'. C' j = ?C j" "frame pool (vacant (resv ?C)) ?m m'"
      using less.hyps[OF len inv Ci] by blast
    have xs: "set ?xs \<subseteq> set xs" "i \<notin> set ?xs" "i + l \<notin> set ?xs"
      using dist(1) set_remove1_subset[of "i + l" xs] by (auto split: if_splits)
    have ys: "length ?ys \<le> length ys" by (auto simp: length_remove1)
    have "\<forall>j\<in>set xs'. C' j = C j"
    proof
      fix j assume j: "j \<in> set xs'"
      then have "j \<noteq> i" "j \<noteq> i + l" using IH(6) xs by auto
      then show "C' j = C j" using IH(8) j by simp
    qed
    then show ?thesis using IH xs ys code frame_trans[OF step(3)] step(2)
      by (intro exI[of _ m'] exI[of _ C'] exI[of _ l'] exI[of _ xs'] exI[of _ ys']) (auto simp del: push_bit_of_1)
  qed
qed

section \<open>First fit\<close>

text \<open>A free chunk that cannot be extended and has fewer than \<open>b\<close> blocks.\<close>

definition short :: "chunks \<Rightarrow> nat \<Rightarrow> nat \<Rightarrow> bool" where
  "short C b j \<longleftrightarrow> (\<exists>l. C j = Some (False, l) \<and> l < b \<and> (j + l = blocks_N \<or> (\<exists>k. C (j + l) = Some (True, k))))"

lemma of_nat_less_blocks:
  "l < 4294967296 \<Longrightarrow> b < 4294967296 \<Longrightarrow> (of_nat l :: u32) < of_nat b \<longleftrightarrow> l < b"
  by (simp add: word_less_nat_alt unat_of_nat32)

lemma malloc_scan_value:
  assumes "pool_inv pool m C (xs @ ys)" "\<forall>j\<in>set xs. short C b j" "b < 4294967296"
  shows "\<exists>m' C' fl' res.
    malloc_scan m (waddr pool (4 * blocks_N)) (waddr pool (4 * last (blocks_N # xs))) (of_nat b) = Some (m', res) \<and>
    pool_inv pool m' C' fl' \<and> resv C' = resv C \<and> frame pool (vacant (resv C)) m m' \<and>
    (case res of None \<Rightarrow> \<forall>j\<in>frees C'. short C' b j
     | Some (p, len) \<Rightarrow> \<exists>i l. p = waddr pool (4 * i) \<and> len = of_nat l \<and> C' i = Some (False, l) \<and> b \<le> l)"
  using assms(1,2)
proof (induction "length ys" arbitrary: m C xs ys rule: less_induct)
  case less
  have T: "tiling C" and fl: "linked pool m (blocks_N # (xs @ ys) @ [blocks_N])" "set (xs @ ys) = frees C"
    using less.prems(1) by (auto simp: pool_inv_def links_def)
  have sub: "set (xs @ ys) \<subseteq> {..<blocks_N}" using fl(2) frees_less[OF T] by simp
  define a where "a = last (blocks_N # xs)"
  obtain c vs where c: "ys @ [blocks_N] = c # vs" by (cases ys) auto
  have "linked pool m ((butlast (blocks_N # xs) @ [a]) @ c # vs)" unfolding a_def append_butlast_last_id[OF list.distinct(2)] c[symmetric] using fl(1) by simp
  then have nxt: "blk_next m (waddr pool (4 * a)) = waddr pool (4 * c)"
    using linked_append[of pool m "butlast (blocks_N # xs)" a "c # vs"] by (simp add: blk_next_def waddr_field)
  have cN: "c \<le> blocks_N" using c sub by (cases ys) auto
  show ?case
  proof (cases ys)
    case Nil
    then have "c = blocks_N" using c by simp
    then have "malloc_scan m (waddr pool (4 * blocks_N)) (waddr pool (4 * a)) (of_nat b) = Some (m, None)"
      by (subst malloc_scan.simps) (simp add: nxt Let_def)
    then show ?thesis using less.prems fl(2) Nil frame_refl unfolding a_def[symmetric]
      by (intro exI[of _ m] exI[of _ C] exI[of _ xs] exI[of _ None]) auto
  next
    case (Cons i zs)
    then have ci: "c = i" using c by simp
    then have iN: "i < blocks_N" "i \<in> frees C" using sub fl(2) Cons by auto
    then obtain l where l: "C i = Some (False, l)" by (auto simp: frees_def)
    have ne: "waddr pool (4 * i) \<noteq> waddr pool (4 * blocks_N)" using iN by (simp add: waddr_inj)
    obtain m' C' l' xs' ys' where M: "malloc_merge m (waddr pool (4 * i)) (of_nat l) = Some (m', of_nat l')"
      "pool_inv pool m' C' (xs' @ i # ys')" "C' i = Some (False, l')"
      "i + l' = blocks_N \<or> (\<exists>k. C' (i + l') = Some (True, k))" "resv C' = resv C"
      "set xs' \<subseteq> set xs" "length ys' \<le> length zs" "\<forall>j\<in>set xs'. C' j = C j" "frame pool (vacant (resv C)) m m'"
      using malloc_merge_value[OF less.prems(1)[unfolded Cons] l] by blast
    have l': "l' \<le> blocks_N" using tiling_block[of C' i False l'] M(2,3) by (auto simp: pool_inv_def)
    have len: "blk_length m (waddr pool (4 * i)) = of_nat l" using head_facts(1)[OF less.prems(1) l] .
    have code: "malloc_scan m (waddr pool (4 * blocks_N)) (waddr pool (4 * a)) (of_nat b) =
        (if l' < b then malloc_scan m' (waddr pool (4 * blocks_N)) (waddr pool (4 * i)) (of_nat b)
         else Some (m', Some (waddr pool (4 * i), of_nat l')))"
      using l' assms(3) ne by (subst malloc_scan.simps) (simp add: nxt ci len M(1) Let_def of_nat_less_blocks)
    show ?thesis
    proof (cases "l' < b")
      case False
      then show ?thesis using code M unfolding a_def[symmetric] by (intro exI[of _ m'] exI[of _ C']) auto
    next
      case True
      have sh: "\<forall>j\<in>set (xs' @ [i]). short C' b j"
      proof
        fix j assume j: "j \<in> set (xs' @ [i])"
        show "short C' b j"
        proof (cases "j = i")
          case False
          then have js: "j \<in> set xs'" "short C b j" using j M(6) less.prems(2) by auto
          have "C' p = Some (True, k)" if "C p = Some (True, k)" for p k
            using that M(5) resv_Some[of C p k] resv_Some[of C' p k] by metis
          then show ?thesis using js M(8) unfolding short_def by metis
        qed (use M(3,4) True in \<open>auto simp: short_def\<close>)
      qed
      have "length ys' < length ys" using M(7) Cons by simp
      from less.hyps[OF this, of m' C' "xs' @ [i]"] M(2) sh
      obtain m2 C2 fl2 res where I: "malloc_scan m' (waddr pool (4 * blocks_N)) (waddr pool (4 * i)) (of_nat b) = Some (m2, res)"
        "pool_inv pool m2 C2 fl2" "resv C2 = resv C'" "frame pool (vacant (resv C')) m' m2"
        "case res of None \<Rightarrow> \<forall>j\<in>frees C2. short C2 b j
         | Some (p, len) \<Rightarrow> \<exists>i l. p = waddr pool (4 * i) \<and> len = of_nat l \<and> C2 i = Some (False, l) \<and> b \<le> l"
        by auto
      then show ?thesis using code True M(5) frame_trans[OF M(9)] unfolding a_def[symmetric]
        by (intro exI[of _ m2] exI[of _ C2] exI[of _ fl2] exI[of _ res]) auto
    qed
  qed
qed

lemma tiling_cover:
  assumes "tiling C"
  shows "j < blocks_N \<Longrightarrow> \<exists>i r l. C i = Some (r, l) \<and> i \<le> j \<and> j < i + l"
proof (induction j)
  case 0
  then obtain r l where "C 0 = Some (r, l)" using assms unfolding tiling_def by (metis option.exhaust surj_pair)
  then show ?case using tiling_block(1)[OF assms] by fastforce
next
  case (Suc j)
  then obtain i r l where i: "C i = Some (r, l)" "i \<le> j" "j < i + l" by auto
  show ?case
  proof (cases "Suc j < i + l")
    case True
    then show ?thesis using i by (intro exI[of _ i]) auto
  next
    case False
    then have e: "Suc j = i + l" using i by simp
    then have "C (Suc j) \<noteq> None" using assms i(1) Suc.prems unfolding tiling_def by metis
    then obtain s k where "C (Suc j) = Some (s, k)" by (metis option.exhaust surj_pair)
    then show ?thesis using tiling_block(1)[OF assms] by fastforce
  qed
qed

lemma no_gap:
  assumes "tiling C" "\<forall>j\<in>frees C. short C b j" "0 < b" "s + b \<le> blocks_N"
  shows "\<exists>j. s \<le> j \<and> j < s + b \<and> j \<in> occupied (resv C)"
proof -
  obtain i r l where i: "C i = Some (r, l)" "i \<le> s" "s < i + l" using tiling_cover[OF assms(1), of s] assms(3,4) by auto
  show ?thesis
  proof (cases r)
    case True
    then show ?thesis using i assms(3) by (intro exI[of _ s]) (auto simp: occupied_def)
  next
    case False
    then have "short C b i" using assms(2) i(1) by (auto simp: frees_def)
    then have l: "l < b" "i + l = blocks_N \<or> (\<exists>k. C (i + l) = Some (True, k))" using i(1) by (auto simp: short_def)
    have "i + l < s + b" using l(1) i by simp
    then obtain k where k: "C (i + l) = Some (True, k)" using l(2) assms(4) by auto
    then have "i + l \<in> occupied (resv C)" using tiling_block(1)[OF assms(1) k] k unfolding occupied_def by force
    then show ?thesis using i \<open>i + l < s + b\<close> by (intro exI[of _ "i + l"]) auto
  qed
qed

section \<open>Taking a chunk\<close>

lemma tiling_flag:
  assumes T: "tiling C" and i: "C i = Some (r, l)"
  shows "tiling (C(i \<mapsto> (s, l)))"
proof -
  have chunk: "\<And>r' n. C i = Some (r', n) \<Longrightarrow> n = l" using i by simp
  have none: "(C(i \<mapsto> (s, l))) j = None \<longleftrightarrow> C j = None" for j using i by auto
  have len: "(C(i \<mapsto> (s, l))) j = Some (r', n) \<Longrightarrow> \<exists>r''. C j = Some (r'', n)" for j r' n
    using i by (auto split: if_splits)
  show ?thesis using T len unfolding tiling_def none by blast
qed

lemma tiling_split:
  assumes T: "tiling C" and i: "C i = Some (r, l)" and b: "0 < b" "b < l"
  shows "tiling (C(i \<mapsto> (r, b), i + b \<mapsto> (s, l - b)))"
proof -
  let ?C = "C(i \<mapsto> (r, b), i + b \<mapsto> (s, l - b))"
  note bi = tiling_block[OF T i]
  have inner: "C j = None" if "i < j" "j < i + l" for j using T i that unfolding tiling_def by blast
  have nxt: "i + l < blocks_N \<Longrightarrow> C (i + l) \<noteq> None" using T i unfolding tiling_def by blast
  have "0 < n \<and> j + n \<le> blocks_N \<and> (j + n < blocks_N \<longrightarrow> ?C (j + n) \<noteq> None) \<and> (\<forall>d. j < d \<and> d < j + n \<longrightarrow> ?C d = None)"
    if j: "?C j = Some (q, n)" for j q n
  proof -
    consider "j = i" "n = b" | "j = i + b" "n = l - b" | "j \<noteq> i" "j \<noteq> i + b" "C j = Some (q, n)"
      using j b by (auto split: if_splits)
    then show ?thesis
    proof cases
      case 1
      then show ?thesis using bi b inner by auto
    next
      case 2
      then show ?thesis using bi b inner nxt by auto
    next
      case 3
      have t: "0 < n" "j + n \<le> blocks_N" "j + n < blocks_N \<longrightarrow> C (j + n) \<noteq> None" "\<forall>d. j < d \<and> d < j + n \<longrightarrow> C d = None"
        using T 3(3) unfolding tiling_def by blast+
      have "j + n \<le> i \<or> i + l \<le> j"
        using tiling_apart[OF T i 3(3)] tiling_apart[OF T 3(3) i] 3(1) by (cases i j rule: linorder_cases) auto
      then show ?thesis using t b by auto
    qed
  qed
  moreover have "?C 0 \<noteq> None" using T by (auto simp: tiling_def)
  ultimately show ?thesis unfolding tiling_def by blast
qed

text \<open>Reserving the first \<open>b\<close> blocks of a free chunk, in the chunks and in the free list.\<close>

definition take_chunk :: "chunks \<Rightarrow> nat \<Rightarrow> nat \<Rightarrow> nat \<Rightarrow> chunks" where
  "take_chunk C i l b = (if b < l then C(i \<mapsto> (True, b), i + b \<mapsto> (False, l - b)) else C(i \<mapsto> (True, b)))"

lemma tiling_take:
  assumes "tiling C" "C i = Some (False, l)" "0 < b" "b \<le> l"
  shows "tiling (take_chunk C i l b)" "resv (take_chunk C i l b) = (resv C)(i \<mapsto> b)"
    "frees (take_chunk C i l b) = (if b < l then insert (i + b) (frees C) else frees C) - {i}" "b < l \<Longrightarrow> C (i + b) = None"
proof -
  have none: "b < l \<Longrightarrow> C (i + b) = None" using assms unfolding tiling_def by (meson add_less_cancel_left less_add_same_cancel1)
  then show "b < l \<Longrightarrow> C (i + b) = None" .
  show "tiling (take_chunk C i l b)"
  proof (cases "b < l")
    case True
    have "tiling (C(i \<mapsto> (True, l)))" by (rule tiling_flag[OF assms(1,2)])
    from tiling_split[OF this, of i True l b False] show ?thesis using True assms(3) by (simp add: take_chunk_def)
  next
    case False
    then show ?thesis using tiling_flag[OF assms(1,2)] assms(4) by (simp add: take_chunk_def)
  qed
  show "resv (take_chunk C i l b) = (resv C)(i \<mapsto> b)"
    using none assms(3) by (auto simp: take_chunk_def resv_def fun_eq_iff)
  show "frees (take_chunk C i l b) = (if b < l then insert (i + b) (frees C) else frees C) - {i}"
    using assms(3) by (auto simp: take_chunk_def frees_upd)
qed

lemma hdr_set: "2147483648 OR of_nat b = hdr True b" "push_bit 31 0 OR of_nat b = hdr False b"
  by (simp_all add: hdr_def)

lemma malloc_take_value:
  assumes inv: "pool_inv pool m C fl" and i: "C i = Some (False, l)" and b: "0 < b" "b \<le> l"
  defines "m' \<equiv> malloc_take m (waddr pool (4 * blocks_N)) (waddr pool (4 * i)) (of_nat l) (of_nat b)"
    and "fl' \<equiv> remove1 i (if b < l then (i + b) # fl else fl)"
  shows "pool_inv pool m' (take_chunk C i l b) fl'" "frame pool (vacant (resv C)) m m'"
proof -
  have T: "tiling C" and H: "heads pool m C" and L: "links pool m C fl" using inv by (auto simp: pool_inv_def)
  note bi = tiling_block[OF T i] and take = tiling_take[OF T i b]
  have fl: "set fl = frees C" "distinct fl" "linked pool m (blocks_N # fl @ [blocks_N])" using L by (auto simp: links_def)
  have sub: "set fl \<subseteq> {..<blocks_N}" using fl(1) frees_less[OF T] by simp
  have ii: "i \<in> set fl" using i fl(1) by (auto simp: frees_def)
  have cmp: "(of_nat b :: u32) < of_nat l \<longleftrightarrow> b < l" "of_nat l - of_nat b = (of_nat (l - b) :: u32)"
    using b bi by (simp_all add: of_nat_less_blocks of_nat_diff)
  let ?n = "i + b" and ?S = "waddr pool (4 * blocks_N)"
  define m1 where "m1 = (if b < l then insert_after (set_head m (waddr pool (4 * ?n)) 0 (of_nat (l - b))) ?S (waddr pool (4 * ?n)) else m)"
  define f1 where "f1 = (if b < l then ?n # fl else fl)"
  have code: "m' = unlink (set_head m1 (waddr pool (4 * i)) 1 (of_nat b)) (waddr pool (4 * i))"
    unfolding m'_def malloc_take_def m1_def Let_def waddr_blocks cmp by simp
  have nf: "b < l \<Longrightarrow> ?n \<notin> set fl" "b < l \<Longrightarrow> ?n < blocks_N" using take(4) fl(1) bi by (auto simp: frees_def)
  have nv: "b < l \<Longrightarrow> ?n \<in> vacant (resv C)" "insert blocks_N (set fl) \<subseteq> vacant (resv C)" "i \<in> vacant (resv C)"
    using free_vacant[OF T i, of ?n] free_vacant[OF T i, of i] b bi frees_vacant[OF T] end_vacant[OF T] fl(1) by auto
  have one: "linked pool m1 (blocks_N # f1 @ [blocks_N]) \<and> frame pool (vacant (resv C)) m m1 \<and>
      (\<forall>j \<le> blocks_N. load32 m1 (waddr pool (4 * j)) =
         (if b < l \<and> j = ?n then hdr False (l - b) else load32 m (waddr pool (4 * j))))"
  proof (cases "b < l")
    case True
    let ?h = "set_head m (waddr pool (4 * ?n)) 0 (of_nat (l - b))"
    have nN: "?n \<le> blocks_N" using nf(2)[OF True] by simp
    have "linked pool ?h (blocks_N # fl @ [blocks_N])"
      using fl(3) set_head_linked[OF nN] sub by (subst set_head_linked[OF nN]) auto
    note ins = insert_after_linked[OF this sub fl(2) nf(2)[OF True] nf(1)[OF True]]
    have "frame pool (vacant (resv C)) ?h m1" unfolding m1_def if_P[OF True]
      by (rule frame_mono[OF ins(3)]) (use nv True in auto)
    then have "frame pool (vacant (resv C)) m m1" using frame_trans[OF frame_set_head] nv(1) True by blast
    moreover have "load32 m1 (waddr pool (4 * j)) = (if j = ?n then hdr False (l - b) else load32 m (waddr pool (4 * j)))"
      if "j \<le> blocks_N" for j
      using ins(2)[of "4 * j"] set_head_words[OF nN, of "4 * j" m pool 0 "of_nat (l - b)"] that nN
      unfolding m1_def if_P[OF True] by (simp add: hdr_def)
    ultimately show ?thesis using ins(1) True by (auto simp: m1_def f1_def)
  next
    case False
    then show ?thesis using fl(3) frame_refl by (simp add: m1_def f1_def)
  qed
  let ?h = "set_head m1 (waddr pool (4 * i)) 1 (of_nat b)"
  have s1: "set f1 \<subseteq> {..<blocks_N}" "distinct f1" "i \<in> set f1" using sub fl(2) nf ii by (auto simp: f1_def)
  have iN: "i \<le> blocks_N" using bi by simp
  have lh: "linked pool ?h (blocks_N # f1 @ [blocks_N])"
    using one s1(1) by (subst set_head_linked[OF iN]) auto
  obtain us vs where uv: "f1 = us @ i # vs" "i \<notin> set us" using s1(3) by (meson split_list_first)
  have rem: "fl' = us @ vs" unfolding fl'_def f1_def[symmetric] uv(1) using uv(2) by (simp add: remove1_append)
  have lk: "linked pool ?h (blocks_N # us @ i # vs @ [blocks_N])" using lh uv(1) by simp
  note un = unlink_linked[OF lk s1(1,2)[unfolded uv(1)], folded code]
  have head: "load32 m' (waddr pool (4 * j)) =
      (if j = i then hdr True b else if b < l \<and> j = ?n then hdr False (l - b) else load32 m (waddr pool (4 * j)))"
    if "j \<le> blocks_N" for j
    using that one iN un(2)[of "4 * j"] by (simp add: set_head_words hdr_set)
  show "pool_inv pool m' (take_chunk C i l b) fl'" unfolding pool_inv_def
  proof (intro conjI)
    show "tiling (take_chunk C i l b)" by (rule take(1))
    show "heads pool m' (take_chunk C i l b)" unfolding heads_def
    proof (intro conjI allI impI)
      fix j r n assume j: "take_chunk C i l b j = Some (r, n)"
      have "j \<le> blocks_N" using tiling_block(3)[OF take(1) j] by simp
      moreover have "C j = Some (r, n) \<Longrightarrow> load32 m (waddr pool (4 * j)) = hdr r n" using H by (auto simp: heads_def)
      ultimately show "load32 m' (waddr pool (4 * j)) = hdr r n"
        using j head[of j] b by (auto simp: take_chunk_def split: if_splits)
    next
      show "load32 m' (waddr pool (4 * blocks_N)) = hdr True 0"
        using head[of blocks_N] bi nf(2) H by (auto simp: heads_def)
    qed
    have "set (us @ vs) = set f1 - {i}" using uv(1) s1(2) by auto
    also have "\<dots> = frees (take_chunk C i l b)" unfolding take(3) f1_def using fl(1) by auto
    finally show "links pool m' (take_chunk C i l b) fl'"
      unfolding links_def rem using un(1) s1(2) uv(1) by simp
  qed
  have "insert blocks_N (set us \<union> set vs) \<subseteq> vacant (resv C)"
  proof -
    have "set us \<union> set vs \<subseteq> set f1" unfolding uv(1) by auto
    then show ?thesis using nv by (auto simp: f1_def split: if_splits)
  qed
  then have "frame pool (vacant (resv C)) ?h m'" by (rule frame_mono[OF un(3)])
  then show "frame pool (vacant (resv C)) m m'" using frame_trans[OF frame_set_head[OF nv(3)]] one frame_trans by blast
qed

end
