(* ===== verification/MallocSpec.thy ===== *)
theory MallocSpec
  imports Malloc
begin

text \<open>
  The contract of the allocator.  A state of the heap is described by its reserved chunks: from the index of the
  first block to the number of blocks.  \<open>malloc\<close> fails exactly when no run of vacant blocks is long enough, no call
  touches the bytes of a live region, and writing to live regions does not damage the pool.  \<open>calloc\<close> and
  \<open>realloc\<close> are clients of this contract, the locale \<open>allocator\<close>.
\<close>

section \<open>The state\<close>

text \<open>The pool is word aligned, does not contain address 0 and does not wrap around.\<close>

definition pool_ok :: "u32 \<Rightarrow> bool" where
  "pool_ok pool \<longleftrightarrow> 4 dvd unat pool \<and> 0 < unat pool \<and> unat pool + 262160 \<le> 4294967296"

definition heap_ok :: "u32 \<Rightarrow> heap \<Rightarrow> (nat \<Rightarrow> nat option) \<Rightarrow> bool" where
  "heap_ok pool h R \<longleftrightarrow>
     (if sentinel h = 0 then R = (\<lambda>_. None)
      else sentinel h = waddr pool (4 * blocks_N) \<and> (\<exists>C fl. pool_inv pool (hmem h) C fl \<and> resv C = R))"

lemma unat_waddr: "pool_ok pool \<Longrightarrow> x < 65540 \<Longrightarrow> d < 4 \<Longrightarrow> unat (waddr pool x + of_nat d) = unat pool + 4 * x + d"
proof -
  assume h: "pool_ok pool" "x < 65540" "d < 4"
  have e: "waddr pool x + of_nat d = pool + of_nat (4 * x + d)" by (simp add: waddr_def)
  show ?thesis unfolding e using of_nat_plus_le[of pool 262160 "4 * x + d"] h by (simp only: pool_ok_def)
qed

lemma waddr_nonzero: "pool_ok pool \<Longrightarrow> x < 65540 \<Longrightarrow> waddr pool x \<noteq> 0"
  using unat_waddr[of pool x 0] by (auto simp: pool_ok_def)

lemma heap_ok_blocks:
  assumes "heap_ok pool h R" "R i = Some l"
  shows "0 < l" "i + l \<le> blocks_N" "R j = Some k \<Longrightarrow> i < j \<Longrightarrow> i + l \<le> j"
proof -
  have "sentinel h \<noteq> 0" using assms by (auto simp: heap_ok_def)
  then obtain C fl where C: "pool_inv pool (hmem h) C fl" "resv C = R" using assms(1) by (auto simp: heap_ok_def)
  then have T: "tiling C" "C i = Some (True, l)" using assms(2) resv_Some[of C i l] by (auto simp: pool_inv_def)
  show "0 < l" "i + l \<le> blocks_N" using tiling_block[OF T] by simp_all
  show "R j = Some k \<Longrightarrow> i < j \<Longrightarrow> i + l \<le> j" using tiling_apart[OF T] C(2) resv_Some[of C j k] by auto
qed

section \<open>Initialisation\<close>

lemma linked_init: "linked pool m [blocks_N, blocks_N] \<longleftrightarrow>
  load32 m (waddr pool (4 * blocks_N + 1)) = waddr pool (4 * blocks_N) \<and>
  load32 m (waddr pool (4 * blocks_N + 2)) = waddr pool (4 * blocks_N)"
  by simp

lemma heap_init_value:
  fixes h :: heap and pool :: u32
  defines "h' \<equiv> heap_init pool h"
  shows "sentinel h' = waddr pool (4 * blocks_N)"
    "pool_inv pool (hmem h') ((\<lambda>_. None)(0 \<mapsto> (False, blocks_N))) [0]"
    "frame pool (vacant (\<lambda>_. None)) (hmem h) (hmem h')"
proof -
  let ?S = "waddr pool (4 * blocks_N)" and ?C = "(\<lambda>_. None)(0 \<mapsto> (False, blocks_N)) :: chunks"
  have s: "pool + push_bit 4 nr_of_blocks = ?S" "pool = waddr pool (4 * 0)"
    by (simp_all add: waddr_def nr_of_blocks_def push_bit_eq_mult)
  define m1 where "m1 = store32 (store32 (set_head (hmem h) ?S 1 0) (waddr pool (4 * blocks_N + 1)) ?S) (waddr pool (4 * blocks_N + 2)) ?S"
  define m2 where "m2 = set_head m1 (waddr pool (4 * 0)) 0 (of_nat blocks_N)"
  have mem: "hmem h' = insert_after m2 ?S (waddr pool (4 * 0))"
    unfolding h'_def heap_init_def Let_def s(1) m2_def m1_def waddr_field using s(2) by (simp add: nr_of_blocks_def)
  show "sentinel h' = ?S" unfolding h'_def heap_init_def Let_def s(1) by simp
  have w1: "load32 m1 (waddr pool (4 * blocks_N)) = hdr True 0" "linked pool m1 [blocks_N, blocks_N]"
    unfolding linked_init m1_def set_head_def by (simp_all add: load_store_waddr hdr_def)
  have "linked pool m2 (blocks_N # [] @ [blocks_N])"
    unfolding m2_def using w1(2) by (subst set_head_linked) simp_all
  note ins = insert_after_linked[OF this, of 0, folded mem]
  have hd: "load32 (hmem h') (waddr pool (4 * 0)) = hdr False blocks_N" "load32 (hmem h') ?S = hdr True 0"
    using ins(2)[of "4 * 0"] ins(2)[of "4 * blocks_N"] w1(1)
      set_head_words[of 0 "4 * 0" m1 pool 0 "of_nat blocks_N"] set_head_words[of 0 "4 * blocks_N" m1 pool 0 "of_nat blocks_N"]
    by (simp_all add: m2_def hdr_def)
  show "pool_inv pool (hmem h') ?C [0]" unfolding pool_inv_def
  proof (intro conjI)
    show "tiling ?C" by (simp add: tiling_def)
    show "heads pool (hmem h') ?C" unfolding heads_def using hd by simp
    show "links pool (hmem h') ?C [0]" unfolding links_def using ins(1) by (simp add: frees_def)
  qed
  have v: "blocks_N \<in> vacant (\<lambda>_. None)" "0 \<in> vacant (\<lambda>_. None)" by (simp_all add: vacant_def occupied_def)
  have "frame pool (vacant (\<lambda>_. None)) (hmem h) m1" unfolding m1_def
    by (rule frame_trans[OF frame_trans[OF frame_set_head frame_store] frame_store]) (use v in simp_all)
  moreover have "frame pool (vacant (\<lambda>_. None)) m1 m2" unfolding m2_def by (intro frame_set_head v)
  moreover have "frame pool (vacant (\<lambda>_. None)) m2 (hmem h')" by (rule frame_mono[OF ins(3)]) (use v in simp_all)
  ultimately show "frame pool (vacant (\<lambda>_. None)) (hmem h) (hmem h')" using frame_trans by blast
qed

section \<open>Allocation\<close>

definition block_count :: "u32 \<Rightarrow> nat" where
  "block_count bytes = (unat bytes + 19) div 16"

lemma malloc_blocks_value:
  assumes "unat bytes < 4294967277"
  shows "malloc_blocks bytes = of_nat (block_count bytes)" "block_count bytes < 4294967296" "0 < block_count bytes"
    "unat bytes \<le> 16 * block_count bytes - 4"
proof -
  have "unat (bytes + 4 + 16 - 1) = unat bytes + 19"
  proof -
    have "bytes + 4 + 16 - 1 = bytes + 19" by simp
    then show ?thesis using assms by (simp add: unat_plus_if')
  qed
  then have "unat (malloc_blocks bytes) = block_count bytes" by (simp add: malloc_blocks_def block_count_def unat_div)
  then show "malloc_blocks bytes = of_nat (block_count bytes)" by (simp flip: \<open>unat (malloc_blocks bytes) = block_count bytes\<close>)
  show "block_count bytes < 4294967296" using assms by (simp add: block_count_def)
  show "0 < block_count bytes" "unat bytes \<le> 16 * block_count bytes - 4" by (simp_all add: block_count_def)
qed

text \<open>A run of \<open>b\<close> blocks from \<open>s\<close> on, none of them reserved.\<close>

definition gap :: "(nat \<Rightarrow> nat option) \<Rightarrow> nat \<Rightarrow> nat \<Rightarrow> bool" where
  "gap R s b \<longleftrightarrow> s + b \<le> blocks_N \<and> (\<forall>j. s \<le> j \<and> j < s + b \<longrightarrow> j \<notin> occupied R)"

lemma c_malloc_value:
  assumes ok: "heap_ok pool h R" and pool: "pool_ok pool" and n: "unat bytes < 4294967277"
  shows "\<exists>h' p. c_malloc pool h bytes = Some (h', p) \<and> frame pool (vacant R) (hmem h) (hmem h') \<and> sentinel h' \<noteq> 0 \<and>
    (if \<exists>s. gap R s (block_count bytes)
     then \<exists>i. p = waddr pool (4 * i + 1) \<and> gap R i (block_count bytes) \<and> R i = None \<and> heap_ok pool h' (R(i \<mapsto> block_count bytes))
     else p = 0 \<and> heap_ok pool h' R)"
proof -
  define h1 where "h1 = (if sentinel h = 0 then heap_init pool h else h)"
  let ?S = "waddr pool (4 * blocks_N)" and ?b = "block_count bytes"
  have S0: "?S \<noteq> 0" using waddr_nonzero[OF pool] by simp
  have "\<exists>C fl. sentinel h1 = ?S \<and> pool_inv pool (hmem h1) C fl \<and> resv C = R \<and> frame pool (vacant R) (hmem h) (hmem h1)"
  proof (cases "sentinel h = 0")
    case True
    then have R: "R = (\<lambda>_. None)" using ok by (simp add: heap_ok_def)
    have "resv ((\<lambda>_. None)(0 \<mapsto> (False, blocks_N))) = R" unfolding R by (auto simp: resv_def)
    then show ?thesis using True heap_init_value[of pool h] R by (simp add: h1_def) blast
  next
    case False
    then show ?thesis using ok frame_refl by (auto simp: heap_ok_def h1_def)
  qed
  then obtain C fl where C: "sentinel h1 = ?S" "pool_inv pool (hmem h1) C fl" "resv C = R" "frame pool (vacant R) (hmem h) (hmem h1)"
    by blast
  note b = malloc_blocks_value[OF n]
  obtain m' C' fl' res where sc: "malloc_scan (hmem h1) ?S ?S (of_nat ?b) = Some (m', res)"
    "pool_inv pool m' C' fl'" "resv C' = R" "frame pool (vacant R) (hmem h1) m'"
    "case res of None \<Rightarrow> \<forall>j\<in>frees C'. short C' ?b j
     | Some (p, len) \<Rightarrow> \<exists>i l. p = waddr pool (4 * i) \<and> len = of_nat l \<and> C' i = Some (False, l) \<and> ?b \<le> l"
    using malloc_scan_value[of pool "hmem h1" C "[]" fl ?b] C b(2) by auto
  have T: "tiling C'" using sc(2) by (simp add: pool_inv_def)
  have fr: "frame pool (vacant R) (hmem h) m'" using C(4) sc(4) by (rule frame_trans)
  show ?thesis
  proof (cases res)
    case None
    have code: "c_malloc pool h bytes = Some (h1\<lparr>hmem := m'\<rparr>, 0)"
      using sc(1) None by (simp add: c_malloc_def h1_def[symmetric] C(1) b(1) Let_def)
    have "\<not> (\<exists>s. gap R s ?b)" using no_gap[OF T, of ?b] sc(3,5) None b(3) by (fastforce simp: gap_def)
    moreover have "heap_ok pool (h1\<lparr>hmem := m'\<rparr>) R" using sc(2,3) C(1) S0 by (auto simp: heap_ok_def)
    ultimately show ?thesis using code fr C(1) S0 by auto
  next
    case (Some r)
    then obtain i l where r: "res = Some (waddr pool (4 * i), of_nat l)" and i: "C' i = Some (False, l)" "?b \<le> l" using sc(5) by auto
    let ?m = "malloc_take m' ?S (waddr pool (4 * i)) (of_nat l) (of_nat ?b)"
    note take = malloc_take_value[OF sc(2) i(1) b(3) i(2)]
    have code: "c_malloc pool h bytes = Some (h1\<lparr>hmem := ?m\<rparr>, waddr pool (4 * i + 1))"
      using sc(1) r by (simp add: c_malloc_def h1_def[symmetric] C(1) b(1) Let_def waddr_field)
    have "gap R i ?b" unfolding gap_def
    proof (intro conjI allI impI)
      show "i + ?b \<le> blocks_N" using tiling_block(2)[OF T i(1)] i(2) by simp
      show "j \<notin> occupied R" if "i \<le> j \<and> j < i + ?b" for j
        using free_vacant[OF T i(1), of j] that i(2) sc(3) by (auto simp: vacant_def)
    qed
    moreover have "R i = None" unfolding sc(3)[symmetric] using i(1) by (simp add: resv_def)
    moreover have "heap_ok pool (h1\<lparr>hmem := ?m\<rparr>) (R(i \<mapsto> ?b))"
      using take(1) tiling_take(2)[OF T i(1) b(3) i(2)] C(1) S0 sc(3) by (auto simp: heap_ok_def)
    moreover have "frame pool (vacant R) (hmem h) ?m" using frame_trans[OF fr] take(2) sc(3) by simp
    ultimately show ?thesis using code C(1) S0 by auto
  qed
qed

section \<open>Release\<close>

lemma clear_hdr: "l \<le> blocks_N \<Longrightarrow> hdr True l AND NOT HDR_RESERVED = hdr False l"
proof -
  assume "l \<le> blocks_N"
  then have "hdr True l AND HDR_LENGTH = hdr False l" using hdr_bits(1)[of l True] by (simp add: hdr_def)
  then show ?thesis by (simp add: HDR_LENGTH_def HDR_RESERVED_def)
qed

lemma c_free_value:
  assumes ok: "heap_ok pool h R" and i: "R i = Some l" and pool: "pool_ok pool"
  defines "h' \<equiv> c_free h (waddr pool (4 * i + 1))"
  shows "heap_ok pool h' (R(i := None))" "frame pool (vacant (R(i := None))) (hmem h) (hmem h')"
proof -
  have s0: "sentinel h \<noteq> 0" using ok i by (auto simp: heap_ok_def)
  then obtain C fl where C: "sentinel h = waddr pool (4 * blocks_N)" "pool_inv pool (hmem h) C fl" "resv C = R"
    using ok by (auto simp: heap_ok_def)
  let ?S = "waddr pool (4 * blocks_N)" and ?C = "C(i \<mapsto> (False, l))"
  have Ci: "C i = Some (True, l)" using i C(3) resv_Some by metis
  have T: "tiling C" and H: "heads pool (hmem h) C" and L: "links pool (hmem h) C fl" using C(2) by (auto simp: pool_inv_def)
  note bi = tiling_block[OF T Ci]
  have fl: "set fl = frees C" "distinct fl" "linked pool (hmem h) (blocks_N # fl @ [blocks_N])" using L by (auto simp: links_def)
  have sub: "set fl \<subseteq> {..<blocks_N}" using fl(1) frees_less[OF T] by simp
  have nf: "i \<notin> set fl" using Ci fl(1) by (auto simp: frees_def)
  have iN: "i \<le> blocks_N" using bi by simp
  have nz: "waddr pool (4 * i + 1) \<noteq> 0" using waddr_nonzero[OF pool] bi by simp
  define m1 where "m1 = set_head (hmem h) (waddr pool (4 * i)) 0 (of_nat l)"
  have "load32 (hmem h) (waddr pool (4 * i)) = hdr True l" using H Ci by (auto simp: heads_def)
  then have "clear_reserved (hmem h) (waddr pool (4 * i)) = m1"
    using clear_hdr[of l] bi by (simp add: clear_reserved_def m1_def set_head_def blk_head_def hdr_def)
  then have code: "h' = h\<lparr>hmem := insert_after m1 ?S (waddr pool (4 * i))\<rparr>"
    unfolding h'_def c_free_def Let_def waddr_field if_P[OF nz] C(1) by simp
  have "linked pool m1 (blocks_N # fl @ [blocks_N])" unfolding m1_def using fl(3) sub by (subst set_head_linked[OF iN]) auto
  note ins = insert_after_linked[OF this sub fl(2) bi(3) nf]
  have hm: "hmem h' = insert_after m1 ?S (waddr pool (4 * i))" using code by simp
  note ins = ins[folded hm]
  have head: "load32 (hmem h') (waddr pool (4 * j)) = (if j = i then hdr False l else load32 (hmem h) (waddr pool (4 * j)))"
    if "j \<le> blocks_N" for j
    using ins(2)[of "4 * j"] set_head_words[OF iN, of "4 * j" "hmem h" pool 0 "of_nat l"] that by (simp add: m1_def hdr_def)
  have R: "resv ?C = R(i := None)" unfolding C(3)[symmetric] by (auto simp: resv_def fun_eq_iff)
  have "pool_inv pool (hmem h') ?C (i # fl)" unfolding pool_inv_def
  proof (intro conjI)
    show T': "tiling ?C" by (rule tiling_flag[OF T Ci])
    show "heads pool (hmem h') ?C" unfolding heads_def
    proof (intro conjI allI impI)
      fix j r n assume j: "?C j = Some (r, n)"
      have "j \<le> blocks_N" using tiling_block(3)[OF T' j] by simp
      moreover have "C j = Some (r, n) \<Longrightarrow> load32 (hmem h) (waddr pool (4 * j)) = hdr r n" using H by (auto simp: heads_def)
      ultimately show "load32 (hmem h') (waddr pool (4 * j)) = hdr r n" using j head[of j] by (auto split: if_splits)
    next
      show "load32 (hmem h') ?S = hdr True 0" using head[of blocks_N] bi H by (auto simp: heads_def)
    qed
    show "links pool (hmem h') ?C (i # fl)" unfolding links_def using ins(1) fl nf by (simp add: frees_upd)
  qed
  moreover have "sentinel h' = ?S" using code C(1) by simp
  ultimately show "heap_ok pool h' (R(i := None))" using s0 C(1) R by (auto simp: heap_ok_def)
  have v: "insert i (insert blocks_N (set fl)) \<subseteq> vacant (R(i := None))"
    using frees_vacant[OF tiling_flag[OF T Ci, of False]] end_vacant[OF tiling_flag[OF T Ci, of False]] fl(1)
    unfolding R frees_upd by auto
  have "frame pool (vacant (R(i := None))) (hmem h) m1" unfolding m1_def using v by (intro frame_set_head) auto
  moreover have "frame pool (vacant (R(i := None))) m1 (hmem h')" by (rule frame_mono[OF ins(3) v])
  ultimately show "frame pool (vacant (R(i := None))) (hmem h) (hmem h')" by (rule frame_trans)
qed

section \<open>Live regions\<close>

text \<open>The pointers \<open>malloc\<close> has returned, with the number of bytes each may use.\<close>

definition live :: "u32 \<Rightarrow> (nat \<Rightarrow> nat option) \<Rightarrow> (u32 \<Rightarrow> nat option)" where
  "live pool R p =
     (let i = unat (p - pool) div 16
      in if p = waddr pool (4 * i + 1) then map_option (\<lambda>l. 16 * l - 4) (R i) else None)"

lemma live_index: "i < blocks_N \<Longrightarrow> unat (waddr pool (4 * i + 1) - pool) div 16 = i"
proof -
  assume "i < blocks_N"
  then have "unat (of_nat (4 * (4 * i + 1)) :: u32) = 4 * (4 * i + 1)" by (intro unat_of_nat32) simp
  moreover have "waddr pool (4 * i + 1) - pool = of_nat (4 * (4 * i + 1))" by (simp add: waddr_def)
  ultimately show ?thesis by simp
qed

lemma live_region: "i < blocks_N \<Longrightarrow> live pool R (waddr pool (4 * i + 1)) = map_option (\<lambda>l. 16 * l - 4) (R i)"
  unfolding live_def Let_def live_index by simp

lemma live_upd:
  "i < blocks_N \<Longrightarrow> live pool (R(i := x)) = (live pool R)(waddr pool (4 * i + 1) := map_option (\<lambda>l. 16 * l - 4) x)"
proof
  fix p assume i: "i < blocks_N"
  show "live pool (R(i := x)) p = ((live pool R)(waddr pool (4 * i + 1) := map_option (\<lambda>l. 16 * l - 4) x)) p"
  proof (cases "p = waddr pool (4 * i + 1)")
    case True
    then show ?thesis using live_region[OF i] by simp
  next
    case False
    then show ?thesis by (simp add: live_def Let_def)
  qed
qed

lemma live_Some:
  assumes "live pool R p = Some c"
  obtains i l where "R i = Some l" "p = waddr pool (4 * i + 1)" "c = 16 * l - 4"
  using assms by (auto simp: live_def Let_def split: if_splits)

lemma live_block:
  assumes "heap_ok pool h R" "R i = Some l"
  shows "live pool R (waddr pool (4 * i + 1)) = Some (16 * l - 4)"
  using live_region[of i pool R] heap_ok_blocks(1,2)[OF assms] assms(2) by simp

lemma unat_region:
  assumes "pool_ok pool" "i + l \<le> blocks_N" "d < 16 * l - 4"
  shows "unat (waddr pool (4 * i + 1) + of_nat d) = unat pool + 16 * i + 4 + d"
proof -
  have e: "waddr pool (4 * i + 1) + of_nat d = pool + of_nat (16 * i + 4 + d)" by (simp add: waddr_def)
  have "unat (pool + of_nat (16 * i + 4 + d)) = unat pool + (16 * i + 4 + d)"
    by (rule of_nat_plus_le[of pool 262160]) (use assms in \<open>simp_all add: pool_ok_def\<close>)
  then show ?thesis unfolding e by simp
qed

lemma region_frame:
  assumes pool: "pool_ok pool" and ok: "heap_ok pool h R" and i: "R i = Some l" and f: "frame pool (vacant R) m m'"
  shows "rd m' (waddr pool (4 * i + 1)) (16 * l - 4) = rd m (waddr pool (4 * i + 1)) (16 * l - 4)"
proof (rule rd_cong)
  fix d assume d: "d < 16 * l - 4"
  let ?a = "waddr pool (4 * i + 1) + of_nat d"
  note b = heap_ok_blocks(1,2)[OF ok i]
  have a: "unat ?a = unat pool + 16 * i + 4 + d" by (rule unat_region[OF pool b(2) d])
  have "12 \<le> unat (?a - waddr pool (4 * j))" if "j \<in> vacant R" for j
  proof -
    have j: "j \<le> blocks_N" "\<not> (i \<le> j \<and> j < i + l)" using that i by (auto simp: vacant_def occupied_def)
    have w: "unat (waddr pool (4 * j)) = unat pool + 16 * j" using unat_waddr[OF pool, of "4 * j" 0] j by simp
    show ?thesis
    proof (cases "j < i")
      case True
      then show ?thesis unfolding unat_sub_if' a w using d by simp
    next
      case False
      then have "i + l \<le> j" using j by simp
      then have "\<not> unat (waddr pool (4 * j)) \<le> unat ?a" unfolding a w using d by simp
      then show ?thesis unfolding unat_sub_if' a w using j d pool by (simp add: pool_ok_def)
    qed
  qed
  then show "m' ?a = m ?a" using f by (simp add: frame_def)
qed

lemma user_write:
  assumes pool: "pool_ok pool" and ok: "heap_ok pool h R" and i: "R i = Some l"
    and w: "\<And>a. \<not> in_region a (waddr pool (4 * i + 1)) (16 * l - 4) \<Longrightarrow> m' a = hmem h a"
  shows "heap_ok pool (h\<lparr>hmem := m'\<rparr>) R"
proof -
  note b = heap_ok_blocks(1,2)[OF ok i]
  let ?p = "waddr pool (4 * i + 1)"
  have up: "unat ?p = unat pool + 16 * i + 4" using unat_waddr[OF pool, of "4 * i + 1" 0] b by simp
  have word: "load32 m' (waddr pool (4 * j + k)) = load32 (hmem h) (waddr pool (4 * j + k))"
    if j: "j \<le> blocks_N" "k < 4" "j < i \<or> i + l \<le> j \<or> j = i \<and> k = 0" for j k
  proof -
    have out: "m' (waddr pool (4 * j + k) + of_nat d) = hmem h (waddr pool (4 * j + k) + of_nat d)" if d: "d < 4" for d
    proof (rule w)
      let ?a = "waddr pool (4 * j + k) + of_nat d"
      have a: "unat ?a = unat pool + 16 * j + 4 * k + d" using unat_waddr[OF pool, of "4 * j + k" d] j d by simp
      show "\<not> in_region ?a ?p (16 * l - 4)"
      proof (cases "i + l \<le> j")
        case True
        then show ?thesis unfolding in_region_def unat_sub_if' a up using b by simp
      next
        case False
        then have "\<not> unat ?p \<le> unat ?a" unfolding a up using j d by auto
        then show ?thesis unfolding in_region_def unat_sub_if' a up using b j d False pool by (auto simp: pool_ok_def)
      qed
    qed
    from out[of 0] out[of 1] out[of 2] out[of 3] show ?thesis by (simp add: load32_def)
  qed
  have s0: "sentinel h \<noteq> 0" using ok i by (auto simp: heap_ok_def)
  then obtain C fl where C: "sentinel h = waddr pool (4 * blocks_N)" "pool_inv pool (hmem h) C fl" "resv C = R"
    using ok by (auto simp: heap_ok_def)
  have Ci: "C i = Some (True, l)" using i C(3) resv_Some by metis
  have T: "tiling C" and H: "heads pool (hmem h) C" and L: "links pool (hmem h) C fl" using C(2) by (auto simp: pool_inv_def)
  have far: "j < i \<or> i + l \<le> j" if "C j = Some (r, n)" "j \<noteq> i" for j r n
    using tiling_apart[OF T Ci that(1)] that(2) by (cases i j rule: linorder_cases) auto
  have free: "j \<le> blocks_N \<and> (j < i \<or> i + l \<le> j)" if "j \<in> set (blocks_N # fl @ [blocks_N])" for j
  proof (cases "j = blocks_N")
    case False
    then have "j \<in> frees C" using that L by (auto simp: links_def)
    then obtain n where "C j = Some (False, n)" by (auto simp: frees_def)
    then show ?thesis using far[of j False n] tiling_block(3)[OF T] Ci by fastforce
  qed (use b in simp)
  have "pool_inv pool m' C fl" unfolding pool_inv_def
  proof (intro conjI T)
    show "heads pool m' C" unfolding heads_def
    proof (intro conjI allI impI)
      fix j r n assume j: "C j = Some (r, n)"
      then show "load32 m' (waddr pool (4 * j)) = hdr r n"
        using word[of j 0] far[OF j] tiling_block(3)[OF T j] H by (auto simp: heads_def)
    next
      show "load32 m' (waddr pool (4 * blocks_N)) = hdr True 0" using word[of blocks_N 0] b H by (auto simp: heads_def)
    qed
    have "linked pool m' (blocks_N # fl @ [blocks_N]) = linked pool (hmem h) (blocks_N # fl @ [blocks_N])"
    proof (rule linked_cong)
      fix j
      show "load32 m' (waddr pool (4 * j + 1)) = load32 (hmem h) (waddr pool (4 * j + 1))"
        if "j \<in> set (butlast (blocks_N # fl @ [blocks_N]))"
        using word[of j 1] free[OF in_set_butlastD[OF that]] by simp
      show "load32 m' (waddr pool (4 * j + 2)) = load32 (hmem h) (waddr pool (4 * j + 2))"
        if "j \<in> set (tl (blocks_N # fl @ [blocks_N]))"
        using word[of j 2] free[of j] that by simp
    qed
    then show "links pool m' C fl" using L by (simp add: links_def)
  qed
  then show ?thesis using C s0 by (auto simp: heap_ok_def)
qed

end
