(* ===== verification/MallocUse.thy ===== *)
theory MallocUse
  imports MallocSpec
begin

text \<open>
  The clients of the allocator.  The locale \<open>allocator\<close> is its contract with its user: the map \<open>L\<close> has the live
  pointers and the number of bytes each may use.  \<open>calloc\<close> and \<open>realloc\<close> are verified against the contract, the
  interpretation \<open>pool_heap\<close> shows that \<open>malloc\<close> and \<open>free\<close> of \<^verbatim>\<open>lib/runtime/src/malloc.c\<close> keep it,
  and \<open>heap_reach\<close> is the states a program reaches by any sequence of calls.
\<close>

section \<open>The contract\<close>

text \<open>The bytes of the live regions are the same.\<close>

definition kept :: "(u32 \<Rightarrow> nat option) \<Rightarrow> mem \<Rightarrow> mem \<Rightarrow> bool" where
  "kept L m m' \<longleftrightarrow> (\<forall>p c. L p = Some c \<longrightarrow> rd m' p c = rd m p c)"

lemma kept_refl: "kept L m m"
  by (simp add: kept_def)

lemma kept_trans: "kept L m m' \<Longrightarrow> kept L m' m'' \<Longrightarrow> kept L m m''"
  by (simp add: kept_def)

lemma kept_less: "kept L m m' \<Longrightarrow> (\<And>p c. K p = Some c \<Longrightarrow> L p = Some c) \<Longrightarrow> kept K m m'"
  by (simp add: kept_def)

lemma rd_prefix: "rd m' p c = rd m p c \<Longrightarrow> k \<le> c \<Longrightarrow> rd m' p k = rd m p k"
  by (rule rd_cong) (metis nth_rd order_less_le_trans)

abbreviation malloc_limit :: nat where "malloc_limit \<equiv> 4294967277"

locale allocator =
  fixes ok :: "heap \<Rightarrow> (u32 \<Rightarrow> nat option) \<Rightarrow> bool"
    and alloc :: "heap \<Rightarrow> u32 \<Rightarrow> (heap \<times> u32) option"
    and release :: "heap \<Rightarrow> u32 \<Rightarrow> heap"
    and room :: "mem \<Rightarrow> u32 \<Rightarrow> u32"
  assumes region: "ok h L \<Longrightarrow> L p = Some c \<Longrightarrow> p \<noteq> 0 \<and> 4 dvd unat p \<and> unat p + c \<le> 4294967296"
    and disjoint: "ok h L \<Longrightarrow> L p = Some c \<Longrightarrow> L q = Some d \<Longrightarrow> p \<noteq> q \<Longrightarrow> apart p c q d"
    and room_value: "ok h L \<Longrightarrow> L p = Some c \<Longrightarrow> unat (room (hmem h) p) = c"
    and alloc_law: "ok h L \<Longrightarrow> unat n < malloc_limit \<Longrightarrow>
      \<exists>h' p. alloc h n = Some (h', p) \<and> kept L (hmem h) (hmem h') \<and>
        (if p = 0 then ok h' L else L p = None \<and> (\<exists>c \<ge> unat n. ok h' (L(p \<mapsto> c))))"
    and release_law: "ok h L \<Longrightarrow> L p = Some c \<Longrightarrow>
      ok (release h p) (L(p := None)) \<and> kept (L(p := None)) (hmem h) (hmem (release h p))"
    and write_law: "ok h L \<Longrightarrow> L p = Some c \<Longrightarrow> length bs \<le> c \<Longrightarrow> ok (h\<lparr>hmem := wr (hmem h) p bs\<rparr>) L"
begin

lemma kept_write:
  assumes "ok h L" "L p = Some c" "length bs \<le> c"
  shows "kept (L(p := None)) (hmem h) (wr (hmem h) p bs)"
  unfolding kept_def
proof (intro allI impI)
  fix q d assume "(L(p := None)) q = Some d"
  then have q: "L q = Some d" "p \<noteq> q" by (auto split: if_splits)
  have "apart p (length bs) q d" using apart_mono[OF disjoint[OF assms(1,2) q]] assms(3) by simp
  moreover have "length bs \<le> 4294967296" using region[OF assms(1,2)] assms(3) by simp
  ultimately show "rd (wr (hmem h) p bs) q d = rd (hmem h) q d" by (intro rd_cong wr_apart)
qed

text \<open>Allocating and filling a region.\<close>

lemma alloc_write:
  assumes h: "ok h L" and n: "unat n < malloc_limit" and a: "alloc h n = Some (h', p)" "p \<noteq> 0" and l: "length bs \<le> unat n"
  shows "L p = None" "\<exists>c \<ge> unat n. ok (h'\<lparr>hmem := wr (hmem h') p bs\<rparr>) (L(p \<mapsto> c))"
    "rd (wr (hmem h') p bs) p (length bs) = bs" "kept L (hmem h) (wr (hmem h') p bs)"
proof -
  have A: "kept L (hmem h) (hmem h')" "L p = None" "\<exists>c \<ge> unat n. ok h' (L(p \<mapsto> c))" using alloc_law[OF h n] a by auto
  then obtain c where c: "unat n \<le> c" "ok h' (L(p \<mapsto> c))" by blast
  show "L p = None" by (rule A(2))
  have lc: "length bs \<le> c" using l c(1) by simp
  show "\<exists>c \<ge> unat n. ok (h'\<lparr>hmem := wr (hmem h') p bs\<rparr>) (L(p \<mapsto> c))" using write_law[OF c(2) _ lc] c(1) by auto
  show "rd (wr (hmem h') p bs) p (length bs) = bs" by (rule rd_wr) (use n l in simp)
  have "kept ((L(p \<mapsto> c))(p := None)) (hmem h') (wr (hmem h') p bs)" using kept_write[OF c(2), of p c bs] lc by simp
  then have "kept L (hmem h') (wr (hmem h') p bs)" by (rule kept_less) (use A(2) in auto)
  then show "kept L (hmem h) (wr (hmem h') p bs)" by (rule kept_trans[OF A(1)])
qed

lemma alloc_zeroed:
  assumes "ok h L" "unat n < malloc_limit" "alloc h n = Some (h', p)" "p \<noteq> 0"
  defines "g \<equiv> h'\<lparr>hmem := fst (memset (hmem h') p 0 n)\<rparr>"
  shows "L p = None" "\<exists>c \<ge> unat n. ok g (L(p \<mapsto> c))" "rd (hmem g) p (unat n) = replicate (unat n) 0" "kept L (hmem h) (hmem g)"
proof -
  have g: "hmem g = wr (hmem h') p (replicate (unat n) 0)" "g = h'\<lparr>hmem := wr (hmem h') p (replicate (unat n) 0)\<rparr>"
    using assms(2) by (simp_all add: g_def memset_def fill_value)
  note w = alloc_write[OF assms(1-4), of "replicate (unat n) 0", unfolded length_replicate, OF order_refl, folded g(1)]
  show "L p = None" by (rule w)
  show "\<exists>c \<ge> unat n. ok g (L(p \<mapsto> c))" using w(2) by (simp add: g)
  show "rd (hmem g) p (unat n) = replicate (unat n) 0" "kept L (hmem h) (hmem g)" by (rule w)+
qed

text \<open>Moving a region to a new one: the bytes that fit are copied before the old one is released.\<close>

lemma alloc_moved:
  assumes h: "ok h L" and q: "L q = Some d" and n: "unat n < malloc_limit" and a: "alloc h n = Some (h', p)" "p \<noteq> 0"
  defines "k \<equiv> if room (hmem h') q < n then room (hmem h') q else n"
  defines "g \<equiv> release (h'\<lparr>hmem := fst (memcpy (hmem h') p q k)\<rparr>) q"
  shows "unat k = min d (unat n)" "L p = None" "\<exists>c \<ge> unat n. ok g ((L(q := None))(p \<mapsto> c))"
    "rd (hmem g) p (unat k) = rd (hmem h) q (unat k)" "kept (L(q := None)) (hmem h) (hmem g)"
proof -
  have A: "kept L (hmem h) (hmem h')" "L p = None" "\<exists>c \<ge> unat n. ok h' (L(p \<mapsto> c))" using alloc_law[OF h n] a by auto
  then obtain c where c: "unat n \<le> c" "ok h' (L(p \<mapsto> c))" by blast
  have pq: "q \<noteq> p" "(L(p \<mapsto> c)) q = Some d" using q A(2) by auto
  have "unat (room (hmem h') q) = d" by (rule room_value[OF c(2) pq(2)])
  then show k: "unat k = min d (unat n)" by (auto simp: k_def word_less_nat_alt)
  show "L p = None" by (rule A(2))
  let ?bs = "rd (hmem h') q (unat k)"
  have lk: "length ?bs \<le> unat n" "length ?bs \<le> d" using k by simp_all
  have ap: "apart p (unat k) q (unat k)" using apart_mono[OF disjoint[OF c(2), of p c q d]] pq k c(1) by simp
  have "fst (memcpy (hmem h') p q k) = wr (hmem h') p ?bs" unfolding memcpy_def fst_conv
  proof (rule copy_up_value)
    show "unat k < 4294967296" using n k by simp
    show "\<And>i j. j < i \<Longrightarrow> i < unat k \<Longrightarrow> p + of_nat j \<noteq> q + of_nat i" using ap by (simp add: apart_def)
  qed
  then have g: "g = release (h'\<lparr>hmem := wr (hmem h') p ?bs\<rparr>) q" by (simp add: g_def)
  let ?h = "h'\<lparr>hmem := wr (hmem h') p ?bs\<rparr>"
  note w = alloc_write[OF h n a lk(1)]
  obtain c2 where c2: "unat n \<le> c2" "ok ?h (L(p \<mapsto> c2))" using w(2) by blast
  have q2: "(L(p \<mapsto> c2)) q = Some d" using pq by simp
  note rel = release_law[OF c2(2) q2, folded g]
  have "(L(p \<mapsto> c2))(q := None) = (L(q := None))(p \<mapsto> c2)" using pq by (simp add: fun_upd_twist)
  then have "ok g ((L(q := None))(p \<mapsto> c2))" using rel by (simp only:)
  then show "\<exists>c \<ge> unat n. ok g ((L(q := None))(p \<mapsto> c))" using c2(1) by blast
  have "rd (hmem g) p c2 = rd (hmem ?h) p c2" using rel pq by (auto simp: kept_def)
  then have "rd (hmem g) p (unat k) = rd (hmem ?h) p (unat k)" by (rule rd_prefix) (use c2(1) k in simp)
  also have "\<dots> = ?bs" using w(3) by simp
  also have "\<dots> = rd (hmem h) q (unat k)" by (rule rd_prefix[of _ _ d]) (use A(1) q k in \<open>simp_all add: kept_def\<close>)
  finally show "rd (hmem g) p (unat k) = rd (hmem h) q (unat k)" .
  have "kept (L(q := None)) (hmem ?h) (hmem g)" by (rule kept_less[OF rel[THEN conjunct2]]) (use A(2) in \<open>auto split: if_split_asm\<close>)
  moreover have "kept (L(q := None)) (hmem h) (hmem ?h)" 
    by (simp, rule kept_less[OF w(4)], simp split: if_split_asm)
  ultimately show "kept (L(q := None)) (hmem h) (hmem g)" using kept_trans by blast
qed

end

section \<open>The code keeps the contract\<close>

definition heap_live :: "u32 \<Rightarrow> heap \<Rightarrow> (u32 \<Rightarrow> nat option) \<Rightarrow> bool" where
  "heap_live pool h L \<longleftrightarrow> pool_ok pool \<and> (\<exists>R. heap_ok pool h R \<and> live pool R = L)"

lemma unat_block: "pool_ok pool \<Longrightarrow> i < blocks_N \<Longrightarrow> unat (waddr pool (4 * i + 1)) = unat pool + 16 * i + 4"
  using unat_waddr[of pool "4 * i + 1" 0] by simp

lemma region_facts:
  assumes pool: "pool_ok pool" and ok: "heap_ok pool h R" and i: "R i = Some l"
  shows "waddr pool (4 * i + 1) \<noteq> 0" "4 dvd unat (waddr pool (4 * i + 1))"
    "unat (waddr pool (4 * i + 1)) + (16 * l - 4) \<le> 4294967296" "unat (waddr pool (4 * i + 1)) + (16 * l - 4) = unat pool + 16 * (i + l)"
proof -
  note b = heap_ok_blocks(1,2)[OF ok i]
  then have iN: "i < blocks_N" by simp
  note u = unat_block[OF pool iN]
  show "waddr pool (4 * i + 1) \<noteq> 0" using waddr_nonzero[OF pool] b by simp
  have "4 dvd unat pool + 4 * (4 * i + 1)" using pool by (intro dvd_add dvd_triv_left) (simp add: pool_ok_def)
  then show "4 dvd unat (waddr pool (4 * i + 1))" unfolding u by (simp add: algebra_simps)
  show "unat (waddr pool (4 * i + 1)) + (16 * l - 4) \<le> 4294967296" unfolding u using b pool by (simp add: pool_ok_def)
  show "unat (waddr pool (4 * i + 1)) + (16 * l - 4) = unat pool + 16 * (i + l)" unfolding u using b by simp
qed

lemma heap_live_region: "heap_live pool h L \<Longrightarrow> L p = Some c \<Longrightarrow> p \<noteq> 0 \<and> 4 dvd unat p \<and> unat p + c \<le> 4294967296"
  unfolding heap_live_def using region_facts by (metis live_Some)

lemma heap_live_disjoint:
  assumes "heap_live pool h L" "L p = Some c" "L q = Some d" "p \<noteq> q"
  shows "apart p c q d"
proof -
  obtain R where R: "pool_ok pool" "heap_ok pool h R" "live pool R = L" using assms(1) by (auto simp: heap_live_def)
  obtain i l where i: "R i = Some l" "p = waddr pool (4 * i + 1)" "c = 16 * l - 4" using live_Some assms(2) R(3) by metis
  obtain j k where j: "R j = Some k" "q = waddr pool (4 * j + 1)" "d = 16 * k - 4" using live_Some assms(3) R(3) by metis
  have b: "i < blocks_N" "j < blocks_N" using heap_ok_blocks(1,2)[OF R(2) i(1)] heap_ok_blocks(1,2)[OF R(2) j(1)] by simp_all
  note u = unat_block[OF R(1) b(1), folded i(2)] unat_block[OF R(1) b(2), folded j(2)]
  have ends: "unat p + c = unat pool + 16 * (i + l)" "unat q + d = unat pool + 16 * (j + k)"
    "unat p + c \<le> 4294967296" "unat q + d \<le> 4294967296"
    using region_facts(3,4)[OF R(1,2) i(1)] region_facts(3,4)[OF R(1,2) j(1)] by (simp_all add: i j)
  have "i \<noteq> j" using assms(4) i(2) j(2) by auto
  then consider "i + l \<le> j" | "j + k \<le> i"
    using heap_ok_blocks(3)[OF R(2) i(1) j(1)] heap_ok_blocks(3)[OF R(2) j(1) i(1)] by (meson linorder_neqE_nat)
  then show ?thesis
  proof cases
    case 1
    then show ?thesis using ends u by (intro apart_below) simp_all
  next
    case 2
    then show ?thesis using ends u by (intro apart_sym[OF apart_below]) simp_all
  qed
qed

lemma heap_live_room:
  assumes "heap_live pool h L" "L p = Some c"
  shows "unat (block_size (hmem h) p) = c"
proof -
  obtain R where R: "pool_ok pool" "heap_ok pool h R" "live pool R = L" using assms(1) by (auto simp: heap_live_def)
  obtain i l where i: "R i = Some l" "p = waddr pool (4 * i + 1)" "c = 16 * l - 4" using live_Some assms(2) R(3) by metis
  have "sentinel h \<noteq> 0" using R(2) i by (auto simp: heap_ok_def)
  then obtain C fl where C: "pool_inv pool (hmem h) C fl" "resv C = R" using R(2) by (auto simp: heap_ok_def)
  then have Ci: "C i = Some (True, l)" using i(1) resv_Some by metis
  have "block_size (hmem h) p = of_nat l * 16 - 4"
    unfolding i(2) block_size_def Let_def waddr_field head_facts(1)[OF C(1) Ci] by simp
  also have "\<dots> = of_nat (16 * l - 4)" using heap_ok_blocks(1)[OF R(2) i(1)] by (simp add: of_nat_diff)
  finally show ?thesis using heap_ok_blocks(2)[OF R(2) i(1)] i(3) by (simp add: unat_of_nat32)
qed

lemma frame_kept:
  assumes "pool_ok pool" "heap_ok pool h R" "frame pool (vacant R) m m'"
  shows "kept (live pool R) m m'"
  unfolding kept_def using region_frame[OF assms(1,2) _ assms(3)] by (metis live_Some)

lemma heap_live_alloc:
  assumes h: "heap_live pool h L" and n: "unat n < malloc_limit"
  shows "\<exists>h' p. c_malloc pool h n = Some (h', p) \<and> kept L (hmem h) (hmem h') \<and>
    (if p = 0 then heap_live pool h' L else L p = None \<and> (\<exists>c \<ge> unat n. heap_live pool h' (L(p \<mapsto> c))))"
proof -
  obtain R where R: "pool_ok pool" "heap_ok pool h R" "live pool R = L" using h by (auto simp: heap_live_def)
  let ?b = "block_count n"
  obtain h' p where m: "c_malloc pool h n = Some (h', p)" "frame pool (vacant R) (hmem h) (hmem h')"
    "if \<exists>s. gap R s ?b
     then \<exists>i. p = waddr pool (4 * i + 1) \<and> gap R i ?b \<and> R i = None \<and> heap_ok pool h' (R(i \<mapsto> ?b))
     else p = 0 \<and> heap_ok pool h' R"
    using c_malloc_value[OF R(2,1) n] by blast
  have k: "kept L (hmem h) (hmem h')" using frame_kept[OF R(1,2) m(2)] R(3) by simp
  show ?thesis
  proof (cases "\<exists>s. gap R s ?b")
    case False
    then have "p = 0" "heap_live pool h' L" using m(3) R by (auto simp: heap_live_def)
    then show ?thesis using m(1) k by auto
  next
    case True
    then obtain i where i: "p = waddr pool (4 * i + 1)" "gap R i ?b" "R i = None" "heap_ok pool h' (R(i \<mapsto> ?b))" using m(3) by auto
    have iN: "i < blocks_N" using i(2) malloc_blocks_value(3)[OF n] by (simp add: gap_def)
    have "p \<noteq> 0" using waddr_nonzero[OF R(1)] iN i(1) by simp
    moreover have "L p = None" unfolding i(1) R(3)[symmetric] live_region[OF iN] using i(3) by simp
    moreover have "live pool (R(i \<mapsto> ?b)) = L(p \<mapsto> 16 * ?b - 4)" unfolding live_upd[OF iN] R(3) i(1) by simp
    then have "heap_live pool h' (L(p \<mapsto> 16 * ?b - 4))" using i(4) R(1) by (auto simp: heap_live_def)
    ultimately show ?thesis using m(1) k malloc_blocks_value(4)[OF n] by auto
  qed
qed

lemma heap_live_release:
  assumes h: "heap_live pool h L" and p: "L p = Some c"
  shows "heap_live pool (c_free h p) (L(p := None)) \<and> kept (L(p := None)) (hmem h) (hmem (c_free h p))"
proof -
  obtain R where R: "pool_ok pool" "heap_ok pool h R" "live pool R = L" using h by (auto simp: heap_live_def)
  obtain i l where i: "R i = Some l" "p = waddr pool (4 * i + 1)" "c = 16 * l - 4" using live_Some p R(3) by metis
  have "i < blocks_N" using heap_ok_blocks(1,2)[OF R(2) i(1)] by simp
  then have L: "live pool (R(i := None)) = L(p := None)" by (simp add: live_upd R(3) i(2))
  note f = c_free_value[OF R(2) i(1) R(1), folded i(2)]
  have "heap_live pool (c_free h p) (L(p := None))" using f(1) R(1) L by (auto simp: heap_live_def)
  moreover have "kept (L(p := None)) (hmem h) (hmem (c_free h p))" using frame_kept[OF R(1) f] L by simp
  ultimately show ?thesis ..
qed

lemma heap_live_write:
  assumes h: "heap_live pool h L" and p: "L p = Some c" "length bs \<le> c"
  shows "heap_live pool (h\<lparr>hmem := wr (hmem h) p bs\<rparr>) L"
proof -
  obtain R where R: "pool_ok pool" "heap_ok pool h R" "live pool R = L" using h by (auto simp: heap_live_def)
  obtain i l where i: "R i = Some l" "p = waddr pool (4 * i + 1)" "c = 16 * l - 4" using live_Some p(1) R(3) by metis
  have "heap_ok pool (h\<lparr>hmem := wr (hmem h) p bs\<rparr>) R"
    by (rule user_write[OF R(1,2) i(1)]) (use p(2) i in \<open>simp add: in_region_def wr_outside\<close>)
  then show ?thesis using R by (auto simp: heap_live_def)
qed

interpretation pool_heap: allocator "heap_live pool" "c_malloc pool" c_free block_size
  by (unfold_locales)
    (erule heap_live_region heap_live_disjoint heap_live_room heap_live_alloc heap_live_release heap_live_write, assumption+)+

section \<open>Clearing and moving\<close>

lemma c_calloc_value:
  assumes h: "heap_live pool h L" and n': "unat (a * b) < malloc_limit"
  shows "\<exists>h' p. c_calloc pool h a b = Some (h', p) \<and> kept L (hmem h) (hmem h') \<and>
    (if p = 0 then heap_live pool h' L
     else L p = None \<and> (\<exists>c \<ge> unat (a * b). heap_live pool h' (L(p \<mapsto> c))) \<and>
       rd (hmem h') p (unat (a * b)) = replicate (unat (a * b)) 0)"
proof -
  obtain h1 p where m: "c_malloc pool h (a * b) = Some (h1, p)" "kept L (hmem h) (hmem h1)" "p = 0 \<longrightarrow> heap_live pool h1 L"
    using heap_live_alloc[OF h n'] by (metis (full_types))
  show ?thesis
  proof (cases "p = 0")
    case True
    then show ?thesis using m by (simp add: c_calloc_def)
  next
    case False
    then show ?thesis using pool_heap.alloc_zeroed[OF h n' m(1) False] m(1) by (simp add: c_calloc_def)
  qed
qed

lemma c_realloc_value:
  assumes h: "heap_live pool h L" and n: "unat n < malloc_limit" "n \<noteq> 0" and q: "L q = Some d"
  shows "\<exists>h' p. c_realloc pool h q n = Some (h', p) \<and> kept (L(q := None)) (hmem h) (hmem h') \<and>
    (if p = 0 then heap_live pool h' L \<and> kept L (hmem h) (hmem h')
     else L p = None \<and> (\<exists>c \<ge> unat n. heap_live pool h' ((L(q := None))(p \<mapsto> c))) \<and>
       rd (hmem h') p (min d (unat n)) = rd (hmem h) q (min d (unat n)))"
proof -
  obtain h1 p where m: "c_malloc pool h n = Some (h1, p)" "kept L (hmem h) (hmem h1)" "p = 0 \<longrightarrow> heap_live pool h1 L"
    using heap_live_alloc[OF h n(1)] by (metis (full_types))
  have q0: "q \<noteq> 0" using heap_live_region[OF h q] by simp
  show ?thesis
  proof (cases "p = 0")
    case True
    moreover have "kept (L(q := None)) (hmem h) (hmem h1)" by (rule kept_less[OF m(2)]) (auto split: if_splits)
    ultimately show ?thesis using m n(2) q0 by (simp add: c_realloc_def)
  next
    case False
    note mv = pool_heap.alloc_moved[OF h q n(1) m(1) False]
    then show ?thesis using m(1) n(2) q0 False unfolding mv(1) by (simp add: c_realloc_def Let_def)
  qed
qed

section \<open>Programs that use the heap\<close>

text \<open>
  The code has no guard against excessive sizes: from \<open>malloc_limit\<close> on the number of blocks wraps around.  Sizes with
  \<open>malloc_blocks n = 0\<close> make \<open>malloc\<close> put a chunk into the free list twice; the larger ones get the smallest region, of 12
  bytes.  \<open>granted n\<close> is the number of bytes \<open>malloc\<close> really has reserved for a request.
\<close>

definition granted :: "u32 \<Rightarrow> nat" where
  "granted n = (if unat n < malloc_limit then unat n else 12)"

lemma malloc_blocks_excessive:
  assumes "malloc_limit \<le> unat n"
  shows "malloc_blocks n = (if unat n < 4294967293 then 0 else 1)"
proof -
  have "unat n < 4294967296" using unsigned_less[of n, where 'a = nat] by simp
  then have u: "unat (n + 4 + 16 - 1) = unat n + 19 - 4294967296"
  proof -
    have e: "n + 4 + 16 - 1 = n + 19" by simp
    show ?thesis unfolding e unat_plus_if' using assms \<open>unat n < 4294967296\<close> by simp
  qed
  have "unat (malloc_blocks n) = (unat n + 19 - 4294967296) div 16" unfolding malloc_blocks_def unat_div u by simp
  also have "\<dots> = (if unat n < 4294967293 then 0 else 1)"
  proof (cases "unat n < 4294967293")
    case False
    then have "unat n + 19 - 4294967296 = 16 + (unat n - 4294967293)" "unat n - 4294967293 < 16"
      using \<open>unat n < 4294967296\<close> by simp_all
    then show ?thesis using False by simp
  qed simp
  finally show ?thesis by (simp add: word_unat_eq_iff split: if_splits)
qed

lemma c_malloc_excessive: "4294967293 \<le> unat n \<Longrightarrow> c_malloc pool h n = c_malloc pool h 12"
  using malloc_blocks_excessive[of n] by (simp add: c_malloc_def malloc_blocks_def)

lemma granted_malloc:
  assumes "malloc_blocks n \<noteq> 0"
  obtains k where "unat k < malloc_limit" "granted n = unat k" "c_malloc pool h n = c_malloc pool h k"
proof (cases "unat n < malloc_limit")
  case True
  then show ?thesis using that[of n] by (simp add: granted_def)
next
  case False
  then have "4294967293 \<le> unat n" using malloc_blocks_excessive[of n] assms by (simp split: if_splits)
  then show ?thesis using that[of 12] False c_malloc_excessive by (simp add: granted_def)
qed

text \<open>
  The states a program reaches, with the sizes its regions are for: the size asked for, the product of \<open>calloc\<close> modulo
  \<open>2\<^sup>3\<^sup>2\<close>, or 12 bytes when the size of \<open>malloc\<close> wraps around.  The program frees and moves live pointers only, writes
  inside live regions only, and the sizes for \<open>realloc\<close> and the products for \<open>calloc\<close>, which are filled at once, are
  below \<open>malloc_limit\<close>.
\<close>

inductive heap_reach :: "u32 \<Rightarrow> heap \<Rightarrow> (u32 \<Rightarrow> nat option) \<Rightarrow> bool" for pool where
  start: "heap_reach pool \<lparr>hmem = m, sentinel = 0\<rparr> (\<lambda>_. None)"
| malloc: "heap_reach pool h L \<Longrightarrow> malloc_blocks n \<noteq> 0 \<Longrightarrow> c_malloc pool h n = Some (h', p) \<Longrightarrow>
    heap_reach pool h' (if p = 0 then L else L(p \<mapsto> granted n))"
| calloc: "heap_reach pool h L \<Longrightarrow> unat (a * b) < malloc_limit \<Longrightarrow> c_calloc pool h a b = Some (h', p) \<Longrightarrow>
    heap_reach pool h' (if p = 0 then L else L(p \<mapsto> unat (a * b)))"
| realloc: "heap_reach pool h L \<Longrightarrow> L q = Some d \<Longrightarrow> unat n < malloc_limit \<Longrightarrow> n \<noteq> 0 \<Longrightarrow>
    c_realloc pool h q n = Some (h', p) \<Longrightarrow> heap_reach pool h' (if p = 0 then L else (L(q := None))(p \<mapsto> unat n))"
| realloc_none: "heap_reach pool h L \<Longrightarrow> L q = Some d \<Longrightarrow> c_realloc pool h q 0 = Some (h', p) \<Longrightarrow>
    heap_reach pool h' (L(q := None))"
| realloc_null: "heap_reach pool h L \<Longrightarrow> malloc_blocks n \<noteq> 0 \<Longrightarrow> c_realloc pool h 0 n = Some (h', p) \<Longrightarrow>
    heap_reach pool h' (if p = 0 then L else L(p \<mapsto> granted n))"
| free: "heap_reach pool h L \<Longrightarrow> L p = Some c \<Longrightarrow> heap_reach pool (c_free h p) (L(p := None))"
| free_null: "heap_reach pool h L \<Longrightarrow> heap_reach pool (c_free h 0) L"
| user: "heap_reach pool h L \<Longrightarrow> L p = Some c \<Longrightarrow> length bs \<le> c \<Longrightarrow>
    heap_reach pool (h\<lparr>hmem := wr (hmem h) p bs\<rparr>) L"

text \<open>The regions are those of the pool, each with room for the size asked for.\<close>

definition serves :: "(u32 \<Rightarrow> nat option) \<Rightarrow> (u32 \<Rightarrow> nat option) \<Rightarrow> bool" where
  "serves K L \<longleftrightarrow> dom K = dom L \<and> (\<forall>p c. L p = Some c \<longrightarrow> (\<exists>d \<ge> c. K p = Some d))"

lemma serves_add: "serves K L \<Longrightarrow> c \<le> d \<Longrightarrow> serves (K(p \<mapsto> d)) (L(p \<mapsto> c))"
  by (auto simp: serves_def)

lemma serves_del: "serves K L \<Longrightarrow> serves (K(p := None)) (L(p := None))"
  by (auto simp: serves_def)

lemma serves_get: "serves K L \<Longrightarrow> L p = Some c \<Longrightarrow> \<exists>d \<ge> c. K p = Some d"
  by (simp add: serves_def)

lemma serves_alloc:
  assumes "serves K L" "serves K' L'" "p = 0 \<longrightarrow> heap_live pool h K" "p \<noteq> 0 \<Longrightarrow> \<exists>d \<ge> c. heap_live pool h (K'(p \<mapsto> d))"
  shows "\<exists>K. heap_live pool h K \<and> serves K (if p = 0 then L else L'(p \<mapsto> c))"
proof (cases "p = 0")
  case False
  then obtain d where "c \<le> d" "heap_live pool h (K'(p \<mapsto> d))" using assms(4) by blast
  then show ?thesis using serves_add[OF assms(2)] False by auto
qed (use assms in auto)

lemma heap_reach_live: "heap_reach pool h L \<Longrightarrow> pool_ok pool \<Longrightarrow> \<exists>K. heap_live pool h K \<and> serves K L"
proof (induction rule: heap_reach.induct)
  case (start m)
  have "live pool (\<lambda>_. None) = (\<lambda>_. None)" by (auto simp: live_def)
  then show ?case using start by (intro exI[of _ "\<lambda>_. None"]) (auto simp: heap_live_def heap_ok_def serves_def)
next
  case (malloc h L n h' p)
  then obtain K where K: "heap_live pool h K" "serves K L" by blast
  obtain k where k: "unat k < malloc_limit" "granted n = unat k" "c_malloc pool h n = c_malloc pool h k"
    using granted_malloc[OF malloc(2)] by blast
  have "p = 0 \<longrightarrow> heap_live pool h' K" "p \<noteq> 0 \<Longrightarrow> \<exists>d \<ge> granted n. heap_live pool h' (K(p \<mapsto> d))"
    using heap_live_alloc[OF K(1) k(1)] malloc(3) k(2,3) by auto
  then show ?case by (rule serves_alloc[OF K(2) K(2)])
next
  case (calloc h L a b h' p)
  then obtain K where K: "heap_live pool h K" "serves K L" by blast
  have "p = 0 \<longrightarrow> heap_live pool h' K" "p \<noteq> 0 \<Longrightarrow> \<exists>d \<ge> unat (a * b). heap_live pool h' (K(p \<mapsto> d))"
    using c_calloc_value[OF K(1) calloc(2)] calloc(3) by auto
  then show ?case by (rule serves_alloc[OF K(2) K(2)])
next
  case (realloc h L q d n h' p)
  then obtain K where K: "heap_live pool h K" "serves K L" by blast
  then obtain e where e: "K q = Some e" using serves_get realloc(2) by blast
  have "p = 0 \<longrightarrow> heap_live pool h' K" "p \<noteq> 0 \<Longrightarrow> \<exists>d \<ge> unat n. heap_live pool h' ((K(q := None))(p \<mapsto> d))"
    using c_realloc_value[OF K(1) realloc(3,4) e] realloc(5) by auto
  then show ?case by (rule serves_alloc[OF K(2) serves_del[OF K(2)]])
next
  case (realloc_none h L q d h' p)
  then obtain K where K: "heap_live pool h K" "serves K L" by blast
  then obtain e where e: "K q = Some e" using serves_get realloc_none(2) by blast
  have h': "h' = c_free h q" using realloc_none(3) heap_live_region[OF K(1) e] by (simp add: c_realloc_def)
  show ?case unfolding h' using heap_live_release[OF K(1) e] serves_del[OF K(2)] by blast
next
  case (realloc_null h L n h' p)
  then obtain K where K: "heap_live pool h K" "serves K L" by blast
  obtain k where k: "unat k < malloc_limit" "granted n = unat k" "c_malloc pool h n = c_malloc pool h k"
    using granted_malloc[OF realloc_null(2)] by blast
  have "p = 0 \<longrightarrow> heap_live pool h' K" "p \<noteq> 0 \<Longrightarrow> \<exists>d \<ge> granted n. heap_live pool h' (K(p \<mapsto> d))"
    using heap_live_alloc[OF K(1) k(1)] realloc_null(3) k(2,3) by (auto simp: c_realloc_def)
  then show ?case by (rule serves_alloc[OF K(2) K(2)])
next
  case (free h L p c)
  then obtain K where K: "heap_live pool h K" "serves K L" by blast
  then obtain e where e: "K p = Some e" using serves_get free(2) by blast
  show ?case using heap_live_release[OF K(1) e] serves_del[OF K(2)] by blast
next
  case (free_null h L)
  then show ?case by (simp add: c_free_def)
next
  case (user h L p c bs)
  then obtain K where K: "heap_live pool h K" "serves K L" by blast
  then obtain e where e: "c \<le> e" "K p = Some e" using serves_get user(2) by blast
  show ?case using heap_live_write[OF K(1) e(2), of bs] e(1) user(3) K(2) by auto
qed

lemma heap_live_inside:
  assumes "heap_live pool h L" "L p = Some c"
  shows "unat pool < unat p" "unat p + c \<le> unat pool + 262144"
proof -
  obtain R where R: "pool_ok pool" "heap_ok pool h R" "live pool R = L" using assms(1) by (auto simp: heap_live_def)
  obtain i l where i: "R i = Some l" "p = waddr pool (4 * i + 1)" "c = 16 * l - 4" using live_Some assms(2) R(3) by metis
  note b = heap_ok_blocks(1,2)[OF R(2) i(1)]
  show "unat pool < unat p" unfolding i(2) using unat_block[OF R(1), of i] b by simp
  show "unat p + c \<le> unat pool + 262144" using region_facts(4)[OF R(1,2) i(1)] b i by simp
qed

lemma empty_heap_gap:
  assumes h: "heap_live pool h (\<lambda>_. None)" and n: "unat n \<le> 262140"
  shows "\<exists>h' p. c_malloc pool h n = Some (h', p) \<and> p \<noteq> 0"
proof -
  obtain R where R: "pool_ok pool" "heap_ok pool h R" "live pool R = (\<lambda>_. None)" using h by (auto simp: heap_live_def)
  have none: "R i = None" for i using live_block[OF R(2), of i] R(3) by (cases "R i") auto
  have "gap R 0 (block_count n)" using n none by (auto simp: gap_def occupied_def block_count_def)
  then have g: "\<exists>s. gap R s (block_count n)" ..
  have n': "unat n < malloc_limit" using n by simp
  obtain h' p where m: "c_malloc pool h n = Some (h', p)" "\<exists>i. p = waddr pool (4 * i + 1) \<and> gap R i (block_count n)"
    using c_malloc_value[OF R(2,1) n'] g by auto
  then obtain i where "p = waddr pool (4 * i + 1)" "i + block_count n \<le> blocks_N" by (auto simp: gap_def)
  then have "p \<noteq> 0" using waddr_nonzero[OF R(1), of "4 * i + 1"] malloc_blocks_value(3)[OF n'] by simp
  then show ?thesis using m(1) by blast
qed

text \<open>C15: In every state a program reaches by calls of \<open>malloc\<close>, \<open>calloc\<close>, \<open>realloc\<close> and \<open>free\<close> and by writes to the
  regions it owns, every live region is word aligned, lies inside the pool and holds the bytes recorded for it, and different
  regions have no byte in common.  The calls are those \<open>heap_reach\<close> admits.  For \<open>malloc\<close> and \<open>realloc\<close> of less than
  \<open>2\<^sup>3\<^sup>2 - 19\<close> bytes the size is recorded; for \<open>calloc\<close> the product modulo \<open>2\<^sup>3\<^sup>2\<close>, which has to be below that bound too, and
  for \<open>malloc\<close> of the three largest sizes the 12 bytes it reserves.  Calls with other sizes are left out: the code has no
  guard against them and takes no block at all for them.\<close>

theorem heap_regions_safe:
  assumes "heap_reach pool h L" "pool_ok pool"
  shows "(\<forall>p c. L p = Some c \<longrightarrow> p \<noteq> 0 \<and> 4 dvd unat p \<and> unat pool < unat p \<and> unat p + c \<le> unat pool + 262144) \<and>
    (\<forall>p q c d. L p = Some c \<and> L q = Some d \<and> p \<noteq> q \<longrightarrow> apart p c q d)"
proof -
  obtain K where K: "heap_live pool h K" "serves K L" using heap_reach_live[OF assms] by blast
  have get: "\<exists>d \<ge> c. K p = Some d" if "L p = Some c" for p c using serves_get[OF K(2) that] .
  have "\<forall>p c. L p = Some c \<longrightarrow> p \<noteq> 0 \<and> 4 dvd unat p \<and> unat pool < unat p \<and> unat p + c \<le> unat pool + 262144"
  proof (intro allI impI)
    fix p c assume "L p = Some c"
    then obtain d where d: "c \<le> d" "K p = Some d" using get by blast
    show "p \<noteq> 0 \<and> 4 dvd unat p \<and> unat pool < unat p \<and> unat p + c \<le> unat pool + 262144"
      using heap_live_region[OF K(1) d(2)] heap_live_inside[OF K(1) d(2)] d(1) by simp
  qed
  moreover have "\<forall>p q c d. L p = Some c \<and> L q = Some d \<and> p \<noteq> q \<longrightarrow> apart p c q d"
    using get heap_live_disjoint[OF K(1)] apart_mono by meson
  ultimately show ?thesis ..
qed

lemma heap_reach_malloc: "\<exists>h p. heap_reach 4096 h [p \<mapsto> 100] \<and> p \<noteq> 0"
proof -
  let ?h = "\<lparr>hmem = (\<lambda>_. 0), sentinel = 0\<rparr>"
  have s: "heap_reach 4096 ?h (\<lambda>_. None)" by (rule heap_reach.start)
  have ok: "pool_ok 4096" by (simp add: pool_ok_def)
  obtain K where "heap_live 4096 ?h K" "serves K (\<lambda>_. None)" using heap_reach_live[OF s ok] by blast
  then have "heap_live 4096 ?h (\<lambda>_. None)" by (simp add: serves_def)
  from empty_heap_gap[OF this, of 100] obtain h' p where "c_malloc 4096 ?h 100 = Some (h', p)" "p \<noteq> 0" by auto
  moreover have "malloc_blocks 100 \<noteq> 0" "granted 100 = 100" by (simp_all add: malloc_blocks_def granted_def)
  ultimately show ?thesis using heap_reach.malloc[OF s, of 100 h' p] by auto
qed

lemma heap_live_example: "\<exists>h q d. heap_live 4096 h [q \<mapsto> d] \<and> 100 \<le> d"
proof -
  obtain h p where "heap_reach 4096 h [p \<mapsto> 100]" using heap_reach_malloc by blast
  moreover have "pool_ok 4096" by (simp add: pool_ok_def)
  ultimately obtain K where K: "heap_live 4096 h K" "serves K [p \<mapsto> 100]" using heap_reach_live by blast
  obtain d where d: "K p = Some d" "100 \<le> d" using serves_get[OF K(2), of p 100] by auto
  have "dom K = {p}" using K(2) by (simp add: serves_def)
  then have "K = [p \<mapsto> d]" using d(1) by (auto simp: dom_def fun_eq_iff)
  then show ?thesis using K(1) d(2) by blast
qed

theorem heap_regions_safe_witness:
  "\<exists>h p. heap_reach 4096 h [p \<mapsto> 100] \<and> 4096 < unat p \<and> unat p + 100 \<le> 266240 \<and> 4 dvd unat p"
proof -
  obtain h p where h: "heap_reach 4096 h [p \<mapsto> 100]" using heap_reach_malloc by blast
  have "pool_ok 4096" by (simp add: pool_ok_def)
  from heap_regions_safe[OF h this] show ?thesis using h by (intro exI[of _ h] exI[of _ p]) simp
qed

text \<open>C16: For a request below \<open>2\<^sup>3\<^sup>2 - 19\<close> bytes \<open>malloc\<close> always returns.  It gives a null pointer exactly when no run of
  vacant blocks is long enough for the request and its header, although the free list need not have such a chunk before
  the call; otherwise the region it gives is a run of vacant blocks.  It changes no byte outside the heads and links of
  vacant blocks.  Larger requests are not refused: the number of blocks wraps around to none, or, for the three largest
  sizes, to the one block of a request for 12 bytes.\<close>

theorem malloc_first_fit:
  assumes "heap_ok pool h R" "pool_ok pool"
  shows "if unat bytes < malloc_limit
    then \<exists>h' p. c_malloc pool h bytes = Some (h', p) \<and> frame pool (vacant R) (hmem h) (hmem h') \<and>
      (if \<exists>s. gap R s (block_count bytes)
       then \<exists>i. p = waddr pool (4 * i + 1) \<and> gap R i (block_count bytes) \<and> heap_ok pool h' (R(i \<mapsto> block_count bytes))
       else p = 0 \<and> heap_ok pool h' R)
    else if unat bytes < 4294967293 then malloc_blocks bytes = 0
    else c_malloc pool h bytes = c_malloc pool h 12"
proof (cases "unat bytes < malloc_limit")
  case True
  obtain h' p where m: "c_malloc pool h bytes = Some (h', p)" "frame pool (vacant R) (hmem h) (hmem h')"
    "if \<exists>s. gap R s (block_count bytes)
     then \<exists>i. p = waddr pool (4 * i + 1) \<and> gap R i (block_count bytes) \<and> R i = None \<and> heap_ok pool h' (R(i \<mapsto> block_count bytes))
     else p = 0 \<and> heap_ok pool h' R"
    using c_malloc_value[OF assms True] by blast
  then show ?thesis unfolding if_P[OF True] by (intro exI[of _ h'] exI[of _ p]) (auto split: if_splits)
next
  case False
  then show ?thesis using malloc_blocks_excessive[of bytes] c_malloc_excessive[of bytes pool h] by (simp split: if_splits)
qed

theorem malloc_first_fit_witness:
  "\<exists>h' i. c_malloc 4096 \<lparr>hmem = (\<lambda>_. 0), sentinel = 0\<rparr> 100 = Some (h', waddr 4096 (4 * i + 1)) \<and>
    heap_ok 4096 h' [i \<mapsto> 7]"
proof -
  let ?h = "\<lparr>hmem = (\<lambda>_. 0), sentinel = 0\<rparr>"
  have "gap (\<lambda>_. None) 0 7" by (simp add: gap_def occupied_def)
  then have g: "\<exists>s. gap (\<lambda>_. None) s 7" ..
  have b: "block_count 100 = 7" by (simp add: block_count_def)
  have ok: "heap_ok 4096 ?h (\<lambda>_. None)" "pool_ok 4096" and l: "unat (100 :: u32) < malloc_limit"
    by (simp_all add: heap_ok_def pool_ok_def)
  from malloc_first_fit[OF ok, of 100, unfolded if_P[OF l] b if_P[OF g]] show ?thesis by blast
qed



text \<open>C18: Once a program has released every region, any request that fits the pool succeeds, whatever the order
  of the calls before: \<open>malloc\<close> merges the vacant chunks again.\<close>

theorem released_memory_reusable:
  assumes "heap_reach pool h (\<lambda>_. None)" "pool_ok pool" "unat n \<le> 262140"
  shows "\<exists>h' p. c_malloc pool h n = Some (h', p) \<and> p \<noteq> 0 \<and> heap_reach pool h' [p \<mapsto> unat n]"
proof -
  obtain K where "heap_live pool h K" "serves K (\<lambda>_. None)" using heap_reach_live[OF assms(1,2)] by blast
  then have "heap_live pool h (\<lambda>_. None)" by (simp add: serves_def)
  from empty_heap_gap[OF this assms(3)] obtain h' p where p: "c_malloc pool h n = Some (h', p)" "p \<noteq> 0" by auto
  have n: "unat n < malloc_limit" using assms(3) by simp
  then have g: "granted n = unat n" "malloc_blocks n \<noteq> 0"
    using malloc_blocks_value(1-3)[OF n] by (simp_all add: granted_def) (simp add: word_unat_eq_iff unat_of_nat32)
  from heap_reach.malloc[OF assms(1) g(2) p(1)] show ?thesis using p g by auto
qed

theorem released_memory_reusable_witness:
  "\<exists>h' p. heap_reach 4096 h' [p \<mapsto> 262140] \<and> p \<noteq> 0"
proof -
  have "heap_reach 4096 \<lparr>hmem = (\<lambda>_. 0), sentinel = 0\<rparr> (\<lambda>_. None)" by (rule heap_reach.start)
  moreover have "pool_ok 4096" by (simp add: pool_ok_def)
  moreover have "unat (262140 :: u32) \<le> 262140" by simp
  ultimately have "\<exists>h' p. c_malloc 4096 \<lparr>hmem = (\<lambda>_. 0), sentinel = 0\<rparr> 262140 = Some (h', p) \<and> p \<noteq> 0 \<and>
      heap_reach 4096 h' [p \<mapsto> unat (262140 :: u32)]"
    by (rule released_memory_reusable)
  then show ?thesis by auto
qed

text \<open>The product of the arguments of \<open>calloc\<close> wraps around: a request for 4 GiB gives the smallest region.\<close>

lemma calloc_overflow: "c_calloc pool h 0x10000 0x10000 = c_calloc pool h 0 0"
proof -
  have "(0x10000 :: u32) * 0x10000 = 0 * 0" by code_simp
  then show ?thesis unfolding c_calloc_def by (simp only:)
qed

end
