(* ===== verification/Qsort.thy ===== *)
theory Qsort
  imports CString
begin

text \<open>
  Sorting, \<^verbatim>\<open>lib/runtime/src/qsort.c\<close>: the program of Bentley and McIlroy, on an array of \<open>n\<close> elements of \<open>es\<close> bytes
  in byte memory.  Pointers and sizes are words, differences of pointers and the variables \<open>d\<close> and \<open>r\<close> are read as
  signed words.  The comparison function of the caller is a parameter; it reads memory.  This theory has the code and
  the functions that exchange bytes.
\<close>

section \<open>The code\<close>

type_synonym compar = "mem \<Rightarrow> u32 \<Rightarrow> u32 \<Rightarrow> u32"

text \<open>\<open>do \<dots> while (--i > 0)\<close> on words and on bytes.\<close>

function swap_longs :: "int \<Rightarrow> mem \<Rightarrow> u32 \<Rightarrow> u32 \<Rightarrow> mem" where
  "swap_longs i m x y =
     (let t = load32 m x; m = store32 m x (load32 m y); m = store32 m y t; i = i - 1
      in if i > 0 then swap_longs i m (x + 4) (y + 4) else m)"
  by pat_completeness auto
termination by (relation "measure (\<lambda>(i, _). nat i)") auto

function swap_chars :: "int \<Rightarrow> mem \<Rightarrow> u32 \<Rightarrow> u32 \<Rightarrow> mem" where
  "swap_chars i m x y =
     (let t = m x; m = m(x := m y); m = m(y := t); i = i - 1
      in if i > 0 then swap_chars i m (x + 1) (y + 1) else m)"
  by pat_completeness auto
termination by (relation "measure (\<lambda>(i, _). nat i)") auto

declare swap_longs.simps [simp del] swap_chars.simps [simp del]

definition swapinit :: "u32 \<Rightarrow> u32 \<Rightarrow> nat" where
  "swapinit a es = (if a mod 4 \<noteq> 0 \<or> es mod 4 \<noteq> 0 then 2 else if es = 4 then 0 else 1)"

definition swapfunc :: "mem \<Rightarrow> u32 \<Rightarrow> u32 \<Rightarrow> u32 \<Rightarrow> nat \<Rightarrow> mem" where
  "swapfunc m a b n swaptype =
     (if swaptype \<le> 1 then swap_longs (sint (n div 4)) m a b else swap_chars (sint n) m a b)"

definition qswap :: "mem \<Rightarrow> u32 \<Rightarrow> u32 \<Rightarrow> u32 \<Rightarrow> nat \<Rightarrow> mem" where
  "qswap m a b es swaptype =
     (if swaptype = 0 then
        let t = load32 m a; m = store32 m a (load32 m b) in store32 m b t
      else swapfunc m a b es swaptype)"

definition vecswap :: "mem \<Rightarrow> u32 \<Rightarrow> u32 \<Rightarrow> u32 \<Rightarrow> nat \<Rightarrow> mem" where
  "vecswap m a b n swaptype = (if sint n > 0 then swapfunc m a b n swaptype else m)"

definition smin :: "u32 \<Rightarrow> u32 \<Rightarrow> u32" where
  "smin a b = (if sint a < sint b then a else b)"

definition med3 :: "compar \<Rightarrow> mem \<Rightarrow> u32 \<Rightarrow> u32 \<Rightarrow> u32 \<Rightarrow> u32" where
  "med3 cmp m a b c =
     (if sint (cmp m a b) < 0 then
        (if sint (cmp m b c) < 0 then b else if sint (cmp m a c) < 0 then c else a)
      else
        (if sint (cmp m b c) > 0 then b else if sint (cmp m a c) < 0 then a else c))"

text \<open>The insertion sort: the inner and the outer loop.\<close>

partial_function (option) sift :: "compar \<Rightarrow> u32 \<Rightarrow> u32 \<Rightarrow> nat \<Rightarrow> mem \<Rightarrow> u32 \<Rightarrow> mem option" where
  "sift cmp a es st m pl =
     (if pl > a \<and> sint (cmp m (pl - es) pl) > 0
      then sift cmp a es st (qswap m pl (pl - es) es st) (pl - es)
      else Some m)"

partial_function (option) insertion :: "compar \<Rightarrow> u32 \<Rightarrow> u32 \<Rightarrow> u32 \<Rightarrow> nat \<Rightarrow> mem \<Rightarrow> u32 \<Rightarrow> mem option" where
  "insertion cmp a n es st m pm =
     (if pm < a + n * es then
        case sift cmp a es st m pm of
          None \<Rightarrow> None
        | Some m \<Rightarrow> insertion cmp a n es st m (pm + es)
      else Some m)"

text \<open>The middle of small arrays, the median of three or the pseudo-median of nine.\<close>

definition pivot :: "compar \<Rightarrow> mem \<Rightarrow> u32 \<Rightarrow> u32 \<Rightarrow> u32 \<Rightarrow> u32" where
  "pivot cmp m a n es =
     (let pm = a + (n div 2) * es
      in if n > 7 then
           let pl = a; pn = a + (n - 1) * es;
               (pl, pm, pn) =
                 (if n > 40 then
                    let d = (n div 8) * es
                    in (med3 cmp m pl (pl + d) (pl + 2 * d), med3 cmp m (pm - d) pm (pm + d),
                        med3 cmp m (pn - 2 * d) (pn - d) pn)
                  else (pl, pm, pn))
           in med3 cmp m pl pm pn
         else pm)"

text \<open>The two inner loops of the partition: memory, the two pointers and \<open>swap_cnt\<close>.\<close>

partial_function (option) part_up ::
  "compar \<Rightarrow> u32 \<Rightarrow> u32 \<Rightarrow> nat \<Rightarrow> u32 \<Rightarrow> mem \<Rightarrow> u32 \<Rightarrow> u32 \<Rightarrow> bool \<Rightarrow> (mem \<times> u32 \<times> u32 \<times> bool) option" where
  "part_up cmp a es st pc m pa pb swap_cnt =
     (if pb \<le> pc then
        let r = sint (cmp m pb a)
        in if r \<le> 0 then
             if r = 0 then part_up cmp a es st pc (qswap m pa pb es st) (pa + es) (pb + es) True
             else part_up cmp a es st pc m pa (pb + es) swap_cnt
           else Some (m, pa, pb, swap_cnt)
      else Some (m, pa, pb, swap_cnt))"

partial_function (option) part_down ::
  "compar \<Rightarrow> u32 \<Rightarrow> u32 \<Rightarrow> nat \<Rightarrow> u32 \<Rightarrow> mem \<Rightarrow> u32 \<Rightarrow> u32 \<Rightarrow> bool \<Rightarrow> (mem \<times> u32 \<times> u32 \<times> bool) option" where
  "part_down cmp a es st pb m pc pd swap_cnt =
     (if pb \<le> pc then
        let r = sint (cmp m pc a)
        in if r \<ge> 0 then
             if r = 0 then part_down cmp a es st pb (qswap m pc pd es st) (pc - es) (pd - es) True
             else part_down cmp a es st pb m (pc - es) pd swap_cnt
           else Some (m, pc, pd, swap_cnt)
      else Some (m, pc, pd, swap_cnt))"

partial_function (option) partition_loop ::
  "compar \<Rightarrow> u32 \<Rightarrow> u32 \<Rightarrow> nat \<Rightarrow> mem \<Rightarrow> u32 \<Rightarrow> u32 \<Rightarrow> u32 \<Rightarrow> u32 \<Rightarrow> bool \<Rightarrow>
     (mem \<times> u32 \<times> u32 \<times> u32 \<times> u32 \<times> bool) option" where
  "partition_loop cmp a es st m pa pb pc pd swap_cnt =
     (case part_up cmp a es st pc m pa pb swap_cnt of
        None \<Rightarrow> None
      | Some (m, pa, pb, swap_cnt) \<Rightarrow>
          (case part_down cmp a es st pb m pc pd swap_cnt of
             None \<Rightarrow> None
           | Some (m, pc, pd, swap_cnt) \<Rightarrow>
               if pb > pc then Some (m, pa, pb, pc, pd, swap_cnt)
               else partition_loop cmp a es st (qswap m pb pc es st) pa (pb + es) (pc - es) pd True))"

text \<open>The elements equal to the pivot move from both ends to the middle.\<close>

definition gather :: "u32 \<Rightarrow> u32 \<Rightarrow> u32 \<Rightarrow> nat \<Rightarrow> mem \<Rightarrow> u32 \<Rightarrow> u32 \<Rightarrow> u32 \<Rightarrow> u32 \<Rightarrow> mem" where
  "gather a pn es st m pa pb pc pd =
     (let r = smin (pa - a) (pb - pa); m = vecswap m a (pb - r) r st;
          r = smin (pd - pc) (pn - pd - es)
      in vecswap m pb (pn - r) r st)"

partial_function (option) qsort :: "compar \<Rightarrow> u32 \<Rightarrow> mem \<Rightarrow> u32 \<Rightarrow> u32 \<Rightarrow> mem option" where
  "qsort cmp es m a n =
     (let st = swapinit a es
      in if n < 7 then insertion cmp a n es st m (a + es)
         else
           let m = qswap m a (pivot cmp m a n es) es st
           in case partition_loop cmp a es st m (a + es) (a + es) (a + (n - 1) * es) (a + (n - 1) * es) False of
                None \<Rightarrow> None
              | Some (m, pa, pb, pc, pd, swap_cnt) \<Rightarrow>
                  if \<not> swap_cnt then insertion cmp a n es st m (a + es)
                  else
                    let pn = a + n * es; m = gather a pn es st m pa pb pc pd; r = pb - pa
                    in Option.bind (if sint r > sint es then qsort cmp es m a (r div es) else Some m)
                         (\<lambda>m. let r = pd - pc
                               in if sint r > sint es then qsort cmp es m (pn - r) (r div es) else Some m))"

section \<open>Exchanging regions\<close>

definition exchange :: "mem \<Rightarrow> u32 \<Rightarrow> u32 \<Rightarrow> nat \<Rightarrow> mem" where
  "exchange m p q k = wr (wr m p (rd m q k)) q (rd m p k)"

lemma exchange_at:
  "exchange m p q k x =
     (if unat (x - q) < k then m (p + (x - q)) else if unat (x - p) < k then m (q + (x - p)) else m x)"
  by (simp add: exchange_def wr_def)

lemma exchange_same: "exchange m p p k = m"
  by (rule ext) (simp add: exchange_at)

lemma minus_region:
  assumes "j + k \<le> 4294967296"
  shows "unat (w - of_nat j :: u32) < k \<longleftrightarrow> j \<le> unat w \<and> unat w < j + k"
proof (cases "k = 0")
  case False
  then have j: "unat (of_nat j :: u32) = j" using assms by (intro unat_of_nat32) simp
  show ?thesis unfolding unat_sub_if' j using assms unsigned_less[of w, where 'a = nat] by auto
qed simp

lemma exchange_join:
  assumes "apart p (j + k) q (j + k) \<or> p = q" "j + k \<le> 4294967296"
  shows "exchange (exchange m p q j) (p + of_nat j) (q + of_nat j) k = exchange m p q (j + k)"
proof (cases "p = q")
  case True
  then show ?thesis by (simp add: exchange_same)
next
  case False
  then have ap: "apart p (j + k) q (j + k)" using assms(1) by blast
  have far: "\<not> unat (p + w - q) < j + k" "\<not> unat (q + w - p) < j + k" if "unat w < j + k" for w
  proof -
    have n: "p + w \<noteq> q + of_nat i" "q + w \<noteq> p + of_nat i" if "i < j + k" for i
    proof -
      have w: "p + of_nat (unat w) \<noteq> q + of_nat i" "p + of_nat i \<noteq> q + of_nat (unat w)"
        using ap that \<open>unat w < j + k\<close> unfolding apart_def by blast+
      then show "p + w \<noteq> q + of_nat i" "q + w \<noteq> p + of_nat i" by (simp_all add: eq_commute)
    qed
    show "\<not> unat (p + w - q) < j + k"
    proof
      assume "unat (p + w - q) < j + k"
      from n(1)[OF this] show False by simp
    qed
    show "\<not> unat (q + w - p) < j + k"
    proof
      assume "unat (q + w - p) < j + k"
      from n(2)[OF this] show False by simp
    qed
  qed
  show ?thesis
  proof
    fix x
    have s: "x - (p + of_nat j) = (x - p) - of_nat j" "x - (q + of_nat j) = (x - q) - of_nat j" by simp_all
    have b: "p + of_nat j + (x - q - of_nat j) = p + (x - q)" "q + of_nat j + (x - p - of_nat j) = q + (x - p)" by simp_all
    show "exchange (exchange m p q j) (p + of_nat j) (q + of_nat j) k x = exchange m p q (j + k) x"
      unfolding exchange_at[of "exchange m p q j"] s b minus_region[OF assms(2)]
      using far[of "x - q"] far[of "x - p"] by (auto simp: exchange_at)
  qed
qed

lemma store_load: "store32 m x (load32 m' y) = wr m x (rd m' y 4)"
proof -
  have r: "rd m' y 4 = [m' y, m' (y + 1), m' (y + 2), m' (y + 3)]" by (simp add: rd_def upt_rec)
  have "ucast (load32 m' y) = m' y" "ucast (drop_bit 8 (load32 m' y)) = m' (y + 1)"
    "ucast (drop_bit 16 (load32 m' y)) = m' (y + 2)" "ucast (drop_bit 24 (load32 m' y)) = m' (y + 3)"
    unfolding load32_def by (rule bit_word_eqI, auto simp: bit_simps dest: bit_imp_le_length)+
  then show ?thesis by (simp add: store32_def r)
qed

lemma exchange_long: "store32 (store32 m x (load32 m y)) y (load32 m x) = exchange m x y 4"
  by (simp add: store_load exchange_def)

lemma exchange_char: "m(x := m y, y := m x) = exchange m x y 1"
proof
  fix z
  have "unat (z - w) < 1 \<longleftrightarrow> z = w" for w :: u32 by (simp add: unat_eq_zero)
  then show "(m(x := m y, y := m x)) z = exchange m x y 1 z" by (simp add: exchange_at)
qed

lemma swap_longs_step:
  "swap_longs i m x y =
     (if i - 1 > 0 then swap_longs (i - 1) (exchange m x y 4) (x + 4) (y + 4) else exchange m x y 4)"
  by (subst swap_longs.simps) (simp only: Let_def exchange_long)

lemma swap_chars_step:
  "swap_chars i m x y =
     (if i - 1 > 0 then swap_chars (i - 1) (exchange m x y 1) (x + 1) (y + 1) else exchange m x y 1)"
  by (subst swap_chars.simps) (simp only: Let_def exchange_char)

lemma apart_tail:
  assumes "apart p (j + k) q (j + k) \<or> p = q"
  shows "apart (p + of_nat j) k (q + of_nat j) k \<or> p + of_nat j = q + of_nat j"
proof (cases "p = q")
  case False
  then have "apart p (j + k) q (j + k)" using assms by blast
  then have "apart (p + of_nat j) k (q + of_nat j) k"
    using apart_shift[of p j k q "j + k"] apart_shift[of q j k "p + of_nat j" k] apart_sym by blast
  then show ?thesis ..
qed simp

lemma swap_longs_value:
  "apart x (4 * Suc k) y (4 * Suc k) \<or> x = y \<Longrightarrow> 4 * Suc k \<le> 4294967296 \<Longrightarrow>
     swap_longs (int (Suc k)) m x y = exchange m x y (4 * Suc k)"
proof (induction k arbitrary: m x y)
  case 0
  then show ?case by (subst swap_longs_step) simp
next
  case (Suc k)
  have e: "4 * Suc (Suc k) = 4 + 4 * Suc k" by simp
  note a = Suc.prems[unfolded e]
  have "swap_longs (int (Suc (Suc k))) m x y = swap_longs (int (Suc k)) (exchange m x y 4) (x + 4) (y + 4)"
    by (subst swap_longs_step) simp
  also have "\<dots> = exchange (exchange m x y 4) (x + 4) (y + 4) (4 * Suc k)"
    by (rule Suc.IH) (use apart_tail[OF a(1)] a(2) in simp_all)
  also have "\<dots> = exchange m x y (4 + 4 * Suc k)" using exchange_join[OF a] by simp
  finally show ?case unfolding e .
qed

lemma swap_chars_value:
  "apart x (Suc k) y (Suc k) \<or> x = y \<Longrightarrow> Suc k \<le> 4294967296 \<Longrightarrow>
     swap_chars (int (Suc k)) m x y = exchange m x y (Suc k)"
proof (induction k arbitrary: m x y)
  case 0
  then show ?case by (subst swap_chars_step) simp
next
  case (Suc k)
  have e: "Suc (Suc k) = 1 + Suc k" by simp
  note a = Suc.prems[unfolded e]
  have "swap_chars (int (Suc (Suc k))) m x y = swap_chars (int (Suc k)) (exchange m x y 1) (x + 1) (y + 1)"
    by (subst swap_chars_step) simp
  also have "\<dots> = exchange (exchange m x y 1) (x + 1) (y + 1) (Suc k)"
    by (rule Suc.IH) (use apart_tail[OF a(1)] a(2) in simp_all)
  also have "\<dots> = exchange m x y (1 + Suc k)" using exchange_join[OF a] by simp
  finally show ?case unfolding e .
qed

lemma sint_small: "unat (n :: u32) < 2147483648 \<Longrightarrow> sint n = int (unat n)"
  using sint_eq_cases[of n] by simp

lemma swapfunc_value:
  assumes "apart x (unat n) y (unat n) \<or> x = y" "0 < unat n" "unat n < 2147483648" "unat es dvd unat n"
  shows "swapfunc m x y n (swapinit a es) = exchange m x y (unat n)"
proof (cases "swapinit a es \<le> 1")
  case True
  then have "es mod 4 = 0" by (auto simp: swapinit_def split: if_splits)
  then have "unat es mod 4 = 0" using unat_mod[of es 4] by simp
  then have "4 dvd unat n" using assms(4) by (meson dvd_trans mod_eq_0_iff_dvd)
  then obtain k where k: "unat n = 4 * Suc k" using assms(2) by (metis dvd_def gr0_implies_Suc mult_is_0 not_gr_zero)
  have "unat (n div 4) = Suc k" using k by (simp add: unat_div)
  then have "sint (n div 4) = int (Suc k)" using assms(3) k by (simp add: sint_small)
  then show ?thesis using True swap_longs_value[of x k y m] assms(1,3) k by (simp add: swapfunc_def)
next
  case False
  obtain k where k: "unat n = Suc k" using assms(2) by (metis gr0_implies_Suc)
  then have "sint n = int (Suc k)" using assms(3) by (simp add: sint_small)
  then show ?thesis using False swap_chars_value[of x k y m] assms(1,3) k by (simp add: swapfunc_def)
qed

lemma qswap_value:
  assumes "apart x (unat es) y (unat es) \<or> x = y" "0 < unat es" "unat es < 2147483648"
  shows "qswap m x y es (swapinit a es) = exchange m x y (unat es)"
proof (cases "swapinit a es = 0")
  case True
  then have "es = 4" by (auto simp: swapinit_def split: if_splits)
  then show ?thesis using True by (simp add: qswap_def Let_def exchange_long)
next
  case False
  then show ?thesis using swapfunc_value[OF assms] by (simp add: qswap_def)
qed

end
