(* ===== verification/QsortMem.thy ===== *)
theory QsortMem
  imports Qsort "HOL-Library.Multiset"
begin

text \<open>
  The array that \<open>qsort\<close> sorts.  \<open>elems\<close> is the array of memory as a list of byte strings, \<open>slot\<close> the address of
  an element; exchanging elements or blocks of elements in memory permutes the list and nothing else.
\<close>

section \<open>The array in memory\<close>

definition slot :: "u32 \<Rightarrow> u32 \<Rightarrow> nat \<Rightarrow> u32" where
  "slot a es i = a + of_nat i * es"

definition elems :: "mem \<Rightarrow> u32 \<Rightarrow> u32 \<Rightarrow> nat \<Rightarrow> u8 list list" where
  "elems m a es n = map (\<lambda>i. rd m (slot a es i) (unat es)) [0..<n]"

text \<open>The array has less than \<open>2\<^sup>3\<^sup>1\<close> bytes and does not wrap around; an empty one still has room for an element.\<close>

definition area :: "u32 \<Rightarrow> u32 \<Rightarrow> nat \<Rightarrow> bool" where
  "area a es n \<longleftrightarrow> 0 < unat es \<and> max 1 n * unat es < 2147483648 \<and> unat a + max 1 n * unat es < 4294967296"

definition unchanged_outside :: "u32 \<Rightarrow> nat \<Rightarrow> mem \<Rightarrow> mem \<Rightarrow> bool" where
  "unchanged_outside a k m m' \<longleftrightarrow> (\<forall>x. \<not> in_region x a k \<longrightarrow> m' x = m x)"

lemma length_elems [simp]: "length (elems m a es n) = n"
  by (simp add: elems_def)

lemma nth_elems: "t < n \<Longrightarrow> elems m a es n ! t = rd m (slot a es t) (unat es)"
  by (simp add: elems_def)

lemma slot_0: "slot a es 0 = a"
  by (simp add: slot_def)

lemma slot_slot: "slot (slot a es i) es j = slot a es (i + j)"
  by (simp add: slot_def algebra_simps)

lemma slot_step: "slot a es i + es = slot a es (Suc i)" "0 < i \<Longrightarrow> slot a es i - es = slot a es (i - 1)"
  by (auto simp: slot_def algebra_simps gr0_conv_Suc)

lemma slot_mult: "of_nat i * es = of_nat (i * unat es)"
  by simp

lemma area_bounds:
  assumes "area a es n" "i \<le> n"
  shows "i * unat es < 2147483648" "unat a + i * unat es < 4294967296" "0 < unat es" "unat es < 2147483648"
proof -
  have "i * unat es \<le> max 1 n * unat es" "1 * unat es \<le> max 1 n * unat es" using assms(2) by (intro mult_le_mono1; simp)+
  then show "i * unat es < 2147483648" "unat a + i * unat es < 4294967296" "0 < unat es" "unat es < 2147483648"
    using assms(1) unfolding area_def by linarith+
qed

lemma unat_slot: "area a es n \<Longrightarrow> i \<le> n \<Longrightarrow> unat (slot a es i) = unat a + i * unat es"
proof -
  assume h: "area a es n" "i \<le> n"
  note b = area_bounds[OF h]
  have "unat (of_nat (i * unat es) :: u32) = i * unat es" using b(1) by (intro unat_of_nat32) simp
  then show ?thesis unfolding slot_def slot_mult using b(2) by (subst unat_plus_if') simp
qed

lemma slot_less:
  assumes "area a es n" "i \<le> n" "j \<le> n"
  shows "slot a es i < slot a es j \<longleftrightarrow> i < j" "slot a es i \<le> slot a es j \<longleftrightarrow> i \<le> j"
  using area_bounds(3)[OF assms(1) order_refl] by (simp_all add: word_less_nat_alt word_le_nat_alt unat_slot[OF assms(1)] assms)

lemma slot_diff:
  assumes "area a es n" "i \<le> j" "j \<le> n"
  shows "slot a es j - slot a es i = of_nat ((j - i) * unat es)" "unat (slot a es j - slot a es i) = (j - i) * unat es"
    "sint (slot a es j - slot a es i) = int ((j - i) * unat es)" "(slot a es j - slot a es i) div es = of_nat (j - i)"
proof -
  show e: "slot a es j - slot a es i = of_nat ((j - i) * unat es)"
    using assms(2) by (simp add: slot_def of_nat_diff algebra_simps)
  have b: "(j - i) * unat es < 2147483648" by (rule area_bounds[OF assms(1)]) (use assms in simp)
  then show u: "unat (slot a es j - slot a es i) = (j - i) * unat es" unfolding e by (intro unat_of_nat32) simp
  show "sint (slot a es j - slot a es i) = int ((j - i) * unat es)" using u b by (simp add: sint_small)
  have "unat ((slot a es j - slot a es i) div es) = j - i" unfolding unat_div u using area_bounds(3)[OF assms(1) order_refl] by simp
  then show "(slot a es j - slot a es i) div es = of_nat (j - i)" by (metis of_nat_unat ucast_id)
qed

lemma area_sub: "area a es n \<Longrightarrow> i + k \<le> n \<Longrightarrow> 0 < k \<Longrightarrow> area (slot a es i) es k"
proof -
  assume h: "area a es n" "i + k \<le> n" "0 < k"
  have "i \<le> n" "k \<le> n" using h(2) by simp_all
  note b = area_bounds[OF h(1,2)] area_bounds[OF h(1) \<open>k \<le> n\<close>] and u = unat_slot[OF h(1) \<open>i \<le> n\<close>]
  have "max 1 k = k" using h(3) by simp
  then show ?thesis unfolding area_def u using b by (simp add: algebra_simps)
qed

lemma elems_split: "i \<le> n \<Longrightarrow> elems m a es n = elems m a es i @ elems m (slot a es i) es (n - i)"
proof -
  assume "i \<le> n"
  then have "[0..<n] = [0..<i] @ map (\<lambda>j. j + i) [0..<n - i]"
    using upt_add_eq_append[of 0 i "n - i"] map_add_upt[of i "n - i"] by simp
  then show ?thesis by (simp add: elems_def slot_slot add.commute)
qed

lemma region_slot:
  assumes "area a es n" "i + k \<le> n"
  shows "in_region x (slot a es i) (k * unat es) \<longleftrightarrow> i * unat es \<le> unat (x - a) \<and> unat (x - a) < (i + k) * unat es"
proof -
  have "x - slot a es i = (x - a) - of_nat (i * unat es)" by (simp add: slot_def)
  moreover have "i * unat es + k * unat es \<le> 4294967296" using area_bounds(1)[OF assms] by (simp add: algebra_simps)
  ultimately show ?thesis unfolding in_region_def by (simp only: minus_region add_mult_distrib)
qed

lemma unchanged_sub:
  assumes "area a es n" "i + k \<le> n" "unchanged_outside (slot a es i) (k * unat es) m m'"
  shows "unchanged_outside a (n * unat es) m m'"
  unfolding unchanged_outside_def
proof (intro allI impI)
  fix x assume x: "\<not> in_region x a (n * unat es)"
  have "(i + k) * unat es \<le> n * unat es" using assms(2) by (rule mult_le_mono1)
  then have "\<not> in_region x (slot a es i) (k * unat es)" unfolding region_slot[OF assms(1,2)] using x
    by (metis in_region_def order_less_le_trans)
  then show "m' x = m x" using assms(3) by (simp add: unchanged_outside_def)
qed

lemma unchanged_refl: "unchanged_outside a k m m"
  by (simp add: unchanged_outside_def)

lemma unchanged_trans: "unchanged_outside a k m m' \<Longrightarrow> unchanged_outside a k m' m'' \<Longrightarrow> unchanged_outside a k m m''"
  by (simp add: unchanged_outside_def)

lemma slot_byte:
  assumes "area a es n" "t < n" "d < unat es"
  shows "unat (slot a es t + of_nat d - a) = t * unat es + d" "unat (slot a es t + of_nat d - a) div unat es = t"
proof -
  have "Suc t \<le> n" using assms(2) by simp
  note b = area_bounds[OF assms(1) this]
  have e: "slot a es t + of_nat d - a = of_nat (t * unat es + d)" by (simp add: slot_def)
  show "unat (slot a es t + of_nat d - a) = t * unat es + d" unfolding e
    by (rule unat_of_nat32) (use b assms(3) in simp)
  then show "unat (slot a es t + of_nat d - a) div unat es = t" using assms(3) by simp
qed

text \<open>Bytes of an element and blocks of elements.\<close>

lemma byte_region:
  assumes "area a es n" "t < n" "d < unat es" "i + k \<le> n"
  shows "in_region (slot a es t + of_nat d) (slot a es i) (k * unat es) \<longleftrightarrow> i \<le> t \<and> t < i + k"
  unfolding region_slot[OF assms(1,4)]
  using slot_byte(2)[OF assms(1-3)] assms(3)
  by (metis div_less_iff_less_mult gr_implies_not0 less_eq_div_iff_mult_less_eq not_gr_zero)

lemma elems_unchanged:
  assumes "area a es n" "i + k \<le> n" "unchanged_outside (slot a es i) (k * unat es) m m'"
  shows "elems m' a es n = take i (elems m a es n) @ elems m' (slot a es i) es k @ drop (i + k) (elems m a es n)"
proof -
  have t: "elems m' a es n ! t = elems m a es n ! t" if "t < n" "t < i \<or> i + k \<le> t" for t
  proof -
    have "rd m' (slot a es t) (unat es) = rd m (slot a es t) (unat es)"
      by (rule rd_cong) (use byte_region[OF assms(1) that(1) _ assms(2)] that(2) assms(3) in \<open>auto simp: unchanged_outside_def\<close>)
    then show ?thesis using that(1) by (simp add: nth_elems)
  qed
  have s: "elems m' (slot a es i) es k ! (t - i) = elems m' a es n ! t" if "i \<le> t" "t < i + k" for t
    using that assms(2) by (simp add: nth_elems slot_slot)
  show ?thesis
    by (rule nth_equalityI) (use assms(2) t s in \<open>auto simp: nth_append min_def\<close>)
qed

lemma elems_sub: "i + k \<le> n \<Longrightarrow> elems m (slot a es i) es k = take k (drop i (elems m a es n))"
  by (rule nth_equalityI) (simp_all add: nth_elems slot_slot)

section \<open>Exchanging elements\<close>

definition permuted :: "u32 \<Rightarrow> u32 \<Rightarrow> nat \<Rightarrow> mem \<Rightarrow> mem \<Rightarrow> bool" where
  "permuted a es n m m' \<longleftrightarrow>
     mset (elems m' a es n) = mset (elems m a es n) \<and> unchanged_outside a (n * unat es) m m'"

lemma permuted_refl: "permuted a es n m m"
  by (simp add: permuted_def unchanged_refl)

lemma permuted_trans: "permuted a es n m m' \<Longrightarrow> permuted a es n m' m'' \<Longrightarrow> permuted a es n m m''"
  by (auto simp: permuted_def intro: unchanged_trans)

lemma permuted_set: "permuted a es n m m' \<Longrightarrow> set (elems m' a es n) = set (elems m a es n)"
  by (metis permuted_def set_mset_mset)

lemma apart_slots:
  assumes "area a es n" "i + k \<le> j" "j + k \<le> n"
  shows "apart (slot a es i) (k * unat es) (slot a es j) (k * unat es)"
proof (rule apart_below)
  have n: "i \<le> n" "j \<le> n" using assms by simp_all
  have "(i + k) * unat es \<le> j * unat es" using assms(2) by (rule mult_le_mono1)
  then show "unat (slot a es i) + k * unat es \<le> unat (slot a es j)"
    unfolding unat_slot[OF assms(1) n(1)] unat_slot[OF assms(1) n(2)] by (simp add: add_mult_distrib)
  show "unat (slot a es j) + k * unat es \<le> 4294967296"
    unfolding unat_slot[OF assms(1) n(2)] using area_bounds(2)[OF assms(1,3)] by (simp add: add_mult_distrib)
qed

lemma exchange_slots:
  fixes m :: mem
  assumes A: "area a es n" and ij: "i + k \<le> j \<or> j + k \<le> i" "i + k \<le> n" "j + k \<le> n"
  defines "m' \<equiv> exchange m (slot a es i) (slot a es j) (k * unat es)"
  shows "t < n \<Longrightarrow> elems m' a es n ! t =
      (if j \<le> t \<and> t < j + k then elems m a es n ! (t - j + i)
       else if i \<le> t \<and> t < i + k then elems m a es n ! (t - i + j) else elems m a es n ! t)"
    and "unchanged_outside a (n * unat es) m m'"
proof -
  have move: "slot a es y + (slot a es t + of_nat d - slot a es x) = slot a es (t - x + y) + of_nat d" if "x \<le> t" for x y t d
    using that by (simp add: slot_def of_nat_diff algebra_simps)
  show "elems m' a es n ! t =
      (if j \<le> t \<and> t < j + k then elems m a es n ! (t - j + i)
       else if i \<le> t \<and> t < i + k then elems m a es n ! (t - i + j) else elems m a es n ! t)" if t: "t < n"
  proof -
    have byte: "m' (slot a es t + of_nat d) =
        (if j \<le> t \<and> t < j + k then m (slot a es (t - j + i) + of_nat d)
         else if i \<le> t \<and> t < i + k then m (slot a es (t - i + j) + of_nat d) else m (slot a es t + of_nat d))"
      if d: "d < unat es" for d
      unfolding m'_def exchange_at byte_region[OF A t d ij(2), unfolded in_region_def]
        byte_region[OF A t d ij(3), unfolded in_region_def]
      by (auto simp only: move split: if_split)
    have "t - j + i < n" if "j \<le> t" "t < j + k" using that ij by simp
    moreover have "t - i + j < n" if "i \<le> t" "t < i + k" using that ij by simp
    ultimately show ?thesis using byte t by (auto simp: nth_elems rd_def)
  qed
  show "unchanged_outside a (n * unat es) m m'" unfolding unchanged_outside_def
  proof (intro allI impI)
    fix x assume x: "\<not> in_region x a (n * unat es)"
    have "\<not> in_region x (slot a es i) (k * unat es)" "\<not> in_region x (slot a es j) (k * unat es)"
      unfolding region_slot[OF A ij(2)] region_slot[OF A ij(3)] using x mult_le_mono1[OF ij(2)] mult_le_mono1[OF ij(3)]
      by (metis in_region_def order_less_le_trans)+
    then show "m' x = m x" by (simp add: m'_def exchange_at in_region_def)
  qed
qed

lemma qswap_slots:
  fixes m :: mem
  assumes A: "area a es n" and "i < n" "j < n"
  defines "m' \<equiv> qswap m (slot a es i) (slot a es j) es (swapinit a es)" and "xs \<equiv> elems m a es n"
  shows "elems m' a es n = xs[i := xs ! j, j := xs ! i]" "permuted a es n m m'"
proof -
  have e: "m' = exchange m (slot a es i) (slot a es j) (1 * unat es)"
  proof -
    consider "i + 1 \<le> j" | "j + 1 \<le> i" | "i = j" by linarith
    then have "apart (slot a es i) (unat es) (slot a es j) (unat es) \<or> slot a es i = slot a es j"
      using apart_slots[OF A, of i 1 j] apart_slots[OF A, of j 1 i] assms(2,3) apart_sym by cases auto
    then show ?thesis unfolding m'_def using area_bounds(3,4)[OF A order_refl] by (simp add: qswap_value)
  qed
  have u: "elems m' a es n = xs[i := xs ! j, j := xs ! i] \<and> unchanged_outside a (n * unat es) m m'"
  proof (cases "i = j")
    case True
    then show ?thesis unfolding e xs_def by (simp add: exchange_same unchanged_refl)
  next
    case False
    then have ij: "i + 1 \<le> j \<or> j + 1 \<le> i" "i + 1 \<le> n" "j + 1 \<le> n" using assms(2,3) by auto
    have "elems m' a es n = xs[i := xs ! j, j := xs ! i]"
      by (rule nth_equalityI)
        (use exchange_slots(1)[OF A ij] assms(2,3) in \<open>auto simp: e xs_def nth_list_update le_less_Suc_eq\<close>)
    then show ?thesis using exchange_slots(2)[OF A ij] unfolding e by blast
  qed
  then show "elems m' a es n = xs[i := xs ! j, j := xs ! i]" by blast
  show "permuted a es n m m'" unfolding permuted_def using u mset_swap[of j xs i] assms(2,3) by (simp add: xs_def)
qed

lemma nth_blocks:
  "t < length P \<Longrightarrow> (P @ B @ C @ D @ F) ! t = P ! t"
  "u < length B \<Longrightarrow> (P @ B @ C @ D @ F) ! (length P + u) = B ! u"
  "u < length C \<Longrightarrow> (P @ B @ C @ D @ F) ! (length P + length B + u) = C ! u"
  "u < length D \<Longrightarrow> (P @ B @ C @ D @ F) ! (length P + length B + length C + u) = D ! u"
  "(P @ B @ C @ D @ F) ! (length P + length B + length C + length D + u) = F ! u"
  by (simp_all add: nth_append)

lemma exchanged_blocks:
  assumes "length B = length D" "t < length (P @ B @ C @ D @ F)"
  defines "xs \<equiv> P @ B @ C @ D @ F" and "i \<equiv> length P" and "j \<equiv> length (P @ B @ C)" and "k \<equiv> length D"
  shows "(if j \<le> t \<and> t < j + k then xs ! (t - j + i) else if i \<le> t \<and> t < i + k then xs ! (t - i + j) else xs ! t)
    = (P @ D @ C @ B @ F) ! t"
proof -
  have ij: "i + k \<le> j" "i = length P" "j = length P + length B + length C" "k = length D" "length B = k"
    using assms(1) by (simp_all add: i_def j_def k_def)
  consider "t < i" | u where "t = i + u" "u < k" | u where "t = i + k + u" "u < length C"
    | u where "t = j + u" "u < k" | u where "t = j + k + u"
  proof -
    consider "t < i" | "i \<le> t" "t < i + k" | "i + k \<le> t" "t < j" | "j \<le> t" "t < j + k" | "j + k \<le> t" by linarith
    then show thesis
    proof cases
      case 2
      then show thesis by (intro that(2)[of "t - i"]) simp_all
    next
      case 3
      then show thesis using ij by (intro that(3)[of "t - (i + k)"]) simp_all
    next
      case 4
      then show thesis by (intro that(4)[of "t - j"]) simp_all
    next
      case 5
      then show thesis by (intro that(5)[of "t - (j + k)"]) simp_all
    qed (rule that(1))
  qed
  then show ?thesis
  proof cases
    case 1
    then show ?thesis unfolding xs_def using ij nth_blocks(1)[of t P] by simp
  next
    case 2
    have "(P @ D @ C @ B @ F) ! (i + u) = D ! u" unfolding ij(2) by (rule nth_blocks(2)) (use 2 ij in simp)
    moreover have "xs ! (j + u) = D ! u" unfolding ij(3) xs_def by (rule nth_blocks(4)) (use 2 ij in simp)
    ultimately show ?thesis using 2 ij by (simp add: add.commute)
  next
    case 3
    have "(P @ D @ C @ B @ F) ! (i + k + u) = C ! u" unfolding ij(2,4) by (rule nth_blocks(3)) (use 3 in simp)
    moreover have "xs ! (i + k + u) = C ! u" unfolding ij(2) ij(5)[symmetric] xs_def by (rule nth_blocks(3)) (use 3 in simp)
    ultimately show ?thesis using 3 ij by simp
  next
    case 4
    have "(P @ D @ C @ B @ F) ! (length P + length D + length C + u) = B ! u" by (rule nth_blocks(4)) (use 4 ij in simp)
    moreover have "j = length P + length D + length C" using ij by simp
    moreover have "xs ! (i + u) = B ! u" unfolding ij(2) xs_def by (rule nth_blocks(2)) (use 4 ij in simp)
    ultimately show ?thesis using 4 by (simp add: add.commute)
  next
    case 5
    have "(P @ D @ C @ B @ F) ! (length P + length D + length C + length B + u) = F ! u" by (rule nth_blocks(5))
    moreover have "xs ! (length P + length B + length C + length D + u) = F ! u" unfolding xs_def by (rule nth_blocks(5))
    moreover have "t = length P + length D + length C + length B + u" "t = length P + length B + length C + length D + u"
      using 5 ij by simp_all
    ultimately show ?thesis using 5 ij by simp
  qed
qed

text \<open>Exchanging two blocks of the same length.\<close>

lemma vecswap_slots:
  assumes A: "area a es n" and xs: "elems m a es n = P @ B @ C @ D @ F" and l: "length B = length D"
    and p: "p = slot a es (length P)" "q = slot a es (length (P @ B @ C))"
    and r: "r = of_nat (length D * unat es)" and st: "st = swapinit a es"
  shows "elems (vecswap m p q r st) a es n = P @ D @ C @ B @ F" "permuted a es n m (vecswap m p q r st)"
proof -
  let ?i = "length P" and ?j = "length (P @ B @ C)" and ?k = "length D"
  have n: "n = length P + length B + length C + length D + length F" using arg_cong[OF xs, of length] by simp
  then have ij: "?i + ?k \<le> ?j \<or> ?j + ?k \<le> ?i" "?i + ?k \<le> n" "?j + ?k \<le> n" using l by auto
  have b: "?k * unat es < 2147483648" by (rule area_bounds(1)[OF A]) (use n in simp)
  then have ur: "unat r = ?k * unat es" unfolding r by (intro unat_of_nat32) simp
  have e: "vecswap m p q r st = exchange m (slot a es ?i) (slot a es ?j) (?k * unat es)"
  proof (cases "?k = 0")
    case True
    then have "exchange m p q 0 = m" by (simp add: exchange_def)
    then show ?thesis using True by (simp add: vecswap_def r p)
  next
    case False
    then have pos: "0 < unat r" using ur area_bounds(3)[OF A order_refl] by simp
    have "sint r = int (unat r)" using b ur by (intro sint_small) simp
    then have "sint r > 0" using pos by (simp only: of_nat_0_less_iff)
    moreover have "apart p (unat r) q (unat r)" unfolding ur p using apart_slots[OF A _ ij(3), of ?i] l by simp
    moreover have "unat r < 2147483648" "unat es dvd unat r" using ur b by simp_all
    ultimately show ?thesis unfolding vecswap_def st using pos ur p by (simp add: swapfunc_value)
  qed
  show el: "elems (vecswap m p q r st) a es n = P @ D @ C @ B @ F"
  proof (rule nth_equalityI)
    fix t assume "t < length (elems (vecswap m p q r st) a es n)"
    then have t: "t < n" "t < length (P @ B @ C @ D @ F)" using n by simp_all
    show "elems (vecswap m p q r st) a es n ! t = (P @ D @ C @ B @ F) ! t"
      unfolding e exchange_slots(1)[OF A ij t(1)] xs by (rule exchanged_blocks[OF l t(2)])
  qed (use n l in simp)
  show "permuted a es n m (vecswap m p q r st)" unfolding permuted_def el xs using exchange_slots(2)[OF A ij] e by simp
qed

section \<open>Moving the ends to the middle\<close>

lemma smin_slots:
  assumes "area a es n" "i \<le> j" "j \<le> n" "k \<le> l" "l \<le> n"
  shows "smin (slot a es j - slot a es i) (slot a es l - slot a es k) = of_nat (min (j - i) (l - k) * unat es)"
proof -
  have "int ((j - i) * unat es) < int ((l - k) * unat es) \<longleftrightarrow> j - i < l - k"
    using area_bounds(3)[OF assms(1) order_refl] by (simp only: of_nat_less_iff mult_less_cancel2 simp_thms)
  then show ?thesis
    unfolding smin_def slot_diff(3)[OF assms(1-3)] slot_diff(3)[OF assms(1,4,5)]
    unfolding slot_diff(1)[OF assms(1-3)] slot_diff(1)[OF assms(1,4,5)]
    by (cases "j - i < l - k") (simp_all only: if_True if_False min_absorb1 min_absorb2 less_imp_le not_less)
qed

text \<open>Exchanging the shorter of two adjacent blocks with the far end of the other brings the second one to the front.\<close>

lemma blocks_exchanged:
  fixes E L :: "'a list"
  defines "k \<equiv> min (length E) (length L)"
  obtains B C D L' E' where "E @ L = B @ C @ D" "length B = k" "length D = k" "D @ C @ B = L' @ E'"
    "mset L' = mset L" "mset E' = mset E"
proof (cases "length E \<le> length L")
  case True
  let ?d = "length L - length E"
  have "mset (drop ?d L) + mset (take ?d L) = mset L" by (metis add.commute append_take_drop_id mset_append)
  then show thesis
    using True by (intro that[of E "take ?d L" "drop ?d L" "drop ?d L @ take ?d L" E]) (simp_all add: k_def)
next
  case False
  let ?l = "length L"
  have "mset (drop ?l E) + mset (take ?l E) = mset E" by (metis add.commute append_take_drop_id mset_append)
  then show thesis
    using False by (intro that[of "take ?l E" "drop ?l E" L L "drop ?l E @ take ?l E"]) (simp_all add: k_def)
qed

lemma vecswap_adjacent:
  assumes A: "area a es n" and xs: "elems m a es n = P @ E @ L @ F" and st: "st = swapinit a es"
    and r: "r = of_nat (min (length E) (length L) * unat es)"
  shows "\<exists>L' E'. elems (vecswap m (slot a es (length P)) (slot a es (length (P @ E @ L)) - r) r st) a es n = P @ L' @ E' @ F \<and>
    mset L' = mset L \<and> mset E' = mset E \<and>
    permuted a es n m (vecswap m (slot a es (length P)) (slot a es (length (P @ E @ L)) - r) r st)"
proof -
  obtain B C D L' E' where b: "E @ L = B @ C @ D" "length B = min (length E) (length L)" "length D = min (length E) (length L)"
    "D @ C @ B = L' @ E'" "mset L' = mset L" "mset E' = mset E"
    by (rule blocks_exchanged)
  have "length (P @ E @ L) = length (P @ B @ C) + length D" using arg_cong[OF b(1), of length] by simp
  then have q: "slot a es (length (P @ E @ L)) - r = slot a es (length (P @ B @ C))"
    unfolding r b(3) by (simp add: slot_def algebra_simps)
  have "elems m a es n = P @ B @ C @ D @ F" using xs b(1) by simp
  from vecswap_slots[OF A this _ refl refl _ st, of r] b(2,3) r
  have "elems (vecswap m (slot a es (length P)) (slot a es (length (P @ B @ C))) r st) a es n = P @ D @ C @ B @ F \<and>
      permuted a es n m (vecswap m (slot a es (length P)) (slot a es (length (P @ B @ C))) r st)"
    by simp
  moreover have "P @ D @ C @ B @ F = P @ L' @ E' @ F" using arg_cong[OF b(4), of "\<lambda>zs. P @ zs @ F"] by simp
  ultimately show ?thesis unfolding q using b(5,6) by auto
qed

lemma gather_value:
  assumes A: "area a es n" and xs: "elems m a es n = E1 @ L @ G @ E2" and st: "st = swapinit a es"
    and w: "pc = slot a es (length (E1 @ L) - 1)" "pd = slot a es (length (E1 @ L @ G) - 1)" and "E1 \<noteq> []"
  defines "m' \<equiv> gather a (slot a es n) es st m (slot a es (length E1)) (slot a es (length (E1 @ L))) pc pd"
  shows "\<exists>L' E1' E2' G'. elems m' a es n = L' @ E1' @ E2' @ G' \<and> mset L' = mset L \<and> mset E1' = mset E1 \<and>
    mset E2' = mset E2 \<and> mset G' = mset G \<and> permuted a es n m m'"
proof -
  have n: "n = length E1 + length L + length G + length E2" using arg_cong[OF xs, of length] by simp
  let ?u = "length E1" and ?v = "length (E1 @ L)" and ?z = "length (E1 @ L @ G) - 1"
  define r1 where "r1 = smin (slot a es ?u - a) (slot a es ?v - slot a es ?u)"
  define r2 where "r2 = smin (pd - pc) (slot a es n - pd - es)"
  define m1 where "m1 = vecswap m a (slot a es ?v - r1) r1 st"
  have r1: "r1 = of_nat (min (length E1) (length L) * unat es)"
    using smin_slots[OF A, of 0 ?u ?u ?v] n by (simp add: r1_def slot_0)
  obtain L' E1' where f: "elems m1 a es n = L' @ E1' @ G @ E2" "mset L' = mset L" "mset E1' = mset E1" "permuted a es n m m1"
    using vecswap_adjacent[OF A, of m "[]" E1 L "G @ E2" st r1] xs st r1 by (auto simp: slot_0 m1_def)
  have l: "length L' = length L" "length E1' = length E1" using f(2,3) by (metis size_mset)+
  have sub: "slot a es n - pd - es = slot a es n - slot a es (Suc ?z)" unfolding w by (simp add: slot_def algebra_simps)
  have "r2 = smin (slot a es ?z - slot a es (?v - 1)) (slot a es n - slot a es (Suc ?z))" unfolding r2_def sub unfolding w ..
  also have "\<dots> = of_nat (min (?z - (?v - 1)) (n - Suc ?z) * unat es)"
    by (rule smin_slots[OF A]) (use n assms(6) in \<open>cases E1; simp\<close>)+
  finally have "r2 = of_nat (min (?z - (?v - 1)) (n - Suc ?z) * unat es)" .
  moreover have "?z - (?v - 1) = length G" "n - Suc ?z = length E2" using n assms(6) by (cases E1; simp)+
  ultimately have r2: "r2 = of_nat (min (length G) (length E2) * unat es)" by simp
  have e: "slot a es ?v = slot a es (length (L' @ E1'))" "slot a es n = slot a es (length ((L' @ E1') @ G @ E2))"
    by (rule arg_cong[where f = "slot a es"], use l n in simp)+
  have m': "m' = vecswap m1 (slot a es (length (L' @ E1'))) (slot a es (length ((L' @ E1') @ G @ E2)) - r2) r2 st"
    unfolding m'_def gather_def Let_def r1_def[symmetric] r2_def[symmetric] m1_def[symmetric] unfolding e ..
  obtain E2' G' where g: "elems m' a es n = (L' @ E1') @ E2' @ G' @ []" "mset E2' = mset E2" "mset G' = mset G" "permuted a es n m1 m'"
    using vecswap_adjacent[OF A, of m1 "L' @ E1'" G E2 "[]" st r2] f(1) st r2 unfolding m' by auto
  then show ?thesis using f permuted_trans[OF f(4) g(4)] by auto
qed

section \<open>The pivot is an element\<close>

lemma med3_in: "x \<in> S \<Longrightarrow> y \<in> S \<Longrightarrow> z \<in> S \<Longrightarrow> med3 cmp m x y z \<in> S"
  by (simp add: med3_def)

lemma pivot_slot:
  assumes A: "area a es n" and "0 < n"
  shows "\<exists>k < n. pivot cmp m a (of_nat n) es = slot a es k"
proof -
  have "n * 1 \<le> n * unat es" using area_bounds(3)[OF A order_refl] by (intro mult_le_mono2) simp
  then have n: "n < 2147483648" using area_bounds(1)[OF A order_refl] by linarith
  then have un: "unat (of_nat n :: u32) = n" by (intro unat_of_nat32) simp
  have quot: "(of_nat n :: u32) div of_nat q = of_nat (n div q)" if "q < 100" for q
  proof -
    have "unat (of_nat q :: u32) = q" using that by (intro unat_of_nat32) simp
    then have "unat ((of_nat n :: u32) div of_nat q) = n div q" by (simp add: unat_div un)
    then show ?thesis by (metis of_nat_unat ucast_id)
  qed
  have cmp: "(of_nat n :: u32) > 7 \<longleftrightarrow> n > 7" "(of_nat n :: u32) > 40 \<longleftrightarrow> n > 40" by (simp_all add: word_less_nat_alt un)
  let ?S = "slot a es ` {..<n}" and ?d = "n div 8"
  have q: "(of_nat n :: u32) div 2 = of_nat (n div 2)" "(of_nat n :: u32) div 8 = of_nat ?d" using quot[of 2] quot[of 8] by simp_all
  have S: "slot a es k \<in> ?S" if "k < n" for k using that by simp
  have pl: "a + of_nat k * es \<in> ?S" if "k < n" for k using S[OF that] by (simp add: slot_def)
  have "pivot cmp m a (of_nat n) es \<in> ?S"
  proof (cases "n > 7")
    case False
    then show ?thesis using pl[of "n div 2"] assms(2) by (simp add: pivot_def cmp q)
  next
    case True
    have pm: "a + of_nat (n div 2) * es = slot a es (n div 2)" by (simp add: slot_def)
    have pn: "a + (of_nat n - 1) * es = slot a es (n - 1)" using True by (simp add: slot_def of_nat_diff)
    have up: "slot a es i + of_nat j * es = slot a es (i + j)" for i j by (simp add: slot_def algebra_simps)
    have down: "slot a es i - of_nat j * es = slot a es (i - j)" if "j \<le> i" for i j
      using that by (simp add: slot_def of_nat_diff algebra_simps)
    have b: "2 * ?d < n" "?d \<le> n div 2" "n div 2 + ?d < n" "n div 2 < n" "2 * ?d \<le> n - 1" "?d \<le> n - 1" "?d < n" using True by simp_all
    show ?thesis
    proof (cases "n > 40")
      case False
      then show ?thesis using True unfolding pivot_def Let_def cmp q pm pn
        by (simp del: image_iff) (intro med3_in; use S[of 0] S b True in \<open>simp add: slot_0\<close>)
    next
      case big: True
      have first: "a + of_nat ?d * es = slot a es ?d" "a + 2 * (of_nat ?d * es) = slot a es (2 * ?d)"
        "slot a es (n - 1) - 2 * (of_nat ?d * es) = slot a es (n - 1 - 2 * ?d)"
        using down[OF b(5)] by (simp_all add: slot_def algebra_simps)
      have "pivot cmp m a (of_nat n) es = med3 cmp m (med3 cmp m a (slot a es ?d) (slot a es (2 * ?d)))
          (med3 cmp m (slot a es (n div 2 - ?d)) (slot a es (n div 2)) (slot a es (n div 2 + ?d)))
          (med3 cmp m (slot a es (n - 1 - 2 * ?d)) (slot a es (n - 1 - ?d)) (slot a es (n - 1)))"
        using True big unfolding pivot_def Let_def cmp q pm pn first up down[OF b(2)] down[OF b(6)] by simp
      also have "\<dots> \<in> ?S" using b by (intro med3_in S S[of 0, unfolded slot_0]) simp_all
      finally show ?thesis .
    qed
  qed
  then show ?thesis by auto
qed

end
