(* ===== verification/Partition.thy ===== *)
theory Partition
  imports Main
begin

text \<open>
  The invariant of the partition in \<open>qsort\<close> on a list of keys with the pivot \<open>p\<close>: from the left the elements equal
  to the pivot, those below it, the ones not seen yet (from \<open>v\<close> to \<open>w\<close>), those above it and again those equal to
  it; and the steps of the inner loops keep it.
\<close>

definition part_ok :: "'k::linorder \<Rightarrow> 'k list \<Rightarrow> nat \<Rightarrow> nat \<Rightarrow> nat \<Rightarrow> nat \<Rightarrow> bool" where
  "part_ok p ks u v w z \<longleftrightarrow>
     (1 \<le> u \<and> u \<le> v \<and> v \<le> Suc w \<and> w \<le> z \<and> z < length ks) \<and>
     (\<forall>t. t < u \<longrightarrow> ks ! t = p) \<and> (\<forall>t. u \<le> t \<and> t < v \<longrightarrow> ks ! t < p) \<and>
     (\<forall>t. w < t \<and> t \<le> z \<longrightarrow> p < ks ! t) \<and> (\<forall>t. z < t \<and> t < length ks \<longrightarrow> ks ! t = p)"

lemma part_okD:
  assumes "part_ok p ks u v w z"
  shows "1 \<le> u" "u \<le> v" "v \<le> Suc w" "w \<le> z" "z < length ks" "t < u \<Longrightarrow> ks ! t = p" "u \<le> t \<Longrightarrow> t < v \<Longrightarrow> ks ! t < p"
    "w < t \<Longrightarrow> t \<le> z \<Longrightarrow> p < ks ! t" "z < t \<Longrightarrow> t < length ks \<Longrightarrow> ks ! t = p"
  using assms by (simp_all only: part_ok_def)

lemma part_okI:
  assumes "1 \<le> u" "u \<le> v" "v \<le> Suc w" "w \<le> z" "z < length ks" "\<And>t. t < u \<Longrightarrow> ks ! t = p"
    "\<And>t. u \<le> t \<Longrightarrow> t < v \<Longrightarrow> ks ! t < p" "\<And>t. w < t \<Longrightarrow> t \<le> z \<Longrightarrow> p < ks ! t"
    "\<And>t. z < t \<Longrightarrow> t < length ks \<Longrightarrow> ks ! t = p"
  shows "part_ok p ks u v w z"
  using assms by (simp only: part_ok_def) blast

lemma nth_swap:
  assumes "i < length ks" "j < length ks" "t < length ks"
  shows "ks[i := ks ! j, j := ks ! i] ! t = (if t = i then ks ! j else if t = j then ks ! i else ks ! t)"
  using assms by (simp add: nth_list_update)

lemma part_up_less:
  assumes h: "part_ok p ks u v w z" and "v \<le> w" "ks ! v < p"
  shows "part_ok p ks u (Suc v) w z"
proof (rule part_okI)
  fix t assume "u \<le> t" "t < Suc v"
  then show "ks ! t < p" using assms(3) part_okD(7)[OF h, of t] by (cases "t = v") simp_all
qed (use part_okD[OF h] assms(2) in simp_all)

lemma part_down_greater:
  assumes h: "part_ok p ks u v w z" and "v \<le> w" "p < ks ! w"
  shows "part_ok p ks u v (w - 1) z"
proof (rule part_okI)
  fix t assume "w - 1 < t" "t \<le> z"
  then show "p < ks ! t" using assms(3) part_okD(8)[OF h, of t] by (cases "t = w") simp_all
qed (use part_okD[OF h] assms(2) in simp_all)

lemma part_up_equal:
  assumes h: "part_ok p ks u v w z" and v: "v \<le> w" "ks ! v = p"
  shows "part_ok p (ks[u := ks ! v, v := ks ! u]) (Suc u) (Suc v) w z"
proof -
  note b = part_okD(1-5)[OF h]
  have s: "ks[u := ks ! v, v := ks ! u] ! t = (if t = u then ks ! v else if t = v then ks ! u else ks ! t)"
    if "t < length ks" for t
    using nth_swap[OF _ _ that, of u v] b v(1) by simp
  show ?thesis
  proof (rule part_okI)
    fix t assume t: "t < Suc u"
    then have l: "t < length ks" using b v by simp
    show "ks[u := ks ! v, v := ks ! u] ! t = p" unfolding s[OF l] using t b v(2) part_okD(6)[OF h, of t] by (cases "t = u") simp_all
  next
    fix t assume t: "Suc u \<le> t" "t < Suc v"
    then have l: "t < length ks" using b v by simp
    have "t \<noteq> u" using t by simp
    then show "ks[u := ks ! v, v := ks ! u] ! t < p" unfolding s[OF l]
      using t part_okD(7)[OF h, of t] part_okD(7)[OF h, of u] by (cases "t = v") simp_all
  next
    fix t assume t: "w < t" "t \<le> z"
    then have "t < length ks" "t \<noteq> u" "t \<noteq> v" using b v by simp_all
    then show "p < ks[u := ks ! v, v := ks ! u] ! t" using s t part_okD(8)[OF h, of t] by simp
  next
    fix t assume t: "z < t" "t < length (ks[u := ks ! v, v := ks ! u])"
    then have "t < length ks" "t \<noteq> u" "t \<noteq> v" using b v by simp_all
    then show "ks[u := ks ! v, v := ks ! u] ! t = p" using s t part_okD(9)[OF h, of t] by simp
  qed (use b v in simp_all)
qed

lemma part_down_equal:
  assumes h: "part_ok p ks u v w z" and v: "v \<le> w" "ks ! w = p"
  shows "part_ok p (ks[w := ks ! z, z := ks ! w]) u v (w - 1) (z - 1)"
proof -
  note b = part_okD(1-5)[OF h]
  have s: "ks[w := ks ! z, z := ks ! w] ! t = (if t = w then ks ! z else if t = z then ks ! w else ks ! t)"
    if "t < length ks" for t
    using nth_swap[OF _ _ that, of w z] b v(1) by simp
  show ?thesis
  proof (rule part_okI)
    fix t assume t: "t < u"
    then have "t < length ks" "t \<noteq> w" "t \<noteq> z" using b v by simp_all
    then show "ks[w := ks ! z, z := ks ! w] ! t = p" using s t part_okD(6)[OF h, of t] by simp
  next
    fix t assume t: "u \<le> t" "t < v"
    then have "t < length ks" "t \<noteq> w" "t \<noteq> z" using b v by simp_all
    then show "ks[w := ks ! z, z := ks ! w] ! t < p" using s t part_okD(7)[OF h, of t] by simp
  next
    fix t assume t: "w - 1 < t" "t \<le> z - 1"
    then have l: "t < length ks" "t \<noteq> z" using b v by simp_all
    show "p < ks[w := ks ! z, z := ks ! w] ! t" unfolding s[OF l(1)]
      using l t part_okD(8)[OF h, of t] part_okD(8)[OF h, of z] by (cases "t = w") simp_all
  next
    fix t assume t: "z - 1 < t" "t < length (ks[w := ks ! z, z := ks ! w])"
    then have l: "t < length ks" by simp
    have "t = w \<Longrightarrow> z = w" using t b v by simp
    then show "ks[w := ks ! z, z := ks ! w] ! t = p" unfolding s[OF l]
      using t l v(2) part_okD(9)[OF h, of t] by (cases "t = z") auto
  qed (use b v in simp_all)
qed

lemma part_cross:
  assumes h: "part_ok p ks u v w z" and v: "v \<le> w" "p < ks ! v" "ks ! w < p"
  shows "part_ok p (ks[v := ks ! w, w := ks ! v]) u (Suc v) (w - 1) z"
proof -
  note b = part_okD(1-5)[OF h]
  have ne: "v < w" using v by (cases "v = w") auto
  have s: "ks[v := ks ! w, w := ks ! v] ! t = (if t = v then ks ! w else if t = w then ks ! v else ks ! t)"
    if "t < length ks" for t
    using nth_swap[OF _ _ that, of v w] b v(1) by simp
  show ?thesis
  proof (rule part_okI)
    fix t assume t: "t < u"
    then have "t < length ks" "t \<noteq> v" "t \<noteq> w" using b v by simp_all
    then show "ks[v := ks ! w, w := ks ! v] ! t = p" using s t part_okD(6)[OF h, of t] by simp
  next
    fix t assume t: "u \<le> t" "t < Suc v"
    then have l: "t < length ks" "t \<noteq> w" using b ne by simp_all
    show "ks[v := ks ! w, w := ks ! v] ! t < p" unfolding s[OF l(1)]
      using l t v(3) part_okD(7)[OF h, of t] by (cases "t = v") simp_all
  next
    fix t assume t: "w - 1 < t" "t \<le> z"
    then have l: "t < length ks" "t \<noteq> v" using b ne by simp_all
    show "p < ks[v := ks ! w, w := ks ! v] ! t" unfolding s[OF l(1)]
      using l t v(2) part_okD(8)[OF h, of t] by (cases "t = w") simp_all
  next
    fix t assume t: "z < t" "t < length (ks[v := ks ! w, w := ks ! v])"
    then have "t < length ks" "t \<noteq> v" "t \<noteq> w" using b v by simp_all
    then show "ks[v := ks ! w, w := ks ! v] ! t = p" using s t part_okD(9)[OF h, of t] by simp
  qed (use b ne in simp_all)
qed

text \<open>At the end of the loop the list is in four blocks.\<close>

lemma part_blocks:
  assumes h: "part_ok p (map f xs) u v w z" and w: "w < v"
  shows "v = Suc w" "\<exists>E1 L G E2. xs = E1 @ L @ G @ E2 \<and> length E1 = u \<and> length (E1 @ L) = v \<and>
    length (E1 @ L @ G) = Suc z \<and> (\<forall>x\<in>set E1. f x = p) \<and> (\<forall>x\<in>set L. f x < p) \<and>
    (\<forall>x\<in>set G. p < f x) \<and> (\<forall>x\<in>set E2. f x = p)"
proof -
  note b = part_okD(1-5)[OF h]
  show v: "v = Suc w" using b(3) w by simp
  have z: "z < length xs" "Suc z \<le> length xs" using b(5) by simp_all
  have at: "t < length xs \<Longrightarrow> map f xs ! t = f (xs ! t)" for t by simp
  define E1 L G E2 where "E1 = take u xs" and "L = take (v - u) (drop u xs)" and "G = take (Suc z - v) (drop v xs)"
    and "E2 = drop (Suc z) xs"
  have "take v xs = E1 @ L" using take_add[of u "v - u" xs] b by (simp add: E1_def L_def)
  moreover have "take (Suc z) xs = take v xs @ G" using take_add[of v "Suc z - v" xs] b v by (simp add: G_def)
  ultimately have "xs = E1 @ L @ G @ E2" using append_take_drop_id[of "Suc z" xs] by (simp add: E2_def)
  moreover have "length E1 = u" "length (E1 @ L) = v" "length (E1 @ L @ G) = Suc z"
    using b v z by (simp_all add: E1_def L_def G_def)
  moreover have "\<forall>x\<in>set E1. f x = p"
  proof
    fix x assume "x \<in> set E1"
    then obtain t where "t < u" "x = xs ! t" using b z by (auto simp: E1_def in_set_conv_nth)
    then show "f x = p" using part_okD(6)[OF h, of t] at[of t] b z by simp
  qed
  moreover have "\<forall>x\<in>set L. f x < p"
  proof
    fix x assume "x \<in> set L"
    then obtain t where "t < v - u" "x = xs ! (u + t)" using b v z by (auto simp: L_def in_set_conv_nth)
    then show "f x < p" using part_okD(7)[OF h, of "u + t"] at[of "u + t"] b v z by simp
  qed
  moreover have "\<forall>x\<in>set G. p < f x"
  proof
    fix x assume "x \<in> set G"
    then obtain t where "t < Suc z - v" "x = xs ! (v + t)" using b v z by (auto simp: G_def in_set_conv_nth)
    then show "p < f x" using part_okD(8)[OF h, of "v + t"] at[of "v + t"] b v z by simp
  qed
  moreover have "\<forall>x\<in>set E2. f x = p"
  proof
    fix x assume "x \<in> set E2"
    then obtain t where "t < length xs - Suc z" "x = xs ! (Suc z + t)" using b v z by (auto simp: E2_def in_set_conv_nth)
    then show "f x = p" using part_okD(9)[OF h, of "Suc z + t"] at[of "Suc z + t"] by simp
  qed
  ultimately show "\<exists>E1 L G E2. xs = E1 @ L @ G @ E2 \<and> length E1 = u \<and> length (E1 @ L) = v \<and>
    length (E1 @ L @ G) = Suc z \<and> (\<forall>x\<in>set E1. f x = p) \<and> (\<forall>x\<in>set L. f x < p) \<and>
    (\<forall>x\<in>set G. p < f x) \<and> (\<forall>x\<in>set E2. f x = p)"
    by blast
qed

end
