(* ===== verification/QsortSpec.thy ===== *)
theory QsortSpec
  imports QsortMem Partition
begin

text \<open>
  \<open>qsort\<close> sorts.  The locale \<open>element_order\<close> is what \<open>qsort\<close> asks of the comparison function; in it every loop of
  the code is verified: the insertion sort, the inner loops, which keep the invariant \<open>part_ok\<close> of the partition, and
  the vector swaps, which bring the elements equal to the pivot to the middle.  It is interpreted on the comparison
  functions of \<^verbatim>\<open>regression/P06_qsort/test.c\<close>.
\<close>

section \<open>Comparison functions\<close>

text \<open>The sign of the result orders the elements by a key; the function looks at the bytes of the elements only.\<close>

locale element_order =
  fixes cmp :: compar and es :: u32 and valid :: "u8 list \<Rightarrow> bool" and key :: "u8 list \<Rightarrow> 'k::linorder"
  assumes cmp_less: "valid (rd m p (unat es)) \<Longrightarrow> valid (rd m q (unat es)) \<Longrightarrow>
      sint (cmp m p q) < 0 \<longleftrightarrow> key (rd m p (unat es)) < key (rd m q (unat es))"
    and cmp_equal: "valid (rd m p (unat es)) \<Longrightarrow> valid (rd m q (unat es)) \<Longrightarrow>
      sint (cmp m p q) = 0 \<longleftrightarrow> key (rd m p (unat es)) = key (rd m q (unat es))"
begin

definition all_valid :: "u8 list list \<Rightarrow> bool" where
  "all_valid xs \<longleftrightarrow> (\<forall>x\<in>set xs. valid x)"

lemma cmp_slots:
  assumes "all_valid (elems m a es n)" "i < n" "j < n"
  shows "sint (cmp m (slot a es i) (slot a es j)) < 0 \<longleftrightarrow> key (elems m a es n ! i) < key (elems m a es n ! j)"
    "sint (cmp m (slot a es i) (slot a es j)) = 0 \<longleftrightarrow> key (elems m a es n ! i) = key (elems m a es n ! j)"
    "sint (cmp m (slot a es i) (slot a es j)) > 0 \<longleftrightarrow> key (elems m a es n ! i) > key (elems m a es n ! j)"
proof -
  have v: "valid (rd m (slot a es i) (unat es))" "valid (rd m (slot a es j) (unat es))"
    using assms nth_mem[of i "elems m a es n"] nth_mem[of j "elems m a es n"] by (auto simp: all_valid_def nth_elems)
  show l: "sint (cmp m (slot a es i) (slot a es j)) < 0 \<longleftrightarrow> key (elems m a es n ! i) < key (elems m a es n ! j)"
    and e: "sint (cmp m (slot a es i) (slot a es j)) = 0 \<longleftrightarrow> key (elems m a es n ! i) = key (elems m a es n ! j)"
    using cmp_less[OF v] cmp_equal[OF v] assms(2,3) by (simp_all add: nth_elems)
  show "sint (cmp m (slot a es i) (slot a es j)) > 0 \<longleftrightarrow> key (elems m a es n ! i) > key (elems m a es n ! j)"
    using linorder_less_linear[of "sint (cmp m (slot a es i) (slot a es j))" 0] l e by auto
qed

lemma permuted_valid: "permuted a es n m m' \<Longrightarrow> all_valid (elems m a es n) \<Longrightarrow> all_valid (elems m' a es n)"
  by (simp add: all_valid_def permuted_set)

section \<open>Insertion sort\<close>

lemma sift_value:
  assumes A: "area a es n" and st: "st = swapinit a es"
  shows "elems m a es n = xs @ x # R \<Longrightarrow> all_valid (elems m a es n) \<Longrightarrow>
    \<exists>m' us vs. sift cmp a es st m (slot a es (length xs)) = Some m' \<and> xs = us @ vs \<and>
      elems m' a es n = us @ x # vs @ R \<and> permuted a es n m m' \<and>
      (us = [] \<or> key (last us) \<le> key x) \<and> (\<forall>y\<in>set vs. key x < key y)"
proof (induction xs arbitrary: m R rule: rev_induct)
  case Nil
  have "sift cmp a es st m (slot a es 0) = Some m" by (subst sift.simps) (simp add: slot_0)
  then show ?case using Nil permuted_refl by auto
next
  case (snoc y xs)
  let ?i = "Suc (length xs)"
  have n: "?i < n" using arg_cong[OF snoc.prems(1), of length] by simp
  have at: "elems m a es n ! length xs = y" "elems m a es n ! ?i = x" unfolding snoc.prems(1) by (simp_all add: nth_append)
  have pos: "slot a es ?i > a" using slot_less(1)[OF A, of 0 ?i] n by (simp add: slot_0)
  have prev: "slot a es ?i - es = slot a es (length xs)" using slot_step(2)[of ?i] by simp
  have c: "sint (cmp m (slot a es (length xs)) (slot a es ?i)) > 0 \<longleftrightarrow> key x < key y"
    using cmp_slots(3)[OF snoc.prems(2), of "length xs" ?i] n at by simp
  show ?case
  proof (cases "key x < key y")
    case False
    then have "sift cmp a es st m (slot a es ?i) = Some m" by (subst sift.simps) (simp add: prev c)
    then show ?thesis using False snoc.prems permuted_refl
      by (intro exI[of _ m] exI[of _ "xs @ [y]"] exI[of _ "[]"]) auto
  next
    case True
    let ?m = "qswap m (slot a es ?i) (slot a es (length xs)) es st"
    have code: "sift cmp a es st m (slot a es ?i) = sift cmp a es st ?m (slot a es (length xs))"
      using True pos by (subst sift.simps) (simp add: prev c)
    note q = qswap_slots[OF A n, of "length xs" m, folded st]
    have e: "elems ?m a es n = xs @ x # y # R" "permuted a es n m ?m"
      using q n unfolding at unfolding snoc.prems(1) by (simp_all add: list_update_append)
    obtain m' us vs where I: "sift cmp a es st ?m (slot a es (length xs)) = Some m'" "xs = us @ vs"
      "elems m' a es n = us @ x # vs @ y # R" "permuted a es n ?m m'" "us = [] \<or> key (last us) \<le> key x"
      "\<forall>y\<in>set vs. key x < key y"
      using snoc.IH[OF e(1) permuted_valid[OF e(2) snoc.prems(2)]] by blast
    have "permuted a es n m m'" by (rule permuted_trans[OF e(2) I(4)])
    then show ?thesis using code I True by (intro exI[of _ m'] exI[of _ us] exI[of _ "vs @ [y]"]) auto
  qed
qed

lemma sorted_insert:
  assumes "sorted (map key (us @ vs))" "us = [] \<or> key (last us) \<le> key x" "\<forall>y\<in>set vs. key x < key y"
  shows "sorted (map key (us @ x # vs))"
proof -
  have "\<forall>u\<in>set us. key u \<le> key x"
  proof (cases us rule: rev_cases)
    case (snoc ws w)
    then show ?thesis using assms(1,2) by (auto simp: sorted_append intro: order_trans)
  qed simp
  then show ?thesis using assms(1,3) by (auto simp: sorted_append intro: less_imp_le)
qed

lemma insertion_value:
  assumes A: "area a es n" and st: "st = swapinit a es" and N: "N = of_nat n"
  shows "elems m a es n = xs @ ys \<Longrightarrow> all_valid (elems m a es n) \<Longrightarrow> sorted (map key xs) \<Longrightarrow>
    \<exists>m'. insertion cmp a N es st m (slot a es (length xs)) = Some m' \<and> permuted a es n m m' \<and>
      sorted (map key (elems m' a es n))"
proof (induction ys arbitrary: m xs)
  case Nil
  have n: "n = length xs" using arg_cong[OF Nil(1), of length] by simp
  have "insertion cmp a N es st m (slot a es (length xs)) = Some m"
    by (subst insertion.simps) (simp add: N n slot_def)
  then show ?case using Nil permuted_refl by auto
next
  case (Cons y ys)
  have n: "length xs < n" using arg_cong[OF Cons.prems(1), of length] by simp
  have lim: "slot a es (length xs) < a + N * es" using slot_less(1)[OF A, of "length xs" n] n by (simp add: N slot_def)
  obtain m' us vs where S: "sift cmp a es st m (slot a es (length xs)) = Some m'" "xs = us @ vs"
    "elems m' a es n = us @ y # vs @ ys" "permuted a es n m m'" "us = [] \<or> key (last us) \<le> key y" "\<forall>z\<in>set vs. key y < key z"
    using sift_value[OF A st Cons.prems(1,2)] by blast
  have "insertion cmp a N es st m (slot a es (length xs)) = insertion cmp a N es st m' (slot a es (length (us @ y # vs)))"
    using lim S(1,2) by (subst insertion.simps) (simp add: slot_step(1))
  moreover have "elems m' a es n = (us @ y # vs) @ ys" using S(3) by simp
  moreover have "sorted (map key (us @ y # vs))" using sorted_insert[OF _ S(5,6)] Cons.prems(3) S(2) by simp
  ultimately show ?case using Cons.IH[OF _ permuted_valid[OF S(4) Cons.prems(2)]] permuted_trans[OF S(4)] by metis
qed

lemma insertion_sorts:
  assumes "area a es n" "all_valid (elems m a es n)"
  shows "\<exists>m'. insertion cmp a (of_nat n) es (swapinit a es) m (a + es) = Some m' \<and> permuted a es n m m' \<and>
    sorted (map key (elems m' a es n))"
proof (cases n)
  case 0
  have "\<not> a + es < a"
  proof -
    have "unat a + unat es < 4294967296" using assms(1) by (simp add: area_def 0)
    then show ?thesis by (simp add: word_less_nat_alt unat_plus_if')
  qed
  then have "insertion cmp a (of_nat n) es (swapinit a es) m (a + es) = Some m"
    by (subst insertion.simps) (simp add: 0)
  then show ?thesis using permuted_refl by (auto simp: 0 elems_def)
next
  case (Suc k)
  have "elems m a es n = [hd (elems m a es n)] @ tl (elems m a es n)"
    using Suc by (metis append_Cons append_Nil length_elems list.collapse list.size(3) nat.simps(3))
  from insertion_value[OF assms(1) refl refl this assms(2)] show ?thesis by (simp add: slot_def)
qed

section \<open>The partition\<close>

abbreviation keys :: "mem \<Rightarrow> u32 \<Rightarrow> nat \<Rightarrow> 'k list" where
  "keys m a n \<equiv> map key (elems m a es n)"

lemma keys_swap:
  assumes "area a es n" "i < n" "j < n" "st = swapinit a es"
  shows "keys (qswap m (slot a es i) (slot a es j) es st) a n = (keys m a n)[i := keys m a n ! j, j := keys m a n ! i]"
  using qswap_slots(1)[OF assms(1-3)] assms(2-4) by (simp add: map_update)

lemma part_up_value:
  assumes A: "area a es n" and st: "st = swapinit a es"
  shows "part_ok p (keys m a n) u v w z \<Longrightarrow> all_valid (elems m a es n) \<Longrightarrow>
    \<exists>m' u' v' c'. part_up cmp a es st (slot a es w) m (slot a es u) (slot a es v) c
        = Some (m', slot a es u', slot a es v', c') \<and>
      permuted a es n m m' \<and> part_ok p (keys m' a n) u' v' w z \<and> v \<le> v' \<and> (v' \<le> w \<longrightarrow> p < keys m' a n ! v')"
proof (induction "Suc w - v" arbitrary: m u v c rule: less_induct)
  case less
  note b = part_okD(1-5)[OF less.prems(1)]
  have n: "u < n" "w < n" "v \<le> n" "0 < n" "u \<le> n" if "v \<le> w" using b that by simp_all
  have le: "slot a es v \<le> slot a es w \<longleftrightarrow> v \<le> w" by (rule slot_less(2)[OF A]) (use b in simp_all)
  show ?case
  proof (cases "v \<le> w")
    case False
    then have "part_up cmp a es st (slot a es w) m (slot a es u) (slot a es v) c = Some (m, slot a es u, slot a es v, c)"
      using le by (subst part_up.simps) simp
    then show ?thesis using less.prems(1) False permuted_refl by auto
  next
    case True
    then have vn: "v < n" and d: "Suc w - Suc v < Suc w - v" using b by simp_all
    have p: "keys m a n ! 0 = p" using part_okD(6)[OF less.prems(1), of 0] b by simp
    then have p0: "key (elems m a es n ! 0) = p" using n(4)[OF True] by simp
    note c = cmp_slots[OF less.prems(2) vn n(4)[OF True], unfolded slot_0 p0]
    consider "key (elems m a es n ! v) < p" | "key (elems m a es n ! v) = p" | "p < key (elems m a es n ! v)" by fastforce
    then show ?thesis
    proof cases
      case 1
      have code: "part_up cmp a es st (slot a es w) m (slot a es u) (slot a es v) c
          = part_up cmp a es st (slot a es w) m (slot a es u) (slot a es (Suc v)) c"
        using 1 True le c by (subst part_up.simps) (simp add: slot_step(1))
      have "part_ok p (keys m a n) u (Suc v) w z" by (rule part_up_less[OF less.prems(1) True]) (use 1 vn in simp)
      from less.hyps[OF d this less.prems(2), of c] show ?thesis unfolding code by (metis Suc_leD)
    next
      case 2
      let ?m = "qswap m (slot a es u) (slot a es v) es st"
      have code: "part_up cmp a es st (slot a es w) m (slot a es u) (slot a es v) c
          = part_up cmp a es st (slot a es w) ?m (slot a es (Suc u)) (slot a es (Suc v)) True"
        using 2 True le c by (subst part_up.simps) (simp add: slot_step(1))
      have q: "permuted a es n m ?m" using qswap_slots(2)[OF A n(1)[OF True] vn] st by simp
      have "part_ok p (keys ?m a n) (Suc u) (Suc v) w z" unfolding keys_swap[OF A n(1)[OF True] vn st]
        by (rule part_up_equal[OF less.prems(1) True]) (use 2 vn in simp)
      from less.hyps[OF d this permuted_valid[OF q less.prems(2)], of True]
      obtain m' u' v' c' where "part_up cmp a es st (slot a es w) ?m (slot a es (Suc u)) (slot a es (Suc v)) True
          = Some (m', slot a es u', slot a es v', c')"
        "permuted a es n ?m m'" "part_ok p (keys m' a n) u' v' w z" "Suc v \<le> v'" "v' \<le> w \<longrightarrow> p < keys m' a n ! v'"
        by blast
      then show ?thesis unfolding code using permuted_trans[OF q] by (metis Suc_leD)
    next
      case 3
      then have "part_up cmp a es st (slot a es w) m (slot a es u) (slot a es v) c = Some (m, slot a es u, slot a es v, c)"
        using True le c(1,2) by (subst part_up.simps) (auto simp: Let_def)
      moreover have "p < keys m a n ! v" using 3 vn by simp
      ultimately show ?thesis using less.prems(1) permuted_refl by blast
    qed
  qed
qed

lemma part_down_value:
  assumes A: "area a es n" and st: "st = swapinit a es"
  shows "part_ok p (keys m a n) u v w z \<Longrightarrow> all_valid (elems m a es n) \<Longrightarrow>
    \<exists>m' w' z' c'. part_down cmp a es st (slot a es v) m (slot a es w) (slot a es z) c
        = Some (m', slot a es w', slot a es z', c') \<and>
      permuted a es n m m' \<and> part_ok p (keys m' a n) u v w' z' \<and> w' \<le> w \<and>
      (v \<le> w' \<longrightarrow> keys m' a n ! w' < p \<and> keys m' a n ! v = keys m a n ! v)"
proof (induction "Suc w - v" arbitrary: m w z c rule: less_induct)
  case less
  note b = part_okD(1-5)[OF less.prems(1)]
  have n: "z < n" "w < n" "v \<le> n" "0 < n" using b by simp_all
  have le: "slot a es v \<le> slot a es w \<longleftrightarrow> v \<le> w" by (rule slot_less(2)[OF A]) (use b in simp_all)
  show ?case
  proof (cases "v \<le> w")
    case False
    then have "part_down cmp a es st (slot a es v) m (slot a es w) (slot a es z) c = Some (m, slot a es w, slot a es z, c)"
      using le by (subst part_down.simps) simp
    then show ?thesis using less.prems(1) False permuted_refl by auto
  next
    case True
    then have d: "Suc (w - 1) - v < Suc w - v" and pos: "0 < w" "0 < z" using b by simp_all
    have "keys m a n ! 0 = p" using part_okD(6)[OF less.prems(1), of 0] b by simp
    then have p0: "key (elems m a es n ! 0) = p" using n by simp
    note c = cmp_slots[OF less.prems(2) n(2,4), unfolded slot_0 p0]
    note step = slot_step(2)[OF pos(1), of a es] slot_step(2)[OF pos(2), of a es]
    consider "key (elems m a es n ! w) < p" | "key (elems m a es n ! w) = p" | "p < key (elems m a es n ! w)" by fastforce
    then show ?thesis
    proof cases
      case 3
      have code: "part_down cmp a es st (slot a es v) m (slot a es w) (slot a es z) c
          = part_down cmp a es st (slot a es v) m (slot a es (w - 1)) (slot a es z) c"
        using 3 True le c by (subst part_down.simps) (simp add: step Let_def)
      have "part_ok p (keys m a n) u v (w - 1) z" by (rule part_down_greater[OF less.prems(1) True]) (use 3 n in simp)
      moreover have "w' \<le> w - 1 \<Longrightarrow> w' \<le> w" for w' by simp
      ultimately show ?thesis unfolding code using less.hyps[OF d _ less.prems(2), of z c] by blast
    next
      case 2
      let ?m = "qswap m (slot a es w) (slot a es z) es st"
      have code: "part_down cmp a es st (slot a es v) m (slot a es w) (slot a es z) c
          = part_down cmp a es st (slot a es v) ?m (slot a es (w - 1)) (slot a es (z - 1)) True"
        using 2 True le c by (subst part_down.simps) (simp add: step Let_def)
      have q: "permuted a es n m ?m" using qswap_slots(2)[OF A n(2,1)] st by simp
      note k = keys_swap[OF A n(2,1) st, of m]
      have "part_ok p (keys ?m a n) u v (w - 1) (z - 1)" unfolding k
        by (rule part_down_equal[OF less.prems(1) True]) (use 2 n in simp)
      from less.hyps[OF d this permuted_valid[OF q less.prems(2)], of True]
      obtain m' w' z' c' where I: "part_down cmp a es st (slot a es v) ?m (slot a es (w - 1)) (slot a es (z - 1)) True
          = Some (m', slot a es w', slot a es z', c')"
        "permuted a es n ?m m'" "part_ok p (keys m' a n) u v w' z'" "w' \<le> w - 1"
        "v \<le> w' \<longrightarrow> keys m' a n ! w' < p \<and> keys m' a n ! v = keys ?m a n ! v"
        by blast
      have "keys ?m a n ! v = keys m a n ! v" if "v \<le> w'"
      proof -
        have "v < w" "v < z" using that I(4) pos b by simp_all
        then show ?thesis unfolding k by simp
      qed
      then have "v \<le> w' \<longrightarrow> keys m' a n ! w' < p \<and> keys m' a n ! v = keys m a n ! v" using I(5) by simp
      moreover have "w' \<le> w" using I(4) by simp
      ultimately show ?thesis unfolding code using I(1,3) permuted_trans[OF q I(2)] by blast
    next
      case 1
      then have "part_down cmp a es st (slot a es v) m (slot a es w) (slot a es z) c = Some (m, slot a es w, slot a es z, c)"
        using True le c(1,2) by (subst part_down.simps) (auto simp: Let_def)
      moreover have "keys m a n ! w < p" using 1 n by simp
      ultimately show ?thesis using less.prems(1) permuted_refl by blast
    qed
  qed
qed

lemma partition_value:
  assumes A: "area a es n" and st: "st = swapinit a es"
  shows "part_ok p (keys m a n) u v w z \<Longrightarrow> all_valid (elems m a es n) \<Longrightarrow>
    \<exists>m' u' v' w' z' c'. partition_loop cmp a es st m (slot a es u) (slot a es v) (slot a es w) (slot a es z) c
        = Some (m', slot a es u', slot a es v', slot a es w', slot a es z', c') \<and>
      permuted a es n m m' \<and> part_ok p (keys m' a n) u' v' w' z' \<and> w' < v'"
proof (induction "Suc w - v" arbitrary: m u v w z c rule: less_induct)
  case less
  obtain m1 u1 v1 c1 where U: "part_up cmp a es st (slot a es w) m (slot a es u) (slot a es v) c
        = Some (m1, slot a es u1, slot a es v1, c1)"
    "permuted a es n m m1" "part_ok p (keys m1 a n) u1 v1 w z" "v \<le> v1" "v1 \<le> w \<longrightarrow> p < keys m1 a n ! v1"
    using part_up_value[OF A st less.prems, of c] by blast
  note val1 = permuted_valid[OF U(2) less.prems(2)]
  obtain m2 w2 z2 c2 where D: "part_down cmp a es st (slot a es v1) m1 (slot a es w) (slot a es z) c1
        = Some (m2, slot a es w2, slot a es z2, c2)"
    "permuted a es n m1 m2" "part_ok p (keys m2 a n) u1 v1 w2 z2" "w2 \<le> w"
    "v1 \<le> w2 \<longrightarrow> keys m2 a n ! w2 < p \<and> keys m2 a n ! v1 = keys m1 a n ! v1"
    using part_down_value[OF A st U(3) val1, of c1] by blast
  note val2 = permuted_valid[OF D(2) val1] and per2 = permuted_trans[OF U(2) D(2)]
  note b = part_okD(1-5)[OF D(3)]
  have n: "w2 < n" "v1 \<le> n" using b by simp_all
  have gt: "slot a es v1 > slot a es w2 \<longleftrightarrow> w2 < v1" by (rule slot_less(1)[OF A]) (use n in simp_all)
  show ?case
  proof (cases "w2 < v1")
    case True
    then have "partition_loop cmp a es st m (slot a es u) (slot a es v) (slot a es w) (slot a es z) c
        = Some (m2, slot a es u1, slot a es v1, slot a es w2, slot a es z2, c2)"
      using gt by (subst partition_loop.simps) (simp add: U(1) D(1))
    then show ?thesis using D(3) per2 True by blast
  next
    case False
    then have v: "v1 \<le> w2" "v1 < n" "0 < w2" using n b by simp_all
    let ?m = "qswap m2 (slot a es v1) (slot a es w2) es st"
    have code: "partition_loop cmp a es st m (slot a es u) (slot a es v) (slot a es w) (slot a es z) c
        = partition_loop cmp a es st ?m (slot a es u1) (slot a es (Suc v1)) (slot a es (w2 - 1)) (slot a es z2) True"
      using gt False by (subst partition_loop.simps) (simp add: U(1) D(1) slot_step(1) slot_step(2)[OF v(3)])
    have q: "permuted a es n m2 ?m" using qswap_slots(2)[OF A v(2) n(1)] st by simp
    have "part_ok p (keys ?m a n) u1 (Suc v1) (w2 - 1) z2" unfolding keys_swap[OF A v(2) n(1) st]
      by (rule part_cross[OF D(3) v(1)]) (use D(4,5) U(5) v in auto)
    moreover have "Suc (w2 - 1) - Suc v1 < Suc w - v" using v U(4) D(4) by simp
    ultimately obtain m' u' v' w' z' c' where
      "partition_loop cmp a es st ?m (slot a es u1) (slot a es (Suc v1)) (slot a es (w2 - 1)) (slot a es z2) True
        = Some (m', slot a es u', slot a es v', slot a es w', slot a es z', c')"
      "permuted a es n ?m m'" "part_ok p (keys m' a n) u' v' w' z'" "w' < v'"
      using less.hyps[OF _ _ permuted_valid[OF q val2], of "w2 - 1" "Suc v1" u1 z2 True] by blast
    then show ?thesis unfolding code using permuted_trans[OF permuted_trans[OF per2 q]] by blast
  qed
qed

section \<open>The whole sort\<close>

definition sorts :: "mem \<Rightarrow> u32 \<Rightarrow> nat \<Rightarrow> bool" where
  "sorts m a n \<longleftrightarrow> (\<exists>m'. qsort cmp es m a (of_nat n) = Some m' \<and> permuted a es n m m' \<and> sorted (keys m' a n))"

text \<open>The recursive call and the last iteration: the block of \<open>k\<close> elements from \<open>i\<close> on is sorted when it has two.\<close>

lemma sort_block:
  assumes A: "area a es n" and i: "i + k \<le> n" and IH: "\<And>m. 0 < k \<Longrightarrow> all_valid (elems m (slot a es i) es k) \<Longrightarrow> sorts m (slot a es i) k"
    and val: "all_valid (elems m a es n)" and r: "r = of_nat (k * unat es)"
  shows "\<exists>m' ys. (if sint r > sint es then qsort cmp es m (slot a es i) (r div es) else Some m) = Some m' \<and>
    elems m' a es n = take i (elems m a es n) @ ys @ drop (i + k) (elems m a es n) \<and>
    mset ys = mset (take k (drop i (elems m a es n))) \<and> sorted (map key ys) \<and> permuted a es n m m'"
proof -
  have kb: "k * unat es < 2147483648" by (rule area_bounds(1)[OF A]) (use i in simp)
  then have ur: "unat r = k * unat es" unfolding r by (intro unat_of_nat32) simp
  have "sint r = int (k * unat es)" "sint es = int (1 * unat es)"
    using ur kb area_bounds(4)[OF A order_refl] by (simp_all add: sint_small del: of_nat_unat)
  then have c: "sint r > sint es \<longleftrightarrow> 1 < k"
    using area_bounds(3)[OF A order_refl] by (simp only: of_nat_less_iff mult_less_cancel2 simp_thms)
  have "unat (r div es) = k" using ur area_bounds(3)[OF A order_refl] by (simp add: unat_div)
  then have rd: "r div es = of_nat k" by (metis of_nat_unat ucast_id)
  let ?xs = "elems m a es n" and ?b = "slot a es i"
  have sub: "elems m ?b es k = take k (drop i ?xs)" by (rule elems_sub[OF i])
  show ?thesis
  proof (cases "1 < k")
    case False
    then have "sorted (map key (take k (drop i ?xs)))"
      by (cases "take k (drop i ?xs)" rule: remdups_adj.cases) (auto dest: arg_cong[of _ _ length])
    moreover have "take i ?xs @ take k (drop i ?xs) @ drop (i + k) ?xs = ?xs"
      by (metis append_take_drop_id drop_drop add.commute)
    ultimately show ?thesis using c False permuted_refl
      by (intro exI[of _ m] exI[of _ "take k (drop i ?xs)"]) simp
  next
    case True
    have "set (elems m ?b es k) \<subseteq> set ?xs" unfolding sub by (meson in_set_dropD in_set_takeD subsetI)
    then have "all_valid (elems m ?b es k)" using val by (auto simp: all_valid_def)
    then obtain m' where m': "qsort cmp es m ?b (of_nat k) = Some m'" "permuted ?b es k m m'" "sorted (keys m' ?b k)"
      using IH True by (auto simp: sorts_def)
    have un: "unchanged_outside ?b (k * unat es) m m'" "mset (elems m' ?b es k) = mset (take k (drop i ?xs))"
      using m'(2) sub by (simp_all add: permuted_def)
    have el: "elems m' a es n = take i ?xs @ elems m' ?b es k @ drop (i + k) ?xs" by (rule elems_unchanged[OF A i un(1)])
    have "mset (elems m' a es n) = mset (take i ?xs @ take k (drop i ?xs) @ drop (i + k) ?xs)" unfolding el using un(2) by simp
    also have "take i ?xs @ take k (drop i ?xs) @ drop (i + k) ?xs = ?xs" by (metis append_take_drop_id drop_drop add.commute)
    finally have "permuted a es n m m'" using unchanged_sub[OF A i un(1)] by (simp add: permuted_def)
    then show ?thesis using True c rd m'(1,3) el un(2)
      by (intro exI[of _ m'] exI[of _ "elems m' ?b es k"]) simp
  qed
qed

lemma sorted_three:
  assumes "sorted (map key L)" "sorted (map key G)" "\<forall>x\<in>set L. key x < p" "\<forall>x\<in>set E. key x = p" "\<forall>x\<in>set G. p < key x"
  shows "sorted (map key (L @ E @ G))"
proof -
  have "sorted (map key E)" using assms(4) by (simp add: sorted_iff_nth_mono)
  moreover have "key x \<le> key y" if "x \<in> set L" "y \<in> set G" for x y using assms(3,5) that by (meson less_imp_le order.strict_trans)
  ultimately show ?thesis using assms by (auto simp: sorted_append intro: less_imp_le)
qed

lemma sorted_after:
  assumes A: "area a es n" and m: "elems m a es n = L @ E @ G" "all_valid (elems m a es n)"
    and k: "\<forall>x\<in>set L. key x < p" "\<forall>x\<in>set E. key x = p" "\<forall>x\<in>set G. p < key x"
    and IH: "\<And>m b k. k < n \<Longrightarrow> area b es k \<Longrightarrow> all_valid (elems m b es k) \<Longrightarrow> sorts m b k"
    and ne: "E \<noteq> []" and r: "r = of_nat (length L * unat es)" "s = of_nat (length G * unat es)"
  shows "\<exists>m'. Option.bind (if sint r > sint es then qsort cmp es m a (r div es) else Some m)
      (\<lambda>m. if sint s > sint es then qsort cmp es m (slot a es n - s) (s div es) else Some m) = Some m' \<and>
    permuted a es n m m' \<and> sorted (keys m' a n)"
proof -
  have n: "n = length L + length E + length G" using arg_cong[OF m(1), of length] by simp
  have less: "length L < n" "length G < n" using n ne by (cases E; simp)+
  have "sorts m' (slot a es 0) (length L)" if "0 < length L" "all_valid (elems m' (slot a es 0) es (length L))" for m'
    using IH[OF less(1) area_sub[OF A _ that(1)] that(2)] n by simp
  then obtain m1 ys where Y: "(if sint r > sint es then qsort cmp es m (slot a es 0) (r div es) else Some m) = Some m1"
    "elems m1 a es n = ys @ E @ G" "mset ys = mset L" "sorted (map key ys)" "permuted a es n m m1"
    using sort_block[OF A, of 0 "length L" m r] m n r(1) by auto
  have ly: "length ys = length L" "set ys = set L" using Y(3) by (metis size_mset, metis set_mset_mset)
  let ?i = "length L + length E"
  have "sorts m' (slot a es ?i) (length G)" if "0 < length G" "all_valid (elems m' (slot a es ?i) es (length G))" for m'
    using IH[OF less(2) area_sub[OF A _ that(1)] that(2)] n by simp
  then obtain m2 zs where Z: "(if sint s > sint es then qsort cmp es m1 (slot a es ?i) (s div es) else Some m1) = Some m2"
    "elems m2 a es n = ys @ E @ zs" "mset zs = mset G" "sorted (map key zs)" "permuted a es n m1 m2"
    using sort_block[OF A, of ?i "length G" m1 s] Y(2) permuted_valid[OF Y(5) m(2)] n ly(1) r(2) by auto
  have "set zs = set G" using Z(3) by (metis set_mset_mset)
  then have "sorted (keys m2 a n)" unfolding Z(2) using sorted_three[OF Y(4) Z(4)] k ly(2) by simp
  moreover have e: "slot a es n - s = slot a es ?i" unfolding r(2) n by (simp add: slot_def algebra_simps)
  have "Option.bind (if sint r > sint es then qsort cmp es m a (r div es) else Some m)
      (\<lambda>m. if sint s > sint es then qsort cmp es m (slot a es n - s) (s div es) else Some m) = Some m2"
    unfolding Y(1)[unfolded slot_0] e Option.bind.simps by (rule Z(1))
  ultimately show ?thesis using permuted_trans[OF Y(5) Z(5)] by blast
qed

lemma qsort_sorts: "area a es n \<Longrightarrow> all_valid (elems m a es n) \<Longrightarrow> sorts m a n"
proof (induction n arbitrary: a m rule: less_induct)
  case (less n)
  note A = less.prems(1)
  have "n * 1 \<le> n * unat es" using area_bounds(3)[OF A order_refl] by (intro mult_le_mono2) simp
  then have n: "n < 2147483648" using area_bounds(1)[OF A order_refl] by linarith
  then have un: "unat (of_nat n :: u32) = n" by (intro unat_of_nat32) simp
  have small: "(of_nat n :: u32) < 7 \<longleftrightarrow> n < 7" by (simp add: word_less_nat_alt un)
  let ?st = "swapinit a es"
  show ?case
  proof (cases "n < 7")
    case True
    then show ?thesis unfolding sorts_def
      by (subst qsort.simps) (use insertion_sorts[OF less.prems] in \<open>simp add: small Let_def\<close>)
  next
    case False
    then have n0: "0 < n" "1 < n" by simp_all
    obtain k where k: "k < n" "pivot cmp m a (of_nat n) es = slot a es k" using pivot_slot[OF A n0(1)] by blast
    define m1 where "m1 = qswap m a (slot a es k) es ?st"
    have q: "permuted a es n m m1" using qswap_slots(2)[OF A n0(1) k(1)] by (simp add: m1_def slot_0)
    note val1 = permuted_valid[OF q less.prems(2)]
    define p where "p = keys m1 a n ! 0"
    have "part_ok p (keys m1 a n) 1 1 (n - 1) (n - 1)" by (rule part_okI) (use n0 in \<open>auto simp: p_def\<close>)
    then obtain m2 u v w z c where P: "partition_loop cmp a es ?st m1 (slot a es 1) (slot a es 1) (slot a es (n - 1)) (slot a es (n - 1)) False
        = Some (m2, slot a es u, slot a es v, slot a es w, slot a es z, c)"
      "permuted a es n m1 m2" "part_ok p (keys m2 a n) u v w z" "w < v"
      using partition_value[OF A refl _ val1, of p 1 1 "n - 1" "n - 1" False] by blast
    note val2 = permuted_valid[OF P(2) val1] and per2 = permuted_trans[OF q P(2)]
    have ends: "a + es = slot a es 1" "a + (of_nat n - 1) * es = slot a es (n - 1)" "a + of_nat n * es = slot a es n"
      using n0 by (simp_all add: slot_def of_nat_diff)
    have code: "qsort cmp es m a (of_nat n) =
        (if \<not> c then insertion cmp a (of_nat n) es ?st m2 (a + es)
         else
           let m = gather a (slot a es n) es ?st m2 (slot a es u) (slot a es v) (slot a es w) (slot a es z);
               r = slot a es v - slot a es u
           in Option.bind (if sint r > sint es then qsort cmp es m a (r div es) else Some m)
                (\<lambda>m. let r = slot a es z - slot a es w
                      in if sint r > sint es then qsort cmp es m (slot a es n - r) (r div es) else Some m))"
      by (subst qsort.simps) (use False in \<open>simp only: small Let_def k(2) m1_def[symmetric] ends P(1) if_False option.case prod.case\<close>)
    show ?thesis
    proof (cases c)
      case False
      then show ?thesis unfolding sorts_def code using insertion_sorts[OF A val2] permuted_trans[OF per2] by auto
    next
      case True
      note b = part_okD(1-5)[OF P(3)] and v = part_blocks(1)[OF P(3,4)]
      obtain E1 L G E2 where B: "elems m2 a es n = E1 @ L @ G @ E2" "length E1 = u" "length (E1 @ L) = v"
        "length (E1 @ L @ G) = Suc z" "\<forall>x\<in>set E1. key x = p" "\<forall>x\<in>set L. key x < p" "\<forall>x\<in>set G. p < key x" "\<forall>x\<in>set E2. key x = p"
        using part_blocks(2)[OF P(3,4)] by blast
      let ?m = "gather a (slot a es n) es ?st m2 (slot a es u) (slot a es v) (slot a es w) (slot a es z)"
      have wz: "w = length (E1 @ L) - 1" "z = length (E1 @ L @ G) - 1" "E1 \<noteq> []" using B(2-4) v b(1) by auto
      obtain L' E1' E2' G' where g: "elems ?m a es n = L' @ E1' @ E2' @ G'" "mset L' = mset L" "mset E1' = mset E1"
        "mset E2' = mset E2" "mset G' = mset G" "permuted a es n m2 ?m"
        using gather_value[OF A B(1) refl _ _ wz(3), of "slot a es w" "slot a es z"] wz(1,2) B(2,3) by auto
      have s: "set L' = set L" "set (E1' @ E2') = set (E1 @ E2)" "set G' = set G"
        using g(2-5) by (metis set_mset_mset, metis set_mset_mset set_append, metis set_mset_mset)
      have l: "length L' = v - u" "length G' = z - w" "E1' @ E2' \<noteq> []"
        using arg_cong[OF g(2), of size] arg_cong[OF g(3), of size] arg_cong[OF g(5), of size] B(2-4) v wz(3) by auto
      have r: "slot a es v - slot a es u = of_nat (length L' * unat es)" "slot a es z - slot a es w = of_nat (length G' * unat es)"
        using slot_diff(1)[OF A, of u v] slot_diff(1)[OF A, of w z] b l by simp_all
      have "elems ?m a es n = L' @ (E1' @ E2') @ G'" using g(1) by simp
      moreover have "\<forall>x\<in>set L'. key x < p" "\<forall>x\<in>set (E1' @ E2'). key x = p" "\<forall>x\<in>set G'. p < key x"
        unfolding s using B(5-8) by auto
      moreover have "\<And>m b k. k < n \<Longrightarrow> area b es k \<Longrightarrow> all_valid (elems m b es k) \<Longrightarrow> sorts m b k" by (rule less.IH)
      ultimately obtain m' where "Option.bind
          (if sint (slot a es v - slot a es u) > sint es
           then qsort cmp es ?m a ((slot a es v - slot a es u) div es) else Some ?m)
          (\<lambda>m. if sint (slot a es z - slot a es w) > sint es
            then qsort cmp es m (slot a es n - (slot a es z - slot a es w)) ((slot a es z - slot a es w) div es) else Some m)
          = Some m'" "permuted a es n ?m m'" "sorted (keys m' a n)"
        using sorted_after[OF A _ permuted_valid[OF g(6) val2] _ _ _ _ l(3) r] by blast
      then show ?thesis unfolding sorts_def code using True permuted_trans[OF permuted_trans[OF per2 g(6)]] by (simp add: Let_def)
    qed
  qed
qed

end

section \<open>The comparison functions of the regression test\<close>

definition fcmp :: compar where "fcmp m n1 n2 = load32 m n1 - load32 m n2"

text \<open>\<open>struct S { int a, b; }\<close>, compared by the member \<open>a\<close> at offset 0.\<close>

definition Scmp :: compar where "Scmp m s1 s2 = load32 m s1 - load32 m s2"

definition test1_A :: "int list" where
  "test1_A = [10, - 20, 100, - 222, 3, 5, - 9, 1234, 5678, - 9999]"

definition test2_B :: "(int \<times> int) list" where
  "test2_B = [(10, 1), (- 20, 2), (100, 3), (- 222, 4), (3, 5), (5, 6), (- 9, 7), (1234, 8), (5678, 9), (- 9999, 10)]"

text \<open>The initial value of an array element.\<close>

definition int_bytes :: "int \<Rightarrow> u8 list" where
  "int_bytes x = (let w = word_of_int x :: u32 in [ucast w, ucast (drop_bit 8 w), ucast (drop_bit 16 w), ucast (drop_bit 24 w)])"

text \<open>The values reported after sorting, for the arrays at the address \<open>a\<close>.\<close>

definition test1 :: "mem \<Rightarrow> u32 \<Rightarrow> int list option" where
  "test1 m a =
     map_option (\<lambda>m. map (\<lambda>i. sint (load32 m (a + 4 * of_nat i))) [0..<10])
       (qsort fcmp 4 (wr m a (concat (map int_bytes test1_A))) a 10)"

definition test2 :: "mem \<Rightarrow> u32 \<Rightarrow> int list option" where
  "test2 m a =
     map_option (\<lambda>m. map (\<lambda>i. sint (load32 m (a + 8 * of_nat i + 4))) [0..<10])
       (qsort Scmp 8 (wr m a (concat (map (\<lambda>(x, y). int_bytes x @ int_bytes y) test2_B))) a 10)"

text \<open>The four bytes from offset \<open>k\<close> of an element, as an \<open>int\<close>.\<close>

definition elem_int :: "nat \<Rightarrow> u8 list \<Rightarrow> int" where
  "elem_int k b = sint (ucast (b ! k) OR push_bit 8 (ucast (b ! (k + 1))) OR push_bit 16 (ucast (b ! (k + 2)))
     OR push_bit 24 (ucast (b ! (k + 3))) :: u32)"

abbreviation small_int :: "u8 list \<Rightarrow> bool" where
  "small_int b \<equiv> - 1073741824 \<le> elem_int 0 b \<and> elem_int 0 b < 1073741824"

lemma elem_int_load:
  assumes "k + 4 \<le> n"
  shows "elem_int k (rd m p n) = sint (load32 m (p + of_nat k))"
proof -
  have i: "k < n" "k + 1 < n" "k + 2 < n" "k + 3 < n" using assms by simp_all
  show ?thesis unfolding elem_int_def load32_def nth_rd[OF i(1)] nth_rd[OF i(2)] nth_rd[OF i(3)] nth_rd[OF i(4)]
    by (simp add: algebra_simps)
qed

lemma sint_diff_small:
  fixes x y :: u32
  assumes "- 1073741824 \<le> sint x" "sint x < 1073741824" "- 1073741824 \<le> sint y" "sint y < 1073741824"
  shows "sint (x - y) = sint x - sint y"
proof -
  have "sint (x - y) = signed_take_bit 31 (sint x - sint y)" by (simp add: sint_word_ariths)
  also have "\<dots> = sint x - sint y" by (rule signed_take_bit_int_eq_self) (use assms in simp_all)
  finally show ?thesis .
qed

interpretation ints: element_order fcmp 4 small_int "elem_int 0"
proof
  fix m p q assume v: "small_int (rd m p (unat (4 :: u32)))" "small_int (rd m q (unat (4 :: u32)))"
  have e: "elem_int 0 (rd m p (unat (4 :: u32))) = sint (load32 m p)" for p using elem_int_load[of 0 4 m p] by simp
  have "sint (fcmp m p q) = sint (load32 m p) - sint (load32 m q)"
    using v unfolding e fcmp_def by (intro sint_diff_small) simp_all
  then show "sint (fcmp m p q) < 0 \<longleftrightarrow> elem_int 0 (rd m p (unat (4 :: u32))) < elem_int 0 (rd m q (unat (4 :: u32)))"
    "sint (fcmp m p q) = 0 \<longleftrightarrow> elem_int 0 (rd m p (unat (4 :: u32))) = elem_int 0 (rd m q (unat (4 :: u32)))"
    unfolding e by simp_all
qed

interpretation structs: element_order Scmp 8 small_int "elem_int 0"
proof
  fix m p q assume v: "small_int (rd m p (unat (8 :: u32)))" "small_int (rd m q (unat (8 :: u32)))"
  have e: "elem_int 0 (rd m p (unat (8 :: u32))) = sint (load32 m p)" for p using elem_int_load[of 0 8 m p] by simp
  have "sint (Scmp m p q) = sint (load32 m p) - sint (load32 m q)"
    using v unfolding e Scmp_def by (intro sint_diff_small) simp_all
  then show "sint (Scmp m p q) < 0 \<longleftrightarrow> elem_int 0 (rd m p (unat (8 :: u32))) < elem_int 0 (rd m q (unat (8 :: u32)))"
    "sint (Scmp m p q) = 0 \<longleftrightarrow> elem_int 0 (rd m p (unat (8 :: u32))) = elem_int 0 (rd m q (unat (8 :: u32)))"
    unfolding e by simp_all
qed

lemma concat_elems: "concat (elems m a es n) = rd m a (n * unat es)"
proof (induction n)
  case (Suc n)
  have "elems m a es (Suc n) = elems m a es n @ [rd m (slot a es n) (unat es)]" by (simp add: elems_def)
  then show ?case using Suc rd_add[of m a "n * unat es" "unat es"] by (simp add: slot_def add.commute)
qed (simp add: elems_def rd_def)

lemma elems_wr:
  assumes "\<forall>b\<in>set bs. length b = unat es" "area a es (length bs)"
  shows "elems (wr m a (concat bs)) a es (length bs) = bs"
proof -
  have l: "length (concat bs) = length bs * unat es" using assms(1) by (induction bs) auto
  have "concat (elems (wr m a (concat bs)) a es (length bs)) = concat bs"
    unfolding concat_elems l[symmetric] by (rule rd_wr) (use l area_bounds(1)[OF assms(2) order_refl] in simp)
  then show ?thesis
  proof (rule concat_injective)
    show "\<forall>(x, y)\<in>set (zip (elems (wr m a (concat bs)) a es (length bs)) bs). length x = length y"
    proof clarify
      fix x y assume h: "(x, y) \<in> set (zip (elems (wr m a (concat bs)) a es (length bs)) bs)"
      have "length x = unat es" using set_zip_leftD[OF h] by (auto simp: elems_def)
      then show "length x = length y" using set_zip_rightD[OF h] assms(1) by simp
    qed
  qed simp
qed

lemma sorted_keys_unique:
  assumes "mset xs = mset ys" "sorted (map f xs)"
  shows "map f xs = sort (map f ys)"
proof -
  have "mset (map f xs) = mset (map f ys)" using assms(1) by simp
  then show ?thesis using properties_for_sort[OF _ assms(2)] by simp
qed

lemma word_of_bytes:
  "ucast (ucast w :: u8) OR push_bit 8 (ucast (ucast (drop_bit 8 w) :: u8)) OR push_bit 16 (ucast (ucast (drop_bit 16 w) :: u8))
     OR push_bit 24 (ucast (ucast (drop_bit 24 w) :: u8)) = (w :: u32)"
proof (rule bit_word_eqI)
  fix n assume "n < LENGTH(32)"
  then consider "n < 8" | "8 \<le> n" "n < 16" | "16 \<le> n" "n < 24" | "24 \<le> n" "n < 32" by fastforce
  then show "bit (ucast (ucast w :: u8) OR push_bit 8 (ucast (ucast (drop_bit 8 w) :: u8))
      OR push_bit 16 (ucast (ucast (drop_bit 16 w) :: u8))
      OR push_bit 24 (ucast (ucast (drop_bit 24 w) :: u8)) :: u32) n = bit w n"
    by cases (auto simp: bit_simps)
qed

lemma elem_int_bytes:
  assumes "- 2147483648 \<le> x" "x < 2147483648"
  shows "elem_int 0 (int_bytes x @ ys) = x" "elem_int 4 (int_bytes y @ int_bytes x) = x"
proof -
  have "sint (word_of_int x :: u32) = x" using assms by (simp add: sint_sbintrunc' signed_take_bit_int_eq_self)
  then show "elem_int 0 (int_bytes x @ ys) = x" "elem_int 4 (int_bytes y @ int_bytes x) = x"
    by (simp_all add: elem_int_def int_bytes_def Let_def word_of_bytes)
qed

lemma length_int_bytes [simp]: "length (int_bytes x) = 4"
  by (simp add: int_bytes_def Let_def)

lemma test1_value:
  assumes "area a 4 10"
  shows "test1 m a = Some [- 9999, - 222, - 20, - 9, 3, 5, 10, 100, 1234, 5678]"
proof -
  let ?bs = "map int_bytes test1_A" and ?m = "wr m a (concat (map int_bytes test1_A))"
  have l: "length ?bs = 10" by (simp add: test1_A_def)
  have e: "elems ?m a 4 10 = ?bs" using elems_wr[of ?bs 4 a m] assms l by simp
  have k: "map (elem_int 0) ?bs = test1_A" unfolding test1_A_def using elem_int_bytes(1)[of _ "[]"] by simp
  have "ints.all_valid ?bs"
    unfolding ints.all_valid_def test1_A_def using elem_int_bytes(1)[of _ "[]"] by simp
  then have "ints.sorts ?m a 10" using ints.qsort_sorts[OF assms, of ?m] e by simp
  then obtain m' where m': "qsort fcmp 4 ?m a 10 = Some m'" "mset (elems m' a 4 10) = mset ?bs"
    "sorted (map (elem_int 0) (elems m' a 4 10))"
    unfolding ints.sorts_def permuted_def e by auto
  have "map (\<lambda>i. sint (load32 m' (a + 4 * of_nat i))) [0..<10] = map (elem_int 0) (elems m' a 4 10)"
    using elem_int_load[of 0 4 m'] by (simp add: elems_def slot_def mult.commute)
  also have "\<dots> = sort test1_A" unfolding sorted_keys_unique[OF m'(2,3)] k ..
  also have "\<dots> = [- 9999, - 222, - 20, - 9, 3, 5, 10, 100, 1234, 5678]" by (simp add: test1_A_def)
  finally show ?thesis using m'(1) by (simp add: test1_def)
qed

lemma test2_value:
  assumes "area a 8 10"
  shows "test2 m a = Some [10, 4, 2, 7, 5, 6, 1, 3, 8, 9]"
proof -
  let ?bs = "map (\<lambda>(x, y). int_bytes x @ int_bytes y) test2_B" and ?g = "\<lambda>k. the (map_of test2_B k)"
  let ?m = "wr m a (concat ?bs)"
  have l: "length ?bs = 10" by (simp add: test2_B_def)
  have e: "elems ?m a 8 10 = ?bs" using elems_wr[of ?bs 8 a m] assms unfolding l by (auto split: prod.splits)
  have k: "map (elem_int 0) ?bs = map fst test2_B" unfolding test2_B_def using elem_int_bytes(1) by simp
  have g: "\<forall>b\<in>set ?bs. elem_int 4 b = ?g (elem_int 0 b)" unfolding test2_B_def using elem_int_bytes by simp
  have "structs.all_valid ?bs" unfolding structs.all_valid_def test2_B_def using elem_int_bytes(1) by simp
  then have "structs.sorts ?m a 10" using structs.qsort_sorts[OF assms, of ?m] e by simp
  then obtain m' where m': "qsort Scmp 8 ?m a 10 = Some m'" "mset (elems m' a 8 10) = mset ?bs"
    "sorted (map (elem_int 0) (elems m' a 8 10))"
    unfolding structs.sorts_def permuted_def e by auto
  have "map (\<lambda>i. sint (load32 m' (a + 8 * of_nat i + 4))) [0..<10] = map (elem_int 4) (elems m' a 8 10)"
    using elem_int_load[of 4 8 m'] by (simp add: elems_def slot_def mult.commute)
  also have "\<dots> = map ?g (map (elem_int 0) (elems m' a 8 10))" using g mset_eq_setD[OF m'(2)] by simp
  also have "map (elem_int 0) (elems m' a 8 10) = sort (map fst test2_B)" unfolding sorted_keys_unique[OF m'(2,3)] k ..
  also have "map ?g (sort (map fst test2_B)) = [10, 4, 2, 7, 5, 6, 1, 3, 8, 9]" by (simp add: test2_B_def)
  finally show ?thesis using m'(1) by (simp add: test2_def)
qed

text \<open>C19: \<open>qsort\<close> sorts.  For a comparison function whose sign orders the valid elements by a key, and an array of
  valid elements that is smaller than 2 GiB and does not wrap around, \<open>qsort\<close> returns, the array is then a permutation
  of what it was and ascending in the key, and no byte outside the array has changed.\<close>

theorem qsort_correct:
  fixes key :: "u8 list \<Rightarrow> 'k::linorder"
  assumes less: "\<And>m p q. valid (rd m p (unat es)) \<Longrightarrow> valid (rd m q (unat es)) \<Longrightarrow>
      sint (cmp m p q) < 0 \<longleftrightarrow> key (rd m p (unat es)) < key (rd m q (unat es))"
    and equal: "\<And>m p q. valid (rd m p (unat es)) \<Longrightarrow> valid (rd m q (unat es)) \<Longrightarrow>
      sint (cmp m p q) = 0 \<longleftrightarrow> key (rd m p (unat es)) = key (rd m q (unat es))"
    and area: "area a es n" and valid: "\<forall>x\<in>set (elems m a es n). valid x"
  shows "\<exists>m'. qsort cmp es m a (of_nat n) = Some m' \<and> mset (elems m' a es n) = mset (elems m a es n) \<and>
    sorted (map key (elems m' a es n)) \<and> (\<forall>x. \<not> in_region x a (n * unat es) \<longrightarrow> m' x = m x)"
proof -
  have order: "element_order cmp es valid key" by unfold_locales (fact less, fact equal)
  have "element_order.sorts cmp es key m a n"
    by (rule element_order.qsort_sorts[OF order area]) (simp add: element_order.all_valid_def[OF order] valid)
  then show ?thesis
    by (auto simp: element_order.sorts_def[OF order] permuted_def unchanged_outside_def)
qed

theorem qsort_correct_witness:
  "\<exists>m'. qsort fcmp 4 (\<lambda>x. if x < 0x1014 then 5 else 3) 0x1000 10 = Some m' \<and>
     mset (elems m' 0x1000 4 10) = mset (elems (\<lambda>x. if x < 0x1014 then 5 else 3) 0x1000 4 10) \<and>
     sorted (map (elem_int 0) (elems m' 0x1000 4 10))"
proof -
  let ?m = "(\<lambda>x. if x < 0x1014 then 5 else 3) :: mem"
  have "area 0x1000 4 10" by (simp add: area_def)
  moreover have "\<forall>x\<in>set (elems ?m 0x1000 4 10). small_int x"
    by (simp add: elems_def slot_def rd_def upt_rec elem_int_def)
  ultimately show ?thesis
    using qsort_correct[of small_int 4 fcmp "elem_int 0" "0x1000" 10 ?m, OF ints.cmp_less ints.cmp_equal] by auto
qed

text \<open>The regression test of \<open>qsort\<close> reports the integers of the first array in ascending order and the second
  members of the structures of the second array in the order of their first members, wherever the linker puts them.\<close>

lemma qsort_regression:
  assumes "area a 4 10" "area b 8 10"
  shows "test1 m a = Some [- 9999, - 222, - 20, - 9, 3, 5, 10, 100, 1234, 5678] \<and>
    test2 m b = Some [10, 4, 2, 7, 5, 6, 1, 3, 8, 9]"
  using test1_value[OF assms(1)] test2_value[OF assms(2)] by simp

end
