(* ===== verification/Stdio.thy ===== *)
theory Stdio
  imports CMemory
begin

text \<open>
  The file layer of the C library, \<^verbatim>\<open>lib/runtime/src/stdio.c\<close> and the inline functions of \<^verbatim>\<open>include/stdio.h\<close>.  Every
  function fills a record, hands it to the simulator's host by \<open>chess_hosted_io\<close> and reads the answer out of it.  The host is
  no code of the repository: it is the parameter \<open>host\<close>, which may change the record, the memory and a state of its own
  (type \<open>'h\<close>).  The record is a local variable that is not initialised, so each function takes its first contents \<open>v\<close>.
  A pointer to a \<open>FILE\<close> is one of the three standard streams or an element of \<open>_hosted_clib_files\<close>; other pointers are
  addresses, a \<open>va_list\<close> included.  \<open>alt\<close> tells whether \<open>CLIB_HOSTEDIO_ALT\<close> is defined, \<open>DMb\<close> is the address of the string
  \<open>"DMb"\<close>.
\<close>

section \<open>Data\<close>

definition EOF :: u32 where "EOF = - 1"
definition EBADF :: u32 where "EBADF = 9"
definition EMFILE :: u32 where "EMFILE = 24"
definition FOPEN_MAX :: nat where "FOPEN_MAX = 16"
definition SEEK_SET :: u32 where "SEEK_SET = 0"

datatype Checkers_clib_call_type =
  clct_fopen | clct_fclose | clct_vfprintf | clct_vfscanf | clct_fseek | clct_ftell | clct_feof | clct_fputc | clct_fgetc
  | clct_fflush | clct_fputs | clct_fgets | clct_fread | clct_fwrite | clct_ferror | clct_clearerr | clct_none
  | clct_fread_word | clct_fwrite_word | clct_remove | clct_rename | clct_tmpfile | clct_tmpnam | clct_vsprintf
  | clct_vsnprintf | clct_vsscanf | clct_freopen | clct_ungetc | clct_perror | clct_gets | clct_mkstemp | clct_fdopen
  | clct_close | clct_vfprintf_alt | clct_vsprintf_alt | clct_vsnprintf_alt | clct_vfscanf_alt | clct_vsscanf_alt
  | clct_open | clct_lseek | clct_read | clct_write

text \<open>The members that share a union have one field.\<close>

record Hosted_clib_vars =
  call_type :: Checkers_clib_call_type
  stream_id :: u32
  stream_rt :: u32
  str_arg1 :: u32
  str_arg2 :: u32
  format :: u32
  offset :: u32
  int_arg1 :: u32
  eof :: u32
  int_arg2 :: u32
  puts_s :: u32
  gets_s :: u32
  arg_size :: u32
  nmemb :: u32
  write_ptr :: u32
  read_ptr :: u32
  ap :: u32

record FILE =
  stream :: u32
  in_use :: u32

datatype file_ptr = Stdin | Stdout | Stderr | Hosted nat

record 'h io =
  clib_files :: "FILE list"
  std_in :: FILE
  std_out :: FILE
  std_err :: FILE
  errno :: u32
  data :: mem
  host_state :: 'h

type_synonym 'h host = "Hosted_clib_vars \<Rightarrow> mem \<Rightarrow> 'h \<Rightarrow> Hosted_clib_vars \<times> mem \<times> 'h"

definition io_init :: "mem \<Rightarrow> 'h \<Rightarrow> 'h io" where
  "io_init m h =
     \<lparr>clib_files = replicate FOPEN_MAX \<lparr>stream = 0, in_use = 0\<rparr>, std_in = \<lparr>stream = 0, in_use = 1\<rparr>,
      std_out = \<lparr>stream = 1, in_use = 1\<rparr>, std_err = \<lparr>stream = 2, in_use = 1\<rparr>, errno = 0, data = m, host_state = h\<rparr>"

fun FILE_at :: "'h io \<Rightarrow> file_ptr \<Rightarrow> FILE" where
  "FILE_at s Stdin = std_in s"
| "FILE_at s Stdout = std_out s"
| "FILE_at s Stderr = std_err s"
| "FILE_at s (Hosted i) = clib_files s ! i"

fun set_FILE :: "file_ptr \<Rightarrow> FILE \<Rightarrow> 'h io \<Rightarrow> 'h io" where
  "set_FILE Stdin f s = s\<lparr>std_in := f\<rparr>"
| "set_FILE Stdout f s = s\<lparr>std_out := f\<rparr>"
| "set_FILE Stderr f s = s\<lparr>std_err := f\<rparr>"
| "set_FILE (Hosted i) f s = s\<lparr>clib_files := (clib_files s)[i := f]\<rparr>"

definition clib_hosted_io :: "'h host \<Rightarrow> Hosted_clib_vars \<Rightarrow> 'h io \<Rightarrow> Hosted_clib_vars \<times> 'h io" where
  "clib_hosted_io host v s =
     (let (v, m, h) = host v (data s) (host_state s) in (v, s\<lparr>data := m, host_state := h\<rparr>))"

section \<open>Opening and closing\<close>

text \<open>The search loop: the index of the first entry that is not in use, or the length of the table.\<close>

fun free_FILE :: "FILE list \<Rightarrow> nat" where
  "free_FILE [] = 0"
| "free_FILE (f # fs) = (if in_use f = 0 then 0 else Suc (free_FILE fs))"

definition fopen :: "'h host \<Rightarrow> Hosted_clib_vars \<Rightarrow> u32 \<Rightarrow> u32 \<Rightarrow> 'h io \<Rightarrow> file_ptr option \<times> 'h io" where
  "fopen host v path mode s =
     (let idx = free_FILE (clib_files s)
      in if idx \<ge> FOPEN_MAX then (None, s\<lparr>errno := EMFILE\<rparr>)
         else
           let v = v\<lparr>str_arg1 := path, str_arg2 := mode, call_type := clct_fopen, stream_rt := EBADF\<rparr>;
               (v, s) = clib_hosted_io host v s
           in if stream_rt v \<noteq> 0 then (None, s\<lparr>errno := stream_rt v\<rparr>)
              else (Some (Hosted idx), set_FILE (Hosted idx) \<lparr>stream = stream_id v, in_use = 1\<rparr> s))"

definition fclose :: "'h host \<Rightarrow> Hosted_clib_vars \<Rightarrow> file_ptr \<Rightarrow> 'h io \<Rightarrow> u32 \<times> 'h io" where
  "fclose host v fp s =
     (if in_use (FILE_at s fp) = 0 then (EOF, s\<lparr>errno := EBADF\<rparr>)
      else
        let s = set_FILE fp ((FILE_at s fp)\<lparr>in_use := 0\<rparr>) s;
            v = v\<lparr>stream_id := stream (FILE_at s fp), call_type := clct_fclose, stream_rt := EBADF\<rparr>;
            (v, s) = clib_hosted_io host v s
        in if stream_rt v \<noteq> 0 then (EOF, s\<lparr>errno := stream_rt v\<rparr>) else (0, s))"

definition freopen :: "'h host \<Rightarrow> Hosted_clib_vars \<Rightarrow> u32 \<Rightarrow> u32 \<Rightarrow> file_ptr \<Rightarrow> 'h io \<Rightarrow> file_ptr option \<times> 'h io" where
  "freopen host v path mode fp s =
     (let v = v\<lparr>str_arg1 := path, str_arg2 := mode, stream_id := stream (FILE_at s fp), call_type := clct_freopen,
                stream_rt := EBADF\<rparr>;
          (v, s) = clib_hosted_io host v s
      in if stream_rt v \<noteq> 0 then (None, s\<lparr>errno := stream_rt v\<rparr>)
         else (Some fp, set_FILE fp \<lparr>stream = stream_id v, in_use = 1\<rparr> s))"

definition tmpfile :: "'h host \<Rightarrow> Hosted_clib_vars \<Rightarrow> 'h io \<Rightarrow> file_ptr option \<times> 'h io" where
  "tmpfile host v s =
     (let idx = free_FILE (clib_files s)
      in if idx \<ge> FOPEN_MAX then (None, s\<lparr>errno := EMFILE\<rparr>)
         else
           let (v, s) = clib_hosted_io host (v\<lparr>call_type := clct_tmpfile, stream_rt := EBADF\<rparr>) s
           in if stream_rt v \<noteq> 0 then (None, s\<lparr>errno := stream_rt v\<rparr>)
              else (Some (Hosted idx), set_FILE (Hosted idx) \<lparr>stream = stream_id v, in_use = 1\<rparr> s))"

definition fdopen :: "'h host \<Rightarrow> Hosted_clib_vars \<Rightarrow> u32 \<Rightarrow> u32 \<Rightarrow> 'h io \<Rightarrow> file_ptr option \<times> 'h io" where
  "fdopen host v fd mode s =
     (let idx = free_FILE (clib_files s)
      in if idx \<ge> FOPEN_MAX then (None, s\<lparr>errno := EMFILE\<rparr>)
         else
           let (v, s) = clib_hosted_io host (v\<lparr>stream_id := fd, str_arg2 := mode, call_type := clct_fdopen, stream_rt := 0\<rparr>) s
           in if stream_rt v \<noteq> 0 then (None, s\<lparr>errno := stream_rt v\<rparr>)
              else (Some (Hosted idx), set_FILE (Hosted idx) \<lparr>stream = stream_id v, in_use = 1\<rparr> s))"

text \<open>The last lines of the functions that return 0, or \<open>e\<close> with the host's code in \<open>errno\<close>.\<close>

definition report :: "u32 \<Rightarrow> Hosted_clib_vars \<times> 'h io \<Rightarrow> u32 \<times> 'h io" where
  "report e r = (let (v, s) = r in if stream_rt v \<noteq> 0 then (e, s\<lparr>errno := stream_rt v\<rparr>) else (0, s))"

definition close :: "'h host \<Rightarrow> Hosted_clib_vars \<Rightarrow> u32 \<Rightarrow> 'h io \<Rightarrow> u32 \<times> 'h io" where
  "close host v fd s = report (- 1) (clib_hosted_io host (v\<lparr>stream_id := fd, call_type := clct_close, stream_rt := 0\<rparr>) s)"

definition remove :: "'h host \<Rightarrow> Hosted_clib_vars \<Rightarrow> u32 \<Rightarrow> 'h io \<Rightarrow> u32 \<times> 'h io" where
  "remove host v path s = report (- 1) (clib_hosted_io host (v\<lparr>str_arg1 := path, call_type := clct_remove, stream_rt := 0\<rparr>) s)"

definition rename :: "'h host \<Rightarrow> Hosted_clib_vars \<Rightarrow> u32 \<Rightarrow> u32 \<Rightarrow> 'h io \<Rightarrow> u32 \<times> 'h io" where
  "rename host v oldpath newpath s =
     report (- 1) (clib_hosted_io host
       (v\<lparr>str_arg1 := newpath, str_arg2 := oldpath, call_type := clct_rename, stream_rt := 0\<rparr>) s)"

definition mkstemp :: "'h host \<Rightarrow> Hosted_clib_vars \<Rightarrow> u32 \<Rightarrow> 'h io \<Rightarrow> u32 \<times> 'h io" where
  "mkstemp host v p s =
     (let (v, s) = clib_hosted_io host (v\<lparr>puts_s := p, gets_s := p, call_type := clct_mkstemp, stream_rt := 0\<rparr>) s
      in (stream_rt v, s))"

section \<open>Positions and errors\<close>

definition fflush :: "'h host \<Rightarrow> Hosted_clib_vars \<Rightarrow> file_ptr \<Rightarrow> 'h io \<Rightarrow> u32 \<times> 'h io" where
  "fflush host v fp s =
     report EOF (clib_hosted_io host
       (v\<lparr>stream_id := stream (FILE_at s fp), call_type := clct_fflush, stream_rt := EBADF\<rparr>) s)"

definition fseek :: "'h host \<Rightarrow> Hosted_clib_vars \<Rightarrow> file_ptr \<Rightarrow> u32 \<Rightarrow> u32 \<Rightarrow> 'h io \<Rightarrow> u32 \<times> 'h io" where
  "fseek host v fp off whence s =
     (let v = v\<lparr>stream_id := stream (FILE_at s fp), offset := off, int_arg1 := whence, call_type := clct_fseek,
                stream_rt := EBADF\<rparr>;
          (v, s) = clib_hosted_io host v s
      in if stream_rt v \<noteq> 0 then (- 1, s\<lparr>errno := stream_rt v\<rparr>) else (stream_rt v, s))"

definition rewind :: "'h host \<Rightarrow> Hosted_clib_vars \<Rightarrow> file_ptr \<Rightarrow> 'h io \<Rightarrow> 'h io" where
  "rewind host v fp s = snd (fseek host v fp 0 SEEK_SET s)"

definition ftell :: "'h host \<Rightarrow> Hosted_clib_vars \<Rightarrow> file_ptr \<Rightarrow> 'h io \<Rightarrow> u32 \<times> 'h io" where
  "ftell host v fp s =
     (let v = v\<lparr>stream_id := stream (FILE_at s fp), call_type := clct_ftell, stream_rt := EBADF, offset := - 1\<rparr>;
          (v, s) = clib_hosted_io host v s
      in if sint (offset v) < 0 then (- 1, s\<lparr>errno := stream_rt v\<rparr>) else (offset v, s))"

definition feof :: "'h host \<Rightarrow> Hosted_clib_vars \<Rightarrow> file_ptr \<Rightarrow> 'h io \<Rightarrow> u32 \<times> 'h io" where
  "feof host v fp s =
     (let v = v\<lparr>stream_id := stream (FILE_at s fp), call_type := clct_feof, stream_rt := EBADF, eof := - 1\<rparr>;
          (v, s) = clib_hosted_io host v s
      in if sint (eof v) < 0 then (- 1, s\<lparr>errno := stream_rt v\<rparr>) else (eof v, s))"

definition ferror :: "'h host \<Rightarrow> Hosted_clib_vars \<Rightarrow> file_ptr \<Rightarrow> 'h io \<Rightarrow> u32 \<times> 'h io" where
  "ferror host v fp s =
     (let (v, s) = clib_hosted_io host
        (v\<lparr>stream_id := stream (FILE_at s fp), call_type := clct_ferror, stream_rt := EBADF\<rparr>) s
      in (stream_rt v, s))"

definition clearerr :: "'h host \<Rightarrow> Hosted_clib_vars \<Rightarrow> file_ptr \<Rightarrow> 'h io \<Rightarrow> 'h io" where
  "clearerr host v fp s =
     snd (clib_hosted_io host (v\<lparr>stream_id := stream (FILE_at s fp), call_type := clct_clearerr\<rparr>) s)"

definition perror :: "'h host \<Rightarrow> Hosted_clib_vars \<Rightarrow> u32 \<Rightarrow> 'h io \<Rightarrow> 'h io" where
  "perror host v p s = snd (clib_hosted_io host (v\<lparr>puts_s := p, int_arg2 := errno s, call_type := clct_perror\<rparr>) s)"


section \<open>Formatted input and output\<close>

text \<open>The inlined bodies; the count the host returns is passed on.  \<open>fprintf\<close> and its kin build the argument list \<open>ap\<close>
  from their own arguments.\<close>

definition vfprintf :: "'h host \<Rightarrow> bool \<Rightarrow> Hosted_clib_vars \<Rightarrow> file_ptr \<Rightarrow> u32 \<Rightarrow> u32 \<Rightarrow> 'h io \<Rightarrow> u32 \<times> 'h io" where
  "vfprintf host alt v fp fmt args s =
     (let v = v\<lparr>stream_id := stream (FILE_at s fp), format := fmt, ap := args,
                call_type := if alt then clct_vfprintf_alt else clct_vfprintf, stream_rt := - 1\<rparr>;
          (v, s) = clib_hosted_io host v s
      in (stream_rt v, s))"

definition fprintf :: "'h host \<Rightarrow> bool \<Rightarrow> Hosted_clib_vars \<Rightarrow> file_ptr \<Rightarrow> u32 \<Rightarrow> u32 \<Rightarrow> 'h io \<Rightarrow> u32 \<times> 'h io" where
  "fprintf = vfprintf"

definition vprintf :: "'h host \<Rightarrow> bool \<Rightarrow> Hosted_clib_vars \<Rightarrow> u32 \<Rightarrow> u32 \<Rightarrow> 'h io \<Rightarrow> u32 \<times> 'h io" where
  "vprintf host alt v fmt args s = vfprintf host alt v Stdout fmt args s"

definition printf :: "'h host \<Rightarrow> bool \<Rightarrow> Hosted_clib_vars \<Rightarrow> u32 \<Rightarrow> u32 \<Rightarrow> 'h io \<Rightarrow> u32 \<times> 'h io" where
  "printf host alt v fmt args s = vprintf host alt v fmt args s"

definition vfscanf :: "'h host \<Rightarrow> bool \<Rightarrow> Hosted_clib_vars \<Rightarrow> file_ptr \<Rightarrow> u32 \<Rightarrow> u32 \<Rightarrow> 'h io \<Rightarrow> u32 \<times> 'h io" where
  "vfscanf host alt v fp fmt args s =
     (let v = v\<lparr>stream_id := stream (FILE_at s fp), format := fmt, ap := args,
                call_type := if alt then clct_vfscanf_alt else clct_vfscanf, stream_rt := EOF\<rparr>;
          (v, s) = clib_hosted_io host v s
      in (stream_rt v, s))"

definition fscanf :: "'h host \<Rightarrow> bool \<Rightarrow> Hosted_clib_vars \<Rightarrow> file_ptr \<Rightarrow> u32 \<Rightarrow> u32 \<Rightarrow> 'h io \<Rightarrow> u32 \<times> 'h io" where
  "fscanf = vfscanf"

definition vscanf :: "'h host \<Rightarrow> bool \<Rightarrow> Hosted_clib_vars \<Rightarrow> u32 \<Rightarrow> u32 \<Rightarrow> 'h io \<Rightarrow> u32 \<times> 'h io" where
  "vscanf host alt v fmt args s = vfscanf host alt v Stdin fmt args s"

definition scanf :: "'h host \<Rightarrow> bool \<Rightarrow> Hosted_clib_vars \<Rightarrow> u32 \<Rightarrow> u32 \<Rightarrow> 'h io \<Rightarrow> u32 \<times> 'h io" where
  "scanf host alt v fmt args s = vscanf host alt v fmt args s"

definition vsprintf :: "'h host \<Rightarrow> bool \<Rightarrow> Hosted_clib_vars \<Rightarrow> u32 \<Rightarrow> u32 \<Rightarrow> u32 \<Rightarrow> 'h io \<Rightarrow> u32 \<times> 'h io" where
  "vsprintf host alt v str fmt args s =
     (let v = v\<lparr>gets_s := str, format := fmt, ap := args,
                call_type := if alt then clct_vsprintf_alt else clct_vsprintf, stream_rt := - 1\<rparr>;
          (v, s) = clib_hosted_io host v s
      in (stream_rt v, s))"

definition sprintf :: "'h host \<Rightarrow> bool \<Rightarrow> Hosted_clib_vars \<Rightarrow> u32 \<Rightarrow> u32 \<Rightarrow> u32 \<Rightarrow> 'h io \<Rightarrow> u32 \<times> 'h io" where
  "sprintf = vsprintf"

definition vsnprintf :: "'h host \<Rightarrow> bool \<Rightarrow> Hosted_clib_vars \<Rightarrow> u32 \<Rightarrow> u32 \<Rightarrow> u32 \<Rightarrow> u32 \<Rightarrow> 'h io \<Rightarrow> u32 \<times> 'h io" where
  "vsnprintf host alt v str n fmt args s =
     (let v = v\<lparr>gets_s := str, arg_size := n, format := fmt, ap := args,
                call_type := if alt then clct_vsnprintf_alt else clct_vsnprintf, stream_rt := - 1\<rparr>;
          (v, s) = clib_hosted_io host v s
      in (stream_rt v, s))"

definition snprintf :: "'h host \<Rightarrow> bool \<Rightarrow> Hosted_clib_vars \<Rightarrow> u32 \<Rightarrow> u32 \<Rightarrow> u32 \<Rightarrow> u32 \<Rightarrow> 'h io \<Rightarrow> u32 \<times> 'h io" where
  "snprintf = vsnprintf"

definition vsscanf :: "'h host \<Rightarrow> bool \<Rightarrow> Hosted_clib_vars \<Rightarrow> u32 \<Rightarrow> u32 \<Rightarrow> u32 \<Rightarrow> 'h io \<Rightarrow> u32 \<times> 'h io" where
  "vsscanf host alt v str fmt args s =
     (let v = v\<lparr>puts_s := str, format := fmt, ap := args,
                call_type := if alt then clct_vsscanf_alt else clct_vsscanf, stream_rt := - 1\<rparr>;
          (v, s) = clib_hosted_io host v s
      in (stream_rt v, s))"

definition sscanf :: "'h host \<Rightarrow> bool \<Rightarrow> Hosted_clib_vars \<Rightarrow> u32 \<Rightarrow> u32 \<Rightarrow> u32 \<Rightarrow> 'h io \<Rightarrow> u32 \<times> 'h io" where
  "sscanf = vsscanf"

section \<open>Characters and strings\<close>

definition fputc :: "'h host \<Rightarrow> Hosted_clib_vars \<Rightarrow> u32 \<Rightarrow> file_ptr \<Rightarrow> 'h io \<Rightarrow> u32 \<times> 'h io" where
  "fputc host v c fp s =
     (let v = v\<lparr>stream_id := stream (FILE_at s fp), int_arg2 := c, call_type := clct_fputc, stream_rt := EOF\<rparr>;
          (v, s) = clib_hosted_io host v s
      in (stream_rt v, s))"

definition putc :: "'h host \<Rightarrow> Hosted_clib_vars \<Rightarrow> u32 \<Rightarrow> file_ptr \<Rightarrow> 'h io \<Rightarrow> u32 \<times> 'h io" where
  "putc = fputc"

definition putchar :: "'h host \<Rightarrow> Hosted_clib_vars \<Rightarrow> u32 \<Rightarrow> 'h io \<Rightarrow> u32 \<times> 'h io" where
  "putchar host v c s = fputc host v c Stdout s"

definition ungetc :: "'h host \<Rightarrow> Hosted_clib_vars \<Rightarrow> u32 \<Rightarrow> file_ptr \<Rightarrow> 'h io \<Rightarrow> u32 \<times> 'h io" where
  "ungetc host v c fp s =
     (let v = v\<lparr>stream_id := stream (FILE_at s fp), int_arg2 := c, call_type := clct_ungetc, stream_rt := EOF\<rparr>;
          (v, s) = clib_hosted_io host v s
      in (stream_rt v, s))"

definition fputs :: "'h host \<Rightarrow> Hosted_clib_vars \<Rightarrow> u32 \<Rightarrow> file_ptr \<Rightarrow> 'h io \<Rightarrow> u32 \<times> 'h io" where
  "fputs host v p fp s =
     (let v = v\<lparr>stream_id := stream (FILE_at s fp), puts_s := p, call_type := clct_fputs, stream_rt := EOF\<rparr>;
          (v, s) = clib_hosted_io host v s
      in (stream_rt v, s))"

text \<open>Two calls, each with a record of its own.\<close>

definition puts :: "'h host \<Rightarrow> Hosted_clib_vars \<Rightarrow> Hosted_clib_vars \<Rightarrow> u32 \<Rightarrow> 'h io \<Rightarrow> u32 \<times> 'h io" where
  "puts host v w p s =
     (let (rt, s) = fputs host v p Stdout s in if sint rt < 0 then (rt, s) else fputc host w 10 Stdout s)"

definition fgetc :: "'h host \<Rightarrow> Hosted_clib_vars \<Rightarrow> file_ptr \<Rightarrow> 'h io \<Rightarrow> u32 \<times> 'h io" where
  "fgetc host v fp s =
     (let v = v\<lparr>stream_id := stream (FILE_at s fp), call_type := clct_fgetc, stream_rt := EOF\<rparr>;
          (v, s) = clib_hosted_io host v s
      in (stream_rt v, s))"

definition getc :: "'h host \<Rightarrow> Hosted_clib_vars \<Rightarrow> file_ptr \<Rightarrow> 'h io \<Rightarrow> u32 \<times> 'h io" where
  "getc = fgetc"

definition getchar :: "'h host \<Rightarrow> Hosted_clib_vars \<Rightarrow> 'h io \<Rightarrow> u32 \<times> 'h io" where
  "getchar host v s = fgetc host v Stdin s"

definition fgets :: "'h host \<Rightarrow> Hosted_clib_vars \<Rightarrow> u32 \<Rightarrow> u32 \<Rightarrow> file_ptr \<Rightarrow> 'h io \<Rightarrow> u32 \<times> 'h io" where
  "fgets host v p n fp s =
     (let v = v\<lparr>stream_id := stream (FILE_at s fp), gets_s := p, arg_size := n, call_type := clct_fgets,
                stream_rt := EBADF\<rparr>;
          (v, s) = clib_hosted_io host v s
      in if stream_rt v \<noteq> 0 then (0, s) else (p, s))"

definition gets :: "'h host \<Rightarrow> Hosted_clib_vars \<Rightarrow> u32 \<Rightarrow> 'h io \<Rightarrow> u32 \<times> 'h io" where
  "gets host v p s =
     (let (v, s) = clib_hosted_io host (v\<lparr>gets_s := p, call_type := clct_gets, stream_rt := EBADF\<rparr>) s
      in if stream_rt v \<noteq> 0 then (0, s) else (p, s))"

section \<open>Blocks\<close>

definition fwrite :: "'h host \<Rightarrow> u32 \<Rightarrow> Hosted_clib_vars \<Rightarrow> u32 \<Rightarrow> u32 \<Rightarrow> u32 \<Rightarrow> file_ptr \<Rightarrow> 'h io \<Rightarrow> u32 \<times> 'h io" where
  "fwrite host DMb v p n k fp s =
     (let v = v\<lparr>stream_id := stream (FILE_at s fp), write_ptr := p, arg_size := n, nmemb := k, str_arg1 := DMb,
                call_type := clct_fwrite, stream_rt := 0\<rparr>;
          (v, s) = clib_hosted_io host v s
      in (stream_rt v, s))"

definition fread :: "'h host \<Rightarrow> u32 \<Rightarrow> Hosted_clib_vars \<Rightarrow> u32 \<Rightarrow> u32 \<Rightarrow> u32 \<Rightarrow> file_ptr \<Rightarrow> 'h io \<Rightarrow> u32 \<times> 'h io" where
  "fread host DMb v p n k fp s =
     (let v = v\<lparr>stream_id := stream (FILE_at s fp), read_ptr := p, arg_size := n, nmemb := k, str_arg1 := DMb,
                call_type := clct_fread, stream_rt := 0\<rparr>;
          (v, s) = clib_hosted_io host v s
      in (stream_rt v, s))"

definition fwrite_word :: "'h host \<Rightarrow> u32 \<Rightarrow> Hosted_clib_vars \<Rightarrow> u32 \<Rightarrow> u32 \<Rightarrow> u32 \<Rightarrow> u32 \<Rightarrow> file_ptr \<Rightarrow> 'h io \<Rightarrow> u32 \<times> 'h io" where
  "fwrite_word host DMb v p n k lsb_first fp s =
     (let v = v\<lparr>stream_id := stream (FILE_at s fp), write_ptr := p, arg_size := n, nmemb := k, int_arg1 := lsb_first,
                str_arg1 := DMb, call_type := clct_fwrite_word, stream_rt := 0\<rparr>;
          (v, s) = clib_hosted_io host v s
      in (stream_rt v, s))"

definition fread_word :: "'h host \<Rightarrow> u32 \<Rightarrow> Hosted_clib_vars \<Rightarrow> u32 \<Rightarrow> u32 \<Rightarrow> u32 \<Rightarrow> u32 \<Rightarrow> file_ptr \<Rightarrow> 'h io \<Rightarrow> u32 \<times> 'h io" where
  "fread_word host DMb v p n k lsb_first fp s =
     (let v = v\<lparr>stream_id := stream (FILE_at s fp), read_ptr := p, arg_size := n, nmemb := k, int_arg1 := lsb_first,
                str_arg1 := DMb, call_type := clct_fread_word, stream_rt := 0\<rparr>;
          (v, s) = clib_hosted_io host v s
      in (stream_rt v, s))"

end
