(* ===== verification/StdioSpec.thy ===== *)
theory StdioSpec
  imports Stdio
begin

text \<open>
  The calls of the file layer as one step relation: every sequence of calls, answered by any host whatever, keeps the
  table of \<open>FILE\<close> objects in step with a ledger that is kept from the calls, their results and the answers of the host alone.  Then what the
  functions report when there is no host.
\<close>

text \<open>The host that is not there: it leaves everything as it is.\<close>

definition no_host :: "'h host" where
  "no_host v m h = (v, m, h)"

section \<open>Sequences of calls\<close>

datatype io_call =
  Fopen u32 u32 | Freopen u32 u32 file_ptr | Tmpfile | Fdopen u32 u32 | Fclose file_ptr
  | Close u32 | Remove u32 | Rename u32 u32 | Mkstemp u32
  | Fflush file_ptr | Fseek file_ptr u32 u32 | Rewind file_ptr | Ftell file_ptr | Feof file_ptr | Ferror file_ptr
  | Clearerr file_ptr | Perror u32
  | Fprintf file_ptr u32 u32 | Printf u32 u32 | Fscanf file_ptr u32 u32 | Scanf u32 u32
  | Sprintf u32 u32 u32 | Snprintf u32 u32 u32 u32 | Sscanf u32 u32 u32
  | Fputc u32 file_ptr | Putchar u32 | Ungetc u32 file_ptr | Fputs u32 file_ptr | Puts u32
  | Fgetc file_ptr | Getchar | Fgets u32 u32 file_ptr | Gets u32
  | Fwrite u32 u32 u32 file_ptr | Fread u32 u32 u32 file_ptr
  | Fwrite_word u32 u32 u32 u32 file_ptr | Fread_word u32 u32 u32 u32 file_ptr

datatype io_answer = Number u32 | File "file_ptr option" | Nothing

fun run_call :: "'h host \<Rightarrow> bool \<Rightarrow> u32 \<Rightarrow> Hosted_clib_vars \<Rightarrow> Hosted_clib_vars \<Rightarrow> io_call \<Rightarrow> 'h io \<Rightarrow> io_answer \<times> 'h io" where
  "run_call host alt DMb v w (Fopen p m) s = apfst File (fopen host v p m s)"
| "run_call host alt DMb v w (Freopen p m fp) s = apfst File (freopen host v p m fp s)"
| "run_call host alt DMb v w Tmpfile s = apfst File (tmpfile host v s)"
| "run_call host alt DMb v w (Fdopen fd m) s = apfst File (fdopen host v fd m s)"
| "run_call host alt DMb v w (Fclose fp) s = apfst Number (fclose host v fp s)"
| "run_call host alt DMb v w (Close fd) s = apfst Number (close host v fd s)"
| "run_call host alt DMb v w (Remove p) s = apfst Number (remove host v p s)"
| "run_call host alt DMb v w (Rename p q) s = apfst Number (rename host v p q s)"
| "run_call host alt DMb v w (Mkstemp p) s = apfst Number (mkstemp host v p s)"
| "run_call host alt DMb v w (Fflush fp) s = apfst Number (fflush host v fp s)"
| "run_call host alt DMb v w (Fseek fp k l) s = apfst Number (fseek host v fp k l s)"
| "run_call host alt DMb v w (Rewind fp) s = (Nothing, rewind host v fp s)"
| "run_call host alt DMb v w (Ftell fp) s = apfst Number (ftell host v fp s)"
| "run_call host alt DMb v w (Feof fp) s = apfst Number (feof host v fp s)"
| "run_call host alt DMb v w (Ferror fp) s = apfst Number (ferror host v fp s)"
| "run_call host alt DMb v w (Clearerr fp) s = (Nothing, clearerr host v fp s)"
| "run_call host alt DMb v w (Perror p) s = (Nothing, perror host v p s)"
| "run_call host alt DMb v w (Fprintf fp f a) s = apfst Number (fprintf host alt v fp f a s)"
| "run_call host alt DMb v w (Printf f a) s = apfst Number (printf host alt v f a s)"
| "run_call host alt DMb v w (Fscanf fp f a) s = apfst Number (fscanf host alt v fp f a s)"
| "run_call host alt DMb v w (Scanf f a) s = apfst Number (scanf host alt v f a s)"
| "run_call host alt DMb v w (Sprintf p f a) s = apfst Number (sprintf host alt v p f a s)"
| "run_call host alt DMb v w (Snprintf p n f a) s = apfst Number (snprintf host alt v p n f a s)"
| "run_call host alt DMb v w (Sscanf p f a) s = apfst Number (sscanf host alt v p f a s)"
| "run_call host alt DMb v w (Fputc c fp) s = apfst Number (fputc host v c fp s)"
| "run_call host alt DMb v w (Putchar c) s = apfst Number (putchar host v c s)"
| "run_call host alt DMb v w (Ungetc c fp) s = apfst Number (ungetc host v c fp s)"
| "run_call host alt DMb v w (Fputs p fp) s = apfst Number (fputs host v p fp s)"
| "run_call host alt DMb v w (Puts p) s = apfst Number (puts host v w p s)"
| "run_call host alt DMb v w (Fgetc fp) s = apfst Number (fgetc host v fp s)"
| "run_call host alt DMb v w Getchar s = apfst Number (getchar host v s)"
| "run_call host alt DMb v w (Fgets p n fp) s = apfst Number (fgets host v p n fp s)"
| "run_call host alt DMb v w (Gets p) s = apfst Number (gets host v p s)"
| "run_call host alt DMb v w (Fwrite p n k fp) s = apfst Number (fwrite host DMb v p n k fp s)"
| "run_call host alt DMb v w (Fread p n k fp) s = apfst Number (fread host DMb v p n k fp s)"
| "run_call host alt DMb v w (Fwrite_word p n k l fp) s = apfst Number (fwrite_word host DMb v p n k l fp s)"
| "run_call host alt DMb v w (Fread_word p n k l fp) s = apfst Number (fread_word host DMb v p n k l fp s)"

text \<open>The pointers a program may pass: the addresses of \<open>FILE\<close> objects.\<close>

fun FILE_object :: "file_ptr \<Rightarrow> bool" where
  "FILE_object (Hosted i) \<longleftrightarrow> i < FOPEN_MAX"
| "FILE_object _ \<longleftrightarrow> True"

text \<open>The calls that open a new stream.\<close>

definition opens :: "io_call \<Rightarrow> bool" where
  "opens c = (case c of Fopen p m \<Rightarrow> True | Tmpfile \<Rightarrow> True | Fdopen fd m \<Rightarrow> True | _ \<Rightarrow> False)"

text \<open>What the calls that open or reopen a stream ask the host, and the number it answers with.\<close>

definition request :: "Hosted_clib_vars \<Rightarrow> io_call \<Rightarrow> 'h io \<Rightarrow> Hosted_clib_vars" where
  "request v c s =
     (case c of
        Fopen p m \<Rightarrow> v\<lparr>str_arg1 := p, str_arg2 := m, call_type := clct_fopen, stream_rt := EBADF\<rparr>
      | Tmpfile \<Rightarrow> v\<lparr>call_type := clct_tmpfile, stream_rt := EBADF\<rparr>
      | Fdopen fd m \<Rightarrow> v\<lparr>stream_id := fd, str_arg2 := m, call_type := clct_fdopen, stream_rt := 0\<rparr>
      | Freopen p m fp \<Rightarrow> v\<lparr>str_arg1 := p, str_arg2 := m, stream_id := stream (FILE_at s fp), call_type := clct_freopen,
          stream_rt := EBADF\<rparr>
      | _ \<Rightarrow> v)"

definition host_number :: "'h host \<Rightarrow> Hosted_clib_vars \<Rightarrow> io_call \<Rightarrow> 'h io \<Rightarrow> u32" where
  "host_number host v c s = stream_id (fst (host (request v c s) (data s) (host_state s)))"

text \<open>The ledger after a call made in \<open>s\<close>: a stream is entered, with the number the host answered, when a call returns it
  and struck out when it is closed.\<close>

definition ledger :: "'h host \<Rightarrow> Hosted_clib_vars \<Rightarrow> io_call \<Rightarrow> io_answer \<Rightarrow> 'h io \<Rightarrow> (file_ptr \<Rightarrow> u32 option) \<Rightarrow> file_ptr \<Rightarrow> u32 option" where
  "ledger host v c r s L =
     (case c of Fclose fp \<Rightarrow> L(fp := None)
      | _ \<Rightarrow> (case r of File (Some fp) \<Rightarrow> L(fp \<mapsto> host_number host v c s) | _ \<Rightarrow> L))"

definition pointer_of :: "io_call \<Rightarrow> file_ptr" where
  "pointer_of c = (case c of Freopen p m fp \<Rightarrow> fp | Fclose fp \<Rightarrow> fp | _ \<Rightarrow> Stdin)"

inductive io_run :: "'h host \<Rightarrow> 'h io \<Rightarrow> (file_ptr \<Rightarrow> u32 option) \<Rightarrow> bool" for host where
  io_start: "io_run host (io_init m h) [Stdin \<mapsto> 0, Stdout \<mapsto> 1, Stderr \<mapsto> 2]"
| io_step: "io_run host s L \<Longrightarrow> FILE_object (pointer_of c) \<Longrightarrow> run_call host alt DMb v w c s = (r, s') \<Longrightarrow>
    io_run host s' (ledger host v c r s L)"

section \<open>The table\<close>

text \<open>The abstraction: the streams that are in use, with the host's numbers.\<close>

definition handles :: "'h io \<Rightarrow> file_ptr \<Rightarrow> u32 option" where
  "handles s fp = (if FILE_object fp \<and> in_use (FILE_at s fp) \<noteq> 0 then Some (stream (FILE_at s fp)) else None)"

definition same_table :: "'h io \<Rightarrow> 'h io \<Rightarrow> bool" where
  "same_table s s' \<longleftrightarrow> clib_files s' = clib_files s \<and> std_in s' = std_in s \<and> std_out s' = std_out s \<and> std_err s' = std_err s"

lemma same_table_FILE: "same_table s s' \<Longrightarrow> FILE_at s' fp = FILE_at s fp"
  by (cases fp) (simp_all add: same_table_def)

lemma same_table_handles: "same_table s s' \<Longrightarrow> handles s' = handles s"
  by (rule ext) (simp add: handles_def same_table_FILE)

lemma same_table_io: "clib_hosted_io host v s = (v', s') \<Longrightarrow> same_table s s'"
  by (auto simp: clib_hosted_io_def same_table_def split: prod.splits)

lemma same_table_snd [simp]: "same_table s (snd (clib_hosted_io host v s))"
  by (rule same_table_io) (rule surjective_pairing)

lemma same_table_errno: "same_table s (s'\<lparr>errno := e\<rparr>) \<longleftrightarrow> same_table s s'"
  by (simp add: same_table_def)

lemma same_table_refl [simp]: "same_table s s"
  by (simp add: same_table_def)

lemma same_table_trans: "same_table s s' \<Longrightarrow> same_table s' s'' \<Longrightarrow> same_table s s''"
  by (simp add: same_table_def)

lemma handles_set_FILE:
  assumes "length (clib_files s) = FOPEN_MAX" "FILE_object fp"
  shows "handles (set_FILE fp f s) = (handles s)(fp := if in_use f = 0 then None else Some (stream f))"
proof (rule ext)
  fix gp
  show "handles (set_FILE fp f s) gp = ((handles s)(fp := if in_use f = 0 then None else Some (stream f))) gp"
    using assms by (cases fp; cases gp) (auto simp: handles_def nth_list_update)
qed

lemma set_FILE_frame [simp]:
  "length (clib_files (set_FILE fp f s)) = length (clib_files s)"
  "FILE_at s fp = g \<Longrightarrow> FILE_object fp \<Longrightarrow> length (clib_files s) = FOPEN_MAX \<Longrightarrow> FILE_at (set_FILE fp f s) fp = f"
  by (cases fp; simp)+

lemma free_FILE:
  "free_FILE fs \<le> length fs" "i < free_FILE fs \<Longrightarrow> in_use (fs ! i) \<noteq> 0"
  "free_FILE fs < length fs \<Longrightarrow> in_use (fs ! free_FILE fs) = 0"
  by (induction fs arbitrary: i) (auto simp: nth_Cons split: nat.splits if_splits)

lemmas io_functions = fopen_def fclose_def freopen_def tmpfile_def fdopen_def report_def close_def remove_def rename_def
  mkstemp_def fflush_def fseek_def rewind_def ftell_def feof_def ferror_def clearerr_def perror_def vfprintf_def fprintf_def
  vprintf_def printf_def vfscanf_def fscanf_def vscanf_def scanf_def vsprintf_def sprintf_def vsnprintf_def snprintf_def
  vsscanf_def sscanf_def fputc_def putc_def putchar_def ungetc_def fputs_def puts_def fgetc_def getc_def getchar_def
  fgets_def gets_def fwrite_def fread_def fwrite_word_def fread_word_def

text \<open>Every call but the five that open and close leaves the table alone.\<close>

lemma other_calls:
  assumes "run_call host alt DMb v w c s = (r, s')" "\<not> opens c" "\<forall>p m fp. c \<noteq> Freopen p m fp" "\<forall>fp. c \<noteq> Fclose fp"
  shows "same_table s s' \<and> (\<forall>fp. r \<noteq> File fp)"
  using assms
  by (cases c) (auto simp: opens_def io_functions Let_def same_table_errno split: prod.splits if_splits
      dest: same_table_io intro: same_table_trans)


text \<open>What the calls that open a stream do to the table when the host answers with the number \<open>k\<close>.\<close>

lemma host_number_io: "host_number host v c s = stream_id (fst (clib_hosted_io host (request v c s) s))"
  by (simp add: host_number_def clib_hosted_io_def split: prod.splits)

definition opened :: "u32 \<Rightarrow> file_ptr option \<Rightarrow> 'h io \<Rightarrow> 'h io \<Rightarrow> bool" where
  "opened k r s s' \<longleftrightarrow>
     (case r of None \<Rightarrow> same_table s s'
      | Some fp \<Rightarrow> \<exists>i t. fp = Hosted i \<and> i = free_FILE (clib_files s) \<and> i < FOPEN_MAX \<and> same_table s t \<and>
          s' = set_FILE fp \<lparr>stream = k, in_use = 1\<rparr> t)"

lemma opened_answer:
  assumes "(case clib_hosted_io host u s of (u, t) \<Rightarrow>
      if stream_rt u \<noteq> 0 then (None, t\<lparr>errno := stream_rt u\<rparr>)
      else (Some (Hosted i), set_FILE (Hosted i) \<lparr>stream = stream_id u, in_use = 1\<rparr> t)) = (f, s')"
    and "i = free_FILE (clib_files s)" "i < FOPEN_MAX"
  shows "opened (stream_id (fst (clib_hosted_io host u s))) f s s'"
proof -
  obtain u' t where c: "clib_hosted_io host u s = (u', t)" by (metis surj_pair)
  show ?thesis using assms same_table_io[OF c]
    by (auto simp: c opened_def same_table_errno simp del: set_FILE.simps split: if_splits)
qed

lemma open_calls:
  assumes "run_call host alt DMb v w c s = (r, s')" "opens c"
  shows "\<exists>f. r = File f \<and> opened (host_number host v c s) f s s' \<and>
    (FOPEN_MAX \<le> free_FILE (clib_files s) \<longrightarrow> f = None \<and> s' = s\<lparr>errno := EMFILE\<rparr>)"
proof (cases "FOPEN_MAX \<le> free_FILE (clib_files s)")
  case True
  have "r = File None \<and> s' = s\<lparr>errno := EMFILE\<rparr>"
    using assms True by (cases c) (simp_all add: opens_def fopen_def tmpfile_def fdopen_def)
  then show ?thesis by (simp add: opened_def same_table_errno)
next
  case False
  then have i: "free_FILE (clib_files s) < FOPEN_MAX" by simp
  obtain f where r: "r = File f" and
    "(case clib_hosted_io host (request v c s) s of (u, t) \<Rightarrow>
        if stream_rt u \<noteq> 0 then (None, t\<lparr>errno := stream_rt u\<rparr>)
        else (Some (Hosted (free_FILE (clib_files s))),
          set_FILE (Hosted (free_FILE (clib_files s))) \<lparr>stream = stream_id u, in_use = 1\<rparr> t)) = (f, s')"
    using assms False
    by (cases c) (auto simp: opens_def fopen_def tmpfile_def fdopen_def request_def Let_def apfst_def map_prod_def
        split: prod.splits if_splits)
  from opened_answer[OF this(2) refl i] show ?thesis using False r by (simp add: host_number_io)
qed

lemma opened_handles:
  assumes "opened k f s s'" "length (clib_files s) = FOPEN_MAX"
  shows "length (clib_files s') = FOPEN_MAX \<and>
    handles s' = (case f of None \<Rightarrow> handles s | Some fp \<Rightarrow> (handles s)(fp \<mapsto> k)) \<and>
    (\<forall>fp. f = Some fp \<longrightarrow> handles s fp = None \<and> FILE_object fp)"
proof (cases f)
  case None
  then show ?thesis using assms same_table_handles[of s s'] by (auto simp: opened_def same_table_def)
next
  case (Some fp)
  then obtain i t where o: "fp = Hosted i" "i = free_FILE (clib_files s)" "i < FOPEN_MAX" "same_table s t"
    "s' = set_FILE fp \<lparr>stream = k, in_use = 1\<rparr> t" using assms(1) by (auto simp: opened_def)
  have l: "length (clib_files t) = FOPEN_MAX" using o(4) assms(2) by (simp add: same_table_def)
  have "FILE_object fp" using o(1,3) by simp
  moreover have "handles s fp = None" using free_FILE(3)[of "clib_files s"] assms(2) o(1-3) by (simp add: handles_def)
  moreover have "handles s' = (handles s)(fp \<mapsto> k)"
    using handles_set_FILE[OF l \<open>FILE_object fp\<close>] same_table_handles[OF o(4)] l \<open>FILE_object fp\<close> unfolding o(5) by simp
  ultimately show ?thesis using Some l o(5) by simp
qed

lemma fclose_handles:
  assumes "run_call host alt DMb v w (Fclose fp) s = (r, s')" "length (clib_files s) = FOPEN_MAX" "FILE_object fp"
  shows "length (clib_files s') = FOPEN_MAX \<and> handles s' = (handles s)(fp := None)"
proof (cases "in_use (FILE_at s fp) = 0")
  case True
  then have "s' = s\<lparr>errno := EBADF\<rparr>" using assms(1) by (simp add: fclose_def)
  then have t: "same_table s s'" by (simp add: same_table_errno)
  then show ?thesis using same_table_handles[OF t] True assms(2) by (auto simp: same_table_def handles_def)
next
  case False
  have t: "same_table (set_FILE fp ((FILE_at s fp)\<lparr>in_use := 0\<rparr>) s) s'"
    using assms(1) False
    by (auto simp: fclose_def Let_def same_table_errno split: prod.splits if_splits dest!: same_table_io)
  have "length (clib_files s') = FOPEN_MAX" using t assms(2) by (simp add: same_table_def)
  then show ?thesis using handles_set_FILE[OF assms(2,3)] same_table_handles[OF t] by simp
qed

lemma freopen_handles:
  assumes "run_call host alt DMb v w (Freopen p m fp) s = (r, s')" "length (clib_files s) = FOPEN_MAX" "FILE_object fp"
  shows "length (clib_files s') = FOPEN_MAX \<and>
    (r = File None \<and> handles s' = handles s \<or> r = File (Some fp) \<and> handles s' = (handles s)(fp \<mapsto> host_number host v (Freopen p m fp) s))"
proof -
  obtain v' t where c: "clib_hosted_io host (v\<lparr>str_arg1 := p, str_arg2 := m, stream_id := stream (FILE_at s fp),
      call_type := clct_freopen, stream_rt := EBADF\<rparr>) s = (v', t)" by (metis surj_pair)
  note t = same_table_io[OF c]
  have k: "host_number host v (Freopen p m fp) s = stream_id v'"
    unfolding host_number_io request_def io_call.case c fst_conv ..
  have l: "length (clib_files t) = FOPEN_MAX" using t assms(2) by (simp add: same_table_def)
  have "r = File None \<and> s' = t\<lparr>errno := stream_rt v'\<rparr> \<or>
      r = File (Some fp) \<and> s' = set_FILE fp \<lparr>stream = stream_id v', in_use = 1\<rparr> t"
    using assms(1) by (auto simp: freopen_def Let_def c split: if_splits)
  then show ?thesis
  proof
    assume "r = File None \<and> s' = t\<lparr>errno := stream_rt v'\<rparr>"
    moreover from this have "same_table s s'" using t by (simp add: same_table_errno)
    ultimately show ?thesis using same_table_handles[of s s'] l by (simp add: same_table_def)
  next
    assume h: "r = File (Some fp) \<and> s' = set_FILE fp \<lparr>stream = stream_id v', in_use = 1\<rparr> t"
    then show ?thesis using handles_set_FILE[OF l assms(3)] same_table_handles[OF t] l assms(3) k by (simp del: set_FILE.simps)
  qed
qed

text \<open>The step of the simulation.\<close>

lemma ledger_step:
  assumes "run_call host alt DMb v w c s = (r, s')" "length (clib_files s) = FOPEN_MAX" "FILE_object (pointer_of c)"
  shows "length (clib_files s') = FOPEN_MAX \<and> handles s' = ledger host v c r s (handles s)"
proof -
  consider "opens c" | fp where "c = Fclose fp" | p m fp where "c = Freopen p m fp"
    | "\<not> opens c" "\<forall>p m fp. c \<noteq> Freopen p m fp" "\<forall>fp. c \<noteq> Fclose fp" by blast
  then show ?thesis
  proof cases
    case 1
    then obtain f where f: "r = File f" "opened (host_number host v c s) f s s'" using open_calls[OF assms(1)] by blast
    have "\<forall>fp. c \<noteq> Fclose fp" using 1 by (auto simp: opens_def)
    then have "ledger host v c r s (handles s) = (case f of None \<Rightarrow> handles s | Some fp \<Rightarrow> (handles s)(fp \<mapsto> host_number host v c s))"
      unfolding f(1) ledger_def by (cases c) (simp_all split: option.splits)
    then show ?thesis using opened_handles[OF f(2) assms(2)] by simp
  next
    case 2
    then show ?thesis using fclose_handles[of host alt DMb v w fp s r s'] assms by (simp add: ledger_def pointer_of_def)
  next
    case 3
    then show ?thesis using freopen_handles[of host alt DMb v w p m fp s r s'] assms by (auto simp: ledger_def pointer_of_def)
  next
    case 4
    note o = other_calls[OF assms(1) 4]
    then have "ledger host v c r s (handles s) = handles s"
      using 4(3) by (cases c; cases r) (simp_all add: ledger_def split: option.splits)
    then show ?thesis using o same_table_handles[of s s'] assms(2) by (simp add: same_table_def)
  qed
qed


lemma io_run_sound:
  "io_run host s L \<Longrightarrow> length (clib_files s) = FOPEN_MAX \<and> handles s = L"
proof (induction rule: io_run.induct)
  case (io_start m h)
  have "handles (io_init m h) fp = [Stdin \<mapsto> 0, Stdout \<mapsto> 1, Stderr \<mapsto> 2] fp" for fp
    by (cases fp) (simp_all add: handles_def io_init_def FOPEN_MAX_def)
  then show ?case by (auto simp: io_init_def)
next
  case (io_step s L c alt DMb v w r s')
  then show ?case using ledger_step[of host alt DMb v w c s r s'] by simp
qed

text \<open>C25: Whatever a program calls and whatever the host answers, the table of \<open>FILE\<close> objects keeps its 16 entries and its
  entries in use are exactly the streams the program has been given and has not closed, each with the number the host gave
  it.  A call that opens a stream never returns one that is open; when 16 are, it returns a null pointer with \<open>EMFILE\<close> and
  does not ask the host.  Closing a stream that is not open answers \<open>EOF\<close> with \<open>EBADF\<close> and changes nothing else.\<close>

theorem stream_table_sound:
  assumes "io_run host s L"
  shows "length (clib_files s) = FOPEN_MAX \<and>
    (\<forall>fp. L fp = (if FILE_object fp \<and> in_use (FILE_at s fp) \<noteq> 0 then Some (stream (FILE_at s fp)) else None)) \<and>
    (\<forall>c alt DMb v w. opens c \<longrightarrow>
      (case run_call host alt DMb v w c s of
         (File (Some fp), s') \<Rightarrow> FILE_object fp \<and> L fp = None \<and> (\<forall>gp. gp \<noteq> fp \<longrightarrow> handles s' gp = L gp)
       | (File None, s') \<Rightarrow> handles s' = L \<and> ((\<forall>i<FOPEN_MAX. L (Hosted i) \<noteq> None) \<longrightarrow> s' = s\<lparr>errno := EMFILE\<rparr>)
       | _ \<Rightarrow> False)) \<and>
    (\<forall>fp v. FILE_object fp \<longrightarrow> L fp = None \<longrightarrow> fclose host v fp s = (EOF, s\<lparr>errno := EBADF\<rparr>))"
proof -
  have l: "length (clib_files s) = FOPEN_MAX" and L: "L = handles s" using io_run_sound[OF assms] by simp_all
  have "case run_call host alt DMb v w c s of
         (File (Some fp), s') \<Rightarrow> FILE_object fp \<and> L fp = None \<and> (\<forall>gp. gp \<noteq> fp \<longrightarrow> handles s' gp = L gp)
       | (File None, s') \<Rightarrow> handles s' = L \<and> ((\<forall>i<FOPEN_MAX. L (Hosted i) \<noteq> None) \<longrightarrow> s' = s\<lparr>errno := EMFILE\<rparr>)
       | _ \<Rightarrow> False" if c: "opens c" for c alt DMb v w
  proof -
    obtain f s' where r: "run_call host alt DMb v w c s = (File f, s')" "opened (host_number host v c s) f s s'"
      "FOPEN_MAX \<le> free_FILE (clib_files s) \<longrightarrow> f = None \<and> s' = s\<lparr>errno := EMFILE\<rparr>"
      using open_calls[OF _ c] by (metis surj_pair)
    have full: "(\<forall>i<FOPEN_MAX. L (Hosted i) \<noteq> None) \<Longrightarrow> FOPEN_MAX \<le> free_FILE (clib_files s)"
    proof (rule ccontr)
      assume h: "\<forall>i<FOPEN_MAX. L (Hosted i) \<noteq> None" "\<not> FOPEN_MAX \<le> free_FILE (clib_files s)"
      then have "L (Hosted (free_FILE (clib_files s))) = None"
        using free_FILE(3)[of "clib_files s"] l by (simp add: L handles_def)
      then show False using h by simp
    qed
    show ?thesis using opened_handles[OF r(2) l] r full by (auto simp: L split: option.splits)
  qed
  moreover have "fclose host v fp s = (EOF, s\<lparr>errno := EBADF\<rparr>)" if "FILE_object fp" "L fp = None" for fp v
    using that by (auto simp: L handles_def fclose_def split: if_splits)
  ultimately show ?thesis using l by (simp add: L handles_def)
qed

text \<open>A run: \<open>fdopen\<close> takes the first entry, and its stream is open until it is closed.\<close>

theorem stream_table_sound_witness:
  "\<forall>v. io_run no_host (snd (fdopen no_host v 7 0 (io_init (\<lambda>_. 0) ()))) [Stdin \<mapsto> 0, Stdout \<mapsto> 1, Stderr \<mapsto> 2, Hosted 0 \<mapsto> 7] \<and>
    length (clib_files (snd (fdopen no_host v 7 0 (io_init (\<lambda>_. 0) ())))) = FOPEN_MAX"
proof
  fix v :: Hosted_clib_vars
  let ?s = "io_init (\<lambda>_. 0) ()"
  define s' where "s' = snd (fdopen no_host v 7 0 ?s)"
  have i: "free_FILE (clib_files ?s) = 0" by (simp add: io_init_def FOPEN_MAX_def numeral_eq_Suc)
  have c: "run_call no_host False 0 v v (Fdopen 7 0) ?s = (File (Some (Hosted 0)), s')"
    by (simp add: s'_def fdopen_def i clib_hosted_io_def no_host_def FOPEN_MAX_def)
  have "io_run no_host s' (ledger no_host v (Fdopen 7 0) (File (Some (Hosted 0))) ?s [Stdin \<mapsto> 0, Stdout \<mapsto> 1, Stderr \<mapsto> 2])"
    by (rule io_step[OF io_start _ c]) (simp add: pointer_of_def)
  then have r: "io_run no_host s' [Stdin \<mapsto> 0, Stdout \<mapsto> 1, Stderr \<mapsto> 2, Hosted 0 \<mapsto> 7]" 
    by (simp add: ledger_def host_number_def request_def no_host_def)
  show "io_run no_host (snd (fdopen no_host v 7 0 ?s)) [Stdin \<mapsto> 0, Stdout \<mapsto> 1, Stderr \<mapsto> 2, Hosted 0 \<mapsto> 7] \<and>
    length (clib_files (snd (fdopen no_host v 7 0 ?s))) = FOPEN_MAX"
    using r stream_table_sound[OF r] unfolding s'_def by blast
qed

section \<open>Without a host\<close>


text \<open>C32: Without a host every call that opens a stream, moves in it, flushes or closes it, reads or writes reports a
  failure: the files layer returns the null pointer, \<open>EOF\<close> or -1 with \<open>EBADF\<close> in \<open>errno\<close>, the formatted calls a negative count,
  the block calls a count of 0.  Five calls do not: \<open>remove\<close>, \<open>rename\<close>, \<open>close\<close> and \<open>mkstemp\<close> answer 0, and \<open>fdopen\<close> hands out a
  stream.\<close>

theorem no_host_reports:
  assumes "length (clib_files s) = FOPEN_MAX" "free_FILE (clib_files s) < FOPEN_MAX" "in_use (FILE_at s fp) \<noteq> 0"
  shows "fopen no_host v p q s = (None, s\<lparr>errno := EBADF\<rparr>) \<and>
    tmpfile no_host v s = (None, s\<lparr>errno := EBADF\<rparr>) \<and>
    freopen no_host v p q fp s = (None, s\<lparr>errno := EBADF\<rparr>) \<and>
    fst (fclose no_host v fp s) = EOF \<and> errno (snd (fclose no_host v fp s)) = EBADF \<and>
    fflush no_host v fp s = (EOF, s\<lparr>errno := EBADF\<rparr>) \<and>
    fseek no_host v fp k l s = (- 1, s\<lparr>errno := EBADF\<rparr>) \<and>
    ftell no_host v fp s = (- 1, s\<lparr>errno := EBADF\<rparr>) \<and>
    feof no_host v fp s = (- 1, s\<lparr>errno := EBADF\<rparr>) \<and>
    ferror no_host v fp s = (EBADF, s) \<and>
    fputc no_host v k fp s = (EOF, s) \<and> ungetc no_host v k fp s = (EOF, s) \<and> fgetc no_host v fp s = (EOF, s) \<and>
    fputs no_host v p fp s = (EOF, s) \<and> puts no_host v w p s = (EOF, s) \<and>
    fgets no_host v p k fp s = (0, s) \<and> gets no_host v p s = (0, s) \<and>
    fprintf no_host alt v fp p q s = (- 1, s) \<and> printf no_host alt v p q s = (- 1, s) \<and>
    sprintf no_host alt v l p q s = (- 1, s) \<and> snprintf no_host alt v l k p q s = (- 1, s) \<and>
    fscanf no_host alt v fp p q s = (EOF, s) \<and> scanf no_host alt v p q s = (EOF, s) \<and>
    sscanf no_host alt v l p q s = (- 1, s) \<and>
    fwrite no_host DMb v p k l fp s = (0, s) \<and> fread no_host DMb v p k l fp s = (0, s) \<and>
    fwrite_word no_host DMb v p k l q fp s = (0, s) \<and> fread_word no_host DMb v p k l q fp s = (0, s) \<and>
    remove no_host v p s = (0, s) \<and> rename no_host v p q s = (0, s) \<and> close no_host v p s = (0, s) \<and>
    mkstemp no_host v p s = (0, s) \<and>
    fst (fdopen no_host v p q s) = Some (Hosted (free_FILE (clib_files s))) \<and>
    FILE_at (snd (fdopen no_host v p q s)) (Hosted (free_FILE (clib_files s))) = \<lparr>stream = p, in_use = 1\<rparr>"
proof -
  have io: "clib_hosted_io no_host u t = (u, t)" for u and t :: "'a io"
    by (simp add: clib_hosted_io_def no_host_def)
  have e: "EBADF \<noteq> 0" "sint (- 1 :: u32) < 0" "sint EOF < 0" by (simp_all add: EBADF_def EOF_def)
  show ?thesis using assms e by (simp add: io_functions io Let_def not_le[symmetric])
qed


theorem no_host_reports_witness:
  "\<forall>v. fopen no_host v 0 0 (io_init (\<lambda>_. 0) ()) = (None, (io_init (\<lambda>_. 0) ())\<lparr>errno := EBADF\<rparr>) \<and>
    remove no_host v 0 (io_init (\<lambda>_. 0) ()) = (0, io_init (\<lambda>_. 0) ())"
proof
  fix v :: Hosted_clib_vars
  let ?s = "io_init (\<lambda>_. 0) ()"
  have "length (clib_files ?s) = FOPEN_MAX" "free_FILE (clib_files ?s) < FOPEN_MAX" "in_use (FILE_at ?s Stdout) \<noteq> 0"
    by (simp_all add: io_init_def FOPEN_MAX_def numeral_eq_Suc)
  from no_host_reports[OF this]
  show "fopen no_host v 0 0 ?s = (None, ?s\<lparr>errno := EBADF\<rparr>) \<and> remove no_host v 0 ?s = (0, ?s)" by blast
qed

end
