(* ===== verification/Startup.thy ===== *)
theory Startup
  imports CPrelude "HOL-Library.Monad_Syntax"
begin

text \<open>
  The life of a program, \<^verbatim>\<open>lib/runtime/src/crt0.c\<close>, \<^verbatim>\<open>src/atexit.c\<close> and the functions of \<^verbatim>\<open>include/stdlib.h\<close> that
  end it: \<open>_start\<close> registers \<open>_fini\<close>, runs the constructors, calls \<open>main\<close> and exits with its result; \<open>exit\<close> runs what is
  registered and stops the machine.  The functions of the program are code the library calls through pointers: the
  parameter \<open>call\<close>, which gives for the address of a function and its argument what it does to the whole state, the
  table of exit handlers included.  A call returns, stops the machine, or never ends (\<open>None\<close>).  The tables of constructors
  and destructors, which the linker lays out, are lists of addresses.
\<close>

section \<open>The code\<close>

record 'w proc =
  atexits :: "(u32 \<times> u32) list"
  atexit_nxt :: nat
  world :: 'w

datatype 'w outcome = Returned "'w proc" | Halted u32 "'w proc"

type_synonym 'w routine = "'w proc \<Rightarrow> 'w outcome option"

text \<open>Execution goes on unless the machine has stopped.\<close>

definition and_then :: "'w outcome option \<Rightarrow> 'w routine \<Rightarrow> 'w outcome option" where
  "and_then r k = r \<bind> (\<lambda>r. case r of Returned s \<Rightarrow> k s | Halted status s \<Rightarrow> Some (Halted status s))"

definition CAPACITY :: nat where
  "CAPACITY = 64"

definition proc_init :: "'w \<Rightarrow> 'w proc" where
  "proc_init w = \<lparr>atexits = replicate CAPACITY (0, 0), atexit_nxt = 0, world = w\<rparr>"

text \<open>The result and the state.\<close>

definition cxa_atexit :: "u32 \<Rightarrow> u32 \<Rightarrow> 'w proc \<Rightarrow> u32 \<times> 'w proc" where
  "cxa_atexit func arg s =
     (if atexit_nxt s = CAPACITY then (- 1, s)
      else (0, s\<lparr>atexits := (atexits s)[atexit_nxt s := (func, arg)], atexit_nxt := atexit_nxt s + 1\<rparr>))"

definition atexit :: "u32 \<Rightarrow> 'w proc \<Rightarrow> u32 \<times> 'w proc" where
  "atexit func s = cxa_atexit func 0 s"

partial_function (option) cxa_finalize :: "(u32 \<Rightarrow> u32 \<Rightarrow> 'w routine) \<Rightarrow> 'w proc \<Rightarrow> 'w outcome option" where
  "cxa_finalize call s =
     (if atexit_nxt s \<noteq> 0 then
        let s = s\<lparr>atexit_nxt := atexit_nxt s - 1\<rparr>; (func, arg) = atexits s ! atexit_nxt s
        in call func arg s \<bind> (\<lambda>r. case r of Returned s \<Rightarrow> cxa_finalize call s | Halted status s \<Rightarrow> Some (Halted status s))
      else Some (Returned s))"

text \<open>\<open>chess_exit\<close> stops the simulation; on hardware the loop behind it goes on for ever.\<close>

definition clib_exit :: "u32 \<Rightarrow> 'w routine" where
  "clib_exit status s = Some (Halted status s)"

definition exit_proc :: "(u32 \<Rightarrow> u32 \<Rightarrow> 'w routine) \<Rightarrow> u32 \<Rightarrow> 'w routine" where
  "exit_proc call status s = and_then (cxa_finalize call s) (clib_exit status)"

definition abort_proc :: "'w routine" where
  "abort_proc s = clib_exit 127 s"

definition Exit_proc :: "u32 \<Rightarrow> 'w routine" where
  "Exit_proc status s = clib_exit status s"

text \<open>\<open>for (t = &_ctors_end; t-- != &_ctors_start; )\<close>, with the index \<open>t\<close> of the pointer.\<close>

primrec init_loop :: "(u32 \<Rightarrow> u32 \<Rightarrow> 'w routine) \<Rightarrow> u32 list \<Rightarrow> nat \<Rightarrow> 'w routine" where
  "init_loop call ctors 0 s = Some (Returned s)"
| "init_loop call ctors (Suc t) s = and_then (call (ctors ! t) 0 s) (init_loop call ctors t)"

definition init_proc :: "(u32 \<Rightarrow> u32 \<Rightarrow> 'w routine) \<Rightarrow> u32 list \<Rightarrow> 'w routine" where
  "init_proc call ctors s = init_loop call ctors (length ctors) s"

text \<open>\<open>for (t = &_dtors_start; t != &_dtors_end; ++t)\<close>.\<close>

primrec fini_proc :: "(u32 \<Rightarrow> u32 \<Rightarrow> 'w routine) \<Rightarrow> u32 list \<Rightarrow> 'w routine" where
  "fini_proc call [] s = Some (Returned s)"
| "fini_proc call (t # dtors) s = and_then (call t 0 s) (fini_proc call dtors)"

text \<open>A call through a pointer reaches a function of the program or, at the address \<open>fini\<close>, the library's \<open>_fini\<close>.\<close>

definition dispatch :: "u32 \<Rightarrow> u32 list \<Rightarrow> (u32 \<Rightarrow> u32 \<Rightarrow> 'w routine) \<Rightarrow> u32 \<Rightarrow> u32 \<Rightarrow> 'w routine" where
  "dispatch fini dtors call func arg s = (if func = fini then fini_proc call dtors s else call func arg s)"

definition start_proc :: "u32 \<Rightarrow> u32 list \<Rightarrow> u32 list \<Rightarrow> (u32 \<Rightarrow> u32 \<Rightarrow> 'w routine) \<Rightarrow>
    ('w proc \<Rightarrow> (u32 \<times> 'w proc, u32 \<times> 'w proc) sum option) \<Rightarrow> 'w routine" where
  "start_proc fini ctors dtors call main s =
     (let s = snd (atexit fini s)
      in and_then (init_proc (dispatch fini dtors call) ctors s) (\<lambda>s.
           main s \<bind> (\<lambda>r. case r of
             Inl (result, s) \<Rightarrow> exit_proc (dispatch fini dtors call) result s
           | Inr (status, s) \<Rightarrow> Some (Halted status s))))"


section \<open>The table is a stack\<close>

definition handlers :: "'w proc \<Rightarrow> (u32 \<times> u32) list" where
  "handlers s = rev (take (atexit_nxt s) (atexits s))"

definition table_wf :: "'w proc \<Rightarrow> bool" where
  "table_wf s \<longleftrightarrow> length (atexits s) = CAPACITY \<and> atexit_nxt s \<le> CAPACITY"

lemma length_handlers: "table_wf s \<Longrightarrow> length (handlers s) = atexit_nxt s"
  by (simp add: table_wf_def handlers_def)

lemma cxa_atexit_stack:
  assumes "table_wf s"
  shows "table_wf (snd (cxa_atexit f a s))" "world (snd (cxa_atexit f a s)) = world s"
    "handlers (snd (cxa_atexit f a s)) = (if length (handlers s) < CAPACITY then (f, a) # handlers s else handlers s)"
    "fst (cxa_atexit f a s) = (if length (handlers s) < CAPACITY then 0 else - 1)"
  using assms unfolding length_handlers[OF assms]
  by (auto simp: table_wf_def cxa_atexit_def handlers_def take_Suc_conv_app_nth)

lemma pop_handler:
  assumes "table_wf s" "handlers s = (f, a) # hs"
  defines "s' \<equiv> s\<lparr>atexit_nxt := atexit_nxt s - 1\<rparr>"
  shows "atexit_nxt s \<noteq> 0" "atexits s' ! atexit_nxt s' = (f, a)" "table_wf s'" "handlers s' = hs" "world s' = world s"
proof -
  obtain n where n: "atexit_nxt s = Suc n" using assms(1,2) length_handlers by (metis length_Cons)
  then have "n < length (atexits s)" using assms(1) by (simp add: table_wf_def)
  then have "handlers s = atexits s ! n # rev (take n (atexits s))" by (simp add: handlers_def n take_Suc_conv_app_nth)
  then show "atexit_nxt s \<noteq> 0" "atexits s' ! atexit_nxt s' = (f, a)" "table_wf s'" "handlers s' = hs" "world s' = world s"
    using assms n by (simp_all add: s'_def handlers_def table_wf_def)
qed

text \<open>A function of the program that returns: it changes the world and registers handlers.\<close>

definition register :: "(u32 \<times> u32) list \<Rightarrow> 'w proc \<Rightarrow> 'w proc" where
  "register hs s = fold (\<lambda>(f, a) s. snd (cxa_atexit f a s)) hs s"

definition behaves :: "(u32 \<Rightarrow> u32 \<Rightarrow> 'w routine) \<Rightarrow> (u32 \<times> u32 \<Rightarrow> 'w \<Rightarrow> 'w) \<Rightarrow> (u32 \<times> u32 \<Rightarrow> (u32 \<times> u32) list) \<Rightarrow> bool" where
  "behaves call eff regs \<longleftrightarrow>
     (\<forall>f a s. table_wf s \<longrightarrow> (\<exists>s'. call f a s = Some (Returned s') \<and> table_wf s' \<and> world s' = eff (f, a) (world s) \<and>
        handlers s' = rev (take (CAPACITY - length (handlers s)) (regs (f, a))) @ handlers s))"

lemma register_stack:
  "table_wf s \<Longrightarrow> table_wf (register hs s) \<and> world (register hs s) = world s \<and>
    handlers (register hs s) = rev (take (CAPACITY - length (handlers s)) hs) @ handlers s"
proof (induction hs arbitrary: s)
  case (Cons h hs)
  obtain f a where h: "h = (f, a)" by fastforce
  note c = cxa_atexit_stack[OF Cons.prems, of f a]
  have r: "register (h # hs) s = register hs (snd (cxa_atexit f a s))" by (simp add: register_def h)
  have "CAPACITY - length (handlers s) = Suc (CAPACITY - Suc (length (handlers s)))" if "length (handlers s) < CAPACITY"
    using that by linarith
  then show ?case unfolding r using Cons.IH[OF c(1)] c(2,3) by (auto simp: h)
qed (simp add: register_def)

section \<open>The end of a program\<close>

text \<open>The calls that empty a stack of handlers, when a handler may put new ones on it.\<close>

inductive unwinds :: "(u32 \<times> u32 \<Rightarrow> (u32 \<times> u32) list) \<Rightarrow> (u32 \<times> u32) list \<Rightarrow> (u32 \<times> u32) list \<Rightarrow> bool" for regs where
  unwinds_nil: "unwinds regs [] []"
| unwinds_pop: "unwinds regs (rev (take (CAPACITY - length hs) (regs h)) @ hs) tr \<Longrightarrow> unwinds regs (h # hs) (h # tr)"

text \<open>The handlers a handler registers come before it: there is no endless chain of registrations.\<close>

definition registers :: "(u32 \<times> u32 \<Rightarrow> (u32 \<times> u32) list) \<Rightarrow> ((u32 \<times> u32) \<times> (u32 \<times> u32)) set" where
  "registers regs = {(g, h). g \<in> set (regs h)}"

lemma unwinds_push:
  assumes "\<And>g hs. g \<in> set gs \<Longrightarrow> \<exists>tr. unwinds regs hs tr \<Longrightarrow> \<exists>tr. unwinds regs (g # hs) tr" "\<exists>tr. unwinds regs hs tr"
  shows "\<exists>tr. unwinds regs (gs @ hs) tr"
  using assms by (induction gs) auto

text \<open>Then the calls are finitely many, whatever is on the stack.\<close>

lemma unwinds_total:
  assumes "wf (registers regs)"
  shows "\<exists>tr. unwinds regs hs tr"
proof -
  have one: "\<exists>tr. unwinds regs (h # hs) tr" if "\<exists>tr. unwinds regs hs tr" for h hs
    using assms that
  proof (induction h arbitrary: hs rule: wf_induct_rule)
    case (less h)
    have "\<exists>tr. unwinds regs (rev (take (CAPACITY - length hs) (regs h)) @ hs) tr"
    proof (rule unwinds_push[OF _ less.prems])
      fix g hs' assume "g \<in> set (rev (take (CAPACITY - length hs) (regs h)))" "\<exists>tr. unwinds regs hs' tr"
      moreover from this have "(g, h) \<in> registers regs" by (auto simp: registers_def dest: in_set_takeD)
      ultimately show "\<exists>tr. unwinds regs (g # hs') tr" by (rule_tac less.IH)
    qed
    then show ?case using unwinds.unwinds_pop by blast
  qed
  show ?thesis by (induction hs) (use one unwinds.unwinds_nil in blast)+
qed

lemma unwinds_unique: "unwinds regs hs tr \<Longrightarrow> unwinds regs hs tr' \<Longrightarrow> tr = tr'"
proof (induction arbitrary: tr' rule: unwinds.induct)
  case unwinds_nil
  then show ?case by (auto elim: unwinds.cases)
next
  case (unwinds_pop hs h tr)
  from unwinds_pop.prems obtain u where "tr' = h # u" "unwinds regs (rev (take (CAPACITY - length hs) (regs h)) @ hs) u"
    by (auto elim: unwinds.cases)
  then show ?case using unwinds_pop.IH by blast
qed

lemma finalize_unwinds:
  assumes "unwinds regs hs tr" "behaves call eff regs" "table_wf s" "handlers s = hs"
  shows "\<exists>s'. cxa_finalize call s = Some (Returned s') \<and> world s' = fold eff tr (world s)"
  using assms
proof (induction arbitrary: s rule: unwinds.induct)
  case unwinds_nil
  then have "atexit_nxt s = 0" using length_handlers[of s] by simp
  then show ?case by (subst cxa_finalize.simps) simp
next
  case (unwinds_pop hs h tr)
  obtain f a where h: "h = (f, a)" by fastforce
  define s0 where "s0 = s\<lparr>atexit_nxt := atexit_nxt s - 1\<rparr>"
  note p = pop_handler[OF unwinds_pop.prems(2) unwinds_pop.prems(3)[unfolded h], folded s0_def]
  obtain s1 where s1: "call f a s0 = Some (Returned s1)" "table_wf s1" "world s1 = eff (f, a) (world s0)"
    "handlers s1 = rev (take (CAPACITY - length (handlers s0)) (regs (f, a))) @ handlers s0"
    using unwinds_pop.prems(1) p(3) unfolding behaves_def by blast
  have "cxa_finalize call s = cxa_finalize call s1"
    using p(1) p(2)[unfolded s0_def] s1(1)[unfolded s0_def] by (subst cxa_finalize.simps) (simp add: Let_def)
  moreover have "\<exists>s'. cxa_finalize call s1 = Some (Returned s') \<and> world s' = fold eff tr (world s1)"
    by (rule unwinds_pop.IH[OF unwinds_pop.prems(1) s1(2)]) (simp add: s1(4) p(4) h)
  ultimately show ?case using s1(3) p(5) by (simp add: h)
qed


text \<open>And the other way round: when the loop over the table ends, the calls were finitely many.\<close>

lemma finalize_ends:
  assumes "cxa_finalize call s = Some r" "behaves call eff regs" "table_wf s"
  shows "\<exists>tr. unwinds regs (handlers s) tr"
proof -
  have "behaves call eff regs \<longrightarrow> table_wf s \<longrightarrow> (\<exists>tr. unwinds regs (handlers s) tr)"
  proof (rule cxa_finalize.raw_induct[OF _ assms(1), where P = "\<lambda>call s r. behaves call eff regs \<longrightarrow> table_wf s \<longrightarrow> (\<exists>tr. unwinds regs (handlers s) tr)"], intro impI)
    fix fin :: "(u32 \<Rightarrow> u32 \<Rightarrow> 'a routine) \<Rightarrow> 'a proc \<Rightarrow> 'a outcome option" and call :: "u32 \<Rightarrow> u32 \<Rightarrow> 'a routine"
      and s :: "'a proc" and r
    assume IH: "\<And>call s r. fin call s = Some r \<Longrightarrow> behaves call eff regs \<longrightarrow> table_wf s \<longrightarrow> (\<exists>tr. unwinds regs (handlers s) tr)"
      and run: "(if atexit_nxt s \<noteq> 0 then
        let s = s\<lparr>atexit_nxt := atexit_nxt s - 1\<rparr>; (func, arg) = atexits s ! atexit_nxt s
        in call func arg s \<bind> (\<lambda>r. case r of Returned s \<Rightarrow> fin call s | Halted status s \<Rightarrow> Some (Halted status s))
        else Some (Returned s)) = Some r"
      and b: "behaves call eff regs" and wf: "table_wf s"
    show "\<exists>tr. unwinds regs (handlers s) tr"
    proof (cases "handlers s")
      case Nil
      then show ?thesis using unwinds.unwinds_nil by auto
    next
      case (Cons h hs)
      obtain f a where h: "h = (f, a)" by fastforce
      define s0 where "s0 = s\<lparr>atexit_nxt := atexit_nxt s - 1\<rparr>"
      note p = pop_handler[OF wf Cons[unfolded h], folded s0_def]
      obtain s1 where s1: "call f a s0 = Some (Returned s1)" "table_wf s1"
        "handlers s1 = rev (take (CAPACITY - length (handlers s0)) (regs (f, a))) @ handlers s0"
        using b p(3) unfolding behaves_def by blast
      have "fin call s1 = Some r"
        using run p(1) p(2)[unfolded s0_def] s1(1)[unfolded s0_def] by (simp add: Let_def)
      from IH[OF this] obtain tr where "unwinds regs (handlers s1) tr" using b s1(2) by blast
      then show ?thesis unfolding Cons h s1(3) p(4) by (intro exI[of _ "(f, a) # tr"] unwinds.unwinds_pop)
    qed
  qed
  then show ?thesis using assms(2,3) by blast
qed

text \<open>Calling a list of functions in turn.\<close>

definition thunks :: "u32 list \<Rightarrow> (u32 \<times> u32) list" where
  "thunks fs = map (\<lambda>f. (f, 0)) fs"

definition kept :: "(u32 \<times> u32 \<Rightarrow> (u32 \<times> u32) list) \<Rightarrow> u32 list \<Rightarrow> nat \<Rightarrow> (u32 \<times> u32) list" where
  "kept regs fs n = take n (concat (map regs (thunks fs)))"

lemma fini_calls:
  assumes "behaves call eff regs" "table_wf s"
  shows "\<exists>s'. fini_proc call fs s = Some (Returned s') \<and> table_wf s' \<and> world s' = fold eff (thunks fs) (world s) \<and>
    handlers s' = rev (kept regs fs (CAPACITY - length (handlers s))) @ handlers s"
  using assms(2)
proof (induction fs arbitrary: s)
  case (Cons f fs)
  obtain s1 where s1: "call f 0 s = Some (Returned s1)" "table_wf s1" "world s1 = eff (f, 0) (world s)"
    "handlers s1 = rev (take (CAPACITY - length (handlers s)) (regs (f, 0))) @ handlers s"
    using assms(1) Cons.prems unfolding behaves_def by blast
  obtain s2 where s2: "fini_proc call fs s1 = Some (Returned s2)" "table_wf s2" "world s2 = fold eff (thunks fs) (world s1)"
    "handlers s2 = rev (kept regs fs (CAPACITY - length (handlers s1))) @ handlers s1" using Cons.IH[OF s1(2)] by blast
  have "CAPACITY - length (handlers s1) = CAPACITY - length (handlers s) - length (regs (f, 0))"
    unfolding s1(4) by (simp add: min_def add.commute)
  then have "handlers s2 = rev (kept regs (f # fs) (CAPACITY - length (handlers s))) @ handlers s"
    unfolding s2(4) unfolding s1(4) by (simp add: kept_def thunks_def)
  then show ?case using s1 s2 by (simp add: and_then_def thunks_def)
qed (simp add: thunks_def kept_def)

lemma init_loop_reversed: "t \<le> length fs \<Longrightarrow> init_loop call fs t = fini_proc call (rev (take t fs))"
proof (induction t)
  case (Suc t)
  show ?case by (rule ext) (use Suc in \<open>simp add: take_Suc_conv_app_nth\<close>)
qed (simp add: fun_eq_iff)

text \<open>What a call through a pointer does when \<open>_fini\<close> is at the address \<open>fini\<close>.\<close>

definition all_effects :: "u32 \<Rightarrow> u32 list \<Rightarrow> (u32 \<times> u32 \<Rightarrow> 'w \<Rightarrow> 'w) \<Rightarrow> u32 \<times> u32 \<Rightarrow> 'w \<Rightarrow> 'w" where
  "all_effects fini dtors eff h = (if fst h = fini then fold eff (thunks dtors) else eff h)"

definition all_regs :: "u32 \<Rightarrow> u32 list \<Rightarrow> (u32 \<times> u32 \<Rightarrow> (u32 \<times> u32) list) \<Rightarrow> u32 \<times> u32 \<Rightarrow> (u32 \<times> u32) list" where
  "all_regs fini dtors regs h = (if fst h = fini then concat (map regs (thunks dtors)) else regs h)"

lemma dispatch_behaves:
  assumes "behaves call eff regs"
  shows "behaves (dispatch fini dtors call) (all_effects fini dtors eff) (all_regs fini dtors regs)"
  unfolding behaves_def
proof (intro allI impI)
  fix f a and s :: "'a proc"
  assume wf: "table_wf s"
  show "\<exists>s'. dispatch fini dtors call f a s = Some (Returned s') \<and> table_wf s' \<and>
      world s' = all_effects fini dtors eff (f, a) (world s) \<and>
      handlers s' = rev (take (CAPACITY - length (handlers s)) (all_regs fini dtors regs (f, a))) @ handlers s"
    using fini_calls[OF assms wf, of dtors] assms wf
    by (cases "f = fini") (auto simp: dispatch_def all_effects_def all_regs_def kept_def behaves_def)
qed

lemma proc_init_stack: "table_wf (proc_init w)" "handlers (proc_init w) = []" "world (proc_init w) = w"
  by (simp_all add: proc_init_def table_wf_def handlers_def)

text \<open>C26: When every function of a program returns, a run from \<open>_start\<close> calls the constructors in the reverse of their
  order in the table, then \<open>main\<close>, then the registered handlers, the last one registered first, each once, those a
  handler registers on the way before the older ones, and last the destructors in the order of their table; the machine
  stops with the result of \<open>main\<close>.  The table holds 64 entries with the one \<open>_start\<close> takes; what is registered beyond
  them is dropped.  The run ends in this way whenever no handler registers itself again, directly or through others, and
  it ends only when the calls of the handlers are finitely many: otherwise \<open>exit\<close> never gets to stop the machine.\<close>

theorem program_lifecycle:
  fixes dtors :: "u32 list" and w :: 'w
  assumes "behaves call eff regs" "fini \<notin> set ctors"
    and main: "\<And>s. table_wf s \<Longrightarrow> \<exists>s'. main s = Some (Inl (result, s')) \<and> table_wf s' \<and> world s' = main_eff (world s) \<and>
        handlers s' = rev (take (CAPACITY - length (handlers s)) main_regs) @ handlers s"
  defines "R \<equiv> all_regs fini dtors regs"
    and "stack \<equiv> rev (take 63 (concat (map regs (thunks (rev ctors))) @ main_regs)) @ [(fini, 0)]"
    and "run \<equiv> start_proc fini ctors dtors call main (proc_init w)"
  shows "(wf (registers R) \<longrightarrow> run \<noteq> None) \<and> (run \<noteq> None \<longleftrightarrow> (\<exists>tr. unwinds R stack tr)) \<and>
    (\<forall>tr. unwinds R stack tr \<longrightarrow> (\<exists>s'. run = Some (Halted result s') \<and>
       world s' = fold (all_effects fini dtors eff) tr (main_eff (fold eff (thunks (rev ctors)) w))))"
proof -
  define s0 where "s0 = snd (atexit fini (proc_init w))"
  have s0: "table_wf s0" "world s0 = w" "handlers s0 = [(fini, 0)]"
    using cxa_atexit_stack[OF proc_init_stack(1), of fini 0 w] by (simp_all add: s0_def atexit_def proc_init_stack CAPACITY_def)
  have same: "fold (all_effects fini dtors eff) (thunks (rev ctors)) w = fold eff (thunks (rev ctors)) w"
    by (rule fold_cong) (use assms(2) in \<open>auto simp: thunks_def all_effects_def\<close>)
  have "map (all_regs fini dtors regs) (thunks (rev ctors)) = map regs (thunks (rev ctors))"
    by (rule map_cong) (use assms(2) in \<open>auto simp: thunks_def all_regs_def\<close>)
  then have kept: "kept (all_regs fini dtors regs) (rev ctors) n = take n (concat (map regs (thunks (rev ctors))))" for n
    by (simp only: kept_def)
  obtain s1 where s1: "init_proc (dispatch fini dtors call) ctors s0 = Some (Returned s1)" "table_wf s1"
    "world s1 = fold eff (thunks (rev ctors)) w"
    "handlers s1 = rev (take 63 (concat (map regs (thunks (rev ctors))))) @ [(fini, 0)]"
    using fini_calls[OF dispatch_behaves[OF assms(1)] s0(1), of fini dtors "rev ctors"]
    by (auto simp: init_proc_def init_loop_reversed s0 same kept CAPACITY_def)
  obtain s2 where s2: "main s1 = Some (Inl (result, s2))" "table_wf s2" "world s2 = main_eff (world s1)"
    "handlers s2 = rev (take (CAPACITY - length (handlers s1)) main_regs) @ handlers s1" using main[OF s1(2)] by blast
  have "handlers s2 = rev (take 63 (concat (map regs (thunks (rev ctors))) @ main_regs)) @ [(fini, 0)]"
    unfolding s2(4) unfolding s1(4) by (simp add: CAPACITY_def min_def)
  then have h2: "handlers s2 = stack" by (simp only: stack_def)
  have run: "run = and_then (cxa_finalize (dispatch fini dtors call) s2) (clib_exit result)"
    using s0_def s1(1) s2(1) by (simp add: run_def start_proc_def and_then_def exit_proc_def Let_def)
  note fin = finalize_unwinds[OF _ dispatch_behaves[OF assms(1), of fini dtors] s2(2) h2, folded R_def]
  have ends: "\<exists>s'. run = Some (Halted result s') \<and>
      world s' = fold (all_effects fini dtors eff) tr (main_eff (fold eff (thunks (rev ctors)) w))"
    if "unwinds R stack tr" for tr
    using fin[OF that] s1(3) s2(3) by (auto simp: run and_then_def clib_exit_def)
  have "\<exists>tr. unwinds R stack tr" if "run \<noteq> None"
  proof -
    have "run = None" if "cxa_finalize (dispatch fini dtors call) s2 = None" unfolding run that by (simp add: and_then_def)
    then obtain r where "cxa_finalize (dispatch fini dtors call) s2 = Some r" using \<open>run \<noteq> None\<close> by blast
    from finalize_ends[OF this dispatch_behaves[OF assms(1)] s2(2)] show ?thesis by (simp add: h2 R_def)
  qed
  then have iff: "run \<noteq> None \<longleftrightarrow> (\<exists>tr. unwinds R stack tr)" using ends by auto
  moreover have "wf (registers R) \<longrightarrow> run \<noteq> None" unfolding iff using unwinds_total by blast
  ultimately show ?thesis using ends by blast
qed


text \<open>A program that writes down what is called: constructors 10 and 11, of which 10 registers the handler 20, which registers
  21 when it runs; \<open>main\<close> is 1 and registers 30 more often than the table has room; the destructor is 40 and \<open>_fini\<close> is
  at 99.  With \<open>loop\<close> the handler 21 registers 20 again.\<close>

definition example_regs :: "bool \<Rightarrow> u32 \<times> u32 \<Rightarrow> (u32 \<times> u32) list" where
  "example_regs loop h =
     (if fst h = 10 then [(20, 0)] else if fst h = 20 then [(21, 0)]
      else if fst h = 1 then replicate 70 (30, 0) else if fst h = 21 \<and> loop then [(20, 0)] else [])"

definition example_call :: "bool \<Rightarrow> u32 \<Rightarrow> u32 \<Rightarrow> u32 list routine" where
  "example_call loop f a s = Some (Returned (register (example_regs loop (f, a)) (s\<lparr>world := world s @ [f]\<rparr>)))"

definition example_main :: "u32 list proc \<Rightarrow> (u32 \<times> u32 list proc, u32 \<times> u32 list proc) sum option" where
  "example_main s = Some (Inl (7, register (example_regs False (1, 0)) (s\<lparr>world := world s @ [1]\<rparr>)))"

lemma register_world:
  "table_wf s \<Longrightarrow> table_wf (register hs (s\<lparr>world := w\<rparr>)) \<and> world (register hs (s\<lparr>world := w\<rparr>)) = w \<and>
    handlers (register hs (s\<lparr>world := w\<rparr>)) = rev (take (CAPACITY - length (handlers s)) hs) @ handlers s"
  using register_stack[of "s\<lparr>world := w\<rparr>" hs] by (simp add: table_wf_def handlers_def)

lemma example_behaves: "behaves (example_call loop) (\<lambda>h w. w @ [fst h]) (example_regs loop)"
  unfolding behaves_def example_call_def using register_world by fastforce

lemma example_main_behaves:
  "table_wf s \<Longrightarrow> \<exists>s'. example_main s = Some (Inl (7, s')) \<and> table_wf s' \<and> world s' = world s @ [1] \<and>
    handlers s' = rev (take (CAPACITY - length (handlers s)) (replicate 70 (30, 0))) @ handlers s"
  using register_world[of s "example_regs False (1, 0)" "world s @ [1]"] by (simp add: example_main_def example_regs_def)

definition example_stack :: "(u32 \<times> u32) list" where
  "example_stack = replicate 62 (30, 0) @ [(20, 0), (99, 0)]"

lemma example_stack_eq:
  "rev (take 63 (concat (map (example_regs loop) (thunks (rev [10, 11]))) @ replicate 70 (30, 0))) @ [(99, 0)] = example_stack"
proof -
  have "concat (map (example_regs loop) (thunks (rev [10, 11]))) = [(20, 0)]" by (simp add: thunks_def example_regs_def)
  moreover have "take 63 ((20, 0) # replicate 70 (30, 0)) = (20 :: u32, 0 :: u32) # replicate 62 (30, 0)" by simp
  ultimately show ?thesis by (simp only: append.simps rev.simps rev_replicate example_stack_def append_assoc)
qed

lemma unwinds_replicate: "regs h = [] \<Longrightarrow> unwinds regs hs tr \<Longrightarrow> unwinds regs (replicate n h @ hs) (replicate n h @ tr)"
  by (induction n) (auto intro: unwinds.intros)

lemma example_unwinds:
  "unwinds (all_regs 99 [40] (example_regs False)) example_stack (replicate 62 (30, 0) @ [(20, 0), (21, 0), (99, 0)])"
  unfolding example_stack_def
proof (rule unwinds_replicate)
  let ?R = "all_regs 99 [40] (example_regs False)"
  show "?R (30, 0) = []" by (simp add: all_regs_def example_regs_def)
  have r: "?R (20, 0) = [(21, 0)]" "?R (21, 0) = []" "?R (99, 0) = []"
    by (simp_all add: all_regs_def example_regs_def thunks_def)
  have "unwinds ?R [(99, 0)] [(99, 0)]" "unwinds ?R [(21, 0), (99, 0)] [(21, 0), (99, 0)]"
    by (auto intro!: unwinds.intros simp: r)
  then show "unwinds ?R [(20, 0), (99, 0)] [(20, 0), (21, 0), (99, 0)]"
    using unwinds.unwinds_pop[of ?R "[(99, 0)]" "(20, 0)"] by (simp add: r CAPACITY_def)
qed

lemma example_endless: "\<not> unwinds (all_regs 99 [40] (example_regs True)) example_stack tr"
proof -
  let ?R = "all_regs 99 [40] (example_regs True)"
  have r: "?R (20, 0) = [(21, 0)]" "?R (21, 0) = [(20, 0)]" "?R (30, 0) = []"
    by (simp_all add: all_regs_def example_regs_def)
  have loop: "unwinds ?R hs tr \<Longrightarrow> hs \<noteq> [(20, 0), (99, 0)] \<and> hs \<noteq> [(21, 0), (99, 0)]" for hs tr
    by (induction rule: unwinds.induct) (auto simp: r CAPACITY_def)
  have "unwinds ?R (replicate n (30, 0) @ hs) tr \<Longrightarrow> \<exists>tr. unwinds ?R hs tr" for n hs tr
  proof (induction n arbitrary: tr)
    case (Suc n)
    from Suc.prems have "unwinds ?R ((30, 0) # replicate n (30, 0) @ hs) tr" by simp
    then show ?case by (cases rule: unwinds.cases) (use Suc.IH r in auto)
  qed auto
  then show ?thesis using loop unfolding example_stack_def by blast
qed

theorem program_lifecycle_witness:
  "(\<exists>s'. start_proc 99 [10, 11] [40] (example_call False) example_main (proc_init []) = Some (Halted 7 s') \<and>
     world s' = [11, 10, 1] @ replicate 62 30 @ [20, 21, 40]) \<and>
   start_proc 99 [10, 11] [40] (example_call True) example_main (proc_init []) = None"
proof
  have c: "99 \<notin> set [10, 11 :: u32]" by simp
  note L = program_lifecycle[where dtors = "[40]" and w = "[]", OF example_behaves c example_main_behaves, unfolded example_stack_eq]
  have f: "fold (all_effects 99 [40] (\<lambda>h w. w @ [fst h])) (replicate n (30, 0)) w = w @ replicate n 30" for n w
    by (induction n arbitrary: w) (simp_all add: all_effects_def)
  have "fold (all_effects 99 [40] (\<lambda>h w. w @ [fst h])) (replicate 62 (30, 0) @ [(20, 0), (21, 0), (99, 0)]) [11, 10, 1]
      = [11, 10, 1] @ replicate 62 30 @ [20, 21, 40]"
    unfolding fold_append comp_def f by (simp add: all_effects_def thunks_def)
  moreover have run: "\<exists>s'. start_proc 99 [10, 11] [40] (example_call False) example_main (proc_init []) = Some (Halted 7 s') \<and>
     world s' = fold (all_effects 99 [40] (\<lambda>h w. w @ [fst h])) (replicate 62 (30, 0) @ [(20, 0), (21, 0), (99, 0)])
       (fold (\<lambda>h w. w @ [fst h]) (thunks (rev [10, 11])) [] @ [1])"
    by (rule L[of False, THEN conjunct2, THEN conjunct2, rule_format, OF _ example_unwinds])
  moreover have "fold (\<lambda>h w. w @ [fst h]) (thunks (rev [10, 11])) [] @ [1] = [11, 10, 1]" by (simp add: thunks_def)
  ultimately show "\<exists>s'. start_proc 99 [10, 11] [40] (example_call False) example_main (proc_init []) = Some (Halted 7 s') \<and>
     world s' = [11, 10, 1] @ replicate 62 30 @ [20, 21, 40]"
    using run by (simp only:)
  show "start_proc 99 [10, 11] [40] (example_call True) example_main (proc_init []) = None"
    using L[of True] example_endless by blast
qed

end
