(* ===== verification/Rand.thy ===== *)
theory Rand
  imports CPrelude
begin

text \<open>
  The pseudo-random numbers of \<^verbatim>\<open>lib/runtime/src/rand.c\<close>.  The variable \<open>next\<close> is passed and returned.  The generator is
  a linear congruence modulo \<open>2\<^sup>3\<^sup>2\<close> whose multiplier is 1 modulo 4 and whose increment is odd, so it visits every word.
\<close>

definition rand_next :: u32 where
  "rand_next = 1"

text \<open>The result and the new \<open>next\<close>.\<close>

definition rand :: "u32 \<Rightarrow> u32 \<times> u32" where
  "rand nxt = (let nxt = nxt * 1103515245 + 12345 in ((nxt div 65536) mod 32768, nxt))"

definition srand :: "u32 \<Rightarrow> u32" where
  "srand seed = seed"

section \<open>The period\<close>

text \<open>\<open>1 + a + \<dots> + a\<^sup>n\<^sup>-\<^sup>1\<close>.\<close>

fun geometric :: "nat \<Rightarrow> nat \<Rightarrow> nat" where
  "geometric a 0 = 0"
| "geometric a (Suc n) = 1 + a * geometric a n"

lemma geometric_add: "geometric a (m + n) = geometric a m + a ^ m * geometric a n"
  by (induction m) (simp_all add: algebra_simps)

lemma geometric_parity: "odd a \<Longrightarrow> even (geometric a n) \<longleftrightarrow> even n"
  by (induction n) simp_all

lemma geometric_dvd:
  assumes "a mod 4 = 1"
  shows "2 ^ k dvd geometric a n \<longleftrightarrow> 2 ^ k dvd n"
proof (induction k arbitrary: n)
  case (Suc k)
  have odd: "odd a" using assms by presburger
  show ?case
  proof (cases "even n")
    case False
    then show ?thesis using geometric_parity[OF odd, of n] dvd_trans[of 2 "2 ^ Suc k"] by auto
  next
    case True
    then obtain m where n: "n = m + m" by (metis evenE mult_2)
    have "a ^ m mod 4 = 1" using power_mod[of a 4 m] assms by simp
    then have "a ^ m = 4 * (a ^ m div 4) + 1" by (metis mult_div_mod_eq)
    then have r: "1 + a ^ m = 2 * (2 * (a ^ m div 4) + 1)" "odd (2 * (a ^ m div 4) + 1)" by simp_all
    define r where "r = 2 * (a ^ m div 4) + 1"
    note r = r[folded r_def]
    have "geometric a n = geometric a m * (1 + a ^ m)" by (simp add: n geometric_add algebra_simps)
    then have "geometric a n = 2 * (geometric a m * r)" unfolding r(1) by simp
    then have "2 ^ Suc k dvd geometric a n \<longleftrightarrow> 2 ^ k dvd geometric a m * r" by simp
    also have "\<dots> \<longleftrightarrow> 2 ^ k dvd geometric a m"
      using r(2) by (metis coprime_dvd_mult_left_iff coprime_power_left_iff coprime_left_2_iff_odd)
    also have "\<dots> \<longleftrightarrow> 2 ^ Suc k dvd n" unfolding Suc.IH by (simp add: n flip: mult_2)
    finally show ?thesis .
  qed
qed simp


text \<open>The state after \<open>n\<close> calls.\<close>

definition rand_state :: "nat \<Rightarrow> u32 \<Rightarrow> u32" where
  "rand_state n seed = ((\<lambda>nxt. snd (rand nxt)) ^^ n) seed"

lemma rand_state_value:
  "rand_state n seed = of_nat (1103515245 ^ n) * seed + of_nat (12345 * geometric 1103515245 n)"
  by (induction n) (simp_all add: rand_state_def rand_def Let_def algebra_simps)

lemma geometric_power_Suc: "Suc b ^ n = 1 + b * geometric (Suc b) n"
  by (induction n) (simp_all add: algebra_simps)

lemma geometric_power: "1 \<le> a \<Longrightarrow> a ^ n = 1 + (a - 1) * geometric a n"
  using geometric_power_Suc[of "a - 1" n] by simp

lemma unit_multiple:
  fixes x :: u32
  assumes "odd a" "of_nat a * x = 0"
  shows "x = 0"
proof -
  have "2 ^ 32 dvd a * unat x"
  proof -
    have "of_nat (a * unat x) = (0 :: u32)" using assms(2) by simp
    then show ?thesis by (simp only: word_of_nat_eq_0_iff) simp
  qed
  then have "2 ^ 32 dvd unat x" using assms(1) by (metis coprime_dvd_mult_right_iff coprime_power_left_iff coprime_left_2_iff_odd)
  moreover have "unat x < 2 ^ 32" using unsigned_less[of x, where 'a = nat] by simp
  ultimately have "unat x = 0" using nat_dvd_not_less by blast
  then show ?thesis by (simp add: unat_eq_zero)
qed

lemma rand_state_shift:
  "rand_state (m + d) seed = rand_state m seed \<longleftrightarrow> 2 ^ 32 dvd d"
proof -
  define a where "a = (1103515245 :: nat)"
  define g where "g = a ^ m * ((a - 1) * unat seed + 12345)"
  have am: "a mod 4 = 1" by (simp add: a_def)
  have "odd a" by (simp add: a_def)
  then have og: "odd g" by (simp add: g_def a_def)
  have "a ^ (m + d) * unat seed + 12345 * geometric a (m + d) =
      (a ^ m * unat seed + 12345 * geometric a m) + g * geometric a d"
  proof -
    have "1 \<le> a" by (simp add: a_def)
    from geometric_power[OF this, of d] have p: "a ^ d = 1 + (a - 1) * geometric a d" .
    show ?thesis unfolding power_add geometric_add g_def p by (simp add: algebra_simps)
  qed
  then have "(of_nat (a ^ (m + d) * unat seed + 12345 * geometric a (m + d)) :: u32) =
      of_nat (a ^ m * unat seed + 12345 * geometric a m) + of_nat g * of_nat (geometric a d)"
    by (simp only: of_nat_add of_nat_mult)
  then have "rand_state (m + d) seed = rand_state m seed + of_nat g * of_nat (geometric a d)"
    unfolding rand_state_value by (simp add: a_def)
  then have "rand_state (m + d) seed = rand_state m seed \<longleftrightarrow> of_nat g * (of_nat (geometric a d) :: u32) = 0" by simp
  also have "\<dots> \<longleftrightarrow> (of_nat (geometric a d) :: u32) = 0" using unit_multiple[OF og] by auto
  also have "\<dots> \<longleftrightarrow> 2 ^ 32 dvd geometric a d" by (simp only: word_of_nat_eq_0_iff) simp
  also have "\<dots> \<longleftrightarrow> 2 ^ 32 dvd d" by (rule geometric_dvd[OF am])
  finally show ?thesis .
qed

text \<open>C33: From every seed the generator has the full period: after \<open>m\<close> and \<open>n\<close> calls \<open>next\<close> is the same word exactly when
  \<open>m\<close> and \<open>n\<close> agree modulo \<open>2\<^sup>3\<^sup>2\<close>, so each word comes up once in \<open>2\<^sup>3\<^sup>2\<close> calls; the numbers returned lie between 0 and
  \<open>RAND_MAX\<close> and are bits 16 to 30 of \<open>next\<close>.\<close>

theorem rand_full_period:
  "(rand_state m (srand seed) = rand_state n (srand seed) \<longleftrightarrow> m mod 2 ^ 32 = n mod 2 ^ 32) \<and>
   bij_betw (\<lambda>i. rand_state i (srand seed)) {..<2 ^ 32} UNIV \<and>
   unat (fst (rand x)) = unat (snd (rand x)) div 2 ^ 16 mod 2 ^ 15 \<and> unat (fst (rand x)) \<le> 32767"
proof -
  have eq: "rand_state i seed = rand_state j seed \<longleftrightarrow> i mod 2 ^ 32 = j mod 2 ^ 32" for i j
  proof (induction i j rule: linorder_wlog)
    case (le i j)
    then obtain d where d: "j = i + d" using le_Suc_ex by blast
    have "i mod 2 ^ 32 = (i + d) mod 2 ^ 32 \<longleftrightarrow> 2 ^ 32 dvd d" using mod_eq_dvd_iff_nat[of i "i + d" "2 ^ 32"] by auto
    then show ?case unfolding d using rand_state_shift[of i d seed] by metis
  qed metis
  have inj: "inj_on (\<lambda>i. rand_state i seed) {..<2 ^ 32}"
  proof (rule inj_onI)
    fix i j :: nat assume "i \<in> {..<2 ^ 32}" "j \<in> {..<2 ^ 32}" "rand_state i seed = rand_state j seed"
    then show "i = j" using eq[of i j] by (simp only: lessThan_iff mod_less)
  qed
  have "card ((\<lambda>i. rand_state i seed) ` {..<2 ^ 32}) = card (UNIV :: u32 set)"
    by (subst card_image[OF inj]) (simp add: card_word)
  then have "(\<lambda>i. rand_state i seed) ` {..<2 ^ 32} = (UNIV :: u32 set)"
    by (intro card_subset_eq) simp_all
  with inj have "bij_betw (\<lambda>i. rand_state i seed) {..<2 ^ 32} UNIV" by (simp only: bij_betw_def)
  moreover have v: "unat (fst (rand x)) = unat (snd (rand x)) div 2 ^ 16 mod 2 ^ 15"
    by (simp add: rand_def Let_def unat_div unat_mod)
  moreover have "unat (fst (rand x)) \<le> 32767" unfolding v using mod_less_divisor[of 32768 "unat (snd (rand x)) div 65536"] by simp
  ultimately show ?thesis using eq by (simp add: srand_def)
qed

end
