(* ===== verification/JpegTables.thy ===== *)
theory JpegTables
  imports CPrelude
begin

text \<open>
  The tables of the JPEG encoder (\<^verbatim>\<open>examples/jpeg/tables.c\<close> and \<^verbatim>\<open>coder.h\<close>): quantization factors, the zigzag
  order, the Huffman codes as the encoder uses them, and the segments of the file header, which describe the same
  codes to a decoder by the number of codes of each length and the symbols in order of their codes.
\<close>

section \<open>Quantization and zigzag order\<close>

definition quantY :: "int list" where
  "quantY = [
     512, 492, 626, 435, 341, 260, 291, 478,
     492, 354, 322, 251, 227, 129, 181, 382,
     447, 322, 299, 222, 156, 137, 165, 405,
     497, 279, 242, 197, 133, 100, 160, 407,
     455, 268, 164, 124, 120, 94, 145, 380,
     434, 208, 142, 138, 127, 127, 168, 410,
     302, 170, 148, 146, 145, 157, 233, 537,
     412, 232, 236, 257, 265, 377, 527, 1076]"

definition quantC :: "int list" where
  "quantC = [
     455, 328, 261, 145, 81, 104, 151, 296,
     328, 193, 173, 76, 59, 75, 109, 214,
     261, 173, 85, 53, 62, 79, 115, 227,
     145, 76, 53, 59, 69, 88, 128, 252,
     81, 59, 62, 69, 81, 104, 151, 296,
     104, 75, 79, 88, 104, 132, 192, 377,
     151, 109, 115, 128, 151, 192, 279, 548,
     296, 214, 227, 252, 296, 377, 548, 1076]"

definition zigzag :: "nat list" where
  "zigzag = [
     0, 1, 5, 6, 14, 15, 27, 28,
     2, 4, 7, 13, 16, 26, 29, 42,
     3, 8, 12, 17, 25, 30, 41, 43,
     9, 11, 18, 24, 31, 40, 44, 53,
     10, 19, 23, 32, 39, 45, 52, 54,
     20, 22, 33, 38, 46, 51, 55, 60,
     21, 34, 37, 47, 50, 56, 59, 61,
     35, 36, 48, 49, 57, 58, 62, 63]"

section \<open>Huffman codes\<close>

text \<open>A code is the low \<open>bs_length\<close> bits of \<open>bs_value\<close>; an unused entry has length 0.\<close>

record bitstring =
  bs_length :: u8
  bs_value :: u16

definition codes :: "(u8 \<times> u16) list \<Rightarrow> bitstring list" where
  "codes xs = map (\<lambda>(l, v). \<lparr>bs_length = l, bs_value = v\<rparr>) xs"

definition YDC_HT :: "bitstring list" where
  "YDC_HT = codes [
     (2, 0), (3, 2), (3, 3), (3, 4), (3, 5), (3, 6),
     (4, 0xE), (5, 0x1E), (6, 0x3E), (7, 0x7E), (8, 0xFE), (9, 0x1FE)]"

definition CbDC_HT :: "bitstring list" where
  "CbDC_HT = codes [
     (2, 0), (2, 1), (2, 2), (3, 6), (4, 0xE), (5, 0x1E),
     (6, 0x3E), (7, 0x7E), (8, 0xFE), (9, 0x1FE), (10, 0x3FE), (11, 0x7FE)]"

definition YAC_HT :: "bitstring list" where
  "YAC_HT = codes [
     (4, 0xA), (2, 0), (2, 1), (3, 4), (4, 0xB), (5, 0x1A), (7, 0x78), (8, 0xF8),
     (10, 0x3F6), (16, 0xFF82), (16, 0xFF83), (0, 0), (0, 0), (0, 0), (0, 0), (0, 0),
     (0, 0), (4, 0xC), (5, 0x1B), (7, 0x79), (9, 0x1F6), (11, 0x7F6), (16, 0xFF84), (16, 0xFF85),
     (16, 0xFF86), (16, 0xFF87), (16, 0xFF88), (0, 0), (0, 0), (0, 0), (0, 0), (0, 0),
     (0, 0), (5, 0x1C), (8, 0xF9), (10, 0x3F7), (12, 0xFF4), (16, 0xFF89), (16, 0xFF8A), (16, 0xFF8B),
     (16, 0xFF8C), (16, 0xFF8D), (16, 0xFF8E), (0, 0), (0, 0), (0, 0), (0, 0), (0, 0),
     (0, 0), (6, 0x3A), (9, 0x1F7), (12, 0xFF5), (16, 0xFF8F), (16, 0xFF90), (16, 0xFF91), (16, 0xFF92),
     (16, 0xFF93), (16, 0xFF94), (16, 0xFF95), (0, 0), (0, 0), (0, 0), (0, 0), (0, 0),
     (0, 0), (6, 0x3B), (10, 0x3F8), (16, 0xFF96), (16, 0xFF97), (16, 0xFF98), (16, 0xFF99), (16, 0xFF9A),
     (16, 0xFF9B), (16, 0xFF9C), (16, 0xFF9D), (0, 0), (0, 0), (0, 0), (0, 0), (0, 0),
     (0, 0), (7, 0x7A), (11, 0x7F7), (16, 0xFF9E), (16, 0xFF9F), (16, 0xFFA0), (16, 0xFFA1), (16, 0xFFA2),
     (16, 0xFFA3), (16, 0xFFA4), (16, 0xFFA5), (0, 0), (0, 0), (0, 0), (0, 0), (0, 0),
     (0, 0), (7, 0x7B), (12, 0xFF6), (16, 0xFFA6), (16, 0xFFA7), (16, 0xFFA8), (16, 0xFFA9), (16, 0xFFAA),
     (16, 0xFFAB), (16, 0xFFAC), (16, 0xFFAD), (0, 0), (0, 0), (0, 0), (0, 0), (0, 0),
     (0, 0), (8, 0xFA), (12, 0xFF7), (16, 0xFFAE), (16, 0xFFAF), (16, 0xFFB0), (16, 0xFFB1), (16, 0xFFB2),
     (16, 0xFFB3), (16, 0xFFB4), (16, 0xFFB5), (0, 0), (0, 0), (0, 0), (0, 0), (0, 0),
     (0, 0), (9, 0x1F8), (15, 0x7FC0), (16, 0xFFB6), (16, 0xFFB7), (16, 0xFFB8), (16, 0xFFB9), (16, 0xFFBA),
     (16, 0xFFBB), (16, 0xFFBC), (16, 0xFFBD), (0, 0), (0, 0), (0, 0), (0, 0), (0, 0),
     (0, 0), (9, 0x1F9), (16, 0xFFBE), (16, 0xFFBF), (16, 0xFFC0), (16, 0xFFC1), (16, 0xFFC2), (16, 0xFFC3),
     (16, 0xFFC4), (16, 0xFFC5), (16, 0xFFC6), (0, 0), (0, 0), (0, 0), (0, 0), (0, 0),
     (0, 0), (9, 0x1FA), (16, 0xFFC7), (16, 0xFFC8), (16, 0xFFC9), (16, 0xFFCA), (16, 0xFFCB), (16, 0xFFCC),
     (16, 0xFFCD), (16, 0xFFCE), (16, 0xFFCF), (0, 0), (0, 0), (0, 0), (0, 0), (0, 0),
     (0, 0), (10, 0x3F9), (16, 0xFFD0), (16, 0xFFD1), (16, 0xFFD2), (16, 0xFFD3), (16, 0xFFD4), (16, 0xFFD5),
     (16, 0xFFD6), (16, 0xFFD7), (16, 0xFFD8), (0, 0), (0, 0), (0, 0), (0, 0), (0, 0),
     (0, 0), (10, 0x3FA), (16, 0xFFD9), (16, 0xFFDA), (16, 0xFFDB), (16, 0xFFDC), (16, 0xFFDD), (16, 0xFFDE),
     (16, 0xFFDF), (16, 0xFFE0), (16, 0xFFE1), (0, 0), (0, 0), (0, 0), (0, 0), (0, 0),
     (0, 0), (11, 0x7F8), (16, 0xFFE2), (16, 0xFFE3), (16, 0xFFE4), (16, 0xFFE5), (16, 0xFFE6), (16, 0xFFE7),
     (16, 0xFFE8), (16, 0xFFE9), (16, 0xFFEA), (0, 0), (0, 0), (0, 0), (0, 0), (0, 0),
     (0, 0), (16, 0xFFEB), (16, 0xFFEC), (16, 0xFFED), (16, 0xFFEE), (16, 0xFFEF), (16, 0xFFF0), (16, 0xFFF1),
     (16, 0xFFF2), (16, 0xFFF3), (16, 0xFFF4), (0, 0), (0, 0), (0, 0), (0, 0), (0, 0),
     (11, 0x7F9), (16, 0xFFF5), (16, 0xFFF6), (16, 0xFFF7), (16, 0xFFF8), (16, 0xFFF9), (16, 0xFFFA), (16, 0xFFFB),
     (16, 0xFFFC), (16, 0xFFFD), (16, 0xFFFE), (0, 0), (0, 0), (0, 0), (0, 0), (0, 0)]"

definition CbAC_HT :: "bitstring list" where
  "CbAC_HT = codes [
     (2, 0), (2, 1), (3, 4), (4, 0xA), (5, 0x18), (5, 0x19), (6, 0x38), (7, 0x78),
     (9, 0x1F4), (10, 0x3F6), (12, 0xFF4), (0, 0), (0, 0), (0, 0), (0, 0), (0, 0),
     (0, 0), (4, 0xB), (6, 0x39), (8, 0xF6), (9, 0x1F5), (11, 0x7F6), (12, 0xFF5), (16, 0xFF88),
     (16, 0xFF89), (16, 0xFF8A), (16, 0xFF8B), (0, 0), (0, 0), (0, 0), (0, 0), (0, 0),
     (0, 0), (5, 0x1A), (8, 0xF7), (10, 0x3F7), (12, 0xFF6), (15, 0x7FC2), (16, 0xFF8C), (16, 0xFF8D),
     (16, 0xFF8E), (16, 0xFF8F), (16, 0xFF90), (0, 0), (0, 0), (0, 0), (0, 0), (0, 0),
     (0, 0), (5, 0x1B), (8, 0xF8), (10, 0x3F8), (12, 0xFF7), (16, 0xFF91), (16, 0xFF92), (16, 0xFF93),
     (16, 0xFF94), (16, 0xFF95), (16, 0xFF96), (0, 0), (0, 0), (0, 0), (0, 0), (0, 0),
     (0, 0), (6, 0x3A), (9, 0x1F6), (16, 0xFF97), (16, 0xFF98), (16, 0xFF99), (16, 0xFF9A), (16, 0xFF9B),
     (16, 0xFF9C), (16, 0xFF9D), (16, 0xFF9E), (0, 0), (0, 0), (0, 0), (0, 0), (0, 0),
     (0, 0), (6, 0x3B), (10, 0x3F9), (16, 0xFF9F), (16, 0xFFA0), (16, 0xFFA1), (16, 0xFFA2), (16, 0xFFA3),
     (16, 0xFFA4), (16, 0xFFA5), (16, 0xFFA6), (0, 0), (0, 0), (0, 0), (0, 0), (0, 0),
     (0, 0), (7, 0x79), (11, 0x7F7), (16, 0xFFA7), (16, 0xFFA8), (16, 0xFFA9), (16, 0xFFAA), (16, 0xFFAB),
     (16, 0xFFAC), (16, 0xFFAD), (16, 0xFFAE), (0, 0), (0, 0), (0, 0), (0, 0), (0, 0),
     (0, 0), (7, 0x7A), (11, 0x7F8), (16, 0xFFAF), (16, 0xFFB0), (16, 0xFFB1), (16, 0xFFB2), (16, 0xFFB3),
     (16, 0xFFB4), (16, 0xFFB5), (16, 0xFFB6), (0, 0), (0, 0), (0, 0), (0, 0), (0, 0),
     (0, 0), (8, 0xF9), (16, 0xFFB7), (16, 0xFFB8), (16, 0xFFB9), (16, 0xFFBA), (16, 0xFFBB), (16, 0xFFBC),
     (16, 0xFFBD), (16, 0xFFBE), (16, 0xFFBF), (0, 0), (0, 0), (0, 0), (0, 0), (0, 0),
     (0, 0), (9, 0x1F7), (16, 0xFFC0), (16, 0xFFC1), (16, 0xFFC2), (16, 0xFFC3), (16, 0xFFC4), (16, 0xFFC5),
     (16, 0xFFC6), (16, 0xFFC7), (16, 0xFFC8), (0, 0), (0, 0), (0, 0), (0, 0), (0, 0),
     (0, 0), (9, 0x1F8), (16, 0xFFC9), (16, 0xFFCA), (16, 0xFFCB), (16, 0xFFCC), (16, 0xFFCD), (16, 0xFFCE),
     (16, 0xFFCF), (16, 0xFFD0), (16, 0xFFD1), (0, 0), (0, 0), (0, 0), (0, 0), (0, 0),
     (0, 0), (9, 0x1F9), (16, 0xFFD2), (16, 0xFFD3), (16, 0xFFD4), (16, 0xFFD5), (16, 0xFFD6), (16, 0xFFD7),
     (16, 0xFFD8), (16, 0xFFD9), (16, 0xFFDA), (0, 0), (0, 0), (0, 0), (0, 0), (0, 0),
     (0, 0), (9, 0x1FA), (16, 0xFFDB), (16, 0xFFDC), (16, 0xFFDD), (16, 0xFFDE), (16, 0xFFDF), (16, 0xFFE0),
     (16, 0xFFE1), (16, 0xFFE2), (16, 0xFFE3), (0, 0), (0, 0), (0, 0), (0, 0), (0, 0),
     (0, 0), (11, 0x7F9), (16, 0xFFE4), (16, 0xFFE5), (16, 0xFFE6), (16, 0xFFE7), (16, 0xFFE8), (16, 0xFFE9),
     (16, 0xFFEA), (16, 0xFFEB), (16, 0xFFEC), (0, 0), (0, 0), (0, 0), (0, 0), (0, 0),
     (0, 0), (14, 0x3FE0), (16, 0xFFED), (16, 0xFFEE), (16, 0xFFEF), (16, 0xFFF0), (16, 0xFFF1), (16, 0xFFF2),
     (16, 0xFFF3), (16, 0xFFF4), (16, 0xFFF5), (0, 0), (0, 0), (0, 0), (0, 0), (0, 0),
     (10, 0x3FA), (15, 0x7FC3), (16, 0xFFF6), (16, 0xFFF7), (16, 0xFFF8), (16, 0xFFF9), (16, 0xFFFA), (16, 0xFFFB),
     (16, 0xFFFC), (16, 0xFFFD), (16, 0xFFFE), (0, 0), (0, 0), (0, 0), (0, 0), (0, 0)]"

section \<open>Header segments\<close>

record APP0infotype =
  app0_marker :: u16
  app0_length :: u16
  JFIFsignature :: "u8 list"
  versionhi :: u8
  versionlo :: u8
  xyunits :: u8
  xdensity :: u16
  ydensity :: u16
  thumbnwidth :: u8
  thumbnheight :: u8

definition APP0info :: APP0infotype where
  "APP0info = \<lparr>app0_marker = 0xFFE0, app0_length = 16, JFIFsignature = [0x4A, 0x46, 0x49, 0x46, 0],
     versionhi = 1, versionlo = 1, xyunits = 0, xdensity = 1, ydensity = 1, thumbnwidth = 0, thumbnheight = 0\<rparr>"

record SOF0infotype =
  sof0_marker :: u16
  sof0_length :: u16
  precision :: u8
  sof0_height :: u16
  sof0_width :: u16
  sof0_components :: u8
  sof0_IdY :: u8
  HVY :: u8
  QTY :: u8
  sof0_IdCb :: u8
  HVCb :: u8
  QTCb :: u8
  sof0_IdCr :: u8
  HVCr :: u8
  QTCr :: u8

definition SOF0info :: SOF0infotype where
  "SOF0info = \<lparr>sof0_marker = 0xFFC0, sof0_length = 17, precision = 8, sof0_height = 0, sof0_width = 0,
     sof0_components = 3, sof0_IdY = 1, HVY = 0x22, QTY = 0, sof0_IdCb = 2, HVCb = 0x11, QTCb = 1,
     sof0_IdCr = 3, HVCr = 0x11, QTCr = 1\<rparr>"

record DQTinfotype =
  dqt_marker :: u16
  dqt_length :: u16
  QTYinfo :: u8
  Ytable :: "u8 list"
  QTCbinfo :: u8
  Cbtable :: "u8 list"

definition DQTinfo :: DQTinfotype where
  "DQTinfo = \<lparr>dqt_marker = 0xFFDB, dqt_length = 0x84, QTYinfo = 0, Ytable = [
     8, 6, 6, 7, 6, 5, 8, 7, 7, 7, 9, 9, 8, 10, 12, 20,
     13, 12, 11, 11, 12, 25, 18, 19, 15, 20, 29, 26, 31, 30, 29, 26,
     28, 28, 32, 36, 46, 39, 32, 34, 44, 35, 28, 28, 40, 55, 41, 44,
     48, 49, 52, 52, 52, 31, 39, 57, 61, 56, 50, 60, 46, 51, 52, 50],
   QTCbinfo = 1, Cbtable = [
     9, 9, 9, 12, 11, 12, 24, 13, 13, 24, 50, 33, 28, 33, 50, 50,
     50, 50, 50, 50, 50, 50, 50, 50, 50, 50, 50, 50, 50, 50, 50, 50,
     50, 50, 50, 50, 50, 50, 50, 50, 50, 50, 50, 50, 50, 50, 50, 50,
     50, 50, 50, 50, 50, 50, 50, 50, 50, 50, 50, 50, 50, 50, 50, 50]\<rparr>"

record DHTinfotype =
  dht_marker :: u16
  dht_length :: u16
  HTYDCinfo :: u8
  YDC_nrcodes :: "u8 list"
  YDC_values :: "u8 list"
  HTYACinfo :: u8
  YAC_nrcodes :: "u8 list"
  YAC_values :: "u8 list"
  HTCbDCinfo :: u8
  CbDC_nrcodes :: "u8 list"
  CbDC_values :: "u8 list"
  HTCbACinfo :: u8
  CbAC_nrcodes :: "u8 list"
  CbAC_values :: "u8 list"

definition DHTinfo :: DHTinfotype where
  "DHTinfo = \<lparr>dht_marker = 0xFFC4, dht_length = 0x01A2,
   HTYDCinfo = 0x0, YDC_nrcodes = [0, 1, 5, 1, 1, 1, 1, 1, 1, 0, 0, 0, 0, 0, 0, 0],
   YDC_values = [
     0, 1, 2, 3, 4, 5, 6, 7, 8, 9, 10, 11],
   HTYACinfo = 0x10, YAC_nrcodes = [0, 2, 1, 3, 3, 2, 4, 3, 5, 5, 4, 4, 0, 0, 1, 125],
   YAC_values = [
     0x01, 0x02, 0x03, 0x00, 0x04, 0x11, 0x05, 0x12, 0x21, 0x31, 0x41, 0x06, 0x13, 0x51, 0x61, 0x07,
     0x22, 0x71, 0x14, 0x32, 0x81, 0x91, 0xA1, 0x08, 0x23, 0x42, 0xB1, 0xC1, 0x15, 0x52, 0xD1, 0xF0,
     0x24, 0x33, 0x62, 0x72, 0x82, 0x09, 0x0A, 0x16, 0x17, 0x18, 0x19, 0x1A, 0x25, 0x26, 0x27, 0x28,
     0x29, 0x2A, 0x34, 0x35, 0x36, 0x37, 0x38, 0x39, 0x3A, 0x43, 0x44, 0x45, 0x46, 0x47, 0x48, 0x49,
     0x4A, 0x53, 0x54, 0x55, 0x56, 0x57, 0x58, 0x59, 0x5A, 0x63, 0x64, 0x65, 0x66, 0x67, 0x68, 0x69,
     0x6A, 0x73, 0x74, 0x75, 0x76, 0x77, 0x78, 0x79, 0x7A, 0x83, 0x84, 0x85, 0x86, 0x87, 0x88, 0x89,
     0x8A, 0x92, 0x93, 0x94, 0x95, 0x96, 0x97, 0x98, 0x99, 0x9A, 0xA2, 0xA3, 0xA4, 0xA5, 0xA6, 0xA7,
     0xA8, 0xA9, 0xAA, 0xB2, 0xB3, 0xB4, 0xB5, 0xB6, 0xB7, 0xB8, 0xB9, 0xBA, 0xC2, 0xC3, 0xC4, 0xC5,
     0xC6, 0xC7, 0xC8, 0xC9, 0xCA, 0xD2, 0xD3, 0xD4, 0xD5, 0xD6, 0xD7, 0xD8, 0xD9, 0xDA, 0xE1, 0xE2,
     0xE3, 0xE4, 0xE5, 0xE6, 0xE7, 0xE8, 0xE9, 0xEA, 0xF1, 0xF2, 0xF3, 0xF4, 0xF5, 0xF6, 0xF7, 0xF8,
     0xF9, 0xFA],
   HTCbDCinfo = 0x1, CbDC_nrcodes = [0, 3, 1, 1, 1, 1, 1, 1, 1, 1, 1, 0, 0, 0, 0, 0],
   CbDC_values = [
     0, 1, 2, 3, 4, 5, 6, 7, 8, 9, 10, 11],
   HTCbACinfo = 0x11, CbAC_nrcodes = [0, 2, 1, 2, 4, 4, 3, 4, 7, 5, 4, 4, 0, 1, 2, 119],
   CbAC_values = [
     0x00, 0x01, 0x02, 0x03, 0x11, 0x04, 0x05, 0x21, 0x31, 0x06, 0x12, 0x41, 0x51, 0x07, 0x61, 0x71,
     0x13, 0x22, 0x32, 0x81, 0x08, 0x14, 0x42, 0x91, 0xA1, 0xB1, 0xC1, 0x09, 0x23, 0x33, 0x52, 0xF0,
     0x15, 0x62, 0x72, 0xD1, 0x0A, 0x16, 0x24, 0x34, 0xE1, 0x25, 0xF1, 0x17, 0x18, 0x19, 0x1A, 0x26,
     0x27, 0x28, 0x29, 0x2A, 0x35, 0x36, 0x37, 0x38, 0x39, 0x3A, 0x43, 0x44, 0x45, 0x46, 0x47, 0x48,
     0x49, 0x4A, 0x53, 0x54, 0x55, 0x56, 0x57, 0x58, 0x59, 0x5A, 0x63, 0x64, 0x65, 0x66, 0x67, 0x68,
     0x69, 0x6A, 0x73, 0x74, 0x75, 0x76, 0x77, 0x78, 0x79, 0x7A, 0x82, 0x83, 0x84, 0x85, 0x86, 0x87,
     0x88, 0x89, 0x8A, 0x92, 0x93, 0x94, 0x95, 0x96, 0x97, 0x98, 0x99, 0x9A, 0xA2, 0xA3, 0xA4, 0xA5,
     0xA6, 0xA7, 0xA8, 0xA9, 0xAA, 0xB2, 0xB3, 0xB4, 0xB5, 0xB6, 0xB7, 0xB8, 0xB9, 0xBA, 0xC2, 0xC3,
     0xC4, 0xC5, 0xC6, 0xC7, 0xC8, 0xC9, 0xCA, 0xD2, 0xD3, 0xD4, 0xD5, 0xD6, 0xD7, 0xD8, 0xD9, 0xDA,
     0xE2, 0xE3, 0xE4, 0xE5, 0xE6, 0xE7, 0xE8, 0xE9, 0xEA, 0xF2, 0xF3, 0xF4, 0xF5, 0xF6, 0xF7, 0xF8,
     0xF9, 0xFA]\<rparr>"

record SOSinfotype =
  sos_marker :: u16
  sos_length :: u16
  sos_components :: u8
  sos_IdY :: u8
  HTY :: u8
  sos_IdCb :: u8
  HTCb :: u8
  sos_IdCr :: u8
  HTCr :: u8
  Ss :: u8
  Se :: u8
  Bf :: u8

definition SOSinfo :: SOSinfotype where
  "SOSinfo = \<lparr>sos_marker = 0xFFDA, sos_length = 12, sos_components = 3, sos_IdY = 1, HTY = 0, sos_IdCb = 2,
     HTCb = 0x11, sos_IdCr = 3, HTCr = 0x11, Ss = 0, Se = 0x3F, Bf = 0\<rparr>"

end
