(* ===== verification/JpegHuff.thy ===== *)
theory JpegHuff
  imports JpegTables
begin

text \<open>
  Bit strings and Huffman decoding as a JPEG decoder does it (ITU-T T.81): the table of a header segment lists the
  codes in increasing order, so no code is a prefix of another, and the codes of the encoder are those of the table.
\<close>

section \<open>Bit strings\<close>

text \<open>The low \<open>s\<close> bits of a number, the most significant first.\<close>

primrec bits_of :: "nat \<Rightarrow> nat \<Rightarrow> bool list" where
  "bits_of 0 c = []"
| "bits_of (Suc s) c = odd (c div 2 ^ s) # bits_of s c"

primrec from_bits :: "bool list \<Rightarrow> nat" where
  "from_bits [] = 0"
| "from_bits (b # bs) = of_bool b * 2 ^ length bs + from_bits bs"

lemma length_bits_of [simp]: "length (bits_of s c) = s"
  by (induction s) simp_all

lemma from_bits_less: "from_bits bs < 2 ^ length bs"
  by (induction bs) auto

lemma from_bits_of: "from_bits (bits_of s c) = c mod 2 ^ s"
proof (induction s)
  case (Suc s)
  have "c mod 2 ^ Suc s = c mod 2 ^ s + 2 ^ s * (c div 2 ^ s mod 2)"
    by (metis add.commute mod_mult2_eq power_Suc2)
  then show ?case using Suc by (simp add: mod_2_eq_odd)
qed simp

lemma bits_of_mod: "bits_of s (c mod 2 ^ s) = bits_of s c"
proof -
  have "odd (c mod 2 ^ m div 2 ^ s) \<longleftrightarrow> odd (c div 2 ^ s)" if "s < m" for s m
    using bit_take_bit_iff[of m c s] that by (simp add: bit_iff_odd take_bit_eq_mod)
  then have "s \<le> m \<Longrightarrow> bits_of s (c mod 2 ^ m) = bits_of s c" for m by (induction s) simp_all
  then show ?thesis by simp
qed

lemma bits_of_from: "bits_of (length bs) (from_bits bs) = bs"
proof (induction bs)
  case (Cons b bs)
  have "(of_bool b * 2 ^ length bs + from_bits bs) div 2 ^ length bs = of_bool b" for b
    using from_bits_less[of bs] by (cases b) (simp_all add: div_nat_eqI)
  moreover have "bits_of (length bs) (of_bool b * 2 ^ length bs + from_bits bs) = bits_of (length bs) (from_bits bs)"
    using bits_of_mod[of "length bs" "of_bool b * 2 ^ length bs + from_bits bs"] from_bits_less[of bs] by simp
  ultimately show ?case using Cons by simp
qed simp

lemma bits_of_append: "bits_of (m + n) c = bits_of m (c div 2 ^ n) @ bits_of n c"
  by (induction m) (simp_all add: div_mult2_eq[symmetric] power_add mult.commute)

lemma take_bits_of: "take m (bits_of (m + n) c) = bits_of m (c div 2 ^ n)"
  by (simp add: bits_of_append)

lemma drop_bits_of: "drop m (bits_of (m + n) c) = bits_of n c"
  by (simp add: bits_of_append)

lemma bits_of_eq: "bits_of s c = bits_of s d \<longleftrightarrow> c mod 2 ^ s = d mod 2 ^ s"
  by (metis bits_of_mod from_bits_of)

section \<open>Huffman tables\<close>

text \<open>A table lists symbol, length and code; the codes of one length are consecutive, and the first code of the next
  length is twice the code after the last one (T.81, annex C).\<close>

type_synonym huff_table = "(nat \<times> nat \<times> nat) list"

function canon :: "nat \<Rightarrow> nat \<Rightarrow> nat list \<Rightarrow> nat list \<Rightarrow> huff_table" where
  "canon c l [] vs = []"
| "canon c l (n # ns) vs =
     (if n = 0 then canon (2 * c) (l + 1) ns vs
      else case vs of [] \<Rightarrow> [] | v # vs' \<Rightarrow> (v, l, c) # canon (Suc c) l ((n - 1) # ns) vs')"
  by pat_completeness auto
termination by (relation "measures [\<lambda>(c, l, ns, vs). length ns, \<lambda>(c, l, ns, vs). hd ns]") auto

definition dht_table :: "u8 list \<Rightarrow> u8 list \<Rightarrow> huff_table" where
  "dht_table nr vs = canon 0 1 (map unat nr) (map unat vs)"

text \<open>The symbol whose code starts the bit string, and the bits behind it.\<close>

definition huff_match :: "bool list \<Rightarrow> nat \<times> nat \<times> nat \<Rightarrow> bool" where
  "huff_match bs = (\<lambda>(v, s, c). s \<le> length bs \<and> take s bs = bits_of s c)"

definition huff_decode :: "huff_table \<Rightarrow> bool list \<Rightarrow> (nat \<times> bool list) option" where
  "huff_decode t bs = map_option (\<lambda>(v, s, c). (v, drop s bs)) (find (huff_match bs) t)"

lemma canon_lower:
  "(v, s, k) \<in> set (canon c l ns vs) \<Longrightarrow> l \<le> s \<and> c * 2 ^ (s - l) \<le> k"
proof (induction c l ns vs rule: canon.induct)
  case (2 c l n ns vs)
  show ?case
  proof (cases "n = 0")
    case True
    then have "Suc l \<le> s \<and> 2 * c * 2 ^ (s - Suc l) \<le> k" using 2 by simp
    moreover have "s - l = Suc (s - Suc l)" if "Suc l \<le> s" using that by simp
    ultimately show ?thesis by (simp add: mult_ac)
  next
    case False
    then obtain v' vs' where vs: "vs = v' # vs'" using 2(3) by (cases vs) simp_all
    have "(v, s, k) = (v', l, c) \<or> (v, s, k) \<in> set (canon (Suc c) l ((n - 1) # ns) vs')"
      using 2(3) False vs by simp
    then show ?thesis
    proof
      assume "(v, s, k) \<in> set (canon (Suc c) l ((n - 1) # ns) vs')"
      then have "l \<le> s \<and> Suc c * 2 ^ (s - l) \<le> k" using 2(2)[OF False vs] by blast
      then show ?thesis by auto
    qed simp
  qed
qed simp

definition code_before :: "nat \<times> nat \<times> nat \<Rightarrow> nat \<times> nat \<times> nat \<Rightarrow> bool" where
  "code_before = (\<lambda>(v, s, c) (v', s', c'). s \<le> s' \<and> Suc c * 2 ^ (s' - s) \<le> c')"

lemma canon_ordered: "sorted_wrt code_before (canon c l ns vs)"
proof (induction c l ns vs rule: canon.induct)
  case (2 c l n ns vs)
  show ?case
  proof (cases "n = 0")
    case False
    show ?thesis
    proof (cases vs)
      case (Cons v vs')
      have "code_before (v, l, c) e" if "e \<in> set (canon (Suc c) l ((n - 1) # ns) vs')" for e
      proof -
        obtain v' s' c' where e: "e = (v', s', c')" by (cases e)
        show ?thesis using canon_lower[OF that[unfolded e]] by (simp add: code_before_def e)
      qed
      then show ?thesis using 2(2)[OF False Cons] False Cons by simp
    qed (use False in simp)
  qed (use 2(1) in simp)
qed simp

lemma prefix_not_before:
  assumes "code_before (v, s, c) (v', s', c')" "c' < 2 ^ s'" "c < 2 ^ s"
  shows "\<not> huff_match (bits_of s' c' @ r) (v, s, c)"
proof
  assume m: "huff_match (bits_of s' c' @ r) (v, s, c)"
  have s: "s \<le> s'" "Suc c * 2 ^ (s' - s) \<le> c'" using assms(1) by (simp_all add: code_before_def)
  have "take s (bits_of s' c') = bits_of s (c' div 2 ^ (s' - s))" using take_bits_of[of s "s' - s" c'] s(1) by simp
  then have "bits_of s (c' div 2 ^ (s' - s)) = bits_of s c" using m s(1) by (simp add: huff_match_def)
  moreover have "c' div 2 ^ (s' - s) < 2 ^ s"
    using assms(2) s(1) by (simp add: less_mult_imp_div_less flip: power_add)
  ultimately have "c' div 2 ^ (s' - s) = c" using assms(3) by (simp add: bits_of_eq)
  moreover have "Suc c \<le> c' div 2 ^ (s' - s)" using s(2) by (simp add: less_eq_div_iff_mult_less_eq)
  ultimately show False by simp
qed

definition codes_fit :: "huff_table \<Rightarrow> bool" where
  "codes_fit t = list_all (\<lambda>(v, s, c). c < 2 ^ s) t"

lemma find_ordered:
  assumes "sorted_wrt code_before t" "codes_fit t" "(v, s, c) \<in> set t"
  shows "find (huff_match (bits_of s c @ r)) t = Some (v, s, c)"
  using assms
proof (induction t)
  case (Cons e t)
  obtain v' s' c' where e: "e = (v', s', c')" by (cases e)
  show ?case
  proof (cases "(v, s, c) = e")
    case False
    then have "code_before e (v, s, c)" "(v, s, c) \<in> set t" using Cons.prems by auto
    moreover have "c < 2 ^ s" "c' < 2 ^ s'" using Cons.prems(2,3) e by (auto simp: codes_fit_def list_all_iff)
    ultimately have "\<not> huff_match (bits_of s c @ r) e" unfolding e by (intro prefix_not_before) simp_all
    then show ?thesis using Cons \<open>(v, s, c) \<in> set t\<close> by (simp add: codes_fit_def)
  qed (auto simp: huff_match_def)
qed simp

lemma huff_decode_code:
  assumes "codes_fit (dht_table nr vs)" "(v, s, c) \<in> set (dht_table nr vs)"
  shows "huff_decode (dht_table nr vs) (bits_of s c @ r) = Some (v, r)"
  using find_ordered[OF _ assms, of r] by (simp add: huff_decode_def dht_table_def canon_ordered)

section \<open>The codes of the encoder\<close>

abbreviation ydc_table :: huff_table where "ydc_table \<equiv> dht_table (YDC_nrcodes DHTinfo) (YDC_values DHTinfo)"
abbreviation yac_table :: huff_table where "yac_table \<equiv> dht_table (YAC_nrcodes DHTinfo) (YAC_values DHTinfo)"
abbreviation cdc_table :: huff_table where "cdc_table \<equiv> dht_table (CbDC_nrcodes DHTinfo) (CbDC_values DHTinfo)"
abbreviation cac_table :: huff_table where "cac_table \<equiv> dht_table (CbAC_nrcodes DHTinfo) (CbAC_values DHTinfo)"

text \<open>Every symbol has its code of the header segment, and the other entries are unused.\<close>

definition entry_ok :: "bitstring list \<Rightarrow> nat \<times> nat \<times> nat \<Rightarrow> bool" where
  "entry_ok ht = (\<lambda>(v, s, c). v < length ht \<and> bs_length (ht ! v) = of_nat s \<and> bs_value (ht ! v) = of_nat c \<and> s \<le> 16)"

definition table_agrees :: "bitstring list \<Rightarrow> huff_table \<Rightarrow> bool" where
  "table_agrees ht t \<longleftrightarrow> codes_fit t \<and> list_all (entry_ok ht) t"

definition unused_entries :: "bitstring list \<Rightarrow> nat" where
  "unused_entries ht = length (filter (\<lambda>b. bs_length b = 0) ht)"

lemmas table_defs = table_agrees_def DHTinfo_def dht_table_def codes_fit_def entry_ok_def codes_def

lemma ydc_agrees: "table_agrees YDC_HT ydc_table"
  by (simp add: table_defs YDC_HT_def)

lemma cdc_agrees: "table_agrees CbDC_HT cdc_table"
  by (simp add: table_defs CbDC_HT_def)

lemma yac_agrees: "table_agrees YAC_HT yac_table"
  by (simp add: table_defs YAC_HT_def)

lemma cac_agrees: "table_agrees CbAC_HT cac_table"
  by (simp add: table_defs CbAC_HT_def)

lemma table_sizes:
  "length ydc_table = 12" "length cdc_table = 12" "length yac_table = 162" "length cac_table = 162"
  by (simp_all add: DHTinfo_def dht_table_def)

lemma unused_values:
  "unused_entries YDC_HT = 0" "unused_entries CbDC_HT = 0" "unused_entries YAC_HT = 94" "unused_entries CbAC_HT = 94"
  by (simp_all add: unused_entries_def codes_def YDC_HT_def CbDC_HT_def YAC_HT_def CbAC_HT_def)

text \<open>The symbols a block needs: the sizes of DC differences, and for AC coefficients every run below 16 with every
  size from 1 to 10, the end of the block and the run of sixteen zeros.\<close>

definition ac_symbols :: "nat list" where
  "ac_symbols = 0 # 0xF0 # concat (map (\<lambda>r. map (\<lambda>s. r * 16 + s) [1..<11]) [0..<16])"

lemma small_ranges:
  "[0..<16] = [0, 1, 2, 3, 4, 5, 6, 7, 8, 9, 10, 11, 12, 13, 14, 15]" "[1..<11] = [1, 2, 3, 4, 5, 6, 7, 8, 9, 10]"
  "[0..<12] = [0, 1, 2, 3, 4, 5, 6, 7, 8, 9, 10, 11]"
  by (simp_all add: upt_rec[of 0] upt_rec[of "Suc 0"] upt_rec_numeral numeral_2_eq_2[symmetric])

lemma run_symbol:
  assumes "r < 16" "1 \<le> n" "n \<le> 10"
  shows "r * 16 + n \<in> set ac_symbols"
proof -
  have n: "n \<in> set [1..<11]" and r: "r \<in> set [0..<16]" unfolding set_upt using assms by simp_all
  have "r * 16 + n \<in> set (map (\<lambda>s. r * 16 + s) [1..<11])" unfolding set_map by (rule imageI[OF n])
  moreover have "map (\<lambda>s. r * 16 + s) [1..<11] \<in> set (map (\<lambda>r. map (\<lambda>s. r * 16 + s) [1..<11]) [0..<16])"
    unfolding set_map[of "\<lambda>r. map (\<lambda>s. r * 16 + s) [1..<11]"] by (rule imageI[OF r])
  ultimately have "r * 16 + n \<in> set (concat (map (\<lambda>r. map (\<lambda>s. r * 16 + s) [1..<11]) [0..<16]))"
    unfolding set_concat by (rule UN_I[rotated])
  then show ?thesis unfolding ac_symbols_def by (rule list.set_intros(2)[OF list.set_intros(2)])
qed

lemma mark_symbols: "0 \<in> set ac_symbols" "0xF0 \<in> set ac_symbols"
  by (simp_all add: ac_symbols_def)

lemma ac_symbols_present:
  "list_all (\<lambda>v. v \<in> set (map fst yac_table)) ac_symbols" "list_all (\<lambda>v. v \<in> set (map fst cac_table)) ac_symbols"
  unfolding ac_symbols_def small_ranges by (simp_all add: DHTinfo_def dht_table_def)

lemma dc_symbols_present:
  "list_all (\<lambda>v. v \<in> set (map fst ydc_table)) [0..<12]" "list_all (\<lambda>v. v \<in> set (map fst cdc_table)) [0..<12]"
  unfolding small_ranges by (simp_all add: DHTinfo_def dht_table_def)

section \<open>The zigzag order and the quantization factors\<close>

text \<open>The place of row \<open>r\<close> and column \<open>c\<close> on the path along the diagonals of the block.\<close>

definition zigzag_place :: "nat \<Rightarrow> nat \<Rightarrow> nat" where
  "zigzag_place r c =
     (let d = r + c;
          before = (if d < 8 then d * (d + 1) div 2 else 64 - (15 - d) * (16 - d) div 2)
      in before + (if even d then c else r) - (d - 7))"

text \<open>The scale of the fast transform in each direction, in units of \<open>2\<^sup>-\<^sup>1\<^sup>4\<close>: \<open>1\<close> and \<open>\<surd>2 cos (k \<pi> / 16)\<close>.\<close>

definition aan_scale :: "int list" where
  "aan_scale = [16384, 22725, 21407, 19266, 16384, 12873, 8867, 4520]"

text \<open>The factor of a coefficient is \<open>2\<^sup>1\<^sup>5\<close> over its quantization step and the scale of the transform.\<close>

definition quant_factor :: "u8 list \<Rightarrow> nat \<Rightarrow> int" where
  "quant_factor steps i =
     2 ^ 40 div (uint (steps ! (zigzag ! i)) * aan_scale ! (i div 8) * aan_scale ! (i mod 8))"

lemma upt_64: "[0..<64] = [0, 1, 2, 3, 4, 5, 6, 7, 8, 9, 10, 11, 12, 13, 14, 15, 16, 17, 18, 19, 20, 21, 22, 23, 24, 25,
   26, 27, 28, 29, 30, 31, 32, 33, 34, 35, 36, 37, 38, 39, 40, 41, 42, 43, 44, 45, 46, 47, 48, 49, 50, 51, 52, 53, 54,
   55, 56, 57, 58, 59, 60, 61, 62, 63]"
  by (simp add: upt_rec[of 0] upt_rec)

lemma zigzag_value: "zigzag = map (\<lambda>i. zigzag_place (i div 8) (i mod 8)) [0..<64]"
  unfolding upt_64 by (simp add: zigzag_def zigzag_place_def)

lemma quant_value: "quantY = map (quant_factor (Ytable DQTinfo)) [0..<64]" "quantC = map (quant_factor (Cbtable DQTinfo)) [0..<64]"
  unfolding upt_64
  by (simp_all add: quantY_def quantC_def quant_factor_def DQTinfo_def zigzag_def aan_scale_def)

lemma zigzag_perm: "sort zigzag = [0..<64]"
  unfolding upt_64 by (simp add: zigzag_def)

text \<open>C14: The tables the encoder computes with are the ones it writes into the header of the file: each Huffman code is
  the one a decoder derives from the numbers of codes and the symbols of the segment, entries without a symbol are
  unused, the order of the coefficients is the zigzag path, and each quantization factor is the reciprocal of the
  quantization step of the header times the scale of the transform.\<close>

theorem jpeg_tables_agree:
  "table_agrees YDC_HT ydc_table \<and> unused_entries YDC_HT + length ydc_table = length YDC_HT \<and>
   table_agrees CbDC_HT cdc_table \<and> unused_entries CbDC_HT + length cdc_table = length CbDC_HT \<and>
   table_agrees YAC_HT yac_table \<and> unused_entries YAC_HT + length yac_table = length YAC_HT \<and>
   table_agrees CbAC_HT cac_table \<and> unused_entries CbAC_HT + length cac_table = length CbAC_HT \<and>
   zigzag = map (\<lambda>i. zigzag_place (i div 8) (i mod 8)) [0..<64] \<and>
   quantY = map (quant_factor (Ytable DQTinfo)) [0..<64] \<and>
   quantC = map (quant_factor (Cbtable DQTinfo)) [0..<64]"
proof -
  have "length YDC_HT = 12" "length CbDC_HT = 12" "length YAC_HT = 256" "length CbAC_HT = 256"
    by (simp_all add: YDC_HT_def CbDC_HT_def YAC_HT_def CbAC_HT_def codes_def)
  then show ?thesis
    by (simp only: ydc_agrees cdc_agrees yac_agrees cac_agrees table_sizes unused_values zigzag_value[symmetric]
        quant_value[symmetric] simp_thms) simp
qed

end
