(* ===== verification/JpegDct.thy ===== *)
theory JpegDct
  imports JpegHuff
begin

text \<open>
  The transform and the quantization of a block (\<^verbatim>\<open>examples/jpeg/coder.c\<close>).  \<open>int\<close> has 32 bits on the target and no
  intermediate value of the transform of 16-bit numbers exceeds \<open>2\<^sup>2\<^sup>7\<close>, so integers are unbounded here; a store into
  an array of shorts wraps to 16 bits, written \<open>to_short\<close>.
\<close>

section \<open>The fast transform\<close>

definition to_short :: "int \<Rightarrow> int" where
  "to_short x = signed_take_bit 15 x"

definition FIX_0_382683433 :: int where "FIX_0_382683433 = 98"
definition FIX_0_541196100 :: int where "FIX_0_541196100 = 139"
definition FIX_0_707106781 :: int where "FIX_0_707106781 = 181"
definition FIX_1_306562965 :: int where "FIX_1_306562965 = 334"

text \<open>One row or one column.\<close>

definition fdct_1d :: "int list \<Rightarrow> int list" where
  "fdct_1d d =
     (let tmp0 = d ! 0 + d ! 7; tmp7 = d ! 0 - d ! 7;
          tmp1 = d ! 1 + d ! 6; tmp6 = d ! 1 - d ! 6;
          tmp2 = d ! 2 + d ! 5; tmp5 = d ! 2 - d ! 5;
          tmp3 = d ! 3 + d ! 4; tmp4 = d ! 3 - d ! 4;
          tmp10 = tmp0 + tmp3; tmp13 = tmp0 - tmp3; tmp11 = tmp1 + tmp2; tmp12 = tmp1 - tmp2;
          out0 = tmp10 + tmp11; out4 = tmp10 - tmp11;
          z1 = drop_bit 8 ((tmp12 + tmp13) * FIX_0_707106781);
          out2 = tmp13 + z1; out6 = tmp13 - z1;
          tmp10 = tmp4 + tmp5; tmp11 = tmp5 + tmp6; tmp12 = tmp6 + tmp7;
          z5 = drop_bit 8 ((tmp10 - tmp12) * FIX_0_382683433);
          z2 = drop_bit 8 (tmp10 * FIX_0_541196100) + z5;
          z4 = drop_bit 8 (tmp12 * FIX_1_306562965) + z5;
          z3 = drop_bit 8 (tmp11 * FIX_0_707106781);
          z11 = tmp7 + z3; z13 = tmp7 - z3;
          out5 = z13 + z2; out3 = z13 - z2; out1 = z11 + z4; out7 = z11 - z4
      in [out0, out1, out2, out3, out4, out5, out6, out7])"

definition fdct_rows :: "int list \<Rightarrow> int list" where
  "fdct_rows data_in = concat (map (\<lambda>i. map to_short (fdct_1d (map (\<lambda>k. data_in ! (8 * i + k)) [0..<8]))) [0..<8])"

definition jpeg_fdct_ifast :: "int list \<Rightarrow> int list" where
  "jpeg_fdct_ifast data_in =
     (let tmp = fdct_rows data_in;
          columns = map (\<lambda>i. map to_short (fdct_1d (map (\<lambda>k. tmp ! (8 * k + i)) [0..<8]))) [0..<8]
      in concat (map (\<lambda>k. map (\<lambda>i. columns ! i ! k) [0..<8]) [0..<8]))"

section \<open>Quantization\<close>

text \<open>\<open>DU_ZZ\<close> is an array of the caller whose entries are all written.\<close>

definition quantize_coef :: "int \<Rightarrow> int \<Rightarrow> int" where
  "quantize_coef d q = (let itemp = drop_bit 15 (d * q) in if d < 0 then itemp + 1 else itemp)"

definition quantization :: "int list \<Rightarrow> int list \<Rightarrow> int list \<Rightarrow> int list \<times> nat" where
  "quantization DU_DCT quanttbl DU_ZZ =
     foldl (\<lambda>(zz, last_coef) i.
         let itemp = quantize_coef (DU_DCT ! i) (quanttbl ! i); idx = zigzag ! i
         in (zz[idx := to_short itemp], if itemp \<noteq> 0 then max last_coef idx else last_coef))
       (DU_ZZ, 0) [0..<64]"

section \<open>Bounds\<close>

lemma to_short_id: "- 32768 \<le> x \<Longrightarrow> x \<le> 32767 \<Longrightarrow> to_short x = x"
  unfolding to_short_def by (rule signed_take_bit_int_eq_self) simp_all

lemma to_short_range: "- 32768 \<le> to_short x" "to_short x \<le> 32767"
  using signed_take_bit_int_greater_eq_minus_exp[of 15 x] signed_take_bit_int_less_exp[of 15 x]
  by (simp_all add: to_short_def)

lemma drop8_bounds: "256 * drop_bit 8 x \<le> x" "x \<le> 256 * drop_bit 8 (x :: int) + 255"
  by (simp_all add: drop_bit_eq_div)

lemma length_fdct_1d [simp]: "length (fdct_1d d) = 8"
  by (simp only: fdct_1d_def Let_def list.size)

lemma nth_last_of_8: "[a, b, c, d, e, f, g, h] ! 7 = h"
  by simp

lemma fdct_7_arith:
  fixes b :: int
  assumes "\<bar>t4\<bar> \<le> 2 * b" "\<bar>t5\<bar> \<le> 2 * b" "\<bar>t6\<bar> \<le> 2 * b" "\<bar>t7\<bar> \<le> 2 * b"
    and "256 * x \<le> 181 * t5 + 181 * t6" "181 * t5 + 181 * t6 \<le> 256 * x + 255"
    and "256 * y \<le> 334 * t6 + 334 * t7" "334 * t6 + 334 * t7 \<le> 256 * y + 255"
    and "256 * z \<le> 98 * t4 + 98 * t5 - 98 * t6 - 98 * t7" "98 * t4 + 98 * t5 - 98 * t6 - 98 * t7 \<le> 256 * z + 255"
  shows "\<bar>t7 + x - (y + z)\<bar> \<le> 14 * b + 3"
proof -
  note t = assms(1-4)[THEN abs_le_D1] assms(1-4)[THEN abs_le_D2]
  have "t7 + x - (y + z) \<le> 14 * b + 3" using t assms(5-) by linarith
  moreover have "- (t7 + x - (y + z)) \<le> 14 * b + 3" using t assms(5-) by linarith
  ultimately show ?thesis by (rule abs_leI)
qed

lemma fdct_1d_bound:
  assumes "\<And>k. k < 8 \<Longrightarrow> \<bar>d ! k\<bar> \<le> b"
  shows "\<bar>fdct_1d d ! 7\<bar> \<le> 14 * b + 3"
proof -
  have d: "\<bar>d ! 0\<bar> \<le> b" "\<bar>d ! 1\<bar> \<le> b" "\<bar>d ! 2\<bar> \<le> b" "\<bar>d ! 3\<bar> \<le> b"
    "\<bar>d ! 4\<bar> \<le> b" "\<bar>d ! 5\<bar> \<le> b" "\<bar>d ! 6\<bar> \<le> b" "\<bar>d ! 7\<bar> \<le> b" using assms by simp_all
  define t4 t5 t6 t7 where "t4 = d ! 3 - d ! 4" and "t5 = d ! 2 - d ! 5" and "t6 = d ! 1 - d ! 6" and "t7 = d ! 0 - d ! 7"
  have t: "\<bar>t4\<bar> \<le> 2 * b" "\<bar>t5\<bar> \<le> 2 * b" "\<bar>t6\<bar> \<le> 2 * b" "\<bar>t7\<bar> \<le> 2 * b"
    unfolding t4_def t5_def t6_def t7_def mult_2 by (rule order_trans[OF abs_triangle_ineq4 add_mono]; rule d)+
  define x y z where "x = drop_bit 8 ((t5 + t6) * 181)" and "y = drop_bit 8 ((t6 + t7) * 334)"
    and "z = drop_bit 8 ((t4 + t5 - (t6 + t7)) * 98)"
  have out: "fdct_1d d ! 7 = t7 + x - (y + z)"
    unfolding fdct_1d_def Let_def t4_def t5_def t6_def t7_def x_def y_def z_def FIX_0_382683433_def
      FIX_0_707106781_def FIX_1_306562965_def by (rule nth_last_of_8)
  have e: "(t5 + t6) * 181 = 181 * t5 + 181 * t6" "(t6 + t7) * 334 = 334 * t6 + 334 * t7"
    "(t4 + t5 - (t6 + t7)) * 98 = 98 * t4 + 98 * t5 - 98 * t6 - 98 * t7" by simp_all
  show ?thesis unfolding out
    by (rule fdct_7_arith[OF t]; unfold e[symmetric] x_def y_def z_def; rule drop8_bounds)
qed

lemma concat_map_nth:
  assumes "\<And>i. i < n \<Longrightarrow> length (f i) = 8" "i < n" "k < 8"
  shows "concat (map f [0..<n]) ! (8 * i + k) = f i ! k"
  using assms
proof (induction n)
  case (Suc n)
  have len: "length (concat (map f [0..<n])) = 8 * n"
  proof -
    have "m \<le> n \<Longrightarrow> length (concat (map f [0..<m])) = 8 * m" for m by (induction m) (simp_all add: Suc.prems)
    then show ?thesis by simp
  qed
  show ?case
  proof (cases "i = n")
    case False
    then have "8 * i + k < 8 * n" using Suc.prems by simp
    then show ?thesis using Suc False len by (simp add: nth_append)
  qed (use len in \<open>simp add: nth_append\<close>)
qed simp

lemma fdct_rows_nth: "i < 8 \<Longrightarrow> k < 8 \<Longrightarrow>
    fdct_rows x ! (8 * i + k) = to_short (fdct_1d (map (\<lambda>k. x ! (8 * i + k)) [0..<8]) ! k)"
  unfolding fdct_rows_def by (subst concat_map_nth) (simp_all del: upt_rec_numeral)

lemma fdct_nth: "k < 8 \<Longrightarrow> i < 8 \<Longrightarrow>
    jpeg_fdct_ifast x ! (8 * k + i) = to_short (fdct_1d (map (\<lambda>k. fdct_rows x ! (8 * k + i)) [0..<8]) ! k)"
  unfolding jpeg_fdct_ifast_def Let_def by (subst concat_map_nth) (simp_all del: upt_rec_numeral)

lemma length_concat_8: "(\<And>i. length (f i) = 8) \<Longrightarrow> length (concat (map f [0..<n])) = 8 * n"
  by (induction n) simp_all

lemma length_fdct [simp]: "length (jpeg_fdct_ifast x) = 64"
  by (simp add: jpeg_fdct_ifast_def Let_def length_concat_8 del: length_concat upt_rec_numeral)

lemma fdct_range: "i < 64 \<Longrightarrow> \<bar>jpeg_fdct_ifast x ! i\<bar> \<le> 32768"
  using fdct_nth[of "i div 8" "i mod 8" x] to_short_range by (simp add: less_mult_imp_div_less abs_le_iff) (smt (verit))

text \<open>The last coefficient has the largest quantization factor; it stays well within 16 bits for pixels.\<close>

lemma fdct_last:
  assumes "\<And>i. i < 64 \<Longrightarrow> \<bar>x ! i\<bar> \<le> 128"
  shows "\<bar>jpeg_fdct_ifast x ! 63\<bar> \<le> 25133"
proof -
  have row: "\<bar>fdct_rows x ! (8 * i + 7)\<bar> \<le> 1795" if "i < 8" for i
  proof -
    have "\<bar>fdct_1d (map (\<lambda>k. x ! (8 * i + k)) [0..<8]) ! 7\<bar> \<le> 14 * 128 + 3"
      by (rule fdct_1d_bound) (use assms that in simp)
    then show ?thesis using fdct_rows_nth[OF that, of 7 x] by (simp add: to_short_id)
  qed
  have "\<bar>fdct_1d (map (\<lambda>k. fdct_rows x ! (8 * k + 7)) [0..<8]) ! 7\<bar> \<le> 14 * 1795 + 3"
    by (rule fdct_1d_bound) (use row in simp)
  then show ?thesis using fdct_nth[of 7 7 x] by (simp add: to_short_id)
qed

lemma quantize_bound:
  assumes "\<bar>d\<bar> \<le> m" "0 < q" "m * q \<le> 32768 * c"
  shows "\<bar>quantize_coef d q\<bar> \<le> c"
proof -
  define p where "p = d * q"
  have p: "\<bar>p\<bar> \<le> 32768 * c"
    using order_trans[OF mult_right_mono[OF assms(1), of q] assms(3)] assms(2) by (simp add: abs_mult p_def)
  show ?thesis
  proof (cases "d < 0")
    case True
    then have "p < 0" using assms(2) by (simp add: p_def mult_neg_pos)
    then show ?thesis using p True unfolding quantize_coef_def Let_def p_def[symmetric] by (simp add: drop_bit_eq_div)
  next
    case False
    then have "0 \<le> p" using assms(2) by (simp add: p_def)
    then show ?thesis using p False unfolding quantize_coef_def Let_def p_def[symmetric] by (simp add: drop_bit_eq_div)
  qed
qed

section \<open>The quantized block\<close>

lemma zigzag_inj: "i < 64 \<Longrightarrow> j < 64 \<Longrightarrow> zigzag ! i = zigzag ! j \<longleftrightarrow> i = j"
proof -
  have "distinct zigzag" "length zigzag = 64"
    using arg_cong[OF zigzag_perm, of distinct] arg_cong[OF zigzag_perm, of length] by simp_all
  then show "i < 64 \<Longrightarrow> j < 64 \<Longrightarrow> zigzag ! i = zigzag ! j \<longleftrightarrow> i = j" by (simp add: nth_eq_iff_index_eq)
qed

lemma zigzag_onto: "j < 64 \<longleftrightarrow> (\<exists>i<64. zigzag ! i = j)"
proof -
  have "set zigzag = {0..<64}" "length zigzag = 64"
    using arg_cong[OF zigzag_perm, of set] arg_cong[OF zigzag_perm, of length] by (simp_all del: upt_rec_numeral)
  then have "j \<in> set zigzag \<longleftrightarrow> j < 64" by simp
  then show ?thesis using \<open>length zigzag = 64\<close> by (auto simp: in_set_conv_nth)
qed

lemma zigzag_less: "i < 64 \<Longrightarrow> zigzag ! i < 64"
  using zigzag_onto by blast

text \<open>Each coefficient is at its place of the zigzag order, and the second result is the last place that is not
  zero.\<close>

lemma quantization_value:
  assumes "length ZZ = 64" and small: "\<And>i. i < 64 \<Longrightarrow> \<bar>quantize_coef (d ! i) (q ! i)\<bar> \<le> 32767"
  defines "r \<equiv> quantization d q ZZ"
  shows "length (fst r) = 64" "snd r < 64" "\<And>i. i < 64 \<Longrightarrow> fst r ! (zigzag ! i) = quantize_coef (d ! i) (q ! i)"
    "\<And>j. snd r < j \<Longrightarrow> j < 64 \<Longrightarrow> fst r ! j = 0" "0 < snd r \<Longrightarrow> fst r ! snd r \<noteq> 0"
proof -
  let ?q = "\<lambda>i. quantize_coef (d ! i) (q ! i)"
  let ?step = "\<lambda>(zz, last_coef) i. let itemp = ?q i; idx = zigzag ! i
         in (zz[idx := to_short itemp], if itemp \<noteq> 0 then max last_coef idx else last_coef)"
  have id: "to_short (?q i) = ?q i" if "i < 64" for i using small[OF that] by (intro to_short_id) linarith+
  have inv: "n \<le> 64 \<Longrightarrow> (let (zz, l) = foldl ?step (ZZ, 0) [0..<n] in length zz = 64 \<and> l < 64 \<and>
     (\<forall>i<n. zz ! (zigzag ! i) = ?q i \<and> (?q i \<noteq> 0 \<longrightarrow> zigzag ! i \<le> l)) \<and> (l = 0 \<or> (\<exists>i<n. zigzag ! i = l \<and> ?q i \<noteq> 0)))" for n
  proof (induction n)
    case (Suc n)
    obtain zz l where f: "foldl ?step (ZZ, 0) [0..<n] = (zz, l)" by (cases "foldl ?step (ZZ, 0) [0..<n]")
    then have IH: "length zz = 64" "l < 64" "\<And>i. i < n \<Longrightarrow> zz ! (zigzag ! i) = ?q i"
      "\<And>i. i < n \<Longrightarrow> ?q i \<noteq> 0 \<Longrightarrow> zigzag ! i \<le> l" "l = 0 \<or> (\<exists>i<n. zigzag ! i = l \<and> ?q i \<noteq> 0)"
      using Suc by simp_all
    have z: "zigzag ! n < 64" "\<And>i. i < n \<Longrightarrow> zigzag ! i \<noteq> zigzag ! n"
      using zigzag_less[of n] zigzag_inj[of _ n] Suc.prems by simp_all
    have s: "foldl ?step (ZZ, 0) [0..<Suc n] =
        (zz[zigzag ! n := ?q n], if ?q n \<noteq> 0 then max l (zigzag ! n) else l)"
      using f id[of n] Suc.prems by (simp add: Let_def)
    define l' where "l' = (if ?q n \<noteq> 0 then max l (zigzag ! n) else l)"
    have "l' < 64" "l \<le> l'" "?q n \<noteq> 0 \<Longrightarrow> zigzag ! n \<le> l'" using IH(2) z(1) by (simp_all add: l'_def)
    moreover have "zz[zigzag ! n := ?q n] ! (zigzag ! i) = ?q i \<and> (?q i \<noteq> 0 \<longrightarrow> zigzag ! i \<le> l')" if "i < Suc n" for i
    proof (cases "i = n")
      case False
      then have "i < n" using that by simp
      moreover have "zigzag ! n \<noteq> zigzag ! i" using z(2)[OF \<open>i < n\<close>] by simp
      ultimately show ?thesis using IH(3)[of i] IH(4)[of i] \<open>l \<le> l'\<close> by auto
    qed (use calculation IH(1) z in simp)
    moreover have "l' = 0 \<or> (\<exists>i<Suc n. zigzag ! i = l' \<and> ?q i \<noteq> 0)"
    proof (cases "l' = l")
      case False
      then have "zigzag ! n = l' \<and> ?q n \<noteq> 0" by (auto simp: l'_def max_def split: if_splits)
      then show ?thesis by blast
    qed (use IH(5) less_SucI in blast)
    ultimately show ?case unfolding s l'_def[symmetric] using IH(1) by simp
  qed (use assms(1) in simp)
  obtain zz l where r: "r = (zz, l)" by (cases r)
  have f: "foldl ?step (ZZ, 0) [0..<64] = (zz, l)"
    using r unfolding r_def quantization_def by (simp only:)
  note i64 = inv[of 64, unfolded f, unfolded Let_def prod.case, simplified]
  show "length (fst r) = 64" "snd r < 64" using i64 r by simp_all
  show v: "fst r ! (zigzag ! i) = ?q i" if "i < 64" for i using i64 r that by simp
  show "fst r ! j = 0" if "snd r < j" and j: "j < 64" for j
  proof -
    obtain i where "i < 64" "zigzag ! i = j" using j zigzag_onto by blast
    then show ?thesis using i64 r \<open>snd r < j\<close> by fastforce
  qed
  show "fst r ! snd r \<noteq> 0" if "0 < snd r" using i64 r that v by force
qed

lemma quant_bounds:
  "list_all (\<lambda>q. 0 < q \<and> q \<le> 1023) (butlast quantY)" "list_all (\<lambda>q. 0 < q \<and> q \<le> 1023) (butlast quantC)"
  "quantY ! 63 = 1076" "quantC ! 63 = 1076" "length quantY = 64" "length quantC = 64"
  "quantY ! 0 = 512" "quantC ! 0 = 455"
  by (simp_all add: quantY_def quantC_def)

lemma block_bounds:
  assumes "quant = quantY \<or> quant = quantC" "\<And>i. i < 64 \<Longrightarrow> \<bar>x ! i\<bar> \<le> 128" "i < 64"
  shows "\<bar>quantize_coef (jpeg_fdct_ifast x ! i) (quant ! i)\<bar> \<le> (if i = 0 then 512 else 1023)"
proof (cases "i = 63")
  case True
  have "quant ! 63 = 1076" using assms(1) quant_bounds by auto
  then have "\<bar>quantize_coef (jpeg_fdct_ifast x ! 63) (quant ! 63)\<bar> \<le> 1023"
    using quantize_bound[OF fdct_last[OF assms(2)], of "quant ! 63" 1023] by simp
  then show ?thesis using True by simp
next
  case False
  then have i: "i < length (butlast quant)" using assms(1,3) quant_bounds by auto
  then have q: "0 < quant ! i" "quant ! i \<le> 1023"
    using assms(1) quant_bounds(1,2) nth_butlast[OF i] by (auto simp: list_all_length)
  have q0: "quant ! 0 \<le> 512" using assms(1) quant_bounds by auto
  define c where "c = (if i = 0 then 512 else 1023 :: int)"
  have "32768 * quant ! i \<le> 32768 * c" using q q0 by (simp add: c_def)
  then show ?thesis using quantize_bound[OF fdct_range[OF assms(3), of x] q(1), of c] by (simp only: c_def)
qed

end
