(* ===== verification/JpegBits.thy ===== *)
theory JpegBits
  imports JpegHuff
begin

text \<open>
  The output of the JPEG encoder: the bytes of \<^verbatim>\<open>examples/jpeg/io.c\<close> and the bit writer of \<^verbatim>\<open>coder.c\<close>, a shift
  register of 16 bits before a buffer of 256 bytes.  \<open>written\<close> relates its state to the string of all bits written
  so far: full 16-bit groups are bytes, with a zero after each \<open>0xFF\<close>, the others wait in the register.
\<close>

section \<open>State and writers\<close>

text \<open>The global variables of the encoder.  \<open>outbytes\<close> is the bytes stored so far, from the start of the array \<open>output\<close> up to
  \<open>pOut\<close>.  The code does not compare \<open>pOut\<close> with the end of the array, which has 8192 bytes; \<open>overrun\<close> records that a byte
  was stored behind it, where other variables are, and the state then no longer tells what the program does.  The quantized DC coefficients and the subsampled colour blocks are the static
  data of \<open>process_DU\<close> and \<open>load_data_unit_from_RGB_buffer\<close>; \<open>DU\<close> is the block of \<open>main_encoder\<close>.\<close>

record coder =
  outbytes :: "u8 list"
  overrun :: bool
  shiftword16 :: u32
  shiftpos16 :: nat
  writebuf :: "u8 list"
  pwritebuf :: nat
  blk_DC :: "nat \<Rightarrow> int"
  CDU :: "nat \<Rightarrow> int list"
  DU :: "int list"

definition writebyte :: "u8 \<Rightarrow> coder \<Rightarrow> coder" where
  "writebyte b st = st\<lparr>outbytes := outbytes st @ [b], overrun := overrun st \<or> 8192 \<le> length (outbytes st)\<rparr>"

definition writeword :: "u16 \<Rightarrow> coder \<Rightarrow> coder" where
  "writeword w st = writebyte (ucast w) (writebyte (ucast (drop_bit 8 w)) st)"

definition writearray :: "u8 list \<Rightarrow> coder \<Rightarrow> coder" where
  "writearray p st = foldl (\<lambda>st b. writebyte b st) st p"

definition init_output :: "coder \<Rightarrow> coder" where
  "init_output st = st\<lparr>outbytes := [], overrun := False\<rparr>"

text \<open>The number of bytes that differ from the reference output; bytes that were not written keep the value \<open>mem\<close>
  of the array.\<close>

definition fini_output :: "(nat \<Rightarrow> u8) \<Rightarrow> u8 list \<Rightarrow> coder \<Rightarrow> nat" where
  "fini_output mem ref_out st =
     (let arr = (\<lambda>i. if i < length (outbytes st) then outbytes st ! i else mem i)
      in foldl (\<lambda>error i. if arr i \<noteq> ref_out ! i then error + 1 else error) 0 [0..<length ref_out])"

section \<open>The bit writer\<close>

definition writebuf_add :: "u8 \<Rightarrow> coder \<Rightarrow> coder" where
  "writebuf_add a st =
     (if pwritebuf st < 256
      then st\<lparr>writebuf := (writebuf st)[pwritebuf st := a], pwritebuf := pwritebuf st + 1\<rparr>
      else let st = writearray (writebuf st) st
           in st\<lparr>writebuf := (writebuf st)[0 := a], pwritebuf := 1\<rparr>)"

definition writebuf_flush :: "coder \<Rightarrow> coder" where
  "writebuf_flush st = writearray (take (pwritebuf st) (writebuf st)) st"

definition writebits_add :: "u32 \<Rightarrow> nat \<Rightarrow> coder \<Rightarrow> coder" where
  "writebits_add value len st =
     (let freebits = 16 - shiftpos16 st;
          outword16 = push_bit freebits (shiftword16 st) OR drop_bit (len - freebits) value;
          st = st\<lparr>shiftword16 := value, shiftpos16 := len - freebits\<rparr>;
          hibyte = ucast (drop_bit 8 outword16 AND 0xFF);
          st = writebuf_add hibyte st;
          st = (if hibyte = 0xFF then writebuf_add 0 st else st);
          lobyte = ucast (outword16 AND 0xFF);
          st = writebuf_add lobyte st
      in if lobyte = 0xFF then writebuf_add 0 st else st)"

definition writebits :: "u32 \<Rightarrow> nat \<Rightarrow> coder \<Rightarrow> coder" where
  "writebits value len st =
     (if len + shiftpos16 st < 16
      then st\<lparr>shiftword16 := push_bit len (shiftword16 st) OR value, shiftpos16 := shiftpos16 st + len\<rparr>
      else writebits_add value len st)"

definition vlc_flush :: "coder \<Rightarrow> coder" where
  "vlc_flush st =
     (let st = (if shiftpos16 st = 8
                then let byte = ucast (shiftword16 st AND 0xFF);
                         st = writebuf_add byte st
                     in if byte = 0xFF then writebuf_add 0 st else st
                else st)
      in writebuf_flush st)"

section \<open>Bytes of a bit string\<close>

text \<open>A decoder drops the zero behind each \<open>0xFF\<close>.\<close>

definition stuff :: "u8 list \<Rightarrow> u8 list" where
  "stuff bs = concat (map (\<lambda>b. if b = 0xFF then [b, 0] else [b]) bs)"

fun unstuff :: "u8 list \<Rightarrow> u8 list \<times> u8 list" where
  "unstuff [] = ([], [])"
| "unstuff (b # bs) =
     (if b = 0xFF
      then case bs of
             [] \<Rightarrow> ([], [b])
           | c # cs \<Rightarrow> if c = 0 then (b # fst (unstuff cs), snd (unstuff cs)) else ([], b # bs)
      else (b # fst (unstuff bs), snd (unstuff bs)))"

fun to_bytes :: "bool list \<Rightarrow> u8 list" where
  "to_bytes (a # b # c # d # e # f # g # h # bs) = of_nat (from_bits [a, b, c, d, e, f, g, h]) # to_bytes bs"
| "to_bytes _ = []"

definition bytes_bits :: "u8 list \<Rightarrow> bool list" where
  "bytes_bits bs = concat (map (\<lambda>b. bits_of 8 (unat b)) bs)"

lemma unstuff_stuff: "m \<noteq> 0 \<Longrightarrow> unstuff (stuff bs @ 0xFF # m # rest) = (bs, 0xFF # m # rest)"
  by (induction bs) (simp_all add: stuff_def)

lemma stuff_append: "stuff (as @ bs) = stuff as @ stuff bs"
  by (simp add: stuff_def)

lemma list8: "length xs = 8 \<Longrightarrow> \<exists>a b c d e f g h. xs = [a, b, c, d, e, f, g, h]"
  by (simp add: eval_nat_numeral length_Suc_conv) blast

lemma to_bytes_8: "length xs = 8 \<Longrightarrow> to_bytes (xs @ bs) = of_nat (from_bits xs) # to_bytes bs"
  using list8[of xs] by auto

lemma to_bytes_append: "8 dvd length xs \<Longrightarrow> to_bytes (xs @ bs) = to_bytes xs @ to_bytes bs"
proof (induction "length xs" arbitrary: xs rule: less_induct)
  case less
  show ?case
  proof (cases "length xs < 8")
    case False
    define p q where "p = take 8 xs" and "q = drop 8 xs"
    have xs: "xs = p @ q" "length p = 8" using False by (simp_all add: p_def q_def)
    then have "8 dvd length q" using less.prems by simp
    then show ?thesis using less.hyps[of q] xs by (simp add: to_bytes_8)
  qed (use less.prems in auto)
qed

lemma bytes_bits_of_bytes: "8 dvd length xs \<Longrightarrow> bytes_bits (to_bytes xs) = xs"
proof (induction "length xs" arbitrary: xs rule: less_induct)
  case less
  show ?case
  proof (cases "length xs < 8")
    case False
    define p q where "p = take 8 xs" and "q = drop 8 xs"
    have xs: "xs = p @ q" "length p = 8" using False by (simp_all add: p_def q_def)
    then have "bytes_bits (to_bytes q) = q" using less by simp
    moreover have "bits_of 8 (unat (of_nat (from_bits p) :: u8)) = p"
      using from_bits_less[of p] bits_of_from[of p] xs(2) by (simp add: unat_of_nat take_bit_nat_eq_self)
    ultimately show ?thesis unfolding xs(1) using xs(2) by (simp add: to_bytes_8 bytes_bits_def)
  qed (use less.prems in \<open>auto simp: bytes_bits_def\<close>)
qed

section \<open>The state as a bit string\<close>

text \<open>All bytes, the buffered ones included, and the bits in the register.\<close>

definition bytes_out :: "coder \<Rightarrow> u8 list" where
  "bytes_out st = outbytes st @ take (pwritebuf st) (writebuf st)"

definition pending :: "coder \<Rightarrow> bool list" where
  "pending st = bits_of (shiftpos16 st) (unat (shiftword16 st))"

definition buffer_ok :: "coder \<Rightarrow> bool" where
  "buffer_ok st \<longleftrightarrow> pwritebuf st \<le> 256 \<and> length (writebuf st) = 256 \<and> (overrun st \<longleftrightarrow> 8192 < length (outbytes st))"

definition written :: "u8 list \<Rightarrow> bool list \<Rightarrow> coder \<Rightarrow> bool" where
  "written base bs st \<longleftrightarrow>
     buffer_ok st \<and> shiftpos16 st < 16 \<and>
     bytes_out st = base @ stuff (to_bytes (take (16 * (length bs div 16)) bs)) \<and>
     pending st = drop (16 * (length bs div 16)) bs"

text \<open>The fields the writer leaves alone.\<close>

definition model_part :: "coder \<Rightarrow> (nat \<Rightarrow> int) \<times> (nat \<Rightarrow> int list) \<times> int list" where
  "model_part st = (blk_DC st, CDU st, DU st)"

text \<open>A run of bytes stored in the array.\<close>

definition emit :: "u8 list \<Rightarrow> coder \<Rightarrow> coder" where
  "emit xs st = st\<lparr>outbytes := outbytes st @ xs,
     overrun := overrun st \<or> xs \<noteq> [] \<and> 8192 < length (outbytes st) + length xs\<rparr>"

lemma emit_Nil: "emit [] st = st"
  by (simp add: emit_def)

lemma emit_emit: "emit xs (emit ys st) = emit (ys @ xs) st"
proof -
  have "(8192 < a + b \<or> 8192 < a + b + c) = (8192 < a + (b + c))" for a b c :: nat by linarith
  then show ?thesis by (cases "xs = []"; cases "ys = []") (simp_all add: emit_def)
qed

lemma writebyte_emit: "writebyte b = emit [b]"
  by (simp add: fun_eq_iff writebyte_def emit_def less_Suc_eq_le)

lemma writearray_emit: "writearray p st = emit p st"
  unfolding writearray_def
  by (induction p arbitrary: st) (simp_all add: emit_Nil writebyte_emit emit_emit)

lemma writearray_value:
  "writearray p st = st\<lparr>outbytes := outbytes st @ p,
     overrun := overrun st \<or> p \<noteq> [] \<and> 8192 < length (outbytes st) + length p\<rparr>"
  unfolding writearray_emit emit_def ..

lemma writebuf_add_value:
  fixes a :: u8
  assumes "buffer_ok st"
  defines "st' \<equiv> writebuf_add a st"
  shows "buffer_ok st'" "bytes_out st' = bytes_out st @ [a]" "pending st' = pending st"
    "shiftpos16 st' = shiftpos16 st" "shiftword16 st' = shiftword16 st" "model_part st' = model_part st"
  using assms(1) unfolding st'_def
  by (auto simp: writebuf_add_def buffer_ok_def bytes_out_def pending_def model_part_def writearray_value Let_def
      take_Suc_conv_app_nth take_update_cancel)

definition put_byte :: "u8 \<Rightarrow> coder \<Rightarrow> coder" where
  "put_byte b st = (let st = writebuf_add b st in if b = 0xFF then writebuf_add 0 st else st)"

lemma put_byte_value:
  assumes "buffer_ok st"
  shows "buffer_ok (put_byte b st)" "bytes_out (put_byte b st) = bytes_out st @ stuff [b]"
    "pending (put_byte b st) = pending st" "shiftpos16 (put_byte b st) = shiftpos16 st"
    "model_part (put_byte b st) = model_part st"
  using writebuf_add_value[OF assms, of b] writebuf_add_value[of "writebuf_add b st" 0]
  by (cases "b = 0xFF"; simp add: put_byte_def stuff_def Let_def)+

lemma odd_unat_div: "odd (unat (w :: 'a::len word) div 2 ^ s) \<longleftrightarrow> bit w s"
  using bit_unsigned_iff[of w s, where 'a = nat] by (simp only: bit_iff_odd[of "unat w"]) simp

lemma bits_of_bit: "bits_of s (unat (w :: 'a::len word)) = map (bit w) (rev [0..<s])"
  by (induction s) (simp_all only: bits_of.simps odd_unat_div, simp_all)

lemma bits_of_shift_or:
  fixes x y :: "'a::len word"
  assumes "unat y < 2 ^ n" "m + n \<le> LENGTH('a)"
  shows "bits_of (m + n) (unat (push_bit n x OR y)) = bits_of m (unat x) @ bits_of n (unat y)"
proof -
  have y: "\<not> bit y i" if "n \<le> i" for i
  proof -
    have "unat y < 2 ^ i" using assms(1) that by (metis order_less_le_trans power_increasing one_le_numeral)
    then show ?thesis unfolding odd_unat_div[symmetric] by simp
  qed
  have "bits_of m (unat (push_bit n x OR y) div 2 ^ n) = bits_of m (unat x)"
    unfolding unat_drop_bit_div[symmetric] bits_of_bit using assms(2) y
    by (auto simp: bit_drop_bit_eq bit_or_iff bit_push_bit_iff)
  moreover have "bits_of n (unat (push_bit n x OR y)) = bits_of n (unat y)"
    unfolding bits_of_bit by (auto simp: bit_or_iff bit_push_bit_iff)
  ultimately show ?thesis by (simp add: bits_of_append)
qed

lemma byte_of_mod: "(of_nat (x mod 256) :: u8) = of_nat x"
  by (simp add: of_nat_eq_iff take_bit_eq_mod word_unat_eq_iff unat_of_nat)

lemma to_bytes_16: "to_bytes (bits_of 16 c) = [of_nat (c div 256), of_nat c]"
proof -
  have b: "bits_of 16 c = bits_of 8 (c div 256) @ bits_of 8 c @ []" using bits_of_append[of 8 8 c] by simp
  show ?thesis unfolding b by (subst to_bytes_8, simp)+ (simp add: from_bits_of byte_of_mod)
qed

lemma low_byte_of_nat: "(ucast (w AND 0xFF) :: u8) = of_nat (unat (w :: u32))"
proof -
  have "w AND 0xFF = take_bit 8 w" by (simp add: take_bit_eq_mask mask_eq_exp_minus_1)
  moreover have "(ucast (take_bit 8 w) :: u8) = ucast w"
    by (rule bit_word_eqI) (auto simp: bit_ucast_iff bit_take_bit_iff)
  ultimately show ?thesis by simp
qed

lemma writebits_fit:
  assumes "len + shiftpos16 st < 16" "unat v < 2 ^ len"
  shows "pending (writebits v len st) = pending st @ bits_of len (unat v)"
    "bytes_out (writebits v len st) = bytes_out st" "shiftpos16 (writebits v len st) = shiftpos16 st + len"
    "buffer_ok (writebits v len st) = buffer_ok st" "model_part (writebits v len st) = model_part st"
  using assms bits_of_shift_or[OF assms(2), of "shiftpos16 st" "shiftword16 st"]
  by (simp_all add: writebits_def pending_def bytes_out_def buffer_ok_def model_part_def)

lemma writebits_full:
  assumes ok: "buffer_ok st" and pos: "shiftpos16 st < 16" "\<not> len + shiftpos16 st < 16" "len \<le> 16"
    and v: "unat v < 2 ^ len"
  defines "new \<equiv> pending st @ bits_of len (unat v)" and "st' \<equiv> writebits v len st"
  shows "pending st' = drop 16 new" "bytes_out st' = bytes_out st @ stuff (to_bytes (take 16 new))"
    "shiftpos16 st' < 16" "buffer_ok st'" "model_part st' = model_part st"
proof -
  define f where "f = 16 - shiftpos16 st"
  define w where "w = push_bit f (shiftword16 st) OR drop_bit (len - f) v"
  define st1 where "st1 = st\<lparr>shiftword16 := v, shiftpos16 := len - f\<rparr>"
  have f: "f \<le> len" "shiftpos16 st + f = 16" "f + (len - f) = len" using pos by (simp_all add: f_def)
  have dv: "unat (drop_bit (len - f) v) < 2 ^ f"
    using v f by (simp add: unat_drop_bit_div less_mult_imp_div_less flip: power_add)
  have bits: "bits_of len (unat v) = bits_of f (unat (drop_bit (len - f) v)) @ bits_of (len - f) (unat v)"
    using bits_of_append[of f "len - f" "unat v"] f by (simp add: unat_drop_bit_div)
  have w16: "bits_of 16 (unat w) = pending st @ bits_of f (unat (drop_bit (len - f) v))"
    using bits_of_shift_or[OF dv, of "shiftpos16 st" "shiftword16 st"] f(2) by (simp add: w_def pending_def)
  have new: "take 16 new = bits_of 16 (unat w)" "drop 16 new = bits_of (len - f) (unat v)"
  proof -
    have "new = bits_of 16 (unat w) @ bits_of (len - f) (unat v)" by (simp add: new_def bits w16)
    then show "take 16 new = bits_of 16 (unat w)" "drop 16 new = bits_of (len - f) (unat v)" by simp_all
  qed
  have hi: "(ucast (drop_bit 8 w AND 0xFF) :: u8) = of_nat (unat w div 256)"
    using low_byte_of_nat[of "drop_bit 8 w"] by (simp add: unat_drop_bit_div)
  have st': "st' = put_byte (of_nat (unat w)) (put_byte (of_nat (unat w div 256)) st1)"
    unfolding st'_def writebits_def if_not_P[OF pos(2)] writebits_add_def put_byte_def Let_def f_def[symmetric]
      w_def[symmetric] st1_def[symmetric] hi unfolding low_byte_of_nat ..
  have st1: "buffer_ok st1" "bytes_out st1 = bytes_out st" "model_part st1 = model_part st"
    "shiftpos16 st1 = len - f" "pending st1 = bits_of (len - f) (unat v)"
    using ok by (simp_all add: st1_def buffer_ok_def bytes_out_def model_part_def pending_def)
  note a = put_byte_value[OF st1(1), of "of_nat (unat w div 256)"]
  note b = put_byte_value[OF a(1), of "of_nat (unat w)"]
  show "pending st' = drop 16 new" "buffer_ok st'" "model_part st' = model_part st" "shiftpos16 st' < 16"
    unfolding st' using a b st1 new pos by (simp_all add: f_def)
  show "bytes_out st' = bytes_out st @ stuff (to_bytes (take 16 new))"
    unfolding st' new to_bytes_16 using a b st1 stuff_append[of "[of_nat (unat w div 256)]" "[of_nat (unat w)]"] by simp
qed

lemma writebits_written:
  assumes "written base bs st" "len \<le> 16" "unat v < 2 ^ len"
  shows "written base (bs @ bits_of len (unat v)) (writebits v len st)" "model_part (writebits v len st) = model_part st"
proof -
  define q where "q = length bs div 16"
  have w: "buffer_ok st" "shiftpos16 st < 16" "bytes_out st = base @ stuff (to_bytes (take (16 * q) bs))"
    "pending st = drop (16 * q) bs" using assms(1) by (simp_all add: written_def q_def)
  have "length (pending st) = shiftpos16 st" by (simp add: pending_def)
  then have len: "length bs = 16 * q + shiftpos16 st" using w(4) q_def by simp
  show "model_part (writebits v len st) = model_part st"
    using writebits_fit(5)[OF _ assms(3)] writebits_full(5)[OF w(1,2) _ assms(2,3)] by (cases "len + shiftpos16 st < 16") auto
  show "written base (bs @ bits_of len (unat v)) (writebits v len st)"
  proof (cases "len + shiftpos16 st < 16")
    case True
    then have "length (bs @ bits_of len (unat v)) div 16 = q" using len by simp
    then show ?thesis using writebits_fit[OF True assms(3)] True w len unfolding written_def by simp
  next
    case False
    then have q': "length (bs @ bits_of len (unat v)) div 16 = Suc q" using len w(2) assms(2) by simp
    have t: "take (16 * Suc q) (bs @ bits_of len (unat v)) = take (16 * q) bs @ take 16 (pending st @ bits_of len (unat v))"
      "drop (16 * Suc q) (bs @ bits_of len (unat v)) = drop 16 (pending st @ bits_of len (unat v))"
      using len w(2,4) by (simp_all add: take_add)
    have "8 dvd length (take (16 * q) bs)" using len by simp
    then show ?thesis unfolding written_def q' t to_bytes_append[OF \<open>8 dvd length (take (16 * q) bs)\<close>] stuff_append
      using writebits_full[OF w(1,2) False assms(2,3)] w(3,4) by simp
  qed
qed

text \<open>After padding to whole bytes the flush writes all of them.\<close>

lemma vlc_flush_written:
  assumes "written base bs st" "8 dvd length bs"
  shows "outbytes (vlc_flush st) = base @ stuff (to_bytes bs)"
    "overrun (vlc_flush st) \<longleftrightarrow> 8192 < length (outbytes (vlc_flush st))"
proof -
  define q where "q = length bs div 16"
  have w: "buffer_ok st" "shiftpos16 st < 16" "bytes_out st = base @ stuff (to_bytes (take (16 * q) bs))"
    "pending st = drop (16 * q) bs" using assms(1) by (simp_all add: written_def q_def)
  have "length (pending st) = shiftpos16 st" by (simp add: pending_def)
  then have len: "length bs = 16 * q + shiftpos16 st" using w(4) q_def by simp
  then have "8 dvd shiftpos16 st" using assms(2) by (simp add: dvd_add_right_iff)
  then have pos: "shiftpos16 st = 0 \<or> shiftpos16 st = 8" using w(2) by (auto elim!: dvdE)
  define st' where "st' = (if shiftpos16 st = 8 then put_byte (of_nat (unat (shiftword16 st))) st else st)"
  have fl: "outbytes (vlc_flush st) = bytes_out st'"
    by (simp add: vlc_flush_def writebuf_flush_def writearray_value bytes_out_def st'_def put_byte_def low_byte_of_nat Let_def)
  have "buffer_ok st'" using put_byte_value(1)[OF w(1)] w(1) by (simp add: st'_def)
  moreover have "vlc_flush st = writearray (take (pwritebuf st') (writebuf st')) st'"
    by (simp add: vlc_flush_def writebuf_flush_def st'_def put_byte_def low_byte_of_nat Let_def)
  ultimately show "overrun (vlc_flush st) \<longleftrightarrow> 8192 < length (outbytes (vlc_flush st))"
    by (auto simp: writearray_value buffer_ok_def)
  have split: "to_bytes bs = to_bytes (take (16 * q) bs) @ to_bytes (drop (16 * q) bs)"
    using to_bytes_append[of "take (16 * q) bs" "drop (16 * q) bs"] len by simp
  show "outbytes (vlc_flush st) = base @ stuff (to_bytes bs)"
  proof (cases "shiftpos16 st = 8")
    case True
    then have "to_bytes (pending st) = [of_nat (unat (shiftword16 st))]"
      using to_bytes_8[of "pending st" "[]"] by (simp add: pending_def from_bits_of byte_of_mod)
    then show ?thesis unfolding fl split stuff_append w(4)[symmetric]
      using True put_byte_value(2)[OF w(1)] w(3) by (simp add: st'_def)
  next
    case False
    then have "bs = take (16 * q) bs" using pos len by simp
    then show ?thesis unfolding fl using False w(3) by (simp add: st'_def)
  qed
qed

end
