(* ===== verification/JpegVlc.thy ===== *)
theory JpegVlc
  imports JpegDct JpegBits
begin

text \<open>
  The entropy coder of a block (\<^verbatim>\<open>process_DU\<close> of \<^verbatim>\<open>examples/jpeg/coder.c\<close>) and the decoder of ITU-T T.81, which gets
  the coefficients back from the bits.
\<close>

section \<open>The coder\<close>

definition calc_nrbits :: "int \<Rightarrow> nat" where
  "calc_nrbits inp =
     (let val = (if inp < 0 then - inp else inp);
          (val, out) = (if 0x10000 \<le> val then (drop_bit 6 val, 6) else (val, 0));
          (val, out) = (if 0x100 \<le> val then (drop_bit 5 val, out + 5) else (val, out));
          (val, out) = (if 0x10 \<le> val then (drop_bit 4 val, out + 4) else (val, out));
          (val, out) = (if 4 \<le> val then (drop_bit 3 val, out + 3) else (val, out));
          (val, out) = (if 2 \<le> val then (drop_bit 2 val, out + 2) else (val, out))
      in if 1 \<le> val then out + 1 else out)"

definition write_code :: "bitstring list \<Rightarrow> nat \<Rightarrow> coder \<Rightarrow> coder" where
  "write_code ht n st = writebits (ucast (bs_value (ht ! n))) (unat (bs_length (ht ! n))) st"

definition write_value :: "int \<Rightarrow> nat \<Rightarrow> coder \<Rightarrow> coder" where
  "write_value coef len st =
     writebits (word_of_int (if coef \<le> 0 then coef + push_bit len 1 - 1 else coef)) len st"

definition vlc_dc :: "bitstring list \<Rightarrow> int \<Rightarrow> coder \<Rightarrow> coder" where
  "vlc_dc HTDC Diff st =
     (if Diff = 0 then write_code HTDC 0 st
      else let nr_bits = calc_nrbits Diff
           in write_value Diff nr_bits (write_code HTDC nr_bits st))"

function skip_zeros :: "int list \<Rightarrow> nat \<Rightarrow> nat \<Rightarrow> nat" where
  "skip_zeros zz end0pos i = (if zz ! i = 0 \<and> i \<le> end0pos then skip_zeros zz end0pos (i + 1) else i)"
  by pat_completeness auto
termination by (relation "measure (\<lambda>(zz, end0pos, i). Suc end0pos - i)") auto

declare skip_zeros.simps [simp del]

lemma skip_zeros_ge: "i \<le> skip_zeros zz e i"
proof (induction zz e i rule: skip_zeros.induct)
  case (1 zz e i)
  then show ?case by (subst skip_zeros.simps) (auto dest: le_trans[rotated])
qed

function vlc_ac :: "bitstring list \<Rightarrow> int list \<Rightarrow> nat \<Rightarrow> nat \<Rightarrow> coder \<Rightarrow> coder" where
  "vlc_ac HTAC zz end0pos i st =
     (if i \<le> end0pos
      then let startpos = i;
               i = skip_zeros zz end0pos i;
               nrzeroes = i - startpos;
               st = (if 16 \<le> nrzeroes then (write_code HTAC 0xF0 ^^ (nrzeroes div 16)) st else st);
               nrzeroes = (if 16 \<le> nrzeroes then nrzeroes mod 16 else nrzeroes);
               coef = zz ! i;
               len = calc_nrbits coef;
               st = write_code HTAC (nrzeroes * 16 + len) st;
               st = write_value coef len st
           in vlc_ac HTAC zz end0pos (i + 1) st
      else st)"
  by pat_completeness auto
termination
  by (relation "measure (\<lambda>(HTAC, zz, end0pos, i, st). Suc end0pos - i)")
    (auto intro!: le_less_trans[OF diff_le_mono2[OF skip_zeros_ge]])

declare vlc_ac.simps [simp del]

definition blk_quant :: "nat \<Rightarrow> int list" where
  "blk_quant blk = [quantY, quantY, quantY, quantY, quantC, quantC] ! blk"

text \<open>The blocks 0 to 3 share \<open>DCY\<close>; 4 and 5 have \<open>DCCb\<close> and \<open>DCCr\<close>.\<close>

definition blk_DC_of :: "nat \<Rightarrow> nat" where
  "blk_DC_of blk = [0, 0, 0, 0, 1, 2] ! blk"

definition blk_HTDC :: "nat \<Rightarrow> bitstring list" where
  "blk_HTDC blk = [YDC_HT, YDC_HT, YDC_HT, YDC_HT, CbDC_HT, CbDC_HT] ! blk"

definition blk_HTAC :: "nat \<Rightarrow> bitstring list" where
  "blk_HTAC blk = [YAC_HT, YAC_HT, YAC_HT, YAC_HT, CbAC_HT, CbAC_HT] ! blk"

definition vlc_main :: "bitstring list \<Rightarrow> bitstring list \<Rightarrow> nat \<Rightarrow> int list \<Rightarrow> nat \<Rightarrow> coder \<Rightarrow> coder" where
  "vlc_main HTDC HTAC dc zz end0pos st =
     (let Diff = to_short (zz ! 0 - blk_DC st dc);
          st = st\<lparr>blk_DC := (blk_DC st)(dc := zz ! 0)\<rparr>;
          st = vlc_dc HTDC Diff st
      in if end0pos = 0 then write_code HTAC 0 st
         else let st = vlc_ac HTAC zz end0pos 1 st
              in if end0pos \<noteq> 63 then write_code HTAC 0 st else st)"

text \<open>The local array \<open>DU_ZZ\<close> is not initialised in the source; every entry is written before it is read.\<close>

definition process_DU :: "int list \<Rightarrow> nat \<Rightarrow> coder \<Rightarrow> coder" where
  "process_DU pPIX blk st =
     (let DU_DCT = jpeg_fdct_ifast pPIX;
          (DU_ZZ, end0pos) = quantization DU_DCT (blk_quant blk) (replicate 64 0)
      in vlc_main (blk_HTDC blk) (blk_HTAC blk) (blk_DC_of blk) DU_ZZ end0pos st)"

section \<open>The decoder\<close>

text \<open>A value of \<open>s\<close> bits is negative when its first bit is zero.\<close>

definition extend :: "nat \<Rightarrow> nat \<Rightarrow> int" where
  "extend s v = (if 2 * v < 2 ^ s then int v - 2 ^ s + 1 else int v)"

definition receive_extend :: "nat \<Rightarrow> bool list \<Rightarrow> (int \<times> bool list) option" where
  "receive_extend s bs = (if s \<le> length bs then Some (extend s (from_bits (take s bs)), drop s bs) else None)"

definition dec_dc :: "huff_table \<Rightarrow> bool list \<Rightarrow> (int \<times> bool list) option" where
  "dec_dc t bs =
     (case huff_decode t bs of None \<Rightarrow> None
      | Some (s, bs) \<Rightarrow> if s = 0 then Some (0, bs) else receive_extend s bs)"

text \<open>The remaining \<open>n\<close> coefficients of a block.  Symbol 0 ends the block, \<open>0xF0\<close> stands for sixteen zeros, and
  another symbol for a run of zeros (high half) before a value of as many bits as the low half says.\<close>

function dec_ac :: "huff_table \<Rightarrow> nat \<Rightarrow> bool list \<Rightarrow> (int list \<times> bool list) option" where
  "dec_ac t n bs =
     (if n = 0 then Some ([], bs)
      else case huff_decode t bs of None \<Rightarrow> None
      | Some (rs, bs) \<Rightarrow>
          if rs = 0 then Some (replicate n 0, bs)
          else if rs = 0xF0 then
            (if n < 16 then None
             else map_option (\<lambda>(cs, bs). (replicate 16 0 @ cs, bs)) (dec_ac t (n - 16) bs))
          else if n \<le> rs div 16 then None
          else case receive_extend (rs mod 16) bs of None \<Rightarrow> None
          | Some (c, bs) \<Rightarrow>
              map_option (\<lambda>(cs, bs). (replicate (rs div 16) 0 @ c # cs, bs)) (dec_ac t (n - rs div 16 - 1) bs))"
  by pat_completeness auto
termination by (relation "measure (\<lambda>(t, n, bs). n)") auto

declare dec_ac.simps [simp del]

text \<open>A block after the DC coefficient \<open>pred\<close> of its component.\<close>

definition dec_block :: "huff_table \<Rightarrow> huff_table \<Rightarrow> int \<Rightarrow> bool list \<Rightarrow> (int list \<times> bool list) option" where
  "dec_block tdc tac pred bs =
     (case dec_dc tdc bs of None \<Rightarrow> None
      | Some (d, bs) \<Rightarrow> map_option (\<lambda>(cs, bs). ((pred + d) # cs, bs)) (dec_ac tac 63 bs))"

section \<open>Numbers of bits\<close>

lemma le_drop_bit: "c \<le> drop_bit k x \<longleftrightarrow> c * 2 ^ k \<le> (x :: int)"
proof -
  have m: "x = 2 ^ k * (x div 2 ^ k) + x mod 2 ^ k" "0 \<le> x mod 2 ^ k" "x mod 2 ^ k < 2 ^ k" by simp_all
  show ?thesis unfolding drop_bit_eq_div
  proof
    assume "c \<le> x div 2 ^ k"
    then have "c * 2 ^ k \<le> x div 2 ^ k * 2 ^ k" by simp
    also have "\<dots> \<le> x" using m(1,2) by (simp only: mult.commute[of "x div 2 ^ k"])
    finally show "c * 2 ^ k \<le> x" .
  next
    assume "c * 2 ^ k \<le> x"
    moreover have "(x div 2 ^ k + 1) * 2 ^ k = 2 ^ k * (x div 2 ^ k) + 2 ^ k" by (simp add: algebra_simps)
    ultimately have "c * 2 ^ k < (x div 2 ^ k + 1) * 2 ^ k" using m by linarith
    then have "c < x div 2 ^ k + 1" by (simp only: mult_less_cancel_right) simp
    then show "c \<le> x div 2 ^ k" by simp
  qed
qed

lemma calc_nrbits_value:
  assumes "inp \<noteq> 0" "\<bar>inp\<bar> < 32768"
  shows "2 ^ calc_nrbits inp \<le> 2 * \<bar>inp\<bar>" "\<bar>inp\<bar> < 2 ^ calc_nrbits inp"
proof -
  define x where "x = \<bar>inp\<bar>"
  have x: "(if inp < 0 then - inp else inp) = x" "1 \<le> x" "x < 32768" using assms by (auto simp: x_def)
  note code = calc_nrbits_def[of inp, unfolded x(1) Let_def]
  have "2 ^ calc_nrbits inp \<le> 2 * x \<and> x < 2 ^ calc_nrbits inp"
    unfolding code using x(2,3) by (simp add: le_drop_bit drop_bit_drop_bit)
  then show "2 ^ calc_nrbits inp \<le> 2 * \<bar>inp\<bar>" "\<bar>inp\<bar> < 2 ^ calc_nrbits inp" by (simp_all add: x_def)
qed

text \<open>From \<open>2\<^sup>1\<^sup>5\<close> on the function counts one bit too few; no coefficient is that large.\<close>

lemma calc_nrbits_limit: "calc_nrbits 65535 = 15"
  by (simp add: calc_nrbits_def)

lemma calc_nrbits_0: "calc_nrbits 0 = 0"
  by (simp add: calc_nrbits_def)

lemma calc_nrbits_bounds:
  assumes "c \<noteq> 0" "\<bar>c\<bar> < 2 ^ k" "k \<le> 15"
  shows "1 \<le> calc_nrbits c" "calc_nrbits c \<le> k"
proof -
  have "(2 :: int) ^ k \<le> 2 ^ 15" using assms(3) by (intro power_increasing) simp_all
  then have n: "2 ^ calc_nrbits c \<le> 2 * \<bar>c\<bar>" "\<bar>c\<bar> < 2 ^ calc_nrbits c"
    using calc_nrbits_value[OF assms(1)] assms(2) by simp_all
  show "1 \<le> calc_nrbits c" using n(2) assms(1) by (cases "calc_nrbits c") auto
  have "(2 :: int) ^ calc_nrbits c < 2 ^ Suc k" using n(1) assms(2) by simp
  then show "calc_nrbits c \<le> k" by (simp only: power_strict_increasing_iff) 
qed

text \<open>The bits of a value and their reading.\<close>

definition value_bits :: "int \<Rightarrow> nat" where
  "value_bits c = nat (if c \<le> 0 then c + 2 ^ calc_nrbits c - 1 else c)"

lemma extend_value:
  assumes "c \<noteq> 0" "\<bar>c\<bar> < 32768"
  shows "extend (calc_nrbits c) (value_bits c) = c" "value_bits c < 2 ^ calc_nrbits c"
proof -
  let ?n = "calc_nrbits c"
  note n = calc_nrbits_value[OF assms]
  define P where "P = (2 :: int) ^ ?n"
  have v: "int (value_bits c) = (if c < 0 then c + P - 1 else c)"
    using assms(1) n(2) by (auto simp: value_bits_def P_def)
  have lt: "int (value_bits c) < P" unfolding v using n(2) assms(1) by (auto simp: P_def)
  then show "value_bits c < 2 ^ ?n" unfolding P_def by (metis of_nat_less_iff of_nat_numeral of_nat_power)
  have cond: "2 * value_bits c < 2 ^ ?n \<longleftrightarrow> 2 * int (value_bits c) < P"
    unfolding P_def by (metis of_nat_less_iff of_nat_mult of_nat_numeral of_nat_power)
  show "extend ?n (value_bits c) = c"
    unfolding extend_def cond P_def[symmetric] unfolding v using n assms(1) by (auto simp: P_def)
qed

section \<open>Writing and reading back\<close>

text \<open>The code of a symbol of a table.\<close>

locale code_table =
  fixes ht :: "bitstring list" and nr vs :: "u8 list"
  assumes agrees: "table_agrees ht (dht_table nr vs)"
begin

definition symbols :: "nat set" where "symbols = fst ` set (dht_table nr vs)"

lemma write_code_reads:
  assumes "written base bs st" "v \<in> symbols"
  shows "\<exists>w. written base (bs @ w) (write_code ht v st) \<and> model_part (write_code ht v st) = model_part st \<and>
             (\<forall>r. huff_decode (dht_table nr vs) (w @ r) = Some (v, r))"
proof -
  obtain s c where m: "(v, s, c) \<in> set (dht_table nr vs)" using assms(2) by (force simp: symbols_def)
  have fit: "codes_fit (dht_table nr vs)" using agrees by (simp add: table_agrees_def)
  have e: "entry_ok ht (v, s, c)" using agrees m by (auto simp: table_agrees_def list_all_iff)
  then have s: "s \<le> 16" "bs_length (ht ! v) = of_nat s" "bs_value (ht ! v) = of_nat c" by (simp_all add: entry_ok_def)
  have c: "c < 2 ^ s" using fit m by (auto simp: codes_fit_def list_all_iff)
  moreover have "(2 :: nat) ^ s \<le> 2 ^ 16" using s(1) by (intro power_increasing) simp_all
  ultimately have "c < 65536" by simp
  then have u: "unat (bs_length (ht ! v)) = s" "unat (ucast (bs_value (ht ! v)) :: u32) = c"
    using s by (simp_all add: unat_of_nat unsigned_ucast_eq take_bit_nat_eq_self)
  have "written base (bs @ bits_of s c) (write_code ht v st)" "model_part (write_code ht v st) = model_part st"
    using writebits_written[OF assms(1), of s "ucast (bs_value (ht ! v))"] s(1) c by (simp_all add: write_code_def u)
  then show ?thesis using huff_decode_code[OF fit m] by blast
qed

end

interpretation ydc: code_table YDC_HT "YDC_nrcodes DHTinfo" "YDC_values DHTinfo"
  by unfold_locales (rule ydc_agrees)

interpretation yac: code_table YAC_HT "YAC_nrcodes DHTinfo" "YAC_values DHTinfo"
  by unfold_locales (rule yac_agrees)

interpretation cdc: code_table CbDC_HT "CbDC_nrcodes DHTinfo" "CbDC_values DHTinfo"
  by unfold_locales (rule cdc_agrees)

interpretation cac: code_table CbAC_HT "CbAC_nrcodes DHTinfo" "CbAC_values DHTinfo"
  by unfold_locales (rule cac_agrees)

lemma write_value_reads:
  assumes "written base bs st" "c \<noteq> 0" "\<bar>c\<bar> < 32768"
  defines "n \<equiv> calc_nrbits c"
  shows "\<exists>w. written base (bs @ w) (write_value c n st) \<and> model_part (write_value c n st) = model_part st \<and>
             (\<forall>r. receive_extend n (w @ r) = Some (c, r))"
proof -
  let ?v = "word_of_int (if c \<le> 0 then c + push_bit n 1 - 1 else c) :: u32"
  have n: "n \<le> 15" using calc_nrbits_bounds[of c 15] assms(2,3) by (simp add: n_def)
  note x = extend_value[OF assms(2,3), folded n_def]
  have nn: "0 \<le> (if c \<le> 0 then c + push_bit n 1 - 1 else c)"
    using calc_nrbits_value(2)[OF assms(2,3)] by (auto simp: n_def)
  have "value_bits c < 2 ^ 15" using x(2) n by (meson order_less_le_trans power_increasing one_le_numeral)
  moreover have "?v = of_nat (value_bits c)"
  proof -
    have "value_bits c = nat (if c \<le> 0 then c + push_bit n 1 - 1 else c)"
      by (simp add: value_bits_def n_def push_bit_eq_mult)
    then show ?thesis using nn by (metis int_nat_eq of_int_of_nat_eq)
  qed
  ultimately have u: "unat ?v = value_bits c" by (simp only: unat_of_nat) (simp add: take_bit_nat_eq_self)
  have "written base (bs @ bits_of n (value_bits c)) (write_value c n st)" "model_part (write_value c n st) = model_part st"
    using writebits_written[OF assms(1), of n ?v] n x(2) unfolding u write_value_def by simp_all
  moreover have "receive_extend n (bits_of n (value_bits c) @ r) = Some (c, r)" for r
    using x by (simp add: receive_extend_def from_bits_of)
  ultimately show ?thesis by blast
qed

lemma skip_zeros_value:
  assumes "zz ! e \<noteq> 0" "i \<le> e"
  defines "j \<equiv> skip_zeros zz e i"
  shows "j \<le> e" "zz ! j \<noteq> 0" "\<And>k. i \<le> k \<Longrightarrow> k < j \<Longrightarrow> zz ! k = 0"
proof -
  have "i \<le> e \<Longrightarrow> skip_zeros zz e i \<le> e \<and> zz ! skip_zeros zz e i \<noteq> 0 \<and>
      (\<forall>k. i \<le> k \<and> k < skip_zeros zz e i \<longrightarrow> zz ! k = 0)" if "zz ! e \<noteq> 0" for i
    using that
  proof (induction zz e i rule: skip_zeros.induct)
    case (1 zz e i)
    show ?case
    proof (cases "zz ! i = 0")
      case True
      then have "i < e" using 1 by (cases "i = e") simp_all
      then have "skip_zeros zz e (i + 1) \<le> e \<and> zz ! skip_zeros zz e (i + 1) \<noteq> 0 \<and>
          (\<forall>k. i + 1 \<le> k \<and> k < skip_zeros zz e (i + 1) \<longrightarrow> zz ! k = 0)" using 1 True by simp
      moreover have "skip_zeros zz e i = skip_zeros zz e (i + 1)"
        using True \<open>i < e\<close> by (simp add: skip_zeros.simps[of zz e i])
      ultimately show ?thesis using True by (metis Suc_eq_plus1 Suc_leI le_neq_implies_less)
    next
      case False
      then have "skip_zeros zz e i = i" by (simp add: skip_zeros.simps[of zz e i])
      then show ?thesis using 1 False by simp
    qed
  qed
  then show "j \<le> e" "zz ! j \<noteq> 0" "\<And>k. i \<le> k \<Longrightarrow> k < j \<Longrightarrow> zz ! k = 0"
    unfolding j_def using assms(1,2) by blast+
qed

lemma zeros_split:
  assumes "i \<le> j" "j < length zz" "\<And>k. i \<le> k \<Longrightarrow> k < j \<Longrightarrow> zz ! k = 0"
  shows "drop i zz = replicate (j - i) 0 @ zz ! j # drop (Suc j) zz"
proof -
  have "take (j - i) (drop i zz) = replicate (j - i) 0"
    using assms by (intro nth_equalityI) simp_all
  moreover have "drop (j - i) (drop i zz) = zz ! j # drop (Suc j) zz" using assms(1,2) by (simp add: Cons_nth_drop_Suc)
  ultimately show ?thesis by (metis append_take_drop_id)
qed

text \<open>A pair of tables with the symbols a block can need.\<close>

locale block_coder =
  dc: code_table htdc nrdc vsdc + ac: code_table htac nrac vsac for htdc nrdc vsdc htac nrac vsac +
  assumes dc_symbols: "n < 12 \<Longrightarrow> n \<in> dc.symbols"
    and ac_run_symbols: "r < 16 \<Longrightarrow> 1 \<le> n \<Longrightarrow> n \<le> 10 \<Longrightarrow> r * 16 + n \<in> ac.symbols"
    and ac_marks: "0 \<in> ac.symbols" "0xF0 \<in> ac.symbols"
begin

abbreviation tdc :: huff_table where "tdc \<equiv> dht_table nrdc vsdc"
abbreviation tac :: huff_table where "tac \<equiv> dht_table nrac vsac"

lemma zeros_read:
  assumes "written base bs st"
  shows "\<exists>w. written base (bs @ w) ((write_code htac 0xF0 ^^ m) st) \<and>
             model_part ((write_code htac 0xF0 ^^ m) st) = model_part st \<and>
             (\<forall>n r cs r'. dec_ac tac n r = Some (cs, r') \<longrightarrow>
                dec_ac tac (16 * m + n) (w @ r) = Some (replicate (16 * m) 0 @ cs, r'))"
proof (induction m)
  case 0
  then show ?case using assms by (intro exI[of _ "[]"]) simp
next
  case (Suc m)
  then obtain w where w: "written base (bs @ w) ((write_code htac 0xF0 ^^ m) st)"
    "model_part ((write_code htac 0xF0 ^^ m) st) = model_part st"
    "\<And>n r cs r'. dec_ac tac n r = Some (cs, r') \<Longrightarrow> dec_ac tac (16 * m + n) (w @ r) = Some (replicate (16 * m) 0 @ cs, r')"
    by blast
  obtain v where v: "written base ((bs @ w) @ v) (write_code htac 0xF0 ((write_code htac 0xF0 ^^ m) st))"
    "model_part (write_code htac 0xF0 ((write_code htac 0xF0 ^^ m) st)) = model_part st"
    "\<And>r. huff_decode tac (v @ r) = Some (0xF0, r)"
    using ac.write_code_reads[OF w(1) ac_marks(2)] w(2) by auto
  have "dec_ac tac (16 * Suc m + n) (w @ v @ r) = Some (replicate (16 * Suc m) 0 @ cs, r')"
    if d: "dec_ac tac n r = Some (cs, r')" for n r cs r'
  proof -
    have "dec_ac tac (16 + n) (v @ r) = Some (replicate 16 0 @ cs, r')"
      using v(3)[of r] d by (simp add: dec_ac.simps[of _ "16 + n"])
    have e: "16 * Suc m + n = 16 * m + (16 + n)"
      "replicate (16 * Suc m) 0 = (replicate (16 * m) 0 @ replicate 16 0 :: int list)"
      by (simp, simp only: replicate_add[symmetric] mult_Suc_right add.commute)
    show ?thesis unfolding e using w(3)[OF \<open>dec_ac tac (16 + n) (v @ r) = _\<close>] by (simp only: append_assoc)
  qed
  then show ?case using v(1,2) by (intro exI[of _ "w @ v"]) simp
qed

lemma coefficient_read:
  assumes "written base bs st" "run < 16" "c \<noteq> 0" "\<bar>c\<bar> < 1024"
  defines "st' \<equiv> write_value c (calc_nrbits c) (write_code htac (run * 16 + calc_nrbits c) st)"
  shows "\<exists>w. written base (bs @ w) st' \<and> model_part st' = model_part st \<and>
             (\<forall>n r cs r'. dec_ac tac n r = Some (cs, r') \<longrightarrow>
                dec_ac tac (run + 1 + n) (w @ r) = Some (replicate run 0 @ c # cs, r'))"
proof -
  let ?n = "calc_nrbits c"
  have n: "1 \<le> ?n" "?n \<le> 10" using calc_nrbits_bounds[of c 10] assms(3,4) by simp_all
  obtain w where w: "written base (bs @ w) (write_code htac (run * 16 + ?n) st)"
    "model_part (write_code htac (run * 16 + ?n) st) = model_part st"
    "\<And>r. huff_decode tac (w @ r) = Some (run * 16 + ?n, r)"
    using ac.write_code_reads[OF assms(1) ac_run_symbols[OF assms(2) n]] by blast
  obtain v where v: "written base ((bs @ w) @ v) st'" "model_part st' = model_part st"
    "\<And>r. receive_extend ?n (v @ r) = Some (c, r)"
    using write_value_reads[OF w(1) assms(3)] assms(4) w(2) unfolding st'_def by auto
  define rs where "rs = run * 16 + ?n"
  have rs: "rs div 16 = run" "rs mod 16 = ?n" using n by (simp_all add: rs_def)
  then have ne: "rs \<noteq> 0" "rs \<noteq> 0xF0" using n by (auto simp: rs_def) presburger
  have "dec_ac tac (run + 1 + n) (w @ v @ r) = Some (replicate run 0 @ c # cs, r')"
    if "dec_ac tac n r = Some (cs, r')" for n r cs r'
    using w(3)[of "v @ r", folded rs_def] v(3)[of r] that ne by (simp add: dec_ac.simps[of _ "Suc (run + n)"] rs)
  then show ?thesis using v(1,2) by (intro exI[of _ "w @ v"]) simp
qed

lemma vlc_ac_reads:
  assumes zz: "length zz = 64" "e < 64" "zz ! e \<noteq> 0" and small: "\<And>j. 1 \<le> j \<Longrightarrow> j < 64 \<Longrightarrow> \<bar>zz ! j\<bar> < 1024"
    and "1 \<le> i" "i \<le> Suc e" and w0: "written base bs st"
  shows "\<exists>w. written base (bs @ w) (vlc_ac htac zz e i st) \<and> model_part (vlc_ac htac zz e i st) = model_part st \<and>
             (\<forall>r cs r'. dec_ac tac (63 - e) r = Some (cs, r') \<longrightarrow>
                dec_ac tac (64 - i) (w @ r) = Some (take (Suc e - i) (drop i zz) @ cs, r'))"
  using assms(5-)
proof (induction "Suc e - i" arbitrary: i st bs rule: less_induct)
  case less
  show ?case
  proof (cases "i \<le> e")
    case False
    then have "i = Suc e" "vlc_ac htac zz e i st = st" using less.prems by (simp_all add: vlc_ac.simps[of _ _ _ i])
    then show ?thesis using less.prems by (intro exI[of _ "[]"]) simp
  next
    case ie: True
    define j where "j = skip_zeros zz e i"
    have j: "j \<le> e" "zz ! j \<noteq> 0" "\<And>k. i \<le> k \<Longrightarrow> k < j \<Longrightarrow> zz ! k = 0" "i \<le> j"
      unfolding j_def using skip_zeros_value[OF zz(3) ie] skip_zeros_ge by blast+
    define m run where "m = (j - i) div 16" and "run = (j - i) mod 16"
    define st1 where "st1 = (write_code htac 0xF0 ^^ m) st"
    define st2 where "st2 = write_value (zz ! j) (calc_nrbits (zz ! j)) (write_code htac (run * 16 + calc_nrbits (zz ! j)) st1)"
    have m0: "(if 16 \<le> j - i then (write_code htac 0xF0 ^^ ((j - i) div 16)) st else st) = st1"
      "(if 16 \<le> j - i then (j - i) mod 16 else j - i) = run"
      by (simp_all add: st1_def m_def run_def)
    have step: "vlc_ac htac zz e i st = vlc_ac htac zz e (Suc j) st2"
      unfolding vlc_ac.simps[of _ _ _ i] if_P[OF ie] Let_def j_def[symmetric] m0 st2_def Suc_eq_plus1 ..
    obtain w where w: "written base (bs @ w) st1" "model_part st1 = model_part st"
      "\<And>n r cs r'. dec_ac tac n r = Some (cs, r') \<Longrightarrow> dec_ac tac (16 * m + n) (w @ r) = Some (replicate (16 * m) 0 @ cs, r')"
      using zeros_read[OF less.prems(3), of m] unfolding st1_def[symmetric] by blast
    have "run < 16" "\<bar>zz ! j\<bar> < 1024" using small[of j] j(1,4) zz(2) less.prems(1) by (simp_all add: run_def)
    from coefficient_read[OF w(1) this(1) j(2) this(2)] obtain v where
      v: "written base ((bs @ w) @ v) st2" "model_part st2 = model_part st"
      "\<And>n r cs r'. dec_ac tac n r = Some (cs, r') \<Longrightarrow> dec_ac tac (run + 1 + n) (v @ r) = Some (replicate run 0 @ zz ! j # cs, r')"
      unfolding st2_def[symmetric] w(2) by blast
    have "Suc e - Suc j < Suc e - i" "1 \<le> Suc j" "Suc j \<le> Suc e" using j(1,4) ie by simp_all
    from less.hyps[OF this v(1)]
    obtain u where u: "written base (((bs @ w) @ v) @ u) (vlc_ac htac zz e (Suc j) st2)"
      "model_part (vlc_ac htac zz e (Suc j) st2) = model_part st2"
      "\<And>r cs r'. dec_ac tac (63 - e) r = Some (cs, r') \<Longrightarrow>
         dec_ac tac (64 - Suc j) (u @ r) = Some (take (Suc e - Suc j) (drop (Suc j) zz) @ cs, r')"
      by blast
    have n: "64 - i = 16 * m + (run + 1 + (64 - Suc j))"
    proof -
      have "16 * m + run = j - i" by (simp add: m_def run_def)
      then show ?thesis using j(1,4) zz(2) by simp
    qed
    have "take (Suc e - i) (drop i zz) = replicate (j - i) 0 @ zz ! j # take (Suc e - Suc j) (drop (Suc j) zz)"
      using zeros_split[OF j(4) _ j(3)] j(1,4) zz(1,2) by (simp add: Suc_diff_le)
    also have "replicate (j - i) (0 :: int) = replicate (16 * m) 0 @ replicate run 0"
      by (simp add: m_def run_def flip: replicate_add)
    finally have t: "take (Suc e - i) (drop i zz) =
      replicate (16 * m) 0 @ replicate run 0 @ zz ! j # take (Suc e - Suc j) (drop (Suc j) zz)" by simp
    have "dec_ac tac (64 - i) ((w @ v @ u) @ r) = Some (take (Suc e - i) (drop i zz) @ cs, r')"
      if "dec_ac tac (63 - e) r = Some (cs, r')" for r cs r'
      using w(3)[OF v(3)[OF u(3)[OF that]]] unfolding n[symmetric] t by simp
    then show ?thesis unfolding step using u(1,2) v(2) by (intro exI[of _ "w @ v @ u"]) simp
  qed
qed

text \<open>A whole block.\<close>

lemma dc_read:
  assumes "written base bs st" "\<bar>d\<bar> < 2048"
  shows "\<exists>w. written base (bs @ w) (vlc_dc htdc d st) \<and> model_part (vlc_dc htdc d st) = model_part st \<and>
             (\<forall>r. dec_dc tdc (w @ r) = Some (d, r))"
proof (cases "d = 0")
  case True
  obtain w where w: "written base (bs @ w) (write_code htdc 0 st)" "model_part (write_code htdc 0 st) = model_part st"
    "\<And>r. huff_decode tdc (w @ r) = Some (0, r)"
    using dc.write_code_reads[OF assms(1) dc_symbols[of 0]] by auto
  then show ?thesis using True by (intro exI[of _ w]) (simp add: vlc_dc_def dec_dc_def)
next
  case False
  let ?n = "calc_nrbits d"
  have n: "1 \<le> ?n" "?n < 12" using calc_nrbits_bounds[of d 11] False assms(2) by simp_all
  obtain w where w: "written base (bs @ w) (write_code htdc ?n st)" "model_part (write_code htdc ?n st) = model_part st"
    "\<And>r. huff_decode tdc (w @ r) = Some (?n, r)"
    using dc.write_code_reads[OF assms(1) dc_symbols[OF n(2)]] by blast
  obtain v where v: "written base ((bs @ w) @ v) (vlc_dc htdc d st)" "model_part (vlc_dc htdc d st) = model_part st"
    "\<And>r. receive_extend ?n (v @ r) = Some (d, r)"
    using write_value_reads[OF w(1) False] assms(2) False w(2) by (auto simp: vlc_dc_def Let_def)
  have "dec_dc tdc ((w @ v) @ r) = Some (d, r)" for r
    using w(3)[of "v @ r"] v(3)[of r] n by (simp add: dec_dc_def)
  then show ?thesis using v(1,2) by (intro exI[of _ "w @ v"]) simp
qed

lemma eob_read:
  assumes "written base bs st"
  shows "\<exists>w. written base (bs @ w) (write_code htac 0 st) \<and> model_part (write_code htac 0 st) = model_part st \<and>
             (\<forall>n r. 0 < n \<longrightarrow> dec_ac tac n (w @ r) = Some (replicate n 0, r))"
proof -
  obtain w where w: "written base (bs @ w) (write_code htac 0 st)" "model_part (write_code htac 0 st) = model_part st"
    "\<And>r. huff_decode tac (w @ r) = Some (0, r)"
    using ac.write_code_reads[OF assms ac_marks(1)] by blast
  then have "dec_ac tac n (w @ r) = Some (replicate n 0, r)" if "0 < n" for n r
    using that by (simp add: dec_ac.simps[of _ n])
  then show ?thesis using w by blast
qed

lemma vlc_main_reads:
  assumes zz: "length zz = 64" "e < 64" "0 < e \<Longrightarrow> zz ! e \<noteq> 0" "\<And>j. e < j \<Longrightarrow> j < 64 \<Longrightarrow> zz ! j = 0"
    and small: "\<And>j. 1 \<le> j \<Longrightarrow> j < 64 \<Longrightarrow> \<bar>zz ! j\<bar> < 1024" and dcs: "\<bar>zz ! 0\<bar> \<le> 512" "\<bar>blk_DC st k\<bar> \<le> 512"
    and w0: "written base bs st"
  defines "st' \<equiv> vlc_main htdc htac k zz e st"
  shows "\<exists>w. written base (bs @ w) st' \<and> model_part st' = ((blk_DC st)(k := zz ! 0), CDU st, DU st) \<and>
             (\<forall>r. dec_block tdc tac (blk_DC st k) (w @ r) = Some (zz, r))"
proof -
  define d where "d = zz ! 0 - blk_DC st k"
  have d: "to_short d = d" "\<bar>d\<bar> < 2048" using dcs by (auto simp: d_def intro: to_short_id)
  define st1 where "st1 = st\<lparr>blk_DC := (blk_DC st)(k := zz ! 0)\<rparr>"
  have st1: "written base bs st1" "model_part st1 = ((blk_DC st)(k := zz ! 0), CDU st, DU st)"
    using w0 by (simp_all add: st1_def written_def buffer_ok_def bytes_out_def pending_def model_part_def)
  define st2 where "st2 = vlc_dc htdc d st1"
  obtain w where w: "written base (bs @ w) st2" "model_part st2 = model_part st1"
    "\<And>r. dec_dc tdc (w @ r) = Some (d, r)"
    using dc_read[OF st1(1) d(2)] unfolding st2_def by blast
  have st': "st' = (if e = 0 then write_code htac 0 st2
      else if e \<noteq> 63 then write_code htac 0 (vlc_ac htac zz e 1 st2) else vlc_ac htac zz e 1 st2)"
    by (simp add: st'_def vlc_main_def Let_def st2_def st1_def d_def[symmetric] d(1))
  have "\<exists>v. written base ((bs @ w) @ v) st' \<and> model_part st' = model_part st2 \<and>
      (\<forall>r. dec_ac tac 63 (v @ r) = Some (drop 1 zz, r))"
  proof (cases "e = 0")
    case True
    have "drop 1 zz = replicate 63 0" using zz(1,4) True by (intro nth_equalityI) simp_all
    then show ?thesis unfolding st' if_P[OF True] using eob_read[OF w(1)] by auto
  next
    case False
    define st3 where "st3 = vlc_ac htac zz e 1 st2"
    obtain v where v: "written base ((bs @ w) @ v) st3" "model_part st3 = model_part st2"
      "\<And>r cs r'. dec_ac tac (63 - e) r = Some (cs, r') \<Longrightarrow> dec_ac tac 63 (v @ r) = Some (take e (drop 1 zz) @ cs, r')"
      using vlc_ac_reads[OF zz(1,2) _ small _ _ w(1), of 1] zz(3) False unfolding st3_def by auto
    have z: "take e (drop 1 zz) @ replicate (63 - e) 0 = drop 1 zz"
      using zz(1,2,4) by (intro nth_equalityI) (auto simp: nth_append)
    show ?thesis
    proof (cases "e = 63")
      case True
      have "dec_ac tac 63 (v @ r) = Some (drop 1 zz, r)" for r
        using v(3)[of r "[]" r] z True by (simp add: dec_ac.simps[of _ 0])
      then show ?thesis unfolding st' using v(1,2) True st3_def by auto
    next
      case e63: False
      obtain u where u: "written base (((bs @ w) @ v) @ u) (write_code htac 0 st3)"
        "model_part (write_code htac 0 st3) = model_part st3"
        "\<And>n r. 0 < n \<Longrightarrow> dec_ac tac n (u @ r) = Some (replicate n 0, r)"
        using eob_read[OF v(1)] by blast
      have "dec_ac tac 63 ((v @ u) @ r) = Some (drop 1 zz, r)" for r
        using v(3)[OF u(3)[of "63 - e" r]] zz(2) e63 z by simp
      then show ?thesis unfolding st' using u(1,2) v(2) False e63 st3_def by (intro exI[of _ "v @ u"]) simp
    qed
  qed
  then obtain v where v: "written base ((bs @ w) @ v) st'" "model_part st' = model_part st2"
    "\<And>r. dec_ac tac 63 (v @ r) = Some (drop 1 zz, r)" by blast
  have "zz ! 0 # drop 1 zz = zz" using zz(1) by (metis Cons_nth_drop_Suc One_nat_def drop0 zero_less_numeral)
  then have "dec_block tdc tac (blk_DC st k) ((w @ v) @ r) = Some (zz, r)" for r
    using w(3)[of "v @ r"] v(3)[of r] by (simp add: dec_block_def d_def)
  then show ?thesis using v(1,2) w(2) st1(2) by (intro exI[of _ "w @ v"]) simp
qed

end

end
