(* ===== verification/Jpeg.thy ===== *)
theory Jpeg
  imports JpegVlc
begin

text \<open>
  The JPEG encoder as a whole (\<^verbatim>\<open>examples/jpeg\<close>): loading the blocks of an image, the loop over the image, the file
  header and the test bench.  The theorem at the end decodes the file again.
\<close>

section \<open>The image\<close>

record colorRGB =
  rgbB :: u8
  rgbG :: u8
  rgbR :: u8

record image =
  RGB_buffer :: "colorRGB list"
  img_width :: u16
  img_height :: u16

definition to_schar :: "int \<Rightarrow> int" where
  "to_schar x = signed_take_bit 7 x"

text \<open>The pixel in column \<open>x\<close> and row \<open>y\<close>; the rows of a bitmap are stored from the last to the first.\<close>

definition pixel :: "image \<Rightarrow> nat \<Rightarrow> nat \<Rightarrow> colorRGB" where
  "pixel img x y = RGB_buffer img ! nat ((uint (img_height img) - 1 - int y) * uint (img_width img) + int x)"

definition luma :: "colorRGB \<Rightarrow> int" where
  "luma p = to_schar (take_bit 8 (drop_bit 16 (19595 * uint (rgbR p) + 38470 * uint (rgbG p) + 7471 * uint (rgbB p))) - 128)"

definition chroma :: "nat \<Rightarrow> colorRGB \<Rightarrow> int" where
  "chroma c p =
     (if c = 0 then to_schar (drop_bit 16 (- 11058 * uint (rgbR p) - 21708 * uint (rgbG p) + 32768 * uint (rgbB p)))
      else to_schar (drop_bit 16 (32768 * uint (rgbR p) - 27438 * uint (rgbG p) - 5328 * uint (rgbB p))))"

section \<open>Loading a block\<close>

text \<open>The four pixels that share a colour sample, with the sums of their colour differences.\<close>

definition load_quad :: "image \<Rightarrow> nat \<Rightarrow> nat \<Rightarrow> nat \<Rightarrow> nat \<Rightarrow> nat \<times> nat \<Rightarrow> coder \<Rightarrow> coder" where
  "load_quad img mbx mby bx bby = (\<lambda>(y2, x2) st.
     (let (du, Cb, Cr) = foldl (\<lambda>(du, Cb, Cr) (y, x).
              let p = pixel img (mbx * 16 + bx * 8 + x2 * 2 + x) (mby * 16 + bby * 8 + y2 * 2 + y)
              in (du[(y2 * 2 + y) * 8 + (x2 * 2 + x) := luma p], Cb + chroma 0 p, Cr + chroma 1 p))
            (DU st, 0, 0) [(0, 0), (0, 1), (1, 0), (1, 1)];
          k = (bby * 4 + y2) * 8 + (bx * 4 + x2)
      in st\<lparr>DU := du,
            CDU := (CDU st)(0 := (CDU st 0)[k := to_schar (drop_bit 2 Cb)],
                            1 := (CDU st 1)[k := to_schar (drop_bit 2 Cr)])\<rparr>))"

definition load_data_unit_from_RGB_buffer :: "image \<Rightarrow> nat \<Rightarrow> nat \<Rightarrow> nat \<Rightarrow> coder \<Rightarrow> coder" where
  "load_data_unit_from_RGB_buffer img mbx mby blk st =
     (if blk < 4
      then foldl (\<lambda>st q. load_quad img mbx mby (blk mod 2) (blk div 2) q st) st (List.product [0..<4] [0..<4])
      else st\<lparr>DU := foldl (\<lambda>du (y, x). du[y * 8 + x := CDU st (blk - 4) ! (y * 8 + x)]) (DU st)
                     (List.product [0..<8] [0..<8])\<rparr>)"

section \<open>The encoder\<close>

definition encode_block :: "image \<Rightarrow> nat \<Rightarrow> nat \<Rightarrow> nat \<Rightarrow> coder \<Rightarrow> coder" where
  "encode_block img ypos xpos blk st =
     (let st = load_data_unit_from_RGB_buffer img xpos ypos blk st
      in process_DU (DU st) blk st)"

definition vlc_fini :: "coder \<Rightarrow> coder" where
  "vlc_fini st =
     (let bytepos = 8 - shiftpos16 st mod 8;
          st = (if bytepos < 8 then writebits (push_bit bytepos 1 - 1) bytepos st else st)
      in vlc_flush st)"

definition main_encoder :: "image \<Rightarrow> coder \<Rightarrow> coder" where
  "main_encoder img st =
     (let st = st\<lparr>blk_DC := (blk_DC st)(0 := 0, 1 := 0, 2 := 0)\<rparr>;
          st = foldl (\<lambda>st ypos. foldl (\<lambda>st xpos. foldl (\<lambda>st blk. encode_block img ypos xpos blk st) st [0..<6])
                 st [0..<unat (img_width img) div 16]) st [0..<unat (img_height img) div 16]
      in vlc_fini st)"

section \<open>The file\<close>

definition write_APP0info :: "coder \<Rightarrow> coder" where
  "write_APP0info st =
     (let w = writeword; b = writebyte; a = APP0info
      in b (thumbnheight a) (b (thumbnwidth a) (w (ydensity a) (w (xdensity a) (b (xyunits a) (b (versionlo a)
         (b (versionhi a) (b 0 (b 0x46 (b 0x49 (b 0x46 (b 0x4A (w (app0_length a) (w (app0_marker a) st))))))))))))))"

definition write_SOF0info :: "SOF0infotype \<Rightarrow> coder \<Rightarrow> coder" where
  "write_SOF0info s st =
     (let w = writeword; b = writebyte
      in b (QTCr s) (b (HVCr s) (b (sof0_IdCr s) (b (QTCb s) (b (HVCb s) (b (sof0_IdCb s) (b (QTY s) (b (HVY s)
         (b (sof0_IdY s) (b (sof0_components s) (w (sof0_width s) (w (sof0_height s) (b (precision s)
         (w (sof0_length s) (w (sof0_marker s) st)))))))))))))))"

definition write_DQTinfo :: "coder \<Rightarrow> coder" where
  "write_DQTinfo st =
     (let d = DQTinfo
      in writearray (Cbtable d) (writebyte (QTCbinfo d) (writearray (Ytable d) (writebyte (QTYinfo d)
         (writeword (dqt_length d) (writeword (dqt_marker d) st))))))"

definition write_DHTinfo :: "coder \<Rightarrow> coder" where
  "write_DHTinfo st =
     (let w = writeword; b = writebyte; a = writearray; d = DHTinfo
      in a (CbAC_values d) (a (CbAC_nrcodes d) (b (HTCbACinfo d)
         (a (CbDC_values d) (a (CbDC_nrcodes d) (b (HTCbDCinfo d)
         (a (YAC_values d) (a (YAC_nrcodes d) (b (HTYACinfo d)
         (a (YDC_values d) (a (YDC_nrcodes d) (b (HTYDCinfo d)
         (w (dht_length d) (w (dht_marker d) st))))))))))))))"

definition write_SOSinfo :: "coder \<Rightarrow> coder" where
  "write_SOSinfo st =
     (let w = writeword; b = writebyte; s = SOSinfo
      in b (Bf s) (b (Se s) (b (Ss s) (b (HTCr s) (b (sos_IdCr s) (b (HTCb s) (b (sos_IdCb s) (b (HTY s)
         (b (sos_IdY s) (b (sos_components s) (w (sos_length s) (w (sos_marker s) st))))))))))))"

definition write_headers :: "SOF0infotype \<Rightarrow> coder \<Rightarrow> coder" where
  "write_headers sof st =
     (let st = writeword 0xFFD8 st;
          st = write_APP0info st;
          st = write_DQTinfo st;
          st = write_SOF0info sof st;
          st = write_DHTinfo st
      in write_SOSinfo st)"

text \<open>The result counts the bytes of \<open>output\<close> that differ from the reference; \<open>mem\<close> are the bytes of the array that
  no call wrote.\<close>

definition jpeg_main :: "image \<Rightarrow> (nat \<Rightarrow> u8) \<Rightarrow> u8 list \<Rightarrow> coder \<Rightarrow> coder \<times> nat" where
  "jpeg_main img mem ref_out st =
     (let sof = SOF0info\<lparr>sof0_width := img_width img, sof0_height := img_height img\<rparr>;
          st = init_output st;
          st = write_headers sof st;
          st = main_encoder img st;
          st = writeword 0xFFD9 st
      in (st, fini_output mem ref_out st))"

text \<open>The variables before \<open>main\<close>: static data is zero, \<open>DU\<close> is not initialised.\<close>

definition start_state :: "int list \<Rightarrow> coder" where
  "start_state du =
     \<lparr>outbytes = [], overrun = False, shiftword16 = 0, shiftpos16 = 0, writebuf = replicate 256 0, pwritebuf = 0,
      blk_DC = (\<lambda>_. 0), CDU = (\<lambda>_. replicate 64 0), DU = du\<rparr>"

section \<open>Loading, in closed form\<close>

text \<open>The sample \<open>n\<close> of block \<open>blk\<close> of the macroblock.  A colour sample is the mean of four pixels.\<close>

definition chroma_mean :: "image \<Rightarrow> nat \<Rightarrow> nat \<Rightarrow> nat \<Rightarrow> nat \<Rightarrow> int" where
  "chroma_mean img mbx mby c n =
     (let p = (\<lambda>dy dx. pixel img (mbx * 16 + 2 * (n mod 8) + dx) (mby * 16 + 2 * (n div 8) + dy))
      in to_schar (drop_bit 2 (chroma c (p 0 0) + chroma c (p 0 1) + chroma c (p 1 0) + chroma c (p 1 1))))"

definition sample :: "image \<Rightarrow> nat \<Rightarrow> nat \<Rightarrow> nat \<Rightarrow> nat \<Rightarrow> int" where
  "sample img mbx mby blk n =
     (if blk < 4
      then luma (pixel img (mbx * 16 + blk mod 2 * 8 + n mod 8) (mby * 16 + blk div 2 * 8 + n div 8))
      else chroma_mean img mbx mby (blk - 4) n)"

definition data_unit :: "image \<Rightarrow> nat \<Rightarrow> nat \<Rightarrow> nat \<Rightarrow> int list" where
  "data_unit img mbx mby blk = map (sample img mbx mby blk) [0..<64]"

lemma length_updates [simp]: "length (foldl (\<lambda>d k. d[k := g k]) d ks) = length d"
  by (induction ks arbitrary: d) simp_all

lemma nth_updates:
  "j < length d \<Longrightarrow> foldl (\<lambda>d k. d[k := g k]) d ks ! j = (if j \<in> set ks then g j else d ! j)"
  by (induction ks arbitrary: d) (auto simp: nth_list_update)

definition quad_places :: "nat \<times> nat \<Rightarrow> nat list" where
  "quad_places = (\<lambda>(y2, x2). [16 * y2 + 2 * x2, 16 * y2 + 2 * x2 + 1, 16 * y2 + 2 * x2 + 8, 16 * y2 + 2 * x2 + 9])"

definition chroma_place :: "nat \<Rightarrow> nat \<times> nat \<Rightarrow> nat" where
  "chroma_place blk = (\<lambda>(y2, x2). (blk div 2 * 4 + y2) * 8 + (blk mod 2 * 4 + x2))"

lemma row_col: "b < 8 \<Longrightarrow> (a * 8 + b) mod 8 = b" "b < 8 \<Longrightarrow> (a * 8 + b) div 8 = (a :: nat)"
  by simp_all

lemma load_quad_value:
  assumes "blk < 4" "y2 < 4" "x2 < 4"
  shows "load_quad img mbx mby (blk mod 2) (blk div 2) (y2, x2) st =
     st\<lparr>DU := foldl (\<lambda>d k. d[k := sample img mbx mby blk k]) (DU st) (quad_places (y2, x2)),
        CDU := (CDU st)(0 := (CDU st 0)[chroma_place blk (y2, x2) := chroma_mean img mbx mby 0 (chroma_place blk (y2, x2))],
                        1 := (CDU st 1)[chroma_place blk (y2, x2) := chroma_mean img mbx mby 1 (chroma_place blk (y2, x2))])\<rparr>"
proof -
  have q: "sample img mbx mby blk ((y2 * 2 + y) * 8 + (x2 * 2 + x)) =
      luma (pixel img (mbx * 16 + blk mod 2 * 8 + x2 * 2 + x) (mby * 16 + blk div 2 * 8 + y2 * 2 + y))"
    if "x < 2" "y < 2" for x y
  proof -
    have "x2 * 2 + x < 8" using assms(3) that by simp
    from row_col[OF this] show ?thesis using assms(1) by (simp only: sample_def if_True add.assoc)
  qed
  have c: "chroma_place blk (y2, x2) mod 8 = blk mod 2 * 4 + x2" "chroma_place blk (y2, x2) div 8 = blk div 2 * 4 + y2"
  proof -
    have "blk mod 2 * 4 + x2 < 8" using assms(3) by (cases "blk mod 2 = 0") simp_all
    from row_col[OF this]
    show "chroma_place blk (y2, x2) mod 8 = blk mod 2 * 4 + x2" "chroma_place blk (y2, x2) div 8 = blk div 2 * 4 + y2"
      by (simp_all only: chroma_place_def prod.case)
  qed
  have m: "chroma_mean img mbx mby i (chroma_place blk (y2, x2)) = to_schar (drop_bit 2 (
      chroma i (pixel img (mbx * 16 + blk mod 2 * 8 + x2 * 2 + 0) (mby * 16 + blk div 2 * 8 + y2 * 2 + 0)) +
      chroma i (pixel img (mbx * 16 + blk mod 2 * 8 + x2 * 2 + 1) (mby * 16 + blk div 2 * 8 + y2 * 2 + 0)) +
      chroma i (pixel img (mbx * 16 + blk mod 2 * 8 + x2 * 2 + 0) (mby * 16 + blk div 2 * 8 + y2 * 2 + 1)) +
      chroma i (pixel img (mbx * 16 + blk mod 2 * 8 + x2 * 2 + 1) (mby * 16 + blk div 2 * 8 + y2 * 2 + 1))))" for i
    unfolding chroma_mean_def Let_def c by (simp add: algebra_simps)
  have p: "quad_places (y2, x2) = [(y2 * 2 + 0) * 8 + (x2 * 2 + 0), (y2 * 2 + 0) * 8 + (x2 * 2 + 1),
      (y2 * 2 + 1) * 8 + (x2 * 2 + 0), (y2 * 2 + 1) * 8 + (x2 * 2 + 1)]"
    by (simp add: quad_places_def algebra_simps)
  have q4: "sample img mbx mby blk ((y2 * 2 + 0) * 8 + (x2 * 2 + 0)) =
      luma (pixel img (mbx * 16 + blk mod 2 * 8 + x2 * 2 + 0) (mby * 16 + blk div 2 * 8 + y2 * 2 + 0))"
    "sample img mbx mby blk ((y2 * 2 + 0) * 8 + (x2 * 2 + 1)) =
      luma (pixel img (mbx * 16 + blk mod 2 * 8 + x2 * 2 + 1) (mby * 16 + blk div 2 * 8 + y2 * 2 + 0))"
    "sample img mbx mby blk ((y2 * 2 + 1) * 8 + (x2 * 2 + 0)) =
      luma (pixel img (mbx * 16 + blk mod 2 * 8 + x2 * 2 + 0) (mby * 16 + blk div 2 * 8 + y2 * 2 + 1))"
    "sample img mbx mby blk ((y2 * 2 + 1) * 8 + (x2 * 2 + 1)) =
      luma (pixel img (mbx * 16 + blk mod 2 * 8 + x2 * 2 + 1) (mby * 16 + blk div 2 * 8 + y2 * 2 + 1))"
    by (rule q; simp)+
  show ?thesis
    unfolding p m unfolding foldl_Cons foldl_Nil q4 load_quad_def prod.case Let_def chroma_place_def add_0 ..
qed

lemma quads_value:
  fixes img :: image and mbx mby :: nat and st :: coder
  assumes "blk < 4" "list_all (\<lambda>(y2, x2). y2 < 4 \<and> x2 < 4) qs"
  defines "st' \<equiv> foldl (\<lambda>st q. load_quad img mbx mby (blk mod 2) (blk div 2) q st) st qs"
  shows "DU st' = foldl (\<lambda>d k. d[k := sample img mbx mby blk k]) (DU st) (concat (map quad_places qs)) \<and>
    CDU st' 0 = foldl (\<lambda>d k. d[k := chroma_mean img mbx mby 0 k]) (CDU st 0) (map (chroma_place blk) qs) \<and>
    CDU st' 1 = foldl (\<lambda>d k. d[k := chroma_mean img mbx mby 1 k]) (CDU st 1) (map (chroma_place blk) qs) \<and>
    st' = st\<lparr>DU := DU st', CDU := CDU st'\<rparr>"
  using assms(2) unfolding st'_def
proof (induction qs arbitrary: st)
  case (Cons q qs)
  obtain y2 x2 where q: "q = (y2, x2)" by (cases q)
  then have "y2 < 4" "x2 < 4" using Cons.prems by simp_all
  note v = load_quad_value[OF assms(1) this, of img mbx mby st]
  define st1 where "st1 = load_quad img mbx mby (blk mod 2) (blk div 2) (y2, x2) st"
  have st1: "DU st1 = foldl (\<lambda>d k. d[k := sample img mbx mby blk k]) (DU st) (quad_places (y2, x2))"
    "CDU st1 0 = (CDU st 0)[chroma_place blk (y2, x2) := chroma_mean img mbx mby 0 (chroma_place blk (y2, x2))]"
    "CDU st1 1 = (CDU st 1)[chroma_place blk (y2, x2) := chroma_mean img mbx mby 1 (chroma_place blk (y2, x2))]"
    "st1\<lparr>DU := d, CDU := c\<rparr> = st\<lparr>DU := d, CDU := c\<rparr>" for d c
    by (simp_all add: v[folded st1_def])
  have qs: "list_all (\<lambda>(y2, x2). y2 < 4 \<and> x2 < 4) qs" using Cons.prems by simp
  show ?case using Cons.IH[OF qs, of st1]
    unfolding q list.map concat.simps foldl_Cons foldl_append st1_def[symmetric] unfolding st1 .
qed simp

lemma product_4: "List.product [0..<4] [0..<4] = [(0, 0), (0, 1), (0, 2), (0, 3), (1, 0), (1, 1), (1, 2), (1, 3),
    (2, 0), (2, 1), (2, 2), (2, 3), (3, 0), (3, 1), (3, 2), (3, 3 :: nat)]"
  by (simp add: upt_rec)

lemma quads_cover: "set (concat (map quad_places (List.product [0..<4] [0..<4]))) = {..<64}"
  unfolding product_4 lessThan_atLeast0 atLeastLessThan_upt upt_64 by (simp add: quad_places_def) blast

text \<open>The quarter of the colour block that luminance block \<open>quadrant n\<close> fills.\<close>

definition quadrant :: "nat \<Rightarrow> nat" where
  "quadrant n = n div 32 * 2 + n mod 8 div 4"

lemma chroma_cover:
  assumes "blk < 4" "n < 64"
  shows "n \<in> set (map (chroma_place blk) (List.product [0..<4] [0..<4])) \<longleftrightarrow> quadrant n = blk"
proof
  assume "n \<in> set (map (chroma_place blk) (List.product [0..<4] [0..<4]))"
  then obtain y2 x2 where q: "y2 < 4" "x2 < 4" "n = chroma_place blk (y2, x2)" by (auto simp del: upt_rec_numeral)
  have b: "blk mod 2 * 4 + x2 < 8" using q(2) by (cases "blk mod 2 = 0") simp_all
  have "n mod 8 = blk mod 2 * 4 + x2" "n div 8 = blk div 2 * 4 + y2"
    unfolding q(3) chroma_place_def prod.case by (rule row_col[OF b])+
  moreover have "n div 32 = n div 8 div 4" by (simp add: div_mult2_eq[symmetric])
  ultimately show "quadrant n = blk" using q(1,2) by (simp add: quadrant_def)
next
  assume a: "quadrant n = blk"
  define y2 x2 where "y2 = n div 8 mod 4" and "x2 = n mod 8 mod 4"
  have "n div 8 div 4 = n div 32" by (simp add: div_mult2_eq[symmetric])
  then have "n div 8 = n div 32 * 4 + y2" unfolding y2_def by (metis div_mult_mod_eq)
  moreover have "n mod 8 = n mod 8 div 4 * 4 + x2" unfolding x2_def by (rule div_mult_mod_eq[symmetric])
  moreover have "n = n div 8 * 8 + n mod 8" by (rule div_mult_mod_eq[symmetric])
  moreover have "n mod 8 div 4 < 2" by (simp add: less_mult_imp_div_less)
  then have "blk div 2 = n div 32" "blk mod 2 = n mod 8 div 4" unfolding a[symmetric] quadrant_def by simp_all
  ultimately have "n = chroma_place blk (y2, x2)" by (simp only: chroma_place_def prod.case)
  moreover have "y2 < 4" "x2 < 4" by (simp_all add: y2_def x2_def)
  ultimately show "n \<in> set (map (chroma_place blk) (List.product [0..<4] [0..<4]))"
    by (auto simp del: upt_rec_numeral)
qed

text \<open>The arrays have 64 entries, and the colour blocks hold the quarters before \<open>b\<close>.\<close>

definition arrays_ok :: "coder \<Rightarrow> bool" where
  "arrays_ok st \<longleftrightarrow> length (DU st) = 64 \<and> length (CDU st 0) = 64 \<and> length (CDU st 1) = 64"

definition loaded :: "image \<Rightarrow> nat \<Rightarrow> nat \<Rightarrow> nat \<Rightarrow> coder \<Rightarrow> bool" where
  "loaded img mbx mby b st \<longleftrightarrow> arrays_ok st \<and>
     (\<forall>n<64. quadrant n < b \<longrightarrow> CDU st 0 ! n = chroma_mean img mbx mby 0 n \<and> CDU st 1 ! n = chroma_mean img mbx mby 1 n)"

lemma quadrant_less: "n < 64 \<Longrightarrow> quadrant n < 4"
proof -
  assume "n < 64"
  then have "n div 32 < 2" "n mod 8 div 4 < 2" by (simp_all add: less_mult_imp_div_less)
  then show ?thesis by (simp add: quadrant_def)
qed

lemma load_value:
  fixes img :: image and mbx mby :: nat
  assumes "loaded img mbx mby blk st" "blk < 6"
  defines "st' \<equiv> load_data_unit_from_RGB_buffer img mbx mby blk st"
  shows "DU st' = data_unit img mbx mby blk \<and> loaded img mbx mby (Suc blk) st' \<and> st' = st\<lparr>DU := DU st', CDU := CDU st'\<rparr>"
proof (cases "blk < 4")
  case True
  let ?qs = "List.product [0..<4] [0..<4] :: (nat \<times> nat) list"
  have qs: "list_all (\<lambda>(y2, x2). y2 < 4 \<and> x2 < 4) ?qs" unfolding product_4 by simp
  have len: "length (DU st) = 64" "length (CDU st 0) = 64" "length (CDU st 1) = 64"
    using assms(1) by (simp_all add: loaded_def arrays_ok_def)
  have st': "st' = foldl (\<lambda>st q. load_quad img mbx mby (blk mod 2) (blk div 2) q st) st ?qs"
    unfolding st'_def load_data_unit_from_RGB_buffer_def if_P[OF True] ..
  note v = quads_value[OF True qs, of img mbx mby st, folded st']
  have du: "DU st' ! j = sample img mbx mby blk j" if "j < 64" for j
    using v nth_updates[of j "DU st" "sample img mbx mby blk"] that len(1) quads_cover by auto
  have cdu: "CDU st' c ! n = (if quadrant n = blk then chroma_mean img mbx mby c n else CDU st c ! n)"
    if "n < 64" "c = 0 \<or> c = 1" for n c
    using v nth_updates[of n "CDU st c" "chroma_mean img mbx mby c"] that len(2,3) chroma_cover[OF True that(1)]
    by (elim disjE) simp_all
  have len': "length (DU st') = 64" "length (CDU st' 0) = 64" "length (CDU st' 1) = 64"
    using v len by simp_all
  have "DU st' = data_unit img mbx mby blk"
    using len'(1) du by (intro nth_equalityI) (simp_all add: data_unit_def)
  moreover have "loaded img mbx mby (Suc blk) st'"
    using assms(1) len' cdu by (auto simp: loaded_def arrays_ok_def less_Suc_eq)
  ultimately show ?thesis using v by blast
next
  case False
  let ?qs = "List.product [0..<8] [0..<8] :: (nat \<times> nat) list"
  let ?c = "blk - 4"
  have c: "?c = 0 \<or> ?c = 1" using assms(2) False by auto
  have st': "st' = st\<lparr>DU := foldl (\<lambda>du (y, x). du[y * 8 + x := CDU st ?c ! (y * 8 + x)]) (DU st) ?qs\<rparr>"
    unfolding st'_def load_data_unit_from_RGB_buffer_def if_not_P[OF False] ..
  have fold: "foldl (\<lambda>du (y, x). du[y * 8 + x := CDU st ?c ! (y * 8 + x)]) d qs
      = foldl (\<lambda>d k. d[k := CDU st ?c ! k]) d (map (\<lambda>(y, x). y * 8 + x) qs)" for d qs
    by (induction qs arbitrary: d) auto
  have cover: "j \<in> set (map (\<lambda>(y, x). y * 8 + x) ?qs)" if "j < 64" for j
  proof -
    have "(j div 8, j mod 8) \<in> set ?qs" using that by (simp add: less_mult_imp_div_less del: upt_rec_numeral)
    from imageI[OF this, of "\<lambda>(y, x). y * 8 + x"] show ?thesis by (simp del: upt_rec_numeral)
  qed
  have len: "length (DU st) = 64" using assms(1) by (simp add: loaded_def arrays_ok_def)
  have "DU st' ! j = sample img mbx mby blk j" if "j < 64" for j
  proof -
    have "DU st' ! j = CDU st ?c ! j"
      unfolding st' fold using nth_updates[of j "DU st"] cover[OF that] that len by simp
    moreover have "quadrant j < blk" using quadrant_less[OF that] False by simp
    then have "CDU st ?c ! j = chroma_mean img mbx mby ?c j"
      using assms(1) that c by (auto simp: loaded_def)
    ultimately show ?thesis using False by (simp add: sample_def)
  qed
  moreover have "length (DU st') = 64" unfolding st' fold using len by simp
  ultimately have "DU st' = data_unit img mbx mby blk" by (intro nth_equalityI) (simp_all add: data_unit_def)
  moreover have "loaded img mbx mby (Suc blk) st'"
    using assms(1) \<open>length (DU st') = 64\<close> quadrant_less False by (simp add: loaded_def arrays_ok_def st') (meson less_le_trans not_less)
  moreover have "st' = st\<lparr>DU := DU st', CDU := CDU st'\<rparr>" by (simp add: st')
  ultimately show ?thesis by blast
qed

section \<open>Reading the file back\<close>

text \<open>The tables of a component, as the scan header selects them, and the blocks of a scan; each block is decoded
  after the last DC coefficient of its component.\<close>

definition scan_tables :: "nat \<Rightarrow> huff_table \<times> huff_table" where
  "scan_tables blk = (if blk < 4 then (ydc_table, yac_table) else (cdc_table, cac_table))"

fun dec_blocks :: "nat list \<Rightarrow> (nat \<Rightarrow> int) \<Rightarrow> bool list \<Rightarrow> (int list list \<times> (nat \<Rightarrow> int) \<times> bool list) option" where
  "dec_blocks [] p bs = Some ([], p, bs)"
| "dec_blocks (b # blks) p bs =
     (case dec_block (fst (scan_tables b)) (snd (scan_tables b)) (p (blk_DC_of b)) bs of None \<Rightarrow> None
      | Some (zz, bs) \<Rightarrow>
          map_option (\<lambda>(zs, p, bs). (zz # zs, p, bs)) (dec_blocks blks (p(blk_DC_of b := zz ! 0)) bs))"

text \<open>The coefficients of a block: transformed, quantized and in zigzag order.\<close>

definition block_coefs :: "nat \<Rightarrow> int list \<Rightarrow> int list" where
  "block_coefs blk pix = fst (quantization (jpeg_fdct_ifast pix) (blk_quant blk) (replicate 64 0))"

definition mcu_coefs :: "image \<Rightarrow> nat \<Rightarrow> nat \<Rightarrow> int list list" where
  "mcu_coefs img ypos xpos = map (\<lambda>blk. block_coefs blk (data_unit img xpos ypos blk)) [0..<6]"

definition image_coefs :: "image \<Rightarrow> int list list" where
  "image_coefs img =
     concat (map (\<lambda>ypos. concat (map (\<lambda>xpos. mcu_coefs img ypos xpos) [0..<unat (img_width img) div 16]))
       [0..<unat (img_height img) div 16])"

definition image_blocks :: "image \<Rightarrow> nat list" where
  "image_blocks img = concat (replicate (unat (img_height img) div 16)
     (concat (replicate (unat (img_width img) div 16) [0..<6])))"

interpretation luma: block_coder YDC_HT "YDC_nrcodes DHTinfo" "YDC_values DHTinfo" YAC_HT "YAC_nrcodes DHTinfo" "YAC_values DHTinfo"
proof
  show "n < 12 \<Longrightarrow> n \<in> ydc.symbols" for n
    using dc_symbols_present(1) by (simp add: list_all_iff ydc.symbols_def del: upt_rec_numeral)
  have "v \<in> set ac_symbols \<Longrightarrow> v \<in> yac.symbols" for v
    using ac_symbols_present(1) by (simp add: list_all_iff yac.symbols_def)
  then show "r < 16 \<Longrightarrow> 1 \<le> n \<Longrightarrow> n \<le> 10 \<Longrightarrow> r * 16 + n \<in> yac.symbols" "0 \<in> yac.symbols" "0xF0 \<in> yac.symbols" for r n
    using run_symbol mark_symbols by blast+
qed

interpretation chroma: block_coder CbDC_HT "CbDC_nrcodes DHTinfo" "CbDC_values DHTinfo" CbAC_HT "CbAC_nrcodes DHTinfo" "CbAC_values DHTinfo"
proof
  show "n < 12 \<Longrightarrow> n \<in> cdc.symbols" for n
    using dc_symbols_present(2) by (simp add: list_all_iff cdc.symbols_def del: upt_rec_numeral)
  have "v \<in> set ac_symbols \<Longrightarrow> v \<in> cac.symbols" for v
    using ac_symbols_present(2) by (simp add: list_all_iff cac.symbols_def)
  then show "r < 16 \<Longrightarrow> 1 \<le> n \<Longrightarrow> n \<le> 10 \<Longrightarrow> r * 16 + n \<in> cac.symbols" "0 \<in> cac.symbols" "0xF0 \<in> cac.symbols" for r n
    using run_symbol mark_symbols by blast+
qed

lemma block_tables:
  assumes "blk < 6"
  shows "blk_quant blk = (if blk < 4 then quantY else quantC)" "blk_HTDC blk = (if blk < 4 then YDC_HT else CbDC_HT)"
    "blk_HTAC blk = (if blk < 4 then YAC_HT else CbAC_HT)"
  using assms by (auto simp: blk_quant_def blk_HTDC_def blk_HTAC_def less_Suc_eq numeral_eq_Suc)

lemma process_DU_reads:
  assumes pix: "\<And>i. i < 64 \<Longrightarrow> \<bar>pix ! i\<bar> \<le> 128" and blk: "blk < 6" and dc: "\<And>k. \<bar>blk_DC st k\<bar> \<le> 512"
    and w: "written base bs st"
  defines "st' \<equiv> process_DU pix blk st" and "zz \<equiv> block_coefs blk pix" and "k \<equiv> blk_DC_of blk"
  shows "\<exists>w. written base (bs @ w) st' \<and> model_part st' = ((blk_DC st)(k := zz ! 0), CDU st, DU st) \<and>
             (\<forall>r. dec_block (fst (scan_tables blk)) (snd (scan_tables blk)) (blk_DC st k) (w @ r) = Some (zz, r))"
    "\<bar>zz ! 0\<bar> \<le> 512"
proof -
  define q where "q = quantization (jpeg_fdct_ifast pix) (blk_quant blk) (replicate 64 0)"
  have quant: "blk_quant blk = quantY \<or> blk_quant blk = quantC" using block_tables(1)[OF blk] by simp
  have small: "\<bar>quantize_coef (jpeg_fdct_ifast pix ! i) (blk_quant blk ! i)\<bar> \<le> (if i = 0 then 512 else 1023)" if "i < 64" for i
    by (rule block_bounds[OF quant _ that]) (rule pix)
  have le: "\<bar>quantize_coef (jpeg_fdct_ifast pix ! i) (blk_quant blk ! i)\<bar> \<le> 32767" if "i < 64" for i
    using small[OF that] by (simp split: if_splits)
  have v1: "length (fst q) = 64" and v2: "snd q < 64"
    unfolding q_def by (rule quantization_value(1), simp, rule le, assumption) (rule quantization_value(2), simp, rule le, assumption)
  have v3: "fst q ! (zigzag ! i) = quantize_coef (jpeg_fdct_ifast pix ! i) (blk_quant blk ! i)" if "i < 64" for i
    unfolding q_def by (rule quantization_value(3)[OF _ _ that], simp, rule le, assumption)
  have v4: "fst q ! j = 0" if "snd q < j" "j < 64" for j
    using that unfolding q_def by (intro quantization_value(4)[OF _ _ _ that(2)] le) simp_all
  have v5: "fst q ! snd q \<noteq> 0" if "0 < snd q"
    using that unfolding q_def by (intro quantization_value(5) le) simp_all
  have coef: "\<bar>fst q ! j\<bar> \<le> 1023" if "j < 64" for j
  proof -
    obtain i where i: "i < 64" "zigzag ! i = j" using \<open>j < 64\<close> zigzag_onto by blast
    show ?thesis using small[OF i(1)] v3[OF i(1)] i(2) by (simp split: if_splits)
  qed
  have "zigzag ! 0 = 0" by (simp add: zigzag_def)
  then have c0: "\<bar>fst q ! 0\<bar> \<le> 512" using small[of 0] v3[of 0] by simp
  have zz: "zz = fst q" by (simp add: zz_def block_coefs_def q_def)
  show "\<bar>zz ! 0\<bar> \<le> 512" using c0 by (simp add: zz)
  have st': "st' = vlc_main (blk_HTDC blk) (blk_HTAC blk) k zz (snd q) st"
    by (simp add: st'_def process_DU_def Let_def case_prod_beta q_def[symmetric] zz k_def)
  have small': "\<bar>fst q ! j\<bar> < 1024" if "1 \<le> j" "j < 64" for j using coef[OF that(2)] by simp
  show "\<exists>w. written base (bs @ w) st' \<and> model_part st' = ((blk_DC st)(k := zz ! 0), CDU st, DU st) \<and>
             (\<forall>r. dec_block (fst (scan_tables blk)) (snd (scan_tables blk)) (blk_DC st k) (w @ r) = Some (zz, r))"
  proof (cases "blk < 4")
    case True
    show ?thesis unfolding st' zz using luma.vlc_main_reads[OF v1 v2 v5 v4 small' c0 dc w, of k] True
      by (simp add: block_tables[OF blk] scan_tables_def)
  next
    case False
    show ?thesis unfolding st' zz using chroma.vlc_main_reads[OF v1 v2 v5 v4 small' c0 dc w, of k] False
      by (simp add: block_tables[OF blk] scan_tables_def)
  qed
qed

text \<open>From \<open>st\<close> to \<open>st'\<close> the writer appended bits that decode to the blocks \<open>zss\<close>.\<close>

definition coded :: "nat list \<Rightarrow> int list list \<Rightarrow> coder \<Rightarrow> coder \<Rightarrow> bool" where
  "coded blks zss st st' \<longleftrightarrow>
     (\<forall>base bs. written base bs st \<longrightarrow>
        (\<exists>w. written base (bs @ w) st' \<and> (\<forall>r. dec_blocks blks (blk_DC st) (w @ r) = Some (zss, blk_DC st', r))))"

lemma dec_blocks_append:
  "dec_blocks as p bs = Some (z, p', bs') \<Longrightarrow> dec_blocks cs p' bs' = Some (z', p'', bs'') \<Longrightarrow>
    dec_blocks (as @ cs) p bs = Some (z @ z', p'', bs'')"
  by (induction as arbitrary: p bs z) (auto split: option.splits)

lemma coded_Nil: "coded [] [] st st"
  unfolding coded_def by (intro allI impI exI[of _ "[]"]) simp

lemma coded_trans:
  assumes "coded as z st st1" "coded cs z' st1 st2"
  shows "coded (as @ cs) (z @ z') st st2"
  unfolding coded_def
proof (intro allI impI)
  fix base bs assume "written base bs st"
  then obtain w where w: "written base (bs @ w) st1" "\<And>r. dec_blocks as (blk_DC st) (w @ r) = Some (z, blk_DC st1, r)"
    using assms(1) unfolding coded_def by blast
  then obtain v where v: "written base ((bs @ w) @ v) st2" "\<And>r. dec_blocks cs (blk_DC st1) (v @ r) = Some (z', blk_DC st2, r)"
    using assms(2) unfolding coded_def by blast
  have "dec_blocks (as @ cs) (blk_DC st) ((w @ v) @ r) = Some (z @ z', blk_DC st2, r)" for r
    using dec_blocks_append[OF w(2)[of "v @ r"] v(2)[of r]] by simp
  then show "\<exists>w. written base (bs @ w) st2 \<and> (\<forall>r. dec_blocks (as @ cs) (blk_DC st) (w @ r) = Some (z @ z', blk_DC st2, r))"
    using v(1) by (intro exI[of _ "w @ v"]) simp
qed

definition good :: "coder \<Rightarrow> bool" where
  "good st \<longleftrightarrow> arrays_ok st \<and> (\<forall>k. \<bar>blk_DC st k\<bar> \<le> 512) \<and> (\<exists>base bs. written base bs st)"

lemma fold_coded:
  assumes "\<And>st x. good st \<Longrightarrow> good (f st x) \<and> coded blks (g x) st (f st x)" "good st"
  shows "good (foldl f st xs) \<and> coded (concat (replicate (length xs) blks)) (concat (map g xs)) st (foldl f st xs)"
  using assms(2)
proof (induction xs arbitrary: st)
  case (Cons x xs)
  then show ?case using assms(1)[of st x] Cons.IH[of "f st x"] coded_trans[of blks "g x" st "f st x"] by simp
qed (simp add: coded_Nil)

lemma schar_range: "\<bar>to_schar x\<bar> \<le> 128"
  using signed_take_bit_int_greater_eq_minus_exp[of 7 x] signed_take_bit_int_less_exp[of 7 x]
  by (simp add: to_schar_def abs_le_iff)

lemma sample_range: "\<bar>sample img mbx mby blk n\<bar> \<le> 128"
  by (cases "blk < 4") (simp_all only: sample_def luma_def chroma_mean_def Let_def schar_range if_True if_False)

lemma encode_block_coded:
  fixes img :: image and ypos xpos :: nat
  assumes "good st" "loaded img xpos ypos blk st" "blk < 6"
  defines "st' \<equiv> encode_block img ypos xpos blk st"
  shows "good st' \<and> loaded img xpos ypos (Suc blk) st' \<and> coded [blk] [block_coefs blk (data_unit img xpos ypos blk)] st st'"
proof -
  define st1 where "st1 = load_data_unit_from_RGB_buffer img xpos ypos blk st"
  define pix where "pix = data_unit img xpos ypos blk"
  define zz where "zz = block_coefs blk pix"
  have l: "DU st1 = pix" "loaded img xpos ypos (Suc blk) st1" "st1 = st\<lparr>DU := DU st1, CDU := CDU st1\<rparr>"
    unfolding st1_def pix_def using load_value[OF assms(2,3)] by blast+
  have dc: "blk_DC st1 = blk_DC st" by (subst l(3)) simp
  have w1: "written base bs st1 \<longleftrightarrow> written base bs st" for base bs
    by (subst l(3)) (simp add: written_def buffer_ok_def bytes_out_def pending_def)
  have st': "st' = process_DU pix blk st1" by (simp add: st'_def encode_block_def Let_def st1_def[symmetric] l(1))
  have range: "\<bar>pix ! i\<bar> \<le> 128" if "i < 64" for i using that sample_range by (simp add: pix_def data_unit_def del: upt_rec_numeral)
  have small: "\<bar>blk_DC st1 k\<bar> \<le> 512" for k using assms(1) by (simp add: dc good_def)
  have reads: "\<exists>w. written base (bs @ w) st' \<and> model_part st' = ((blk_DC st1)(blk_DC_of blk := zz ! 0), CDU st1, DU st1) \<and>
      (\<forall>r. dec_block (fst (scan_tables blk)) (snd (scan_tables blk)) (blk_DC st1 (blk_DC_of blk)) (w @ r) = Some (zz, r))"
    if "written base bs st1" for base bs
    unfolding st' zz_def by (rule process_DU_reads(1)[OF _ assms(3) small that]) (rule range)
  obtain base0 bs0 where w0: "written base0 bs0 st1" using assms(1) by (auto simp: good_def w1)
  have z0: "\<bar>zz ! 0\<bar> \<le> 512" unfolding zz_def by (rule process_DU_reads(2)[OF _ assms(3) small w0]) (rule range)
  obtain v where v: "written base0 (bs0 @ v) st'" "model_part st' = ((blk_DC st1)(blk_DC_of blk := zz ! 0), CDU st1, DU st1)"
    using reads[OF w0] by blast
  have m: "blk_DC st' = (blk_DC st)(blk_DC_of blk := zz ! 0)" "CDU st' = CDU st1" "DU st' = DU st1"
    using v(2) dc by (simp_all add: model_part_def)
  have ok: "arrays_ok st'" "loaded img xpos ypos (Suc blk) st'" using l(2) by (simp_all add: loaded_def arrays_ok_def m)
  have "coded [blk] [zz] st st'" unfolding coded_def
  proof (intro allI impI)
    fix base bs assume "written base bs st"
    then have "written base bs st1" by (simp add: w1)
    from reads[OF this] obtain w where w: "written base (bs @ w) st'"
      "\<And>r. dec_block (fst (scan_tables blk)) (snd (scan_tables blk)) (blk_DC st (blk_DC_of blk)) (w @ r) = Some (zz, r)"
      unfolding dc by blast
    then show "\<exists>w. written base (bs @ w) st' \<and> (\<forall>r. dec_blocks [blk] (blk_DC st) (w @ r) = Some ([zz], blk_DC st', r))"
      by (intro exI[of _ w]) (simp add: m)
  qed
  moreover have "good st'" using ok v(1) z0 assms(1) by (auto simp: good_def m)
  ultimately show ?thesis using ok by (simp add: zz_def pix_def)
qed

lemma mcu_coded:
  fixes img :: image and ypos xpos :: nat
  assumes "good st"
  defines "st' n \<equiv> foldl (\<lambda>st blk. encode_block img ypos xpos blk st) st [0..<n]"
  shows "good (st' 6) \<and> coded [0..<6] (mcu_coefs img ypos xpos) st (st' 6)"
proof -
  have "n \<le> 6 \<Longrightarrow> good (st' n) \<and> loaded img xpos ypos n (st' n) \<and>
      coded [0..<n] (map (\<lambda>blk. block_coefs blk (data_unit img xpos ypos blk)) [0..<n]) st (st' n)" for n
  proof (induction n)
    case 0
    then show ?case using assms(1) by (simp add: st'_def loaded_def good_def coded_Nil)
  next
    case (Suc n)
    have s: "st' (Suc n) = encode_block img ypos xpos n (st' n)" by (simp add: st'_def)
    from Suc have IH: "good (st' n)" "loaded img xpos ypos n (st' n)" "n < 6"
      "coded [0..<n] (map (\<lambda>blk. block_coefs blk (data_unit img xpos ypos blk)) [0..<n]) st (st' n)" by simp_all
    from encode_block_coded[OF IH(1-3)] show ?case using coded_trans[OF IH(4)] unfolding s by simp
  qed
  from this[of 6] show ?thesis by (simp add: mcu_coefs_def del: upt_rec_numeral)
qed

lemma image_coded:
  fixes img :: image
  assumes "good st"
  defines "st' \<equiv> foldl (\<lambda>st ypos. foldl (\<lambda>st xpos. foldl (\<lambda>st blk. encode_block img ypos xpos blk st) st [0..<6])
      st [0..<unat (img_width img) div 16]) st [0..<unat (img_height img) div 16]"
  shows "good st' \<and> coded (image_blocks img) (image_coefs img) st st'"
proof -
  let ?W = "unat (img_width img) div 16" and ?H = "unat (img_height img) div 16"
  have row: "good (foldl (\<lambda>st xpos. foldl (\<lambda>st blk. encode_block img ypos xpos blk st) st [0..<6]) st [0..<?W]) \<and>
      coded (concat (replicate ?W [0..<6])) (concat (map (\<lambda>xpos. mcu_coefs img ypos xpos) [0..<?W])) st
        (foldl (\<lambda>st xpos. foldl (\<lambda>st blk. encode_block img ypos xpos blk st) st [0..<6]) st [0..<?W])"
    if "good st" for st ypos
    using fold_coded[of "\<lambda>st xpos. foldl (\<lambda>st blk. encode_block img ypos xpos blk st) st [0..<6]" "[0..<6]"
        "mcu_coefs img ypos" st "[0..<?W]", OF mcu_coded that] by (simp del: upt_rec_numeral)
  show ?thesis
    using fold_coded[of "\<lambda>st ypos. foldl (\<lambda>st xpos. foldl (\<lambda>st blk. encode_block img ypos xpos blk st) st [0..<6]) st [0..<?W]"
        "concat (replicate ?W [0..<6])" "\<lambda>ypos. concat (map (\<lambda>xpos. mcu_coefs img ypos xpos) [0..<?W])" st "[0..<?H]", OF row assms(1)]
    unfolding st'_def image_blocks_def image_coefs_def by (simp del: upt_rec_numeral)
qed

section \<open>Header and end of the file\<close>

definition be16 :: "u16 \<Rightarrow> u8 list" where
  "be16 w = [ucast (drop_bit 8 w), ucast w]"

text \<open>A marker segment: its length counts the two bytes of the length and the body.\<close>

definition segment :: "u8 \<Rightarrow> u8 list \<Rightarrow> u8 list" where
  "segment m body = [0xFF, m] @ be16 (of_nat (length body + 2)) @ body"

definition header_bytes :: "u16 \<Rightarrow> u16 \<Rightarrow> u8 list" where
  "header_bytes width height =
     [0xFF, 0xD8] @
     segment 0xE0 [0x4A, 0x46, 0x49, 0x46, 0, 1, 1, 0, 0, 1, 0, 1, 0, 0] @
     segment 0xDB (0 # Ytable DQTinfo @ 1 # Cbtable DQTinfo) @
     segment 0xC0 (8 # be16 height @ be16 width @ [3, 1, 0x22, 0, 2, 0x11, 1, 3, 0x11, 1]) @
     segment 0xC4 (0 # YDC_nrcodes DHTinfo @ YDC_values DHTinfo @ 0x10 # YAC_nrcodes DHTinfo @ YAC_values DHTinfo @
       1 # CbDC_nrcodes DHTinfo @ CbDC_values DHTinfo @ 0x11 # CbAC_nrcodes DHTinfo @ CbAC_values DHTinfo) @
     segment 0xDA [3, 1, 0, 2, 0x11, 3, 0x11, 0, 0x3F, 0]"

lemma header_lengths:
  "length (Ytable DQTinfo) = 64" "length (Cbtable DQTinfo) = 64"
  "length (YDC_nrcodes DHTinfo) = 16" "length (YDC_values DHTinfo) = 12"
  "length (YAC_nrcodes DHTinfo) = 16" "length (YAC_values DHTinfo) = 162"
  "length (CbDC_nrcodes DHTinfo) = 16" "length (CbDC_values DHTinfo) = 12"
  "length (CbAC_nrcodes DHTinfo) = 16" "length (CbAC_values DHTinfo) = 162"
  by (simp_all add: DQTinfo_def DHTinfo_def)

lemma header_marks:
  "dqt_marker DQTinfo = 0xFFDB" "dqt_length DQTinfo = 0x84" "QTYinfo DQTinfo = 0" "QTCbinfo DQTinfo = 1"
  "dht_marker DHTinfo = 0xFFC4" "dht_length DHTinfo = 0x01A2" "HTYDCinfo DHTinfo = 0" "HTYACinfo DHTinfo = 0x10"
  "HTCbDCinfo DHTinfo = 1" "HTCbACinfo DHTinfo = 0x11"
  by (simp_all add: DQTinfo_def DHTinfo_def)

lemma write_emit: "writebyte b = emit [b]" "writeword w = emit (be16 w)" "writearray p = emit p"
  by (simp_all add: fun_eq_iff writebyte_emit writearray_emit writeword_def emit_emit be16_def)

lemma length_be16 [simp]: "length (be16 w) = 2"
  by (simp add: be16_def)

lemma length_header: "length (header_bytes w h) = 607"
  by (simp add: header_bytes_def segment_def header_lengths)

lemma write_headers_value:
  "write_headers (SOF0info\<lparr>sof0_width := w, sof0_height := h\<rparr>) st = emit (header_bytes w h) st"
  unfolding write_headers_def write_APP0info_def write_SOF0info_def write_DQTinfo_def write_DHTinfo_def write_SOSinfo_def
    Let_def write_emit emit_emit
  by (rule arg_cong[where f = "\<lambda>l. emit l st"]) (simp add: header_bytes_def segment_def be16_def header_lengths header_marks APP0info_def SOF0info_def SOSinfo_def)

lemma ones_bits: "n \<le> 8 \<Longrightarrow> unat (push_bit n 1 - 1 :: u32) = 2 ^ n - 1" "bits_of n (2 ^ n - 1) = replicate n True"
proof -
  show "n \<le> 8 \<Longrightarrow> unat (push_bit n 1 - 1 :: u32) = 2 ^ n - 1"
    by (simp add: le_Suc_eq numeral_eq_Suc) (elim disjE; simp)
  have "bits_of m (2 ^ n - 1) = replicate m True" if "m \<le> n" for m
    using that
  proof (induction m)
    case (Suc m)
    have "odd ((2 ^ n - 1 :: nat) div 2 ^ m)"
      using Suc.prems bit_mask_iff[of n m, where 'a = nat] by (simp add: mask_eq_exp_minus_1 bit_iff_odd)
    then show ?case using Suc by simp
  qed simp
  then show "bits_of n (2 ^ n - 1) = replicate n True" by simp
qed

lemma vlc_fini_written:
  assumes "written base bs st"
  defines "pad \<equiv> replicate ((8 - length bs mod 8) mod 8) True"
  shows "outbytes (vlc_fini st) = base @ stuff (to_bytes (bs @ pad)) \<and> 8 dvd length (bs @ pad) \<and>
    (overrun (vlc_fini st) \<longleftrightarrow> 8192 < length (outbytes (vlc_fini st)))"
proof -
  have "length (pending st) = shiftpos16 st" by (simp add: pending_def)
  moreover have "length (pending st) = length bs mod 16" using assms(1) by (simp add: written_def minus_mult_div_eq_mod)
  ultimately have "shiftpos16 st = length bs mod 16" by simp
  then have pos: "shiftpos16 st mod 8 = length bs mod 8" using mod_mod_cancel[of 8 16 "length bs"] by simp
  define n where "n = 8 - length bs mod 8"
  have dvd: "8 dvd length bs + (8 - length bs mod 8) mod 8"
  proof -
    obtain q r where q: "length bs = 8 * q + r" "r < 8" "length bs mod 8 = r"
      by (metis mod_less_divisor mult_div_mod_eq zero_less_numeral)
    have "8 * q + r + (8 - r) mod 8 = 8 * (q + of_bool (r \<noteq> 0))" using q(2) by (cases "r = 0") simp_all
    then have "length bs + (8 - length bs mod 8) mod 8 = 8 * (q + of_bool (r \<noteq> 0))" unfolding q(1)[symmetric] q(3) .
    then show ?thesis by (simp only: dvd_triv_left)
  qed
  show ?thesis
  proof (cases "n < 8")
    case True
    have w: "written base (bs @ bits_of n (2 ^ n - 1)) (writebits (push_bit n 1 - 1) n st)"
      using writebits_written(1)[OF assms(1), of n "push_bit n 1 - 1"] ones_bits(1)[of n] True by simp
    have p: "bits_of n (2 ^ n - 1) = pad" using True ones_bits(2)[of n] by (simp add: pad_def n_def)
    have "vlc_fini st = vlc_flush (writebits (push_bit n 1 - 1) n st)"
      using True by (simp add: vlc_fini_def Let_def pos n_def)
    then show ?thesis using vlc_flush_written[OF w[unfolded p]] dvd by (simp add: pad_def)
  next
    case False
    then have "length bs mod 8 = 0" by (simp add: n_def)
    then have "pad = []" "vlc_fini st = vlc_flush st" "8 dvd length bs" by (simp_all add: pad_def vlc_fini_def pos mod_eq_0_iff_dvd)
    then show ?thesis using vlc_flush_written[OF assms(1)] by simp
  qed
qed

lemma fini_output_value:
  "fini_output mem ref_out st =
     length (filter (\<lambda>i. (if i < length (outbytes st) then outbytes st ! i else mem i) \<noteq> ref_out ! i) [0..<length ref_out])"
proof -
  have "foldl (\<lambda>error i. if P i then error + 1 else error) e is = e + length (filter P is)" for P :: "nat \<Rightarrow> bool" and e "is"
    by (induction "is" arbitrary: e) auto
  then show ?thesis by (simp add: fini_output_def)
qed

section \<open>How long a file can be\<close>

lemma canon_entries: "(v, s, c) \<in> set (canon c0 l ns vs) \<Longrightarrow> v \<in> set vs"
proof (induction c0 l ns vs rule: canon.induct)
  case (2 c0 l n ns vs)
  show ?case
  proof (cases "n = 0")
    case True
    have "(v, s, c) \<in> set (canon (2 * c0) (l + 1) ns vs)"
      using 2(3) unfolding canon.simps(2)[of c0 l n ns vs] if_P[OF True] .
    then show ?thesis by (rule 2(1)[OF True])
  next
    case False
    show ?thesis
    proof (cases vs)
      case Nil
      then show ?thesis using 2(3) unfolding canon.simps(2)[of c0 l n ns vs] if_not_P[OF False] by (simp del: canon.simps)
    next
      case (Cons x xs)
      then have "(v, s, c) = (x, l, c0) \<or> (v, s, c) \<in> set (canon (Suc c0) l ((n - 1) # ns) xs)"
        using 2(3) unfolding canon.simps(2)[of c0 l n ns vs] if_not_P[OF False] by (simp del: canon.simps)
      then show ?thesis using 2(2)[OF False Cons] Cons by (auto simp del: canon.simps)
    qed
  qed
qed simp

definition short_codes :: "huff_table \<Rightarrow> bool" where
  "short_codes t \<longleftrightarrow> (\<forall>(v, s, c) \<in> set t. s \<le> 16 \<and> v < 256)"

lemma agreeing_short:
  fixes nr vs :: "u8 list"
  assumes "table_agrees ht (dht_table nr vs)"
  shows "short_codes (dht_table nr vs)"
  unfolding short_codes_def
proof clarify
  fix v s c assume m: "(v, s, c) \<in> set (dht_table nr vs)"
  then have "v \<in> set (map unat vs)" unfolding dht_table_def by (rule canon_entries)
  then have "v < 256" using unsigned_less[where 'b = 8 and 'a = nat] by auto
  moreover have "s \<le> 16" using assms m by (auto simp: table_agrees_def list_all_iff entry_ok_def)
  ultimately show "s \<le> 16 \<and> v < 256" by simp
qed

lemma huff_decode_length:
  assumes "huff_decode t bs = Some (v, r)" "short_codes t"
  shows "length bs \<le> length r + 16" "v < 256"
proof -
  obtain s c where f: "find (huff_match bs) t = Some (v, s, c)" "r = drop s bs"
    using assms(1) by (auto simp: huff_decode_def)
  then have "(v, s, c) \<in> set t" by (auto simp: find_Some_iff)
  then have "s \<le> 16" "v < 256" using assms(2) by (auto simp: short_codes_def)
  then show "length bs \<le> length r + 16" "v < 256" using f(2) by simp_all
qed

lemma receive_extend_length: "receive_extend k bs = Some (v, r) \<Longrightarrow> length bs = length r + k"
  by (auto simp: receive_extend_def split: if_splits)

lemma dec_ac_length:
  "dec_ac t n bs = Some (cs, r) \<Longrightarrow> short_codes t \<Longrightarrow> length bs \<le> length r + 31 * n"
proof (induction t n bs arbitrary: cs r rule: dec_ac.induct)
  case (1 t n bs)
  note code = 1(3)[unfolded dec_ac.simps[of t n bs]]
  show ?case
  proof (cases "n = 0")
    case True
    then show ?thesis using code by simp
  next
    case n: False
    then obtain rs bs1 where h: "huff_decode t bs = Some (rs, bs1)" using code by (auto split: option.splits)
    note l = huff_decode_length(1)[OF h 1(4)]
    consider "rs = 0" | "rs = 0xF0" | "rs \<noteq> 0" "rs \<noteq> 0xF0" by blast
    then show ?thesis
    proof cases
      case 1
      then show ?thesis using code n h l by simp
    next
      case 2
      then obtain cs' where "16 \<le> n" "dec_ac t (n - 16) bs1 = Some (cs', r)" using code n h by (auto split: if_splits)
      then show ?thesis using "1.IH"(1)[OF n h refl] 2 l 1(4) by fastforce
    next
      case 3
      then have n2: "\<not> n \<le> rs div 16" using code n h by (auto split: if_splits)
      then obtain c bs2 where e: "receive_extend (rs mod 16) bs1 = Some (c, bs2)" using code n h 3 by (auto split: option.splits)
      then obtain cs' where d: "dec_ac t (n - rs div 16 - 1) bs2 = Some (cs', r)" using code n h 3 n2 by auto
      have "length bs2 \<le> length r + 31 * (n - rs div 16 - 1)"
        by (rule "1.IH"(2)[OF n h refl 3 n2 e refl d 1(4)])
      moreover have "length bs1 \<le> length bs2 + 15" using receive_extend_length[OF e] by simp
      moreover have "31 * (n - rs div 16 - 1) + 31 \<le> 31 * n" using n2 by simp
      ultimately show ?thesis using l by linarith
    qed
  qed
qed

lemma dec_block_length:
  assumes "dec_block tdc tac p bs = Some (zz, r)" "short_codes tdc" "short_codes tac"
  shows "length bs \<le> length r + 2224"
proof -
  obtain d bs1 cs where d: "dec_dc tdc bs = Some (d, bs1)" "dec_ac tac 63 bs1 = Some (cs, r)"
    using assms(1) by (auto simp: dec_block_def split: option.splits)
  obtain k bs0 where h: "huff_decode tdc bs = Some (k, bs0)" using d(1) by (auto simp: dec_dc_def split: option.splits)
  have "length bs0 \<le> length bs1 + 255"
    using d(1) h receive_extend_length[of k bs0] huff_decode_length(2)[OF h assms(2)]
    by (fastforce simp: dec_dc_def split: if_splits)
  then show ?thesis using huff_decode_length(1)[OF h assms(2)] dec_ac_length[OF d(2) assms(3)] by simp
qed

lemma scan_tables_short: "short_codes (fst (scan_tables b))" "short_codes (snd (scan_tables b))"
  using agreeing_short[OF ydc_agrees] agreeing_short[OF yac_agrees] agreeing_short[OF cdc_agrees] agreeing_short[OF cac_agrees]
  by (simp_all add: scan_tables_def)

lemma dec_blocks_length: "dec_blocks blks p bs = Some (zs, p', r) \<Longrightarrow> length bs \<le> length r + 2224 * length blks"
proof (induction blks arbitrary: p bs zs p')
  case (Cons b blks)
  then obtain zz bs1 where z: "dec_block (fst (scan_tables b)) (snd (scan_tables b)) (p (blk_DC_of b)) bs = Some (zz, bs1)"
    by (auto split: option.splits)
  then obtain zs' where "dec_blocks blks (p(blk_DC_of b := zz ! 0)) bs1 = Some (zs', p', r)" using Cons.prems by auto
  from Cons.IH[OF this] dec_block_length[OF z scan_tables_short] show ?case by simp
qed simp

lemma length_image_blocks: "length (image_blocks img) = 6 * (unat (img_width img) div 16 * (unat (img_height img) div 16))"
  by (simp add: image_blocks_def length_concat sum_list_replicate del: upt_rec_numeral)

lemma length_stuff: "length (stuff bs) \<le> 2 * length bs"
  by (induction bs) (auto simp: stuff_def)

lemma length_to_bytes: "8 * length (to_bytes bs) \<le> length bs"
  by (induction bs rule: to_bytes.induct) simp_all

text \<open>C12: For an image of whole macroblocks of 16 by 16 pixels, as long as the file fits the output array, which is so at
  least up to two macroblocks: the file the encoder writes starts with the header whose segments have their true lengths,
  ends with the end marker, and a decoder that uses the tables of that header gets back from the bytes between them, behind
  at most seven padding bits, exactly the transformed and quantized coefficients of every block of the image, in order.
  The test bench returns 0 just when the output array starts with the reference.  A byte is stored behind the array just
  when the file has more than 8192 bytes.\<close>

theorem jpeg_file_decodes:
  fixes img :: image and du :: "nat \<Rightarrow> int" and mem :: "nat \<Rightarrow> u8" and ref_out :: "u8 list"
  assumes "16 dvd unat (img_width img)" "16 dvd unat (img_height img)"
  shows "let result = jpeg_main img mem ref_out (start_state (map du [0..<64]));
             hdr = header_bytes (img_width img) (img_height img);
             bytes = outbytes (fst result); (scan, end_mark) = unstuff (drop (length hdr) bytes)
         in (overrun (fst result) \<longleftrightarrow> 8192 < length bytes) \<and>
            (unat (img_width img) * unat (img_height img) \<le> 512 \<longrightarrow> \<not> overrun (fst result)) \<and>
            (\<not> overrun (fst result) \<longrightarrow>
              take (length hdr) bytes = hdr \<and> end_mark = [0xFF, 0xD9] \<and>
              (\<exists>p pad. dec_blocks (image_blocks img) (\<lambda>_. 0) (bytes_bits scan) = Some (image_coefs img, p, replicate pad True)
                  \<and> pad < 8) \<and>
              (snd result = 0 \<longleftrightarrow>
                 map (\<lambda>i. if i < length bytes then bytes ! i else mem i) [0..<length ref_out] = ref_out))"
proof -
  let ?n = "unat (img_width img) div 16 * (unat (img_height img) div 16)"
  define result where "result = jpeg_main img mem ref_out (start_state (map du [0..<64]))"
  define hdr where "hdr = header_bytes (img_width img) (img_height img)"
  define st0 where "st0 = start_state (map du [0..<64])\<lparr>outbytes := hdr\<rparr>"
  have lh: "length hdr = 607" by (simp add: hdr_def length_header)
  have dc0: "blk_DC st0 = (\<lambda>_. 0)" "st0\<lparr>blk_DC := (blk_DC st0)(0 := 0, 1 := 0, 2 := 0)\<rparr> = st0"
    by (simp_all add: st0_def start_state_def fun_eq_iff)
  have w0: "written hdr [] st0"
    by (simp add: written_def st0_def start_state_def buffer_ok_def bytes_out_def pending_def stuff_def lh)
  then have g0: "good st0" by (auto simp: good_def dc0 arrays_ok_def) (simp_all add: st0_def start_state_def)
  define st1 where "st1 = foldl (\<lambda>st ypos. foldl (\<lambda>st xpos. foldl (\<lambda>st blk. encode_block img ypos xpos blk st) st [0..<6])
      st [0..<unat (img_width img) div 16]) st0 [0..<unat (img_height img) div 16]"
  have "coded (image_blocks img) (image_coefs img) st0 st1" unfolding st1_def using image_coded[OF g0] by blast
  then obtain w where w: "written hdr w st1"
    "\<And>r. dec_blocks (image_blocks img) (\<lambda>_. 0) (w @ r) = Some (image_coefs img, blk_DC st1, r)"
    using w0 unfolding coded_def dc0 by (metis append_Nil)
  define pad where "pad = (8 - length w mod 8) mod 8"
  note f = vlc_fini_written[OF w(1), folded pad_def]
  have hdr: "write_headers (SOF0info\<lparr>sof0_width := img_width img, sof0_height := img_height img\<rparr>)
      (init_output (start_state (map du [0..<64]))) = st0"
    by (simp add: write_headers_value emit_def st0_def init_output_def start_state_def hdr_def length_header)
  have main: "result = (let st = writeword 0xFFD9 (vlc_fini st1) in (st, fini_output mem ref_out st))"
    unfolding result_def jpeg_main_def Let_def hdr main_encoder_def dc0(2) st1_def ..
  define bytes where "bytes = hdr @ stuff (to_bytes (w @ replicate pad True)) @ [0xFF, 0xD9]"
  have bytes: "outbytes (fst result) = bytes" using f by (simp add: main Let_def write_emit emit_def be16_def bytes_def)
  have over: "overrun (fst result) \<longleftrightarrow> 8192 < length bytes"
    unfolding bytes[symmetric] using f by (auto simp: main Let_def write_emit emit_def be16_def)
  have fits: "\<not> overrun (fst result)" if size: "unat (img_width img) * unat (img_height img) \<le> 512"
  proof -
    obtain a where a: "unat (img_width img) = 16 * a" using assms(1) by (rule dvdE)
    obtain b where b: "unat (img_height img) = 16 * b" using assms(2) by (rule dvdE)
    have n: "?n = a * b" "a * b \<le> 2" using size by (simp_all add: a b)
    have "length w \<le> 2224 * (6 * ?n)" using dec_blocks_length[OF w(2)[of "[]"]] by (simp add: length_image_blocks)
    then have "length w \<le> 26688" using n by simp
    then have "length (w @ replicate pad True) < 26696" by (simp add: pad_def)
    then have "length (to_bytes (w @ replicate pad True)) < 3337" using length_to_bytes[of "w @ replicate pad True"] by simp
    then have "length (stuff (to_bytes (w @ replicate pad True))) < 6674"
      using length_stuff[of "to_bytes (w @ replicate pad True)"] by simp
    then show ?thesis unfolding over by (simp add: bytes_def lh)
  qed
  have scan: "unstuff (drop (length hdr) bytes) = (to_bytes (w @ replicate pad True), [0xFF, 0xD9])"
    using unstuff_stuff[of "0xD9" "to_bytes (w @ replicate pad True)" "[]"] by (simp add: bytes_def)
  have dec: "dec_blocks (image_blocks img) (\<lambda>_. 0) (bytes_bits (to_bytes (w @ replicate pad True))) =
      Some (image_coefs img, blk_DC st1, replicate pad True)"
    using bytes_bits_of_bytes[of "w @ replicate pad True"] f w(2) by simp
  have res: "snd result = 0 \<longleftrightarrow> map (\<lambda>i. if i < length bytes then bytes ! i else mem i) [0..<length ref_out] = ref_out"
  proof -
    have eq: "length (filter (\<lambda>i. g i \<noteq> ref_out ! i) [0..<length ref_out]) = 0 \<longleftrightarrow> map g [0..<length ref_out] = ref_out"
      for g :: "nat \<Rightarrow> u8"
    proof -
      have "map g [0..<length ref_out] = ref_out \<longleftrightarrow> (\<forall>i<length ref_out. g i = ref_out ! i)"
        by (subst list_eq_iff_nth_eq) simp
      then show ?thesis by (auto simp: filter_empty_conv)
    qed
    have "snd result = fini_output mem ref_out (fst result)" by (simp add: main Let_def)
    then show ?thesis unfolding fini_output_value bytes by (simp only: eq)
  qed
  have "pad < 8" by (simp add: pad_def)
  then have ex: "\<exists>p pad. dec_blocks (image_blocks img) (\<lambda>_. 0) (bytes_bits (to_bytes (w @ replicate pad' True))) =
      Some (image_coefs img, p, replicate pad True) \<and> pad < 8" if "pad' = pad" for pad'
    unfolding that using dec by blast
  have "take (length hdr) bytes = hdr" by (simp add: bytes_def)
  note facts = conjI[OF over conjI[OF impI[OF fits] impI[OF conjI[OF this conjI[OF refl conjI[OF ex[OF refl] res]]]]]]
  show ?thesis
    unfolding Let_def result_def[symmetric] hdr_def[symmetric] bytes scan prod.case by (rule facts)
qed

text \<open>A grey image of one macroblock.\<close>

definition example_image :: image where
  "example_image = \<lparr>RGB_buffer = replicate 256 \<lparr>rgbB = 100, rgbG = 100, rgbR = 100\<rparr>, img_width = 16, img_height = 16\<rparr>"

theorem jpeg_file_decodes_witness:
  "let bytes = outbytes (fst (jpeg_main example_image (\<lambda>_. 0) [] (start_state (replicate 64 0))));
       (scan, end_mark) = unstuff (drop 607 bytes)
   in end_mark = [0xFF, 0xD9] \<and>
      (\<exists>p pad. dec_blocks [0, 1, 2, 3, 4, 5] (\<lambda>_. 0) (bytes_bits scan) = Some (image_coefs example_image, p, replicate pad True))"
proof -
  have d: "16 dvd unat (img_width example_image)" "16 dvd unat (img_height example_image)"
    and s: "unat (img_width example_image) * unat (img_height example_image) \<le> 512"
    by (simp_all add: example_image_def)
  have b: "image_blocks example_image = [0, 1, 2, 3, 4, 5]" by (simp add: image_blocks_def example_image_def upt_rec)
  have z: "map (\<lambda>_. 0) [0..<64] = replicate 64 (0 :: int)" by (simp add: map_replicate_const del: upt_rec_numeral)
  show ?thesis
    using jpeg_file_decodes[OF d, of "\<lambda>_. 0" "[]" "\<lambda>_. 0"] s unfolding z b length_header Let_def
    by (auto split: prod.splits)
qed

end
