(* ===== verification/DataMem.thy ===== *)
theory DataMem
  imports CMemory
begin

text \<open>
  The data memory interface of the core (\<^verbatim>\<open>lib/dm.p\<close>): \<^verbatim>\<open>dm_merge\<close> turns byte, half word and word accesses into
  accesses of a memory of 32-bit rows with byte enables, \<^verbatim>\<open>dm_wbb\<close> delays each store until its data arrives and keeps
  it in a write-back buffer while loads occupy the memory.  A register has its new value from the next cycle on.  The
  theorem at the end shows that a program sees the flat byte memory of theory \<open>CMemory\<close>.
\<close>

section \<open>Rows\<close>

text \<open>A row of four bytes (\<^verbatim>\<open>v4u8\<close>); only the elements 0 to 3 matter.\<close>

type_synonym v4u8 = "nat \<Rightarrow> u8"
type_synonym rows = "u32 \<Rightarrow> v4u8"

definition write_row :: "4 word \<Rightarrow> v4u8 \<Rightarrow> v4u8 \<Rightarrow> v4u8" where
  "write_row strb d old = (\<lambda>i. if bit strb i then d i else old i)"

definition cat4 :: "u8 \<Rightarrow> u8 \<Rightarrow> u8 \<Rightarrow> u8 \<Rightarrow> u32" where
  "cat4 b3 b2 b1 b0 = ucast b0 OR push_bit 8 (ucast b1) OR push_bit 16 (ucast b2) OR push_bit 24 (ucast b3)"

section \<open>The write-back buffer\<close>

record dm_wbb =
  edm_addr_ff :: u32
  edm_strb_ff :: "4 word"
  st_edm_ff :: bool
  edm_data_ff :: v4u8
  edm_wbb_ff :: bool
  edm_addr_match_ff :: bool

record edm_request =
  ld_edm :: bool
  st_edm :: "4 word"
  edm_addr :: u32
  edm_wr :: v4u8

definition wbb_init :: dm_wbb where
  "wbb_init = \<lparr>edm_addr_ff = 0, edm_strb_ff = 0, st_edm_ff = False, edm_data_ff = (\<lambda>_. 0), edm_wbb_ff = False,
     edm_addr_match_ff = False\<rparr>"

definition wbb_result :: "dm_wbb \<Rightarrow> v4u8 \<Rightarrow> v4u8" where
  "wbb_result w edm_rd =
     (let byp = edm_wbb_ff w \<and> edm_addr_match_ff w;
          sel = edm_strb_ff w AND (if byp then 15 else 0)
      in (\<lambda>i. if \<not> bit sel i then edm_rd i else edm_data_ff w i))"

definition wbb_request :: "bool \<Rightarrow> 4 word \<Rightarrow> u32 \<Rightarrow> v4u8 \<Rightarrow> dm_wbb \<Rightarrow> dm_wbb \<times> edm_request" where
  "wbb_request ld_wdm st_wdm wdm_addr wdm_wr w =
     (let r = \<lparr>ld_edm = ld_wdm, st_edm = 0, edm_addr = 0, edm_wr = (\<lambda>_. 0)\<rparr>;
          (w', r) = (if ld_wdm
            then (w\<lparr>edm_addr_match_ff := wdm_addr = edm_addr_ff w\<rparr>, r\<lparr>edm_addr := wdm_addr\<rparr>) else (w, r));
          (w', r) = (if ld_wdm
            then (if st_edm_ff w then (w'\<lparr>edm_data_ff := wdm_wr, edm_wbb_ff := True\<rparr>, r) else (w', r))
            else let (w', r) = (if edm_wbb_ff w
                       then (w'\<lparr>edm_wbb_ff := False\<rparr>,
                             r\<lparr>st_edm := edm_strb_ff w, edm_addr := edm_addr_ff w, edm_wr := edm_data_ff w\<rparr>)
                       else if st_edm_ff w
                       then (w', r\<lparr>st_edm := edm_strb_ff w, edm_addr := edm_addr_ff w, edm_wr := wdm_wr\<rparr>)
                       else (w', r))
                 in (if st_wdm \<noteq> 0 then w'\<lparr>edm_addr_ff := wdm_addr, edm_strb_ff := st_wdm\<rparr> else w', r))
      in (w'\<lparr>st_edm_ff := st_wdm \<noteq> 0\<rparr>, r))"

text \<open>The memory behind the buffer: a store takes effect at once, a read delivers its row in the next cycle; in a cycle
  after no read its output is \<open>idle\<close>, whatever that is.\<close>

record wdm =
  wbb :: dm_wbb
  eDM :: rows
  edm_rd :: v4u8

definition edm_cycle :: "v4u8 \<Rightarrow> edm_request \<Rightarrow> rows \<Rightarrow> rows \<times> v4u8" where
  "edm_cycle idle r m =
     (m(edm_addr r := write_row (st_edm r) (edm_wr r) (m (edm_addr r))),
      if ld_edm r then m (edm_addr r) else idle)"

definition wdm_answer :: "wdm \<Rightarrow> v4u8" where
  "wdm_answer s = wbb_result (wbb s) (edm_rd s)"

definition wdm_cycle :: "v4u8 \<Rightarrow> bool \<Rightarrow> 4 word \<Rightarrow> u32 \<Rightarrow> v4u8 \<Rightarrow> wdm \<Rightarrow> wdm" where
  "wdm_cycle idle ld_wdm st_wdm wdm_addr wdm_wr s =
     (let (w, r) = wbb_request ld_wdm st_wdm wdm_addr wdm_wr (wbb s);
          (m, row) = edm_cycle idle r (eDM s)
      in \<lparr>wbb = w, eDM = m, edm_rd = row\<rparr>)"

text \<open>The debugger reads and writes one element of a row between two cycles.\<close>

definition dbg_access_wDM :: "u32 \<Rightarrow> nat \<Rightarrow> u8 \<Rightarrow> bool \<Rightarrow> wdm \<Rightarrow> u8 \<times> wdm" where
  "dbg_access_wDM a elem val read s =
     (let dbg_access_eDM = (\<lambda>val s. if read then (eDM s a elem, s) else (val, s\<lparr>eDM := (eDM s)(a := (eDM s a)(elem := val))\<rparr>))
      in if edm_wbb_ff (wbb s) \<and> edm_addr_ff (wbb s) = a
         then let strb = edm_strb_ff (wbb s);
                  tmp_wbb = edm_data_ff (wbb s);
                  (tmp_wbb, s) = (if \<not> read \<and> bit strb elem
                     then let t = tmp_wbb(elem := val) in (t, s\<lparr>wbb := (wbb s)\<lparr>edm_data_ff := t\<rparr>\<rparr>) else (tmp_wbb, s));
                  (val, s) = dbg_access_eDM val s
              in (if bit strb elem then tmp_wbb elem else val, s)
         else dbg_access_eDM val s)"

section \<open>Merging the accesses\<close>

record core_request =
  ld_dmb :: bool
  ld_dmh :: bool
  ld_dmw :: bool
  st_dmb :: bool
  st_dmh :: bool
  st_dmw :: bool
  dm_addr :: u32
  dmb_wr :: u8
  dmh_wr :: u16
  dmw_wr :: u32

text \<open>\<open>st_ff\<close> holds the three store enables of the previous cycle: word, half word, byte.\<close>

record dm_merge =
  col_ff :: "2 word"
  st_ff :: "bool \<times> bool \<times> bool"

definition merge_init :: dm_merge where
  "merge_init = \<lparr>col_ff = 0, st_ff = (False, False, False)\<rparr>"

text \<open>What the core receives: \<^verbatim>\<open>dmw_rd\<close>, \<^verbatim>\<open>dmh_rd\<close> and \<^verbatim>\<open>dmb_rd\<close>.\<close>

definition merge_result :: "dm_merge \<Rightarrow> v4u8 \<Rightarrow> u32 \<times> u16 \<times> u8" where
  "merge_result c wdm_rd =
     (let b0 = wdm_rd (unat (col_ff c));
          b1 = wdm_rd (unat (col_ff c AND 2 OR 1))
      in (cat4 (wdm_rd 3) (wdm_rd 2) b1 b0, ucast b0 OR push_bit 8 (ucast b1), b0))"

text \<open>\<open>n\<close> is the number of address bits the memory decodes: all 32 in the simulator, \<^verbatim>\<open>DM_SIZE_NBIT\<close> in hardware.\<close>

definition DM_SIZE_NBIT :: nat where "DM_SIZE_NBIT = 23"

definition merge_request :: "nat \<Rightarrow> core_request \<Rightarrow> dm_merge \<Rightarrow> dm_merge \<times> bool \<times> 4 word \<times> u32 \<times> v4u8" where
  "merge_request n q c =
     (let row = drop_bit 2 (take_bit n (dm_addr q));
          col = ucast (dm_addr q);
          ld_wdm = (ld_dmw q \<or> ld_dmh q \<or> ld_dmb q);
          st_wdm = (if st_dmw q then 15 else if st_dmh q then push_bit (unat (col AND 2)) 3
                    else if st_dmb q then push_bit (unat col) 1 else 0);
          (w, h, b) = st_ff c;
          wdm_wr = (if w then (\<lambda>i. ucast (drop_bit (8 * i) (dmw_wr q)))
                    else if h then (\<lambda>i. ucast (drop_bit (8 * (i mod 2)) (dmh_wr q)))
                    else if b then (\<lambda>i. dmb_wr q) else (\<lambda>_. 0))
      in (c\<lparr>col_ff := col, st_ff := (st_dmw q, st_dmh q, st_dmb q)\<rparr>, ld_wdm, st_wdm, row, wdm_wr))"

text \<open>One cycle of \<^verbatim>\<open>dm_merge\<close> in front of a memory of rows with the given answer and cycle.\<close>

definition merge_cycle ::
  "('s \<Rightarrow> v4u8) \<Rightarrow> (bool \<Rightarrow> 4 word \<Rightarrow> u32 \<Rightarrow> v4u8 \<Rightarrow> 's \<Rightarrow> 's) \<Rightarrow> nat \<Rightarrow> core_request \<Rightarrow> dm_merge \<times> 's \<Rightarrow>
    (u32 \<times> u16 \<times> u8) \<times> dm_merge \<times> 's" where
  "merge_cycle answer cycle n q = (\<lambda>(c, s).
     (let (c', ld, st, row, d) = merge_request n q c
      in (merge_result c (answer s), c', cycle ld st row d s)))"

definition dm_cycle :: "v4u8 \<Rightarrow> nat \<Rightarrow> core_request \<Rightarrow> dm_merge \<times> wdm \<Rightarrow> (u32 \<times> u16 \<times> u8) \<times> dm_merge \<times> wdm" where
  "dm_cycle idle = merge_cycle wdm_answer (wdm_cycle idle)"

definition dm_init :: "rows \<Rightarrow> v4u8 \<Rightarrow> dm_merge \<times> wdm" where
  "dm_init m row = (merge_init, \<lparr>wbb = wbb_init, eDM = m, edm_rd = row\<rparr>)"

definition dbg_access_DMb :: "u32 \<Rightarrow> u8 \<Rightarrow> bool \<Rightarrow> wdm \<Rightarrow> u8 \<times> wdm" where
  "dbg_access_DMb a val read s = dbg_access_wDM (drop_bit 2 a) (unat (a AND 3)) val read s"

section \<open>Programs\<close>

text \<open>The accesses of a program, one in each cycle; the flag of a load selects sign extension.  The address leaves stage ID, the data of a store and the result of a
  load belong to stage EX, one cycle later (\<^verbatim>\<open>lib/ldst.n\<close>).\<close>

datatype width = Byte | Half | Word

datatype access = Idle | Load bool width u32 | Store width u32 u32

definition core_signals :: "access \<Rightarrow> access \<Rightarrow> core_request" where
  "core_signals ex idecode =
     (let data = (case ex of Store _ _ v \<Rightarrow> v | _ \<Rightarrow> 0);
          (ld, st, a) = (case idecode of Idle \<Rightarrow> ((\<lambda>_. False), (\<lambda>_. False), 0)
             | Load sx k a \<Rightarrow> ((\<lambda>w. w = k), (\<lambda>_. False), a) | Store k a v \<Rightarrow> ((\<lambda>_. False), (\<lambda>w. w = k), a))
      in \<lparr>ld_dmb = ld Byte, ld_dmh = ld Half, ld_dmw = ld Word, st_dmb = st Byte, st_dmh = st Half, st_dmw = st Word,
          dm_addr = a, dmb_wr = ucast data, dmh_wr = ucast data, dmw_wr = data\<rparr>)"

text \<open>The load-extension unit \<^verbatim>\<open>lx\<close>.\<close>

fun loaded_value :: "access \<Rightarrow> u32 \<times> u16 \<times> u8 \<Rightarrow> u32 list" where
  "loaded_value (Load sx Byte a) (w, h, b) = [if sx then scast b else ucast b]"
| "loaded_value (Load sx Half a) (w, h, b) = [if sx then scast h else ucast h]"
| "loaded_value (Load sx Word a) (w, h, b) = [w]"
| "loaded_value _ _ = []"

text \<open>The values the loads deliver, and the state in the end; \<open>ex\<close> is the access in stage EX.\<close>

fun merge_run ::
  "('s \<Rightarrow> v4u8) \<Rightarrow> (bool \<Rightarrow> 4 word \<Rightarrow> u32 \<Rightarrow> v4u8 \<Rightarrow> 's \<Rightarrow> 's) \<Rightarrow> nat \<Rightarrow> access \<Rightarrow> access list \<Rightarrow> dm_merge \<times> 's \<Rightarrow>
    u32 list \<times> dm_merge \<times> 's" where
  "merge_run answer cycle n ex [] s = ([], s)"
| "merge_run answer cycle n ex (a # as) s =
     (let (result, s') = merge_cycle answer cycle n (core_signals ex a) s;
          (vs, s'') = merge_run answer cycle n a as s'
      in (loaded_value ex result @ vs, s''))"

definition dm_run :: "v4u8 \<Rightarrow> nat \<Rightarrow> access list \<Rightarrow> dm_merge \<times> wdm \<Rightarrow> u32 list \<times> dm_merge \<times> wdm" where
  "dm_run idle n = merge_run wdm_answer (wdm_cycle idle) n Idle"

section \<open>The flat memory\<close>

fun aligned :: "access \<Rightarrow> bool" where
  "aligned (Load sx Half a) = (a AND 1 = 0)"
| "aligned (Load sx Word a) = (a AND 3 = 0)"
| "aligned (Store Half a v) = (a AND 1 = 0)"
| "aligned (Store Word a v) = (a AND 3 = 0)"
| "aligned _ = True"

fun mem_load :: "bool \<Rightarrow> width \<Rightarrow> u32 \<Rightarrow> mem \<Rightarrow> u32" where
  "mem_load sx Byte a m = (if sx then scast (m a) else ucast (m a))"
| "mem_load sx Half a m =
     (let h = ucast (m a) OR push_bit 8 (ucast (m (a + 1))) :: u16 in if sx then scast h else ucast h)"
| "mem_load sx Word a m = load32 m a"

fun mem_store :: "width \<Rightarrow> u32 \<Rightarrow> u32 \<Rightarrow> mem \<Rightarrow> mem" where
  "mem_store Byte a v m = wr m a [ucast v]"
| "mem_store Half a v m = wr m a [ucast v, ucast (drop_bit 8 v)]"
| "mem_store Word a v m = store32 m a v"

fun mem_run :: "nat \<Rightarrow> access list \<Rightarrow> mem \<Rightarrow> u32 list \<times> mem" where
  "mem_run n [] m = ([], m)"
| "mem_run n (Idle # as) m = mem_run n as m"
| "mem_run n (Load sx k a # as) m = (let (vs, m') = mem_run n as m in (mem_load sx k (take_bit n a) m # vs, m'))"
| "mem_run n (Store k a v # as) m = mem_run n as (mem_store k (take_bit n a) v m)"

definition bytes_of :: "rows \<Rightarrow> mem" where
  "bytes_of m = (\<lambda>a. m (drop_bit 2 a) (unat (a AND 3)))"

section \<open>The contract of a memory of rows\<close>

text \<open>The contents once the pending store has its data \<open>d\<close>.\<close>

fun complete :: "(u32 \<times> 4 word) option \<Rightarrow> v4u8 \<Rightarrow> rows \<Rightarrow> rows" where
  "complete None d m = m"
| "complete (Some (a, strb)) d m = m(a := write_row strb d (m a))"

text \<open>\<open>holds m p s\<close>: in state \<open>s\<close> the memory has the contents \<open>m\<close> except for a store \<open>p\<close> whose data come in this
  cycle.\<close>

locale row_memory =
  fixes answer :: "'s \<Rightarrow> v4u8"
    and cycle :: "bool \<Rightarrow> 4 word \<Rightarrow> u32 \<Rightarrow> v4u8 \<Rightarrow> 's \<Rightarrow> 's"
    and holds :: "rows \<Rightarrow> (u32 \<times> 4 word) option \<Rightarrow> 's \<Rightarrow> bool"
  assumes idle_cycle: "holds m p s \<Longrightarrow> holds (complete p d m) None (cycle False 0 a d s)"
    and load_cycle: "holds m p s \<Longrightarrow> holds (complete p d m) None (cycle True 0 a d s)"
    and load_answer: "holds m p s \<Longrightarrow> answer (cycle True 0 a d s) = complete p d m a"
    and store_cycle: "holds m p s \<Longrightarrow> strb \<noteq> 0 \<Longrightarrow> holds (complete p d m) (Some (a, strb)) (cycle False strb a d s)"

text \<open>What \<^verbatim>\<open>dm_merge\<close> passes on for an access: the row, the byte enables, and one cycle later the data.\<close>

definition row_of :: "nat \<Rightarrow> u32 \<Rightarrow> u32" where
  "row_of n a = drop_bit 2 (take_bit n a)"

fun strobe :: "width \<Rightarrow> 2 word \<Rightarrow> 4 word" where
  "strobe Word col = 15"
| "strobe Half col = push_bit (unat (col AND 2)) 3"
| "strobe Byte col = push_bit (unat col) 1"

fun lanes :: "width \<Rightarrow> u32 \<Rightarrow> v4u8" where
  "lanes Word v = (\<lambda>i. ucast (drop_bit (8 * i) v))"
| "lanes Half v = (\<lambda>i. ucast (drop_bit (8 * (i mod 2)) (ucast v :: u16)))"
| "lanes Byte v = (\<lambda>i. ucast v)"

definition pending :: "nat \<Rightarrow> access \<Rightarrow> (u32 \<times> 4 word) option" where
  "pending n ex = (case ex of Store k a v \<Rightarrow> Some (row_of n a, strobe k (ucast a)) | _ \<Rightarrow> None)"

lemma pending_simps [simp]:
  "pending n Idle = None" "pending n (Load sx k a) = None" "pending n (Store k a v) = Some (row_of n a, strobe k (ucast a))"
  by (simp_all add: pending_def)

definition data_of :: "access \<Rightarrow> v4u8" where
  "data_of ex = (case ex of Store k a v \<Rightarrow> lanes k v | _ \<Rightarrow> (\<lambda>_. 0))"

text \<open>The registers while \<open>ex\<close> is in stage EX.\<close>

definition merged :: "access \<Rightarrow> dm_merge \<Rightarrow> bool" where
  "merged ex c \<longleftrightarrow> (case ex of Idle \<Rightarrow> st_ff c = (False, False, False)
     | Load sx k a \<Rightarrow> st_ff c = (False, False, False) \<and> col_ff c = ucast a
     | Store k a v \<Rightarrow> st_ff c = (k = Word, k = Half, k = Byte))"

lemma two_bits: "col = 0 \<or> col = 1 \<or> col = 2 \<or> col = (3 :: 2 word)"
proof -
  have "unat col < 4" using unsigned_less[of col, where 'a = nat] by simp
  then have "unat col = 0 \<or> unat col = 1 \<or> unat col = 2 \<or> unat col = 3" by arith
  then show ?thesis by (simp add: word_unat_eq_iff)
qed

lemma strobe_nonzero: "strobe k col \<noteq> 0"
  using two_bits[of col] by (cases k) auto

lemma access_cases:
  obtains "x = Idle" | sx a where "x = Load sx Byte a" | sx a where "x = Load sx Half a" | sx a where "x = Load sx Word a"
    | a v where "x = Store Byte a v" | a v where "x = Store Half a v" | a v where "x = Store Word a v"
proof (cases x)
  case (Load sx k a)
  then show thesis by (cases k) (simp_all add: that)
next
  case (Store k a v)
  then show thesis by (cases k) (simp_all add: that)
qed (simp add: that)

lemma merge_request_value:
  assumes "merged ex c"
  shows "\<exists>c'. merge_request n (core_signals ex a) c =
      (c', (\<exists>sx k b. a = Load sx k b), (case a of Store k b v \<Rightarrow> strobe k (ucast b) | _ \<Rightarrow> 0),
       row_of n (case a of Idle \<Rightarrow> 0 | Load sx k b \<Rightarrow> b | Store k b v \<Rightarrow> b), data_of ex) \<and> merged a c'"
  using assms
  by (cases ex rule: access_cases; cases a rule: access_cases)
    (simp_all add: merge_request_def core_signals_def merged_def data_of_def row_of_def Let_def)

text \<open>The contents of the memory with the write-back buffer: data in the buffer count as written.\<close>

definition buffered :: "dm_wbb \<Rightarrow> rows \<Rightarrow> rows" where
  "buffered w m = (if edm_wbb_ff w then complete (Some (edm_addr_ff w, edm_strb_ff w)) (edm_data_ff w) m else m)"

definition wdm_holds :: "rows \<Rightarrow> (u32 \<times> 4 word) option \<Rightarrow> wdm \<Rightarrow> bool" where
  "wdm_holds m p s \<longleftrightarrow>
     m = buffered (wbb s) (eDM s) \<and>
     p = (if st_edm_ff (wbb s) then Some (edm_addr_ff (wbb s), edm_strb_ff (wbb s)) else None) \<and>
     \<not> (st_edm_ff (wbb s) \<and> edm_wbb_ff (wbb s))"

lemmas wdm_defs = wdm_cycle_def wbb_request_def edm_cycle_def wdm_holds_def buffered_def wdm_answer_def wbb_result_def
  Let_def case_prod_unfold

lemma write_row_none [simp]: "write_row 0 d row = row"
  by (simp add: write_row_def)

lemma wdm_idle: "wdm_holds m p s \<Longrightarrow> wdm_holds (complete p d m) None (wdm_cycle idle False 0 a d s)"
  by (simp add: wdm_defs)

lemma wdm_load: "wdm_holds m p s \<Longrightarrow> wdm_holds (complete p d m) None (wdm_cycle idle True 0 a d s)"
  by (simp add: wdm_defs)

lemma wdm_store:
  "wdm_holds m p s \<Longrightarrow> strb \<noteq> 0 \<Longrightarrow> wdm_holds (complete p d m) (Some (a, strb)) (wdm_cycle idle False strb a d s)"
  by (simp add: wdm_defs)

lemma strobe_sel: "bit ((strb :: 4 word) AND 15) i = bit strb i"
proof -
  have "(15 :: 4 word) = - 1" by simp
  then show ?thesis by (simp only: and.right_neutral)
qed

lemma wdm_load_answer: "wdm_holds m p s \<Longrightarrow> wdm_answer (wdm_cycle idle True 0 a d s) = complete p d m a"
  by (auto simp: wdm_defs strobe_sel write_row_def fun_eq_iff)

section \<open>Rows and bytes\<close>

lemma and_3: "unat (x AND 3 :: u32) = unat x mod 4"
proof -
  have "(3 :: u32) = mask 2" by (simp add: mask_eq_exp_minus_1)
  then show ?thesis using unat_and_low[of x 2] by simp
qed

lemma row_offset:
  fixes a :: u32
  assumes "unat (a AND 3) + i < 4"
  shows "drop_bit 2 (a + of_nat i) = drop_bit 2 a \<and> unat ((a + of_nat i) AND 3) = unat (a AND 3) + i"
proof -
  have "unat a mod 4 + i < 4" using assms by (simp add: and_3)
  moreover have "unat a = 4 * (unat a div 4) + unat a mod 4" by simp
  moreover have "unat a < 4 * 1073741824" using unsigned_less[of a, where 'a = nat] by simp
  then have "unat a div 4 < 1073741824" by (simp add: less_mult_imp_div_less)
  ultimately have lt: "unat a + i < 4294967296" and d: "(unat a + i) div 4 = unat a div 4" "(unat a + i) mod 4 = unat a mod 4 + i"
    by presburger+
  have u: "unat (a + of_nat i) = unat a + i"
    using lt by (simp add: unat_word_ariths unat_of_nat)
  show ?thesis by (simp add: word_unat_eq_iff unat_drop_bit_div u and_3 d)
qed

lemma row_place:
  fixes a b :: u32
  assumes "unat (a AND 3) + k \<le> 4"
  shows "unat (b - a) < k \<longleftrightarrow> drop_bit 2 b = drop_bit 2 a \<and> unat (a AND 3) \<le> unat (b AND 3) \<and> unat (b AND 3) < unat (a AND 3) + k"
    and "unat (b - a) < k \<Longrightarrow> unat (b - a) = unat (b AND 3) - unat (a AND 3)"
proof -
  have b: "b = a + of_nat (unat (b - a))" by simp
  have fw: "drop_bit 2 b = drop_bit 2 a \<and> unat (b AND 3) = unat (a AND 3) + unat (b - a)" if "unat (b - a) < k"
  proof -
    have "unat (a AND 3) + unat (b - a) < 4" using that assms by linarith
    from row_offset[OF this] show ?thesis unfolding b[symmetric] .
  qed
  have bw: "unat (b - a) < k" if d: "drop_bit 2 b = drop_bit 2 a" and
    c: "unat (a AND 3) \<le> unat (b AND 3)" "unat (b AND 3) < unat (a AND 3) + k"
  proof -
    have "unat b div 4 = unat a div 4" using arg_cong[OF d, of unat] by (simp add: unat_drop_bit_div)
    moreover have "unat x = unat x div 4 * 4 + unat x mod 4" for x :: u32 by simp
    ultimately have "unat b = unat a div 4 * 4 + unat b mod 4" "unat a = unat a div 4 * 4 + unat a mod 4" by metis+
    then have "unat a \<le> unat b" "unat b - unat a < k" using c unfolding and_3 by linarith+
    then show ?thesis by (simp add: unat_sub_if')
  qed
  show "unat (b - a) < k \<longleftrightarrow> drop_bit 2 b = drop_bit 2 a \<and> unat (a AND 3) \<le> unat (b AND 3) \<and> unat (b AND 3) < unat (a AND 3) + k"
    using fw bw by auto
  show "unat (b - a) < k \<Longrightarrow> unat (b - a) = unat (b AND 3) - unat (a AND 3)"
    using fw by simp
qed

text \<open>An access stays in its row when it is aligned.\<close>

fun width_bytes :: "width \<Rightarrow> nat" where
  "width_bytes Byte = 1" | "width_bytes Half = 2" | "width_bytes Word = 4"

fun store_list :: "width \<Rightarrow> u32 \<Rightarrow> u8 list" where
  "store_list Byte v = [ucast v]"
| "store_list Half v = [ucast v, ucast (drop_bit 8 v)]"
| "store_list Word v = [ucast v, ucast (drop_bit 8 v), ucast (drop_bit 16 v), ucast (drop_bit 24 v)]"

lemma mem_store_list: "mem_store k a v m = wr m a (store_list k v)"
  by (cases k) (simp_all add: store32_def)

lemma length_store_list [simp]: "length (store_list k v) = width_bytes k"
  by (cases k) simp_all

definition column_ok :: "width \<Rightarrow> 2 word \<Rightarrow> bool" where
  "column_ok k col \<longleftrightarrow> (case k of Byte \<Rightarrow> True | Half \<Rightarrow> col = 0 \<or> col = 2 | Word \<Rightarrow> col = 0)"

lemma column_aligned:
  "aligned (Load sx k a) \<Longrightarrow> column_ok k (ucast a)" "aligned (Store k a v) \<Longrightarrow> column_ok k (ucast a)"
proof -
  have c: "(ucast a :: 2 word) = ucast (a AND 3)"
    by (rule bit_word_eqI) (auto simp: bit_simps numeral_eq_Suc less_Suc_eq)
  have "(ucast a :: 2 word) AND 1 = ucast (a AND 1)"
    by (rule bit_word_eqI) (auto simp: bit_simps)
  then have h: "a AND 1 = 0 \<Longrightarrow> column_ok Half (ucast a)"
    using two_bits[of "ucast a"] by (auto simp: column_ok_def)
  have w: "a AND 3 = 0 \<Longrightarrow> column_ok Word (ucast a)" by (simp add: column_ok_def c)
  show "aligned (Load sx k a) \<Longrightarrow> column_ok k (ucast a)" "aligned (Store k a v) \<Longrightarrow> column_ok k (ucast a)"
    using h w by (cases k; simp add: column_ok_def)+
qed

lemma column_fits: "column_ok k col \<Longrightarrow> unat col + width_bytes k \<le> 4"
  using two_bits[of col] by (cases k) (auto simp: column_ok_def)

lemma strobe_lanes:
  assumes "column_ok k col" "j < 4"
  shows "bit (strobe k col) j \<longleftrightarrow> unat col \<le> j \<and> j < unat col + width_bytes k"
    and "bit (strobe k col) j \<Longrightarrow> lanes k v j = store_list k v ! (j - unat col)"
proof -
  have j: "j = 0 \<or> j = 1 \<or> j = 2 \<or> j = 3" using assms(2) by arith
  show "bit (strobe k col) j \<longleftrightarrow> unat col \<le> j \<and> j < unat col + width_bytes k"
    using assms(1) two_bits[of col] j by (cases k) (auto simp: column_ok_def)
  have ucast_drop: "ucast (drop_bit 8 (ucast v :: u16)) = (ucast (drop_bit 8 v) :: u8)"
    by (rule bit_word_eqI) (auto simp: bit_simps)
  have ucast_short: "ucast (ucast v :: u16) = (ucast v :: u8)"
    by (rule bit_word_eqI) (auto simp: bit_simps)
  show "bit (strobe k col) j \<Longrightarrow> lanes k v j = store_list k v ! (j - unat col)"
    using assms(1) two_bits[of col] j by (cases k) (auto simp: column_ok_def ucast_drop ucast_short)
qed

lemma column_of: "2 \<le> n \<Longrightarrow> unat (take_bit n a AND 3) = unat (ucast (a :: u32) :: 2 word)"
proof -
  assume n: "2 \<le> n"
  have "take_bit n a AND 3 = a AND 3"
    using n by (intro bit_word_eqI) (auto simp: bit_simps numeral_eq_Suc less_Suc_eq)
  then show ?thesis by (simp add: and_3 unsigned_ucast_eq take_bit_eq_mod)
qed

lemma store_bytes:
  assumes "aligned (Store k a v)" "2 \<le> n"
  shows "bytes_of (m(row_of n a := write_row (strobe k (ucast a)) (lanes k v) (m (row_of n a)))) =
    mem_store k (take_bit n a) v (bytes_of m)"
proof
  fix b :: u32
  let ?a = "take_bit n a" and ?col = "ucast a :: 2 word"
  note ok = column_aligned(2)[OF assms(1)]
  note c = column_of[OF assms(2), of a]
  have j: "unat (b AND 3) < 4" by (simp add: and_3)
  note s = strobe_lanes(1)[OF ok j] strobe_lanes(2)[OF ok j, of v]
  have fits: "unat (?a AND 3) + width_bytes k \<le> 4" unfolding c by (rule column_fits[OF ok])
  note place = row_place[OF fits, of b, unfolded c]
  show "bytes_of (m(row_of n a := write_row (strobe k ?col) (lanes k v) (m (row_of n a)))) b =
      mem_store k ?a v (bytes_of m) b"
    using s place by (auto simp: mem_store_list wr_def bytes_of_def write_row_def row_of_def)
qed

lemma load_bytes:
  assumes "aligned (Load sx k a)" "2 \<le> n" "col_ff c = ucast a"
  shows "loaded_value (Load sx k a) (merge_result c (m (row_of n a))) = [mem_load sx k (take_bit n a) (bytes_of m)]"
proof -
  let ?a = "take_bit n a" and ?col = "ucast a :: 2 word"
  note ok = column_aligned(1)[OF assms(1)]
  have b: "bytes_of m (?a + of_nat i) = m (row_of n a) (unat ?col + i)" if "i < width_bytes k" for i
    using row_offset[of ?a i] that column_fits[OF ok] by (simp add: bytes_of_def row_of_def column_of[OF assms(2)])
  show ?thesis
    using b[of 0] b[of 1] b[of 2] b[of 3] ok
    by (cases k) (auto simp: merge_result_def assms(3) cat4_def load32_def column_ok_def Let_def numeral_2_eq_2[symmetric])
qed

section \<open>A program sees the flat memory\<close>

definition mem_effect :: "nat \<Rightarrow> access \<Rightarrow> mem \<Rightarrow> mem" where
  "mem_effect n ex m = (case ex of Store k a v \<Rightarrow> mem_store k (take_bit n a) v m | _ \<Rightarrow> m)"

definition mem_result :: "nat \<Rightarrow> access \<Rightarrow> mem \<Rightarrow> u32 list" where
  "mem_result n ex m = (case ex of Load sx k a \<Rightarrow> [mem_load sx k (take_bit n a) m] | _ \<Rightarrow> [])"

lemma mem_run_Cons:
  "mem_run n (a # as) m = (let (vs, m') = mem_run n as (mem_effect n a m) in (mem_result n a m @ vs, m'))"
  by (cases a) (simp_all add: mem_effect_def mem_result_def)

lemma pending_bytes:
  "aligned ex \<Longrightarrow> 2 \<le> n \<Longrightarrow> bytes_of (complete (pending n ex) (data_of ex) m) = mem_effect n ex (bytes_of m)"
  by (cases ex) (simp_all add: data_of_def mem_effect_def store_bytes)

context row_memory
begin

text \<open>Everything is in its place while \<open>ex\<close> is in stage EX: its data are awaited, or its row has been read.\<close>

definition in_step :: "nat \<Rightarrow> access \<Rightarrow> rows \<Rightarrow> dm_merge \<Rightarrow> 's \<Rightarrow> bool" where
  "in_step n ex m c s \<longleftrightarrow> holds m (pending n ex) s \<and> merged ex c \<and>
     (case ex of Load sx k a \<Rightarrow> answer s = m (row_of n a) | _ \<Rightarrow> True)"

lemma cycle_refines:
  assumes "in_step n ex m c s" "aligned ex" "2 \<le> n"
  defines "m' \<equiv> complete (pending n ex) (data_of ex) m"
  shows "\<exists>out c' s'. merge_cycle answer cycle n (core_signals ex a) (c, s) = (out, c', s') \<and>
    loaded_value ex out = mem_result n ex (bytes_of m) \<and> in_step n a m' c' s' \<and>
    bytes_of m' = mem_effect n ex (bytes_of m)"
proof -
  note hold = assms(1)[unfolded in_step_def, THEN conjunct1]
  have merged: "merged ex c" using assms(1) by (simp add: in_step_def)
  obtain c' where req: "merge_request n (core_signals ex a) c =
      (c', (\<exists>sx k b. a = Load sx k b), (case a of Store k b v \<Rightarrow> strobe k (ucast b) | _ \<Rightarrow> 0),
       row_of n (case a of Idle \<Rightarrow> 0 | Load sx k b \<Rightarrow> b | Store k b v \<Rightarrow> b), data_of ex)" and c': "merged a c'"
    using merge_request_value[OF merged] by blast
  define out where "out = merge_result c (answer s)"
  have out: "loaded_value ex out = mem_result n ex (bytes_of m)"
  proof (cases ex)
    case (Load sx k b)
    then have "col_ff c = ucast b" "answer s = m (row_of n b)"
      using assms(1) by (simp_all add: in_step_def merged_def)
    then show ?thesis using load_bytes[of sx k b n c m] assms(2,3) by (simp add: Load mem_result_def out_def)
  qed (simp_all add: mem_result_def)
  have bytes: "bytes_of m' = mem_effect n ex (bytes_of m)"
    unfolding m'_def by (rule pending_bytes[OF assms(2,3)])
  define s' where "s' = cycle (\<exists>sx k b. a = Load sx k b) (case a of Store k b v \<Rightarrow> strobe k (ucast b) | _ \<Rightarrow> 0)
      (row_of n (case a of Idle \<Rightarrow> 0 | Load sx k b \<Rightarrow> b | Store k b v \<Rightarrow> b)) (data_of ex) s"
  have "merge_cycle answer cycle n (core_signals ex a) (c, s) = (out, c', s')"
    unfolding merge_cycle_def prod.case req Let_def out_def s'_def ..
  moreover have "in_step n a m' c' s'"
    using c' idle_cycle[OF hold, of "data_of ex"] load_cycle[OF hold, of "data_of ex"]
      load_answer[OF hold, of _ "data_of ex"] store_cycle[OF hold strobe_nonzero, of "data_of ex"]
    unfolding in_step_def s'_def m'_def[symmetric] by (cases a) simp_all
  ultimately show ?thesis using out bytes by blast
qed

lemma run_refines:
  assumes "in_step n ex m c s" "list_all aligned (ex # as)" "2 \<le> n"
  shows "\<exists>m' c' s'. merge_run answer cycle n ex (as @ [Idle]) (c, s) = (fst (mem_run n (ex # as) (bytes_of m)), c', s') \<and>
    bytes_of m' = snd (mem_run n (ex # as) (bytes_of m)) \<and> holds m' None s'"
  using assms(1,2)
proof (induction as arbitrary: ex m c s)
  case Nil
  then have "aligned ex" by simp
  then show ?case using cycle_refines[OF Nil.prems(1) _ assms(3), of Idle]
    by (fastforce simp: mem_run_Cons in_step_def)
next
  case (Cons a as)
  define m1 where "m1 = complete (pending n ex) (data_of ex) m"
  obtain out c1 s1 where step: "merge_cycle answer cycle n (core_signals ex a) (c, s) = (out, c1, s1)"
      "loaded_value ex out = mem_result n ex (bytes_of m)" "in_step n a m1 c1 s1"
      "bytes_of m1 = mem_effect n ex (bytes_of m)"
    using cycle_refines[OF Cons.prems(1) _ assms(3), of a] Cons.prems(2) unfolding m1_def by auto
  have "list_all aligned (a # as)" using Cons.prems(2) by simp
  then obtain m' c' s' where "merge_run answer cycle n a (as @ [Idle]) (c1, s1) = (fst (mem_run n (a # as) (bytes_of m1)), c', s')"
      "bytes_of m' = snd (mem_run n (a # as) (bytes_of m1))" "holds m' None s'"
    using Cons.IH[OF step(3)] by blast
  then show ?case using step by (auto simp: mem_run_Cons[of n ex] Let_def case_prod_unfold)
qed

end

interpretation dm: row_memory wdm_answer "wdm_cycle idle" wdm_holds for idle
  by unfold_locales (fact wdm_idle wdm_load wdm_load_answer wdm_store)+

text \<open>What the debugger reads is the byte of the memory, also when it is still in the buffer, and what it writes
  becomes the byte.\<close>

lemma dbg_read:
  "wdm_holds m p s \<Longrightarrow> dbg_access_DMb a val True s = (bytes_of m a, s)"
  by (auto simp: dbg_access_DMb_def dbg_access_wDM_def wdm_holds_def buffered_def bytes_of_def write_row_def Let_def)

lemma dbg_write:
  assumes "wdm_holds m p s"
  shows "\<exists>m' s'. dbg_access_DMb a val False s = (val, s') \<and> wdm_holds m' p s' \<and> bytes_of m' = (bytes_of m)(a := val)"
proof -
  define row el where "row = drop_bit 2 a" and "el = unat (a AND 3)"
  define m' where "m' = m(row := (m row)(el := val))"
  have place: "drop_bit 2 b = row \<and> unat (b AND 3) = el \<longleftrightarrow> b = a" for b
    using row_place(1)[of a 1 b] by (auto simp: row_def el_def and_3 unat_eq_0)
  have "bytes_of m' = (bytes_of m)(a := val)"
    using place by (auto simp: fun_eq_iff bytes_of_def m'_def row_def el_def)
  moreover obtain s' where "dbg_access_DMb a val False s = (val, s')" "wdm_holds m' p s'"
  proof
    show "dbg_access_DMb a val False s = (val, snd (dbg_access_DMb a val False s))"
      by (simp add: dbg_access_DMb_def dbg_access_wDM_def Let_def)
    show "wdm_holds m' p (snd (dbg_access_DMb a val False s))"
      using assms
      by (auto simp: dbg_access_DMb_def dbg_access_wDM_def wdm_holds_def buffered_def m'_def row_def el_def fun_eq_iff
          write_row_def Let_def)
  qed
  ultimately show ?thesis by blast
qed

text \<open>C7: The chain of the two interface modules behaves as a flat memory of bytes: whatever aligned loads and stores a
  program issues, one in each cycle, every load delivers what the stores before it have left at its address, in
  little-endian order, whether their data are in the memory, in the write-back buffer or just arriving; and one cycle
  after the last access the debugger sees the final contents at every address and can change them.\<close>

theorem dm_is_flat_memory:
  fixes as :: "access list" and n :: nat and m :: rows and idle row :: v4u8
  assumes "list_all aligned as" "2 \<le> n"
  shows "let (vs, final) = mem_run n as (bytes_of m); (us, c, s) = dm_run idle n (as @ [Idle]) (dm_init m row)
         in us = vs \<and>
            (\<forall>a x. dbg_access_DMb a x True s = (final a, s)) \<and>
            (\<forall>a x b y. fst (dbg_access_DMb b y True (snd (dbg_access_DMb a x False s))) = (final(a := x)) b)"
proof -
  have "dm.in_step n Idle m merge_init \<lparr>wbb = wbb_init, eDM = m, edm_rd = row\<rparr>" for idle
    by (simp add: dm.in_step_def wdm_holds_def buffered_def wbb_init_def merge_init_def merged_def)
  moreover have "list_all aligned (Idle # as)" using assms(1) by simp
  ultimately obtain m' c s where run: "dm_run idle n (as @ [Idle]) (dm_init m row) = (fst (mem_run n as (bytes_of m)), c, s)"
      "bytes_of m' = snd (mem_run n as (bytes_of m))" "wdm_holds m' None s"
    using dm.run_refines[of n Idle m merge_init _ as idle] assms(2) unfolding dm_run_def dm_init_def mem_run.simps by blast
  have "fst (dbg_access_DMb b y True (snd (dbg_access_DMb a x False s))) = ((bytes_of m')(a := x)) b" for a x b y
    using dbg_write[OF run(3), of a x] by (metis dbg_read fst_conv snd_conv)
  then show ?thesis using dbg_read[OF run(3)] by (simp add: run case_prod_unfold Let_def)
qed

text \<open>A word is stored, two of its bytes are overwritten by a half word whose data have not arrived when the first load
  is issued, and a byte by one that waits in the buffer.\<close>

theorem dm_is_flat_memory_witness:
  "fst (dm_run (\<lambda>_. 0) DM_SIZE_NBIT
     [Store Word 8 0x04030201, Store Half 8 0xBBAA, Load False Word 8, Load True Byte 9, Store Byte 11 0xCC, Load False Word 8, Idle]
     (dm_init (\<lambda>_ _. 0) (\<lambda>_. 0))) = [0x0403BBAA, 0xFFFFFFBB, 0xCC03BBAA]"
proof -
  let ?as = "[Store Word 8 0x04030201, Store Half 8 0xBBAA, Load False Word 8, Load True Byte 9, Store Byte 11 0xCC, Load False Word 8]"
  have ok: "list_all aligned ?as" "2 \<le> DM_SIZE_NBIT" by (simp_all add: DM_SIZE_NBIT_def)
  have neg: "unat (- 1 :: u32) = 4294967295" by (simp add: unsigned_minus_1_eq_mask mask_eq_exp_minus_1)
  note flat = dm_is_flat_memory[OF ok, of "\<lambda>_ _. 0" "\<lambda>_. 0" "\<lambda>_. 0"]
  have "fst (mem_run DM_SIZE_NBIT ?as (bytes_of (\<lambda>_ _. 0))) = [0x0403BBAA, 0xFFFFFFBB, 0xCC03BBAA]"
    by (simp add: DM_SIZE_NBIT_def wr_def store32_def load32_def bytes_of_def Let_def neg)
  then show ?thesis using flat by (simp only: case_prod_unfold Let_def append.simps)
qed

end
