(* ===== verification/Spec2Isabelle.thy ===== *)
theory Spec2Isabelle
  imports Primitives IntEmul LongLong Divider CMemory Sha256 AesTable Aes AesGcm AesMain CString CType StrToL SfInt SfF64Arith MathRoot MathFmod MallocUse QsortSpec StdioSpec Startup Rand Jpeg DataMem
begin

text \<open>
  A model of the software and of part of the hardware of the TRV32P3 core, a 32-bit RISC-V processor described
  in \<^verbatim>\<open>src/trv32p3\<close>.  All paths below are relative to that directory.

  \<^bold>\<open>Parts of the program.\<close>  The compiler maps C onto the primitives of the core (\<^verbatim>\<open>lib/trv32p3.p\<close>) and, where the
  core has no instruction, onto emulation routines (\<^verbatim>\<open>lib/trv32p3_div.c\<close>, \<^verbatim>\<open>trv32p3_mul.c\<close>,
  \<^verbatim>\<open>trv32p3_longlong.h\<close>, \<^verbatim>\<open>trv32p3_bitfield.h\<close>, the SoftFloat library under \<^verbatim>\<open>lib/softfloat\<close>).  The divide
  unit \<^verbatim>\<open>lib/div.p\<close> runs beside the pipeline and delivers its result after 33 cycles.  The C library is under
  \<^verbatim>\<open>lib/runtime\<close>, and the applications under \<^verbatim>\<open>applications\<close> run on top of it.

  \<^bold>\<open>Theories.\<close>
  \<^item> \<open>CPrelude\<close>: the integer types \<open>u8\<close> to \<open>u64\<close> and lemmas on words; \<open>CMemory\<close>: byte memory as a total function
    of 32-bit addresses, with \<open>rd\<close> and \<open>wr\<close> of byte sequences, and C strings (\<open>cstring m p s\<close>).
  \<^item> \<open>Primitives\<close>: the arithmetic and compare primitives, the set-compare intrinsics, the rewrite rules of the
    compiler (each preserves the value) and the bit-field routines.
  \<^item> \<open>IntEmul\<close>: multiplication and division routines against \<open>*\<close>, \<open>div\<close> and \<open>mod\<close>, division by zero included.
  \<^item> \<open>LongLong\<close>: pairs of words against 64-bit words.
  \<^item> \<open>Divider\<close>: the registers and the two processes of the divide unit, and runs of it over the values of its ports.
  \<^item> \<open>Sha256\<close>: \<^verbatim>\<open>applications/sha-256/sha-256.c\<close> and its driver against FIPS 180-4.
  \<^item> \<open>AesTable\<close>, \<open>Aes\<close>, \<open>AesGcm\<close>, \<open>AesMain\<close>: \<^verbatim>\<open>applications/aes-256-gcm\<close> against FIPS 197 and SP 800-38D, and its
    test program.
  \<^item> \<open>CString\<close>, \<open>CType\<close>, \<open>StrToL\<close>: \<^verbatim>\<open>string.c\<close>, \<^verbatim>\<open>ctype.c\<close>, \<^verbatim>\<open>strtol.c\<close> and \<^verbatim>\<open>strtoul.c\<close> of the C library.
  \<^item> \<open>SfRound\<close>: rounding to binary floating point on naturals; \<open>SfPrim\<close>, \<open>SfF32\<close>, \<open>SfF64\<close>, \<open>SfConv\<close>: the SoftFloat
    functions the library is built from, as functions of bit patterns; \<open>SfF32Ops\<close>, \<open>SfSpec\<close>, \<open>SfF64Ops\<close>, \<open>SfF64Arith\<close>, \<open>SfInt\<close>:
    their values, correct rounding in both precisions, order and round trips.
  \<^item> \<open>Malloc\<close>, \<open>MallocSpec\<close>, \<open>MallocUse\<close>: \<^verbatim>\<open>malloc.c\<close>, its pool and circular list of blocks in byte memory.  The list
    implements the locale \<open>allocator\<close>, in which a program of calls is a run of \<open>heap_reach\<close>.
  \<^item> \<open>Qsort\<close>, \<open>QsortMem\<close>, \<open>Partition\<close>, \<open>QsortSpec\<close>: \<^verbatim>\<open>qsort.c\<close> with the comparison function as a parameter under the
    locale \<open>element_order\<close>, and the arrays of \<^verbatim>\<open>regression/P06_qsort\<close>.
  \<^item> \<open>MathF\<close>, \<open>MathScale\<close>, \<open>MathRoot\<close>: the single-precision functions of \<^verbatim>\<open>math.c\<close> and \<^verbatim>\<open>math.h\<close> that scale, round to
    an integer and take the square root.
  \<^item> \<open>MathD\<close>, \<open>MathMod\<close>, \<open>MathRem\<close>, \<open>MathOut\<close>, \<open>MathFmod\<close>: \<^verbatim>\<open>fmod\<close> of \<^verbatim>\<open>math.c\<close>, a long division on pairs of words: the
    macros of \<^verbatim>\<open>math_private.h\<close>, the code and its alignment, the invariant of the division, the packing of the result.
  \<^item> \<open>Stdio\<close>, \<open>StdioSpec\<close>: \<^verbatim>\<open>stdio.c\<close>, the table of streams over the calls into the simulator host.  The host is a
    parameter; \<open>io_run\<close> is a sequence of calls, whose ledger of open handles is the abstract state.
  \<^item> \<open>JpegTables\<close>, \<open>JpegHuff\<close>, \<open>JpegBits\<close>, \<open>JpegDct\<close>, \<open>JpegVlc\<close>, \<open>Jpeg\<close>: \<^verbatim>\<open>examples/jpeg\<close>, from the pixels to the bytes of the
    file, against a decoder of ITU-T T.81 that reads the tables out of that file.  A byte stored behind the output array
    of 8192 sets the flag \<open>overrun\<close>.
  \<^item> \<open>DataMem\<close>: \<^verbatim>\<open>lib/dm.p\<close>, the alignment unit and the write-back buffer before the data memory, and the accesses of the load
    and store instructions of \<^verbatim>\<open>lib/ldst.n\<close>; a run of one access in each cycle refines the flat memory of \<open>CMemory\<close>.
    The number of address bits and the output of an idle memory are parameters.
  \<^item> \<open>Startup\<close>: \<^verbatim>\<open>crt0.c\<close> and \<^verbatim>\<open>atexit.c\<close>, from \<open>_start\<close> to the exit status, with the stack of handlers as the abstract
    state; \<open>Rand\<close>: \<^verbatim>\<open>rand.c\<close> and the period of its sequence.
  \<^item> this theory: the divide unit against the emulation routines.

  \<^bold>\<open>What the lemmas show.\<close>  Each component theory has the functional behaviour of its operations on every branch.
  Optimised code is shown equal to a reference definition (the standards for the ciphers and the hash, \<open>div\<close> and
  \<open>mod\<close>, 64-bit words, exact arithmetic rounded once).  Findings state where the code departs from what it means to do,
  and the theorems are about the code as it is.

  \<^bold>\<open>Bounds and fuel.\<close>  No definition takes fuel.  Loops with a counter recurse on it.  A loop whose end depends on
  the data (a scan for a byte, the search of the free list, the recursion of \<open>qsort\<close>, the handlers run at exit, the
  normalisation in \<open>sqrtf\<close> and \<open>fmod\<close>) is a \<open>partial_function\<close>, and the properties show that it returns; the handlers at
  exit return exactly when the calls they lead to are finitely many.  Where a function works on an array of fixed size, an
  access outside it is a value of the model (\<open>None\<close> in \<open>AesMain\<close>, \<open>overrun\<close> in \<open>Jpeg\<close>).  \<open>malloc\<close> takes any size;
  the reachable states of \<open>MallocUse\<close> leave out those sizes, from \<open>2\<^sup>3\<^sup>2 - 19\<close> on, for which its count of blocks wraps around
  to 0, and \<open>calloc\<close> and \<open>realloc\<close> are related to their contract below that bound.  SHA-256 is
  related to the standard for the lengths at which the code reads the tail of the message where it is.  The memory
  regions of a call do not wrap around the address space where a theorem says so.

  \<^bold>\<open>Not modelled.\<close>  The vendored \<^verbatim>\<open>src/libs\<close> (newlib, compiler-rt); the settings of the RTL and simulator generators
  (\<^verbatim>\<open>hdl\<close>, \<^verbatim>\<open>iss\<close>); the nML description of the instruction set (\<^verbatim>\<open>lib/*.n\<close>), but for the data accesses of \<^verbatim>\<open>ldst.n\<close>, and with
  it the program memory and the control unit (\<^verbatim>\<open>lib/pm.p\<close>, \<^verbatim>\<open>lib/trv32p3_pcu.p\<close>); the regression tests of the compiler
  except \<^verbatim>\<open>P06_qsort\<close>; the SoftFloat files that \<^verbatim>\<open>softfloat.prx\<close> does not compile and the square-root estimate, which no
  compiled operation calls; the double-precision functions of \<^verbatim>\<open>math.c\<close> except \<open>fmod\<close>, and the transcendental ones;
  \<^verbatim>\<open>stdio_native.c\<close>, which \<^verbatim>\<open>libc.prx\<close> does not compile.  Of the modelled parts, \<open>malloc\<close> is a parameter of the cipher's
  context, the compiler query \<open>chess_manifest\<close> a parameter of the 64-bit operations, and the floating-point exception
  flags, which the build leaves out, have no state.  Division of floating-point numbers is modelled; the theorems on it
  are those on special values, and correct rounding of its quotients is not shown.
\<close>

section \<open>Hardware and software division\<close>

definition emulated_result :: "div_ports \<Rightarrow> u32" where
  "emulated_result p =
     (if is_divs p then fst (div_called_i32 (divA p) (divB p))
      else if is_divu p then fst (div_called_u32 (divA p) (divB p))
      else if is_rems p then snd (div_called_i32 (divA p) (divB p))
      else snd (div_called_u32 (divA p) (divB p)))"

lemma ports_result_emulated:
  "ports_result p = (if divB p = 0 \<and> is_divs p then - 1 else emulated_result p)"
  by (simp add: ports_result_def emulated_result_def div_called_i32_value div_called_u32_value
      divs_def rems_def divu_def remu_def)

text \<open>C28: A run of the divide unit writes the value the emulation routine of the C library computes
  for the same operation and operands, with one exception: a signed quotient by zero is -1 in
  hardware, while the routine returns 1 for a negative dividend.\<close>

theorem divide_unit_agrees_with_emulation:
  assumes "cnt s = 0" "start_ports p" "length ps = 32"
  shows "last (snd (div_run s (p # ps @ [q]))) =
     Some (div_wad p, if divB p = 0 \<and> is_divs p \<and> sint (divA p) < 0 then - emulated_result p
                      else emulated_result p)"
proof -
  have "(if divB p = 0 \<and> is_divs p then - 1 else emulated_result p)
      = (if divB p = 0 \<and> is_divs p \<and> sint (divA p) < 0 then - emulated_result p else emulated_result p)"
    by (simp add: emulated_result_def div_called_i32_value)
  then show ?thesis unfolding div_run_result(2)[OF assms] ports_result_emulated by simp
qed

theorem divide_unit_agrees_with_emulation_witness:
  "last (snd (div_run example_unit
      (example_ports # replicate 32 example_ports @ [example_ports]))) = Some (5, - 3)"
proof -
  have "cnt example_unit = 0" "start_ports example_ports"
    by (simp_all add: example_unit_def example_ports_def start_ports_def)
  moreover have "emulated_result example_ports = - 3" "div_wad example_ports = 5"
    "divB example_ports \<noteq> 0"
    by (simp_all add: emulated_result_def example_ports_def div_called_i32_value)
  ultimately show ?thesis
    using divide_unit_agrees_with_emulation[of example_unit example_ports
      "replicate 32 example_ports" example_ports]
    by (simp only: length_replicate simp_thms if_False)
qed

end
